(* ===== verification/Nut_Prelude.thy ===== *)
theory Nut_Prelude
  imports Main "HOL-Library.Word" "HOL-Library.List_Lexorder"
begin

unbundle bit_operations_syntax

text \<open>
  Shared vocabulary of the development.

  \<^item> Machine integers are words; \<open>usize\<close> values (lengths, offsets, indices into vectors) are
    \<open>nat\<close>: on the 64-bit targets the program runs on they are bounded by the size of the address
    space, and where the source narrows one (\<open>as u32\<close>, \<open>u32::try_from\<close>) the narrowing is written
    out.
  \<^item> A Rust \<open>String\<close> is its byte sequence (\<open>rstring\<close>); \<open>str\<close> comparison is the lexicographic
    order on bytes, which is the order \<open>HOL-Library.List_Lexorder\<close> puts on lists of words.
    \<open>utf8_valid\<close> is the validity test of \<open>String::from_utf8\<close>.
  \<^item> \<open>io::Error\<close> is a kind with its message. A fallible pure function returns a sum; an operation
    that also changes state is a function from the state to a sum and the new state, and
    \<open>and_then\<close> is the \<open>?\<close> operator: the state reached before the error is kept.
  \<^item> A \<open>BTreeMap\<close> is an association list sorted by key (\<open>bm_\<close> operations).
\<close>

section \<open>Machine integers and strings\<close>

type_synonym u8 = "8 word"
type_synonym u16 = "16 word"
type_synonym u32 = "32 word"
type_synonym u64 = "64 word"
type_synonym bytes = "u8 list"
type_synonym rstring = "u8 list"

named_theorems byte_simps \<open>evaluation of byte encodings\<close>
named_theorems bm_simps \<open>laws of the ordered map\<close>

definition ascii :: "string \<Rightarrow> rstring" where
  "ascii s = map of_char s"

text \<open>\<open>checked_add\<close> of \<open>u64\<close>.\<close>

definition checked_add_u64 :: "u64 \<Rightarrow> u64 \<Rightarrow> u64 option" where
  "checked_add_u64 a b = (if unat a + unat b < 2 ^ 64 then Some (a + b) else None)"

definition saturating_add_u64 :: "u64 \<Rightarrow> u64 \<Rightarrow> u64" where
  "saturating_add_u64 a b = (if unat a + unat b < 2 ^ 64 then a + b else -1)"

text \<open>\<open>to_le_bytes\<close> and \<open>from_le_bytes\<close> at every width: \<open>n\<close> is the number of bytes.\<close>

primrec le_bytes :: "nat \<Rightarrow> 'a::len word \<Rightarrow> bytes" where
  "le_bytes 0 w = []"
| "le_bytes (Suc n) w = ucast w # le_bytes n (drop_bit 8 w)"

primrec of_le_bytes :: "bytes \<Rightarrow> 'a::len word" where
  "of_le_bytes [] = 0"
| "of_le_bytes (b # bs) = ucast b OR push_bit 8 (of_le_bytes bs)"

text \<open>
  Well-formed UTF-8 (the table of well-formed byte sequences of the Unicode standard, which
  \<open>core::str::from_utf8\<close> implements): no overlong forms, no surrogates, nothing above U+10FFFF.
  \<open>utf8_step\<close> drops the first scalar value.
\<close>

definition utf8_cont :: "u8 \<Rightarrow> bool" where
  "utf8_cont b \<longleftrightarrow> 0x80 \<le> b \<and> b \<le> 0xBF"

definition utf8_ok2 :: "u8 \<Rightarrow> u8 \<Rightarrow> bool" where
  "utf8_ok2 a b \<longleftrightarrow> 0xC2 \<le> a \<and> a \<le> 0xDF \<and> utf8_cont b"

definition utf8_ok3 :: "u8 \<Rightarrow> u8 \<Rightarrow> u8 \<Rightarrow> bool" where
  "utf8_ok3 a b c \<longleftrightarrow> 0xE0 \<le> a \<and> a \<le> 0xEF \<and> utf8_cont b \<and> utf8_cont c
    \<and> (a = 0xE0 \<longrightarrow> 0xA0 \<le> b) \<and> (a = 0xED \<longrightarrow> b \<le> 0x9F)"

definition utf8_ok4 :: "u8 \<Rightarrow> u8 \<Rightarrow> u8 \<Rightarrow> u8 \<Rightarrow> bool" where
  "utf8_ok4 a b c d \<longleftrightarrow> 0xF0 \<le> a \<and> a \<le> 0xF4 \<and> utf8_cont b \<and> utf8_cont c \<and> utf8_cont d
    \<and> (a = 0xF0 \<longrightarrow> 0x90 \<le> b) \<and> (a = 0xF4 \<longrightarrow> b \<le> 0x8F)"

definition utf8_step :: "bytes \<Rightarrow> bytes option" where
  "utf8_step s = (case s of [] \<Rightarrow> None | a # bs \<Rightarrow>
     if a < 0x80 then Some bs
     else (case bs of [] \<Rightarrow> None | b # cs \<Rightarrow>
       if utf8_ok2 a b then Some cs
       else (case cs of [] \<Rightarrow> None | c # ds \<Rightarrow>
         if utf8_ok3 a b c then Some ds
         else (case ds of [] \<Rightarrow> None | d # es \<Rightarrow>
           if utf8_ok4 a b c d then Some es else None))))"

lemma utf8_step_shorter: "utf8_step s = Some r \<Longrightarrow> length r < length s"
  by (auto simp: utf8_step_def split: list.splits if_split_asm)

function utf8_valid :: "bytes \<Rightarrow> bool" where
  "utf8_valid s = (s = [] \<or> (case utf8_step s of None \<Rightarrow> False | Some r \<Rightarrow> utf8_valid r))"
  by pat_completeness auto
termination
  by (relation "measure length") (auto simp: utf8_step_shorter)

declare utf8_valid.simps [simp del]

section \<open>Errors and effects\<close>

datatype error_kind =
  InvalidData | InvalidInput | NotFound | WriteZero | WouldBlock | NotConnected | TimedOut
| UnexpectedEof | OtherKind

datatype io_error = IoError error_kind string

type_synonym 'a io_result = "io_error + 'a"

definition invalid_data :: "string \<Rightarrow> io_error" where
  "invalid_data msg = IoError InvalidData msg"

definition invalid_input :: "string \<Rightarrow> io_error" where
  "invalid_input msg = IoError InvalidInput msg"

fun rbind :: "'e + 'a \<Rightarrow> ('a \<Rightarrow> 'e + 'b) \<Rightarrow> 'e + 'b" where
  "rbind (Inl e) f = Inl e"
| "rbind (Inr x) f = f x"

fun map_err :: "('e \<Rightarrow> 'f) \<Rightarrow> 'e + 'a \<Rightarrow> 'f + 'a" where
  "map_err f (Inl e) = Inl (f e)"
| "map_err f (Inr x) = Inr x"

definition ok_or :: "'e \<Rightarrow> 'a option \<Rightarrow> 'e + 'a" where
  "ok_or e x = (case x of None \<Rightarrow> Inl e | Some v \<Rightarrow> Inr v)"

text \<open>\<open>iter().map(f).collect::<Result<Vec<_>, _>>()\<close>: stops at the first error.\<close>

primrec collect_results :: "('a \<Rightarrow> 'e + 'b) \<Rightarrow> 'a list \<Rightarrow> 'e + 'b list" where
  "collect_results f [] = Inr []"
| "collect_results f (x # xs) =
    rbind (f x) (\<lambda>y. rbind (collect_results f xs) (\<lambda>ys. Inr (y # ys)))"

text \<open>Effects on a state: the \<open>?\<close> operator keeps the state the failing call left.\<close>

type_synonym ('s, 'e, 'a) eff = "'s \<Rightarrow> ('e + 'a) \<times> 's"

definition and_then :: "('s, 'e, 'a) eff \<Rightarrow> ('a \<Rightarrow> ('s, 'e, 'b) eff) \<Rightarrow> ('s, 'e, 'b) eff" where
  "and_then m f s = (case m s of (Inl e, s') \<Rightarrow> (Inl e, s') | (Inr x, s') \<Rightarrow> f x s')"

lemma and_then_Inr_iff:
  "and_then m f s = (Inr y, s') \<longleftrightarrow> (\<exists>x s1. m s = (Inr x, s1) \<and> f x s1 = (Inr y, s'))"
  by (cases "m s") (auto simp: and_then_def split: sum.split)

section \<open>Ordered maps\<close>

type_synonym ('k, 'v) bmap = "('k \<times> 'v) list"

abbreviation bm_get :: "('k, 'v) bmap \<Rightarrow> 'k \<Rightarrow> 'v option" where
  "bm_get \<equiv> map_of"

abbreviation bm_keys :: "('k, 'v) bmap \<Rightarrow> 'k list" where
  "bm_keys m \<equiv> map fst m"

definition bm_inv :: "('k::linorder, 'v) bmap \<Rightarrow> bool" where
  "bm_inv m \<longleftrightarrow> sorted_wrt (<) (map fst m)"

fun bm_insert :: "'k::linorder \<Rightarrow> 'v \<Rightarrow> ('k, 'v) bmap \<Rightarrow> ('k, 'v) bmap" where
  "bm_insert k v [] = [(k, v)]"
| "bm_insert k v ((k', v') # m) =
    (if k < k' then (k, v) # (k', v') # m
     else if k = k' then (k, v) # m
     else (k', v') # bm_insert k v m)"

definition bm_remove :: "'k \<Rightarrow> ('k, 'v) bmap \<Rightarrow> ('k, 'v) bmap" where
  "bm_remove k m = filter (\<lambda>(k', _). k' \<noteq> k) m"

section \<open>Lemmas: byte encodings\<close>

lemma length_le_bytes [simp, byte_simps]: "length (le_bytes n w) = n"
  by (induction n arbitrary: w) simp_all

lemma of_le_bytes_le_bytes: "of_le_bytes (le_bytes n w) = take_bit (8 * n) w"
proof (induction n arbitrary: w)
  case (Suc n)
  show ?case
    by (rule bit_eqI) (auto simp: Suc bit_simps)
qed simp

lemma of_le_bytes_inverse [simp, byte_simps]:
  "LENGTH('a) \<le> 8 * n \<Longrightarrow> of_le_bytes (le_bytes n (w :: 'a::len word)) = w"
  by (simp add: of_le_bytes_le_bytes take_bit_word_eq_self)

lemma bit_of_le_bytes: "bit (of_le_bytes bs :: 'a::len word) i \<Longrightarrow> i < 8 * length bs"
proof (induction bs arbitrary: i)
  case (Cons b bs)
  from Cons.prems have "i < 8 \<or> bit (of_le_bytes bs :: 'a word) (i - 8)"
    by (auto simp: bit_simps dest: bit_imp_le_length)
  with Cons.IH [of "i - 8"] show ?case by auto
qed simp

lemma le_bytes_inverse:
  "8 * length bs \<le> LENGTH('a) \<Longrightarrow> le_bytes (length bs) (of_le_bytes bs :: 'a::len word) = bs"
proof (induction bs)
  case (Cons b bs)
  have low: "(ucast (of_le_bytes (b # bs) :: 'a word) :: u8) = b"
    by (rule bit_eqI) (use Cons.prems in \<open>auto simp: bit_simps\<close>)
  have high: "drop_bit 8 (of_le_bytes (b # bs) :: 'a word) = of_le_bytes bs"
  proof (rule bit_eqI)
    fix i
    assume "possible_bit TYPE('a word) i"
    show "bit (drop_bit 8 (of_le_bytes (b # bs) :: 'a word)) i = bit (of_le_bytes bs :: 'a word) i"
      using Cons.prems bit_of_le_bytes [of bs i, where 'a = 'a]
      by (auto simp: bit_simps dest: bit_imp_le_length)
  qed
  from low high Cons show ?case
    by simp
qed simp

lemma le_bytes_inverse':
  "length bs = n \<Longrightarrow> 8 * n \<le> LENGTH('a) \<Longrightarrow> le_bytes n (of_le_bytes bs :: 'a::len word) = bs"
  using le_bytes_inverse by blast

lemma le_bytes_inject:
  "LENGTH('a) \<le> 8 * n \<Longrightarrow> le_bytes n (v :: 'a::len word) = le_bytes n w \<longleftrightarrow> v = w"
  by (metis of_le_bytes_inverse)

text \<open>Evaluation of the fixed widths.\<close>

lemma le_bytes_2 [byte_simps]: "le_bytes 2 w = [ucast w, ucast (drop_bit 8 w)]"
  by (simp add: numeral_2_eq_2)

lemma le_bytes_4 [byte_simps]:
  "le_bytes 4 w = [ucast w, ucast (drop_bit 8 w), ucast (drop_bit 16 w), ucast (drop_bit 24 w)]"
  by (simp add: eval_nat_numeral)

lemma le_bytes_8 [byte_simps]:
  "le_bytes 8 w = le_bytes 4 w @ le_bytes 4 (drop_bit 32 w)"
  by (simp add: eval_nat_numeral)

lemma unat_of_nat_u32 [simp]: "n < 2 ^ 32 \<Longrightarrow> unat (of_nat n :: u32) = n"
  by (simp add: unat_of_nat)

lemma unat_of_nat_u64 [simp]: "n < 2 ^ 64 \<Longrightarrow> unat (of_nat n :: u64) = n"
  by (simp add: unat_of_nat)

lemma unat_u32_eq_iff: "unat (w :: u32) = n \<longleftrightarrow> w = of_nat n \<and> n < 2 ^ 32"
  using unsigned_less [of w, where ?'a = nat] by (auto simp: word_unat_eq_iff)

lemma unat_u32_bound: "unat (w :: u32) < 4294967296"
  using unsigned_less [of w, where ?'a = nat] by simp

lemma checked_add_u64_Some:
  "checked_add_u64 a b = Some c \<longleftrightarrow> c = a + b \<and> unat a + unat b < 2 ^ 64"
  by (auto simp: checked_add_u64_def)

lemma unat_add_u64: "unat a + unat b < 2 ^ 64 \<Longrightarrow> unat (a + b :: u64) = unat a + unat b"
  by (simp add: unat_word_ariths)

lemma checked_succ_u64:
  assumes "checked_add_u64 a 1 = Some b"
  shows "unat b = Suc (unat a)" and "a < b" and "b = a + 1"
proof -
  from assms have b: "b = a + 1" and lt: "unat a + unat (1::u64) < 2 ^ 64"
    by (auto simp: checked_add_u64_Some)
  from unat_add_u64 [OF lt] show u: "unat b = Suc (unat a)"
    by (simp add: b)
  from u show "a < b" by (simp add: word_less_nat_alt)
  from b show "b = a + 1" .
qed

section \<open>Lemmas: UTF-8\<close>

lemma utf8_step_append: "utf8_step s = Some r \<Longrightarrow> utf8_step (s @ t) = Some (r @ t)"
  by (auto simp: utf8_step_def split: list.splits if_split_asm)

lemma utf8_valid_Nil [simp]: "utf8_valid []"
  by (simp add: utf8_valid.simps)

lemma utf8_valid_append: "utf8_valid xs \<Longrightarrow> utf8_valid ys \<Longrightarrow> utf8_valid (xs @ ys)"
proof (induction xs rule: utf8_valid.induct)
  case (1 s)
  show ?case
  proof (cases "s = []")
    case False
    with "1.prems" obtain r where r: "utf8_step s = Some r" "utf8_valid r"
      by (auto simp: utf8_valid.simps [of s] split: option.splits)
    with "1" False have "utf8_valid (r @ ys)" by blast
    with utf8_step_append [OF r(1)] False show ?thesis
      by (simp add: utf8_valid.simps [of "s @ ys"])
  qed (use "1.prems" in simp)
qed

lemma utf8_valid_Cons_ascii [simp]: "b < 0x80 \<Longrightarrow> utf8_valid (b # s) = utf8_valid s"
  by (simp add: utf8_valid.simps [of "_ # _"] utf8_step_def)

lemma utf8_valid_ascii: "(\<And>b. b \<in> set s \<Longrightarrow> b < 0x80) \<Longrightarrow> utf8_valid s"
  by (induction s) simp_all

section \<open>Lemmas: results and effects\<close>

lemma rbind_assoc: "rbind (rbind m f) g = rbind m (\<lambda>x. rbind (f x) g)"
  by (cases m) auto

lemma rbind_Inr_iff: "rbind m f = Inr y \<longleftrightarrow> (\<exists>x. m = Inr x \<and> f x = Inr y)"
  by (cases m) auto

lemma rbind_Inl_iff: "rbind m f = Inl e \<longleftrightarrow> m = Inl e \<or> (\<exists>x. m = Inr x \<and> f x = Inl e)"
  by (cases m) auto

lemma map_err_Inr_iff [simp]: "map_err f m = Inr y \<longleftrightarrow> m = Inr y"
  by (cases m) auto

lemma ok_or_Inr_iff [simp]: "ok_or e x = Inr y \<longleftrightarrow> x = Some y"
  by (cases x) (auto simp: ok_or_def)

lemma ok_or_simps [simp]: "ok_or e None = Inl e" "ok_or e (Some x) = Inr x"
  by (simp_all add: ok_or_def)

lemma collect_results_append:
  "collect_results f (xs @ ys) =
    rbind (collect_results f xs) (\<lambda>us. rbind (collect_results f ys) (\<lambda>vs. Inr (us @ vs)))"
proof (induction xs)
  case Nil
  then show ?case by (cases "collect_results f ys") simp_all
next
  case (Cons x xs)
  then show ?case
    by (cases "f x"; cases "collect_results f xs"; cases "collect_results f ys") simp_all
qed

lemma collect_results_map: "(\<And>x. x \<in> set xs \<Longrightarrow> f x = Inr (g x)) \<Longrightarrow> collect_results f xs = Inr (map g xs)"
  by (induction xs) simp_all

lemma collect_results_all:
  "(\<And>x. x \<in> set xs \<Longrightarrow> f (g x) = Inr x) \<Longrightarrow> collect_results f (map g xs) = Inr xs"
  by (induction xs) simp_all

lemma collect_results_length: "collect_results f xs = Inr ys \<Longrightarrow> length ys = length xs"
  by (induction xs arbitrary: ys) (auto simp: rbind_Inr_iff)

lemma and_then_Inl [simp]: "m s = (Inl e, s') \<Longrightarrow> and_then m f s = (Inl e, s')"
  by (simp add: and_then_def)

lemma and_then_Inr [simp]: "m s = (Inr x, s') \<Longrightarrow> and_then m f s = f x s'"
  by (simp add: and_then_def)

section \<open>Lemmas: ordered maps\<close>

lemma bm_get_insert [simp, bm_simps]: "bm_get (bm_insert k v m) = (bm_get m)(k \<mapsto> v)"
  by (induction k v m rule: bm_insert.induct) auto

lemma bm_get_remove [simp, bm_simps]: "bm_get (bm_remove k m) = (bm_get m)(k := None)"
  by (induction m) (auto simp: bm_remove_def)

lemma set_keys_insert [simp, bm_simps]: "fst ` set (bm_insert k v m) = insert k (fst ` set m)"
  by (induction k v m rule: bm_insert.induct) auto

lemma set_keys_remove [simp, bm_simps]: "fst ` set (bm_remove k m) = fst ` set m - {k}"
  by (auto simp: bm_remove_def image_iff)

lemma bm_inv_Nil [simp, bm_simps]: "bm_inv []"
  by (simp add: bm_inv_def)

lemma bm_inv_Cons:
  "bm_inv ((k, v) # m) \<longleftrightarrow> (\<forall>k' \<in> fst ` set m. k < k') \<and> bm_inv m"
  by (auto simp: bm_inv_def)

lemma bm_inv_insert [simp, bm_simps]: "bm_inv m \<Longrightarrow> bm_inv (bm_insert k v m)"
  by (induction k v m rule: bm_insert.induct) (auto simp: bm_inv_Cons)

lemma bm_inv_remove [simp, bm_simps]: "bm_inv m \<Longrightarrow> bm_inv (bm_remove k m)"
  by (induction m) (auto simp: bm_remove_def bm_inv_Cons)

lemma bm_inv_distinct: "bm_inv m \<Longrightarrow> distinct (map fst m)"
  by (simp add: bm_inv_def strict_sorted_iff)

lemma bm_get_in: "bm_inv m \<Longrightarrow> (k, v) \<in> set m \<longleftrightarrow> bm_get m k = Some v"
  by (simp add: bm_inv_distinct)

lemma bm_get_dom: "bm_get m k \<noteq> None \<longleftrightarrow> k \<in> fst ` set m"
  by (metis map_of_eq_None_iff)

end
