(* ===== verification/Crc.thy ===== *)
theory Crc
  imports Nut_Prelude
begin

text \<open>
  \<open>src/src/crc.rs\<close>: the CRC-32 that guards every log record and every page. The model is the
  bit-serial loop of the source on 32-bit words. The lemmas show that the register update is
  linear over exclusive or and injective, which is what makes the checksum detect every change
  that is confined to four consecutive bytes. What the log relies on is the locale \<open>checksum\<close>,
  interpreted on \<open>crc32\<close>.
\<close>

unbundle bit_operations_syntax

section \<open>The checksum\<close>

definition POLYNOMIAL :: u32 where
  "POLYNOMIAL = 0xEDB88320"

text \<open>One round of the inner loop: \<open>mask = (crc & 1).wrapping_neg()\<close>.\<close>

definition crc_round :: "u32 \<Rightarrow> u32" where
  "crc_round crc = drop_bit 1 crc XOR (POLYNOMIAL AND (- (crc AND 1)))"

definition crc_byte :: "u32 \<Rightarrow> u8 \<Rightarrow> u32" where
  "crc_byte crc byte = (crc_round ^^ 8) (crc XOR ucast byte)"

definition crc32 :: "bytes \<Rightarrow> u32" where
  "crc32 data = NOT (foldl crc_byte 0xFFFFFFFF data)"

section \<open>Algebra of the register\<close>

lemma crc_mask: "- (crc AND 1 :: u32) = (if bit crc 0 then -1 else 0)"
  by (simp add: and_one_eq bit_0 odd_iff_mod_2_eq_one flip: mod_2_eq_odd)

lemma crc_round_alt: "crc_round crc = drop_bit 1 crc XOR (if bit crc 0 then POLYNOMIAL else 0)"
  by (simp add: crc_round_def crc_mask)

lemma crc_round_xor: "crc_round (a XOR b) = crc_round a XOR crc_round b"
  by (rule bit_eqI) (auto simp: crc_round_alt bit_simps)

lemma crc_round_pow_xor: "(crc_round ^^ n) (a XOR b) = (crc_round ^^ n) a XOR (crc_round ^^ n) b"
  by (induction n) (simp_all add: crc_round_xor)

lemma bit_crc_round_31: "bit (crc_round a) 31 = bit a 0"
  by (auto simp: crc_round_alt bit_simps POLYNOMIAL_def dest: bit_imp_le_length)

lemma crc_round_eq_0: "crc_round a = 0 \<Longrightarrow> a = 0"
proof -
  assume z: "crc_round a = 0"
  then have b0: "\<not> bit a 0" using bit_crc_round_31 [of a] by simp
  with z have d: "drop_bit (Suc 0) a = 0" by (simp add: crc_round_alt)
  show "a = 0"
  proof (rule bit_eqI)
    fix i
    show "bit a i = bit (0::u32) i"
    proof (cases i)
      case (Suc j)
      have "bit a i = bit (drop_bit (Suc 0) a) j" by (simp add: Suc bit_simps)
      then show ?thesis by (simp add: d)
    qed (use b0 in simp)
  qed
qed

lemma crc_round_pow_eq_0: "(crc_round ^^ n) a = 0 \<Longrightarrow> a = 0"
  by (induction n) (auto dest: crc_round_eq_0)

lemma xor_left_cancel_u32: "a XOR b = a XOR c \<longleftrightarrow> b = (c :: u32)"
proof
  assume "a XOR b = a XOR c"
  then have "a XOR (a XOR b) = a XOR (a XOR c)" by (rule arg_cong)
  then show "b = c" by (simp only: xor.assoc [symmetric] xor_self_eq xor.left_neutral)
qed simp

lemma inj_crc_round_pow: "(crc_round ^^ n) a = (crc_round ^^ n) b \<longleftrightarrow> a = b"
proof
  assume "(crc_round ^^ n) a = (crc_round ^^ n) b"
  then have "(crc_round ^^ n) (a XOR b) = 0" by (simp add: crc_round_pow_xor)
  then have "a XOR b = 0" by (rule crc_round_pow_eq_0)
  then have "b XOR a = b XOR b" by (simp add: xor.commute)
  then show "a = b" by (simp only: xor_left_cancel_u32)
qed simp

text \<open>Bits that stay above bit 0 are only shifted down: eight rounds undo a shift by eight.\<close>

lemma crc_round_push_bit:
  assumes "\<And>i. bit y i \<Longrightarrow> i + Suc n < 32"
  shows "crc_round (push_bit (Suc n) y) = push_bit n y"
  by (rule bit_eqI) (auto simp: crc_round_alt bit_simps simp del: push_bit_Suc dest: assms)

lemma crc_round_pow_push_bit:
  "(\<And>i. bit y i \<Longrightarrow> i + n < 32) \<Longrightarrow> (crc_round ^^ n) (push_bit n y) = y"
proof (induction n)
  case (Suc n)
  then have "crc_round (push_bit (Suc n) y) = push_bit n y"
    by (intro crc_round_push_bit) auto
  moreover have "(crc_round ^^ n) (push_bit n y) = y"
    by (rule Suc.IH) (use Suc.prems in fastforce)
  ultimately show ?case
    by (simp add: funpow_Suc_right del: funpow.simps push_bit_Suc)
qed simp

lemma of_le_bytes_Cons_xor: "(of_le_bytes (b # bs) :: u32) = ucast b XOR push_bit 8 (of_le_bytes bs)"
  by (rule bit_eqI) (auto simp: bit_simps dest: bit_imp_le_length)

text \<open>Up to four bytes enter the register as one word.\<close>

lemma foldl_crc_byte_word:
  "length bs \<le> 4 \<Longrightarrow>
    foldl crc_byte r bs = (crc_round ^^ (8 * length bs)) (r XOR of_le_bytes bs)"
proof (induction bs arbitrary: r)
  case (Cons b bs)
  let ?w = "of_le_bytes bs :: u32"
  have shift: "(crc_round ^^ 8) (push_bit 8 ?w) = ?w"
    by (rule crc_round_pow_push_bit) (use Cons.prems in \<open>auto dest!: bit_of_le_bytes\<close>)
  have "foldl crc_byte r (b # bs) = (crc_round ^^ (8 * length bs)) (crc_byte r b XOR ?w)"
    using Cons by simp
  also have "crc_byte r b XOR ?w = (crc_round ^^ 8) ((r XOR ucast b) XOR push_bit 8 ?w)"
    by (simp add: crc_byte_def crc_round_pow_xor shift)
  also have "(r XOR ucast b) XOR push_bit 8 ?w = r XOR of_le_bytes (b # bs)"
    by (simp only: of_le_bytes_Cons_xor xor.assoc)
  finally show ?case
    by (simp add: funpow_add [symmetric, THEN fun_cong, unfolded o_apply] add.commute)
qed simp

lemma inj_crc_byte: "crc_byte r b = crc_byte r' b \<longleftrightarrow> r = r'"
proof -
  have "crc_byte r b = crc_byte r' b \<longleftrightarrow> r XOR ucast b = r' XOR ucast b"
    by (simp add: crc_byte_def inj_crc_round_pow)
  also have "\<dots> \<longleftrightarrow> r = r'"
    by (simp only: xor_left_cancel_u32 xor.commute [of _ "ucast b"])
  finally show ?thesis .
qed

lemma inj_foldl_crc_byte: "foldl crc_byte r bs = foldl crc_byte r' bs \<longleftrightarrow> r = r'"
  by (induction bs arbitrary: r r') (simp_all add: inj_crc_byte)

lemma of_le_bytes_u32_inject:
  assumes "length xs = length ys" and "length xs \<le> 4"
  shows "(of_le_bytes xs :: u32) = of_le_bytes ys \<longleftrightarrow> xs = ys"
proof
  assume eq: "(of_le_bytes xs :: u32) = of_le_bytes ys"
  have "xs = le_bytes (length xs) (of_le_bytes xs :: u32)"
    and "ys = le_bytes (length ys) (of_le_bytes ys :: u32)"
    using assms by (simp_all add: le_bytes_inverse')
  with eq assms(1) show "xs = ys" by simp
qed simp

lemma crc32_burst:
  assumes "length xs = length ys" and "length xs \<le> 4"
  shows "crc32 (pre @ xs @ post) = crc32 (pre @ ys @ post) \<longleftrightarrow> xs = ys"
proof -
  let ?r = "foldl crc_byte 0xFFFFFFFF pre"
  have "crc32 (pre @ xs @ post) = crc32 (pre @ ys @ post) \<longleftrightarrow> foldl crc_byte ?r xs = foldl crc_byte ?r ys"
    by (simp add: crc32_def inj_foldl_crc_byte)
  also have "\<dots> \<longleftrightarrow> ?r XOR of_le_bytes xs = ?r XOR of_le_bytes ys"
    using assms by (simp add: foldl_crc_byte_word inj_crc_round_pow)
  also have "\<dots> \<longleftrightarrow> (of_le_bytes xs :: u32) = of_le_bytes ys"
    by (simp only: xor_left_cancel_u32)
  also have "\<dots> \<longleftrightarrow> xs = ys"
    using assms by (rule of_le_bytes_u32_inject)
  finally show ?thesis .
qed

lemma crc32_Nil [simp]: "crc32 [] = 0"
  by (simp add: crc32_def)

text \<open>Evaluation: a round is unfolded only once its argument is a numeral.\<close>

lemma crc_byte_eval:
  "crc_byte r b = crc_round (crc_round (crc_round (crc_round
    (crc_round (crc_round (crc_round (crc_round (r XOR ucast b))))))))"
  by (simp add: crc_byte_def numeral_eq_Suc)

lemma crc_round_numeral:
  "crc_round 0 = 0"
  "crc_round 1 = 0xEDB88320"
  "crc_round (numeral n) = drop_bit 1 (numeral n) XOR (if bit (numeral n :: u32) 0 then 0xEDB88320 else 0)"
  by (simp_all add: crc_round_alt POLYNOMIAL_def)

section \<open>What the log relies on\<close>

locale checksum =
  fixes crc :: "bytes \<Rightarrow> u32"
  assumes burst: "length xs = length ys \<Longrightarrow> length xs \<le> 4 \<Longrightarrow>
    crc (pre @ xs @ post) = crc (pre @ ys @ post) \<Longrightarrow> xs = ys"
begin

lemma byte_detected: "crc (pre @ x # post) = crc (pre @ y # post) \<Longrightarrow> x = y"
  using burst [of "[x]" "[y]" pre post] by simp

lemma update_detected:
  assumes "i < length data" and "b \<noteq> data ! i"
  shows "crc (data[i := b]) \<noteq> crc data"
proof
  assume "crc (data[i := b]) = crc data"
  moreover have "data[i := b] = take i data @ b # drop (Suc i) data"
    and "data = take i data @ data ! i # drop (Suc i) data"
    using assms(1) by (simp_all add: upd_conv_take_nth_drop id_take_nth_drop)
  ultimately have "b = data ! i"
    using byte_detected [of "take i data" b "drop (Suc i) data" "data ! i"] by simp
  with assms(2) show False by simp
qed

end

interpretation crc: checksum crc32
  by unfold_locales (simp add: crc32_burst)

section \<open>Properties\<close>

text \<open>
  C1. The CRC-32 of the program detects every error burst of up to 32 bits that lies within four
  consecutive bytes: two messages that agree outside a window of at most four bytes have the same
  checksum exactly when they agree inside it too. In particular a single flipped bit is always
  detected.
\<close>

theorem crc32_detects_bursts:
  assumes "length xs = length ys" and "length xs \<le> 4"
  shows "crc32 (pre @ xs @ post) = crc32 (pre @ ys @ post) \<longleftrightarrow> xs = ys"
  using assms by (rule crc32_burst)

theorem crc32_detects_bursts_witness:
  "crc32 ([104] @ [101, 108] @ [108, 111]) \<noteq> crc32 ([104] @ [101, 109] @ [108, 111 :: u8])"
  using crc32_detects_bursts [of "[101, 108]" "[101, 109]" "[104]" "[108, 111]"] by simp

text \<open>
  The checksum is the standard CRC-32 on the published test vectors: the empty message, the
  message \<open>a\<close> and the check message \<open>123456789\<close>.
\<close>

theorem crc32_known_vectors:
  "crc32 [] = 0
   \<and> crc32 (ascii ''a'') = 0xE8B7BE43
   \<and> crc32 (ascii ''123456789'') = 0xCBF43926"
  by (simp add: crc32_def ascii_def crc_byte_eval crc_round_numeral)

end
