(* ===== verification/Wal.thy ===== *)
theory Wal
  imports Crc
begin

text \<open>
  \<open>src/src/wal.rs\<close>: the checksummed append-only log. A log file is its byte sequence; \<open>wal\<close> adds
  the length of the prefix known to be on stable storage (what the last successful \<open>sync_all\<close>
  covered) and the outcomes the operating system will give to the coming write and sync calls, so
  that short writes and failing syncs are ordinary inputs of the model. \<open>replay\<close> is given the content of the file
  (or none, when it is missing): errors of the open, metadata and read calls, which the code returns as they are,
  are not modelled.
\<close>

section \<open>The file and its faults\<close>

text \<open>
  \<open>Fault n e\<close>: the call fails with \<open>e\<close>; a write has transferred \<open>n\<close> bytes before that (never the
  whole buffer, since \<open>write_all\<close> fails only while bytes remain). An empty schedule means that
  every further call succeeds.
\<close>

datatype io_outcome = Done | Fault nat io_error

record wal =
  wal_bytes :: bytes
  wal_synced :: nat
  wal_faults :: "io_outcome list"

definition next_outcome :: "wal \<Rightarrow> io_outcome \<times> wal" where
  "next_outcome w = (case wal_faults w of
     [] \<Rightarrow> (Done, w)
   | f # fs \<Rightarrow> (f, w\<lparr>wal_faults := fs\<rparr>))"

definition write_all :: "bytes \<Rightarrow> (wal, io_error, unit) eff" where
  "write_all buf w = (case next_outcome w of
     (Done, w') \<Rightarrow> (Inr (), w'\<lparr>wal_bytes := wal_bytes w' @ buf\<rparr>)
   | (Fault n e, w') \<Rightarrow>
       (Inl e, w'\<lparr>wal_bytes := wal_bytes w' @ take (min n (length buf - 1)) buf\<rparr>))"

definition sync_all :: "(wal, io_error, unit) eff" where
  "sync_all w = (case next_outcome w of
     (Done, w') \<Rightarrow> (Inr (), w'\<lparr>wal_synced := length (wal_bytes w')\<rparr>)
   | (Fault n e, w') \<Rightarrow> (Inl e, w'))"

definition truncate_all :: "(wal, io_error, unit) eff" where
  "truncate_all w = (case next_outcome w of
     (Done, w') \<Rightarrow> (Inr (), w'\<lparr>wal_bytes := [], wal_synced := 0\<rparr>)
   | (Fault n e, w') \<Rightarrow> (Inl e, w'))"

section \<open>Operations\<close>

definition HEADER_LEN :: nat where
  "HEADER_LEN = 8"

text \<open>The record \<open>append\<close> assembles: \<open>[len][crc][payload]\<close>.\<close>

definition frame :: "bytes \<Rightarrow> bytes" where
  "frame payload =
    le_bytes 4 (of_nat (length payload) :: u32) @ le_bytes 4 (crc32 payload) @ payload"

definition append_record :: "bytes \<Rightarrow> (wal, io_error, unit) eff" where
  "append_record payload w =
    (if length payload < 2 ^ 32 then write_all (frame payload) w
     else (Inl (invalid_input ''wal: record exceeds 4 GiB''), w))"

definition sync :: "(wal, io_error, unit) eff" where
  "sync w = sync_all w"

definition reset :: "(wal, io_error, unit) eff" where
  "reset = and_then truncate_all (\<lambda>_. sync_all)"

definition size_of_wal :: "wal \<Rightarrow> nat" where
  "size_of_wal w = length (wal_bytes w)"

datatype read_outcome = Full | Partial | Eof

text \<open>
  \<open>read_exact_or_eof\<close> on a reader whose remaining input is \<open>input\<close>: the outcome, the bytes read
  and the input left.
\<close>

definition read_exact_or_eof :: "nat \<Rightarrow> bytes \<Rightarrow> read_outcome \<times> bytes \<times> bytes" where
  "read_exact_or_eof len input =
    (if len = 0 then (Full, [], input)
     else (let filled = min len (length input) in
       (if filled = 0 then Eof else if filled = len then Full else Partial,
        take len input, drop len input)))"

record replay_result =
  records :: "bytes list"
  truncated :: bool
  valid_bytes :: nat

text \<open>
  The loop of \<open>replay\<close>: \<open>input\<close> is what the reader has left, \<open>recs\<close> and \<open>valid\<close> are its
  accumulators.
\<close>

function replay_loop :: "nat \<Rightarrow> bytes \<Rightarrow> bytes list \<Rightarrow> nat \<Rightarrow> replay_result" where
  "replay_loop file_len input recs valid =
    (case read_exact_or_eof HEADER_LEN input of
       (Eof, header, rest) \<Rightarrow> \<lparr>records = recs, truncated = False, valid_bytes = valid\<rparr>
     | (Partial, header, rest) \<Rightarrow> \<lparr>records = recs, truncated = True, valid_bytes = valid\<rparr>
     | (Full, header, rest) \<Rightarrow>
        (let len = unat (of_le_bytes (take 4 header) :: u32);
             expected_crc = (of_le_bytes (take 4 (drop 4 header)) :: u32);
             remaining = file_len - (valid + HEADER_LEN)
         in if len > remaining then \<lparr>records = recs, truncated = True, valid_bytes = valid\<rparr>
            else (case read_exact_or_eof len rest of
               (Full, payload, rest') \<Rightarrow>
                 if crc32 payload \<noteq> expected_crc
                 then \<lparr>records = recs, truncated = True, valid_bytes = valid\<rparr>
                 else replay_loop file_len rest' (recs @ [payload]) (valid + (HEADER_LEN + len))
             | _ \<Rightarrow> \<lparr>records = recs, truncated = True, valid_bytes = valid\<rparr>)))"
  by pat_completeness auto
termination
  by (relation "measure (\<lambda>(file_len, input, recs, valid). length input)")
     (auto simp: read_exact_or_eof_def HEADER_LEN_def Let_def split: if_splits)

declare replay_loop.simps [simp del]

text \<open>A missing file replays as an empty log.\<close>

definition replay :: "bytes option \<Rightarrow> replay_result" where
  "replay file = (case file of
     None \<Rightarrow> \<lparr>records = [], truncated = False, valid_bytes = 0\<rparr>
   | Some content \<Rightarrow> replay_loop (length content) content [] 0)"

text \<open>
  The log file as \<open>Wal::open\<close> finds it, created when it is missing. What is read back after a
  crash is what stable storage holds, so all of it counts as synced.
\<close>

definition open_wal :: "bytes option \<Rightarrow> io_outcome list \<Rightarrow> wal" where
  "open_wal file faults =
    (let content = (case file of None \<Rightarrow> [] | Some c \<Rightarrow> c)
     in \<lparr>wal_bytes = content, wal_synced = length content, wal_faults = faults\<rparr>)"

text \<open>\<open>set_len\<close> cuts the file, or extends it with zeroes; \<open>truncate_path\<close> then syncs.\<close>

definition set_len :: "nat \<Rightarrow> (wal, io_error, unit) eff" where
  "set_len n w = (case next_outcome w of
     (Done, w') \<Rightarrow> (Inr (), w'\<lparr>
        wal_bytes := take n (wal_bytes w') @ replicate (n - length (wal_bytes w')) 0,
        wal_synced := min n (wal_synced w')\<rparr>)
   | (Fault k e, w') \<Rightarrow> (Inl e, w'))"

definition truncate_path :: "nat \<Rightarrow> (wal, io_error, unit) eff" where
  "truncate_path n = and_then (set_len n) (\<lambda>_. sync_all)"

section \<open>The log as a sequence of records\<close>

definition wal_log :: "bytes list \<Rightarrow> bytes" where
  "wal_log rs = concat (map frame rs)"

definition fits_record :: "bytes \<Rightarrow> bool" where
  "fits_record p \<longleftrightarrow> length p < 2 ^ 32"

definition starts_with_frame :: "bytes \<Rightarrow> bool" where
  "starts_with_frame t \<longleftrightarrow> (\<exists>p rest. fits_record p \<and> t = frame p @ rest)"

text \<open>What a crash leaves of the file: the synced prefix and some part of what was written after it.\<close>

definition crash_image :: "wal \<Rightarrow> bytes \<Rightarrow> bool" where
  "crash_image w f \<longleftrightarrow> (\<exists>n. wal_synced w \<le> n \<and> f = take n (wal_bytes w))"

lemma length_frame [simp]: "length (frame p) = 8 + length p"
  by (simp add: frame_def)

lemma frame_parts:
  "take 8 (frame p @ t) = le_bytes 4 (of_nat (length p) :: u32) @ le_bytes 4 (crc32 p)"
  "drop 8 (frame p @ t) = p @ t"
  "take 4 (frame p @ t) = le_bytes 4 (of_nat (length p) :: u32)"
  by (simp_all add: frame_def)

lemma wal_log_simps [simp]:
  "wal_log [] = []"
  "wal_log (r # rs) = frame r @ wal_log rs"
  "wal_log (rs @ rs') = wal_log rs @ wal_log rs'"
  by (simp_all add: wal_log_def)

lemma read_exact_or_eof_Full:
  "n \<le> length input \<Longrightarrow> read_exact_or_eof n input = (Full, take n input, drop n input)"
  by (simp add: read_exact_or_eof_def Let_def)

text \<open>One iteration of the loop, by whether the input starts with a complete record.\<close>

lemma replay_loop_frame:
  assumes "fits_record p" and "file_len = valid + length (frame p @ rest)"
  shows "replay_loop file_len (frame p @ rest) recs valid =
    replay_loop file_len rest (recs @ [p]) (valid + length (frame p))"
proof -
  have len: "unat (of_nat (length p) :: u32) = length p"
    using assms(1) by (simp add: fits_record_def)
  have hdr: "read_exact_or_eof 8 (frame p @ rest) =
      (Full, le_bytes 4 (of_nat (length p) :: u32) @ le_bytes 4 (crc32 p), p @ rest)"
    by (subst read_exact_or_eof_Full) (simp_all add: frame_parts del: drop_append take_append)
  have pay: "read_exact_or_eof (length p) (p @ rest) = (Full, p, rest)"
    by (simp add: read_exact_or_eof_Full)
  show ?thesis
    by (subst replay_loop.simps)
       (simp add: assms(2) hdr len pay HEADER_LEN_def Let_def)
qed

lemma header_complete:
  assumes "8 \<le> length t" and "unat (of_le_bytes (take 4 t) :: u32) \<le> length t - 8"
    and "crc32 (take (unat (of_le_bytes (take 4 t) :: u32)) (drop 8 t)) = of_le_bytes (take 4 (drop 4 t))"
  shows "starts_with_frame t"
proof -
  let ?len = "unat (of_le_bytes (take 4 t) :: u32)"
  let ?p = "take ?len (drop 8 t)"
  have lp: "length ?p = ?len" using assms(2) by simp
  have "le_bytes 4 (of_nat (length ?p) :: u32) = take 4 t"
    using assms(1) le_bytes_inverse' [of "take 4 t" 4, where 'a = 32] by (simp add: lp [simplified])
  moreover have "le_bytes 4 (crc32 ?p) = take 4 (drop 4 t)"
    using assms(1,3) by (simp add: le_bytes_inverse')
  moreover have "drop 8 t = drop 4 (drop 4 t)" by simp
  then have "take 4 t @ take 4 (drop 4 t) @ drop 8 t = t"
    by (simp only: append_take_drop_id)
  ultimately have "t = frame ?p @ drop ?len (drop 8 t)"
    unfolding frame_def by (metis append.assoc append_take_drop_id)
  moreover have "fits_record ?p"
    using unat_u32_bound lp by (simp add: fits_record_def del: length_take)
  ultimately show ?thesis unfolding starts_with_frame_def by blast
qed

lemma replay_loop_stop:
  assumes "\<not> starts_with_frame t" and "file_len = valid + length t"
  shows "replay_loop file_len t recs valid =
    \<lparr>records = recs, truncated = (t \<noteq> []), valid_bytes = valid\<rparr>"
proof (cases "length t < 8")
  case True
  then show ?thesis
    by (auto simp: replay_loop.simps [of file_len t] read_exact_or_eof_def HEADER_LEN_def)
next
  case False
  let ?len = "unat (of_le_bytes (take 4 t) :: u32)"
  have hdr: "read_exact_or_eof 8 t = (Full, take 8 t, drop 8 t)"
    using False by (simp add: read_exact_or_eof_Full)
  have pay: "read_exact_or_eof ?len (drop 8 t) = (Full, take ?len (drop 8 t), drop ?len (drop 8 t))"
    if "?len \<le> length t - 8"
    using that by (simp add: read_exact_or_eof_Full)
  have "crc32 (take ?len (drop 8 t)) \<noteq> of_le_bytes (take 4 (drop 4 t))"
    if "?len \<le> length t - 8"
    using header_complete [OF _ that] False assms(1) by auto
  with pay False show ?thesis
    by (subst replay_loop.simps) (auto simp: assms(2) hdr Let_def HEADER_LEN_def drop_take)
qed

lemma starts_with_frame_frame [simp]: "fits_record p \<Longrightarrow> starts_with_frame (frame p @ t)"
  unfolding starts_with_frame_def by blast

lemma frame_not_Nil [simp]: "frame p \<noteq> []"
  using length_frame [of p] by (metis add_is_0 list.size(3) zero_neq_numeral)

lemma not_starts_with_frame_Nil [simp]: "\<not> starts_with_frame []"
  by (auto simp: starts_with_frame_def)

text \<open>The loop consumes whole records and stops at the first thing that is not one.\<close>

lemma replay_loop_log:
  assumes "list_all fits_record rs" and "file_len = valid + length (wal_log rs @ t)"
  shows "replay_loop file_len (wal_log rs @ t) recs valid =
    replay_loop file_len t (recs @ rs) (valid + length (wal_log rs))"
  using assms
proof (induction rs arbitrary: recs valid)
  case (Cons p rs)
  have "replay_loop file_len (wal_log (p # rs) @ t) recs valid =
      replay_loop file_len (wal_log rs @ t) (recs @ [p]) (valid + length (frame p))"
    using Cons.prems replay_loop_frame [of p file_len valid "wal_log rs @ t" recs] by simp
  also have "\<dots> = replay_loop file_len t ((recs @ [p]) @ rs) (valid + length (frame p) + length (wal_log rs))"
    using Cons.prems by (intro Cons.IH) simp_all
  finally show ?case by (simp add: add.assoc)
qed simp

lemma replay_log_tail:
  assumes "list_all fits_record rs" and "\<not> starts_with_frame t"
  shows "replay (Some (wal_log rs @ t)) =
    \<lparr>records = rs, truncated = (t \<noteq> []), valid_bytes = length (wal_log rs)\<rparr>"
  using replay_loop_log [of rs "length (wal_log rs @ t)" 0 t "[]"] assms
    replay_loop_stop [of t "length (wal_log rs @ t)" "length (wal_log rs)" rs]
  by (simp add: replay_def)

lemma replay_log:
  "list_all fits_record rs \<Longrightarrow> replay (Some (wal_log rs)) =
    \<lparr>records = rs, truncated = False, valid_bytes = length (wal_log rs)\<rparr>"
  using replay_log_tail [of rs "[]"] by simp

lemma split_log:
  "\<exists>rs t. content = wal_log rs @ t \<and> (list_all fits_record rs) \<and> \<not> starts_with_frame t"
proof (induction content rule: length_induct)
  case (1 content)
  show ?case
  proof (cases "starts_with_frame content")
    case True
    then obtain p rest where p: "fits_record p" "content = frame p @ rest"
      by (auto simp: starts_with_frame_def)
    with "1" obtain rs t where
      "rest = wal_log rs @ t" "list_all fits_record rs" "\<not> starts_with_frame t"
      by (metis add_less_same_cancel2 length_append length_frame not_add_less1 trans_less_add1
          zero_less_numeral less_add_same_cancel2 add_pos_nonneg zero_le)
    with p show ?thesis by (intro exI [of _ "p # rs"] exI [of _ t]) simp
  next
    case False
    then show ?thesis by (intro exI [of _ "[]"] exI [of _ content]) simp
  qed
qed

text \<open>
  Complete description of \<open>replay\<close>: the records are the longest sequence of intact records the
  file starts with.
\<close>

lemma replay_iff:
  "replay (Some content) = r \<longleftrightarrow>
    (\<exists>t. content = wal_log (records r) @ t \<and> list_all fits_record (records r)
       \<and> \<not> starts_with_frame t \<and> truncated r = (t \<noteq> [])
       \<and> valid_bytes r = length (wal_log (records r)))"
  (is "?L \<longleftrightarrow> ?R")
proof
  obtain rs t where rt: "content = wal_log rs @ t" "list_all fits_record rs" "\<not> starts_with_frame t"
    using split_log by blast
  assume ?L
  then have "r = \<lparr>records = rs, truncated = (t \<noteq> []), valid_bytes = length (wal_log rs)\<rparr>"
    using rt by (simp add: replay_log_tail)
  with rt show ?R by auto
next
  assume ?R
  then obtain t where "content = wal_log (records r) @ t" "list_all fits_record (records r)"
    "\<not> starts_with_frame t" "truncated r = (t \<noteq> [])" "valid_bytes r = length (wal_log (records r))"
    by blast
  then show ?L by (cases r) (simp add: replay_log_tail del: append_Nil2)
qed

section \<open>Torn and corrupt records\<close>

text \<open>A part of a record is never mistaken for a record: its length field says how long it is.\<close>

lemma torn_frame:
  assumes "fits_record p" and "n < length (frame p)"
  shows "\<not> starts_with_frame (take n (frame p))"
proof
  assume "starts_with_frame (take n (frame p))"
  then obtain q rest where q: "fits_record q" "take n (frame p) = frame q @ rest"
    by (auto simp: starts_with_frame_def)
  then have len: "n = length (frame q @ rest)"
    using assms(2) by (metis length_take min.absorb4)
  then have n4: "4 \<le> n" by simp
  have "take 4 (take n (frame p)) = le_bytes 4 (of_nat (length p) :: u32)"
    using n4 frame_parts(3) [of p "[]"] by simp
  moreover have "take 4 (take n (frame p)) = le_bytes 4 (of_nat (length q) :: u32)"
    unfolding q(2) by (rule frame_parts(3))
  ultimately have "(of_nat (length p) :: u32) = of_nat (length q)"
    using le_bytes_inject [of 4 "of_nat (length p) :: u32" "of_nat (length q)"] by simp
  then have "length p = length q"
    using assms(1) q(1) unfolding fits_record_def by (metis unat_of_nat_u32)
  with len assms(2) show False by simp
qed

text \<open>
  A record whose payload was changed within a window of four bytes no longer matches the checksum in
  its header.
\<close>

lemma corrupt_frame:
  assumes "fits_record (pre @ xs @ post)" and "length ys = length xs" and "length xs \<le> 4"
    and "xs \<noteq> ys"
  shows "\<not> starts_with_frame (take 8 (frame (pre @ xs @ post)) @ (pre @ ys @ post) @ t)"
proof
  let ?p = "pre @ xs @ post" and ?q = "pre @ ys @ post"
  assume "starts_with_frame (take 8 (frame ?p) @ ?q @ t)"
  then obtain r rest where r: "fits_record r" "take 8 (frame ?p) @ ?q @ t = frame r @ rest"
    by (auto simp: starts_with_frame_def)
  have "take 8 (frame ?p) = take 8 (frame r @ rest)"
    unfolding r(2) [symmetric] by simp
  then have hdr: "le_bytes 4 (of_nat (length ?p) :: u32) @ le_bytes 4 (crc32 ?p) =
      le_bytes 4 (of_nat (length r) :: u32) @ le_bytes 4 (crc32 r)"
    using frame_parts(1) [of ?p "[]"] frame_parts(1) [of r rest] by simp
  then have "(of_nat (length ?p) :: u32) = of_nat (length r)" and crc: "crc32 ?p = crc32 r"
    by (simp_all add: le_bytes_inject del: length_append)
  then have "length r = length ?p"
    using assms(1) r(1) unfolding fits_record_def by (metis unat_of_nat_u32)
  moreover have "?q @ t = r @ rest"
    using arg_cong [OF r(2), of "drop 8"] frame_parts(2) [of r rest]
    by (simp add: drop_append [of _ "take _ _"] del: drop_append append_assoc)
  ultimately have "r = ?q"
    using assms(2) append_eq_append_conv [of r ?q rest t] by (simp del: append_assoc)
  with crc have "crc32 (pre @ xs @ post) = crc32 (pre @ ys @ post)" by simp
  then have "xs = ys" by (rule crc.burst [OF assms(2) [symmetric] assms(3)])
  with assms(4) show False ..
qed

text \<open>Cutting a log anywhere leaves whole records and at most one torn one.\<close>

lemma take_wal_log:
  assumes "list_all fits_record rs"
  shows "\<exists>k t. take n (wal_log rs) = wal_log (take k rs) @ t \<and> \<not> starts_with_frame t
    \<and> length (wal_log (take k rs)) \<le> n"
  using assms
proof (induction rs arbitrary: n)
  case (Cons p rs)
  show ?case
  proof (cases "n < length (frame p)")
    case True
    with Cons.prems have "\<not> starts_with_frame (take n (frame p))" by (simp add: torn_frame)
    with True show ?thesis by (intro exI [of _ 0] exI [of _ "take n (frame p)"]) simp
  next
    case False
    obtain k t where kt: "take (n - length (frame p)) (wal_log rs) = wal_log (take k rs) @ t"
      "\<not> starts_with_frame t" "length (wal_log (take k rs)) \<le> n - length (frame p)"
      using Cons.IH [of "n - length (frame p)"] Cons.prems by auto
    with False show ?thesis by (intro exI [of _ "Suc k"] exI [of _ t]) simp
  qed
qed (intro exI [of _ 0] exI [of _ "[]"], simp)

section \<open>Effects of the operations\<close>

lemma append_record_ok:
  "wal_faults w = [] \<Longrightarrow> fits_record p \<Longrightarrow>
    append_record p w = (Inr (), w\<lparr>wal_bytes := wal_bytes w @ frame p\<rparr>)"
  by (simp add: append_record_def write_all_def next_outcome_def fits_record_def)

lemma sync_ok:
  "wal_faults w = [] \<Longrightarrow> sync w = (Inr (), w\<lparr>wal_synced := length (wal_bytes w)\<rparr>)"
  by (simp add: sync_def sync_all_def next_outcome_def)

lemma truncate_path_ok:
  "wal_faults w = [] \<Longrightarrow> n \<le> length (wal_bytes w) \<Longrightarrow>
    truncate_path n w = (Inr (), w\<lparr>wal_bytes := take n (wal_bytes w), wal_synced := n\<rparr>)"
  by (simp add: truncate_path_def and_then_def set_len_def sync_all_def next_outcome_def min_def)

lemma append_record_cases:
  assumes "append_record p w = (r, w')"
  shows "r = Inr () \<and> wal_bytes w' = wal_bytes w @ frame p \<and> wal_synced w' = wal_synced w \<and> fits_record p
    \<or> (\<exists>e n. r = Inl e \<and> wal_bytes w' = wal_bytes w @ take n (frame p) \<and> n < length (frame p)
         \<and> wal_synced w' = wal_synced w)"
proof (cases "fits_record p")
  case True
  obtain f w1 where f: "next_outcome w = (f, w1)" by fastforce
  then have w1: "wal_bytes w1 = wal_bytes w" "wal_synced w1 = wal_synced w"
    by (auto simp: next_outcome_def split: list.splits)
  show ?thesis
  proof (cases f)
    case Done
    with True f w1 assms show ?thesis
      by (auto simp: append_record_def fits_record_def write_all_def)
  next
    case (Fault n e)
    with True f w1 assms show ?thesis
      by (intro disjI2 exI [of _ e] exI [of _ "min n (length (frame p) - 1)"])
         (auto simp: append_record_def fits_record_def write_all_def)
  qed
next
  case False
  with assms show ?thesis
    by (intro disjI2 exI [of _ "invalid_input ''wal: record exceeds 4 GiB''"] exI [of _ 0])
       (auto simp: append_record_def fits_record_def)
qed

section \<open>What the clients of the log rely on\<close>

text \<open>
  A client stores values of some type as records; the laws are those of its encoding. The lemmas give
  back, after any crash, a prefix of the values it wrote that contains every synced one.
\<close>

locale record_codec =
  fixes enc :: "'a \<Rightarrow> bytes"
    and dec :: "bytes \<Rightarrow> io_error + 'a"
    and fits :: "'a \<Rightarrow> bool"
  assumes dec_enc: "fits x \<Longrightarrow> dec (enc x) = Inr x"
    and enc_fits: "fits x \<Longrightarrow> fits_record (enc x)"
begin

lemma all_fits: "list_all fits xs \<Longrightarrow> list_all fits_record (map enc xs)"
  by (induction xs) (simp_all add: enc_fits)

lemma decode_all: "list_all fits xs \<Longrightarrow> collect_results dec (map enc xs) = Inr xs"
  by (rule collect_results_all) (simp add: dec_enc list_all_iff)

lemma replay_values:
  "list_all fits xs \<Longrightarrow> replay (Some (wal_log (map enc xs))) =
    \<lparr>records = map enc xs, truncated = False, valid_bytes = length (wal_log (map enc xs))\<rparr>"
  by (simp add: replay_log all_fits)

lemma replay_values_tail:
  assumes "list_all fits xs" and "\<not> starts_with_frame t"
  shows "replay (Some (wal_log (map enc xs) @ t)) =
    \<lparr>records = map enc xs, truncated = (t \<noteq> []), valid_bytes = length (wal_log (map enc xs))\<rparr>"
  using assms by (simp add: replay_log_tail all_fits)

lemma crash_prefix:
  assumes "list_all fits (xs @ ys)" and "length (wal_log (map enc xs)) \<le> n"
  shows "\<exists>k t. take n (wal_log (map enc (xs @ ys))) = wal_log (map enc (xs @ take k ys)) @ t
    \<and> \<not> starts_with_frame t"
proof -
  let ?m = "n - length (wal_log (map enc xs))"
  from assms(1) have "list_all fits_record (map enc ys)" by (simp add: all_fits)
  from take_wal_log [OF this, of ?m] obtain k t
    where "take ?m (wal_log (map enc ys)) = wal_log (take k (map enc ys)) @ t" "\<not> starts_with_frame t"
    by blast
  with assms(2) show ?thesis
    by (intro exI [of _ k] exI [of _ t]) (simp add: take_map)
qed

lemma crash_recovers:
  assumes "list_all fits (xs @ ys)" and "wal_bytes w = wal_log (map enc (xs @ ys))"
    and "length (wal_log (map enc xs)) \<le> wal_synced w" and "crash_image w f"
  shows "\<exists>k. records (replay (Some f)) = map enc (xs @ take k ys)
    \<and> collect_results dec (records (replay (Some f))) = Inr (xs @ take k ys)
    \<and> take (valid_bytes (replay (Some f))) f = wal_log (map enc (xs @ take k ys))"
proof -
  from assms(4) obtain n where n: "wal_synced w \<le> n" "f = take n (wal_bytes w)"
    by (auto simp: crash_image_def)
  then obtain k t where kt: "f = wal_log (map enc (xs @ take k ys)) @ t" "\<not> starts_with_frame t"
    using crash_prefix [OF assms(1)] assms(2,3) by (metis order_trans)
  have fits: "list_all fits (xs @ take k ys)"
    using assms(1) by (auto simp: list_all_iff dest: in_set_takeD)
  show ?thesis
    using replay_values_tail [OF fits kt(2)] decode_all [OF fits] by (intro exI [of _ k]) (simp add: kt(1))
qed

end

section \<open>Properties\<close>

text \<open>
  C2. Replay returns exactly the longest sequence of intact records the file starts with: the file is
  those records followed by a tail that does not start with an intact record, the run is reported as
  truncated exactly when that tail is not empty, and \<open>valid_bytes\<close> is where the tail starts.
\<close>

theorem replay_longest_intact_prefix:
  "replay (Some content) = r \<longleftrightarrow>
    (\<exists>t. content = wal_log (records r) @ t \<and> list_all fits_record (records r)
       \<and> \<not> starts_with_frame t \<and> truncated r = (t \<noteq> [])
       \<and> valid_bytes r = length (wal_log (records r)))"
  by (rule replay_iff)

text \<open>
  A log cut at any byte recovers whole records only. If the first \<open>k\<close> records of the log lie
  within the first \<open>n\<close> bytes and the next one does not, then replaying these \<open>n\<close> bytes returns
  exactly those \<open>k\<close> records, and reports a torn tail exactly when the cut is not on a record boundary.
\<close>

theorem torn_log_recovers_complete_records:
  assumes "list_all fits_record (rs @ p # rs')"
    and "length (wal_log rs) \<le> n" and "n < length (wal_log (rs @ [p]))"
  shows "replay (Some (take n (wal_log (rs @ p # rs')))) =
    \<lparr>records = rs, truncated = (n \<noteq> length (wal_log rs)), valid_bytes = length (wal_log rs)\<rparr>"
proof -
  let ?t = "take (n - length (wal_log rs)) (frame p)"
  have cut: "take n (wal_log (rs @ p # rs')) = wal_log rs @ ?t"
    using assms(2,3) by simp
  have "\<not> starts_with_frame ?t"
    using assms by (intro torn_frame) auto
  with assms(1) have "replay (Some (wal_log rs @ ?t)) =
      \<lparr>records = rs, truncated = (?t \<noteq> []), valid_bytes = length (wal_log rs)\<rparr>"
    by (intro replay_log_tail) auto
  moreover have "?t \<noteq> [] \<longleftrightarrow> n \<noteq> length (wal_log rs)"
    using assms(2) by auto
  ultimately show ?thesis by (simp only: cut)
qed

theorem torn_log_recovers_complete_records_witness:
  "replay (Some (take 14 (wal_log ([[7]] @ [8, 9] # [[5 :: u8]])))) =
    \<lparr>records = [[7]], truncated = True, valid_bytes = 9\<rparr>"
  using torn_log_recovers_complete_records [of "[[7]]" "[8, 9]" "[[5]]" 14]
  by (simp add: fits_record_def)

text \<open>
  A record whose payload was altered within four consecutive bytes is detected: replay returns
  exactly the records before it, reports the file as truncated and places the end of the valid data
  at the start of the damaged record, whatever follows it.
\<close>

theorem corrupt_record_stops_replay:
  assumes "list_all fits_record rs" and "fits_record (pre @ xs @ post)"
    and "length ys = length xs" and "length xs \<le> 4" and "xs \<noteq> ys"
  shows "replay (Some (wal_log rs @ take 8 (frame (pre @ xs @ post)) @ (pre @ ys @ post) @ rest)) =
    \<lparr>records = rs, truncated = True, valid_bytes = length (wal_log rs)\<rparr>"
proof -
  have len: "length (take 8 (frame (pre @ xs @ post))) = 8" by simp
  then have "take 8 (frame (pre @ xs @ post)) \<noteq> []" by fastforce
  with replay_log_tail [OF assms(1) corrupt_frame [OF assms(2-5)]] show ?thesis
    by simp
qed

theorem corrupt_record_stops_replay_witness:
  "replay (Some (wal_log [[7]] @ take 8 (frame ([1] @ [2] @ [3])) @ ([1] @ [4] @ [3]) @ frame [9 :: u8])) =
    \<lparr>records = [[7]], truncated = True, valid_bytes = 9\<rparr>"
  using corrupt_record_stops_replay [of "[[7]]" "[1]" "[2]" "[3]" "[4]" "frame [9]"]
  by (simp add: fits_record_def)

text \<open>
  Repair makes room for new records: whatever bytes the file holds, truncating it to the valid
  prefix found by replay and then appending a record gives a log that replays, untruncated, as the
  recovered records followed by the new one.
\<close>

theorem repaired_log_accepts_appends:
  assumes "fits_record p"
  shows "replay (Some (wal_bytes (snd (append_record p
      (snd (truncate_path (valid_bytes (replay (Some f))) (open_wal (Some f) []))))))) =
    \<lparr>records = records (replay (Some f)) @ [p], truncated = False,
     valid_bytes = valid_bytes (replay (Some f)) + 8 + length p\<rparr>"
proof -
  let ?r = "replay (Some f)"
  obtain t where t: "f = wal_log (records ?r) @ t" "list_all fits_record (records ?r)"
    "valid_bytes ?r = length (wal_log (records ?r))"
    using replay_iff [of f ?r] by blast
  let ?w = "snd (truncate_path (valid_bytes ?r) (open_wal (Some f) []))"
  have len: "valid_bytes ?r \<le> length f" using t by (metis le_add1 length_append)
  then have w: "wal_bytes ?w = wal_log (records ?r)" "wal_faults ?w = []"
    using t by (simp_all add: truncate_path_ok open_wal_def) (metis append_eq_conv_conj)
  then have "wal_bytes (snd (append_record p ?w)) = wal_log (records ?r @ [p])"
    using assms by (simp add: append_record_ok)
  moreover have "list_all fits_record (records ?r @ [p])"
    using t(2) assms by simp
  ultimately show ?thesis
    using replay_log [of "records ?r @ [p]"] t(3) by simp
qed

theorem repaired_log_accepts_appends_witness:
  "replay (Some (wal_bytes (snd (append_record [9]
      (snd (truncate_path (valid_bytes (replay (Some (frame [7] @ [1, 2, 3]))))
        (open_wal (Some (frame [7] @ [1, 2, 3])) []))))))) =
    \<lparr>records = [[7], [9 :: u8]], truncated = False, valid_bytes = 18\<rparr>"
proof -
  have "\<not> starts_with_frame [1, 2, 3]"
    by (auto simp: starts_with_frame_def dest: arg_cong [of _ _ length])
  then have "replay (Some (frame [7] @ [1, 2, 3])) =
      \<lparr>records = [[7]], truncated = True, valid_bytes = 9\<rparr>"
    using replay_log_tail [of "[[7]]" "[1, 2, 3]"] by (simp add: fits_record_def)
  then show ?thesis
    using repaired_log_accepts_appends [of "[9]" "frame [7] @ [1, 2, 3]"] by (simp add: fits_record_def)
qed

text \<open>
  A tail of eight zero bytes is taken for an intact record: the empty payload has checksum 0, so a
  zero-filled end of the file (the usual result of a crash after the file was extended and before its
  data was written) replays as one more, empty, record and is not reported as torn.
\<close>

theorem zero_tail_replays_as_empty_record:
  assumes "list_all fits_record rs"
  shows "replay (Some (wal_log rs @ replicate 8 0)) =
    \<lparr>records = rs @ [[]], truncated = False, valid_bytes = length (wal_log rs) + 8\<rparr>"
proof -
  have zero: "replicate 8 0 = frame []"
    by (simp add: frame_def numeral_eq_Suc)
  have "list_all fits_record (rs @ [[]])" using assms by (simp add: fits_record_def)
  from replay_log [OF this] show ?thesis by (simp add: zero)
qed

theorem zero_tail_replays_as_empty_record_witness:
  "replay (Some (wal_log [[7 :: u8]] @ replicate 8 0)) =
    \<lparr>records = [[7], []], truncated = False, valid_bytes = 17\<rparr>"
  using zero_tail_replays_as_empty_record [of "[[7]]"] by (simp add: fits_record_def)

text \<open>
  A failed append is not undone: when a write fails after some bytes reached the file, the log stays
  open, and a later record that is appended and synced with success is lost at the next replay, because
  it lies behind the torn one. The repair of C6 runs only when the log is opened.
\<close>

theorem acknowledged_record_lost_after_short_write:
  "\<exists>w1 w2 w3.
     append_record [1, 2, 3] (open_wal None [Fault 3 (IoError OtherKind ''no space'')]) =
       (Inl (IoError OtherKind ''no space''), w1)
     \<and> append_record [4] w1 = (Inr (), w2) \<and> sync w2 = (Inr (), w3)
     \<and> wal_synced w3 = length (wal_bytes w3)
     \<and> replay (Some (wal_bytes w3)) = \<lparr>records = [], truncated = True, valid_bytes = 0\<rparr>"
proof -
  let ?f = "[3, 0, 0] @ frame [4]"
  have "\<not> starts_with_frame ?f"
  proof
    assume "starts_with_frame ?f"
    then obtain p rest where p: "fits_record p" "?f = frame p @ rest"
      by (auto simp: starts_with_frame_def)
    have "le_bytes 4 (of_nat (length p) :: u32) = take 4 ?f"
      unfolding p(2) by (simp add: frame_parts(3) del: take_append)
    also have "\<dots> = le_bytes 4 (16777216 + 3 :: u32)"
      by (simp add: frame_def byte_simps)
    finally have "(of_nat (length p) :: u32) = 16777216 + 3"
      by (simp add: le_bytes_inject)
    then have "length p = 16777219"
      using p(1) unat_of_nat_u32 [of "length p"] by (simp add: fits_record_def)
    moreover have "length p \<le> 4" using arg_cong [OF p(2), of length] by simp
    ultimately show False by simp
  qed
  then have "replay (Some ?f) = \<lparr>records = [], truncated = True, valid_bytes = 0\<rparr>"
    using replay_log_tail [of "[]" ?f] by simp
  moreover have "take 3 (frame [1, 2, 3]) = [3, 0, 0]"
    by (simp add: frame_def byte_simps)
  ultimately show ?thesis
    by (simp add: append_record_def open_wal_def write_all_def next_outcome_def sync_def sync_all_def)
qed

end
