(* ===== verification/Cursor.thy ===== *)
theory Cursor
  imports Nut_Prelude
begin

text \<open>
  The decoders of \<open>command.rs\<close>, \<open>txn.rs\<close> and \<open>raft/state.rs\<close> each walk a byte slice with a private
  \<open>Cursor\<close> of the same shape: the slice and an offset. The three sets of read methods differ in their
  bounds checks and messages and are modelled with their decoders; what all of them promise is the
  locale \<open>cursor_reader\<close>: a read succeeds exactly when the encoding of its result lies at the cursor,
  and then moves the cursor behind it.
\<close>

record cursor =
  cur_bytes :: bytes
  cur_offset :: nat

text \<open>A cursor that has read \<open>pre\<close> and has \<open>t\<close> ahead.\<close>

definition cursor_at :: "bytes \<Rightarrow> bytes \<Rightarrow> cursor" where
  "cursor_at pre t = \<lparr>cur_bytes = pre @ t, cur_offset = length pre\<rparr>"

lemma cursor_at_simps [simp]:
  "cur_bytes (cursor_at pre t) = pre @ t"
  "cur_offset (cursor_at pre t) = length pre"
  by (simp_all add: cursor_at_def)

lemma cursor_start: "\<lparr>cur_bytes = bs, cur_offset = 0\<rparr> = cursor_at [] bs"
  by (simp add: cursor_at_def)

lemma cursor_at_advance:
  "n \<le> length s \<Longrightarrow> (cursor_at pre s)\<lparr>cur_offset := length pre + n\<rparr> = cursor_at (pre @ take n s) (drop n s)"
  by (simp add: cursor_at_def)

lemma take_eq_le_bytes:
  assumes "8 * n = LENGTH('a)"
  shows "n \<le> length s \<and> of_le_bytes (take n s) = (w :: 'a::len word)
    \<longleftrightarrow> (\<exists>t. s = le_bytes n w @ t)"
proof
  assume "n \<le> length s \<and> of_le_bytes (take n s) = w"
  then have "take n s = le_bytes n w"
    using assms le_bytes_inverse' [of "take n s" n, where 'a = 'a] by auto
  then show "\<exists>t. s = le_bytes n w @ t" by (metis append_take_drop_id)
next
  assume "\<exists>t. s = le_bytes n w @ t"
  then show "n \<le> length s \<and> of_le_bytes (take n s) = w"
    using assms by auto
qed

locale cursor_reader =
  fixes read :: "cursor \<Rightarrow> io_error + 'a \<times> cursor"
    and enc :: "'a \<Rightarrow> bytes"
    and ok :: "'a \<Rightarrow> bool"
  assumes reads: "read (cursor_at pre s) = Inr (x, c) \<longleftrightarrow>
    ok x \<and> (\<exists>t. s = enc x @ t \<and> c = cursor_at (pre @ enc x) t)"
begin

lemma read_enc [simp]: "ok x \<Longrightarrow> read (cursor_at pre (enc x @ t)) = Inr (x, cursor_at (pre @ enc x) t)"
  by (simp add: reads)

lemma read_enc_end [simp]: "ok x \<Longrightarrow> read (cursor_at pre (enc x)) = Inr (x, cursor_at (pre @ enc x) [])"
  using read_enc [of x pre "[]"] by simp

lemma rbind_read:
  "rbind (read (cursor_at pre s)) f = Inr y \<longleftrightarrow>
    (\<exists>x t. ok x \<and> s = enc x @ t \<and> f (x, cursor_at (pre @ enc x) t) = Inr y)"
  by (auto simp: rbind_Inr_iff reads)

lemma read_short:
  "(\<And>x t. ok x \<Longrightarrow> s \<noteq> enc x @ t) \<Longrightarrow> \<exists>e. read (cursor_at pre s) = Inl e"
  using reads by (cases "read (cursor_at pre s)") force+

end

end
