(* ===== verification/Command.thy ===== *)
theory Command
  imports Wal Cursor
begin

text \<open>
  \<open>src/src/command.rs\<close>: the mutations of the key/value store and their log encoding. The cursor of
  \<open>decode\<close> is a byte slice with an offset; every short read is the error of the source.
\<close>

section \<open>Commands and their encoding\<close>

definition TAG_SET :: u8 where "TAG_SET = 0x01"
definition TAG_DELETE :: u8 where "TAG_DELETE = 0x02"
definition TAG_CHECKPOINT :: u8 where "TAG_CHECKPOINT = 0x03"

datatype command =
  CSet (cmd_key: rstring) (cmd_value: rstring)
| CDelete (cmd_key: rstring)
| CCheckpoint

text \<open>The length is narrowed by \<open>as u32\<close>, which wraps.\<close>

definition push_bytes :: "bytes \<Rightarrow> bytes \<Rightarrow> bytes" where
  "push_bytes out bs = out @ le_bytes 4 (of_nat (length bs) :: u32) @ bs"

fun encode :: "command \<Rightarrow> bytes" where
  "encode (CSet key value) = push_bytes (push_bytes [TAG_SET] key) value"
| "encode (CDelete key) = push_bytes [TAG_DELETE] key"
| "encode CCheckpoint = [TAG_CHECKPOINT]"

definition take_u8 :: "cursor \<Rightarrow> io_error + u8 \<times> cursor" where
  "take_u8 c =
    (if cur_offset c < length (cur_bytes c)
     then Inr (cur_bytes c ! cur_offset c, c\<lparr>cur_offset := cur_offset c + 1\<rparr>)
     else Inl (invalid_data ''unexpected end of command''))"

definition take_u32 :: "cursor \<Rightarrow> io_error + nat \<times> cursor" where
  "take_u32 c =
    (let end = cur_offset c + 4 in
     if end \<le> length (cur_bytes c)
     then Inr (unat (of_le_bytes (take 4 (drop (cur_offset c) (cur_bytes c))) :: u32),
               c\<lparr>cur_offset := end\<rparr>)
     else Inl (invalid_data ''unexpected end of command''))"

definition take_string :: "cursor \<Rightarrow> io_error + rstring \<times> cursor" where
  "take_string c = rbind (take_u32 c) (\<lambda>(len, c).
     let end = cur_offset c + len in
     if end \<le> length (cur_bytes c)
     then (let slice = take len (drop (cur_offset c) (cur_bytes c)); c = c\<lparr>cur_offset := end\<rparr> in
       if utf8_valid slice then Inr (slice, c)
       else Inl (invalid_data ''key or value is not valid UTF-8''))
     else Inl (invalid_data ''command length exceeds record''))"

text \<open>The alternate hexadecimal format \<open>{:#04x}\<close> of a byte.\<close>

definition hex_digit :: "nat \<Rightarrow> char" where
  "hex_digit n = ''0123456789abcdef'' ! (n mod 16)"

definition fmt_hex04 :: "u8 \<Rightarrow> string" where
  "fmt_hex04 b = ''0x'' @ [hex_digit (unat b div 16), hex_digit (unat b)]"

definition decode :: "bytes \<Rightarrow> command io_result" where
  "decode bs = rbind (take_u8 \<lparr>cur_bytes = bs, cur_offset = 0\<rparr>) (\<lambda>(tag, c).
     rbind
       (if tag = TAG_SET then
          rbind (take_string c) (\<lambda>(key, c). rbind (take_string c) (\<lambda>(value, c).
            Inr (CSet key value, c)))
        else if tag = TAG_DELETE then rbind (take_string c) (\<lambda>(key, c). Inr (CDelete key, c))
        else if tag = TAG_CHECKPOINT then Inr (CCheckpoint, c)
        else Inl (invalid_data (''unknown command tag '' @ fmt_hex04 tag)))
       (\<lambda>(command, c).
         if cur_offset c \<noteq> length bs then Inl (invalid_data ''trailing bytes after command'')
         else Inr command))"

section \<open>The cursor reads what the encoder writes\<close>

definition string_bytes :: "rstring \<Rightarrow> bytes" where
  "string_bytes s = le_bytes 4 (of_nat (length s) :: u32) @ s"

definition string_ok :: "rstring \<Rightarrow> bool" where
  "string_ok s \<longleftrightarrow> utf8_valid s \<and> length s < 2 ^ 32"

lemma push_bytes_string: "push_bytes out s = out @ string_bytes s"
  by (simp add: push_bytes_def string_bytes_def)

interpretation cmd_u8: cursor_reader take_u8 "\<lambda>b. [b]" "\<lambda>_. True"
proof
  fix pre s x c
  show "take_u8 (cursor_at pre s) = Inr (x, c) \<longleftrightarrow>
      True \<and> (\<exists>t. s = [x] @ t \<and> c = cursor_at (pre @ [x]) t)"
    by (cases s) (auto simp: take_u8_def cursor_at_def nth_append)
qed

interpretation cmd_u32: cursor_reader take_u32 "\<lambda>n. le_bytes 4 (of_nat n :: u32)" "\<lambda>n. n < 2 ^ 32"
proof
  fix pre s n c
  have "take_u32 (cursor_at pre s) = Inr (n, c) \<longleftrightarrow>
      (4 \<le> length s \<and> of_le_bytes (take 4 s) = (of_nat n :: u32)) \<and> n < 2 ^ 32
        \<and> c = cursor_at (pre @ take 4 s) (drop 4 s)"
    by (auto simp: take_u32_def Let_def cursor_at_advance unat_u32_eq_iff)
  then show "take_u32 (cursor_at pre s) = Inr (n, c) \<longleftrightarrow> n < 2 ^ 32
      \<and> (\<exists>t. s = le_bytes 4 (of_nat n :: u32) @ t \<and> c = cursor_at (pre @ le_bytes 4 (of_nat n :: u32)) t)"
    by (auto simp: take_eq_le_bytes [of 4])
qed

interpretation cmd_string: cursor_reader take_string string_bytes string_ok
proof
  fix pre s x c
  show "take_string (cursor_at pre s) = Inr (x, c) \<longleftrightarrow>
      string_ok x \<and> (\<exists>t. s = string_bytes x @ t \<and> c = cursor_at (pre @ string_bytes x) t)"
    (is "?L \<longleftrightarrow> ?R")
  proof
    assume ?L
    then obtain n t where nt: "n < 2 ^ 32" "s = le_bytes 4 (of_nat n :: u32) @ t"
      "n \<le> length t" "x = take n t" "utf8_valid x"
      "c = (cursor_at (pre @ le_bytes 4 (of_nat n :: u32)) t)
        \<lparr>cur_offset := length (pre @ le_bytes 4 (of_nat n :: u32)) + n\<rparr>"
      by (auto simp: take_string_def cmd_u32.rbind_read Let_def split: if_splits)
    then show ?R
      using cursor_at_advance [OF nt(3), of "pre @ le_bytes 4 (of_nat n :: u32)"]
      by (auto simp: string_ok_def string_bytes_def intro!: exI [of _ "drop n t"])
  next
    assume ?R
    then show ?L
      by (auto simp: take_string_def string_ok_def string_bytes_def Let_def cmd_u32.read_enc)
  qed
qed

fun command_ok :: "command \<Rightarrow> bool" where
  "command_ok (CSet key value) \<longleftrightarrow> string_ok key \<and> string_ok value"
| "command_ok (CDelete key) \<longleftrightarrow> string_ok key"
| "command_ok CCheckpoint \<longleftrightarrow> True"

lemma decode_encode:
  assumes "command_ok c"
  shows "decode (encode c) = Inr c"
  using assms cmd_u8.read_enc [where pre = "[]"]
  by (cases c) (auto simp: decode_def cursor_start push_bytes_string cmd_string.read_enc
      cmd_string.read_enc_end TAG_SET_def TAG_DELETE_def TAG_CHECKPOINT_def)

lemma encode_decode:
  assumes "decode bs = Inr c"
  shows "encode c = bs \<and> command_ok c"
proof -
  from assms obtain tag t where bs: "bs = tag # t"
    by (auto simp: decode_def cursor_start cmd_u8.rbind_read)
  have "take_u8 (cursor_at [] (tag # t)) = Inr (tag, cursor_at [tag] t)"
    using cmd_u8.read_enc [where x = tag and pre = "[]" and t = t] by simp
  with assms show ?thesis
    by (auto simp: bs decode_def cursor_start rbind_assoc cmd_string.rbind_read push_bytes_string
        TAG_SET_def TAG_DELETE_def TAG_CHECKPOINT_def split: if_splits)
qed

lemma decode_iff: "decode bs = Inr c \<longleftrightarrow> encode c = bs \<and> command_ok c"
  using decode_encode encode_decode by blast

lemma length_encode:
  "length (encode (CSet k v)) = 9 + length k + length v"
  "length (encode (CDelete k)) = 5 + length k"
  "length (encode CCheckpoint) = 1"
  by (simp_all add: push_bytes_def)

text \<open>
  A command whose strings are valid and whose encoding the log accepts: what \<open>append\<close> does not refuse.
\<close>

fun command_utf8 :: "command \<Rightarrow> bool" where
  "command_utf8 (CSet key value) \<longleftrightarrow> utf8_valid key \<and> utf8_valid value"
| "command_utf8 (CDelete key) \<longleftrightarrow> utf8_valid key"
| "command_utf8 CCheckpoint \<longleftrightarrow> True"

definition command_fits :: "command \<Rightarrow> bool" where
  "command_fits c \<longleftrightarrow> command_utf8 c \<and> fits_record (encode c)"

lemma command_fits_ok: "command_fits c \<Longrightarrow> command_ok c"
  by (cases c) (auto simp: command_fits_def fits_record_def length_encode string_ok_def
      simp del: encode.simps)

interpretation cmd: record_codec encode decode command_fits
  by unfold_locales (simp_all add: decode_encode command_fits_ok, simp add: command_fits_def)

section \<open>Properties\<close>

text \<open>
  C3. Decoding accepts exactly the canonical encodings: a byte string decodes to a command if and only
  if it is that command's encoding and the command's strings are valid UTF-8 shorter than 4 GiB. So
  decoding after encoding gives the command back, no two byte strings decode to the same command, and
  every other byte string (bad tag, short or trailing bytes, bad UTF-8) is an error.
\<close>

theorem decode_exactly_encodings: "decode bs = Inr c \<longleftrightarrow> encode c = bs \<and> command_ok c"
  by (rule decode_iff)

text \<open>
  Narrowing the lengths to 32 bits loses nothing that reaches the log: whenever the log accepts the
  encoding of a command with valid strings, replaying the log returns a record that decodes to that
  command.
\<close>

theorem appended_command_round_trips:
  assumes "command_utf8 c" and "append_record (encode c) w = (Inr (), w')"
    and "wal_bytes w = wal_log rs" and "list_all fits_record rs"
  shows "records (replay (Some (wal_bytes w'))) = rs @ [encode c] \<and> decode (encode c) = Inr c"
proof -
  from append_record_cases [OF assms(2)]
  have w': "wal_bytes w' = wal_log (rs @ [encode c])" and fits: "fits_record (encode c)"
    using assms(3) by auto
  with assms(1) have "command_ok c" by (simp add: command_fits_def command_fits_ok)
  then show ?thesis
    using fits assms(4) by (simp add: w' replay_log decode_encode del: wal_log_simps)
qed

theorem appended_command_round_trips_witness:
  "\<exists>w'. append_record (encode (CSet (ascii ''k'') [])) (open_wal None []) = (Inr (), w')
    \<and> records (replay (Some (wal_bytes w'))) = [] @ [encode (CSet (ascii ''k'') [])]
    \<and> decode (encode (CSet (ascii ''k'') [])) = Inr (CSet (ascii ''k'') [])"
proof -
  let ?c = "CSet (ascii ''k'') []" and ?w = "open_wal None []"
  have "fits_record (encode ?c)" by (simp add: fits_record_def length_encode ascii_def del: encode.simps)
  then have a: "append_record (encode ?c) ?w = (Inr (), ?w\<lparr>wal_bytes := wal_bytes ?w @ frame (encode ?c)\<rparr>)"
    by (intro append_record_ok) (simp_all add: open_wal_def)
  moreover have "command_utf8 ?c"
    by (simp add: ascii_def)
  ultimately show ?thesis
    using appended_command_round_trips [OF _ a, of "[]"] by (auto simp: open_wal_def)
qed

end
