(* ===== verification/Txn_Record.thy ===== *)
theory Txn_Record
  imports Wal Cursor
begin

text \<open>
  The log records of \<open>src/src/txn.rs\<close>: \<open>TxnRecord\<close>, its encoder and its decoder with their cursor.
  Interpreting \<open>record_codec\<close> on them gives the log's recovery lemmas for transaction records.
\<close>

section \<open>Records and their encoding\<close>

definition TXN_TAG_BEGIN :: u8 where "TXN_TAG_BEGIN = 0x10"
definition TXN_TAG_SET :: u8 where "TXN_TAG_SET = 0x11"
definition TXN_TAG_DELETE :: u8 where "TXN_TAG_DELETE = 0x12"
definition TXN_TAG_COMMIT :: u8 where "TXN_TAG_COMMIT = 0x13"
definition TXN_TAG_ABORT :: u8 where "TXN_TAG_ABORT = 0x14"

datatype txn_record =
  RBegin u64 u64
| RSet u64 rstring rstring
| RDelete u64 rstring
| RCommit u64 u64
| RAbort u64

definition put_u64 :: "bytes \<Rightarrow> u64 \<Rightarrow> bytes" where
  "put_u64 out value = out @ le_bytes 8 value"

definition put_string :: "bytes \<Rightarrow> rstring \<Rightarrow> bytes io_result" where
  "put_string out value =
    (if length value < 2 ^ 32
     then Inr (out @ le_bytes 4 (of_nat (length value) :: u32) @ value)
     else Inl (invalid_input ''mvcc: string too large''))"

fun txn_encode :: "txn_record \<Rightarrow> bytes io_result" where
  "txn_encode (RBegin txn snapshot) = Inr (put_u64 (put_u64 [TXN_TAG_BEGIN] txn) snapshot)"
| "txn_encode (RSet txn key value) =
    rbind (put_string (put_u64 [TXN_TAG_SET] txn) key) (\<lambda>out. put_string out value)"
| "txn_encode (RDelete txn key) = put_string (put_u64 [TXN_TAG_DELETE] txn) key"
| "txn_encode (RCommit txn commit_ts) = Inr (put_u64 (put_u64 [TXN_TAG_COMMIT] txn) commit_ts)"
| "txn_encode (RAbort txn) = Inr (put_u64 [TXN_TAG_ABORT] txn)"

section \<open>Decoding\<close>

definition txn_u8 :: "cursor \<Rightarrow> io_error + u8 \<times> cursor" where
  "txn_u8 c =
    (if cur_offset c < length (cur_bytes c)
     then Inr (cur_bytes c ! cur_offset c, c\<lparr>cur_offset := cur_offset c + 1\<rparr>)
     else Inl (invalid_data ''mvcc: short record''))"

definition txn_u64 :: "cursor \<Rightarrow> io_error + u64 \<times> cursor" where
  "txn_u64 c =
    (let end = cur_offset c + 8 in
     if end \<le> length (cur_bytes c)
     then Inr (of_le_bytes (take 8 (drop (cur_offset c) (cur_bytes c))), c\<lparr>cur_offset := end\<rparr>)
     else Inl (invalid_data ''mvcc: short u64''))"

definition txn_string :: "cursor \<Rightarrow> io_error + rstring \<times> cursor" where
  "txn_string c =
    (let end = cur_offset c + 4 in
     if end \<le> length (cur_bytes c)
     then (let len = unat (of_le_bytes (take 4 (drop (cur_offset c) (cur_bytes c))) :: u32);
               c = c\<lparr>cur_offset := end\<rparr>;
               end = cur_offset c + len in
       if end \<le> length (cur_bytes c)
       then (let value = take len (drop (cur_offset c) (cur_bytes c)) in
         if utf8_valid value then Inr (value, c\<lparr>cur_offset := end\<rparr>)
         else Inl (invalid_data ''mvcc: string is not UTF-8''))
       else Inl (invalid_data ''mvcc: string exceeds record''))
     else Inl (invalid_data ''mvcc: short string length''))"

definition txn_decode :: "bytes \<Rightarrow> txn_record io_result" where
  "txn_decode bs = rbind (txn_u8 \<lparr>cur_bytes = bs, cur_offset = 0\<rparr>) (\<lambda>(tag, c).
     rbind (txn_u64 c) (\<lambda>(txn, c).
     rbind
       (if tag = TXN_TAG_BEGIN then
          rbind (txn_u64 c) (\<lambda>(snapshot, c). Inr (RBegin txn snapshot, c))
        else if tag = TXN_TAG_SET then
          rbind (txn_string c) (\<lambda>(key, c). rbind (txn_string c) (\<lambda>(value, c).
            Inr (RSet txn key value, c)))
        else if tag = TXN_TAG_DELETE then
          rbind (txn_string c) (\<lambda>(key, c). Inr (RDelete txn key, c))
        else if tag = TXN_TAG_COMMIT then
          rbind (txn_u64 c) (\<lambda>(commit_ts, c). Inr (RCommit txn commit_ts, c))
        else if tag = TXN_TAG_ABORT then Inr (RAbort txn, c)
        else Inl (invalid_data ''mvcc: unknown record tag''))
       (\<lambda>(record, c).
         if cur_offset c \<noteq> length bs then Inl (invalid_data ''mvcc: trailing record bytes'')
         else Inr record)))"

section \<open>The cursor reads what the encoder writes\<close>

definition lp_string :: "rstring \<Rightarrow> bytes" where
  "lp_string s = le_bytes 4 (of_nat (length s) :: u32) @ s"

definition lp_ok :: "rstring \<Rightarrow> bool" where
  "lp_ok s \<longleftrightarrow> utf8_valid s \<and> length s < 2 ^ 32"

interpretation txn8: cursor_reader txn_u8 "\<lambda>b. [b]" "\<lambda>_. True"
proof
  fix pre s x c
  show "txn_u8 (cursor_at pre s) = Inr (x, c) \<longleftrightarrow>
      True \<and> (\<exists>t. s = [x] @ t \<and> c = cursor_at (pre @ [x]) t)"
    by (cases s) (auto simp: txn_u8_def cursor_at_def nth_append)
qed

interpretation txn64: cursor_reader txn_u64 "le_bytes 8" "\<lambda>_. True"
proof
  fix pre s w c
  have "txn_u64 (cursor_at pre s) = Inr (w, c) \<longleftrightarrow>
      (8 \<le> length s \<and> of_le_bytes (take 8 s) = w) \<and> c = cursor_at (pre @ take 8 s) (drop 8 s)"
    by (auto simp: txn_u64_def Let_def cursor_at_advance)
  then show "txn_u64 (cursor_at pre s) = Inr (w, c) \<longleftrightarrow>
      True \<and> (\<exists>t. s = le_bytes 8 w @ t \<and> c = cursor_at (pre @ le_bytes 8 w) t)"
    by (auto simp: take_eq_le_bytes [of 8])
qed

interpretation txnstr: cursor_reader txn_string lp_string lp_ok
proof
  fix pre s x c
  show "txn_string (cursor_at pre s) = Inr (x, c) \<longleftrightarrow>
      lp_ok x \<and> (\<exists>t. s = lp_string x @ t \<and> c = cursor_at (pre @ lp_string x) t)"
    (is "?L \<longleftrightarrow> ?R")
  proof
    assume L: ?L
    define n where "n = unat (of_le_bytes (take 4 s) :: u32)"
    from L have n: "4 \<le> length s" "n \<le> length (drop 4 s)" "x = take n (drop 4 s)" "utf8_valid x"
      "c = (cursor_at pre s)\<lparr>cur_offset := length pre + (4 + n)\<rparr>"
      by (auto simp: txn_string_def Let_def n_def add.assoc split: if_splits)
    have w: "of_le_bytes (take 4 s) = (of_nat n :: u32)" "n < 2 ^ 32"
      using unat_u32_eq_iff [of "of_le_bytes (take 4 s)" n] n_def by simp_all
    with n(1) obtain t where t: "s = le_bytes 4 (of_nat n :: u32) @ t"
      using take_eq_le_bytes [of 4 s "of_nat n :: u32"] by auto
    with n have x: "x = take n t" "n \<le> length t" by simp_all
    have "c = cursor_at (pre @ lp_string x) (drop n t)"
      using cursor_at_advance [of "4 + n" s pre] n(5) x t by (simp add: lp_string_def)
    moreover have "s = lp_string x @ drop n t"
      using x t by (simp add: lp_string_def)
    ultimately show ?R using n(4) w(2) x by (auto simp: lp_ok_def)
  next
    assume ?R
    then show ?L
      by (auto simp: txn_string_def lp_ok_def lp_string_def Let_def cursor_at_def)
  qed
qed

section \<open>The codec\<close>

fun txn_record_utf8 :: "txn_record \<Rightarrow> bool" where
  "txn_record_utf8 (RSet txn key value) \<longleftrightarrow> utf8_valid key \<and> utf8_valid value"
| "txn_record_utf8 (RDelete txn key) \<longleftrightarrow> utf8_valid key"
| "txn_record_utf8 _ \<longleftrightarrow> True"

lemma put_string_Inr [simp]:
  "put_string out s = Inr bs \<longleftrightarrow> length s < 2 ^ 32 \<and> bs = out @ lp_string s"
  by (auto simp: put_string_def lp_string_def)

lemma txn_encode_Inr:
  "txn_encode (RBegin i s) = Inr bs \<longleftrightarrow> bs = TXN_TAG_BEGIN # le_bytes 8 i @ le_bytes 8 s"
  "txn_encode (RSet i k v) = Inr bs \<longleftrightarrow>
    length k < 2 ^ 32 \<and> length v < 2 ^ 32 \<and> bs = TXN_TAG_SET # le_bytes 8 i @ lp_string k @ lp_string v"
  "txn_encode (RDelete i k) = Inr bs \<longleftrightarrow> length k < 2 ^ 32 \<and> bs = TXN_TAG_DELETE # le_bytes 8 i @ lp_string k"
  "txn_encode (RCommit i s) = Inr bs \<longleftrightarrow> bs = TXN_TAG_COMMIT # le_bytes 8 i @ le_bytes 8 s"
  "txn_encode (RAbort i) = Inr bs \<longleftrightarrow> bs = TXN_TAG_ABORT # le_bytes 8 i"
  by (auto simp: rbind_Inr_iff put_u64_def)

declare txn_encode.simps [simp del]

lemmas txn_tag_defs =
  TXN_TAG_BEGIN_def TXN_TAG_SET_def TXN_TAG_DELETE_def TXN_TAG_COMMIT_def TXN_TAG_ABORT_def

lemma txn_decode_start:
  "txn_u8 (cursor_at [] (tag # t)) = Inr (tag, cursor_at [tag] t)"
  using txn8.read_enc [where x = tag and pre = "[]" and t = t] by simp

lemma txn_decode_encode:
  assumes "txn_encode r = Inr bs" and "txn_record_utf8 r"
  shows "txn_decode bs = Inr r"
  using assms
  by (cases r) (auto simp: txn_encode_Inr txn_decode_def cursor_start txn_decode_start lp_ok_def txn_tag_defs)

lemma txn_encode_decode:
  assumes "txn_decode bs = Inr r"
  shows "txn_encode r = Inr bs \<and> txn_record_utf8 r"
proof -
  from assms obtain tag t where bs: "bs = tag # t"
    by (auto simp: txn_decode_def cursor_start txn8.rbind_read)
  from assms show ?thesis
    by (auto simp: bs txn_decode_def cursor_start txn_decode_start rbind_assoc txn64.rbind_read
        txnstr.rbind_read lp_ok_def txn_encode_Inr txn_tag_defs split: if_splits)
qed

definition txn_bytes :: "txn_record \<Rightarrow> bytes" where
  "txn_bytes r = (case txn_encode r of Inl e \<Rightarrow> [] | Inr bs \<Rightarrow> bs)"

definition txn_fits :: "txn_record \<Rightarrow> bool" where
  "txn_fits r \<longleftrightarrow> txn_record_utf8 r \<and> (\<exists>bs. txn_encode r = Inr bs \<and> fits_record bs)"

lemma txn_bytes_eq: "txn_encode r = Inr bs \<Longrightarrow> txn_bytes r = bs"
  by (simp add: txn_bytes_def)

lemma txn_fits_encode: "txn_fits r \<Longrightarrow> txn_encode r = Inr (txn_bytes r)"
  by (auto simp: txn_fits_def txn_bytes_def)

interpretation txn: record_codec txn_bytes txn_decode txn_fits
proof
  fix r :: txn_record
  assume fits: "txn_fits r"
  then show "txn_decode (txn_bytes r) = Inr r"
    by (simp add: txn_decode_encode txn_fits_encode txn_fits_def)
  from fits show "fits_record (txn_bytes r)"
    by (auto simp: txn_fits_def txn_bytes_eq)
qed

lemma txn_fits_fixed [simp]: "txn_fits (RBegin i s)" "txn_fits (RCommit i s)" "txn_fits (RAbort i)"
  by (simp_all add: txn_fits_def txn_encode_Inr fits_record_def)

section \<open>Properties\<close>

text \<open>
  C4. A byte string decodes to a transaction record exactly when it is what the encoder produces for that
  record and the strings in it are valid UTF-8: the encoding is unambiguous, the decoder inverts it, and
  all other input is refused.
\<close>

theorem txn_decode_exactly_encodings:
  "txn_decode bs = Inr r \<longleftrightarrow> txn_encode r = Inr bs \<and> txn_record_utf8 r"
  using txn_decode_encode txn_encode_decode by blast

end
