(* ===== verification/Mvcc.thy ===== *)
theory Mvcc
  imports Txn_Record
begin

text \<open>
  The multi-version store of \<open>src/src/version.rs\<close>, \<open>src/src/gc.rs\<close> and \<open>src/src/txn.rs\<close>: versions and
  their visibility, the store behind the mutex (\<open>inner\<close>), transactions, and recovery from the log. Every
  public operation runs under the store's lock, so each is one step on \<open>inner\<close>; \<open>poisoned\<close> is the mutex's
  poison flag. The log inside \<open>inner\<close> carries the fault schedule of theory \<open>Wal\<close>.
\<close>

section \<open>Versions\<close>

record version =
  v_value :: rstring
  created_at :: u64
  deleted_at :: "u64 option"

definition visible_at :: "version \<Rightarrow> u64 \<Rightarrow> bool" where
  "visible_at v snapshot \<longleftrightarrow>
    created_at v \<le> snapshot \<and> (case deleted_at v of None \<Rightarrow> True | Some deleted \<Rightarrow> deleted > snapshot)"

definition last_modified :: "version \<Rightarrow> u64" where
  "last_modified v =
    max (case deleted_at v of None \<Rightarrow> created_at v | Some deleted \<Rightarrow> deleted) (created_at v)"

type_synonym versions = "(rstring, version list) bmap"
type_synonym writes = "(rstring, rstring option) bmap"

definition visible_value :: "versions \<Rightarrow> rstring \<Rightarrow> u64 \<Rightarrow> rstring option" where
  "visible_value versions key snapshot = (case bm_get versions key of
     None \<Rightarrow> None
   | Some chain \<Rightarrow> map_option v_value (find (\<lambda>v. visible_at v snapshot) (rev chain)))"

definition latest_change :: "versions \<Rightarrow> rstring \<Rightarrow> u64" where
  "latest_change versions key = (case bm_get versions key of
     None \<Rightarrow> 0
   | Some chain \<Rightarrow> (if chain = [] then 0 else last_modified (last chain)))"

text \<open>The body of the loop of \<open>apply_versions\<close>.\<close>

definition apply_write :: "u64 \<Rightarrow> versions \<Rightarrow> rstring \<times> rstring option \<Rightarrow> versions" where
  "apply_write timestamp versions write = (case write of (key, value) \<Rightarrow>
    (let chain = (case bm_get versions key of None \<Rightarrow> [] | Some c \<Rightarrow> c);
         chain = (if chain \<noteq> [] \<and> deleted_at (last chain) = None
                  then butlast chain @ [(last chain)\<lparr>deleted_at := Some timestamp\<rparr>]
                  else chain);
         chain = (case value of
                    None \<Rightarrow> chain
                  | Some v \<Rightarrow> chain @ [\<lparr>v_value = v, created_at = timestamp, deleted_at = None\<rparr>])
     in bm_insert key chain versions))"

definition apply_versions :: "versions \<Rightarrow> writes \<Rightarrow> u64 \<Rightarrow> versions" where
  "apply_versions versions writes timestamp = foldl (apply_write timestamp) versions writes"

section \<open>The store\<close>

record inner =
  mv_wal :: wal
  mv_versions :: versions
  mv_active :: "(u64, u64) bmap"
  mv_next_txn :: u64
  mv_commit_ts :: u64
  poisoned :: bool

record transaction =
  txn_id :: u64
  txn_snapshot :: u64
  txn_writes :: writes
  txn_finished :: bool

datatype txn_error = Io io_error | Conflict rstring | Finished

definition string_of_bytes :: "rstring \<Rightarrow> string" where
  "string_of_bytes s = map (\<lambda>b. char_of (unat b)) s"

fun txn_error_to_string :: "txn_error \<Rightarrow> string" where
  "txn_error_to_string (Io (IoError kind message)) = message"
| "txn_error_to_string (Conflict key) = ''write conflict on key '' @ [char_of (39::nat)] @ string_of_bytes key @ [char_of (39::nat)]"
| "txn_error_to_string Finished = ''transaction is already finished''"

fun txn_to_io :: "txn_error \<Rightarrow> io_error" where
  "txn_to_io (Io error) = error"
| "txn_to_io other = IoError OtherKind (txn_error_to_string other)"

text \<open>\<open>lock\<close> fails only on a poisoned mutex.\<close>

definition lock :: "(inner, txn_error, unit) eff" where
  "lock s = ((if poisoned s then Inl (Io (IoError OtherKind ''mvcc: lock poisoned'')) else Inr ()), s)"

text \<open>\<open>inner.wal.append(&record.encode()?)?\<close> and \<open>inner.wal.sync()?\<close>.\<close>

definition append_txn_record :: "txn_record \<Rightarrow> (inner, txn_error, unit) eff" where
  "append_txn_record record s = (case txn_encode record of
     Inl e \<Rightarrow> (Inl (Io e), s)
   | Inr payload \<Rightarrow> (case append_record payload (mv_wal s) of
       (res, w) \<Rightarrow> (map_err Io res, s\<lparr>mv_wal := w\<rparr>)))"

definition sync_txn_log :: "(inner, txn_error, unit) eff" where
  "sync_txn_log s = (case sync (mv_wal s) of (res, w) \<Rightarrow> (map_err Io res, s\<lparr>mv_wal := w\<rparr>))"

definition begin_locked :: "(inner, txn_error, transaction) eff" where
  "begin_locked s =
    (let id = mv_next_txn s in
     case checked_add_u64 (mv_next_txn s) 1 of
       None \<Rightarrow> (Inl (Io (invalid_data ''mvcc: transaction id exhausted'')), s)
     | Some next \<Rightarrow>
        (let s = s\<lparr>mv_next_txn := next\<rparr>; snapshot = mv_commit_ts s in
         and_then (append_txn_record (RBegin id snapshot)) (\<lambda>_.
         and_then sync_txn_log (\<lambda>_ s.
           (Inr \<lparr>txn_id = id, txn_snapshot = snapshot, txn_writes = [], txn_finished = False\<rparr>,
            s\<lparr>mv_active := bm_insert id snapshot (mv_active s)\<rparr>))) s))"

definition begin_txn :: "(inner, txn_error, transaction) eff" where
  "begin_txn = and_then lock (\<lambda>_. begin_locked)"

definition get_at :: "inner \<Rightarrow> rstring \<Rightarrow> u64 \<Rightarrow> rstring option io_result" where
  "get_at s key snapshot =
    rbind (map_err txn_to_io (fst (lock s))) (\<lambda>_. Inr (visible_value (mv_versions s) key snapshot))"

definition current_timestamp :: "inner \<Rightarrow> u64 io_result" where
  "current_timestamp s = rbind (map_err txn_to_io (fst (lock s))) (\<lambda>_. Inr (mv_commit_ts s))"

definition version_count :: "inner \<Rightarrow> rstring \<Rightarrow> nat io_result" where
  "version_count s key = rbind (map_err txn_to_io (fst (lock s))) (\<lambda>_.
    Inr (case bm_get (mv_versions s) key of None \<Rightarrow> 0 | Some chain \<Rightarrow> length chain))"

record gc_report =
  watermark :: u64
  versions_reclaimed :: nat

text \<open>The closure of \<open>chain.retain\<close>.\<close>

definition gc_keeps :: "u64 \<Rightarrow> version \<Rightarrow> bool" where
  "gc_keeps mark v \<longleftrightarrow>
    \<not> (case deleted_at v of None \<Rightarrow> False | Some deleted \<Rightarrow> deleted < mark)"

definition gc_watermark :: "inner \<Rightarrow> u64" where
  "gc_watermark s =
    (if mv_active s = [] then saturating_add_u64 (mv_commit_ts s) 1
     else Min (set (map snd (mv_active s))))"

definition gc_versions :: "u64 \<Rightarrow> versions \<Rightarrow> versions" where
  "gc_versions mark vs =
    filter (\<lambda>(key, chain). chain \<noteq> []) (map (\<lambda>(key, chain). (key, filter (gc_keeps mark) chain)) vs)"

definition gc :: "(inner, io_error, gc_report) eff" where
  "gc s = (case lock s of
     (Inl e, s) \<Rightarrow> (Inl (txn_to_io e), s)
   | (Inr _, s) \<Rightarrow>
      (let mark = gc_watermark s;
           reclaimed = sum_list (map (\<lambda>(key, chain). length chain - length (filter (gc_keeps mark) chain))
                                  (mv_versions s))
       in (Inr \<lparr>watermark = mark, versions_reclaimed = reclaimed\<rparr>,
           s\<lparr>mv_versions := gc_versions mark (mv_versions s)\<rparr>)))"

section \<open>Transactions\<close>

definition ensure_open :: "transaction \<Rightarrow> txn_error + unit" where
  "ensure_open t = (if txn_finished t then Inl Finished else Inr ())"

definition txn_get :: "inner \<Rightarrow> transaction \<Rightarrow> rstring \<Rightarrow> txn_error + rstring option" where
  "txn_get s t key = rbind (ensure_open t) (\<lambda>_.
     case bm_get (txn_writes t) key of
       Some value \<Rightarrow> Inr value
     | None \<Rightarrow> map_err Io (get_at s key (txn_snapshot t)))"

definition starts_with :: "rstring \<Rightarrow> rstring \<Rightarrow> bool" where
  "starts_with key prefix \<longleftrightarrow> take (length prefix) key = prefix"

definition scan_prefix :: "inner \<Rightarrow> transaction \<Rightarrow> rstring \<Rightarrow> txn_error + (rstring \<times> rstring) list" where
  "scan_prefix s t prefix = rbind (ensure_open t) (\<lambda>_. rbind (fst (lock s)) (\<lambda>_.
     let rows = foldl (\<lambda>rows key.
           case visible_value (mv_versions s) key (txn_snapshot t) of
             Some value \<Rightarrow> bm_insert key value rows
           | None \<Rightarrow> rows) [] (filter (\<lambda>key. starts_with key prefix) (bm_keys (mv_versions s)));
         from_prefix = dropWhile (\<lambda>(key, _). key < prefix) (txn_writes t);
         rows = foldl (\<lambda>rows (key, value).
           case value of
             Some value \<Rightarrow> bm_insert key value rows
           | None \<Rightarrow> bm_remove key rows) rows (takeWhile (\<lambda>(key, _). starts_with key prefix) from_prefix)
     in Inr rows))"

definition txn_set :: "rstring \<Rightarrow> rstring \<Rightarrow> (inner \<times> transaction, txn_error, unit) eff" where
  "txn_set key value = (\<lambda>(s, t).
     case ensure_open t of
       Inl e \<Rightarrow> (Inl e, s, t)
     | Inr _ \<Rightarrow>
       (case and_then lock (\<lambda>_. append_txn_record (RSet (txn_id t) key value)) s of
          (Inl e, s) \<Rightarrow> (Inl e, s, t)
        | (Inr _, s) \<Rightarrow> (Inr (), s, t\<lparr>txn_writes := bm_insert key (Some value) (txn_writes t)\<rparr>)))"

definition txn_delete :: "rstring \<Rightarrow> (inner \<times> transaction, txn_error, unit) eff" where
  "txn_delete key = (\<lambda>(s, t).
     case ensure_open t of
       Inl e \<Rightarrow> (Inl e, s, t)
     | Inr _ \<Rightarrow>
       (case and_then lock (\<lambda>_. append_txn_record (RDelete (txn_id t) key)) s of
          (Inl e, s) \<Rightarrow> (Inl e, s, t)
        | (Inr _, s) \<Rightarrow> (Inr (), s, t\<lparr>txn_writes := bm_insert key None (txn_writes t)\<rparr>)))"

text \<open>\<open>Drop\<close>: the transaction leaves the active set unless it is finished or the mutex is poisoned.\<close>

definition drop_txn :: "transaction \<Rightarrow> inner \<Rightarrow> inner" where
  "drop_txn t s =
    (if \<not> txn_finished t \<and> \<not> poisoned s
     then s\<lparr>mv_active := bm_remove (txn_id t) (mv_active s)\<rparr> else s)"

text \<open>
  \<open>commit\<close> and \<open>abort\<close> consume the transaction: on every early return it is dropped while still
  unfinished, on the other paths it has removed itself from the active set.
\<close>

definition commit :: "transaction \<Rightarrow> (inner, txn_error, u64) eff" where
  "commit t s = (case ensure_open t of
     Inl e \<Rightarrow> (Inl e, drop_txn t s)
   | Inr _ \<Rightarrow> (case lock s of
       (Inl e, s) \<Rightarrow> (Inl e, drop_txn t s)
     | (Inr _, s) \<Rightarrow>
        (case find (\<lambda>key. latest_change (mv_versions s) key > txn_snapshot t) (bm_keys (txn_writes t)) of
           Some key \<Rightarrow>
            (case and_then (append_txn_record (RAbort (txn_id t))) (\<lambda>_. sync_txn_log) s of
               (Inl e, s) \<Rightarrow> (Inl e, drop_txn t s)
             | (Inr _, s) \<Rightarrow> (Inl (Conflict key), s\<lparr>mv_active := bm_remove (txn_id t) (mv_active s)\<rparr>))
         | None \<Rightarrow>
            (case checked_add_u64 (mv_commit_ts s) 1 of
               None \<Rightarrow> (Inl (Io (invalid_data ''mvcc: commit timestamp exhausted'')), drop_txn t s)
             | Some timestamp \<Rightarrow>
                (case and_then (append_txn_record (RCommit (txn_id t) timestamp)) (\<lambda>_. sync_txn_log) s of
                   (Inl e, s) \<Rightarrow> (Inl e, drop_txn t s)
                 | (Inr _, s) \<Rightarrow>
                    (Inr timestamp, s\<lparr>
                       mv_versions := apply_versions (mv_versions s) (txn_writes t) timestamp,
                       mv_commit_ts := timestamp,
                       mv_active := bm_remove (txn_id t) (mv_active s)\<rparr>))))))"

definition abort :: "transaction \<Rightarrow> (inner, txn_error, unit) eff" where
  "abort t s = (case ensure_open t of
     Inl e \<Rightarrow> (Inl e, drop_txn t s)
   | Inr _ \<Rightarrow>
     (case and_then lock (\<lambda>_. and_then (append_txn_record (RAbort (txn_id t))) (\<lambda>_. sync_txn_log)) s of
        (Inl e, s) \<Rightarrow> (Inl e, drop_txn t s)
      | (Inr _, s) \<Rightarrow> (Inr (), s\<lparr>mv_active := bm_remove (txn_id t) (mv_active s)\<rparr>)))"

section \<open>Recovery\<close>

text \<open>The local variables of \<open>open\<close>; the two hash maps are only looked up and updated.\<close>

record recovery =
  rc_versions :: versions
  rc_pending :: "u64 \<rightharpoonup> writes"
  rc_begun :: "u64 \<rightharpoonup> u64"
  rc_max_txn :: u64
  rc_commit_ts :: u64

definition recovery_init :: recovery where
  "recovery_init = \<lparr>rc_versions = [], rc_pending = Map.empty, rc_begun = Map.empty,
    rc_max_txn = 0, rc_commit_ts = 0\<rparr>"

definition or_default :: "writes option \<Rightarrow> writes" where
  "or_default w = (case w of None \<Rightarrow> [] | Some m \<Rightarrow> m)"

definition ensure_begun :: "(u64 \<rightharpoonup> u64) \<Rightarrow> u64 \<Rightarrow> unit io_result" where
  "ensure_begun begun txn =
    (if begun txn \<noteq> None then Inr ()
     else Inl (invalid_data ''mvcc: record references unknown transaction''))"

fun recover_record :: "recovery \<Rightarrow> txn_record \<Rightarrow> recovery io_result" where
  "recover_record rc (RBegin txn snapshot) =
    Inr (rc\<lparr>rc_max_txn := max (rc_max_txn rc) txn,
            rc_begun := (rc_begun rc)(txn \<mapsto> snapshot),
            rc_pending := (rc_pending rc)(txn \<mapsto> or_default (rc_pending rc txn))\<rparr>)"
| "recover_record rc (RSet txn key value) = rbind (ensure_begun (rc_begun rc) txn) (\<lambda>_.
    Inr (rc\<lparr>rc_pending := (rc_pending rc)
      (txn \<mapsto> bm_insert key (Some value) (or_default (rc_pending rc txn)))\<rparr>))"
| "recover_record rc (RDelete txn key) = rbind (ensure_begun (rc_begun rc) txn) (\<lambda>_.
    Inr (rc\<lparr>rc_pending := (rc_pending rc)
      (txn \<mapsto> bm_insert key None (or_default (rc_pending rc txn)))\<rparr>))"
| "recover_record rc (RCommit txn timestamp) = rbind (ensure_begun (rc_begun rc) txn) (\<lambda>_.
    if timestamp \<le> rc_commit_ts rc
    then Inl (invalid_data ''mvcc: commit timestamps are not increasing'')
    else Inr (rc\<lparr>rc_pending := (rc_pending rc)(txn := None),
                 rc_versions := apply_versions (rc_versions rc) (or_default (rc_pending rc txn)) timestamp,
                 rc_commit_ts := timestamp,
                 rc_begun := (rc_begun rc)(txn := None)\<rparr>))"
| "recover_record rc (RAbort txn) =
    Inr (rc\<lparr>rc_pending := (rc_pending rc)(txn := None), rc_begun := (rc_begun rc)(txn := None)\<rparr>)"

fun recover :: "recovery \<Rightarrow> bytes list \<Rightarrow> recovery io_result" where
  "recover rc [] = Inr rc"
| "recover rc (payload # payloads) =
    rbind (txn_decode payload) (\<lambda>r. rbind (recover_record rc r) (\<lambda>rc'. recover rc' payloads))"

definition mvcc_open :: "bytes option \<Rightarrow> io_outcome list \<Rightarrow> inner io_result" where
  "mvcc_open file faults =
    (let result = replay file in
     rbind (recover recovery_init (records result)) (\<lambda>rc.
     case (if truncated result then truncate_path (valid_bytes result) (open_wal file faults)
           else (Inr (), open_wal file faults)) of
       (Inl e, w) \<Rightarrow> Inl e
     | (Inr _, w) \<Rightarrow>
        rbind (ok_or (invalid_data ''mvcc: transaction id exhausted'') (checked_add_u64 (rc_max_txn rc) 1))
          (\<lambda>next. Inr \<lparr>mv_wal = w, mv_versions = rc_versions rc, mv_active = [], mv_next_txn = next,
             mv_commit_ts = rc_commit_ts rc, poisoned = False\<rparr>)))"

section \<open>Version chains\<close>

text \<open>
  The invariant of a chain: the lifetimes of its versions are non-empty, lie below the bound and follow one
  another, so at every time at most one version is visible.
\<close>

definition version_ok :: "u64 \<Rightarrow> version \<Rightarrow> bool" where
  "version_ok bound v \<longleftrightarrow> created_at v \<le> bound
    \<and> (case deleted_at v of None \<Rightarrow> True | Some d \<Rightarrow> created_at v < d \<and> d \<le> bound)"

definition precedes :: "version \<Rightarrow> version \<Rightarrow> bool" where
  "precedes a b \<longleftrightarrow> (case deleted_at a of None \<Rightarrow> False | Some d \<Rightarrow> d \<le> created_at b)"

definition chain_ok :: "u64 \<Rightarrow> version list \<Rightarrow> bool" where
  "chain_ok bound chain \<longleftrightarrow> list_all (version_ok bound) chain \<and> sorted_wrt precedes chain"

definition versions_ok :: "u64 \<Rightarrow> versions \<Rightarrow> bool" where
  "versions_ok bound vs \<longleftrightarrow> bm_inv vs \<and> list_all (\<lambda>(k, chain). chain_ok bound chain) vs"

definition chain_of :: "versions \<Rightarrow> rstring \<Rightarrow> version list" where
  "chain_of vs k = (case bm_get vs k of None \<Rightarrow> [] | Some c \<Rightarrow> c)"

definition chain_value :: "version list \<Rightarrow> u64 \<Rightarrow> rstring option" where
  "chain_value chain s = map_option v_value (find (\<lambda>v. visible_at v s) (rev chain))"

definition end_last :: "u64 \<Rightarrow> version list \<Rightarrow> version list" where
  "end_last ts chain =
    (if chain \<noteq> [] \<and> deleted_at (last chain) = None
     then butlast chain @ [(last chain)\<lparr>deleted_at := Some ts\<rparr>] else chain)"

definition upd_chain :: "u64 \<Rightarrow> rstring option \<Rightarrow> version list \<Rightarrow> version list" where
  "upd_chain ts value chain = end_last ts chain @
    (case value of None \<Rightarrow> [] | Some v \<Rightarrow> [\<lparr>v_value = v, created_at = ts, deleted_at = None\<rparr>])"

lemma visible_value_chain: "visible_value vs k s = chain_value (chain_of vs k) s"
  by (simp add: visible_value_def chain_value_def chain_of_def split: option.splits)

lemma latest_change_chain:
  "latest_change vs k = (if chain_of vs k = [] then 0 else last_modified (last (chain_of vs k)))"
  by (simp add: latest_change_def chain_of_def split: option.splits)

lemma versions_ok_chain: "versions_ok b vs \<Longrightarrow> chain_ok b (chain_of vs k)"
  by (auto simp: versions_ok_def chain_of_def list_all_iff chain_ok_def split: option.splits
      dest!: map_of_SomeD)

lemma versions_okI:
  "bm_inv vs \<Longrightarrow> (\<And>k. chain_ok b (chain_of vs k)) \<Longrightarrow> versions_ok b vs"
  by (auto simp: versions_ok_def chain_of_def list_all_iff bm_get_in split: option.splits)
     (metis option.simps(5))

lemma versions_ok_Nil [simp]: "versions_ok b []"
  by (simp add: versions_ok_def)

lemma apply_write_eq: "apply_write ts vs (k, v) = bm_insert k (upd_chain ts v (chain_of vs k)) vs"
  by (simp add: apply_write_def upd_chain_def end_last_def chain_of_def Let_def split: option.splits)

lemma chain_of_insert [simp]: "chain_of (bm_insert k c vs) k' = (if k' = k then c else chain_of vs k')"
  by (simp add: chain_of_def)

lemma bm_inv_apply_versions: "bm_inv vs \<Longrightarrow> bm_inv (apply_versions vs ws ts)"
  unfolding apply_versions_def
  by (induction ws arbitrary: vs) (auto simp: apply_write_eq)

lemma chain_of_apply_versions:
  "distinct (map fst ws) \<Longrightarrow> chain_of (apply_versions vs ws ts) k =
    (case bm_get ws k of None \<Rightarrow> chain_of vs k | Some v \<Rightarrow> upd_chain ts v (chain_of vs k))"
  unfolding apply_versions_def
proof (induction ws arbitrary: vs)
  case (Cons w ws)
  obtain k' v where w: "w = (k', v)" by (cases w)
  with Cons have "k' \<notin> set (map fst ws)" by simp
  then have none: "bm_get ws k' = None" by (simp add: map_of_eq_None_iff)
  show ?case
    using Cons by (cases "k = k'") (simp_all add: w apply_write_eq none split: option.split)
qed simp

lemma version_ok_mono: "version_ok b v \<Longrightarrow> b \<le> b' \<Longrightarrow> version_ok b' v"
  by (auto simp: version_ok_def split: option.splits)

lemma chain_ok_mono: "chain_ok b c \<Longrightarrow> b \<le> b' \<Longrightarrow> chain_ok b' c"
  by (auto simp: chain_ok_def list_all_iff intro: version_ok_mono)

lemma chain_ok_snoc:
  "chain_ok b (c @ [v]) \<longleftrightarrow> chain_ok b c \<and> version_ok b v \<and> list_all (\<lambda>a. precedes a v) c"
  by (auto simp: chain_ok_def sorted_wrt_append list_all_iff)

lemma end_last_ended:
  assumes "chain_ok b c" and "b < ts" and "v \<in> set (end_last ts c)"
  shows "\<exists>d. deleted_at v = Some d \<and> d \<le> ts"
proof (cases c rule: rev_cases)
  case (snoc c' l)
  with assms(1) have "\<forall>a \<in> set c'. \<exists>d. deleted_at a = Some d \<and> d \<le> b" and "version_ok b l"
    by (auto simp: chain_ok_snoc list_all_iff precedes_def version_ok_def split: option.splits)
  with assms(2,3) snoc show ?thesis
    by (auto simp: end_last_def version_ok_def split: if_splits option.splits)
qed (use assms in \<open>simp add: end_last_def\<close>)

lemma chain_ok_end_last: "chain_ok b c \<Longrightarrow> b < ts \<Longrightarrow> chain_ok ts (end_last ts c)"
proof (cases c rule: rev_cases)
  case (snoc c' l)
  assume "chain_ok b c" "b < ts"
  with snoc have "chain_ok ts c'" "version_ok b l" "list_all (\<lambda>a. precedes a l) c'"
    by (auto simp: chain_ok_snoc intro: chain_ok_mono)
  with snoc \<open>b < ts\<close> show ?thesis
    by (auto simp: end_last_def chain_ok_snoc version_ok_def precedes_def list_all_iff split: option.splits)
qed (simp add: end_last_def chain_ok_def)

lemma chain_ok_upd: "chain_ok b c \<Longrightarrow> b < ts \<Longrightarrow> chain_ok ts (upd_chain ts v c)"
  using chain_ok_end_last [of b c ts] end_last_ended [of b c ts]
  by (cases v) (fastforce simp: upd_chain_def chain_ok_snoc version_ok_def precedes_def list_all_iff)+

lemma versions_ok_apply:
  assumes "versions_ok b vs" and "b < ts" and "bm_inv ws"
  shows "versions_ok ts (apply_versions vs ws ts)"
proof (rule versions_okI)
  from assms(1) show "bm_inv (apply_versions vs ws ts)"
    by (simp add: versions_ok_def bm_inv_apply_versions)
  fix k
  have "chain_ok b (chain_of vs k)" using assms(1) by (rule versions_ok_chain)
  with assms show "chain_ok ts (chain_of (apply_versions vs ws ts) k)"
    by (auto simp: chain_of_apply_versions bm_inv_distinct chain_ok_upd split: option.splits
        intro: chain_ok_mono)
qed

section \<open>Visibility\<close>

lemma find_rev_snoc: "find P (rev (xs @ [x])) = (if P x then Some x else find P (rev xs))"
  by simp

lemma chain_value_snoc:
  "chain_value (c @ [v]) s = (if visible_at v s then Some (v_value v) else chain_value c s)"
  by (simp add: chain_value_def)

lemma chain_value_Nil [simp]: "chain_value [] s = None"
  by (simp add: chain_value_def)

text \<open>The past does not change, the present is what was written.\<close>

lemma chain_value_past: "s < ts \<Longrightarrow> chain_value (upd_chain ts v c) s = chain_value c s"
proof -
  assume "s < ts"
  then have "chain_value (end_last ts c) s = chain_value c s"
    by (cases c rule: rev_cases) (auto simp: end_last_def chain_value_snoc visible_at_def)
  with \<open>s < ts\<close> show ?thesis
    by (cases v) (auto simp: upd_chain_def chain_value_snoc visible_at_def)
qed

lemma chain_value_ended:
  assumes "\<And>v. v \<in> set c \<Longrightarrow> \<exists>d. deleted_at v = Some d \<and> d \<le> s"
  shows "chain_value c s = None"
  by (auto simp: chain_value_def find_None_iff visible_at_def dest!: assms)

lemma chain_value_present:
  assumes "chain_ok b c" and "b < ts" and "ts \<le> s"
  shows "chain_value (upd_chain ts v c) s = v"
proof (cases v)
  case None
  have "chain_value (end_last ts c) s = None"
    using end_last_ended [OF assms(1,2)] assms(3) by (intro chain_value_ended) (metis order_trans)
  with None show ?thesis by (simp add: upd_chain_def)
next
  case (Some x)
  with assms(3) show ?thesis by (simp add: upd_chain_def chain_value_snoc visible_at_def)
qed

lemma visible_at_settled: "version_ok b v \<Longrightarrow> b \<le> s \<Longrightarrow> b \<le> s' \<Longrightarrow> visible_at v s = visible_at v s'"
  by (auto simp: version_ok_def visible_at_def split: option.splits)

lemma chain_value_settled:
  assumes "chain_ok b c" and "b \<le> s" and "b \<le> s'"
  shows "chain_value c s = chain_value c s'"
proof -
  have "find (\<lambda>v. visible_at v s) (rev c) = find (\<lambda>v. visible_at v s') (rev c)"
    by (rule find_cong)
       (use assms in \<open>simp_all add: chain_ok_def list_all_iff visible_at_settled [of b _ s s']\<close>)
  then show ?thesis by (simp add: chain_value_def)
qed

lemma visible_value_past:
  "bm_inv ws \<Longrightarrow> s < ts \<Longrightarrow> visible_value (apply_versions vs ws ts) k s = visible_value vs k s"
  by (simp add: visible_value_chain chain_of_apply_versions bm_inv_distinct chain_value_past
      split: option.splits)

lemma visible_value_present:
  assumes "versions_ok b vs" and "b < ts" and "bm_inv ws"
  shows "visible_value (apply_versions vs ws ts) k ts =
    (case bm_get ws k of Some v \<Rightarrow> v | None \<Rightarrow> visible_value vs k b)"
  using versions_ok_chain [OF assms(1), of k] assms(2,3)
  by (auto simp: visible_value_chain chain_of_apply_versions bm_inv_distinct chain_value_present
      intro: chain_value_settled split: option.splits)

lemma visible_value_settled:
  "versions_ok b vs \<Longrightarrow> b \<le> s \<Longrightarrow> visible_value vs k s = visible_value vs k b"
  by (auto simp: visible_value_chain intro: chain_value_settled versions_ok_chain)

text \<open>The last version of a chain carries its latest modification.\<close>

lemma last_modified_le_last:
  assumes "chain_ok b c" and "v \<in> set c"
  shows "last_modified v \<le> last_modified (last c)"
proof (cases c rule: rev_cases)
  case (snoc c' l)
  show ?thesis
  proof (cases "v = l")
    case False
    with assms snoc have "precedes v l" "version_ok b v"
      by (auto simp: chain_ok_def list_all_iff sorted_wrt_append)
    then have "last_modified v \<le> created_at l"
      by (auto simp: precedes_def version_ok_def last_modified_def split: option.splits)
    also have "\<dots> \<le> last_modified l" by (simp add: last_modified_def)
    finally show ?thesis using snoc by simp
  qed (simp add: snoc)
qed (use assms in simp)

lemma last_modified_bound: "version_ok b v \<Longrightarrow> last_modified v \<le> b"
  by (auto simp: version_ok_def last_modified_def split: option.splits)

lemma latest_change_bound: "versions_ok b vs \<Longrightarrow> latest_change vs k \<le> b"
  using versions_ok_chain [of b vs k]
  by (auto simp: latest_change_chain chain_ok_def list_all_iff intro!: last_modified_bound)

text \<open>A commit never lowers the latest change of a key, and raises it to its own time where it has an effect.\<close>

lemma visible_is_last:
  assumes "chain_ok b c" and "chain_value c b \<noteq> None"
  shows "c \<noteq> [] \<and> deleted_at (last c) = None"
proof -
  from assms(2) have "find (\<lambda>v. visible_at v b) (rev c) \<noteq> None"
    by (simp add: chain_value_def)
  then obtain v where v: "v \<in> set c" "visible_at v b"
    unfolding find_None_iff by auto
  with assms(1) have "version_ok b v" by (auto simp: chain_ok_def list_all_iff)
  with v(2) have none: "deleted_at v = None"
    by (auto simp: version_ok_def visible_at_def split: option.splits)
  show ?thesis
  proof (cases c rule: rev_cases)
    case (snoc c' l)
    with assms(1) v(1) none have "v = l"
      by (auto simp: chain_ok_snoc list_all_iff precedes_def split: option.splits)
    with none snoc show ?thesis by simp
  qed (use v in simp)
qed

lemma last_upd_chain:
  assumes "chain_ok b c" and "b < ts" and "v \<noteq> None \<or> chain_value c b \<noteq> None"
  shows "upd_chain ts v c \<noteq> [] \<and> last_modified (last (upd_chain ts v c)) = ts"
proof (cases v)
  case None
  with assms(1,3) have "c \<noteq> []" "deleted_at (last c) = None"
    using visible_is_last by blast+
  moreover from this(1) assms(1) have "version_ok b (last c)"
    by (auto simp: chain_ok_def list_all_iff)
  ultimately show ?thesis
    using None assms(2) by (auto simp: upd_chain_def end_last_def last_modified_def version_ok_def)
qed (simp add: upd_chain_def last_modified_def)

lemma latest_change_effective:
  assumes "versions_ok b vs" and "b < ts" and "bm_inv ws" and "bm_get ws k = Some v"
    and "v \<noteq> None \<or> visible_value vs k b \<noteq> None"
  shows "latest_change (apply_versions vs ws ts) k = ts"
  using last_upd_chain [OF versions_ok_chain [OF assms(1)] assms(2), of v k] assms(3-)
  by (simp add: latest_change_chain chain_of_apply_versions bm_inv_distinct visible_value_chain)

lemma latest_change_mono:
  assumes "versions_ok b vs" and "b < ts" and "bm_inv ws"
  shows "latest_change vs k \<le> latest_change (apply_versions vs ws ts) k"
proof (cases "bm_get ws k")
  case None
  with assms(3) show ?thesis
    by (simp add: latest_change_chain chain_of_apply_versions bm_inv_distinct)
next
  case (Some v)
  let ?c = "chain_of vs k"
  show ?thesis
  proof (cases "v \<noteq> None \<or> visible_value vs k b \<noteq> None")
    case True
    with latest_change_effective [OF assms Some] latest_change_bound [OF assms(1), of k] assms(2)
    show ?thesis by (simp add: less_imp_le order_trans)
  next
    case False
    then have "upd_chain ts v ?c = end_last ts ?c" by (simp add: upd_chain_def)
    with Some assms(3) have "chain_of (apply_versions vs ws ts) k = end_last ts ?c"
      by (simp add: chain_of_apply_versions bm_inv_distinct)
    moreover have "last_modified (last ?c) \<le> last_modified (last (end_last ts ?c))" if "?c \<noteq> []"
      using versions_ok_chain [OF assms(1), of k] assms(2) that
      by (auto simp: end_last_def last_modified_def chain_ok_def list_all_iff version_ok_def
          dest!: bspec [of _ _ "last ?c"])
    ultimately show ?thesis by (auto simp: latest_change_chain end_last_def)
  qed
qed

section \<open>Garbage collection\<close>

text \<open>
  A snapshot is protected by a watermark when every version deleted before the watermark was deleted at or
  before the snapshot.
\<close>

definition protects :: "u64 \<Rightarrow> u64 \<Rightarrow> bool" where
  "protects mark s \<longleftrightarrow> (\<forall>d < mark. d \<le> s)"

lemma find_rev_filter: "(\<And>x. x \<in> set xs \<Longrightarrow> P x \<Longrightarrow> Q x) \<Longrightarrow> find P (rev (filter Q xs)) = find P (rev xs)"
  by (induction xs rule: rev_induct) auto

lemma gc_keeps_visible: "protects mark s \<Longrightarrow> visible_at v s \<Longrightarrow> gc_keeps mark v"
  by (auto simp: protects_def visible_at_def gc_keeps_def split: option.splits)

lemma chain_of_gc: "bm_inv vs \<Longrightarrow> chain_of (gc_versions mark vs) k = filter (gc_keeps mark) (chain_of vs k)"
proof (induction vs)
  case (Cons x vs)
  obtain k' c where x: "x = (k', c)" by (cases x)
  with Cons.prems have "bm_get vs k' = None" "bm_inv vs"
    by (auto simp: bm_inv_Cons map_of_eq_None_iff)
  then have "chain_of vs k' = []" by (simp add: chain_of_def)
  with Cons.IH \<open>bm_inv vs\<close> show ?case
    by (cases "k = k'") (simp_all add: x gc_versions_def chain_of_def)
qed (simp add: gc_versions_def chain_of_def)

lemma gc_versions_keys: "map fst (gc_versions mark vs) = map fst (filter (\<lambda>(k, c). filter (gc_keeps mark) c \<noteq> []) vs)"
  by (induction vs) (auto simp: gc_versions_def)

lemma versions_ok_gc: "versions_ok b vs \<Longrightarrow> versions_ok b (gc_versions mark vs)"
proof (rule versions_okI)
  assume ok: "versions_ok b vs"
  then have inv: "bm_inv vs" by (simp add: versions_ok_def)
  then show "bm_inv (gc_versions mark vs)"
    by (simp add: bm_inv_def gc_versions_keys sorted_wrt_map sorted_wrt_filter)
  fix k
  from versions_ok_chain [OF ok, of k] show "chain_ok b (chain_of (gc_versions mark vs) k)"
    by (auto simp: chain_of_gc inv chain_ok_def list_all_iff sorted_wrt_filter)
qed

lemma visible_value_gc:
  "bm_inv vs \<Longrightarrow> protects mark s \<Longrightarrow> visible_value (gc_versions mark vs) k s = visible_value vs k s"
  by (simp add: visible_value_chain chain_of_gc chain_value_def find_rev_filter gc_keeps_visible)

lemma latest_change_gc:
  assumes "versions_ok b vs" and "protects mark s"
  shows "s < latest_change (gc_versions mark vs) k \<longleftrightarrow> s < latest_change vs k"
proof (cases "chain_of vs k" rule: rev_cases)
  case Nil
  with assms show ?thesis by (simp add: latest_change_chain chain_of_gc versions_ok_def)
next
  case (snoc c l)
  have inv: "bm_inv vs" using assms(1) by (simp add: versions_ok_def)
  have ok: "version_ok b l" "list_all (\<lambda>a. precedes a l) c"
    using versions_ok_chain [OF assms(1), of k] snoc by (simp_all add: chain_ok_snoc)
  show ?thesis
  proof (cases "gc_keeps mark l")
    case True
    with snoc inv show ?thesis by (simp add: latest_change_chain chain_of_gc)
  next
    case False
    then obtain d where d: "deleted_at l = Some d" "d < mark"
      by (auto simp: gc_keeps_def split: option.splits)
    with ok(1) have "created_at l < d" by (simp add: version_ok_def)
    with ok(2) d(2) have gone: "filter (gc_keeps mark) c = []"
      by (auto simp: filter_empty_conv list_all_iff precedes_def gc_keeps_def split: option.splits)
    have "last_modified l \<le> s"
      using d \<open>created_at l < d\<close> assms(2) by (auto simp: last_modified_def protects_def max_def)
    with gone False snoc inv show ?thesis
      by (simp add: latest_change_chain chain_of_gc)
  qed
qed

section \<open>What the operations do\<close>

lemma append_txn_record_frame:
  "append_txn_record r s = (res, s') \<Longrightarrow> \<exists>w. s' = s\<lparr>mv_wal := w\<rparr>"
  by (auto simp: append_txn_record_def split: sum.splits prod.splits intro!: exI [of _ "mv_wal s'"])

lemma sync_txn_log_frame: "sync_txn_log s = (res, s') \<Longrightarrow> \<exists>w. s' = s\<lparr>mv_wal := w\<rparr>"
  by (auto simp: sync_txn_log_def split: prod.splits)

lemma append_sync_frame:
  "and_then (append_txn_record r) (\<lambda>_. sync_txn_log) s = (res, s') \<Longrightarrow> \<exists>w. s' = s\<lparr>mv_wal := w\<rparr>"
  by (auto simp: and_then_def split: prod.splits sum.splits
      dest!: append_txn_record_frame sync_txn_log_frame)

lemma lock_simps [simp]:
  "lock s = (Inr x, s') \<longleftrightarrow> \<not> poisoned s \<and> s' = s"
  "lock s = (Inl e, s') \<longleftrightarrow>
    poisoned s \<and> s' = s \<and> e = Io (IoError OtherKind ''mvcc: lock poisoned'')"
  by (auto simp: lock_def)

lemma begin_txn_Inr:
  assumes "begin_txn s = (Inr t, s')"
  shows "\<not> poisoned s \<and> (\<exists>w next. checked_add_u64 (mv_next_txn s) 1 = Some next
    \<and> t = \<lparr>txn_id = mv_next_txn s, txn_snapshot = mv_commit_ts s, txn_writes = [], txn_finished = False\<rparr>
    \<and> s' = s\<lparr>mv_wal := w, mv_next_txn := next,
              mv_active := bm_insert (mv_next_txn s) (mv_commit_ts s) (mv_active s)\<rparr>)"
proof -
  from assms have p: "\<not> poisoned s" and b: "begin_locked s = (Inr t, s')"
    by (auto simp: begin_txn_def and_then_def lock_def split: if_splits)
  from b obtain "next" where n: "checked_add_u64 (mv_next_txn s) 1 = Some next"
    by (auto simp: begin_locked_def Let_def split: option.splits)
  let ?s1 = "s\<lparr>mv_next_txn := next\<rparr>" and ?r = "RBegin (mv_next_txn s) (mv_commit_ts s)"
  from b n obtain s2 s3 where s: "append_txn_record ?r ?s1 = (Inr (), s2)" "sync_txn_log s2 = (Inr (), s3)"
    "t = \<lparr>txn_id = mv_next_txn s, txn_snapshot = mv_commit_ts s, txn_writes = [], txn_finished = False\<rparr>"
    "s' = s3\<lparr>mv_active := bm_insert (mv_next_txn s) (mv_commit_ts s) (mv_active s3)\<rparr>"
    by (auto simp: begin_locked_def and_then_def Let_def split: prod.splits sum.splits)
  then obtain w where "s3 = ?s1\<lparr>mv_wal := w\<rparr>"
    using append_txn_record_frame [OF s(1)] sync_txn_log_frame [OF s(2)] by auto
  with p n s(3,4) show ?thesis
    by (intro conjI exI [of _ w] exI [of _ "next"]) (cases s, auto)+
qed

lemma begin_txn_Inl:
  assumes "begin_txn s = (Inl e, s')"
  shows "\<exists>w next. s' = s\<lparr>mv_wal := w, mv_next_txn := next\<rparr> \<and> mv_next_txn s \<le> next"
proof (cases "begin_locked s = (Inl e, s') \<and> checked_add_u64 (mv_next_txn s) 1 \<noteq> None")
  case True
  then obtain "next" where n: "checked_add_u64 (mv_next_txn s) 1 = Some next" by auto
  let ?s1 = "s\<lparr>mv_next_txn := next\<rparr>" and ?r = "RBegin (mv_next_txn s) (mv_commit_ts s)"
  from True n have "append_txn_record ?r ?s1 = (Inl e, s')
    \<or> (\<exists>s2. append_txn_record ?r ?s1 = (Inr (), s2) \<and> sync_txn_log s2 = (Inl e, s'))"
    by (auto simp: begin_locked_def and_then_def Let_def split: prod.splits sum.splits)
  then obtain w where "s' = ?s1\<lparr>mv_wal := w\<rparr>"
    by (auto dest!: append_txn_record_frame sync_txn_log_frame)
  moreover have "mv_next_txn s \<le> next" using checked_succ_u64(2) [OF n] by simp
  ultimately show ?thesis by (intro exI [of _ w] exI [of _ "next"]) simp
next
  case False
  with assms have "s' = s"
    by (auto simp: begin_txn_def and_then_def lock_def begin_locked_def split: if_splits option.splits)
  then show ?thesis by (intro exI [of _ "mv_wal s"] exI [of _ "mv_next_txn s"]) simp
qed

lemma txn_write_frame:
  assumes "and_then lock (\<lambda>_. append_txn_record r) s = (res, s')"
  shows "\<exists>w. s' = s\<lparr>mv_wal := w\<rparr>"
proof (cases "poisoned s")
  case True
  with assms have "s' = s" by (simp add: and_then_def lock_def)
  then show ?thesis by (intro exI [of _ "mv_wal s"]) simp
next
  case False
  with assms show ?thesis by (auto simp: and_then_def lock_def dest: append_txn_record_frame)
qed

lemma txn_set_frame:
  assumes "txn_set k v (s, t) = (r, s', t')"
  shows "\<exists>w. s' = s\<lparr>mv_wal := w\<rparr>
    \<and> (r = Inr () \<and> \<not> txn_finished t \<and> t' = t\<lparr>txn_writes := bm_insert k (Some v) (txn_writes t)\<rparr>
       \<or> (\<exists>e. r = Inl e) \<and> t' = t)"
proof (cases "txn_finished t")
  case True
  with assms show ?thesis
    by (auto simp: txn_set_def ensure_open_def intro!: exI [of _ "mv_wal s"])
next
  case False
  with assms txn_write_frame [of "RSet (txn_id t) k v" s] show ?thesis
    by (auto simp: txn_set_def ensure_open_def split: prod.splits sum.splits)
qed

lemma txn_delete_frame:
  assumes "txn_delete k (s, t) = (r, s', t')"
  shows "\<exists>w. s' = s\<lparr>mv_wal := w\<rparr>
    \<and> (r = Inr () \<and> \<not> txn_finished t \<and> t' = t\<lparr>txn_writes := bm_insert k None (txn_writes t)\<rparr>
       \<or> (\<exists>e. r = Inl e) \<and> t' = t)"
proof (cases "txn_finished t")
  case True
  with assms show ?thesis
    by (auto simp: txn_delete_def ensure_open_def intro!: exI [of _ "mv_wal s"])
next
  case False
  with assms txn_write_frame [of "RDelete (txn_id t) k" s] show ?thesis
    by (auto simp: txn_delete_def ensure_open_def split: prod.splits sum.splits)
qed

lemma find_NoneD: "find P xs = None \<Longrightarrow> x \<in> set xs \<Longrightarrow> \<not> P x"
  by (auto simp: find_None_iff)

lemma commit_Inr:
  assumes "commit t s = (Inr ts, s')"
  shows "\<not> txn_finished t \<and> \<not> poisoned s \<and> checked_add_u64 (mv_commit_ts s) 1 = Some ts
    \<and> (\<forall>k \<in> fst ` set (txn_writes t). latest_change (mv_versions s) k \<le> txn_snapshot t)
    \<and> (\<exists>w. and_then (append_txn_record (RCommit (txn_id t) ts)) (\<lambda>_. sync_txn_log) s
             = (Inr (), s\<lparr>mv_wal := w\<rparr>)
       \<and> s' = s\<lparr>mv_wal := w, mv_versions := apply_versions (mv_versions s) (txn_writes t) ts,
                mv_commit_ts := ts, mv_active := bm_remove (txn_id t) (mv_active s)\<rparr>)"
proof -
  from assms have open_t: "\<not> txn_finished t"
    by (auto simp: commit_def ensure_open_def split: if_splits)
  with assms have lock_s: "\<not> poisoned s"
    by (auto simp: commit_def ensure_open_def lock_def split: if_splits)
  let ?f = "find (\<lambda>key. latest_change (mv_versions s) key > txn_snapshot t) (bm_keys (txn_writes t))"
  from assms open_t lock_s have none: "?f = None"
    by (auto simp: commit_def ensure_open_def lock_def split: option.splits prod.splits sum.splits)
  with assms open_t lock_s have ts: "checked_add_u64 (mv_commit_ts s) 1 = Some ts"
    by (auto simp: commit_def ensure_open_def lock_def split: option.splits prod.splits sum.splits)
  obtain res s1 where a: "and_then (append_txn_record (RCommit (txn_id t) ts)) (\<lambda>_. sync_txn_log) s = (res, s1)"
    by fastforce
  with assms open_t lock_s none ts have res: "res = Inr ()"
    and s': "s' = s1\<lparr>mv_versions := apply_versions (mv_versions s1) (txn_writes t) ts,
      mv_commit_ts := ts, mv_active := bm_remove (txn_id t) (mv_active s1)\<rparr>"
    by (auto simp: commit_def ensure_open_def lock_def split: sum.splits)
  from append_sync_frame [OF a] obtain w where w: "s1 = s\<lparr>mv_wal := w\<rparr>" by blast
  have "\<forall>k \<in> fst ` set (txn_writes t). latest_change (mv_versions s) k \<le> txn_snapshot t"
    using find_NoneD [OF none] by (force simp: not_less)
  with open_t lock_s ts a res s' w show ?thesis by auto
qed

lemma drop_txn_eq:
  "drop_txn t s = s\<lparr>mv_active := (if \<not> txn_finished t \<and> \<not> poisoned s
     then bm_remove (txn_id t) (mv_active s) else mv_active s)\<rparr>"
  by (simp add: drop_txn_def)

lemma commit_Inl:
  assumes "commit t s = (Inl e, s')" and "\<not> txn_finished t" and "\<not> poisoned s"
  shows "\<exists>w. s' = s\<lparr>mv_wal := w, mv_active := bm_remove (txn_id t) (mv_active s)\<rparr>"
proof -
  let ?f = "find (\<lambda>key. latest_change (mv_versions s) key > txn_snapshot t) (bm_keys (txn_writes t))"
  note simps = commit_def ensure_open_def lock_def drop_txn_eq assms(2,3)
  consider (conflict) key where "?f = Some key" | (exhausted) "?f = None" "checked_add_u64 (mv_commit_ts s) 1 = None"
    | (log) ts where "?f = None" "checked_add_u64 (mv_commit_ts s) 1 = Some ts"
    by (cases ?f; cases "checked_add_u64 (mv_commit_ts s) 1") auto
  then show ?thesis
  proof cases
    case conflict
    obtain res s1 where a: "and_then (append_txn_record (RAbort (txn_id t))) (\<lambda>_. sync_txn_log) s = (res, s1)"
      by fastforce
    with conflict assms(1) append_sync_frame [OF a] show ?thesis
      by (auto simp: simps assms(3) split: sum.splits)
  next
    case exhausted
    with assms(1) show ?thesis by (auto simp: simps assms(3) intro!: exI [of _ "mv_wal s"])
  next
    case (log ts)
    obtain res s1 where a: "and_then (append_txn_record (RCommit (txn_id t) ts)) (\<lambda>_. sync_txn_log) s = (res, s1)"
      by fastforce
    with log assms(1) append_sync_frame [OF a] show ?thesis
      by (auto simp: simps assms(3) split: sum.splits)
  qed
qed

lemma abort_frame:
  assumes "abort t s = (r, s')" and "\<not> txn_finished t" and "\<not> poisoned s"
  shows "\<exists>w. s' = s\<lparr>mv_wal := w, mv_active := bm_remove (txn_id t) (mv_active s)\<rparr>"
proof -
  obtain res s1 where a: "and_then (append_txn_record (RAbort (txn_id t))) (\<lambda>_. sync_txn_log) s = (res, s1)"
    by fastforce
  have "and_then lock (\<lambda>_. and_then (append_txn_record (RAbort (txn_id t))) (\<lambda>_. sync_txn_log)) s = (res, s1)"
    using assms(3) a by (simp add: and_then_def [of lock] lock_def)
  with assms append_sync_frame [OF a] show ?thesis
    by (auto simp: abort_def ensure_open_def drop_txn_eq split: sum.splits)
qed

end
