(* ===== verification/Mvcc_Scan.thy ===== *)
theory Mvcc_Scan
  imports Mvcc
begin

text \<open>
  Prefix scans: \<open>scan_prefix\<close> walks the keys of the store and the buffered writes from the first key not
  below the prefix, and stops at the first key without it. Strings are ordered by their bytes, so the keys
  with a common prefix are contiguous and the walk misses none.
\<close>

lemma starts_with_simps [simp]:
  "starts_with k []" "\<not> starts_with [] (a # p)" "starts_with (b # k) (a # p) \<longleftrightarrow> b = a \<and> starts_with k p"
  by (auto simp: starts_with_def)

lemma prefix_le: "starts_with (k :: rstring) p \<Longrightarrow> p \<le> k"
  by (induction p arbitrary: k) (simp, case_tac k, auto)

lemma prefix_between: "starts_with (k' :: rstring) p \<Longrightarrow> p \<le> k \<Longrightarrow> k \<le> k' \<Longrightarrow> starts_with k p"
proof (induction p arbitrary: k k')
  case (Cons a p)
  then show ?case by (cases k; cases k') auto
qed simp

lemma contiguous_filter:
  assumes "sorted_wrt (\<lambda>x y. f x < f y) xs"
  shows "takeWhile (\<lambda>x. starts_with (f x) p) (dropWhile (\<lambda>x. f x < p) xs)
    = filter (\<lambda>x. starts_with (f x) (p :: rstring)) xs"
  using assms
proof (induction xs)
  case (Cons x xs)
  consider "f x < p" | "p \<le> f x" "starts_with (f x) p" | "p \<le> f x" "\<not> starts_with (f x) p" by fastforce
  then show ?case
  proof cases
    case 1
    then have "\<not> starts_with (f x) p" using prefix_le by (auto simp: not_le [symmetric])
    with 1 Cons show ?thesis by simp
  next
    case 2
    then have "dropWhile (\<lambda>y. f y < p) (x # xs) = x # xs" by (simp add: not_less)
    moreover have "dropWhile (\<lambda>y. f y < p) xs = xs"
      using Cons.prems 2 by (cases xs) (auto simp: not_less)
    ultimately show ?thesis using Cons 2 by simp
  next
    case 3
    have "\<not> starts_with (f y) p" if "y \<in> set xs" for y
      using that Cons.prems 3 prefix_between [of "f y" p "f x"] by (auto dest: less_imp_le)
    moreover have "\<not> f x < p" using 3 by (simp add: not_less)
    ultimately show ?thesis using 3 by (auto simp: filter_empty_conv)
  qed
qed simp

lemma foldl_visible_rows:
  "bm_inv rows \<Longrightarrow> bm_inv (foldl (\<lambda>rows key. case f key of Some value \<Rightarrow> bm_insert key value rows | None \<Rightarrow> rows) rows ks)
    \<and> bm_get (foldl (\<lambda>rows key. case f key of Some value \<Rightarrow> bm_insert key value rows | None \<Rightarrow> rows) rows ks) k
      = (if k \<in> set ks \<and> f k \<noteq> None then f k else bm_get rows k)"
  by (induction ks arbitrary: rows) (auto split: option.split)

lemma foldl_buffered_rows:
  "bm_inv rows \<Longrightarrow> distinct (map fst ws) \<Longrightarrow>
    bm_inv (foldl (\<lambda>rows (key, value). case value of Some value \<Rightarrow> bm_insert key value rows | None \<Rightarrow> bm_remove key rows) rows ws)
    \<and> bm_get (foldl (\<lambda>rows (key, value). case value of Some value \<Rightarrow> bm_insert key value rows | None \<Rightarrow> bm_remove key rows) rows ws) k
      = (case bm_get ws k of Some v \<Rightarrow> v | None \<Rightarrow> bm_get rows k)"
proof (induction ws arbitrary: rows)
  case (Cons w ws)
  obtain k' v where w: "w = (k', v)" by (cases w)
  with Cons.prems have "bm_get ws k' = None" by (auto simp: map_of_eq_None_iff)
  with Cons w show ?case by (cases v) (auto split: option.split)
qed simp

lemma visible_value_keys: "k \<notin> fst ` set vs \<Longrightarrow> visible_value vs k s = None"
  by (simp add: visible_value_def map_of_eq_None_iff [symmetric])

lemma bm_get_filter: "bm_get (filter (\<lambda>x. P (fst x)) m) k = (if P k then bm_get m k else None)"
  by (induction m) auto

lemma scan_prefix_rows:
  assumes "\<not> txn_finished t" and "\<not> poisoned s" and "bm_inv (txn_writes t)"
  shows "\<exists>rows. scan_prefix s t prefix = Inr rows \<and> bm_inv rows
    \<and> (\<forall>k. bm_get rows k = (if starts_with k prefix
         then case bm_get (txn_writes t) k of Some v \<Rightarrow> v | None \<Rightarrow> visible_value (mv_versions s) k (txn_snapshot t)
         else None))"
proof -
  let ?f = "\<lambda>k. visible_value (mv_versions s) k (txn_snapshot t)"
  define ks where "ks = filter (\<lambda>key. starts_with key prefix) (bm_keys (mv_versions s))"
  define rows where "rows = foldl (\<lambda>rows key. case ?f key of Some value \<Rightarrow> bm_insert key value rows | None \<Rightarrow> rows) [] ks"
  define ws where "ws = filter (\<lambda>x. starts_with (fst x) prefix) (txn_writes t)"
  have rows: "bm_inv rows" "bm_get rows k = (if starts_with k prefix then ?f k else None)" for k
    using foldl_visible_rows [of "[]" ?f ks k] visible_value_keys [of k "mv_versions s" "txn_snapshot t"]
    by (auto simp: rows_def ks_def)
  have "takeWhile (\<lambda>(key, _). starts_with key prefix) (dropWhile (\<lambda>(key, _). key < prefix) (txn_writes t)) = ws"
    using contiguous_filter [of fst "txn_writes t" prefix] assms(3)
    by (simp add: bm_inv_def sorted_wrt_map ws_def case_prod_unfold)
  moreover have "distinct (map fst ws)"
    using bm_inv_distinct [OF assms(3)] by (simp add: ws_def distinct_map_filter)
  moreover have "bm_get ws k = (if starts_with k prefix then bm_get (txn_writes t) k else None)" for k
    unfolding ws_def by (rule bm_get_filter)
  ultimately show ?thesis
    using foldl_buffered_rows [OF rows(1), of ws] rows(2) assms(1,2)
    by (simp add: scan_prefix_def ensure_open_def lock_def Let_def rows_def [symmetric] ks_def [symmetric]
        split: option.split)
qed

end
