(* ===== verification/Mvcc_Durability.thy ===== *)
theory Mvcc_Durability
  imports Mvcc_System
begin

text \<open>
  The transaction log and the memory state of the store, on a disk that does not report errors: what each
  operation appends and syncs, an invariant that relates the log to the store through recovery, and the
  consequence for crashes. A life of the store is any sequence of steps and crashes; after a crash the log is
  any prefix of what was written that keeps what was synced, and the store is opened again from it.
\<close>

section \<open>What the operations append\<close>

definition log_record :: "txn_record \<Rightarrow> wal \<Rightarrow> wal" where
  "log_record r w = w\<lparr>wal_bytes := wal_bytes w @ frame (txn_bytes r)\<rparr>"

definition log_forced :: "wal \<Rightarrow> wal" where
  "log_forced w = w\<lparr>wal_synced := length (wal_bytes w)\<rparr>"

lemma append_txn_record_ok:
  "wal_faults (mv_wal s) = [] \<Longrightarrow> txn_fits r \<Longrightarrow>
    append_txn_record r s = (Inr (), s\<lparr>mv_wal := log_record r (mv_wal s)\<rparr>)"
  by (simp add: append_txn_record_def txn_fits_encode append_record_ok txn.enc_fits log_record_def)

lemma append_txn_record_refused:
  assumes "wal_faults (mv_wal s) = []" and "\<not> txn_fits r" and "txn_record_utf8 r"
  shows "\<exists>e. append_txn_record r s = (Inl e, s)"
proof (cases "txn_encode r")
  case (Inl e)
  then show ?thesis by (simp add: append_txn_record_def)
next
  case (Inr bs)
  with assms(2,3) have "\<not> fits_record bs" by (simp add: txn_fits_def)
  with Inr show ?thesis
    by (simp add: append_txn_record_def append_record_def fits_record_def)
qed

lemma append_sync_ok:
  "wal_faults (mv_wal s) = [] \<Longrightarrow> txn_fits r \<Longrightarrow>
    and_then (append_txn_record r) (\<lambda>_. sync_txn_log) s = (Inr (), s\<lparr>mv_wal := log_forced (log_record r (mv_wal s))\<rparr>)"
  by (simp add: and_then_def append_txn_record_ok sync_txn_log_def sync_ok log_record_def log_forced_def)

text \<open>The operations on a disk without faults.\<close>

lemma begin_txn_ok:
  assumes "wal_faults (mv_wal s) = []" and "\<not> poisoned s" and "checked_add_u64 (mv_next_txn s) 1 = Some next"
  shows "begin_txn s = (Inr \<lparr>txn_id = mv_next_txn s, txn_snapshot = mv_commit_ts s, txn_writes = [], txn_finished = False\<rparr>,
    s\<lparr>mv_next_txn := next, mv_wal := log_forced (log_record (RBegin (mv_next_txn s) (mv_commit_ts s)) (mv_wal s)),
      mv_active := bm_insert (mv_next_txn s) (mv_commit_ts s) (mv_active s)\<rparr>)"
  using assms
  by (simp add: begin_txn_def and_then_def lock_def begin_locked_def Let_def append_txn_record_ok
      sync_txn_log_def sync_ok log_record_def log_forced_def)

lemma commit_ok_eq:
  assumes "wal_faults (mv_wal s) = []" and "commit t s = (Inr ts, s')"
  shows "mv_wal s' = log_forced (log_record (RCommit (txn_id t) ts) (mv_wal s))"
proof -
  from commit_Inr [OF assms(2)] obtain w
    where "and_then (append_txn_record (RCommit (txn_id t) ts)) (\<lambda>_. sync_txn_log) s = (Inr (), s\<lparr>mv_wal := w\<rparr>)"
      and "mv_wal s' = w" by auto
  with append_sync_ok [OF assms(1), of "RCommit (txn_id t) ts"] show ?thesis by (cases s) auto
qed

lemma commit_err_eq:
  assumes "wal_faults (mv_wal s) = []" and "commit t s = (Inl e, s')" and "\<not> txn_finished t" and "\<not> poisoned s"
  shows "mv_wal s' = mv_wal s \<or> mv_wal s' = log_forced (log_record (RAbort (txn_id t)) (mv_wal s))"
  using assms append_sync_ok [OF assms(1), of "RAbort (txn_id t)"] append_sync_ok [OF assms(1), of "RCommit (txn_id t) ts" for ts]
  by (auto simp: commit_def ensure_open_def lock_def drop_txn_def split: option.splits)

lemma abort_eq:
  assumes "wal_faults (mv_wal s) = []" and "abort t s = (r, s')" and "\<not> txn_finished t" and "\<not> poisoned s"
  shows "mv_wal s' = log_forced (log_record (RAbort (txn_id t)) (mv_wal s))"
proof -
  have "and_then lock (\<lambda>_. and_then (append_txn_record (RAbort (txn_id t))) (\<lambda>_. sync_txn_log)) s
      = (Inr (), s\<lparr>mv_wal := log_forced (log_record (RAbort (txn_id t)) (mv_wal s))\<rparr>)"
    using assms(1,4) append_sync_ok [OF assms(1), of "RAbort (txn_id t)"]
    by (simp add: and_then_def [of lock] lock_def)
  with assms show ?thesis by (auto simp: abort_def ensure_open_def)
qed

lemma txn_set_eq:
  assumes "wal_faults (mv_wal s) = []" and "txn_set k v (s, t) = (r, s', t')" and "\<not> txn_finished t"
    and "\<not> poisoned s" and "utf8_valid k" and "utf8_valid v"
  shows "r = Inr () \<and> txn_fits (RSet (txn_id t) k v) \<and> mv_wal s' = log_record (RSet (txn_id t) k v) (mv_wal s)
    \<or> r \<noteq> Inr () \<and> mv_wal s' = mv_wal s"
proof (cases "txn_fits (RSet (txn_id t) k v)")
  case True
  with assms append_txn_record_ok [OF assms(1) True] show ?thesis
    by (auto simp: txn_set_def ensure_open_def and_then_def lock_def)
next
  case False
  with append_txn_record_refused [OF assms(1) False] assms show ?thesis
    by (auto simp: txn_set_def ensure_open_def and_then_def lock_def)
qed

lemma txn_delete_eq:
  assumes "wal_faults (mv_wal s) = []" and "txn_delete k (s, t) = (r, s', t')" and "\<not> txn_finished t"
    and "\<not> poisoned s" and "utf8_valid k"
  shows "r = Inr () \<and> txn_fits (RDelete (txn_id t) k) \<and> mv_wal s' = log_record (RDelete (txn_id t) k) (mv_wal s)
    \<or> r \<noteq> Inr () \<and> mv_wal s' = mv_wal s"
proof (cases "txn_fits (RDelete (txn_id t) k)")
  case True
  with assms append_txn_record_ok [OF assms(1) True] show ?thesis
    by (auto simp: txn_delete_def ensure_open_def and_then_def lock_def)
next
  case False
  with append_txn_record_refused [OF assms(1) False] assms show ?thesis
    by (auto simp: txn_delete_def ensure_open_def and_then_def lock_def)
qed

section \<open>Recovery of a list of records\<close>

fun recover_records :: "recovery \<Rightarrow> txn_record list \<Rightarrow> recovery io_result" where
  "recover_records rc [] = Inr rc"
| "recover_records rc (r # rs) = rbind (recover_record rc r) (\<lambda>rc'. recover_records rc' rs)"

lemma recover_encoded: "list_all txn_fits rs \<Longrightarrow> recover rc (map txn_bytes rs) = recover_records rc rs"
  by (induction rs arbitrary: rc) (simp_all add: txn.dec_enc)

lemma recover_records_append:
  "recover_records rc (rs @ rs') = rbind (recover_records rc rs) (\<lambda>rc'. recover_records rc' rs')"
  by (induction rs arbitrary: rc) (simp_all add: rbind_assoc)

lemma rc_inv_records: "recover_records rc rs = Inr rc' \<Longrightarrow> rc_inv rc \<Longrightarrow> rc_inv rc'"
  by (induction rs arbitrary: rc) (auto simp: rbind_Inr_iff dest: rc_inv_record)

text \<open>Records that a crash may cut off: buffered writes, which only touch the pending maps.\<close>

fun is_buffered :: "txn_record \<Rightarrow> bool" where
  "is_buffered (RSet _ _ _) \<longleftrightarrow> True"
| "is_buffered (RDelete _ _) \<longleftrightarrow> True"
| "is_buffered _ \<longleftrightarrow> False"

lemma recover_buffered:
  assumes "recover_records rc rs = Inr rc'" and "list_all is_buffered rs"
  shows "rc_versions rc' = rc_versions rc \<and> rc_commit_ts rc' = rc_commit_ts rc \<and> rc_max_txn rc' = rc_max_txn rc
    \<and> rc_begun rc' = rc_begun rc"
  using assms
proof (induction rs arbitrary: rc)
  case (Cons r rs)
  then obtain rc1 where rc1: "recover_record rc r = Inr rc1" "recover_records rc1 rs = Inr rc'"
    by (auto simp: rbind_Inr_iff)
  have "rc_versions rc1 = rc_versions rc \<and> rc_commit_ts rc1 = rc_commit_ts rc
      \<and> rc_max_txn rc1 = rc_max_txn rc \<and> rc_begun rc1 = rc_begun rc"
    using rc1(1) Cons.prems(2) by (cases r) (auto simp: rbind_Inr_iff)
  with Cons.IH [OF rc1(2)] Cons.prems(2) show ?case by simp
qed simp

lemma recover_buffered_prefix:
  assumes "recover_records rc0 (rs @ bs) = Inr rc" and "list_all is_buffered bs"
  shows "\<exists>rc'. recover_records rc0 (rs @ take k bs) = Inr rc' \<and> rc_versions rc' = rc_versions rc
    \<and> rc_commit_ts rc' = rc_commit_ts rc \<and> rc_max_txn rc' = rc_max_txn rc"
proof -
  have "recover_records rc0 ((rs @ take k bs) @ drop k bs) = Inr rc" using assms(1) by simp
  then obtain rc' where rc': "recover_records rc0 (rs @ take k bs) = Inr rc'"
    and rest: "recover_records rc' (drop k bs) = Inr rc"
    by (auto simp only: recover_records_append [of _ "rs @ take k bs"] rbind_Inr_iff)
  have "list_all is_buffered (drop k bs)"
    using assms(2) by (auto simp: list_all_iff dest: in_set_dropD)
  with recover_buffered [OF rest] rc' show ?thesis by auto
qed

text \<open>Only transactions that have begun have pending writes.\<close>

definition pending_begun :: "recovery \<Rightarrow> bool" where
  "pending_begun rc \<longleftrightarrow> (\<forall>i. (rc_pending rc i \<noteq> None \<or> rc_begun rc i \<noteq> None) \<longrightarrow> i \<le> rc_max_txn rc)"

lemma pending_begun_record:
  assumes "recover_record rc r = Inr rc'" and "pending_begun rc"
  shows "pending_begun rc'"
  using assms
  by (cases r) (auto simp: pending_begun_def rbind_Inr_iff ensure_begun_def le_max_iff_disj split: if_splits)

lemma pending_begun_records: "recover_records rc rs = Inr rc' \<Longrightarrow> pending_begun rc \<Longrightarrow> pending_begun rc'"
  by (induction rs arbitrary: rc) (auto simp: rbind_Inr_iff dest: pending_begun_record)

lemma pending_le_max:
  "recover_records recovery_init rs = Inr rc \<Longrightarrow> rc_pending rc i \<noteq> None \<Longrightarrow> i \<le> rc_max_txn rc"
  using pending_begun_records [of recovery_init rs rc] by (auto simp: pending_begun_def recovery_init_def)

section \<open>The log determines the store\<close>

text \<open>
  The log holds the records \<open>sync @ tail\<close>, of which \<open>sync\<close> has reached the disk and \<open>tail\<close> consists of
  buffered writes; recovery of all of it succeeds with \<open>rc\<close>.
\<close>

definition log_holds :: "wal \<Rightarrow> txn_record list \<Rightarrow> txn_record list \<Rightarrow> recovery \<Rightarrow> bool" where
  "log_holds w forced tail rc \<longleftrightarrow> wal_faults w = [] \<and> list_all txn_fits (forced @ tail)
    \<and> wal_bytes w = wal_log (map txn_bytes (forced @ tail))
    \<and> length (wal_log (map txn_bytes forced)) \<le> wal_synced w
    \<and> list_all is_buffered tail \<and> recover_records recovery_init (forced @ tail) = Inr rc"

text \<open>What recovery finds and what the store holds in memory.\<close>

definition mirrors :: "recovery \<Rightarrow> mvcc_sys \<Rightarrow> bool" where
  "mirrors rc x \<longleftrightarrow> rc_commit_ts rc = mv_commit_ts (sys_store x)
    \<and> checked_add_u64 (rc_max_txn rc) 1 = Some (mv_next_txn (sys_store x))
    \<and> (\<forall>k. visible_value (rc_versions rc) k (mv_commit_ts (sys_store x))
         = visible_value (mv_versions (sys_store x)) k (mv_commit_ts (sys_store x)))
    \<and> (\<forall>i. rc_pending rc i \<noteq> None \<longrightarrow> i \<le> rc_max_txn rc)
    \<and> (\<forall>i t. sys_txns x i = Some t \<longrightarrow> rc_begun rc i \<noteq> None \<and> or_default (rc_pending rc i) = txn_writes t)"

definition dur_inv :: "mvcc_sys \<Rightarrow> bool" where
  "dur_inv x \<longleftrightarrow> mem_inv x \<and> (\<exists>forced tail rc. log_holds (mv_wal (sys_store x)) forced tail rc \<and> mirrors rc x)"

lemma log_holds_faults: "log_holds w forced tail rc \<Longrightarrow> wal_faults w = []"
  by (simp add: log_holds_def)

lemma log_holds_forced:
  "log_holds w forced tail rc \<Longrightarrow> txn_fits r \<Longrightarrow> recover_record rc r = Inr rc' \<Longrightarrow>
    log_holds (log_forced (log_record r w)) (forced @ tail @ [r]) [] rc'"
  by (simp add: log_holds_def log_forced_def log_record_def recover_records_append rbind_assoc)
     (auto simp: rbind_Inr_iff)

lemma log_holds_buffered:
  "log_holds w forced tail rc \<Longrightarrow> txn_fits r \<Longrightarrow> is_buffered r \<Longrightarrow> recover_record rc r = Inr rc' \<Longrightarrow>
    log_holds (log_record r w) forced (tail @ [r]) rc'"
  by (simp add: log_holds_def log_record_def recover_records_append rbind_assoc)
     (auto simp: rbind_Inr_iff)

lemma log_holds_rc: "log_holds w forced tail rc \<Longrightarrow> rc_inv rc"
  using rc_inv_records [OF _ rc_inv_init] by (auto simp: log_holds_def)

lemma dur_invE:
  assumes "dur_inv x"
  obtains forced tail rc where "log_holds (mv_wal (sys_store x)) forced tail rc" and "mirrors rc x" and "rc_inv rc"
  using assms log_holds_rc by (auto simp: dur_inv_def)

lemma dur_invI:
  "mem_inv x \<Longrightarrow> log_holds (mv_wal (sys_store x)) forced tail rc \<Longrightarrow> mirrors rc x \<Longrightarrow> dur_inv x"
  by (auto simp: dur_inv_def)

lemma dur_inv_begin:
  assumes "dur_inv x" and "begin_txn (sys_store x) = (Inr t, s')"
  shows "dur_inv (x\<lparr>sys_store := s', sys_txns := (sys_txns x)(txn_id t \<mapsto> t)\<rparr>)"
proof -
  let ?s = "sys_store x" and ?n = "mv_next_txn (sys_store x)"
  obtain forced tail rc where log: "log_holds (mv_wal ?s) forced tail rc" and m: "mirrors rc x"
    using assms(1) by (rule dur_invE)
  from begin_txn_Inr [OF assms(2)] obtain "next" where n: "checked_add_u64 ?n 1 = Some next" "\<not> poisoned ?s" by blast
  note eq = begin_txn_ok [OF log_holds_faults [OF log] n(2,1), unfolded assms(2)]
  let ?rc = "rc\<lparr>rc_max_txn := max (rc_max_txn rc) ?n, rc_begun := (rc_begun rc)(?n \<mapsto> mv_commit_ts ?s),
    rc_pending := (rc_pending rc)(?n \<mapsto> or_default (rc_pending rc ?n))\<rparr>"
  have new: "rc_max_txn rc < ?n" "\<not> ?n \<le> rc_max_txn rc"
    using m checked_succ_u64(2) by (auto simp: mirrors_def not_le)
  then have "rc_pending rc ?n = None" using m by (auto simp: mirrors_def)
  with m new n eq have "mirrors ?rc (x\<lparr>sys_store := s', sys_txns := (sys_txns x)(txn_id t \<mapsto> t)\<rparr>)"
    by (auto simp: mirrors_def or_default_def max_def split: if_splits)
  moreover have "log_holds (mv_wal s') (forced @ tail @ [RBegin ?n (mv_commit_ts ?s)]) [] ?rc"
    using eq log_holds_forced [OF log, of "RBegin ?n (mv_commit_ts ?s)"] by simp
  moreover have "mem_inv x" using assms(1) by (simp add: dur_inv_def)
  ultimately show ?thesis
    using mem_inv_begin [OF _ assms(2)] by (auto intro!: dur_invI)
qed

lemma mirrors_alive:
  assumes "mirrors rc x" and "mem_inv x" and "sys_txns x i = Some t"
  shows "ensure_begun (rc_begun rc) i = Inr ()" and "i \<le> rc_max_txn rc"
    and "or_default (rc_pending rc i) = txn_writes t" and "txn_id t = i" and "\<not> txn_finished t" and "bm_inv (txn_writes t)"
proof -
  show "ensure_begun (rc_begun rc) i = Inr ()" "or_default (rc_pending rc i) = txn_writes t"
    using assms(1,3) by (auto simp: mirrors_def ensure_begun_def)
  from mem_invD(4) [OF assms(2,3)] show "txn_id t = i" "\<not> txn_finished t" "bm_inv (txn_writes t)"
    by (simp_all add: txn_ok_def)
  have "i < mv_next_txn (sys_store x)" using mem_invD(4) [OF assms(2,3)] by (simp add: txn_ok_def)
  moreover have "checked_add_u64 (rc_max_txn rc) 1 = Some (mv_next_txn (sys_store x))"
    using assms(1) by (simp add: mirrors_def)
  ultimately show "i \<le> rc_max_txn rc"
    by (simp add: word_le_nat_alt word_less_nat_alt checked_succ_u64(1))
qed

lemma mirrors_write:
  assumes "mirrors rc x" and "mem_inv x" and "sys_txns x i = Some t"
    and "s' = (sys_store x)\<lparr>mv_wal := w\<rparr>" and "t' = t\<lparr>txn_writes := bm_insert k v (txn_writes t)\<rparr>"
  shows "mirrors (rc\<lparr>rc_pending := (rc_pending rc)(i \<mapsto> bm_insert k v (or_default (rc_pending rc i)))\<rparr>)
    (x\<lparr>sys_store := s', sys_txns := (sys_txns x)(i \<mapsto> t')\<rparr>)"
  using assms(1) assms(3-) mirrors_alive [OF assms(1-3)] by (auto simp: mirrors_def or_default_def)

lemma dur_inv_frame:
  assumes "dur_inv x" and "mem_inv y" and "mv_wal (sys_store y) = mv_wal (sys_store x)"
    and "mv_commit_ts (sys_store y) = mv_commit_ts (sys_store x)" and "mv_next_txn (sys_store y) = mv_next_txn (sys_store x)"
    and "\<And>k. visible_value (mv_versions (sys_store y)) k (mv_commit_ts (sys_store x))
       = visible_value (mv_versions (sys_store x)) k (mv_commit_ts (sys_store x))"
    and "\<And>j u. sys_txns y j = Some u \<Longrightarrow> \<exists>t. sys_txns x j = Some t \<and> txn_writes t = txn_writes u"
  shows "dur_inv y"
proof -
  obtain forced tail rc where "log_holds (mv_wal (sys_store x)) forced tail rc" and m: "mirrors rc x"
    using assms(1) by (rule dur_invE)
  moreover have "mirrors rc y" using m assms(4-) by (fastforce simp: mirrors_def)
  ultimately show ?thesis using assms(2,3) by (auto intro: dur_invI)
qed

lemma dur_inv_set:
  assumes "dur_inv x" and "sys_txns x i = Some t" and "utf8_valid k" and "utf8_valid v"
    and "txn_set k v (sys_store x, t) = (r, s', t')"
    and "mem_inv (x\<lparr>sys_store := s', sys_txns := (sys_txns x)(i \<mapsto> t')\<rparr>)" (is "mem_inv ?y")
  shows "dur_inv ?y"
proof -
  obtain forced tail rc where log: "log_holds (mv_wal (sys_store x)) forced tail rc" and m: "mirrors rc x"
    using assms(1) by (rule dur_invE)
  have mem: "mem_inv x" using assms(1) by (simp add: dur_inv_def)
  note alive = mirrors_alive [OF m mem assms(2)]
  from txn_set_frame [OF assms(5)] obtain w where s': "s' = (sys_store x)\<lparr>mv_wal := w\<rparr>"
    and r: "r = Inr () \<and> t' = t\<lparr>txn_writes := bm_insert k (Some v) (txn_writes t)\<rparr> \<or> r \<noteq> Inr () \<and> t' = t"
    by (auto simp: Inl_Inr_False)
  from txn_set_eq [OF log_holds_faults [OF log] assms(5) alive(5) mem_invD(1) [OF mem] assms(3,4)]
  show ?thesis
  proof (elim disjE conjE)
    assume *: "r = Inr ()" "txn_fits (RSet (txn_id t) k v)" "mv_wal s' = log_record (RSet (txn_id t) k v) (mv_wal (sys_store x))"
    then have "mirrors (rc\<lparr>rc_pending := (rc_pending rc)(i \<mapsto> bm_insert k (Some v) (or_default (rc_pending rc i)))\<rparr>) ?y"
      using r by (intro mirrors_write [OF m mem assms(2) s']) simp
    with log_holds_buffered [OF log *(2)] *(3) assms(6) alive show ?thesis by (auto intro!: dur_invI)
  next
    assume "r \<noteq> Inr ()" "mv_wal s' = mv_wal (sys_store x)"
    with r s' assms(2) show ?thesis by (intro dur_inv_frame [OF assms(1,6)]) (auto split: if_splits)
  qed
qed

lemma dur_inv_delete:
  assumes "dur_inv x" and "sys_txns x i = Some t" and "utf8_valid k"
    and "txn_delete k (sys_store x, t) = (r, s', t')"
    and "mem_inv (x\<lparr>sys_store := s', sys_txns := (sys_txns x)(i \<mapsto> t')\<rparr>)" (is "mem_inv ?y")
  shows "dur_inv ?y"
proof -
  obtain forced tail rc where log: "log_holds (mv_wal (sys_store x)) forced tail rc" and m: "mirrors rc x"
    using assms(1) by (rule dur_invE)
  have mem: "mem_inv x" using assms(1) by (simp add: dur_inv_def)
  note alive = mirrors_alive [OF m mem assms(2)]
  from txn_delete_frame [OF assms(4)] obtain w where s': "s' = (sys_store x)\<lparr>mv_wal := w\<rparr>"
    and r: "r = Inr () \<and> t' = t\<lparr>txn_writes := bm_insert k None (txn_writes t)\<rparr> \<or> r \<noteq> Inr () \<and> t' = t"
    by (auto simp: Inl_Inr_False)
  from txn_delete_eq [OF log_holds_faults [OF log] assms(4) alive(5) mem_invD(1) [OF mem] assms(3)]
  show ?thesis
  proof (elim disjE conjE)
    assume *: "r = Inr ()" "txn_fits (RDelete (txn_id t) k)" "mv_wal s' = log_record (RDelete (txn_id t) k) (mv_wal (sys_store x))"
    then have "mirrors (rc\<lparr>rc_pending := (rc_pending rc)(i \<mapsto> bm_insert k None (or_default (rc_pending rc i)))\<rparr>) ?y"
      using r by (intro mirrors_write [OF m mem assms(2) s']) simp
    with log_holds_buffered [OF log *(2)] *(3) assms(5) alive show ?thesis by (auto intro!: dur_invI)
  next
    assume "r \<noteq> Inr ()" "mv_wal s' = mv_wal (sys_store x)"
    with r s' assms(2) show ?thesis by (intro dur_inv_frame [OF assms(1,5)]) (auto split: if_splits)
  qed
qed

lemma dur_inv_close:
  assumes "dur_inv x" and "sys_txns x i = Some t"
    and "s' = (sys_store x)\<lparr>mv_wal := w, mv_active := bm_remove i (mv_active (sys_store x))\<rparr>"
    and "w = mv_wal (sys_store x) \<or> w = log_forced (log_record (RAbort i) (mv_wal (sys_store x)))"
  shows "dur_inv (x\<lparr>sys_store := s', sys_txns := (sys_txns x)(i := None)\<rparr>)" (is "dur_inv ?y")
proof -
  obtain forced tail rc where log: "log_holds (mv_wal (sys_store x)) forced tail rc" and m: "mirrors rc x"
    using assms(1) by (rule dur_invE)
  have mem: "mem_inv ?y"
    using mem_inv_close [OF _ assms(2), of w] assms(1,3) by (simp add: dur_inv_def)
  from assms(4) show ?thesis
  proof
    assume "w = mv_wal (sys_store x)"
    with assms(3) show ?thesis by (intro dur_inv_frame [OF assms(1) mem]) (auto split: if_splits)
  next
    assume w: "w = log_forced (log_record (RAbort i) (mv_wal (sys_store x)))"
    let ?rc = "rc\<lparr>rc_pending := (rc_pending rc)(i := None), rc_begun := (rc_begun rc)(i := None)\<rparr>"
    have "mirrors ?rc ?y" using m assms(3) by (auto simp: mirrors_def split: if_splits)
    with log_holds_forced [OF log, of "RAbort i" ?rc] mem w assms(3) show ?thesis by (auto intro!: dur_invI)
  qed
qed

lemma dur_inv_commit:
  assumes "dur_inv x" and "sys_txns x i = Some t" and "commit t (sys_store x) = (Inr ts, s')"
  shows "dur_inv (x\<lparr>sys_store := s', sys_txns := (sys_txns x)(i := None), sys_hist := h\<rparr>)" (is "dur_inv ?y")
proof -
  let ?s = "sys_store x"
  obtain forced tail rc where log: "log_holds (mv_wal ?s) forced tail rc" and m: "mirrors rc x" and rc: "rc_inv rc"
    using assms(1) by (rule dur_invE)
  have mem: "mem_inv x" using assms(1) by (simp add: dur_inv_def)
  note alive = mirrors_alive [OF m mem assms(2)]
  from commit_Inr [OF assms(3)] obtain w where ts: "checked_add_u64 (mv_commit_ts ?s) 1 = Some ts"
    and s': "s' = ?s\<lparr>mv_wal := w, mv_versions := apply_versions (mv_versions ?s) (txn_writes t) ts,
      mv_commit_ts := ts, mv_active := bm_remove (txn_id t) (mv_active ?s)\<rparr>" by blast
  have less: "mv_commit_ts ?s < ts" using ts by (rule checked_succ_u64)
  let ?rc = "rc\<lparr>rc_pending := (rc_pending rc)(i := None),
    rc_versions := apply_versions (rc_versions rc) (txn_writes t) ts,
    rc_commit_ts := ts, rc_begun := (rc_begun rc)(i := None)\<rparr>"
  have cts: "rc_commit_ts rc = mv_commit_ts ?s" using m by (simp add: mirrors_def)
  have "visible_value (apply_versions (rc_versions rc) (txn_writes t) ts) k ts =
      visible_value (apply_versions (mv_versions ?s) (txn_writes t) ts) k ts" for k
    using visible_value_present [OF _ less alive(6), of "rc_versions rc" k]
      visible_value_present [OF mem_invD(3) [OF mem] less alive(6), of k] rc m
    by (simp add: rc_inv_def cts mirrors_def split: option.splits)
  with m s' have "mirrors ?rc ?y" by (auto simp: mirrors_def split: if_splits)
  moreover have "recover_record rc (RCommit i ts) = Inr ?rc"
    using alive less cts by (simp add: not_le)
  then have "log_holds (mv_wal (sys_store ?y)) (forced @ tail @ [RCommit i ts]) [] ?rc"
    using log_holds_forced [OF log, of "RCommit i ts"] commit_ok_eq [OF log_holds_faults [OF log] assms(3)] alive(4)
    by simp
  ultimately show ?thesis using mem_inv_commit [OF mem assms(2,3)] by (auto intro!: dur_invI)
qed

lemma dur_inv_gc:
  assumes "dur_inv x" and "gc (sys_store x) = (r, s')"
  shows "dur_inv (x\<lparr>sys_store := s'\<rparr>)"
proof -
  have mem: "mem_inv x" using assms(1) by (simp add: dur_inv_def)
  then have "bm_inv (mv_versions (sys_store x))" using mem_invD(3) by (simp add: versions_ok_def)
  with gc_eq [OF mem_invD(1) [OF mem] assms(2)] gc_watermark_protects_now [OF mem] show ?thesis
    by (intro dur_inv_frame [OF assms(1) mem_inv_gc [OF mem assms(2)]]) (simp_all add: visible_value_gc)
qed

lemma dur_inv_begin_err:
  assumes "dur_inv x" and "begin_txn (sys_store x) = (Inl e, s')"
  shows "s' = sys_store x"
proof -
  obtain forced tail rc where log: "log_holds (mv_wal (sys_store x)) forced tail rc"
    using assms(1) by (rule dur_invE)
  have p: "\<not> poisoned (sys_store x)" using assms(1) mem_invD(1) by (auto simp: dur_inv_def)
  show ?thesis
  proof (cases "checked_add_u64 (mv_next_txn (sys_store x)) 1")
    case None
    with p assms(2) show ?thesis by (simp add: begin_txn_def and_then_def lock_def begin_locked_def)
  next
    case (Some "next")
    with begin_txn_ok [OF log_holds_faults [OF log] p Some] assms(2) show ?thesis by simp
  qed
qed

lemma dur_inv_step:
  assumes "mvcc_step x y" and "dur_inv x"
  shows "dur_inv y"
proof -
  obtain forced tail rc where log: "log_holds (mv_wal (sys_store x)) forced tail rc" and m: "mirrors rc x"
    using assms(2) by (rule dur_invE)
  have mem: "mem_inv x" using assms(2) by (simp add: dur_inv_def)
  note memy = mem_inv_step [OF assms(1) mem]
  note faults = log_holds_faults [OF log] and p = mem_invD(1) [OF mem]
  from assms(1) show ?thesis
  proof (cases rule: mvcc_step.cases)
    case (begin_ok t s')
    with assms(2) show ?thesis by (simp add: dur_inv_begin)
  next
    case (begin_err e s')
    with dur_inv_begin_err [OF assms(2) begin_err(2)] assms(2) show ?thesis by simp
  next
    case (set i t k v r s' t')
    with dur_inv_set [OF assms(2) set(2-5)] memy show ?thesis by simp
  next
    case (delete i t k r s' t')
    with dur_inv_delete [OF assms(2) delete(2-4)] memy show ?thesis by simp
  next
    case (commit_ok i t ts s')
    with dur_inv_commit [OF assms(2) commit_ok(2,3)] show ?thesis by simp
  next
    case (commit_err i t e s')
    note alive = mirrors_alive [OF m mem commit_err(2)]
    from commit_Inl [OF commit_err(3) alive(5) p] alive(4) obtain w
      where s': "s' = (sys_store x)\<lparr>mv_wal := w, mv_active := bm_remove i (mv_active (sys_store x))\<rparr>" by blast
    with commit_err_eq [OF faults commit_err(3) alive(5) p] alive(4) dur_inv_close [OF assms(2) commit_err(2) s']
      commit_err(1) show ?thesis by simp
  next
    case (abort i t r s')
    note alive = mirrors_alive [OF m mem abort(2)]
    from abort_frame [OF abort(3) alive(5) p] alive(4) obtain w
      where s': "s' = (sys_store x)\<lparr>mv_wal := w, mv_active := bm_remove i (mv_active (sys_store x))\<rparr>" by blast
    with abort_eq [OF faults abort(3) alive(5) p] alive(4) dur_inv_close [OF assms(2) abort(2) s']
      abort(1) show ?thesis by simp
  next
    case (drop i t)
    note alive = mirrors_alive [OF m mem drop(2)]
    from dur_inv_close [OF assms(2) drop(2), of "drop_txn t (sys_store x)" "mv_wal (sys_store x)"] alive(4,5) p drop(1)
    show ?thesis by (simp add: drop_txn_def)
  next
    case (gc r s')
    with dur_inv_gc [OF assms(2)] show ?thesis by simp
  qed
qed

section \<open>Crashes\<close>

lemma mvcc_open_log:
  assumes "list_all txn_fits rs" and "\<not> starts_with_frame t" and "recover_records recovery_init rs = Inr rc"
    and "checked_add_u64 (rc_max_txn rc) 1 = Some n"
  shows "mvcc_open (Some (wal_log (map txn_bytes rs) @ t)) [] =
    Inr \<lparr>mv_wal = \<lparr>wal_bytes = wal_log (map txn_bytes rs), wal_synced = length (wal_log (map txn_bytes rs)), wal_faults = []\<rparr>,
      mv_versions = rc_versions rc, mv_active = [], mv_next_txn = n, mv_commit_ts = rc_commit_ts rc, poisoned = False\<rparr>"
proof -
  let ?L = "wal_log (map txn_bytes rs)"
  have "truncate_path (length ?L) (open_wal (Some (?L @ t)) []) =
      (Inr (), \<lparr>wal_bytes = ?L, wal_synced = length ?L, wal_faults = []\<rparr>)"
    by (subst truncate_path_ok) (simp_all add: open_wal_def)
  moreover have "open_wal (Some ?L) [] = \<lparr>wal_bytes = ?L, wal_synced = length ?L, wal_faults = []\<rparr>"
    by (simp add: open_wal_def Let_def)
  ultimately show ?thesis
    using assms txn.replay_values_tail [OF assms(1,2)] txn.replay_values [OF assms(1)]
    by (cases "t = []") (simp_all add: mvcc_open_def Let_def recover_encoded ok_or_def)
qed

lemma dur_inv_crash:
  assumes "dur_inv x" and "crash_image (mv_wal (sys_store x)) f"
  shows "\<exists>s. mvcc_open (Some f) [] = Inr s \<and> dur_inv (started s) \<and> mv_active s = []
    \<and> mv_commit_ts s = mv_commit_ts (sys_store x) \<and> mv_next_txn s = mv_next_txn (sys_store x)
    \<and> (\<forall>k. visible_value (mv_versions s) k (mv_commit_ts s) =
         visible_value (mv_versions (sys_store x)) k (mv_commit_ts (sys_store x)))"
proof -
  obtain forced tail rc where log: "log_holds (mv_wal (sys_store x)) forced tail rc" and m: "mirrors rc x"
    using assms(1) by (rule dur_invE)
  from assms(2) obtain n where n: "wal_synced (mv_wal (sys_store x)) \<le> n" "f = take n (wal_bytes (mv_wal (sys_store x)))"
    by (auto simp: crash_image_def)
  with log obtain k t where f: "f = wal_log (map txn_bytes (forced @ take k tail)) @ t" "\<not> starts_with_frame t"
    using txn.crash_prefix [of forced tail n] by (auto simp: log_holds_def)
  from log obtain rc' where rc': "recover_records recovery_init (forced @ take k tail) = Inr rc'"
    "rc_versions rc' = rc_versions rc" "rc_commit_ts rc' = rc_commit_ts rc" "rc_max_txn rc' = rc_max_txn rc"
    using recover_buffered_prefix [of recovery_init forced tail rc k] by (auto simp: log_holds_def)
  have fits: "list_all txn_fits (forced @ take k tail)"
    using log by (auto simp: log_holds_def list_all_iff dest: in_set_takeD)
  have nxt: "checked_add_u64 (rc_max_txn rc') 1 = Some (mv_next_txn (sys_store x))"
    using m rc'(4) by (simp add: mirrors_def)
  let ?s = "\<lparr>mv_wal = \<lparr>wal_bytes = wal_log (map txn_bytes (forced @ take k tail)),
      wal_synced = length (wal_log (map txn_bytes (forced @ take k tail))), wal_faults = []\<rparr>,
    mv_versions = rc_versions rc', mv_active = [], mv_next_txn = mv_next_txn (sys_store x),
    mv_commit_ts = rc_commit_ts rc', poisoned = False\<rparr>"
  have opened: "mvcc_open (Some f) [] = Inr ?s"
    unfolding f(1) by (rule mvcc_open_log [OF fits f(2) rc'(1) nxt])
  have "i \<le> rc_max_txn rc'" if "rc_pending rc' i \<noteq> None" for i
    using that m rc' pending_le_max [OF rc'(1)] by simp
  then have "mirrors rc' (started ?s)"
    using rc' m by (simp add: mirrors_def started_def)
  moreover have "log_holds (mv_wal ?s) (forced @ take k tail) [] rc'"
    using fits rc'(1) by (simp add: log_holds_def)
  ultimately have "dur_inv (started ?s)"
    using mem_inv_open [OF opened] dur_invI [of "started ?s" "forced @ take k tail" "[]" rc'] by (simp add: started_def)
  with opened m rc' show ?thesis by (simp add: mirrors_def)
qed

text \<open>A life of the store: from an empty directory, through steps and crashes.\<close>

inductive mvcc_life :: "mvcc_sys \<Rightarrow> bool" where
  life_fresh: "mvcc_open None [] = Inr s \<Longrightarrow> mvcc_life (started s)"
| life_step: "mvcc_life x \<Longrightarrow> mvcc_step x y \<Longrightarrow> mvcc_life y"
| life_crash: "mvcc_life x \<Longrightarrow> crash_image (mv_wal (sys_store x)) f \<Longrightarrow> mvcc_open (Some f) [] = Inr s \<Longrightarrow>
    mvcc_life (started s)"

definition fresh_store :: inner where
  "fresh_store = \<lparr>mv_wal = \<lparr>wal_bytes = [], wal_synced = 0, wal_faults = []\<rparr>, mv_versions = [], mv_active = [],
    mv_next_txn = 1, mv_commit_ts = 0, poisoned = False\<rparr>"

lemma mvcc_open_fresh: "mvcc_open None [] = Inr fresh_store"
  by (simp add: mvcc_open_def Let_def replay_def open_wal_def recovery_init_def ok_or_def checked_add_u64_def fresh_store_def)

lemma dur_inv_fresh: "dur_inv (started fresh_store)"
proof (rule dur_invI)
  show "mem_inv (started fresh_store)" using mvcc_open_fresh by (rule mem_inv_open)
  show "log_holds (mv_wal (sys_store (started fresh_store))) [] [] recovery_init"
    by (simp add: log_holds_def started_def fresh_store_def)
  show "mirrors recovery_init (started fresh_store)"
    by (simp add: mirrors_def started_def fresh_store_def recovery_init_def checked_add_u64_def)
qed

lemma dur_inv_life: "mvcc_life x \<Longrightarrow> dur_inv x"
proof (induction rule: mvcc_life.induct)
  case (life_fresh s)
  then show ?case using mvcc_open_fresh dur_inv_fresh by simp
next
  case (life_step x y)
  then show ?case using dur_inv_step by blast
next
  case (life_crash x f s)
  with dur_inv_crash [OF life_crash(4,2)] show ?case by auto
qed

end
