(* ===== verification/Mvcc_Properties.thy ===== *)
theory Mvcc_Properties
  imports Mvcc_Scan Mvcc_Durability
begin

text \<open>
  The properties of the transactional store. A short run (open an empty store, begin, write one key, commit)
  serves as their concrete instance.
\<close>

section \<open>A run\<close>

definition begun_wal :: wal where
  "begun_wal = log_forced (log_record (RBegin 1 0) (mv_wal fresh_store))"

definition written_wal :: wal where
  "written_wal = log_record (RSet 1 [97] [98]) begun_wal"

definition run_begun :: mvcc_sys where
  "run_begun = \<lparr>sys_store = \<lparr>mv_wal = begun_wal, mv_versions = [], mv_active = [(1, 0)],
      mv_next_txn = 2, mv_commit_ts = 0, poisoned = False\<rparr>,
    sys_txns = [1 \<mapsto> \<lparr>txn_id = 1, txn_snapshot = 0, txn_writes = [], txn_finished = False\<rparr>], sys_hist = []\<rparr>"

definition written_txn :: transaction where
  "written_txn = \<lparr>txn_id = 1, txn_snapshot = 0, txn_writes = [([97], Some [98])], txn_finished = False\<rparr>"

definition run_written :: mvcc_sys where
  "run_written = run_begun\<lparr>sys_store := (sys_store run_begun)\<lparr>mv_wal := written_wal\<rparr>,
    sys_txns := (sys_txns run_begun)(1 \<mapsto> written_txn)\<rparr>"

definition committed_store :: inner where
  "committed_store = \<lparr>mv_wal = log_forced (log_record (RCommit 1 1) written_wal),
    mv_versions = [([97], [\<lparr>v_value = [98], created_at = 1, deleted_at = None\<rparr>])], mv_active = [],
    mv_next_txn = 2, mv_commit_ts = 1, poisoned = False\<rparr>"

definition run_committed :: mvcc_sys where
  "run_committed = \<lparr>sys_store = committed_store, sys_txns = Map.empty,
    sys_hist = [\<lparr>ev_snapshot = 0, ev_ts = 1, ev_keys = {[97]}\<rparr>]\<rparr>"

lemma step_begun: "mvcc_step (started fresh_store) run_begun"
proof -
  have b: "begin_txn (sys_store (started fresh_store)) =
      (Inr \<lparr>txn_id = 1, txn_snapshot = 0, txn_writes = [], txn_finished = False\<rparr>, sys_store run_begun)"
    by (subst begin_txn_ok [of _ 2])
       (simp_all add: started_def fresh_store_def run_begun_def begun_wal_def checked_add_u64_def)
  have "run_begun = (started fresh_store)\<lparr>sys_store := sys_store run_begun,
      sys_txns := (sys_txns (started fresh_store))(1 \<mapsto> \<lparr>txn_id = 1, txn_snapshot = 0, txn_writes = [], txn_finished = False\<rparr>)\<rparr>"
    by (simp add: run_begun_def started_def)
  with mvcc_step.begin_ok [OF b] show ?thesis by simp
qed

lemma begun_wal_faults [simp]: "wal_faults begun_wal = []" "wal_faults written_wal = []"
  by (simp_all add: begun_wal_def written_wal_def log_forced_def log_record_def fresh_store_def)

lemma fits_ab: "txn_fits (RSet 1 [97] [98])"
  by (simp add: txn_fits_def txn_encode_Inr fits_record_def lp_string_def)

lemma step_written: "mvcc_step run_begun run_written"
proof -
  let ?t = "\<lparr>txn_id = 1, txn_snapshot = 0, txn_writes = [], txn_finished = False\<rparr>"
  have "txn_set [97] [98] (sys_store run_begun, ?t) = (Inr (), sys_store run_written, written_txn)"
    by (simp add: txn_set_def ensure_open_def and_then_def lock_def run_begun_def run_written_def written_txn_def
        append_txn_record_ok fits_ab written_wal_def)
  from mvcc_step.set [where i = 1 and x = run_begun, OF _ _ _ this] show ?thesis
    by (simp add: run_written_def run_begun_def)
qed

lemma commit_written: "commit written_txn (sys_store run_written) = (Inr 1, committed_store)"
  by (simp add: commit_def ensure_open_def lock_def written_txn_def run_written_def run_begun_def latest_change_def
      checked_add_u64_def append_sync_ok apply_versions_def apply_write_def committed_store_def bm_remove_def)

lemma step_committed: "mvcc_step run_written run_committed"
proof -
  have "sys_txns run_written 1 = Some written_txn" by (simp add: run_written_def)
  note step = mvcc_step.commit_ok [OF this commit_written]
  have "effective_keys (sys_store run_written) written_txn = {[97]}"
    by (auto simp: effective_keys_def written_txn_def split: if_splits)
  with step show ?thesis
    by (simp add: run_written_def run_begun_def run_committed_def written_txn_def)
qed

text \<open>Two idle transactions at once.\<close>

definition idle_txn :: transaction where
  "idle_txn = \<lparr>txn_id = 1, txn_snapshot = 0, txn_writes = [], txn_finished = False\<rparr>"

definition disk_error :: io_error where
  "disk_error = IoError OtherKind ''disk''"

definition run_two :: mvcc_sys where
  "run_two = \<lparr>sys_store = \<lparr>mv_wal = log_forced (log_record (RBegin 2 0) begun_wal), mv_versions = [],
      mv_active = [(1, 0), (2, 0)], mv_next_txn = 3, mv_commit_ts = 0, poisoned = False\<rparr>,
    sys_txns = [1 \<mapsto> idle_txn, 2 \<mapsto> idle_txn\<lparr>txn_id := 2\<rparr>], sys_hist = []\<rparr>"

lemma step_two: "mvcc_step run_begun run_two"
proof -
  have b: "begin_txn (sys_store run_begun) = (Inr (idle_txn\<lparr>txn_id := 2\<rparr>), sys_store run_two)"
    by (subst begin_txn_ok [of _ 3])
       (simp_all add: run_begun_def run_two_def idle_txn_def checked_add_u64_def)
  have "run_two = run_begun\<lparr>sys_store := sys_store run_two,
      sys_txns := (sys_txns run_begun)(txn_id (idle_txn\<lparr>txn_id := 2\<rparr>) \<mapsto> idle_txn\<lparr>txn_id := 2\<rparr>)\<rparr>"
    by (simp add: run_begun_def run_two_def idle_txn_def)
  with mvcc_step.begin_ok [OF b] show ?thesis by simp
qed

lemma committed_value: "visible_value (mv_versions committed_store) [97] 1 = Some [98]" "mv_commit_ts committed_store = 1"
  by (simp_all add: committed_store_def visible_value_def visible_at_def)

lemma sys_store_committed [simp]: "sys_store run_committed = committed_store"
  by (simp add: run_committed_def)

section \<open>Properties\<close>

text \<open>
  C5. Repeatable reads and read-your-writes: in every run of a store opened from any file, with any I/O
  faults, an open transaction reads its own buffered write of a key if it has one, and otherwise the value its
  snapshot had when it was first observed, whatever other transactions, commits and garbage collection did in
  between.
\<close>

theorem snapshot_reads_are_repeatable:
  assumes "mvcc_open file faults = Inr s" and "mvcc_run s x" and "mvcc_step\<^sup>*\<^sup>* x y"
    and "sys_txns x i = Some t" and "sys_txns y i = Some t'"
  shows "txn_get (sys_store y) t' k = Inr (case bm_get (txn_writes t') k of
      Some v \<Rightarrow> v | None \<Rightarrow> visible_value (mv_versions (sys_store x)) k (txn_snapshot t))"
proof -
  have "mem_inv x" using mem_inv_run [OF assms(2) mem_inv_open [OF assms(1)]] .
  note y = steps_view [OF assms(3) this assms(4)]
  with mem_invD(1) mem_invD(4) [OF _ assms(5)] have "\<not> poisoned (sys_store y)" "\<not> txn_finished t'"
    by (auto simp: txn_ok_def)
  with y assms(5) show ?thesis
    by (auto simp: txn_get_def ensure_open_def get_at_def lock_def same_view_def split: option.split)
qed

theorem snapshot_reads_are_repeatable_witness:
  "txn_get (sys_store run_written) written_txn [97] = Inr (Some [98])"
proof -
  have run: "mvcc_run fresh_store run_begun"
    by (rule run_step [OF run_start step_begun])
  have t: "sys_txns run_begun 1 = Some \<lparr>txn_id = 1, txn_snapshot = 0, txn_writes = [], txn_finished = False\<rparr>"
    by (simp add: run_begun_def)
  have t': "sys_txns run_written 1 = Some written_txn" by (simp add: run_written_def)
  have steps: "mvcc_step\<^sup>*\<^sup>* run_begun run_written" using step_written by (rule r_into_rtranclp)
  show ?thesis
    using snapshot_reads_are_repeatable [OF mvcc_open_fresh run steps t t', of "[97]"]
    by (simp add: written_txn_def)
qed

text \<open>
  C6. First committer wins: in every run, commit timestamps strictly increase, and whenever two committed
  transactions changed a common key the later one had begun after the earlier one committed. No update is
  lost, also when garbage collection has removed the versions in between.
\<close>

theorem first_committer_wins:
  assumes "mvcc_open file faults = Inr s" and "mvcc_run s x"
  shows "sorted_wrt (\<lambda>a b. ev_ts a < ev_ts b \<and> (ev_keys a \<inter> ev_keys b \<noteq> {} \<longrightarrow> ev_ts a \<le> ev_snapshot b)) (sys_hist x)"
  using hist_inv_run [OF assms(2) mem_inv_open [OF assms(1)]]
  by (simp add: hist_inv_def serial_pair_def [abs_def])

lemma run_committed_run: "mvcc_run fresh_store run_committed"
  by (rule run_step [OF run_step [OF run_step [OF run_start step_begun] step_written] step_committed])

theorem first_committer_wins_witness:
  "sorted_wrt (\<lambda>a b. ev_ts a < ev_ts b \<and> (ev_keys a \<inter> ev_keys b \<noteq> {} \<longrightarrow> ev_ts a \<le> ev_snapshot b)) (sys_hist run_committed)
    \<and> sys_hist run_committed \<noteq> []"
  using first_committer_wins [OF mvcc_open_fresh run_committed_run] by (simp add: run_committed_def)

text \<open>
  C7. A commit is atomic and leaves history alone: every snapshot before its timestamp still reads what it
  read, and from its timestamp on exactly the buffered writes are applied, deletions included.
\<close>

theorem commit_applies_exactly_its_writes:
  assumes "mvcc_open file faults = Inr s" and "mvcc_run s x" and "sys_txns x i = Some t"
    and "commit t (sys_store x) = (Inr ts, s')"
  shows "mv_commit_ts (sys_store x) < ts \<and> mv_commit_ts s' = ts \<and>
    visible_value (mv_versions s') k snap =
      (if snap < ts then visible_value (mv_versions (sys_store x)) k snap
       else case bm_get (txn_writes t) k of
         Some v \<Rightarrow> v | None \<Rightarrow> visible_value (mv_versions (sys_store x)) k (mv_commit_ts (sys_store x)))"
proof -
  let ?s = "sys_store x"
  have mem: "mem_inv x" using mem_inv_run [OF assms(2) mem_inv_open [OF assms(1)]] .
  have inv: "bm_inv (txn_writes t)" using mem_invD(4) [OF mem assms(3)] by (simp add: txn_ok_def)
  from commit_Inr [OF assms(4)] have ts: "checked_add_u64 (mv_commit_ts ?s) 1 = Some ts"
    and s': "mv_versions s' = apply_versions (mv_versions ?s) (txn_writes t) ts" "mv_commit_ts s' = ts" by auto
  have less: "mv_commit_ts ?s < ts" using ts by (rule checked_succ_u64)
  show ?thesis
  proof (cases "snap < ts")
    case True
    with less s' inv show ?thesis by (simp add: visible_value_past)
  next
    case False
    then have "visible_value (mv_versions s') k snap = visible_value (mv_versions s') k ts"
      unfolding s'(1)
      by (intro visible_value_settled [OF versions_ok_apply [OF mem_invD(3) [OF mem] less inv]]) (simp add: not_less)
    also have "\<dots> = (case bm_get (txn_writes t) k of
        Some v \<Rightarrow> v | None \<Rightarrow> visible_value (mv_versions ?s) k (mv_commit_ts ?s))"
      unfolding s'(1) by (rule visible_value_present [OF mem_invD(3) [OF mem] less inv])
    finally show ?thesis using False less s'(2) by simp
  qed
qed

theorem commit_applies_exactly_its_writes_witness:
  "visible_value (mv_versions committed_store) [97] 1 = Some [98] \<and> visible_value (mv_versions committed_store) [97] 0 = None"
proof -
  have run: "mvcc_run fresh_store run_written"
    by (rule run_step [OF run_step [OF run_start step_begun] step_written])
  have t: "sys_txns run_written 1 = Some written_txn" by (simp add: run_written_def)
  note reads = commit_applies_exactly_its_writes [OF mvcc_open_fresh run t commit_written, of "[97]"]
  show ?thesis
    using reads [of 1] reads [of 0] by (simp add: written_txn_def run_written_def run_begun_def visible_value_def)
qed

text \<open>
  C8. Garbage collection is invisible and complete: it succeeds, no open transaction and no later one reads a
  different value or gets a different answer to the conflict check, and no version that ended before the
  watermark remains.
\<close>

theorem gc_preserves_reads_and_conflicts:
  assumes "mvcc_open file faults = Inr s" and "mvcc_run s x" and "gc (sys_store x) = (r, s')"
    and "(\<exists>i t. sys_txns x i = Some t \<and> txn_snapshot t = snap) \<or> mv_commit_ts (sys_store x) = snap"
  shows "\<exists>report. r = Inr report
    \<and> visible_value (mv_versions s') k snap = visible_value (mv_versions (sys_store x)) k snap
    \<and> (snap < latest_change (mv_versions s') k \<longleftrightarrow> snap < latest_change (mv_versions (sys_store x)) k)
    \<and> (\<forall>(key, chain) \<in> set (mv_versions s'). chain \<noteq> [] \<and>
         (\<forall>v \<in> set chain. \<forall>d. deleted_at v = Some d \<longrightarrow> watermark report \<le> d))"
proof -
  have mem: "mem_inv x" using mem_inv_run [OF assms(2) mem_inv_open [OF assms(1)]] .
  have s': "s' = (sys_store x)\<lparr>mv_versions := gc_versions (gc_watermark (sys_store x)) (mv_versions (sys_store x))\<rparr>"
    using gc_eq [OF mem_invD(1) [OF mem] assms(3)] .
  have r: "\<exists>n. r = Inr \<lparr>watermark = gc_watermark (sys_store x), versions_reclaimed = n\<rparr>"
    using assms(3) mem_invD(1) [OF mem] by (auto simp: gc_def lock_def Let_def)
  have p: "protects (gc_watermark (sys_store x)) snap"
    using assms(4) gc_watermark_protects_active [OF mem] gc_watermark_protects_now [OF mem] by auto
  have inv: "bm_inv (mv_versions (sys_store x))" using mem_invD(3) [OF mem] by (simp add: versions_ok_def)
  have "\<forall>(key, chain) \<in> set (gc_versions m vs). chain \<noteq> [] \<and>
      (\<forall>v \<in> set chain. \<forall>d. deleted_at v = Some d \<longrightarrow> m \<le> d)" for m vs
    by (auto simp: gc_versions_def gc_keeps_def not_less)
  with r s' visible_value_gc [OF inv p] latest_change_gc [OF mem_invD(3) [OF mem] p] show ?thesis
    by auto
qed

theorem gc_preserves_reads_and_conflicts_witness:
  "visible_value (mv_versions (snd (gc committed_store))) [97] 1 = Some [98]"
proof -
  have "gc (sys_store run_committed) = (fst (gc committed_store), snd (gc committed_store))" by simp
  then show ?thesis
    using gc_preserves_reads_and_conflicts [OF mvcc_open_fresh run_committed_run, of "fst (gc committed_store)"
      "snd (gc committed_store)" 1 "[97]"] committed_value by auto
qed

text \<open>
  C9. Durability: from an empty log on a disk that does not report errors, after any sequence of completed operations
  (each returning a value or an error) and of crashes between them, whatever unsynced end of the log a crash loses,
  the store opens again, with the same commit timestamp, the same next transaction id, no active transaction and,
  for every key, exactly the committed value: acknowledged commits survive and uncommitted writes do not. When the
  sync of a commit fails this is not so, see \<open>reused_timestamp_makes_log_unreadable\<close>.
\<close>

theorem crash_preserves_committed_state:
  assumes "mvcc_life x" and "crash_image (mv_wal (sys_store x)) f"
  shows "\<exists>s. mvcc_open (Some f) [] = Inr s \<and> mv_active s = []
    \<and> mv_commit_ts s = mv_commit_ts (sys_store x) \<and> mv_next_txn s = mv_next_txn (sys_store x)
    \<and> (\<forall>k. visible_value (mv_versions s) k (mv_commit_ts s) =
         visible_value (mv_versions (sys_store x)) k (mv_commit_ts (sys_store x)))"
  using dur_inv_crash [OF dur_inv_life [OF assms(1)] assms(2)] by blast

theorem crash_preserves_committed_state_witness:
  "\<exists>s. mvcc_open (Some (wal_bytes (mv_wal committed_store))) [] = Inr s
    \<and> mv_commit_ts s = 1 \<and> visible_value (mv_versions s) [97] 1 = Some [98]"
proof -
  have life: "mvcc_life run_committed"
    by (rule life_step [OF life_step [OF life_step [OF life_fresh [OF mvcc_open_fresh] step_begun] step_written] step_committed])
  have "crash_image (mv_wal (sys_store run_committed)) (wal_bytes (mv_wal committed_store))"
    by (auto simp: crash_image_def run_committed_def committed_store_def log_forced_def
        intro!: exI [of _ "length (wal_bytes (log_record (RCommit 1 1) written_wal))"])
  from crash_preserves_committed_state [OF life this] obtain s
    where "mvcc_open (Some (wal_bytes (mv_wal committed_store))) [] = Inr s" "mv_commit_ts s = 1"
      "\<forall>k. visible_value (mv_versions s) k (mv_commit_ts s) = visible_value (mv_versions committed_store) k 1"
    by (auto simp: committed_value)
  with committed_value show ?thesis by (metis (no_types))
qed

text \<open>
  C10. A prefix scan agrees with point reads: it lists, in key order and without duplicates, exactly the keys
  that start with the prefix and for which \<open>get\<close> of the same transaction returns a value, with that value.
\<close>

theorem scan_prefix_agrees_with_get:
  assumes "mvcc_open file faults = Inr s" and "mvcc_run s x" and "sys_txns x i = Some t"
  shows "\<exists>rows. scan_prefix (sys_store x) t prefix = Inr rows \<and> sorted_wrt (<) (map fst rows)
    \<and> (\<forall>k v. (k, v) \<in> set rows \<longleftrightarrow> starts_with k prefix \<and> txn_get (sys_store x) t k = Inr (Some v))"
proof -
  have mem: "mem_inv x" using mem_inv_run [OF assms(2) mem_inv_open [OF assms(1)]] .
  have t: "\<not> txn_finished t" "\<not> poisoned (sys_store x)" "bm_inv (txn_writes t)"
    using mem_invD(1) [OF mem] mem_invD(4) [OF mem assms(3)] by (simp_all add: txn_ok_def)
  have get: "txn_get (sys_store x) t k = Inr (case bm_get (txn_writes t) k of Some v \<Rightarrow> v
      | None \<Rightarrow> visible_value (mv_versions (sys_store x)) k (txn_snapshot t))" for k
    using t by (simp add: txn_get_def ensure_open_def get_at_def lock_def split: option.split)
  obtain rows where rows: "scan_prefix (sys_store x) t prefix = Inr rows" "bm_inv rows"
    "\<And>k. bm_get rows k = (if starts_with k prefix
         then case bm_get (txn_writes t) k of Some v \<Rightarrow> v | None \<Rightarrow> visible_value (mv_versions (sys_store x)) k (txn_snapshot t)
         else None)"
    using scan_prefix_rows [OF t] by blast
  with bm_get_in [OF rows(2)] show ?thesis
    by (intro exI [of _ rows]) (simp add: get bm_inv_def)
qed

theorem scan_prefix_agrees_with_get_witness:
  "\<exists>rows. scan_prefix (sys_store run_written) written_txn [97] = Inr rows \<and> ([97], [98]) \<in> set rows"
proof -
  have run: "mvcc_run fresh_store run_written"
    by (rule run_step [OF run_step [OF run_start step_begun] step_written])
  have t: "sys_txns run_written 1 = Some written_txn" by (simp add: run_written_def)
  have "txn_get (sys_store run_written) written_txn [97] = Inr (Some [98])"
    by (simp add: txn_get_def ensure_open_def written_txn_def)
  with scan_prefix_agrees_with_get [OF mvcc_open_fresh run t, of "[97]"] show ?thesis by auto
qed

text \<open>
  C11. A commit whose sync fails is reported as failed, but its record stays in the log with a timestamp that
  the store has not taken. If another transaction then commits successfully, it is given the same timestamp,
  and the log that holds both cannot be opened any more: recovery stops with an error, and the acknowledged
  commit cannot be reached.
\<close>

theorem reused_timestamp_makes_log_unreadable:
  assumes "mvcc_life x" and "sys_txns x i = Some t" and "sys_txns x j = Some u" and "i \<noteq> j"
    and "commit t ((sys_store x)\<lparr>mv_wal := (mv_wal (sys_store x))\<lparr>wal_faults := [Done, Fault n e]\<rparr>\<rparr>) = (Inl err, s1)"
    and "commit u s1 = (Inr ts, s2)"
    and "\<forall>k \<in> fst ` set (txn_writes t). latest_change (mv_versions (sys_store x)) k \<le> txn_snapshot t"
  shows "mvcc_open (Some (wal_bytes (mv_wal s2))) [] = Inl (invalid_data ''mvcc: commit timestamps are not increasing'')"
proof -
  let ?s = "sys_store x" and ?w = "mv_wal (sys_store x)"
  have dur: "dur_inv x" using assms(1) by (rule dur_inv_life)
  obtain forced tail rc where log: "log_holds ?w forced tail rc" and m: "mirrors rc x"
    using dur by (rule dur_invE)
  have mem: "mem_inv x" using dur by (simp add: dur_inv_def)
  note t = mirrors_alive [OF m mem assms(2)] and u = mirrors_alive [OF m mem assms(3)]
  have none: "find (\<lambda>key. latest_change (mv_versions ?s) key > txn_snapshot t) (bm_keys (txn_writes t)) = None"
    using assms(7) by (auto simp: find_None_iff not_less)
  have s1: "wal_bytes (mv_wal s1) = wal_bytes ?w @ frame (txn_bytes (RCommit i ts)) \<and> mv_commit_ts s1 = mv_commit_ts ?s
      \<and> wal_faults (mv_wal s1) = []"
    and ts: "checked_add_u64 (mv_commit_ts ?s) 1 = Some ts"
    using assms(5) commit_Inr [OF assms(6)] none t(4,5) mem_invD(1) [OF mem]
    by (auto simp: commit_def ensure_open_def lock_def and_then_def append_txn_record_def txn_fits_encode
        append_record_def txn.enc_fits [unfolded fits_record_def] write_all_def next_outcome_def sync_txn_log_def
        sync_def sync_all_def drop_txn_def split: option.splits if_splits)
  have less: "mv_commit_ts ?s < ts" using ts by (rule checked_succ_u64)
  let ?rs = "forced @ tail @ [RCommit i ts, RCommit j ts]"
  have bytes: "wal_bytes (mv_wal s2) = wal_log (map txn_bytes ?rs)"
    using commit_ok_eq [OF _ assms(6)] s1 log u(4) by (simp add: log_forced_def log_record_def log_holds_def)
  have fits: "list_all txn_fits ?rs" using log by (simp add: log_holds_def)
  have "rc_commit_ts rc = mv_commit_ts ?s" using m by (simp add: mirrors_def)
  then have "recover_records rc [RCommit i ts, RCommit j ts]
      = Inl (invalid_data ''mvcc: commit timestamps are not increasing'')"
    using t(1) u(1) less assms(4) by (simp add: not_le ensure_begun_def split: if_splits)
  then have "recover_records recovery_init ?rs = Inl (invalid_data ''mvcc: commit timestamps are not increasing'')"
    using log recover_records_append [of recovery_init "forced @ tail"] by (simp add: log_holds_def)
  with fits show ?thesis
    by (simp add: bytes mvcc_open_def Let_def txn.replay_values recover_encoded del: map_append)
qed

theorem reused_timestamp_makes_log_unreadable_witness:
  "let s0 = (sys_store run_two)\<lparr>mv_wal := (mv_wal (sys_store run_two))\<lparr>wal_faults := [Done, Fault 0 disk_error]\<rparr>\<rparr>;
       s1 = snd (commit idle_txn s0); s2 = snd (commit (idle_txn\<lparr>txn_id := 2\<rparr>) s1)
   in fst (commit idle_txn s0) = Inl (Io disk_error) \<and> fst (commit (idle_txn\<lparr>txn_id := 2\<rparr>) s1) = Inr 1
     \<and> mvcc_open (Some (wal_bytes (mv_wal s2))) [] = Inl (invalid_data ''mvcc: commit timestamps are not increasing'')"
proof -
  let ?s0 = "(sys_store run_two)\<lparr>mv_wal := (mv_wal (sys_store run_two))\<lparr>wal_faults := [Done, Fault 0 disk_error]\<rparr>\<rparr>"
  let ?u = "idle_txn\<lparr>txn_id := 2\<rparr>"
  define s1 where "s1 = snd (commit idle_txn ?s0)"
  have len: "length (txn_bytes (RCommit 1 1)) < 4294967296"
    using txn.enc_fits [of "RCommit 1 1"] by (simp add: fits_record_def)
  have fail: "commit idle_txn ?s0 = (Inl (Io disk_error), s1)"
    and s1: "wal_faults (mv_wal s1) = [] \<and> mv_commit_ts s1 = 0 \<and> \<not> poisoned s1"
    by (auto simp: s1_def commit_def ensure_open_def lock_def and_then_def append_txn_record_def txn_fits_encode
        append_record_def len write_all_def next_outcome_def sync_txn_log_def
        sync_def sync_all_def drop_txn_def idle_txn_def run_two_def checked_add_u64_def)
  have ok: "commit ?u s1 = (Inr 1, snd (commit ?u s1))"
    using s1 append_sync_ok [of s1 "RCommit 2 1"]
    by (simp add: commit_def ensure_open_def lock_def idle_txn_def checked_add_u64_def)
  have "mvcc_life run_two"
    by (rule life_step [OF life_step [OF life_fresh [OF mvcc_open_fresh] step_begun] step_two])
  moreover have "sys_txns run_two 1 = Some idle_txn" "sys_txns run_two 2 = Some ?u"
    by (simp_all add: run_two_def)
  ultimately have "mvcc_open (Some (wal_bytes (mv_wal (snd (commit ?u s1))))) [] =
      Inl (invalid_data ''mvcc: commit timestamps are not increasing'')"
    using reused_timestamp_makes_log_unreadable [of run_two 1 idle_txn 2 ?u 0 disk_error, OF _ _ _ _ fail ok]
    by (simp add: idle_txn_def)
  moreover have "fst (commit ?u s1) = Inr 1" using ok by (metis fst_conv)
  ultimately show ?thesis using fail by (simp add: Let_def)
qed

end
