(* ===== verification/Raft_State.thy ===== *)
theory Raft_State
  imports Wal Cursor
begin

text \<open>
  The Raft node of \<open>src/src/raft/rpc.rs\<close> and \<open>src/src/raft/state.rs\<close>: the messages, the persistent state and
  its record format, and every operation of \<open>RaftNode\<close>. Terms and node ids are 64-bit words. Log indices and
  commit indices are lengths of vectors and are kept as naturals; an index received in a message is any
  natural.
\<close>

section \<open>Messages\<close>

record entry =
  e_term :: u64
  e_command :: bytes

record RequestVote =
  rv_term :: u64
  rv_candidate_id :: u64
  rv_last_log_index :: nat
  rv_last_log_term :: u64

record VoteResponse =
  vr_term :: u64
  vr_granted :: bool

record AppendEntries =
  ae_term :: u64
  ae_leader_id :: u64
  ae_prev_log_index :: nat
  ae_prev_log_term :: u64
  ae_entries :: "entry list"
  ae_leader_commit :: nat

record AppendResponse =
  ar_term :: u64
  ar_success :: bool
  ar_match_index :: nat

section \<open>Persistent state\<close>

definition STATE_TAG :: u8 where "STATE_TAG = 0x52"
definition STATE_VERSION :: u8 where "STATE_VERSION = 1"

record persistent_state =
  ps_term :: u64
  ps_vote :: "u64 option"
  ps_log :: "entry list"

definition default_state :: persistent_state where
  "default_state = \<lparr>ps_term = 0, ps_vote = None, ps_log = []\<rparr>"

definition raft_put_u64 :: "bytes \<Rightarrow> u64 \<Rightarrow> bytes" where
  "raft_put_u64 out value = out @ le_bytes 8 value"

fun encode_entries :: "bytes \<Rightarrow> entry list \<Rightarrow> bytes io_result" where
  "encode_entries out [] = Inr out"
| "encode_entries out (entry # entries) =
    (if length (e_command entry) < 2 ^ 32
     then encode_entries (raft_put_u64 out (e_term entry)
            @ le_bytes 4 (of_nat (length (e_command entry)) :: u32) @ e_command entry) entries
     else Inl (invalid_data ''raft: command too large''))"

definition state_encode :: "persistent_state \<Rightarrow> bytes io_result" where
  "state_encode st =
    (if length (ps_log st) < 2 ^ 32 then
       (let out = raft_put_u64 [STATE_TAG, STATE_VERSION] (ps_term st);
            out = (case ps_vote st of
                     Some node \<Rightarrow> raft_put_u64 (out @ [1]) node
                   | None \<Rightarrow> raft_put_u64 (out @ [0]) 0);
            out = out @ le_bytes 4 (of_nat (length (ps_log st)) :: u32)
        in encode_entries out (ps_log st))
     else Inl (invalid_data ''raft: log too large to encode''))"

text \<open>\<open>Cursor::take\<close> and the reads built on it.\<close>

definition raft_take :: "nat \<Rightarrow> cursor \<Rightarrow> io_error + nat \<times> cursor" where
  "raft_take len c =
    (let start = cur_offset c; end = cur_offset c + len in
     if end \<le> length (cur_bytes c) then Inr (start, c\<lparr>cur_offset := end\<rparr>)
     else Inl (invalid_data ''raft: state length exceeds record''))"

definition raft_u8 :: "cursor \<Rightarrow> io_error + u8 \<times> cursor" where
  "raft_u8 c = rbind (raft_take 1 c) (\<lambda>(offset, c). Inr (cur_bytes c ! offset, c))"

definition raft_u32 :: "cursor \<Rightarrow> io_error + u32 \<times> cursor" where
  "raft_u32 c = rbind (raft_take 4 c) (\<lambda>(offset, c). Inr (of_le_bytes (take 4 (drop offset (cur_bytes c))), c))"

definition raft_u64 :: "cursor \<Rightarrow> io_error + u64 \<times> cursor" where
  "raft_u64 c = rbind (raft_take 8 c) (\<lambda>(offset, c). Inr (of_le_bytes (take 8 (drop offset (cur_bytes c))), c))"

definition raft_bytes :: "nat \<Rightarrow> cursor \<Rightarrow> io_error + bytes \<times> cursor" where
  "raft_bytes len c = rbind (raft_take len c) (\<lambda>(offset, c). Inr (take len (drop offset (cur_bytes c)), c))"

definition decode_entry :: "cursor \<Rightarrow> io_error + entry \<times> cursor" where
  "decode_entry c = rbind (raft_u64 c) (\<lambda>(term, c). rbind (raft_u32 c) (\<lambda>(len, c).
     rbind (raft_bytes (unat len) c) (\<lambda>(command, c). Inr (\<lparr>e_term = term, e_command = command\<rparr>, c))))"

fun decode_entries :: "nat \<Rightarrow> cursor \<Rightarrow> io_error + entry list \<times> cursor" where
  "decode_entries 0 c = Inr ([], c)"
| "decode_entries (Suc count) c = rbind (decode_entry c) (\<lambda>(entry, c).
     rbind (decode_entries count c) (\<lambda>(log, c). Inr (entry # log, c)))"

definition state_decode :: "bytes \<Rightarrow> persistent_state io_result" where
  "state_decode bs = rbind (raft_u8 \<lparr>cur_bytes = bs, cur_offset = 0\<rparr>) (\<lambda>(tag, c).
     if tag \<noteq> STATE_TAG then Inl (invalid_data ''raft: bad persistent state header'') else
     rbind (raft_u8 c) (\<lambda>(ver, c).
     if ver \<noteq> STATE_VERSION then Inl (invalid_data ''raft: bad persistent state header'') else
     rbind (raft_u64 c) (\<lambda>(current_term, c).
     rbind (raft_u8 c) (\<lambda>(has_vote, c).
     rbind (raft_u64 c) (\<lambda>(vote, c).
     rbind (if has_vote = 0 then Inr None else if has_vote = 1 then Inr (Some vote)
            else Inl (invalid_data ''raft: invalid vote flag'')) (\<lambda>voted_for.
     rbind (raft_u32 c) (\<lambda>(count, c).
     rbind (decode_entries (unat count) c) (\<lambda>(log, c).
       if cur_offset c \<noteq> length bs then Inl (invalid_data ''raft: trailing persistent state bytes'')
       else Inr \<lparr>ps_term = current_term, ps_vote = voted_for, ps_log = log\<rparr>))))))))"

section \<open>The node\<close>

datatype role = Follower | Candidate | Leader

record raft_node =
  rn_id :: u64
  rn_wal :: wal
  current_term :: u64
  voted_for :: "u64 option"
  rn_log :: "entry list"
  commit_index :: nat
  last_applied :: nat
  rn_role :: role
  leader_id :: "u64 option"
  election_timeout_ms :: u64

definition mix :: "u64 \<Rightarrow> u64" where
  "mix value =
    (let value = value XOR drop_bit 30 value;
         value = value * 0xbf58476d1ce4e5b9;
         value = value XOR drop_bit 27 value;
         value = value * 0x94d049bb133111eb
     in value XOR drop_bit 31 value)"

fun decode_states :: "persistent_state \<Rightarrow> bytes list \<Rightarrow> persistent_state io_result" where
  "decode_states st [] = Inr st"
| "decode_states st (r # rs) = rbind (state_decode r) (\<lambda>st'. decode_states st' rs)"

definition raft_open :: "u64 \<Rightarrow> bytes option \<Rightarrow> io_outcome list \<Rightarrow> u64 \<Rightarrow> raft_node io_result" where
  "raft_open node_id file faults seed =
    (let result = replay file in
     rbind (decode_states default_state (records result)) (\<lambda>st.
     case (if truncated result then truncate_path (valid_bytes result) (open_wal file faults)
           else (Inr (), open_wal file faults)) of
       (Inl e, w) \<Rightarrow> Inl e
     | (Inr _, w) \<Rightarrow> Inr \<lparr>rn_id = node_id, rn_wal = w, current_term = ps_term st, voted_for = ps_vote st,
         rn_log = ps_log st, commit_index = 0, last_applied = 0, rn_role = Follower, leader_id = None,
         election_timeout_ms = 150 + mix (seed XOR node_id) mod 151\<rparr>))"

definition last_log_index :: "raft_node \<Rightarrow> nat" where
  "last_log_index n = length (rn_log n)"

definition last_log_term :: "raft_node \<Rightarrow> u64" where
  "last_log_term n = (if rn_log n = [] then 0 else e_term (last (rn_log n)))"

definition persist :: "(raft_node, io_error, unit) eff" where
  "persist n =
    (case state_encode \<lparr>ps_term = current_term n, ps_vote = voted_for n, ps_log = rn_log n\<rparr> of
       Inl e \<Rightarrow> (Inl e, n)
     | Inr payload \<Rightarrow> (case and_then (append_record payload) (\<lambda>_. sync) (rn_wal n) of
         (res, w) \<Rightarrow> (res, n\<lparr>rn_wal := w\<rparr>)))"

definition start_election :: "(raft_node, io_error, RequestVote) eff" where
  "start_election n = (case checked_add_u64 (current_term n) 1 of
     None \<Rightarrow> (Inl (invalid_data ''raft: term exhausted''), n)
   | Some term \<Rightarrow>
      and_then persist (\<lambda>_ n. (Inr \<lparr>rv_term = current_term n, rv_candidate_id = rn_id n,
          rv_last_log_index = last_log_index n, rv_last_log_term = last_log_term n\<rparr>, n))
        (n\<lparr>current_term := term, rn_role := Candidate, leader_id := None, voted_for := Some (rn_id n)\<rparr>))"

definition become_leader :: "raft_node \<Rightarrow> raft_node" where
  "become_leader n = n\<lparr>rn_role := Leader, leader_id := Some (rn_id n)\<rparr>"

definition observe_term :: "u64 \<Rightarrow> (raft_node, io_error, unit) eff" where
  "observe_term term n =
    (if term > current_term n
     then persist (n\<lparr>current_term := term, voted_for := None, rn_role := Follower, leader_id := None\<rparr>)
     else (Inr (), n))"

definition up_to_date :: "RequestVote \<Rightarrow> raft_node \<Rightarrow> bool" where
  "up_to_date request n \<longleftrightarrow>
    rv_last_log_term request > last_log_term n
    \<or> rv_last_log_term request = last_log_term n \<and> rv_last_log_index request \<ge> last_log_index n"

definition request_vote :: "RequestVote \<Rightarrow> (raft_node, io_error, VoteResponse) eff" where
  "request_vote request n =
    (if rv_term request < current_term n then (Inr \<lparr>vr_term = current_term n, vr_granted = False\<rparr>, n)
     else
       (let higher = rv_term request > current_term n;
            n = (if higher
                 then n\<lparr>current_term := rv_term request, voted_for := None, rn_role := Follower, leader_id := None\<rparr>
                 else n);
            can_vote = (voted_for n = None \<or> voted_for n = Some (rv_candidate_id request));
            granted = (can_vote \<and> up_to_date request n);
            new_vote = (granted \<and> voted_for n \<noteq> Some (rv_candidate_id request));
            n = (if new_vote then n\<lparr>voted_for := Some (rv_candidate_id request)\<rparr> else n)
        in and_then (if higher \<or> new_vote then persist else (\<lambda>n. (Inr (), n)))
             (\<lambda>_ n. (Inr \<lparr>vr_term = current_term n, vr_granted = granted\<rparr>, n)) n))"

text \<open>The loop over the incoming entries: the log, the index and whether something changed.\<close>

fun merge_entries :: "entry list \<Rightarrow> entry list \<Rightarrow> nat \<Rightarrow> bool \<Rightarrow> entry list \<times> nat \<times> bool" where
  "merge_entries [] log index changed = (log, index, changed)"
| "merge_entries (incoming # rest) log index changed =
    (if index < length log then
       if e_term (log ! index) \<noteq> e_term incoming \<or> e_command (log ! index) \<noteq> e_command incoming
       then merge_entries rest (take index log @ [incoming]) (index + 1) True
       else merge_entries rest log (index + 1) changed
     else merge_entries rest (log @ [incoming]) (index + 1) True)"

definition append_entries :: "AppendEntries \<Rightarrow> (raft_node, io_error, AppendResponse) eff" where
  "append_entries request n =
    (if ae_term request < current_term n
     then (Inr \<lparr>ar_term = current_term n, ar_success = False, ar_match_index = last_log_index n\<rparr>, n)
     else
       (let higher = ae_term request > current_term n;
            n = (if higher then n\<lparr>current_term := ae_term request, voted_for := None\<rparr> else n);
            n = n\<lparr>rn_role := Follower, leader_id := Some (ae_leader_id request)\<rparr>;
            prev = ae_prev_log_index request
        in if prev > last_log_index n
              \<or> prev > 0 \<and> e_term (rn_log n ! (prev - 1)) \<noteq> ae_prev_log_term request
           then and_then (if higher then persist else (\<lambda>n. (Inr (), n)))
             (\<lambda>_ n. (Inr \<lparr>ar_term = current_term n, ar_success = False, ar_match_index = last_log_index n\<rparr>, n)) n
           else
             (case merge_entries (ae_entries request) (rn_log n) prev higher of (log, index, changed) \<Rightarrow>
               (let longer = (length log > index);
                    n = n\<lparr>rn_log := (if longer then take index log else log)\<rparr>
                in and_then (if changed \<or> longer then persist else (\<lambda>n. (Inr (), n)))
                  (\<lambda>_ n.
                    (Inr \<lparr>ar_term = current_term n, ar_success = True,
                       ar_match_index = prev + length (ae_entries request)\<rparr>,
                     if ae_leader_commit request > commit_index n
                     then n\<lparr>commit_index := min (ae_leader_commit request) (last_log_index n)\<rparr> else n)) n))))"

definition append_as_leader :: "bytes \<Rightarrow> (raft_node, io_error, nat) eff" where
  "append_as_leader command n =
    (if rn_role n \<noteq> Leader then (Inl (IoError OtherKind ''raft: not leader''), n)
     else and_then persist (\<lambda>_ n. (Inr (last_log_index n), n))
            (n\<lparr>rn_log := rn_log n @ [\<lparr>e_term = current_term n, e_command = command\<rparr>]\<rparr>))"

text \<open>The candidates are tried from the last index down; all of them lie within the log.\<close>

definition advance_commit :: "nat list \<Rightarrow> raft_node \<Rightarrow> nat \<times> raft_node" where
  "advance_commit replicated n =
    (if rn_role n \<noteq> Leader then (commit_index n, n)
     else (case find (\<lambda>candidate.
                 (1 + length (filter (\<lambda>index. index \<ge> candidate) replicated)) * 2 > length replicated + 1
                 \<and> e_term (rn_log n ! (candidate - 1)) = current_term n)
               (rev [commit_index n + 1 ..< last_log_index n + 1]) of
             Some candidate \<Rightarrow> (candidate, n\<lparr>commit_index := candidate\<rparr>)
           | None \<Rightarrow> (commit_index n, n)))"

text \<open>The loop of \<open>take_applied\<close>; \<open>None\<close> is the panic of indexing past the end of the log.\<close>

function take_applied_loop :: "raft_node \<Rightarrow> entry list \<Rightarrow> (entry list \<times> raft_node) option" where
  "take_applied_loop n applied =
    (if last_applied n < commit_index n then
       if last_applied n < length (rn_log n)
       then take_applied_loop (n\<lparr>last_applied := last_applied n + 1\<rparr>) (applied @ [rn_log n ! last_applied n])
       else None
     else Some (applied, n))"
  by pat_completeness auto
termination
  by (relation "measure (\<lambda>(n, applied). commit_index n - last_applied n)") auto

declare take_applied_loop.simps [simp del]

definition take_applied :: "raft_node \<Rightarrow> (entry list \<times> raft_node) option" where
  "take_applied n = take_applied_loop n []"

section \<open>The record format\<close>

lemma raft_take_at:
  "raft_take len (cursor_at pre s) =
    (if len \<le> length s then Inr (length pre, cursor_at (pre @ take len s) (drop len s))
     else Inl (invalid_data ''raft: state length exceeds record''))"
  by (simp add: raft_take_def Let_def cursor_at_advance)

interpretation raftb: cursor_reader "raft_bytes len" "\<lambda>b. b" "\<lambda>b. length b = len" for len
proof
  fix pre s x c
  show "raft_bytes len (cursor_at pre s) = Inr (x, c) \<longleftrightarrow>
      length x = len \<and> (\<exists>t. s = x @ t \<and> c = cursor_at (pre @ x) t)"
    by (auto simp: raft_bytes_def raft_take_at intro: exI [of _ "drop len s"])
qed

interpretation raft8: cursor_reader raft_u8 "\<lambda>b. [b]" "\<lambda>_. True"
proof
  fix pre s x c
  show "raft_u8 (cursor_at pre s) = Inr (x, c) \<longleftrightarrow> True \<and> (\<exists>t. s = [x] @ t \<and> c = cursor_at (pre @ [x]) t)"
    by (cases s) (auto simp: raft_u8_def raft_take_at nth_append)
qed

interpretation raft64: cursor_reader raft_u64 "le_bytes 8" "\<lambda>_. True"
proof
  fix pre s w c
  have "raft_u64 (cursor_at pre s) = Inr (w, c) \<longleftrightarrow>
      (8 \<le> length s \<and> of_le_bytes (take 8 s) = w) \<and> c = cursor_at (pre @ take 8 s) (drop 8 s)"
    by (auto simp: raft_u64_def raft_take_at)
  then show "raft_u64 (cursor_at pre s) = Inr (w, c) \<longleftrightarrow>
      True \<and> (\<exists>t. s = le_bytes 8 w @ t \<and> c = cursor_at (pre @ le_bytes 8 w) t)"
    by (auto simp: take_eq_le_bytes [of 8])
qed

interpretation raft32: cursor_reader raft_u32 "le_bytes 4" "\<lambda>_. True"
proof
  fix pre s w c
  have "raft_u32 (cursor_at pre s) = Inr (w, c) \<longleftrightarrow>
      (4 \<le> length s \<and> of_le_bytes (take 4 s) = w) \<and> c = cursor_at (pre @ take 4 s) (drop 4 s)"
    by (auto simp: raft_u32_def raft_take_at)
  then show "raft_u32 (cursor_at pre s) = Inr (w, c) \<longleftrightarrow>
      True \<and> (\<exists>t. s = le_bytes 4 w @ t \<and> c = cursor_at (pre @ le_bytes 4 w) t)"
    by (auto simp: take_eq_le_bytes [of 4])
qed

definition entry_bytes :: "entry \<Rightarrow> bytes" where
  "entry_bytes e = le_bytes 8 (e_term e) @ le_bytes 4 (of_nat (length (e_command e)) :: u32) @ e_command e"

definition entry_fits :: "entry \<Rightarrow> bool" where
  "entry_fits e \<longleftrightarrow> length (e_command e) < 2 ^ 32"

lemma decode_entry_bytes [simp]:
  "entry_fits e \<Longrightarrow> decode_entry (cursor_at pre (entry_bytes e @ t)) = Inr (e, cursor_at (pre @ entry_bytes e) t)"
  by (simp add: decode_entry_def entry_bytes_def entry_fits_def)

lemma decode_entries_bytes:
  "list_all entry_fits es \<Longrightarrow> decode_entries (length es) (cursor_at pre (concat (map entry_bytes es) @ t)) =
    Inr (es, cursor_at (pre @ concat (map entry_bytes es)) t)"
  by (induction es arbitrary: pre) simp_all

lemma encode_entries_eq:
  "encode_entries out es =
    (if list_all entry_fits es then Inr (out @ concat (map entry_bytes es))
     else Inl (invalid_data ''raft: command too large''))"
  by (induction es arbitrary: out) (simp_all add: raft_put_u64_def entry_bytes_def entry_fits_def)

definition state_bytes :: "persistent_state \<Rightarrow> bytes" where
  "state_bytes st = [STATE_TAG, STATE_VERSION] @ le_bytes 8 (ps_term st)
    @ (case ps_vote st of Some node \<Rightarrow> 1 # le_bytes 8 node | None \<Rightarrow> 0 # le_bytes 8 (0 :: u64))
    @ le_bytes 4 (of_nat (length (ps_log st)) :: u32) @ concat (map entry_bytes (ps_log st))"

definition state_fits :: "persistent_state \<Rightarrow> bool" where
  "state_fits st \<longleftrightarrow> length (ps_log st) < 2 ^ 32 \<and> list_all entry_fits (ps_log st) \<and> fits_record (state_bytes st)"

lemma state_encode_Inr:
  "state_encode st = Inr bs \<longleftrightarrow>
    length (ps_log st) < 2 ^ 32 \<and> list_all entry_fits (ps_log st) \<and> bs = state_bytes st"
  by (auto simp: state_encode_def encode_entries_eq state_bytes_def raft_put_u64_def Let_def split: option.split)

lemma state_decode_bytes:
  assumes "length (ps_log st) < 2 ^ 32" and "list_all entry_fits (ps_log st)"
  shows "state_decode (state_bytes st) = Inr st"
proof -
  have tag: "raft_u8 (cursor_at pre (b # t)) = Inr (b, cursor_at (pre @ [b]) t)" for pre b t
    using raft8.read_enc [where x = b and pre = pre and t = t] by simp
  have es: "decode_entries (length (ps_log st)) (cursor_at pre (concat (map entry_bytes (ps_log st)))) =
      Inr (ps_log st, cursor_at (pre @ concat (map entry_bytes (ps_log st))) [])" for pre
    using decode_entries_bytes [OF assms(2), of pre "[]"] by simp
  show ?thesis
    using assms(1) by (cases "ps_vote st") (simp_all add: state_decode_def state_bytes_def cursor_start tag es)
qed

interpretation raft_codec: record_codec state_bytes state_decode state_fits
  by unfold_locales (simp_all add: state_fits_def state_decode_bytes)

section \<open>What the operations do in memory\<close>

text \<open>Whatever the disk does, \<open>persist\<close> changes nothing but the log file.\<close>

lemma persist_frame: "persist n = (r, n') \<Longrightarrow> \<exists>w. n' = n\<lparr>rn_wal := w\<rparr>"
  by (auto simp: persist_def split: sum.splits prod.splits intro!: exI [of _ "rn_wal n'"])

lemma persist_if_frame:
  "(if b then persist else (\<lambda>n. (Inr (), n))) n = (r, n') \<Longrightarrow> \<exists>w. n' = n\<lparr>rn_wal := w\<rparr>"
  by (auto split: if_splits dest: persist_frame intro!: exI [of _ "rn_wal n'"])

lemma start_election_frame:
  assumes "start_election n = (r, n')"
  shows "n' = n \<and> (\<exists>e. r = Inl e)
    \<or> (\<exists>term w. checked_add_u64 (current_term n) 1 = Some term
         \<and> n' = n\<lparr>current_term := term, rn_role := Candidate, leader_id := None, voted_for := Some (rn_id n), rn_wal := w\<rparr>
         \<and> (\<forall>q. r = Inr q \<longrightarrow> q = \<lparr>rv_term = term, rv_candidate_id = rn_id n,
              rv_last_log_index = last_log_index n, rv_last_log_term = last_log_term n\<rparr>))"
proof (cases "checked_add_u64 (current_term n) 1")
  case None
  with assms show ?thesis by (auto simp: start_election_def)
next
  case (Some tm)
  let ?n = "n\<lparr>current_term := tm, rn_role := Candidate, leader_id := None, voted_for := Some (rn_id n)\<rparr>"
  obtain res n1 where p: "persist ?n = (res, n1)" by fastforce
  with persist_frame [OF p] Some assms show ?thesis
    by (auto simp: start_election_def and_then_def last_log_index_def last_log_term_def split: sum.splits)
qed

lemma observe_term_frame:
  assumes "observe_term term n = (r, n')"
  shows "n' = n \<and> term \<le> current_term n \<and> r = Inr ()
    \<or> (\<exists>w. current_term n < term \<and> n' = n\<lparr>current_term := term, voted_for := None, rn_role := Follower, leader_id := None, rn_wal := w\<rparr>)"
  using assms by (auto simp: observe_term_def not_less split: if_splits dest!: persist_frame)

text \<open>A node that adopts a newer term forgets its vote and its role.\<close>

definition adopt_term :: "u64 \<Rightarrow> raft_node \<Rightarrow> raft_node" where
  "adopt_term term n = (if current_term n < term
     then n\<lparr>current_term := term, voted_for := None, rn_role := Follower, leader_id := None\<rparr> else n)"

lemma adopt_term_simps [simp]:
  "rn_log (adopt_term t n) = rn_log n" "rn_id (adopt_term t n) = rn_id n" "commit_index (adopt_term t n) = commit_index n"
  "last_applied (adopt_term t n) = last_applied n" "rn_wal (adopt_term t n) = rn_wal n"
  "current_term (adopt_term t n) = max t (current_term n)"
  "election_timeout_ms (adopt_term t n) = election_timeout_ms n"
  by (auto simp: adopt_term_def)

definition votes_for :: "RequestVote \<Rightarrow> raft_node \<Rightarrow> bool" where
  "votes_for request n \<longleftrightarrow>
    (voted_for (adopt_term (rv_term request) n) = None
      \<or> voted_for (adopt_term (rv_term request) n) = Some (rv_candidate_id request)) \<and> up_to_date request n"

lemma request_vote_unfold:
  assumes "\<not> rv_term request < current_term n"
  shows "request_vote request n =
    (let n1 = adopt_term (rv_term request) n;
         new_vote = (votes_for request n \<and> voted_for n1 \<noteq> Some (rv_candidate_id request))
     in and_then (if rv_term request > current_term n \<or> new_vote then persist else (\<lambda>n. (Inr (), n)))
       (\<lambda>_ n'. (Inr \<lparr>vr_term = current_term n', vr_granted = votes_for request n\<rparr>, n'))
       (if new_vote then n1\<lparr>voted_for := Some (rv_candidate_id request)\<rparr> else n1))"
proof -
  let ?n = "adopt_term (rv_term request) n"
  have ad: "(if rv_term request > current_term n
      then n\<lparr>current_term := rv_term request, voted_for := None, rn_role := Follower, leader_id := None\<rparr> else n) = ?n"
    by (simp add: adopt_term_def)
  have up: "up_to_date request ?n = up_to_date request n"
    by (simp add: up_to_date_def last_log_index_def last_log_term_def)
  show ?thesis
    using assms unfolding request_vote_def Let_def ad up votes_for_def by simp
qed

lemma request_vote_frame:
  assumes "request_vote request n = (r, n')"
  shows "n' = n \<and> rv_term request < current_term n \<and> r = Inr \<lparr>vr_term = current_term n, vr_granted = False\<rparr>
    \<or> (\<exists>w. \<not> rv_term request < current_term n
         \<and> n' = (if votes_for request n
                 then (adopt_term (rv_term request) n)\<lparr>voted_for := Some (rv_candidate_id request), rn_wal := w\<rparr>
                 else (adopt_term (rv_term request) n)\<lparr>rn_wal := w\<rparr>)
         \<and> (\<forall>v. r = Inr v \<longrightarrow> v = \<lparr>vr_term = rv_term request, vr_granted = votes_for request n\<rparr>))"
proof (cases "rv_term request < current_term n")
  case True
  with assms show ?thesis by (auto simp: request_vote_def)
next
  case False
  let ?n = "adopt_term (rv_term request) n" and ?c = "rv_candidate_id request"
  have tm: "current_term ?n = rv_term request" using False by (simp add: adopt_term_def)
  let ?v = "votes_for request n" and ?new = "votes_for request n \<and> voted_for ?n \<noteq> Some ?c"
  let ?n2 = "if ?new then ?n\<lparr>voted_for := Some ?c\<rparr> else ?n"
  obtain res n1 where p: "(if rv_term request > current_term n \<or> ?new then persist else (\<lambda>n. (Inr (), n))) ?n2 = (res, n1)"
    by fastforce
  from persist_if_frame [OF p] obtain w where w: "n1 = ?n2\<lparr>rn_wal := w\<rparr>" by blast
  moreover have "n' = n1 \<and> (\<forall>v. r = Inr v \<longrightarrow> v = \<lparr>vr_term = current_term n1, vr_granted = ?v\<rparr>)"
    using assms p unfolding request_vote_unfold [OF False] Let_def by (auto simp: and_then_def split: sum.splits)
  moreover have "?n2\<lparr>rn_wal := w\<rparr> = (if ?v then ?n\<lparr>voted_for := Some ?c, rn_wal := w\<rparr> else ?n\<lparr>rn_wal := w\<rparr>)"
    by (cases ?n) (auto simp: votes_for_def)
  ultimately show ?thesis using False tm by (intro disjI2 exI [of _ w]) auto
qed

lemma merge_entries_eq:
  assumes "merge_entries es log index changed = (log', index', changed')" and "index \<le> length log"
  shows "index' = index + length es \<and> index' \<le> length log' \<and> take index' log' = take index log @ es
    \<and> (changed \<longrightarrow> changed') \<and> (\<not> changed' \<longrightarrow> log' = log)"
  using assms
proof (induction es arbitrary: log index changed)
  case (Cons e es)
  consider (same) "index < length log" "log ! index = e"
    | (differs) "index < length log" "log ! index \<noteq> e" | (beyond) "index = length log"
    using Cons.prems(2) by linarith
  then show ?case
  proof cases
    case same
    with Cons.prems Cons.IH [of log "index + 1" changed] show ?thesis
      by (auto simp: take_Suc_conv_app_nth)
  next
    case differs
    then have "e_term (log ! index) \<noteq> e_term e \<or> e_command (log ! index) \<noteq> e_command e"
      by (cases "log ! index"; cases e) auto
    with differs Cons.prems Cons.IH [of "take index log @ [e]" "index + 1" True] show ?thesis by (auto simp: min_def)
  next
    case beyond
    with Cons.prems Cons.IH [of "log @ [e]" "index + 1" True] show ?thesis by auto
  qed
qed simp

definition follow :: "AppendEntries \<Rightarrow> raft_node \<Rightarrow> raft_node" where
  "follow request n = (adopt_term (ae_term request) n)\<lparr>rn_role := Follower, leader_id := Some (ae_leader_id request)\<rparr>"

lemma follow_simps [simp]:
  "rn_log (follow q n) = rn_log n" "rn_id (follow q n) = rn_id n" "commit_index (follow q n) = commit_index n"
  "last_applied (follow q n) = last_applied n" "rn_wal (follow q n) = rn_wal n" "rn_role (follow q n) = Follower"
  "current_term (follow q n) = max (ae_term q) (current_term n)"
  "voted_for (follow q n) = voted_for (adopt_term (ae_term q) n)"
  "election_timeout_ms (follow q n) = election_timeout_ms n"
  by (simp_all add: follow_def)

definition log_matches :: "AppendEntries \<Rightarrow> raft_node \<Rightarrow> bool" where
  "log_matches q n \<longleftrightarrow> ae_prev_log_index q \<le> length (rn_log n)
    \<and> (0 < ae_prev_log_index q \<longrightarrow> e_term (rn_log n ! (ae_prev_log_index q - 1)) = ae_prev_log_term q)"

definition new_log :: "AppendEntries \<Rightarrow> raft_node \<Rightarrow> entry list" where
  "new_log q n = take (ae_prev_log_index q) (rn_log n) @ ae_entries q"

definition new_commit :: "AppendEntries \<Rightarrow> raft_node \<Rightarrow> nat" where
  "new_commit q n = (if ae_leader_commit q > commit_index n then min (ae_leader_commit q) (length (new_log q n))
     else commit_index n)"

lemma append_entries_stale:
  "ae_term q < current_term n \<Longrightarrow>
    append_entries q n = (Inr \<lparr>ar_term = current_term n, ar_success = False, ar_match_index = last_log_index n\<rparr>, n)"
  by (simp add: append_entries_def)

lemma append_entries_unfold:
  assumes "\<not> ae_term q < current_term n"
  shows "append_entries q n =
    (if log_matches q n then
       (case merge_entries (ae_entries q) (rn_log n) (ae_prev_log_index q) (ae_term q > current_term n) of
         (log, index, changed) \<Rightarrow>
           and_then (if changed \<or> length log > index then persist else (\<lambda>n. (Inr (), n)))
             (\<lambda>_ n. (Inr \<lparr>ar_term = current_term n, ar_success = True,
                 ar_match_index = ae_prev_log_index q + length (ae_entries q)\<rparr>,
               if ae_leader_commit q > commit_index n
               then n\<lparr>commit_index := min (ae_leader_commit q) (last_log_index n)\<rparr> else n))
             ((follow q n)\<lparr>rn_log := if length log > index then take index log else log\<rparr>))
     else and_then (if ae_term q > current_term n then persist else (\<lambda>n. (Inr (), n)))
        (\<lambda>_ n. (Inr \<lparr>ar_term = current_term n, ar_success = False, ar_match_index = last_log_index n\<rparr>, n)) (follow q n))"
proof -
  let ?n1 = "(if ae_term q > current_term n then n\<lparr>current_term := ae_term q, voted_for := None\<rparr> else n)
    \<lparr>rn_role := Follower, leader_id := Some (ae_leader_id q)\<rparr>"
  have f: "?n1 = follow q n" by (simp add: follow_def adopt_term_def)
  have m: "(ae_prev_log_index q > last_log_index (follow q n)
      \<or> ae_prev_log_index q > 0 \<and> e_term (rn_log (follow q n) ! (ae_prev_log_index q - 1)) \<noteq> ae_prev_log_term q)
      \<longleftrightarrow> \<not> log_matches q n"
    by (auto simp: log_matches_def last_log_index_def)
  show ?thesis
    using assms unfolding append_entries_def Let_def f m by simp
qed

lemma append_entries_refused:
  assumes "append_entries q n = (r, n')" and "\<not> ae_term q < current_term n" and "\<not> log_matches q n"
  shows "\<exists>w. n' = (follow q n)\<lparr>rn_wal := w\<rparr>
    \<and> (\<forall>v. r = Inr v \<longrightarrow> v = \<lparr>ar_term = ae_term q, ar_success = False, ar_match_index = length (rn_log n)\<rparr>)"
proof -
  obtain res n1 where p: "(if ae_term q > current_term n then persist else (\<lambda>n. (Inr (), n))) (follow q n) = (res, n1)"
    by fastforce
  from persist_if_frame [OF p] obtain w where w: "n1 = (follow q n)\<lparr>rn_wal := w\<rparr>" by blast
  have "current_term (follow q n) = ae_term q" using assms(2) by (simp add: max_def)
  with assms p w show ?thesis
    by (auto simp: append_entries_unfold and_then_def last_log_index_def split: sum.splits)
qed

lemma append_entries_accepted:
  assumes "append_entries q n = (r, n')" and "\<not> ae_term q < current_term n" and "log_matches q n"
  shows "\<exists>w. n' = (follow q n)\<lparr>rn_log := new_log q n, rn_wal := w,
      commit_index := (case r of Inl e \<Rightarrow> commit_index n | Inr v \<Rightarrow> new_commit q n)\<rparr>
    \<and> (\<forall>v. r = Inr v \<longrightarrow> v = \<lparr>ar_term = ae_term q, ar_success = True,
          ar_match_index = length (new_log q n)\<rparr>)"
proof -
  obtain log index changed where m: "merge_entries (ae_entries q) (rn_log n) (ae_prev_log_index q) (ae_term q > current_term n)
      = (log, index, changed)" by (metis prod_cases3)
  have prev: "ae_prev_log_index q \<le> length (rn_log n)" using assms(3) by (simp add: log_matches_def)
  note me = merge_entries_eq [OF m prev]
  then have nl: "(if length log > index then take index log else log) = new_log q n"
    by (auto simp: new_log_def)
  have len: "ae_prev_log_index q + length (ae_entries q) = length (new_log q n)"
    using prev by (simp add: new_log_def)
  obtain res n1 where p: "(if changed \<or> length log > index then persist else (\<lambda>n. (Inr (), n)))
      ((follow q n)\<lparr>rn_log := new_log q n\<rparr>) = (res, n1)" by fastforce
  from persist_if_frame [OF p] obtain w where w: "n1 = (follow q n)\<lparr>rn_log := new_log q n, rn_wal := w\<rparr>" by auto
  have tm: "current_term (follow q n) = ae_term q" using assms(2) by (simp add: max_def)
  have "(r, n') = (case res of Inl e \<Rightarrow> (Inl e, n1) | Inr _ \<Rightarrow>
      (Inr \<lparr>ar_term = ae_term q, ar_success = True, ar_match_index = length (new_log q n)\<rparr>,
       n1\<lparr>commit_index := new_commit q n\<rparr>))"
    using assms(1) append_entries_unfold [OF assms(2)] assms(3) m p nl w tm len
    by (auto simp: and_then_def last_log_index_def new_commit_def split: sum.splits)
  with w show ?thesis by (cases res) (auto intro!: exI [of _ w])
qed

end
