(* ===== verification/Raft_Node.thy ===== *)
theory Raft_Node
  imports Raft_State
begin

text \<open>
  Properties of one Raft node: what commitment and application do, which steps a node can take, and that the
  persistent state on disk never lags behind what the node has answered.
\<close>

section \<open>Leader operations\<close>

lemma append_as_leader_frame:
  assumes "append_as_leader command n = (r, n')"
  shows "rn_role n \<noteq> Leader \<and> n' = n \<and> (\<exists>e. r = Inl e)
    \<or> rn_role n = Leader
      \<and> (\<exists>w. n' = n\<lparr>rn_log := rn_log n @ [\<lparr>e_term = current_term n, e_command = command\<rparr>], rn_wal := w\<rparr>)
      \<and> (\<forall>i. r = Inr i \<longrightarrow> i = length (rn_log n) + 1)"
proof (cases "rn_role n = Leader")
  case True
  let ?n = "n\<lparr>rn_log := rn_log n @ [\<lparr>e_term = current_term n, e_command = command\<rparr>]\<rparr>"
  obtain res n1 where p: "persist ?n = (res, n1)" by fastforce
  with persist_frame [OF p] True assms show ?thesis
    by (auto simp: append_as_leader_def and_then_def last_log_index_def split: sum.splits)
next
  case False
  with assms show ?thesis by (auto simp: append_as_leader_def)
qed

text \<open>\<open>find\<close> on a list sorted downwards returns the greatest match.\<close>

lemma find_rev_upt:
  "find P (rev [a ..< b]) = Some x \<longleftrightarrow> a \<le> x \<and> x < b \<and> P x \<and> (\<forall>y. x < y \<and> y < b \<longrightarrow> \<not> P y)"
proof (induction b)
  case (Suc b)
  show ?case
  proof (cases "a \<le> b")
    case True
    then show ?thesis
      using Suc by (cases "P b") (auto simp: less_Suc_eq)
  qed simp
qed simp

lemma find_rev_upt_None: "find P (rev [a ..< b]) = None \<longleftrightarrow> (\<forall>y. a \<le> y \<and> y < b \<longrightarrow> \<not> P y)"
  by (auto simp: find_None_iff)

definition commits_at :: "nat list \<Rightarrow> raft_node \<Rightarrow> nat \<Rightarrow> bool" where
  "commits_at replicated n c \<longleftrightarrow> c \<le> length (rn_log n) \<and> e_term (rn_log n ! (c - 1)) = current_term n
    \<and> length replicated + 1 < 2 * (1 + length (filter (\<lambda>i. c \<le> i) replicated))"

lemma advance_commit_eq:
  assumes "advance_commit replicated n = (c, n')"
  shows "n' = n\<lparr>commit_index := c\<rparr> \<and> commit_index n \<le> c
    \<and> (c = commit_index n \<or> rn_role n = Leader \<and> commits_at replicated n c)
    \<and> (rn_role n = Leader \<longrightarrow> (\<forall>d > c. \<not> commits_at replicated n d))"
proof (cases "rn_role n = Leader")
  case False
  with assms show ?thesis by (auto simp: advance_commit_def)
next
  case True
  let ?P = "\<lambda>candidate. (1 + length (filter (\<lambda>index. index \<ge> candidate) replicated)) * 2 > length replicated + 1
    \<and> e_term (rn_log n ! (candidate - 1)) = current_term n"
  let ?f = "find ?P (rev [commit_index n + 1 ..< last_log_index n + 1])"
  have P: "commits_at replicated n d \<longleftrightarrow> d < last_log_index n + 1 \<and> ?P d" for d
    by (auto simp: commits_at_def last_log_index_def mult.commute)
  show ?thesis
  proof (cases ?f)
    case None
    then have "c = commit_index n" "n' = n" using assms True by (auto simp: advance_commit_def)
    moreover have "\<not> commits_at replicated n d" if "commit_index n < d" for d
      using None [unfolded find_rev_upt_None] that by (auto simp: P)
    ultimately show ?thesis by simp
  next
    case (Some d)
    then have "c = d" "n' = n\<lparr>commit_index := d\<rparr>" using assms True by (auto simp: advance_commit_def)
    with Some [unfolded find_rev_upt] True show ?thesis by (auto simp: P)
  qed
qed

section \<open>Application\<close>

lemma take_applied_loop_eq:
  "last_applied n \<le> commit_index n \<Longrightarrow> commit_index n \<le> length (rn_log n) \<Longrightarrow>
    take_applied_loop n acc = Some (acc @ drop (last_applied n) (take (commit_index n) (rn_log n)),
      n\<lparr>last_applied := commit_index n\<rparr>)"
proof (induction n acc rule: take_applied_loop.induct)
  case (1 n acc)
  show ?case
  proof (cases "last_applied n < commit_index n")
    case True
    with 1 have "drop (last_applied n) (take (commit_index n) (rn_log n)) =
        rn_log n ! last_applied n # drop (Suc (last_applied n)) (take (commit_index n) (rn_log n))"
      by (simp add: Cons_nth_drop_Suc [symmetric])
    with True 1 show ?thesis by (subst take_applied_loop.simps) simp
  next
    case False
    with 1 show ?thesis by (subst take_applied_loop.simps) (cases n, simp)
  qed
qed

lemma take_applied_eq:
  "last_applied n \<le> commit_index n \<Longrightarrow> commit_index n \<le> length (rn_log n) \<Longrightarrow>
    take_applied n = Some (drop (last_applied n) (take (commit_index n) (rn_log n)), n\<lparr>last_applied := commit_index n\<rparr>)"
  by (simp add: take_applied_def take_applied_loop_eq)

lemma take_applied_loop_panics:
  "length (rn_log n) < commit_index n \<Longrightarrow> last_applied n < commit_index n \<Longrightarrow> take_applied_loop n acc = None"
proof (induction n acc rule: take_applied_loop.induct)
  case (1 n acc)
  then show ?case
    by (subst take_applied_loop.simps) (cases "last_applied n < length (rn_log n)"; auto)
qed

section \<open>Steps of a node\<close>

inductive node_step :: "raft_node \<Rightarrow> raft_node \<Rightarrow> bool" where
  ns_election: "start_election n = (r, n') \<Longrightarrow> node_step n n'"
| ns_leader: "node_step n (become_leader n)"
| ns_observe: "observe_term term n = (r, n') \<Longrightarrow> node_step n n'"
| ns_vote: "request_vote q n = (r, n') \<Longrightarrow> node_step n n'"
| ns_append: "append_entries a n = (r, n') \<Longrightarrow> node_step n n'"
| ns_propose: "append_as_leader command n = (r, n') \<Longrightarrow> node_step n n'"
| ns_commit: "advance_commit replicated n = (c, n') \<Longrightarrow> node_step n n'"
| ns_apply: "take_applied n = Some (es, n') \<Longrightarrow> node_step n n'"

lemma take_applied_frame: "take_applied_loop n acc = Some (es, n') \<Longrightarrow> \<exists>i. n' = n\<lparr>last_applied := i\<rparr>"
proof (induction n acc rule: take_applied_loop.induct)
  case (1 n acc)
  from "1.prems" have "n' = n \<or> take_applied_loop (n\<lparr>last_applied := last_applied n + 1\<rparr>)
      (acc @ [rn_log n ! last_applied n]) = Some (es, n') \<and> last_applied n < commit_index n \<and> last_applied n < length (rn_log n)"
    by (subst (asm) take_applied_loop.simps) (auto split: if_splits)
  then show ?case
  proof
    assume "n' = n"
    then show ?thesis by (intro exI [of _ "last_applied n"]) simp
  next
    assume "take_applied_loop (n\<lparr>last_applied := last_applied n + 1\<rparr>)
      (acc @ [rn_log n ! last_applied n]) = Some (es, n') \<and> last_applied n < commit_index n \<and> last_applied n < length (rn_log n)"
    with "1.IH" show ?thesis by auto
  qed
qed

text \<open>Terms never go back, and within a term a vote is never changed.\<close>

definition keeps_vote :: "raft_node \<Rightarrow> raft_node \<Rightarrow> bool" where
  "keeps_vote n n' \<longleftrightarrow> rn_id n' = rn_id n \<and> current_term n \<le> current_term n'
    \<and> (current_term n' = current_term n \<longrightarrow> (\<forall>c. voted_for n = Some c \<longrightarrow> voted_for n' = Some c))"

lemma keeps_vote_refl [simp]: "keeps_vote n n"
  by (simp add: keeps_vote_def)

lemma keeps_vote_trans: "keeps_vote a b \<Longrightarrow> keeps_vote b c \<Longrightarrow> keeps_vote a c"
  by (fastforce simp: keeps_vote_def)

lemma keeps_vote_adopt: "keeps_vote n (adopt_term t n)"
  by (auto simp: keeps_vote_def adopt_term_def)

lemma keeps_vote_append:
  assumes "append_entries q n = (r, n')"
  shows "keeps_vote n n'"
proof (cases "ae_term q < current_term n")
  case True
  with assms show ?thesis by (simp add: append_entries_stale)
next
  case False
  have "keeps_vote n (follow q n)"
    using keeps_vote_adopt [of n "ae_term q"] by (simp add: keeps_vote_def)
  with append_entries_refused [OF assms False] append_entries_accepted [OF assms False] show ?thesis
    by (cases "log_matches q n") (auto simp: keeps_vote_def)
qed

lemma keeps_vote_request:
  assumes "request_vote q n = (r, n')"
  shows "keeps_vote n n'"
proof (cases "rv_term q < current_term n")
  case True
  with request_vote_frame [OF assms] show ?thesis by auto
next
  case False
  with request_vote_frame [OF assms] obtain w where n': "n' = (if votes_for q n
      then (adopt_term (rv_term q) n)\<lparr>voted_for := Some (rv_candidate_id q), rn_wal := w\<rparr>
      else (adopt_term (rv_term q) n)\<lparr>rn_wal := w\<rparr>)" by auto
  show ?thesis
  proof (cases "current_term n < rv_term q")
    case True
    then show ?thesis by (auto simp: n' keeps_vote_def adopt_term_def)
  next
    case False
    then have "adopt_term (rv_term q) n = n" by (simp add: adopt_term_def)
    then show ?thesis by (auto simp: n' keeps_vote_def votes_for_def)
  qed
qed

lemma keeps_vote_step: "node_step n n' \<Longrightarrow> keeps_vote n n'"
proof (induction rule: node_step.induct)
  case (ns_election n r n')
  from start_election_frame [OF this] show ?case
    by (auto simp: keeps_vote_def dest!: checked_succ_u64(2))
next
  case (ns_leader n)
  show ?case by (simp add: keeps_vote_def become_leader_def)
next
  case (ns_observe t n r n')
  from observe_term_frame [OF this] show ?case by (auto simp: keeps_vote_def)
next
  case (ns_vote q n r n')
  then show ?case by (rule keeps_vote_request)
next
  case (ns_append a n r n')
  then show ?case by (rule keeps_vote_append)
next
  case (ns_propose command n r n')
  from append_as_leader_frame [OF this] show ?case by (auto simp: keeps_vote_def)
next
  case (ns_commit replicated n c n')
  from advance_commit_eq [OF this] have "n' = n\<lparr>commit_index := c\<rparr>" by blast
  then show ?case by (simp add: keeps_vote_def)
next
  case (ns_apply n es n')
  then have "\<exists>i. n' = n\<lparr>last_applied := i\<rparr>" using take_applied_frame by (auto simp: take_applied_def)
  then show ?case by (auto simp: keeps_vote_def)
qed

lemma keeps_vote_steps: "node_step\<^sup>*\<^sup>* n n' \<Longrightarrow> keeps_vote n n'"
  by (induction rule: rtranclp_induct) (auto intro: keeps_vote_trans keeps_vote_step)

section \<open>Durability\<close>

text \<open>
  On a disk without faults the log file holds the sequence of persisted states, all synced, and the last of
  them is the state in memory. Here a step is an operation that succeeded, or a crash.
\<close>

definition state_of :: "raft_node \<Rightarrow> persistent_state" where
  "state_of n = \<lparr>ps_term = current_term n, ps_vote = voted_for n, ps_log = rn_log n\<rparr>"

definition on_disk :: "raft_node \<Rightarrow> bool" where
  "on_disk n \<longleftrightarrow> (\<exists>sts. wal_faults (rn_wal n) = [] \<and> list_all state_fits sts
    \<and> wal_bytes (rn_wal n) = wal_log (map state_bytes sts) \<and> wal_synced (rn_wal n) = length (wal_bytes (rn_wal n))
    \<and> last (default_state # sts) = state_of n)"

lemma persist_on_disk:
  assumes "persist n = (Inr (), n')" and "on_disk m" and "rn_wal n = rn_wal m"
  shows "on_disk n'"
proof -
  from assms(2) obtain sts where sts: "wal_faults (rn_wal m) = []" "list_all state_fits sts"
    "wal_bytes (rn_wal m) = wal_log (map state_bytes sts)" "wal_synced (rn_wal m) = length (wal_bytes (rn_wal m))"
    by (auto simp: on_disk_def)
  obtain payload where enc: "state_encode (state_of n) = Inr payload"
    using assms(1) by (cases "state_encode (state_of n)") (auto simp: persist_def state_of_def)
  have "fst (append_record payload (rn_wal n)) = Inr ()"
    using assms(1) enc by (auto simp: persist_def state_of_def and_then_def split: prod.splits sum.splits)
  then have fits: "fits_record payload" "payload = state_bytes (state_of n)" "state_fits (state_of n)"
    using enc by (auto simp: append_record_def fits_record_def state_encode_Inr state_fits_def split: if_splits)
  have "n' = n\<lparr>rn_wal := (rn_wal m)\<lparr>wal_bytes := wal_bytes (rn_wal m) @ frame payload,
      wal_synced := length (wal_bytes (rn_wal m) @ frame payload)\<rparr>\<rparr>"
    using assms(1) enc sts(1) fits(1)
    by (simp add: persist_def state_of_def [symmetric] assms(3) and_then_def append_record_ok sync_ok)
  with sts fits show ?thesis
    by (auto simp: on_disk_def state_of_def intro!: exI [of _ "sts @ [state_of n]"])
qed

lemma on_disk_frame: "on_disk n \<Longrightarrow> rn_wal n' = rn_wal n \<Longrightarrow> state_of n' = state_of n \<Longrightarrow> on_disk n'"
  by (auto simp: on_disk_def)

lemma persist_if_on_disk:
  assumes "(if b then persist else (\<lambda>n. (Inr (), n))) n = (Inr (), n')" and "on_disk m" and "rn_wal n = rn_wal m"
    and "\<not> b \<Longrightarrow> state_of n = state_of m"
  shows "on_disk n'"
  using assms persist_on_disk [OF _ assms(2,3)] on_disk_frame [OF assms(2)] by (auto split: if_splits)

lemma start_election_on_disk:
  assumes "start_election n = (Inr q, n')" and "on_disk n"
  shows "on_disk n'"
proof -
  from assms(1) obtain tm where tm: "checked_add_u64 (current_term n) 1 = Some tm"
    by (auto simp: start_election_def split: option.splits)
  let ?n = "n\<lparr>current_term := tm, rn_role := Candidate, leader_id := None, voted_for := Some (rn_id n)\<rparr>"
  from assms(1) tm have "persist ?n = (Inr (), n')"
    by (auto simp: start_election_def and_then_def split: prod.splits sum.splits)
  from persist_on_disk [OF this assms(2)] show ?thesis by simp
qed

lemma request_vote_on_disk:
  assumes "request_vote q n = (Inr v, n')" and "on_disk n"
  shows "on_disk n'"
proof (cases "rv_term q < current_term n")
  case True
  with assms show ?thesis by (simp add: request_vote_def)
next
  case False
  let ?n1 = "adopt_term (rv_term q) n"
  let ?new = "votes_for q n \<and> voted_for ?n1 \<noteq> Some (rv_candidate_id q)"
  let ?n2 = "if ?new then ?n1\<lparr>voted_for := Some (rv_candidate_id q)\<rparr> else ?n1"
  have "(if rv_term q > current_term n \<or> ?new then persist else (\<lambda>n. (Inr (), n))) ?n2 = (Inr (), n')"
    using assms(1) unfolding request_vote_unfold [OF False] Let_def and_then_Inr_iff by (auto split del: if_split)
  then show ?thesis
    by (rule persist_if_on_disk [OF _ assms(2)]) (auto simp: adopt_term_def)
qed

lemma append_entries_on_disk:
  assumes "append_entries q n = (Inr v, n')" and "on_disk n"
  shows "on_disk n'"
proof (cases "ae_term q < current_term n")
  case True
  with assms show ?thesis by (simp add: append_entries_def)
next
  case False
  have fol: "\<not> current_term n < ae_term q \<Longrightarrow> state_of (follow q n) = state_of n"
    by (auto simp: state_of_def follow_def adopt_term_def)
  show ?thesis
  proof (cases "log_matches q n")
    case matches: False
    have "(if ae_term q > current_term n then persist else (\<lambda>n. (Inr (), n))) (follow q n) = (Inr (), n')"
      using assms(1) False matches by (auto simp: append_entries_unfold and_then_def split: prod.splits sum.splits)
    then show ?thesis by (rule persist_if_on_disk [OF _ assms(2)]) (simp_all add: fol)
  next
    case True
    obtain log index changed where m: "merge_entries (ae_entries q) (rn_log n) (ae_prev_log_index q) (ae_term q > current_term n)
        = (log, index, changed)" by (metis prod_cases3)
    have "ae_prev_log_index q \<le> length (rn_log n)" using True by (simp add: log_matches_def)
    note me = merge_entries_eq [OF m this]
    let ?n2 = "(follow q n)\<lparr>rn_log := if length log > index then take index log else log\<rparr>"
    obtain n1 where p: "(if changed \<or> length log > index then persist else (\<lambda>n. (Inr (), n))) ?n2 = (Inr (), n1)"
      and n': "rn_wal n' = rn_wal n1" "state_of n' = state_of n1"
      using assms(1) False True m
      by (auto simp: append_entries_unfold and_then_def state_of_def split: prod.splits sum.splits if_splits)
    have "on_disk n1"
      using p by (rule persist_if_on_disk [OF _ assms(2)]) (use me fol in \<open>auto simp: state_of_def\<close>)
    with n' show ?thesis by (metis on_disk_frame)
  qed
qed

lemma append_as_leader_on_disk:
  assumes "append_as_leader command n = (Inr i, n')" and "on_disk n"
  shows "on_disk n'"
proof -
  let ?n = "n\<lparr>rn_log := rn_log n @ [\<lparr>e_term = current_term n, e_command = command\<rparr>]\<rparr>"
  from assms(1) have "persist ?n = (Inr (), n')"
    by (auto simp: append_as_leader_def and_then_def split: prod.splits sum.splits if_splits)
  from persist_on_disk [OF this assms(2)] show ?thesis by simp
qed

lemma decode_states_bytes: "list_all state_fits sts \<Longrightarrow> decode_states st (map state_bytes sts) = Inr (last (st # sts))"
  by (induction sts arbitrary: st) (simp_all add: raft_codec.dec_enc)

lemma on_disk_open:
  assumes "on_disk n" and "crash_image (rn_wal n) f"
  shows "\<exists>n'. raft_open i (Some f) [] seed = Inr n' \<and> state_of n' = state_of n \<and> on_disk n' \<and> rn_id n' = i"
proof -
  from assms(1) obtain sts where sts: "wal_faults (rn_wal n) = []" "list_all state_fits sts"
    "wal_bytes (rn_wal n) = wal_log (map state_bytes sts)" "wal_synced (rn_wal n) = length (wal_bytes (rn_wal n))"
    "last (default_state # sts) = state_of n"
    by (auto simp: on_disk_def)
  with assms(2) have f: "f = wal_log (map state_bytes sts)" by (auto simp: crash_image_def)
  have "open_wal (Some f) [] = \<lparr>wal_bytes = f, wal_synced = length f, wal_faults = []\<rparr>"
    by (simp add: open_wal_def Let_def)
  then show ?thesis
    using raft_codec.replay_values [OF sts(2)] decode_states_bytes [OF sts(2), of default_state] sts(2,5) f
    by (auto simp: raft_open_def Let_def state_of_def on_disk_def simp del: last.simps intro!: exI [of _ sts])
qed

inductive durable_step :: "raft_node \<Rightarrow> raft_node \<Rightarrow> bool" where
  ds_election: "start_election n = (Inr q, n') \<Longrightarrow> durable_step n n'"
| ds_leader: "durable_step n (become_leader n)"
| ds_observe: "observe_term term n = (Inr u, n') \<Longrightarrow> durable_step n n'"
| ds_vote: "request_vote q n = (Inr v, n') \<Longrightarrow> durable_step n n'"
| ds_append: "append_entries a n = (Inr v, n') \<Longrightarrow> durable_step n n'"
| ds_propose: "append_as_leader command n = (Inr i, n') \<Longrightarrow> durable_step n n'"
| ds_commit: "advance_commit replicated n = (c, n') \<Longrightarrow> durable_step n n'"
| ds_apply: "take_applied n = Some (es, n') \<Longrightarrow> durable_step n n'"
| ds_crash: "crash_image (rn_wal n) f \<Longrightarrow> raft_open (rn_id n) (Some f) [] seed = Inr n' \<Longrightarrow> durable_step n n'"

lemma on_disk_step: "durable_step n n' \<Longrightarrow> on_disk n \<Longrightarrow> on_disk n'"
proof (induction rule: durable_step.induct)
  case (ds_election n q n')
  then show ?case by (rule start_election_on_disk)
next
  case (ds_leader n)
  then show ?case by (rule on_disk_frame) (simp_all add: become_leader_def state_of_def)
next
  case (ds_observe t n u n')
  then show ?case
    using persist_on_disk [of "n\<lparr>current_term := t, voted_for := None, rn_role := Follower, leader_id := None\<rparr>" n' n]
    by (auto simp: observe_term_def split: if_splits)
next
  case (ds_vote q n v n')
  then show ?case by (rule request_vote_on_disk)
next
  case (ds_append a n v n')
  then show ?case by (rule append_entries_on_disk)
next
  case (ds_propose command n i n')
  then show ?case by (rule append_as_leader_on_disk)
next
  case (ds_commit replicated n c n')
  from advance_commit_eq [OF ds_commit(1)] have "n' = n\<lparr>commit_index := c\<rparr>" by blast
  with ds_commit(2) show ?case by (auto intro: on_disk_frame simp: state_of_def)
next
  case (ds_apply n es n')
  then have "\<exists>i. n' = n\<lparr>last_applied := i\<rparr>" using take_applied_frame by (auto simp: take_applied_def)
  with ds_apply(2) show ?case by (auto intro: on_disk_frame simp: state_of_def)
next
  case (ds_crash n f seed n')
  with on_disk_open [OF ds_crash(3,1), of "rn_id n" seed] show ?case by auto
qed

lemma durable_step_keeps_vote:
  assumes "durable_step n n'" and "on_disk n"
  shows "keeps_vote n n'"
  using assms(1)
proof (cases rule: durable_step.cases)
  case (ds_crash f seed)
  with on_disk_open [OF assms(2) ds_crash(1), of "rn_id n" seed] show ?thesis
    by (auto simp: keeps_vote_def state_of_def)
qed (auto intro: keeps_vote_step node_step.intros)

lemma durable_steps:
  assumes "durable_step\<^sup>*\<^sup>* n n'" and "on_disk n"
  shows "on_disk n' \<and> keeps_vote n n'"
  using assms
  by (induction rule: rtranclp_induct) (auto intro: on_disk_step keeps_vote_trans durable_step_keeps_vote)

lemma on_disk_fresh:
  assumes "raft_open i None [] seed = Inr n"
  shows "on_disk n"
  using assms
  by (auto simp: raft_open_def replay_def open_wal_def Let_def on_disk_def state_of_def default_state_def
      intro!: exI [of _ "[]"])

section \<open>Properties\<close>

text \<open>
  C36. What \<open>AppendEntries\<close> does, whatever the disk does: a stale request changes nothing; a request whose
  previous entry is missing or different leaves the log alone; any other makes the log exactly the old log up
  to the previous index followed by the entries of the request, and if it is answered at all it is answered
  with success and the length of that log.
\<close>

theorem append_entries_result:
  assumes "append_entries q n = (r, n')"
  shows "(if ae_term q < current_term n
     then n' = n \<and> r = Inr \<lparr>ar_term = current_term n, ar_success = False, ar_match_index = length (rn_log n)\<rparr>
     else current_term n' = ae_term q \<and> rn_role n' = Follower
       \<and> (if ae_prev_log_index q \<le> length (rn_log n)
             \<and> (ae_prev_log_index q > 0 \<longrightarrow> e_term (rn_log n ! (ae_prev_log_index q - 1)) = ae_prev_log_term q)
          then rn_log n' = take (ae_prev_log_index q) (rn_log n) @ ae_entries q
            \<and> (\<forall>v. r = Inr v \<longrightarrow> v = \<lparr>ar_term = ae_term q, ar_success = True, ar_match_index = length (rn_log n')\<rparr>
                 \<and> commit_index n' = (if ae_leader_commit q > commit_index n
                     then min (ae_leader_commit q) (length (rn_log n')) else commit_index n))
          else rn_log n' = rn_log n \<and> commit_index n' = commit_index n
            \<and> (\<forall>v. r = Inr v \<longrightarrow> v = \<lparr>ar_term = ae_term q, ar_success = False, ar_match_index = length (rn_log n)\<rparr>)))"
proof (cases "ae_term q < current_term n")
  case True
  with assms show ?thesis by (auto simp: append_entries_stale last_log_index_def)
next
  case False
  note m = log_matches_def [of q n, symmetric]
  have tm: "current_term (follow q n) = ae_term q" using False by (simp add: max_def)
  show ?thesis
  proof (cases "log_matches q n")
    case True
    from append_entries_accepted [OF assms False True] obtain w
      where "n' = (follow q n)\<lparr>rn_log := new_log q n, rn_wal := w,
          commit_index := (case r of Inl e \<Rightarrow> commit_index n | Inr v \<Rightarrow> new_commit q n)\<rparr>"
        and "\<forall>v. r = Inr v \<longrightarrow> v = \<lparr>ar_term = ae_term q, ar_success = True, ar_match_index = length (new_log q n)\<rparr>" by blast
    with True False tm show ?thesis
      unfolding m by (cases r) (simp_all add: new_log_def new_commit_def del: follow_simps(7))
  next
    case unmatched: False
    from append_entries_refused [OF assms False unmatched] obtain w
      where "n' = (follow q n)\<lparr>rn_wal := w\<rparr>"
        and "\<forall>v. r = Inr v \<longrightarrow> v = \<lparr>ar_term = ae_term q, ar_success = False, ar_match_index = length (rn_log n)\<rparr>" by blast
    with unmatched False tm show ?thesis unfolding m by (simp del: follow_simps(7))
  qed
qed

text \<open>A follower two entries in, used as the concrete instance of several properties.\<close>

definition sample_entry :: "u64 \<Rightarrow> entry" where
  "sample_entry t = \<lparr>e_term = t, e_command = [7]\<rparr>"

definition sample_node :: raft_node where
  "sample_node = \<lparr>rn_id = 1, rn_wal = \<lparr>wal_bytes = [], wal_synced = 0, wal_faults = []\<rparr>, current_term = 1,
    voted_for = None, rn_log = [sample_entry 1, sample_entry 1], commit_index = 2, last_applied = 0,
    rn_role = Follower, leader_id = Some 2, election_timeout_ms = 200\<rparr>"

definition late_append :: AppendEntries where
  "late_append = \<lparr>ae_term = 1, ae_leader_id = 2, ae_prev_log_index = 0, ae_prev_log_term = 0,
    ae_entries = [sample_entry 1], ae_leader_commit = 0\<rparr>"

theorem append_entries_result_witness:
  "rn_log (snd (append_entries late_append sample_node)) = [sample_entry 1]"
  using append_entries_result [of late_append sample_node "fst (append_entries late_append sample_node)"
    "snd (append_entries late_append sample_node)"]
  by (simp add: late_append_def sample_node_def)

text \<open>
  C37. A leader advances its commit index only to an entry of its own term that is on a strict majority (itself
  and the listed followers), never backwards, to the greatest such entry, and a node that is not the leader
  does not advance it.
\<close>

theorem commit_needs_majority_in_current_term:
  assumes "advance_commit replicated n = (c, n')"
  shows "n' = n\<lparr>commit_index := c\<rparr> \<and> commit_index n \<le> c
    \<and> (c \<noteq> commit_index n \<longrightarrow> rn_role n = Leader \<and> c \<le> length (rn_log n) \<and> e_term (rn_log n ! (c - 1)) = current_term n
         \<and> length replicated + 1 < 2 * (1 + length (filter (\<lambda>i. c \<le> i) replicated)))
    \<and> (rn_role n = Leader \<longrightarrow> (\<forall>d > c. d \<le> length (rn_log n) \<longrightarrow> e_term (rn_log n ! (d - 1)) = current_term n \<longrightarrow>
         2 * (1 + length (filter (\<lambda>i. d \<le> i) replicated)) \<le> length replicated + 1))"
  using advance_commit_eq [OF assms] by (auto simp: commits_at_def not_less)

theorem commit_needs_majority_in_current_term_witness:
  "fst (advance_commit [1, 0] (sample_node\<lparr>rn_role := Leader, commit_index := 0\<rparr>)) = 1"
proof -
  let ?n = "sample_node\<lparr>rn_role := Leader, commit_index := 0\<rparr>"
  obtain c n' where a: "advance_commit [1, 0] ?n = (c, n')" by fastforce
  note p = commit_needs_majority_in_current_term [OF a]
  have "c \<le> 1"
  proof (rule ccontr)
    assume "\<not> c \<le> 1"
    with p show False by (auto simp: sample_node_def split: if_splits)
  qed
  moreover have "c \<noteq> 0"
    using p by (auto simp: sample_node_def sample_entry_def dest!: spec [of _ 1])
  ultimately show ?thesis using a by simp
qed

text \<open>
  C38. What a node has answered survives a crash: on a disk without faults, after any successful operations and
  crashes between them, the term, the vote and the log in memory are what the node finds when it is opened from whatever
  the disk kept.
\<close>

theorem persistent_state_survives_crash:
  assumes "raft_open i None [] seed = Inr n0" and "durable_step\<^sup>*\<^sup>* n0 n" and "crash_image (rn_wal n) f"
  shows "\<exists>n'. raft_open i (Some f) [] seed' = Inr n'
    \<and> current_term n' = current_term n \<and> voted_for n' = voted_for n \<and> rn_log n' = rn_log n"
  using on_disk_open [OF _ assms(3)] durable_steps [OF assms(2) on_disk_fresh [OF assms(1)]]
  by (fastforce simp: state_of_def)

definition fresh_node :: raft_node where
  "fresh_node = \<lparr>rn_id = 1, rn_wal = \<lparr>wal_bytes = [], wal_synced = 0, wal_faults = []\<rparr>, current_term = 0,
    voted_for = None, rn_log = [], commit_index = 0, last_applied = 0,
    rn_role = Follower, leader_id = None, election_timeout_ms = 150 + mix (0 XOR 1) mod 151\<rparr>"

lemma open_fresh_node: "raft_open 1 None [] 0 = Inr fresh_node"
  by (simp add: raft_open_def replay_def open_wal_def Let_def default_state_def fresh_node_def)

lemma persist_ok:
  assumes "wal_faults (rn_wal n) = []" and "state_fits (state_of n)"
  shows "\<exists>w. persist n = (Inr (), n\<lparr>rn_wal := w\<rparr>)"
proof -
  have "state_encode (state_of n) = Inr (state_bytes (state_of n))" "fits_record (state_bytes (state_of n))"
    using assms(2) by (auto simp: state_fits_def state_encode_Inr)
  with assms(1) show ?thesis
    by (auto simp: persist_def state_of_def [symmetric] and_then_def append_record_ok sync_ok)
qed

definition ballot :: "u64 \<Rightarrow> RequestVote" where
  "ballot c = \<lparr>rv_term = 1, rv_candidate_id = c, rv_last_log_index = 0, rv_last_log_term = 0\<rparr>"

lemma fresh_vote: "\<exists>n. request_vote (ballot c) fresh_node = (Inr \<lparr>vr_term = 1, vr_granted = True\<rparr>, n)
    \<and> current_term n = 1 \<and> voted_for n = Some c \<and> rn_log n = []"
proof -
  let ?n = "fresh_node\<lparr>current_term := 1, voted_for := Some c\<rparr>"
  have "state_fits (state_of ?n)"
    by (simp add: state_fits_def state_of_def fresh_node_def state_bytes_def fits_record_def)
  then obtain w where "persist ?n = (Inr (), ?n\<lparr>rn_wal := w\<rparr>)"
    using persist_ok [of ?n] by (auto simp: fresh_node_def)
  then show ?thesis
    by (auto simp: request_vote_def ballot_def and_then_def up_to_date_def last_log_term_def last_log_index_def fresh_node_def)
qed

theorem persistent_state_survives_crash_witness:
  "\<exists>n n'. request_vote (ballot 3) fresh_node = (Inr \<lparr>vr_term = 1, vr_granted = True\<rparr>, n)
    \<and> raft_open 1 (Some (wal_bytes (rn_wal n))) [] 0 = Inr n' \<and> current_term n' = 1 \<and> voted_for n' = Some 3"
proof -
  obtain n where n: "request_vote (ballot 3) fresh_node = (Inr \<lparr>vr_term = 1, vr_granted = True\<rparr>, n)"
    "current_term n = 1" "voted_for n = Some 3" using fresh_vote by blast
  have step: "durable_step\<^sup>*\<^sup>* fresh_node n" using ds_vote [OF n(1)] by (rule r_into_rtranclp)
  have "crash_image (rn_wal n) (wal_bytes (rn_wal n))"
    using on_disk_step [OF ds_vote [OF n(1)] on_disk_fresh [OF open_fresh_node]]
    by (auto simp: crash_image_def on_disk_def intro!: exI [of _ "length (wal_bytes (rn_wal n))"])
  from persistent_state_survives_crash [OF open_fresh_node step this, of 0] n show ?thesis by auto
qed

text \<open>
  C39. One vote per term: on a disk without faults, through any successful operations and crashes between them, a node
  that grants two votes in the same term grants them to the same candidate. When persisting fails this is not so, see
  \<open>repeated_request_grants_unpersisted_vote\<close>.
\<close>

theorem one_vote_per_term:
  assumes "raft_open i None [] seed = Inr n0" and "durable_step\<^sup>*\<^sup>* n0 n1"
    and "request_vote q1 n1 = (Inr v1, n2)" and "vr_granted v1"
    and "durable_step\<^sup>*\<^sup>* n2 n3" and "request_vote q2 n3 = (Inr v2, n4)" and "vr_granted v2"
    and "rv_term q1 = rv_term q2"
  shows "rv_candidate_id q1 = rv_candidate_id q2"
proof -
  have "on_disk n1" using durable_steps [OF assms(2) on_disk_fresh [OF assms(1)]] by blast
  then have "on_disk n2" using on_disk_step [OF ds_vote [OF assms(3)]] by blast
  then have k: "keeps_vote n2 n3" using durable_steps [OF assms(5)] by blast
  have n2: "current_term n2 = rv_term q1" "voted_for n2 = Some (rv_candidate_id q1)"
    using request_vote_frame [OF assms(3)] assms(4) by (auto simp: max_def)
  have n4: "\<not> rv_term q2 < current_term n3" "votes_for q2 n3"
    using request_vote_frame [OF assms(6)] assms(7) by auto
  with k n2 assms(8) have "current_term n3 = rv_term q2" "voted_for n3 = Some (rv_candidate_id q1)"
    by (auto simp: keeps_vote_def)
  with n4(2) show ?thesis by (simp add: votes_for_def adopt_term_def)
qed

theorem one_vote_per_term_witness:
  "\<exists>n. request_vote (ballot 3) fresh_node = (Inr \<lparr>vr_term = 1, vr_granted = True\<rparr>, n)
    \<and> fst (request_vote (ballot 4) n) \<noteq> Inr \<lparr>vr_term = 1, vr_granted = True\<rparr>"
proof -
  obtain n where n: "request_vote (ballot 3) fresh_node = (Inr \<lparr>vr_term = 1, vr_granted = True\<rparr>, n)"
    using fresh_vote by blast
  have "fst (request_vote (ballot 4) n) \<noteq> Inr \<lparr>vr_term = 1, vr_granted = True\<rparr>"
  proof
    assume "fst (request_vote (ballot 4) n) = Inr \<lparr>vr_term = 1, vr_granted = True\<rparr>"
    then obtain n' where "request_vote (ballot 4) n = (Inr \<lparr>vr_term = 1, vr_granted = True\<rparr>, n')"
      by (metis prod.collapse)
    from one_vote_per_term [OF open_fresh_node rtranclp.rtrancl_refl n _ rtranclp.rtrancl_refl this] show False
      by (simp add: ballot_def)
  qed
  with n show ?thesis by blast
qed

text \<open>
  A late \<open>AppendEntries\<close> of the same term, whose entries the follower already has, cuts the log behind them,
  also below the commit index, and is answered with success; if the entries there were not yet applied, the
  next application panics.
\<close>

theorem late_append_drops_committed_entries:
  assumes "append_entries q n = (Inr v, n')" and "ae_term q = current_term n"
    and "ae_prev_log_index q + length (ae_entries q) < commit_index n" and "commit_index n \<le> length (rn_log n)"
    and "ae_prev_log_index q > 0 \<longrightarrow> e_term (rn_log n ! (ae_prev_log_index q - 1)) = ae_prev_log_term q"
    and "take (length (ae_entries q)) (drop (ae_prev_log_index q) (rn_log n)) = ae_entries q"
    and "ae_leader_commit q \<le> commit_index n"
  shows "ar_success v \<and> rn_log n' = take (ae_prev_log_index q + length (ae_entries q)) (rn_log n)
    \<and> commit_index n' = commit_index n \<and> length (rn_log n') < commit_index n'
    \<and> (last_applied n < commit_index n \<longrightarrow> take_applied n' = None)"
proof -
  have m: "log_matches q n" "\<not> ae_term q < current_term n" using assms by (simp_all add: log_matches_def)
  have new: "new_log q n = take (ae_prev_log_index q + length (ae_entries q)) (rn_log n)"
    using assms(6) by (simp add: new_log_def take_add)
  from append_entries_accepted [OF assms(1) m(2,1)] obtain w where n': "n' = (follow q n)\<lparr>rn_log := new_log q n,
      rn_wal := w, commit_index := new_commit q n\<rparr>" and v: "ar_success v" by auto
  have c: "new_commit q n = commit_index n" using assms(7) by (simp add: new_commit_def)
  have len: "length (new_log q n) < commit_index n" using assms(3,4) by (simp add: new)
  have "take_applied n' = None" if "last_applied n < commit_index n"
    unfolding take_applied_def by (rule take_applied_loop_panics) (use len that in \<open>simp_all add: n' c\<close>)
  with len show ?thesis using n' v new c by simp
qed

theorem late_append_drops_committed_entries_witness:
  "length (rn_log sample_node) = 2 \<and> take_applied sample_node \<noteq> None
    \<and> (\<exists>v n'. append_entries late_append sample_node = (Inr v, n') \<and> ar_success v \<and> length (rn_log n') = 1
         \<and> take_applied n' = None)"
proof -
  let ?n = "(follow late_append sample_node)\<lparr>rn_log := [sample_entry 1]\<rparr>"
  have "state_fits (state_of ?n)"
    by (simp add: state_fits_def state_of_def follow_def adopt_term_def sample_node_def late_append_def state_bytes_def
        fits_record_def entry_fits_def entry_bytes_def sample_entry_def)
  then obtain w where p: "persist ?n = (Inr (), ?n\<lparr>rn_wal := w\<rparr>)"
    using persist_ok [of ?n] by (auto simp: sample_node_def)
  have "append_entries late_append sample_node = (Inr \<lparr>ar_term = 1, ar_success = True, ar_match_index = 1\<rparr>, ?n\<lparr>rn_wal := w\<rparr>)"
    (is "_ = (Inr ?v, ?n')")
  proof -
    have "\<not> ae_term late_append < current_term sample_node" "log_matches late_append sample_node"
      by (simp_all add: late_append_def sample_node_def log_matches_def)
    moreover have "merge_entries (ae_entries late_append) (rn_log sample_node) (ae_prev_log_index late_append)
        (ae_term late_append > current_term sample_node) = ([sample_entry 1, sample_entry 1], 1, False)"
      by (simp add: late_append_def sample_node_def)
    moreover have "commit_index ?n = 2" "current_term ?n = 1" "ae_leader_commit late_append = 0"
      by (simp_all add: late_append_def sample_node_def follow_def adopt_term_def)
    ultimately show ?thesis
      using p by (simp add: append_entries_unfold and_then_def) (simp add: late_append_def)
  qed
  moreover from this have "length (rn_log ?n') = 1 \<and> take_applied ?n' = None"
    using late_append_drops_committed_entries [of late_append sample_node ?v ?n']
    by (simp add: late_append_def sample_node_def)
  moreover have "take_applied sample_node \<noteq> None"
    by (subst take_applied_eq) (simp_all add: sample_node_def)
  ultimately show ?thesis by (auto simp: sample_node_def)
qed

text \<open>
  A vote that was granted may not be on disk: if writing the state fails, the request is answered with an
  error but the vote stays in memory, and the repeated request is granted without another attempt to persist
  it; a restart then finds the old term and vote.
\<close>

theorem repeated_request_grants_unpersisted_vote:
  assumes "raft_open i None [] seed = Inr n0" and "durable_step\<^sup>*\<^sup>* n0 n"
    and "current_term n < rv_term q" and "up_to_date q n"
    and "request_vote q (n\<lparr>rn_wal := (rn_wal n)\<lparr>wal_faults := [Fault 0 e]\<rparr>\<rparr>) = (Inl err, n1)"
  shows "request_vote q n1 = (Inr \<lparr>vr_term = rv_term q, vr_granted = True\<rparr>, n1)
    \<and> (\<exists>m. raft_open i (Some (wal_bytes (rn_wal n1))) [] seed' = Inr m
         \<and> current_term m = current_term n \<and> voted_for m = voted_for n)"
proof -
  let ?w = "(rn_wal n)\<lparr>wal_faults := [Fault 0 e]\<rparr>"
  have disk: "on_disk n" using durable_steps [OF assms(2) on_disk_fresh [OF assms(1)]] by blast
  have v: "votes_for q (n\<lparr>rn_wal := ?w\<rparr>)"
    using assms(3,4) by (auto simp: votes_for_def adopt_term_def up_to_date_def last_log_index_def last_log_term_def split: if_splits)
  let ?m = "(adopt_term (rv_term q) (n\<lparr>rn_wal := ?w\<rparr>))\<lparr>voted_for := Some (rv_candidate_id q)\<rparr>"
  have nv: "voted_for (adopt_term (rv_term q) (n\<lparr>rn_wal := ?w\<rparr>)) = None" using assms(3) by (simp add: adopt_term_def)
  have "request_vote q (n\<lparr>rn_wal := ?w\<rparr>) = and_then persist
      (\<lambda>_ n'. (Inr \<lparr>vr_term = current_term n', vr_granted = True\<rparr>, n')) ?m"
    using assms(3) v nv by (subst request_vote_unfold) (auto simp: Let_def)
  then have n1: "persist ?m = (Inl err, n1)"
    using assms(5) by (auto simp: and_then_def split: prod.splits sum.splits)
  then have wb: "wal_bytes (rn_wal n1) = wal_bytes (rn_wal n)"
    by (auto simp: persist_def and_then_def append_record_def write_all_def next_outcome_def split: sum.splits prod.splits if_splits)
  from persist_frame [OF n1] obtain w where n1': "n1 = ?m\<lparr>rn_wal := w\<rparr>" by blast
  have "crash_image (rn_wal n) (wal_bytes (rn_wal n))"
    using disk by (auto simp: crash_image_def on_disk_def intro!: exI [of _ "length (wal_bytes (rn_wal n))"])
  from on_disk_open [OF disk this, of i seed'] wb
  have "\<exists>m. raft_open i (Some (wal_bytes (rn_wal n1))) [] seed' = Inr m
      \<and> current_term m = current_term n \<and> voted_for m = voted_for n" by (auto simp: state_of_def)
  moreover have "request_vote q n1 = (Inr \<lparr>vr_term = rv_term q, vr_granted = True\<rparr>, n1)"
  proof -
    have "current_term n1 = rv_term q" "voted_for n1 = Some (rv_candidate_id q)" "up_to_date q n1"
      using assms(3,4) by (auto simp: n1' adopt_term_def up_to_date_def last_log_index_def last_log_term_def split: if_splits)
    then show ?thesis by (simp add: request_vote_def and_then_def)
  qed
  ultimately show ?thesis by blast
qed

theorem repeated_request_grants_unpersisted_vote_witness:
  "let n1 = snd (request_vote (ballot 3) (fresh_node\<lparr>rn_wal := (rn_wal fresh_node)\<lparr>wal_faults := [Fault 0 (invalid_data ''disk'')]\<rparr>\<rparr>))
   in request_vote (ballot 3) n1 = (Inr \<lparr>vr_term = 1, vr_granted = True\<rparr>, n1)
     \<and> (\<exists>m. raft_open 1 (Some (wal_bytes (rn_wal n1))) [] 0 = Inr m \<and> voted_for m = None)"
proof -
  let ?n = "fresh_node\<lparr>rn_wal := (rn_wal fresh_node)\<lparr>wal_faults := [Fault 0 (invalid_data ''disk'')]\<rparr>\<rparr>"
  define n1 where "n1 = snd (request_vote (ballot 3) ?n)"
  have fits: "length (state_bytes \<lparr>ps_term = 1, ps_vote = Some 3, ps_log = []\<rparr>) < 4294967296"
    by (simp add: state_bytes_def)
  have enc: "state_encode \<lparr>ps_term = 1, ps_vote = Some 3, ps_log = []\<rparr> = Inr (state_bytes \<lparr>ps_term = 1, ps_vote = Some 3, ps_log = []\<rparr>)"
    by (simp add: state_encode_Inr)
  have "request_vote (ballot 3) ?n = (Inl (invalid_data ''disk''), n1)"
    by (simp add: n1_def request_vote_def ballot_def fresh_node_def up_to_date_def last_log_term_def last_log_index_def
        and_then_def persist_def enc append_record_def fits write_all_def next_outcome_def)
  from repeated_request_grants_unpersisted_vote [OF open_fresh_node rtranclp.rtrancl_refl _ _ this, of 0]
  show ?thesis
    by (simp add: n1_def [symmetric] Let_def) (auto simp: ballot_def fresh_node_def up_to_date_def last_log_term_def last_log_index_def)
qed

end
