(* ===== verification/Raft_Transport.thy ===== *)
theory Raft_Transport
  imports Nut_Prelude
begin

text \<open>
  The transports of \<open>src/src/raft/transport.rs\<close>: the controllable in-memory network, and the length-prefixed
  frame that the TCP transport writes and reads. A socket is the sequence of bytes still to be read from it.
\<close>

section \<open>The in-memory network\<close>

record message =
  msg_from :: u64
  msg_to :: u64
  msg_payload :: bytes

record in_memory_transport =
  blocked :: "(u64 \<times> u64) set"
  queue :: "message list"

definition empty_transport :: in_memory_transport where
  "empty_transport = \<lparr>blocked = {}, queue = []\<rparr>"

definition reachable :: "u64 \<Rightarrow> u64 \<Rightarrow> in_memory_transport \<Rightarrow> bool" where
  "reachable from to t \<longleftrightarrow> (from, to) \<notin> blocked t"

definition partition_link :: "u64 \<Rightarrow> u64 \<Rightarrow> in_memory_transport \<Rightarrow> in_memory_transport" where
  "partition_link a b t = t\<lparr>blocked := insert (b, a) (insert (a, b) (blocked t))\<rparr>"

definition heal :: "u64 \<Rightarrow> u64 \<Rightarrow> in_memory_transport \<Rightarrow> in_memory_transport" where
  "heal a b t = t\<lparr>blocked := blocked t - {(a, b)} - {(b, a)}\<rparr>"

definition heal_all :: "in_memory_transport \<Rightarrow> in_memory_transport" where
  "heal_all t = t\<lparr>blocked := {}\<rparr>"

definition send :: "message \<Rightarrow> in_memory_transport \<Rightarrow> bool \<times> in_memory_transport" where
  "send m t =
    (if \<not> reachable (msg_from m) (msg_to m) t then (False, t)
     else (True, t\<lparr>queue := queue t @ [m]\<rparr>))"

definition deliver_next :: "in_memory_transport \<Rightarrow> message option \<times> in_memory_transport" where
  "deliver_next t = (case queue t of [] \<Rightarrow> (None, t) | m # q \<Rightarrow> (Some m, t\<lparr>queue := q\<rparr>))"

definition deliver_last :: "in_memory_transport \<Rightarrow> message option \<times> in_memory_transport" where
  "deliver_last t =
    (if queue t = [] then (None, t) else (Some (last (queue t)), t\<lparr>queue := butlast (queue t)\<rparr>))"

definition drop_next :: "in_memory_transport \<Rightarrow> message option \<times> in_memory_transport" where
  "drop_next t = (case queue t of [] \<Rightarrow> (None, t) | m # q \<Rightarrow> (Some m, t\<lparr>queue := q\<rparr>))"

section \<open>Frames\<close>

definition MAX_FRAME :: nat where
  "MAX_FRAME = 16 * 1024 * 1024"

definition be_bytes_u32 :: "u32 \<Rightarrow> bytes" where
  "be_bytes_u32 w = rev (le_bytes 4 w)"

definition of_be_bytes_u32 :: "bytes \<Rightarrow> u32" where
  "of_be_bytes_u32 bs = of_le_bytes (rev bs)"

text \<open>\<open>write_frame\<close> appends to what the writer has already taken; the writer itself does not fail.\<close>

definition write_frame :: "bytes \<Rightarrow> bytes \<Rightarrow> bytes io_result" where
  "write_frame payload out =
    (if \<not> length payload < 2 ^ 32 then Inl (IoError InvalidInput ''raft: frame too large'')
     else if length payload > MAX_FRAME then Inl (IoError InvalidInput ''raft: frame exceeds limit'')
     else Inr (out @ be_bytes_u32 (of_nat (length payload)) @ payload))"

definition read_exact :: "nat \<Rightarrow> bytes \<Rightarrow> io_error + bytes \<times> bytes" where
  "read_exact n input =
    (if n \<le> length input then Inr (take n input, drop n input)
     else Inl (IoError UnexpectedEof ''failed to fill whole buffer''))"

definition read_frame :: "bytes \<Rightarrow> io_error + bytes \<times> bytes" where
  "read_frame input = rbind (read_exact 4 input) (\<lambda>(header, rest).
     let len = unat (of_be_bytes_u32 header) in
     if len > MAX_FRAME then Inl (IoError InvalidData ''raft: incoming frame exceeds limit'')
     else read_exact len rest)"

section \<open>Properties\<close>

text \<open>
  Frames round trip on a stream: what is read is exactly a payload that the other side wrote, up to the
  16 MiB limit, together with the rest of the stream; nothing else is accepted.
\<close>

theorem read_frame_inverts_write_frame:
  "read_frame input = Inr (payload, rest) \<longleftrightarrow> (\<exists>out. write_frame payload [] = Inr out \<and> input = out @ rest)"
proof
  assume r: "read_frame input = Inr (payload, rest)"
  define len where "len = unat (of_be_bytes_u32 (take 4 input))"
  from r have l: "4 \<le> length input" "len \<le> MAX_FRAME" "len \<le> length (drop 4 input)"
    "payload = take len (drop 4 input)" "rest = drop len (drop 4 input)"
    by (auto simp: read_frame_def read_exact_def Let_def len_def split: if_splits)
  have "of_le_bytes (rev (take 4 input)) = (of_nat len :: u32)"
    by (simp add: len_def of_be_bytes_u32_def)
  then have "rev (take 4 input) = le_bytes 4 (of_nat len :: u32)"
    using le_bytes_inverse [of "rev (take 4 input)", where 'a = 32] l(1) by simp
  then have "take 4 input = be_bytes_u32 (of_nat len)"
    by (simp add: be_bytes_u32_def rev_swap)
  moreover have "input = take 4 input @ payload @ rest" by (simp only: l(4,5) append_take_drop_id)
  moreover have "length payload = len" using l by simp
  ultimately show "\<exists>out. write_frame payload [] = Inr out \<and> input = out @ rest"
    using l(2) by (auto simp: write_frame_def MAX_FRAME_def)
next
  assume "\<exists>out. write_frame payload [] = Inr out \<and> input = out @ rest"
  then have "length payload \<le> MAX_FRAME" "input = be_bytes_u32 (of_nat (length payload)) @ payload @ rest"
    by (auto simp: write_frame_def split: if_splits)
  then show "read_frame input = Inr (payload, rest)"
    by (auto simp: read_frame_def read_exact_def be_bytes_u32_def of_be_bytes_u32_def Let_def MAX_FRAME_def)
qed

end
