(* ===== verification/Raft_Cluster.thy ===== *)
theory Raft_Cluster
  imports Raft_Node Raft_Transport
begin

text \<open>
  The cluster of \<open>src/src/raft/mod.rs\<close>: the nodes, the network between them and the commands each node has
  applied. A call of \<open>expect\<close> on a missing node, indexing the node map with an unknown id and indexing past
  the end of a log are panics.
\<close>

record raft_cluster =
  cl_nodes :: "(u64, raft_node) bmap"
  cl_transport :: in_memory_transport
  cl_stopped :: "u64 set"
  cl_applied :: "(u64, bytes list) bmap"

datatype cluster_error = Err io_error | Panic

type_synonym 'a cluster_eff = "(raft_cluster, cluster_error, 'a) eff"

text \<open>The files of the nodes and the faults of their disks are given per node.\<close>

fun open_nodes :: "(u64 \<Rightarrow> bytes option) \<Rightarrow> (u64 \<Rightarrow> io_outcome list) \<Rightarrow> u64 \<Rightarrow> u64 list \<Rightarrow>
    (u64, raft_node) bmap \<Rightarrow> (u64, bytes list) bmap \<Rightarrow> ((u64, raft_node) bmap \<times> (u64, bytes list) bmap) io_result" where
  "open_nodes files faults seed [] nodes applied = Inr (nodes, applied)"
| "open_nodes files faults seed (i # ids) nodes applied =
    rbind (raft_open i (files i) (faults i) seed) (\<lambda>node.
      open_nodes files faults seed ids (bm_insert i node nodes) (bm_insert i [] applied))"

definition cluster_open :: "(u64 \<Rightarrow> bytes option) \<Rightarrow> (u64 \<Rightarrow> io_outcome list) \<Rightarrow> u64 list \<Rightarrow> u64 \<Rightarrow> raft_cluster io_result" where
  "cluster_open files faults ids seed =
    rbind (open_nodes files faults seed ids [] []) (\<lambda>(nodes, applied).
      Inr \<lparr>cl_nodes = nodes, cl_transport = empty_transport, cl_stopped = {}, cl_applied = applied\<rparr>)"

definition leader_of :: "raft_cluster \<Rightarrow> u64 option" where
  "leader_of x = map_option fst (find (\<lambda>(i, node). i \<notin> cl_stopped x \<and> rn_role node = Leader) (cl_nodes x))"

text \<open>An operation on one node, given what a missing node means.\<close>

definition on_node :: "cluster_error \<Rightarrow> u64 \<Rightarrow> (raft_node, io_error, 'a) eff \<Rightarrow> 'a cluster_eff" where
  "on_node missing i f x = (case bm_get (cl_nodes x) i of
     None \<Rightarrow> (Inl missing, x)
   | Some node \<Rightarrow> (case f node of (r, node') \<Rightarrow> (map_err Err r, x\<lparr>cl_nodes := bm_insert i node' (cl_nodes x)\<rparr>)))"

definition unknown_node :: "string \<Rightarrow> cluster_error" where
  "unknown_node message = Err (invalid_input message)"

text \<open>The loop over the peers; \<open>None\<close> is the early return after a higher term.\<close>

fun elect_loop :: "RequestVote \<Rightarrow> u64 \<Rightarrow> u64 list \<Rightarrow> nat \<Rightarrow> nat option cluster_eff" where
  "elect_loop request candidate [] votes x = (Inr (Some votes), x)"
| "elect_loop request candidate (peer # ids) votes x =
    (if peer = candidate \<or> peer \<in> cl_stopped x \<or> \<not> reachable candidate peer (cl_transport x)
        \<or> \<not> reachable peer candidate (cl_transport x)
     then elect_loop request candidate ids votes x
     else and_then (on_node Panic peer (request_vote request)) (\<lambda>response.
       if vr_term response > rv_term request
       then and_then (on_node Panic candidate (observe_term (vr_term response))) (\<lambda>_ x. (Inr None, x))
       else elect_loop request candidate ids (if vr_granted response then votes + 1 else votes)) x)"

definition elect :: "u64 \<Rightarrow> bool cluster_eff" where
  "elect candidate x =
    (if candidate \<in> cl_stopped x then (Inr False, x)
     else and_then (on_node (unknown_node ''raft: unknown candidate'') candidate start_election) (\<lambda>request x.
       and_then (elect_loop request candidate (bm_keys (cl_nodes x)) 1) (\<lambda>votes x.
         case votes of
           None \<Rightarrow> (Inr False, x)
         | Some votes \<Rightarrow>
            if votes * 2 > length (cl_nodes x)
            then and_then (on_node Panic candidate (\<lambda>n. (Inr (), become_leader n))) (\<lambda>_ x. (Inr True, x)) x
            else (Inr False, x)) x) x)"

text \<open>\<open>min_by_key\<close> returns the first of the least elements.\<close>

fun min_by_key :: "('a \<Rightarrow> 'k::linorder) \<Rightarrow> 'a list \<Rightarrow> 'a option" where
  "min_by_key f [] = None"
| "min_by_key f (y # ys) = (case min_by_key f ys of
     None \<Rightarrow> Some y
   | Some z \<Rightarrow> Some (if f y \<le> f z then y else z))"

definition elect_by_timeout :: "u64 option cluster_eff" where
  "elect_by_timeout x =
    (case map_option fst (min_by_key (\<lambda>(i, node). election_timeout_ms node)
            (filter (\<lambda>(i, node). i \<notin> cl_stopped x) (cl_nodes x))) of
       Some i \<Rightarrow> and_then (elect i) (\<lambda>won x. (Inr (if won then Some i else None), x)) x
     | None \<Rightarrow> (Inr None, x))"

text \<open>The attempts with one follower, from the longest shared prefix down; \<open>None\<close> when all were refused.\<close>

fun replicate_to :: "u64 \<Rightarrow> u64 \<Rightarrow> entry list \<Rightarrow> nat \<Rightarrow> u64 \<Rightarrow> nat list \<Rightarrow> nat option cluster_eff" where
  "replicate_to leader term leader_log leader_commit follower [] x = (Inr None, x)"
| "replicate_to leader term leader_log leader_commit follower (prev # prevs) x =
    (let request = \<lparr>ae_term = term, ae_leader_id = leader, ae_prev_log_index = prev,
           ae_prev_log_term = (if prev = 0 then 0 else e_term (leader_log ! (prev - 1))),
           ae_entries = drop prev leader_log, ae_leader_commit = leader_commit\<rparr>
     in and_then (on_node Panic follower (append_entries request)) (\<lambda>response.
       if ar_term response > term
       then and_then (on_node Panic leader (observe_term (ar_term response))) (\<lambda>_ x.
         (Inl (Err (IoError WouldBlock ''raft: leader observed a higher term'')), x))
       else if ar_success response then (\<lambda>x. (Inr (Some (ar_match_index response)), x))
       else replicate_to leader term leader_log leader_commit follower prevs) x)"

fun replicate_loop :: "u64 \<Rightarrow> u64 \<Rightarrow> entry list \<Rightarrow> nat \<Rightarrow> u64 list \<Rightarrow> nat list \<Rightarrow> nat list cluster_eff" where
  "replicate_loop leader term leader_log leader_commit [] matched x = (Inr matched, x)"
| "replicate_loop leader term leader_log leader_commit (follower # ids) matched x =
    (if follower = leader then replicate_loop leader term leader_log leader_commit ids matched x
     else if follower \<in> cl_stopped x \<or> \<not> reachable leader follower (cl_transport x)
     then replicate_loop leader term leader_log leader_commit ids (matched @ [0]) x
     else and_then (replicate_to leader term leader_log leader_commit follower (rev [0 ..< length leader_log + 1]))
       (\<lambda>m. replicate_loop leader term leader_log leader_commit ids
          (matched @ [case m of Some index \<Rightarrow> index | None \<Rightarrow> 0])) x)"

fun publish_loop :: "u64 \<Rightarrow> u64 \<Rightarrow> entry list \<Rightarrow> nat \<Rightarrow> u64 list \<Rightarrow> unit cluster_eff" where
  "publish_loop leader term leader_log commit [] x = (Inr (), x)"
| "publish_loop leader term leader_log commit (follower # ids) x =
    (if follower = leader \<or> follower \<in> cl_stopped x \<or> \<not> reachable leader follower (cl_transport x)
     then publish_loop leader term leader_log commit ids x
     else (case bm_get (cl_nodes x) follower of
       None \<Rightarrow> (Inl Panic, x)
     | Some node \<Rightarrow>
        (let follower_len = last_log_index node in
         if follower_len > length leader_log then (Inl Panic, x)
         else and_then (on_node Panic follower (append_entries
             \<lparr>ae_term = term, ae_leader_id = leader, ae_prev_log_index = follower_len,
              ae_prev_log_term = (if follower_len = 0 then 0 else e_term (leader_log ! (follower_len - 1))),
              ae_entries = [], ae_leader_commit = commit\<rparr>))
           (\<lambda>_. publish_loop leader term leader_log commit ids) x)))"

fun apply_loop :: "u64 list \<Rightarrow> unit cluster_eff" where
  "apply_loop [] x = (Inr (), x)"
| "apply_loop (i # ids) x = (case (bm_get (cl_nodes x) i, bm_get (cl_applied x) i) of
     (Some node, Some commands) \<Rightarrow> (case take_applied node of
        None \<Rightarrow> (Inl Panic, x)
      | Some (entries, node') \<Rightarrow>
         apply_loop ids (x\<lparr>cl_nodes := bm_insert i node' (cl_nodes x),
           cl_applied := bm_insert i (commands @ map e_command entries) (cl_applied x)\<rparr>))
   | _ \<Rightarrow> (Inl Panic, x))"

definition apply_all :: "unit cluster_eff" where
  "apply_all x = apply_loop (bm_keys (cl_nodes x)) x"

definition replicate_existing :: "u64 \<Rightarrow> nat cluster_eff" where
  "replicate_existing leader x = (case bm_get (cl_nodes x) leader of
     None \<Rightarrow> (Inl Panic, x)
   | Some node \<Rightarrow>
      (let term = current_term node; leader_log = rn_log node; leader_commit = commit_index node in
       and_then (replicate_loop leader term leader_log leader_commit (bm_keys (cl_nodes x)) []) (\<lambda>matched.
       and_then (on_node Panic leader (\<lambda>n. case advance_commit matched n of (c, n') \<Rightarrow> (Inr c, n'))) (\<lambda>commit x.
       and_then (publish_loop leader term leader_log commit (bm_keys (cl_nodes x))) (\<lambda>_.
       and_then apply_all (\<lambda>_ x. (Inr commit, x))) x)) x))"

definition replicate_command :: "u64 \<Rightarrow> bytes \<Rightarrow> nat cluster_eff" where
  "replicate_command leader command x =
    (if leader \<in> cl_stopped x then (Inl (Err (IoError NotConnected ''raft: node stopped'')), x)
     else and_then (on_node (unknown_node ''raft: unknown leader'') leader (append_as_leader command)) (\<lambda>index.
       and_then (replicate_existing leader) (\<lambda>_ x.
         case bm_get (cl_nodes x) leader of
           None \<Rightarrow> (Inl Panic, x)
         | Some node \<Rightarrow>
            if commit_index node < index
            then (Inl (Err (IoError WouldBlock ''raft: entry did not reach a majority'')), x)
            else (Inr index, x))) x)"

definition synchronize :: "u64 \<Rightarrow> unit cluster_eff" where
  "synchronize leader = and_then (replicate_existing leader) (\<lambda>_ x. (Inr (), x))"

definition partition_nodes :: "u64 \<Rightarrow> u64 \<Rightarrow> raft_cluster \<Rightarrow> raft_cluster" where
  "partition_nodes a b x = x\<lparr>cl_transport := partition_link a b (cl_transport x)\<rparr>"

definition isolate :: "u64 \<Rightarrow> raft_cluster \<Rightarrow> raft_cluster" where
  "isolate node x = foldl (\<lambda>x peer. if peer \<noteq> node then x\<lparr>cl_transport := partition_link node peer (cl_transport x)\<rparr> else x)
    x (bm_keys (cl_nodes x))"

definition cluster_heal_all :: "raft_cluster \<Rightarrow> raft_cluster" where
  "cluster_heal_all x = x\<lparr>cl_transport := heal_all (cl_transport x)\<rparr>"

definition stop_node :: "u64 \<Rightarrow> raft_cluster \<Rightarrow> raft_cluster" where
  "stop_node node x = x\<lparr>cl_stopped := insert node (cl_stopped x)\<rparr>"

definition start_node :: "u64 \<Rightarrow> raft_cluster \<Rightarrow> raft_cluster" where
  "start_node node x = x\<lparr>cl_stopped := cl_stopped x - {node}\<rparr>"

end
