(* ===== verification/Raft_Safety.thy ===== *)
theory Raft_Safety
  imports Raft_Node
begin

text \<open>
  The safety argument for the cluster, on the in-memory state of its nodes. The history of the protocol is kept
  in auxiliary variables: who was elected in which term, the log of the leader of each term, and which indices
  have been committed in which term. The invariant relates them to the nodes; each atomic change of one node
  that the code makes preserves it.
\<close>

section \<open>Quorums\<close>

locale quorum_system =
  fixes quorum :: "'a set \<Rightarrow> bool"
  assumes meet: "quorum P \<Longrightarrow> quorum Q \<Longrightarrow> P \<inter> Q \<noteq> {}"
begin

text \<open>What all members of one quorum and all members of another have, some node has.\<close>

lemma common_member:
  assumes "quorum P" and "\<And>n. n \<in> P \<Longrightarrow> A n" and "quorum Q" and "\<And>n. n \<in> Q \<Longrightarrow> B n"
  obtains n where "n \<in> P" and "n \<in> Q" and "A n" and "B n"
  using meet [OF assms(1,3)] assms(2,4) by blast

end

definition majority :: "'a set \<Rightarrow> 'a set \<Rightarrow> bool" where
  "majority M Q \<longleftrightarrow> finite M \<and> Q \<subseteq> M \<and> card M < 2 * card Q"

interpretation majority: quorum_system "majority M" for M
proof
  fix P Q
  assume P: "majority M P" and Q: "majority M Q"
  show "P \<inter> Q \<noteq> {}"
  proof
    assume "P \<inter> Q = {}"
    moreover have "finite P" "finite Q" "P \<union> Q \<subseteq> M" "finite M"
      using P Q by (auto simp: majority_def intro: finite_subset)
    ultimately have "card P + card Q \<le> card M"
      by (metis card_Un_disjoint card_mono)
    with P Q show False by (auto simp: majority_def)
  qed
qed

section \<open>The invariant\<close>

record history =
  lead :: "u64 \<Rightarrow> u64 option"
  llog :: "u64 \<Rightarrow> entry list"
  comm :: "(u64 \<times> nat) set"

type_synonym nodes = "u64 \<Rightarrow> raft_node"

definition votes_inv :: "u64 set \<Rightarrow> nodes \<Rightarrow> history \<Rightarrow> bool" where
  "votes_inv M N g \<longleftrightarrow> (\<forall>t l. lead g t = Some l \<longrightarrow> l \<in> M \<and> t \<le> current_term (N l)
    \<and> (\<exists>Q. majority M Q \<and> (\<forall>n \<in> Q. t \<le> current_term (N n) \<and> (current_term (N n) = t \<longrightarrow> voted_for (N n) = Some l))))"

definition leaders_inv :: "u64 set \<Rightarrow> nodes \<Rightarrow> history \<Rightarrow> bool" where
  "leaders_inv M N g \<longleftrightarrow> (\<forall>n \<in> M. rn_role (N n) = Leader \<longrightarrow>
    lead g (current_term (N n)) = Some n \<and> llog g (current_term (N n)) = rn_log (N n))"

text \<open>Every entry was created by the leader of its term and comes with the whole prefix of that leader's log.\<close>

definition backed :: "history \<Rightarrow> u64 \<Rightarrow> entry list \<Rightarrow> bool" where
  "backed g t log \<longleftrightarrow> (\<forall>i < length log. e_term (log ! i) \<le> t \<and> lead g (e_term (log ! i)) \<noteq> None
    \<and> i < length (llog g (e_term (log ! i))) \<and> take (Suc i) log = take (Suc i) (llog g (e_term (log ! i))))"

definition logs_inv :: "u64 set \<Rightarrow> nodes \<Rightarrow> history \<Rightarrow> bool" where
  "logs_inv M N g \<longleftrightarrow> (\<forall>n \<in> M. backed g (current_term (N n)) (rn_log (N n)))
    \<and> (\<forall>t. lead g t \<noteq> None \<longrightarrow> backed g t (llog g t))"

definition comm_inv :: "u64 set \<Rightarrow> nodes \<Rightarrow> history \<Rightarrow> bool" where
  "comm_inv M N g \<longleftrightarrow> (\<forall>t i. (t, i) \<in> comm g \<longrightarrow> lead g t \<noteq> None \<and> 0 < i \<and> i \<le> length (llog g t)
    \<and> e_term (llog g t ! (i - 1)) = t
    \<and> (\<exists>Q. majority M Q \<and> (\<forall>n \<in> Q. t \<le> current_term (N n) \<and> take i (rn_log (N n)) = take i (llog g t)))
    \<and> (\<forall>t' \<ge> t. lead g t' \<noteq> None \<longrightarrow> take i (llog g t') = take i (llog g t)))"

definition covered :: "history \<Rightarrow> u64 \<Rightarrow> nat \<Rightarrow> entry list \<Rightarrow> bool" where
  "covered g t c log \<longleftrightarrow> c = 0 \<or> (\<exists>t' i. (t', i) \<in> comm g \<and> c \<le> i \<and> t' \<le> t \<and> take c log = take c (llog g t'))"

definition index_inv :: "u64 set \<Rightarrow> nodes \<Rightarrow> history \<Rightarrow> bool" where
  "index_inv M N g \<longleftrightarrow> (\<forall>n \<in> M. last_applied (N n) \<le> commit_index (N n)
    \<and> covered g (current_term (N n)) (commit_index (N n)) (rn_log (N n)))"

definition raft_inv :: "u64 set \<Rightarrow> nodes \<Rightarrow> history \<Rightarrow> bool" where
  "raft_inv M N g \<longleftrightarrow> votes_inv M N g \<and> leaders_inv M N g \<and> logs_inv M N g \<and> comm_inv M N g \<and> index_inv M N g"

lemma raft_invD:
  assumes "raft_inv M N g"
  shows "votes_inv M N g" and "leaders_inv M N g" and "logs_inv M N g" and "comm_inv M N g" and "index_inv M N g"
  using assms by (simp_all add: raft_inv_def)

lemma backed_mono: "backed g t log \<Longrightarrow> t \<le> t' \<Longrightarrow> backed g t' log"
  by (auto simp: backed_def intro: order_trans)

lemma backed_log: "raft_inv M N g \<Longrightarrow> n \<in> M \<Longrightarrow> backed g (current_term (N n)) (rn_log (N n))"
  and backed_llog: "raft_inv M N g \<Longrightarrow> lead g t \<noteq> None \<Longrightarrow> backed g t (llog g t)"
  by (auto simp: raft_inv_def logs_inv_def)

lemma leader_log: "raft_inv M N g \<Longrightarrow> n \<in> M \<Longrightarrow> rn_role (N n) = Leader \<Longrightarrow>
    lead g (current_term (N n)) = Some n \<and> llog g (current_term (N n)) = rn_log (N n)"
  by (auto simp: raft_inv_def leaders_inv_def)

lemma comm_facts:
  assumes "raft_inv M N g" and "(t, i) \<in> comm g"
  shows "lead g t \<noteq> None" and "0 < i" and "i \<le> length (llog g t)" and "e_term (llog g t ! (i - 1)) = t"
    and "t \<le> t' \<Longrightarrow> lead g t' \<noteq> None \<Longrightarrow> take i (llog g t') = take i (llog g t)"
  using raft_invD(4) [OF assms(1), unfolded comm_inv_def, rule_format, OF assms(2)] by blast+

lemma comm_quorum:
  assumes "raft_inv M N g" and "(t, i) \<in> comm g"
  obtains Q where "majority M Q" and "\<And>n. n \<in> Q \<Longrightarrow> t \<le> current_term (N n) \<and> take i (rn_log (N n)) = take i (llog g t)"
  using raft_invD(4) [OF assms(1), unfolded comm_inv_def, rule_format, OF assms(2)] by blast

lemma lead_quorum:
  assumes "raft_inv M N g" and "lead g t = Some l"
  obtains Q where "majority M Q"
    and "\<And>n. n \<in> Q \<Longrightarrow> t \<le> current_term (N n) \<and> (current_term (N n) = t \<longrightarrow> voted_for (N n) = Some l)"
  using raft_invD(1) [OF assms(1), unfolded votes_inv_def, rule_format, OF assms(2)] by blast

lemma lead_member: "raft_inv M N g \<Longrightarrow> lead g t = Some l \<Longrightarrow> l \<in> M \<and> t \<le> current_term (N l)"
  by (simp add: raft_inv_def votes_inv_def)

text \<open>Terms do not decrease along a log, and a committed prefix is in every log of a later leader.\<close>

lemma backed_sorted:
  assumes "raft_inv M N g" and "backed g t log" and "i \<le> j" and "j < length log"
  shows "e_term (log ! i) \<le> e_term (log ! j)"
proof -
  let ?t = "e_term (log ! j)"
  from assms(2,4) have j: "lead g ?t \<noteq> None" "j < length (llog g ?t)" "take (Suc j) log = take (Suc j) (llog g ?t)"
    by (auto simp: backed_def)
  have "log ! i = llog g ?t ! i"
    using j(3) assms(3) by (metis le_imp_less_Suc nth_take)
  moreover have "e_term (llog g ?t ! i) \<le> ?t"
    using backed_llog [OF assms(1) j(1)] j(2) assms(3) by (auto simp: backed_def)
  ultimately show ?thesis by simp
qed

lemma covered_leader:
  assumes "raft_inv M N g" and "covered g t c log" and "t \<le> t'" and "lead g t' \<noteq> None"
  shows "take c log = take c (llog g t') \<and> c \<le> length (llog g t')"
proof (cases "c = 0")
  case False
  with assms(2) obtain t0 i where c: "(t0, i) \<in> comm g" "c \<le> i" "t0 \<le> t" "take c log = take c (llog g t0)"
    by (auto simp: covered_def)
  note f = comm_facts [OF assms(1) c(1)]
  have "take i (llog g t') = take i (llog g t0)" using f(5) assms(3,4) c(3) by force
  then have "take c (llog g t') = take c (llog g t0)" using c(2) by (metis min.absorb1 take_take)
  moreover from this have "c \<le> length (llog g t')"
    using f(3) c(2) by (metis length_take min.absorb_iff2 order_trans)
  ultimately show ?thesis using c(4) by simp
qed simp

lemma covered_length:
  assumes "raft_inv M N g" and "covered g t c log"
  shows "c \<le> length log"
proof (cases "c = 0")
  case False
  with assms(2) obtain t0 i where c: "(t0, i) \<in> comm g" "c \<le> i" "take c log = take c (llog g t0)"
    by (auto simp: covered_def)
  with comm_facts(3) [OF assms(1) c(1)] show ?thesis
    by (metis length_take min.absorb_iff2 order_trans)
qed simp

lemma covered_mono: "covered g t c log \<Longrightarrow> t \<le> t' \<Longrightarrow> covered g t' c log"
  by (fastforce simp: covered_def)

section \<open>Changes of one node\<close>

text \<open>
  A node may adopt a newer term, vote if it has not, or give up leadership; its log and its indices stay.
\<close>

definition votes_kept :: "raft_node \<Rightarrow> raft_node \<Rightarrow> bool" where
  "votes_kept n m \<longleftrightarrow> current_term n \<le> current_term m
    \<and> (current_term m = current_term n \<longrightarrow> voted_for n = None \<or> voted_for m = voted_for n)"

lemma votes_inv_update:
  assumes "votes_inv M N g" and "votes_kept (N n) m"
  shows "votes_inv M (N(n := m)) g"
  unfolding votes_inv_def
proof (intro allI impI)
  fix t l
  assume "lead g t = Some l"
  from assms(1) [unfolded votes_inv_def, rule_format, OF this]
  obtain Q where l: "l \<in> M" "t \<le> current_term (N l)" "majority M Q"
    and Q: "\<forall>n \<in> Q. t \<le> current_term (N n) \<and> (current_term (N n) = t \<longrightarrow> voted_for (N n) = Some l)" by blast
  have "\<forall>k \<in> Q. t \<le> current_term ((N(n := m)) k) \<and> (current_term ((N(n := m)) k) = t \<longrightarrow> voted_for ((N(n := m)) k) = Some l)"
    using Q assms(2) by (fastforce simp: votes_kept_def)
  moreover have "t \<le> current_term ((N(n := m)) l)" using l(2) assms(2) by (auto simp: votes_kept_def)
  ultimately show "l \<in> M \<and> t \<le> current_term ((N(n := m)) l) \<and> (\<exists>Q. majority M Q \<and>
      (\<forall>k \<in> Q. t \<le> current_term ((N(n := m)) k) \<and> (current_term ((N(n := m)) k) = t \<longrightarrow> voted_for ((N(n := m)) k) = Some l)))"
    using l(1,3) by blast
qed

lemma raft_inv_quiet:
  assumes "raft_inv M N g" and "votes_kept (N n) m" and "rn_log m = rn_log (N n)"
    and "commit_index m = commit_index (N n)" and "last_applied m = last_applied (N n)"
    and "rn_role m = Leader \<longrightarrow> rn_role (N n) = Leader \<and> current_term m = current_term (N n)"
  shows "raft_inv M (N(n := m)) g"
proof -
  have tm: "current_term (N n) \<le> current_term m" using assms(2) by (simp add: votes_kept_def)
  note inv = raft_invD [OF assms(1)]
  have "leaders_inv M (N(n := m)) g" using inv(2) assms(3,6) by (simp add: leaders_inv_def)
  moreover have "logs_inv M (N(n := m)) g"
    using inv(3) assms(3) tm by (auto simp: logs_inv_def intro: backed_mono)
  moreover have "comm_inv M (N(n := m)) g"
    unfolding comm_inv_def
  proof (intro allI impI)
    fix t i
    assume c: "(t, i) \<in> comm g"
    obtain Q where Q: "majority M Q" "\<And>k. k \<in> Q \<Longrightarrow> t \<le> current_term (N k) \<and> take i (rn_log (N k)) = take i (llog g t)"
      using comm_quorum [OF assms(1) c] by blast
    have "\<forall>k \<in> Q. t \<le> current_term ((N(n := m)) k) \<and> take i (rn_log ((N(n := m)) k)) = take i (llog g t)"
      using Q(2) assms(3) tm by (auto intro: order_trans)
    with Q(1) comm_facts [OF assms(1) c]
    show "lead g t \<noteq> None \<and> 0 < i \<and> i \<le> length (llog g t) \<and> e_term (llog g t ! (i - 1)) = t
      \<and> (\<exists>Q. majority M Q \<and> (\<forall>k \<in> Q. t \<le> current_term ((N(n := m)) k) \<and> take i (rn_log ((N(n := m)) k)) = take i (llog g t)))
      \<and> (\<forall>t' \<ge> t. lead g t' \<noteq> None \<longrightarrow> take i (llog g t') = take i (llog g t))" by blast
  qed
  moreover have "index_inv M (N(n := m)) g"
    using inv(5) assms(3-5) tm by (auto simp: index_inv_def intro: covered_mono)
  ultimately show ?thesis using votes_inv_update [OF inv(1) assms(2)] by (simp add: raft_inv_def)
qed

text \<open>A follower takes over the whole log of the leader of its term, and at most the leader's commit index.\<close>

lemma raft_inv_overwrite:
  assumes "raft_inv M N g" and "l \<in> M" and "f \<in> M" and "rn_role (N l) = Leader"
    and "votes_kept (N f) m" and "current_term m = current_term (N l)" and "rn_log m = rn_log (N l)"
    and "rn_role m \<noteq> Leader" and "last_applied m = last_applied (N f)"
    and "commit_index m = commit_index (N f)
      \<or> commit_index (N f) < c \<and> c \<le> commit_index (N l) \<and> commit_index m = min c (length (rn_log (N l)))"
  shows "raft_inv M (N(f := m)) g"
proof -
  let ?t = "current_term (N l)"
  have ld: "lead g ?t \<noteq> None" "llog g ?t = rn_log (N l)" using leader_log [OF assms(1,2,4)] by simp_all
  have tm: "current_term (N f) \<le> ?t" using assms(5,6) by (simp add: votes_kept_def)
  note inv = raft_invD [OF assms(1)]
  have "leaders_inv M (N(f := m)) g" using inv(2) assms(8) by (simp add: leaders_inv_def)
  moreover have "logs_inv M (N(f := m)) g"
    using inv(3) backed_log [OF assms(1,2)] assms(6,7) by (simp add: logs_inv_def)
  moreover have "comm_inv M (N(f := m)) g"
    unfolding comm_inv_def
  proof (intro allI impI)
    fix t i
    assume c: "(t, i) \<in> comm g"
    obtain Q where Q: "majority M Q" "\<And>k. k \<in> Q \<Longrightarrow> t \<le> current_term (N k) \<and> take i (rn_log (N k)) = take i (llog g t)"
      using comm_quorum [OF assms(1) c] by blast
    have "take i (rn_log m) = take i (llog g t) \<and> t \<le> current_term m" if "f \<in> Q"
      using Q(2) [OF that] tm comm_facts(5) [OF assms(1) c _ ld(1)] ld(2) assms(6,7) by (auto intro: order_trans)
    then have "\<forall>k \<in> Q. t \<le> current_term ((N(f := m)) k) \<and> take i (rn_log ((N(f := m)) k)) = take i (llog g t)"
      using Q(2) by auto
    with Q(1) comm_facts [OF assms(1) c]
    show "lead g t \<noteq> None \<and> 0 < i \<and> i \<le> length (llog g t) \<and> e_term (llog g t ! (i - 1)) = t
      \<and> (\<exists>Q. majority M Q \<and> (\<forall>k \<in> Q. t \<le> current_term ((N(f := m)) k) \<and> take i (rn_log ((N(f := m)) k)) = take i (llog g t)))
      \<and> (\<forall>t' \<ge> t. lead g t' \<noteq> None \<longrightarrow> take i (llog g t') = take i (llog g t))" by blast
  qed
  moreover have "index_inv M (N(f := m)) g"
  proof -
    have f: "last_applied (N f) \<le> commit_index (N f)" "covered g (current_term (N f)) (commit_index (N f)) (rn_log (N f))"
      and l: "covered g ?t (commit_index (N l)) (rn_log (N l))"
      using inv(5) assms(2,3) by (auto simp: index_inv_def)
    note fl = covered_leader [OF assms(1) f(2) tm ld(1)]
    have cl: "commit_index (N l) \<le> length (rn_log (N l))" using covered_length [OF assms(1) l] .
    from assms(10) have "last_applied m \<le> commit_index m \<and> covered g ?t (commit_index m) (rn_log m)"
    proof
      assume "commit_index m = commit_index (N f)"
      moreover have "covered g ?t (commit_index (N f)) (rn_log (N l))"
        using f(2) fl tm by (fastforce simp: covered_def ld(2))
      ultimately show ?thesis using f(1) assms(7,9) by simp
    next
      assume c: "commit_index (N f) < c \<and> c \<le> commit_index (N l) \<and> commit_index m = min c (length (rn_log (N l)))"
      then have "commit_index m = c" using cl by simp
      moreover have "covered g ?t c (rn_log (N l))"
      proof (cases "c = 0")
        case False
        with l c obtain t' i where "(t', i) \<in> comm g" "commit_index (N l) \<le> i" "t' \<le> ?t"
          "take (commit_index (N l)) (rn_log (N l)) = take (commit_index (N l)) (llog g t')"
          by (auto simp: covered_def)
        moreover from this have "take c (rn_log (N l)) = take c (llog g t')"
          using c by (metis min.absorb1 take_take)
        ultimately show ?thesis using c unfolding covered_def by (meson order_trans)
      qed (simp add: covered_def)
      ultimately show ?thesis using f(1) c assms(7,9) by simp
    qed
    with inv(5) assms(6) show ?thesis by (simp add: index_inv_def)
  qed
  ultimately show ?thesis using votes_inv_update [OF inv(1) assms(5)] by (simp add: raft_inv_def)
qed

section \<open>Growth of the history\<close>

definition extends :: "history \<Rightarrow> history \<Rightarrow> bool" where
  "extends g g' \<longleftrightarrow> comm g \<subseteq> comm g'
    \<and> (\<forall>t. lead g t \<noteq> None \<longrightarrow> lead g' t = lead g t \<and> (\<exists>es. llog g' t = llog g t @ es))"

lemma extends_refl [simp]: "extends g g"
  by (simp add: extends_def)

lemma extends_trans: "extends a b \<Longrightarrow> extends b c \<Longrightarrow> extends a c"
  unfolding extends_def by (metis append.assoc subset_trans)

lemma extends_take:
  "extends g g' \<Longrightarrow> lead g t \<noteq> None \<Longrightarrow> i \<le> length (llog g t) \<Longrightarrow> take i (llog g' t) = take i (llog g t)"
  by (auto simp: extends_def)

lemma extends_lead: "extends g g' \<Longrightarrow> lead g t = Some l \<Longrightarrow> lead g' t = Some l"
  by (auto simp: extends_def)

lemma extends_length: "extends g g' \<Longrightarrow> lead g t \<noteq> None \<Longrightarrow> length (llog g t) \<le> length (llog g' t)"
  by (auto simp: extends_def)

lemma extends_backed:
  assumes "extends g g'" and "backed g t log"
  shows "backed g' t log"
  unfolding backed_def
proof (intro allI impI)
  fix i
  let ?t = "e_term (log ! i)"
  assume "i < length log"
  with assms(2) have i: "?t \<le> t" "lead g ?t \<noteq> None" "i < length (llog g ?t)" "take (Suc i) log = take (Suc i) (llog g ?t)"
    by (auto simp: backed_def)
  moreover have "take (Suc i) (llog g' ?t) = take (Suc i) (llog g ?t)"
    using i(2,3) by (intro extends_take [OF assms(1)]) auto
  moreover have "lead g' ?t = lead g ?t" "length (llog g ?t) \<le> length (llog g' ?t)"
    using i(2) assms(1) extends_length [OF assms(1) i(2)] by (auto simp: extends_def)
  ultimately show "?t \<le> t \<and> lead g' ?t \<noteq> None \<and> i < length (llog g' ?t) \<and> take (Suc i) log = take (Suc i) (llog g' ?t)"
    by simp
qed

lemma extends_covered:
  assumes "extends g g'" and "raft_inv M N g" and "covered g t c log"
  shows "covered g' t c log"
proof (cases "c = 0")
  case False
  with assms(3) obtain t' i where c: "(t', i) \<in> comm g" "c \<le> i" "t' \<le> t" "take c log = take c (llog g t')"
    by (auto simp: covered_def)
  note f = comm_facts [OF assms(2) c(1)]
  have "take c (llog g' t') = take c (llog g t')" using f(1,3) c(2) by (intro extends_take [OF assms(1)]) auto
  moreover have "(t', i) \<in> comm g'" using c(1) assms(1) by (auto simp: extends_def)
  ultimately show ?thesis
    using c(2-4) unfolding covered_def by (intro disjI2 exI [of _ t'] exI [of _ i]) simp
qed (simp add: covered_def)

lemma comm_inv_extends:
  assumes "raft_inv M N g" and "extends g g'"
    and "\<And>n. n \<in> M \<Longrightarrow> current_term (N n) \<le> current_term (N' n) \<and> (\<exists>es. rn_log (N' n) = rn_log (N n) @ es)"
    and "\<And>t i t'. (t, i) \<in> comm g \<Longrightarrow> t \<le> t' \<Longrightarrow> lead g t' = None \<Longrightarrow> lead g' t' \<noteq> None \<Longrightarrow>
      take i (llog g' t') = take i (llog g t)"
    and "\<And>t i. (t, i) \<in> comm g' - comm g \<Longrightarrow> lead g' t \<noteq> None \<and> 0 < i \<and> i \<le> length (llog g' t)
      \<and> e_term (llog g' t ! (i - 1)) = t
      \<and> (\<exists>Q. majority M Q \<and> (\<forall>n \<in> Q. t \<le> current_term (N' n) \<and> take i (rn_log (N' n)) = take i (llog g' t)))
      \<and> (\<forall>t' \<ge> t. lead g' t' \<noteq> None \<longrightarrow> take i (llog g' t') = take i (llog g' t))"
  shows "comm_inv M N' g'"
  unfolding comm_inv_def
proof (intro allI impI)
  fix t i
  assume c': "(t, i) \<in> comm g'"
  show "lead g' t \<noteq> None \<and> 0 < i \<and> i \<le> length (llog g' t) \<and> e_term (llog g' t ! (i - 1)) = t
    \<and> (\<exists>Q. majority M Q \<and> (\<forall>k \<in> Q. t \<le> current_term (N' k) \<and> take i (rn_log (N' k)) = take i (llog g' t)))
    \<and> (\<forall>t' \<ge> t. lead g' t' \<noteq> None \<longrightarrow> take i (llog g' t') = take i (llog g' t))"
  proof (cases "(t, i) \<in> comm g")
    case c: True
    note f = comm_facts [OF assms(1) c]
    have tk: "take i (llog g' t) = take i (llog g t)" using extends_take [OF assms(2) f(1,3)] .
    have l: "lead g' t \<noteq> None" "i \<le> length (llog g' t)"
      using f(1,3) extends_lead [OF assms(2)] extends_length [OF assms(2) f(1)] by auto
    have e: "e_term (llog g' t ! (i - 1)) = t"
      using f(2,4) tk by (metis diff_less nth_take zero_less_one)
    obtain Q where Q: "majority M Q" "\<And>k. k \<in> Q \<Longrightarrow> t \<le> current_term (N k) \<and> take i (rn_log (N k)) = take i (llog g t)"
      using comm_quorum [OF assms(1) c] by blast
    have "t \<le> current_term (N' k) \<and> take i (rn_log (N' k)) = take i (llog g' t)" if "k \<in> Q" for k
    proof -
      have "k \<in> M" using Q(1) that by (auto simp: majority_def)
      note k = assms(3) [OF this] Q(2) [OF that]
      then have "i \<le> length (rn_log (N k))" using f(3) by (metis length_take min.absorb_iff2)
      with k tk show ?thesis by (auto intro: order_trans)
    qed
    moreover have "take i (llog g' t') = take i (llog g' t)" if t': "t \<le> t'" "lead g' t' \<noteq> None" for t'
    proof (cases "lead g t'")
      case None
      with assms(4) [OF c t'(1)] t'(2) tk show ?thesis by simp
    next
      case (Some k)
      then have eq: "take i (llog g t') = take i (llog g t)" using f(5) t'(1) by simp
      then have "i \<le> length (llog g t')" using f(3) by (metis length_take min.absorb_iff2)
      with extends_take [OF assms(2), of t' i] Some eq tk show ?thesis by simp
    qed
    ultimately show ?thesis using l e f(2) Q(1) by blast
  next
    case False
    with c' assms(5) show ?thesis by blast
  qed
qed

lemma index_inv_extends:
  assumes "raft_inv M N g" and "extends g g'"
    and "\<And>n. n \<in> M \<Longrightarrow> current_term (N n) \<le> current_term (N' n) \<and> (\<exists>es. rn_log (N' n) = rn_log (N n) @ es)
      \<and> commit_index (N' n) = commit_index (N n) \<and> last_applied (N' n) = last_applied (N n)"
  shows "index_inv M N' g'"
  unfolding index_inv_def
proof
  fix n
  assume n: "n \<in> M"
  then have i: "last_applied (N n) \<le> commit_index (N n)" "covered g (current_term (N n)) (commit_index (N n)) (rn_log (N n))"
    using raft_invD(5) [OF assms(1)] by (auto simp: index_inv_def)
  have "take (commit_index (N n)) (rn_log (N' n)) = take (commit_index (N n)) (rn_log (N n))"
    using covered_length [OF assms(1) i(2)] assms(3) [OF n] by auto
  with extends_covered [OF assms(2,1) i(2)] have "covered g' (current_term (N n)) (commit_index (N n)) (rn_log (N' n))"
    by (simp add: covered_def)
  with i(1) assms(3) [OF n] covered_mono show "last_applied (N' n) \<le> commit_index (N' n)
      \<and> covered g' (current_term (N' n)) (commit_index (N' n)) (rn_log (N' n))" by auto
qed

section \<open>Changes by a leader\<close>

lemma votes_inv_lead: "lead g' = lead g \<Longrightarrow> votes_inv M N g' = votes_inv M N g"
  by (simp add: votes_inv_def)

lemma raft_inv_append:
  assumes "raft_inv M N g" and "l \<in> M" and "rn_role (N l) = Leader" and "e_term e = current_term (N l)"
    and "rn_log m = rn_log (N l) @ [e]" and "current_term m = current_term (N l)" and "voted_for m = voted_for (N l)"
    and "commit_index m = commit_index (N l)" and "last_applied m = last_applied (N l)"
    and "g' = g\<lparr>llog := (llog g)(current_term (N l) := rn_log m)\<rparr>"
  shows "raft_inv M (N(l := m)) g' \<and> extends g g'"
proof -
  let ?t = "current_term (N l)"
  note ld = leader_log [OF assms(1-3)] and inv = raft_invD [OF assms(1)]
  have ext: "extends g g'" using ld by (auto simp: assms(5,10) extends_def)
  have same: "lead g' = lead g" "comm g' = comm g" by (simp_all add: assms(10))
  have "votes_inv M (N(l := m)) g'"
    unfolding votes_inv_lead [OF same(1)] using inv(1) by (rule votes_inv_update) (simp add: votes_kept_def assms(6,7))
  moreover have "leaders_inv M (N(l := m)) g'"
    using inv(2) ld assms(6) by (auto simp: leaders_inv_def assms(10))
  moreover have "logs_inv M (N(l := m)) g'"
  proof -
    have "backed g' ?t (rn_log m)"
      unfolding backed_def
    proof (intro allI impI)
      fix i
      assume i: "i < length (rn_log m)"
      show "e_term (rn_log m ! i) \<le> ?t \<and> lead g' (e_term (rn_log m ! i)) \<noteq> None
        \<and> i < length (llog g' (e_term (rn_log m ! i))) \<and> take (Suc i) (rn_log m) = take (Suc i) (llog g' (e_term (rn_log m ! i)))"
      proof (cases "i < length (rn_log (N l))")
        case True
        with extends_backed [OF ext backed_log [OF assms(1,2)]] show ?thesis
          by (simp add: backed_def assms(5) nth_append)
      next
        case False
        with i have "i = length (rn_log (N l))" by (simp add: assms(5))
        with ld show ?thesis by (simp add: assms(4,5,10))
      qed
    qed
    with inv(3) extends_backed [OF ext] ld show ?thesis
      by (auto simp: logs_inv_def assms(6,10))
  qed
  moreover have "comm_inv M (N(l := m)) g'"
    by (rule comm_inv_extends [OF assms(1) ext]) (use same assms(5,6) in auto)
  moreover have "index_inv M (N(l := m)) g'"
    by (rule index_inv_extends [OF assms(1) ext]) (use assms(5,6,8,9) in auto)
  ultimately show ?thesis using ext by (simp add: raft_inv_def)
qed

lemma raft_inv_commit:
  assumes "raft_inv M N g" and "l \<in> M" and "rn_role (N l) = Leader" and "0 < c" and "c \<le> length (rn_log (N l))"
    and "e_term (rn_log (N l) ! (c - 1)) = current_term (N l)" and "commit_index (N l) \<le> c"
    and "majority M Q" and "\<And>n. n \<in> Q \<Longrightarrow> current_term (N n) = current_term (N l) \<and> rn_log (N n) = rn_log (N l)"
    and "rn_log m = rn_log (N l)" and "current_term m = current_term (N l)" and "voted_for m = voted_for (N l)"
    and "rn_role m = Leader" and "last_applied m = last_applied (N l)" and "commit_index m = c"
    and "g' = g\<lparr>comm := insert (current_term (N l), c) (comm g)\<rparr>"
  shows "raft_inv M (N(l := m)) g' \<and> extends g g'"
proof -
  let ?t = "current_term (N l)" and ?N = "N(l := m)"
  note ld = leader_log [OF assms(1-3)] and inv = raft_invD [OF assms(1)]
  have ext: "extends g g'" by (auto simp: assms(16) extends_def)
  have same: "lead g' = lead g" "llog g' = llog g" by (simp_all add: assms(16))
  have later: "t' = ?t" if t': "?t \<le> t'" "lead g t' \<noteq> None" for t'
  proof -
    from t'(2) obtain l' where "lead g t' = Some l'" by auto
    then obtain P where P: "majority M P" "\<And>n. n \<in> P \<Longrightarrow> t' \<le> current_term (N n)"
      using lead_quorum [OF assms(1)] by metis
    with majority.meet [OF P(1) assms(8)] obtain n where "n \<in> P" "n \<in> Q" by blast
    with P(2) assms(9) t'(1) show ?thesis by (metis antisym)
  qed
  have "votes_inv M ?N g'"
    unfolding votes_inv_lead [OF same(1)] using inv(1) by (rule votes_inv_update) (simp add: votes_kept_def assms(11,12))
  moreover have "leaders_inv M ?N g'"
    using inv(2) assms(3,10,11) by (auto simp: leaders_inv_def same)
  moreover have "logs_inv M ?N g'"
    using inv(3) extends_backed [OF ext] assms(10,11) by (auto simp: logs_inv_def same)
  moreover have "comm_inv M ?N g'"
  proof (rule comm_inv_extends [OF assms(1) ext])
    fix t i
    assume "(t, i) \<in> comm g' - comm g"
    then have ti: "t = ?t" "i = c" by (auto simp: assms(16))
    have "\<forall>n \<in> Q. ?t \<le> current_term (?N n) \<and> take c (rn_log (?N n)) = take c (llog g ?t)"
      using assms(9-11) ld by auto
    moreover have "\<forall>t' \<ge> ?t. lead g t' \<noteq> None \<longrightarrow> take c (llog g t') = take c (llog g ?t)"
      using later by blast
    moreover have log: "lead g ?t \<noteq> None" "c \<le> length (llog g ?t)" "e_term (llog g ?t ! (c - 1)) = ?t"
      using ld assms(5,6) by simp_all
    ultimately show "lead g' t \<noteq> None \<and> 0 < i \<and> i \<le> length (llog g' t) \<and> e_term (llog g' t ! (i - 1)) = t
      \<and> (\<exists>Q. majority M Q \<and> (\<forall>n \<in> Q. t \<le> current_term (?N n) \<and> take i (rn_log (?N n)) = take i (llog g' t)))
      \<and> (\<forall>t' \<ge> t. lead g' t' \<noteq> None \<longrightarrow> take i (llog g' t') = take i (llog g' t))"
      unfolding ti same using log assms(4,8) by blast
  qed (use same assms(10,11) in auto)
  moreover have "index_inv M ?N g'"
  proof -
    have "covered g' ?t c (rn_log m)"
      unfolding covered_def using assms(10) ld
      by (intro disjI2 exI [of _ ?t] exI [of _ c]) (simp add: assms(16))
    moreover have "last_applied m \<le> c"
      using inv(5) assms(2,7,14) by (fastforce simp: index_inv_def)
    ultimately show ?thesis
      using inv(5) extends_covered [OF ext assms(1)] assms(11,15) by (auto simp: index_inv_def)
  qed
  ultimately show ?thesis using ext by (simp add: raft_inv_def)
qed

lemma raft_inv_apply:
  assumes "raft_inv M N g" and "n \<in> M"
  shows "raft_inv M (N(n := (N n)\<lparr>last_applied := commit_index (N n)\<rparr>)) g"
proof -
  let ?N = "N(n := (N n)\<lparr>last_applied := commit_index (N n)\<rparr>)"
  note inv = raft_invD [OF assms(1)]
  have same: "current_term (?N k) = current_term (N k)" "voted_for (?N k) = voted_for (N k)"
    "rn_log (?N k) = rn_log (N k)" "rn_role (?N k) = rn_role (N k)" "commit_index (?N k) = commit_index (N k)" for k
    by simp_all
  have "votes_inv M ?N g" using inv(1) unfolding votes_inv_def same .
  moreover have "leaders_inv M ?N g" using inv(2) unfolding leaders_inv_def same .
  moreover have "logs_inv M ?N g" using inv(3) unfolding logs_inv_def same .
  moreover have "comm_inv M ?N g" using inv(4) unfolding comm_inv_def same .
  moreover have "index_inv M ?N g" using inv(5) by (simp add: index_inv_def)
  ultimately show ?thesis by (simp add: raft_inv_def)
qed

section \<open>Elections\<close>

lemma last_log_term_ge:
  assumes "raft_inv M N g" and "n \<in> M" and "i < length (rn_log (N n))"
  shows "e_term (rn_log (N n) ! i) \<le> last_log_term (N n)"
proof -
  from assms(3) have ne: "rn_log (N n) \<noteq> []" by auto
  then have "last_log_term (N n) = e_term (rn_log (N n) ! (length (rn_log (N n)) - 1))"
    by (simp add: last_log_term_def last_conv_nth)
  with backed_sorted [OF assms(1) backed_log [OF assms(1,2)]] assms(3) ne show ?thesis by simp
qed

text \<open>
  The log of a candidate that a voter holding a committed prefix finds up to date contains that prefix.
\<close>

lemma up_to_date_has_committed:
  assumes "raft_inv M N g" and "(t, i) \<in> comm g" and "n \<in> M" and "c \<in> M"
    and "take i (rn_log (N n)) = take i (llog g t)"
    and "last_log_term (N c) > last_log_term (N n)
      \<or> last_log_term (N c) = last_log_term (N n) \<and> length (rn_log (N n)) \<le> length (rn_log (N c))"
  shows "take i (rn_log (N c)) = take i (llog g t)"
proof -
  note f = comm_facts [OF assms(1,2)]
  have i: "i \<le> length (rn_log (N n))" using assms(5) f(3) by (metis length_take min.absorb_iff2)
  have "rn_log (N n) ! (i - 1) = llog g t ! (i - 1)"
    using assms(5) f(2) by (metis diff_less nth_take zero_less_one)
  then have tn: "t \<le> last_log_term (N n)"
    using last_log_term_ge [OF assms(1,3), of "i - 1"] i f(2,4) by simp
  have ne: "rn_log (N c) \<noteq> []"
  proof
    assume "rn_log (N c) = []"
    with assms(6) i f(2) show False by (auto simp: last_log_term_def)
  qed
  let ?k = "length (rn_log (N c)) - 1" and ?lt = "last_log_term (N c)"
  have k: "?k < length (rn_log (N c))" "e_term (rn_log (N c) ! ?k) = ?lt"
    using ne by (simp_all add: last_log_term_def last_conv_nth)
  with backed_log [OF assms(1,4)] have b: "lead g ?lt \<noteq> None" "?k < length (llog g ?lt)"
    "take (Suc ?k) (rn_log (N c)) = take (Suc ?k) (llog g ?lt)" by (auto simp: backed_def)
  then have whole: "rn_log (N c) = take (Suc ?k) (llog g ?lt)" using ne by simp
  have lt: "t \<le> ?lt" using tn assms(6) by auto
  have "i \<le> length (rn_log (N c))"
  proof (cases "?lt = t")
    case True
    with tn assms(6) i show ?thesis by auto
  next
    case False
    show ?thesis
    proof (rule ccontr)
      assume "\<not> i \<le> length (rn_log (N c))"
      then have ki: "?k < i" by simp
      have "take i (llog g ?lt) = take i (llog g t)" using f(5) lt b(1) by blast
      then have "llog g ?lt ! ?k = llog g t ! ?k" using ki by (metis nth_take)
      moreover have "rn_log (N c) ! ?k = llog g ?lt ! ?k" using whole by (metis lessI nth_take)
      moreover have "e_term (llog g t ! ?k) \<le> t"
        using backed_llog [OF assms(1) f(1)] ki f(3) by (auto simp: backed_def)
      ultimately have "?lt \<le> t" using k(2) by simp
      with lt False show False by simp
    qed
  qed
  then have "take i (rn_log (N c)) = take i (llog g ?lt)"
    using whole ne by (metis Suc_diff_1 length_greater_0_conv min.absorb1 take_take)
  with f(5) lt b(1) show ?thesis by simp
qed

lemma raft_inv_lead:
  assumes "raft_inv M N g" and "c \<in> M" and "lead g (current_term (N c)) = None"
    and "majority M Q"
    and "\<And>n. n \<in> Q \<Longrightarrow> current_term (N n) = current_term (N c) \<and> voted_for (N n) = Some c
      \<and> (last_log_term (N c) > last_log_term (N n)
         \<or> last_log_term (N c) = last_log_term (N n) \<and> length (rn_log (N n)) \<le> length (rn_log (N c)))"
    and "rn_log m = rn_log (N c)" and "current_term m = current_term (N c)" and "voted_for m = voted_for (N c)"
    and "commit_index m = commit_index (N c)" and "last_applied m = last_applied (N c)"
    and "g' = g\<lparr>lead := (lead g)(current_term (N c) \<mapsto> c), llog := (llog g)(current_term (N c) := rn_log (N c))\<rparr>"
  shows "raft_inv M (N(c := m)) g' \<and> extends g g'"
proof -
  let ?t = "current_term (N c)" and ?N = "N(c := m)"
  note inv = raft_invD [OF assms(1)]
  have ext: "extends g g'" using assms(3) by (auto simp: assms(11) extends_def)
  have "votes_inv M ?N g'"
    unfolding votes_inv_def
  proof (intro allI impI)
    fix t l
    assume l: "lead g' t = Some l"
    have "lead g' t = (if t = ?t then Some c else lead g t)" by (simp add: assms(11))
    with l consider "t = ?t" "l = c" | "lead g t = Some l" by (cases "t = ?t") simp_all
    then show "l \<in> M \<and> t \<le> current_term (?N l) \<and> (\<exists>Q. majority M Q \<and>
        (\<forall>n \<in> Q. t \<le> current_term (?N n) \<and> (current_term (?N n) = t \<longrightarrow> voted_for (?N n) = Some l)))"
    proof cases
      case 1
      have "\<forall>n \<in> Q. t \<le> current_term (?N n) \<and> (current_term (?N n) = t \<longrightarrow> voted_for (?N n) = Some l)"
        using assms(5,7,8) 1 by auto
      moreover have "l \<in> M" "t \<le> current_term (?N l)" using 1 assms(2,7) by simp_all
      ultimately show ?thesis using assms(4) by blast
    next
      case 2
      have "votes_inv M ?N g" using inv(1) by (rule votes_inv_update) (simp add: votes_kept_def assms(7,8))
      with 2 show ?thesis unfolding votes_inv_def by blast
    qed
  qed
  moreover have "leaders_inv M ?N g'"
    using inv(2) assms(3,6,7) by (auto simp: leaders_inv_def assms(11))
  moreover have "logs_inv M ?N g'"
    using inv(3) extends_backed [OF ext] backed_log [OF assms(1,2)] assms(6,7)
    by (auto simp: logs_inv_def assms(11))
  moreover have "comm_inv M ?N g'"
  proof (rule comm_inv_extends [OF assms(1) ext])
    fix t i t'
    assume c: "(t, i) \<in> comm g" and new: "lead g t' = None" "lead g' t' \<noteq> None"
    then have t': "t' = ?t" by (auto simp: assms(11) split: if_splits)
    obtain P where P: "majority M P" "\<And>n. n \<in> P \<Longrightarrow> take i (rn_log (N n)) = take i (llog g t)"
      using comm_quorum [OF assms(1) c] by metis
    from majority.meet [OF P(1) assms(4)] obtain n where n: "n \<in> P" "n \<in> Q" by blast
    then have "n \<in> M" using P(1) by (auto simp: majority_def)
    with up_to_date_has_committed [OF assms(1) c _ assms(2) P(2) [OF n(1)]] assms(5) [OF n(2)] t'
    show "take i (llog g' t') = take i (llog g t)" by (simp add: assms(11))
  qed (use assms(6,7) in \<open>auto simp: assms(11)\<close>)
  moreover have "index_inv M ?N g'"
    by (rule index_inv_extends [OF assms(1) ext]) (use assms(6,7,9,10) in auto)
  ultimately show ?thesis using ext by (simp add: raft_inv_def)
qed

end
