(* ===== verification/Raft_Cluster_Safety.thy ===== *)
theory Raft_Cluster_Safety
  imports Raft_Cluster Raft_Safety
begin

text \<open>
  The cluster operations preserve the safety invariant, whatever their outcome: every early return and every
  I/O error leaves the nodes in a state that satisfies it. Leadership of the node is the caller's obligation for
  \<open>synchronize\<close>, which does not check it.
\<close>

section \<open>The invariant of the cluster\<close>

definition node_of :: "raft_cluster \<Rightarrow> nodes" where
  "node_of x i = the (bm_get (cl_nodes x) i)"

definition members :: "raft_cluster \<Rightarrow> u64 set" where
  "members x = fst ` set (cl_nodes x)"

definition applied_inv :: "raft_cluster \<Rightarrow> bool" where
  "applied_inv x \<longleftrightarrow> (\<forall>i \<in> members x. rn_id (node_of x i) = i
    \<and> bm_get (cl_applied x) i = Some (map e_command (take (last_applied (node_of x i)) (rn_log (node_of x i)))))"

definition cl_inv :: "raft_cluster \<Rightarrow> history \<Rightarrow> bool" where
  "cl_inv x g \<longleftrightarrow> bm_inv (cl_nodes x) \<and> raft_inv (members x) (node_of x) g \<and> applied_inv x"

definition put_node :: "u64 \<Rightarrow> raft_node \<Rightarrow> raft_cluster \<Rightarrow> raft_cluster" where
  "put_node i m x = x\<lparr>cl_nodes := bm_insert i m (cl_nodes x)\<rparr>"

lemma put_node_simps [simp]:
  "node_of (put_node i m x) = (node_of x)(i := m)"
  "members (put_node i m x) = insert i (members x)"
  "cl_transport (put_node i m x) = cl_transport x" "cl_stopped (put_node i m x) = cl_stopped x"
  "cl_applied (put_node i m x) = cl_applied x"
  by (auto simp: put_node_def node_of_def members_def)

lemma member_get: "i \<in> members x \<longleftrightarrow> bm_get (cl_nodes x) i = Some (node_of x i)"
  by (auto simp: members_def node_of_def bm_get_dom [symmetric])

lemma on_node_member:
  "i \<in> members x \<Longrightarrow> on_node missing i f x = (map_err Err (fst (f (node_of x i))), put_node i (snd (f (node_of x i))) x)"
  by (simp add: on_node_def member_get put_node_def split: prod.split)

lemma on_node_missing: "i \<notin> members x \<Longrightarrow> on_node missing i f x = (Inl missing, x)"
proof -
  assume "i \<notin> members x"
  then have "bm_get (cl_nodes x) i = None" by (simp add: members_def map_of_eq_None_iff)
  then show ?thesis by (simp add: on_node_def)
qed

lemma cl_invD:
  assumes "cl_inv x g"
  shows "raft_inv (members x) (node_of x) g" and "bm_inv (cl_nodes x)" and "applied_inv x"
  using assms by (simp_all add: cl_inv_def)

lemma members_card:
  assumes "cl_inv x g"
  shows "finite (members x)" and "card (members x) = length (cl_nodes x)" and "distinct (bm_keys (cl_nodes x))"
    and "set (bm_keys (cl_nodes x)) = members x"
proof -
  show "distinct (bm_keys (cl_nodes x))" using cl_invD(2) [OF assms] by (rule bm_inv_distinct)
  then show "card (members x) = length (cl_nodes x)"
    by (metis distinct_card length_map list.set_map members_def)
qed (simp_all add: members_def)

text \<open>A change of one node that keeps its applied prefix.\<close>

lemma cl_inv_put:
  assumes "cl_inv x g" and "i \<in> members x" and "raft_inv (members x) ((node_of x)(i := m)) g'"
    and "rn_id m = rn_id (node_of x i)" and "last_applied m = last_applied (node_of x i)"
    and "take (last_applied m) (rn_log m) = take (last_applied m) (rn_log (node_of x i))"
  shows "cl_inv (put_node i m x) g'"
proof -
  have M: "members (put_node i m x) = members x" using assms(2) by auto
  have "bm_inv (cl_nodes (put_node i m x))" using cl_invD(2) [OF assms(1)] by (simp add: put_node_def)
  moreover have "applied_inv (put_node i m x)"
    using cl_invD(3) [OF assms(1)] assms(2,4-6) by (auto simp: applied_inv_def M)
  ultimately show ?thesis using assms(3) M by (simp add: cl_inv_def)
qed

lemma cl_inv_quiet:
  assumes "cl_inv x g" and "i \<in> members x" and "votes_kept (node_of x i) m" and "rn_log m = rn_log (node_of x i)"
    and "commit_index m = commit_index (node_of x i)" and "last_applied m = last_applied (node_of x i)"
    and "rn_role m = Leader \<longrightarrow> rn_role (node_of x i) = Leader \<and> current_term m = current_term (node_of x i)"
    and "rn_id m = rn_id (node_of x i)"
  shows "cl_inv (put_node i m x) g"
  using raft_inv_quiet [OF cl_invD(1) [OF assms(1)] assms(3-7)] assms
  by (intro cl_inv_put [OF assms(1,2)]) simp_all

lemma votes_kept_adopt: "votes_kept n (adopt_term t n)"
  by (auto simp: votes_kept_def adopt_term_def)

lemma adopt_term_Leader: "rn_role (adopt_term t n) = Leader \<Longrightarrow> rn_role n = Leader \<and> current_term (adopt_term t n) = current_term n"
  by (auto simp: adopt_term_def split: if_splits)

lemma cl_inv_observe:
  assumes "cl_inv x g" and "i \<in> members x" and "observe_term t (node_of x i) = (r, m)"
  shows "cl_inv (put_node i m x) g"
  using observe_term_frame [OF assms(3)]
  by (intro cl_inv_quiet [OF assms(1,2)]) (auto simp: votes_kept_def)

lemma cl_inv_start_election:
  assumes "cl_inv x g" and "i \<in> members x" and "start_election (node_of x i) = (r, m)"
  shows "cl_inv (put_node i m x) g"
  using start_election_frame [OF assms(3)]
  by (intro cl_inv_quiet [OF assms(1,2)]) (auto simp: votes_kept_def dest: checked_succ_u64(2))

lemma cl_inv_request_vote:
  assumes "cl_inv x g" and "i \<in> members x" and "request_vote q (node_of x i) = (r, m)"
  shows "cl_inv (put_node i m x) g"
proof (cases "rv_term q < current_term (node_of x i)")
  case True
  with request_vote_frame [OF assms(3)] have "m = node_of x i" by auto
  then show ?thesis by (intro cl_inv_quiet [OF assms(1,2)]) (auto simp: votes_kept_def)
next
  case False
  let ?n = "node_of x i" and ?a = "adopt_term (rv_term q) (node_of x i)"
  from False request_vote_frame [OF assms(3)] obtain w where m: "m = (if votes_for q ?n
      then ?a\<lparr>voted_for := Some (rv_candidate_id q), rn_wal := w\<rparr> else ?a\<lparr>rn_wal := w\<rparr>)" by auto
  have "votes_kept ?n m"
    using False by (auto simp: m votes_kept_def votes_for_def adopt_term_def)
  moreover have "rn_role m = Leader \<longrightarrow> rn_role ?n = Leader \<and> current_term m = current_term ?n"
    using adopt_term_Leader [of "rv_term q" ?n] by (auto simp: m)
  ultimately show ?thesis by (intro cl_inv_quiet [OF assms(1,2)]) (auto simp: m)
qed

section \<open>Elections\<close>

text \<open>The voters counted so far: they are in the candidate's term, voted for it and found its log up to date.\<close>

definition voters :: "raft_cluster \<Rightarrow> u64 \<Rightarrow> u64 \<Rightarrow> u64 set \<Rightarrow> bool" where
  "voters x c t V \<longleftrightarrow> finite V \<and> V \<subseteq> members x \<and> c \<in> V \<and> (\<forall>n \<in> V. current_term (node_of x n) = t \<and> voted_for (node_of x n) = Some c
    \<and> (last_log_term (node_of x c) > last_log_term (node_of x n)
       \<or> last_log_term (node_of x c) = last_log_term (node_of x n) \<and> length (rn_log (node_of x n)) \<le> length (rn_log (node_of x c))))"

lemma voters_put:
  assumes "voters x c t V" and "i \<notin> V"
  shows "voters (put_node i m x) c t V"
  using assms by (auto simp: voters_def)

lemma voters_vote:
  assumes "voters x c t V" and "i \<in> members x" and "i \<notin> V" and "request_vote q (node_of x i) = (Inr v, m)"
    and "vr_granted v" and "rv_term q = t" and "rv_candidate_id q = c"
    and "rv_last_log_index q = length (rn_log (node_of x c))" and "rv_last_log_term q = last_log_term (node_of x c)"
  shows "voters (put_node i m x) c t (insert i V)"
proof -
  have "c \<noteq> i" using assms(1,3) by (auto simp: voters_def)
  have "\<not> rv_term q < current_term (node_of x i)" "votes_for q (node_of x i)"
    "\<exists>w. m = (adopt_term (rv_term q) (node_of x i))\<lparr>voted_for := Some (rv_candidate_id q), rn_wal := w\<rparr>"
    using request_vote_frame [OF assms(4)] assms(5) by auto
  then have m: "current_term m = t" "voted_for m = Some c" "rn_log m = rn_log (node_of x i)" "up_to_date q (node_of x i)"
    using assms(6,7) by (auto simp: votes_for_def max_def)
  then have "last_log_term m = last_log_term (node_of x i)" by (simp add: last_log_term_def)
  with m assms(1,2,8,9) \<open>c \<noteq> i\<close> show ?thesis
    by (auto simp: voters_def up_to_date_def last_log_index_def)
qed

lemma elect_loop_inv:
  assumes "elect_loop q c ids votes x = (r, y)" and "cl_inv x g" and "distinct ids" and "set ids \<subseteq> members x"
    and "voters x c (rv_term q) V" and "card V = votes" and "V \<inter> set ids \<subseteq> {c}"
    and "rv_candidate_id q = c" and "rv_last_log_index q = length (rn_log (node_of x c))"
    and "rv_last_log_term q = last_log_term (node_of x c)"
  shows "cl_inv y g \<and> members y = members x \<and> r \<noteq> Inl Panic \<and> (\<forall>v. r = Inr (Some v) \<longrightarrow> (\<exists>V. voters y c (rv_term q) V \<and> card V = v))"
  using assms
proof (induction ids arbitrary: votes x V)
  case Nil
  then show ?case by auto
next
  case (Cons i ids)
  have c: "c \<in> members x" using Cons.prems(5) by (auto simp: voters_def)
  show ?case
  proof (cases "i = c \<or> i \<in> cl_stopped x \<or> \<not> reachable c i (cl_transport x) \<or> \<not> reachable i c (cl_transport x)")
    case True
    then have skip: "elect_loop q c ids votes x = (r, y)" using Cons.prems(1) by auto
    have "V \<inter> set ids \<subseteq> {c}" using Cons.prems(7) by auto
    with Cons.IH [OF skip Cons.prems(2)] Cons.prems(3-6,8-10) show ?thesis by simp
  next
    case False
    then have i: "i \<noteq> c" "i \<in> members x" "i \<notin> V" using Cons.prems(4,7) by auto
    obtain rv m where rv: "request_vote q (node_of x i) = (rv, m)" by fastforce
    let ?x = "put_node i m x"
    have inv: "cl_inv ?x g" by (rule cl_inv_request_vote [OF Cons.prems(2) i(2) rv])
    have M: "members ?x = members x" using i(2) by auto
    have nc: "node_of ?x c = node_of x c" using i(1) by simp
    show ?thesis
    proof (cases rv)
      case (Inl e)
      then have "r = Inl (Err e) \<and> y = ?x"
        using Cons.prems(1) False rv by (simp add: and_then_def on_node_member [OF i(2)])
      with inv M show ?thesis by simp
    next
      case (Inr v)
      show ?thesis
      proof (cases "vr_term v > rv_term q")
        case True
        obtain ro mc where ro: "observe_term (vr_term v) (node_of ?x c) = (ro, mc)" by fastforce
        have "y = put_node c mc ?x \<and> (\<forall>k. r \<noteq> Inr (Some k)) \<and> r \<noteq> Inl Panic"
          using Cons.prems(1) False rv Inr True ro c i(1)
          by (cases ro) (simp_all add: and_then_def on_node_member [OF i(2)] on_node_member [where x = ?x and i = c], auto)
        with cl_inv_observe [OF inv _ ro] c M show ?thesis by auto
      next
        case le: False
        have rest: "elect_loop q c ids (if vr_granted v then votes + 1 else votes) ?x = (r, y)"
          using Cons.prems(1) False rv Inr le by (simp add: and_then_def on_node_member [OF i(2)])
        have same: "rv_last_log_index q = length (rn_log (node_of ?x c))" "rv_last_log_term q = last_log_term (node_of ?x c)"
          using Cons.prems(9,10) nc by simp_all
        show ?thesis
        proof (cases "vr_granted v")
          case True
          have V: "voters ?x c (rv_term q) (insert i V)"
            using voters_vote [OF Cons.prems(5) i(2,3)] rv Inr True Cons.prems(8-10) by blast
          have "card (insert i V) = votes + 1" "insert i V \<inter> set ids \<subseteq> {c}"
            using i(3) Cons.prems(3,5-7) by (auto simp: voters_def)
          with Cons.IH [OF rest inv _ _ V] True Cons.prems(3,4,8) same M show ?thesis by auto
        next
          case ungranted: False
          have V: "voters ?x c (rv_term q) V" using voters_put [OF Cons.prems(5) i(3)] .
          have "V \<inter> set ids \<subseteq> {c}" using Cons.prems(7) by auto
          with Cons.IH [OF rest inv _ _ V] ungranted Cons.prems(3,4,6,8) same M show ?thesis by auto
        qed
      qed
    qed
  qed
qed

lemma elect_inv:
  assumes "elect c x = (r, y)" and "cl_inv x g"
  shows "r \<noteq> Inl Panic \<and> (\<exists>g'. cl_inv y g' \<and> extends g g' \<and> members y = members x)"
proof (cases "c \<in> cl_stopped x \<or> c \<notin> members x")
  case True
  then have "y = x \<and> r \<noteq> Inl Panic" using assms(1) by (auto simp: elect_def and_then_def on_node_missing unknown_node_def split: if_splits)
  with assms(2) show ?thesis by (auto intro: exI [of _ g])
next
  case False
  then have c: "c \<in> members x" by blast
  obtain re m where re: "start_election (node_of x c) = (re, m)" by fastforce
  let ?x = "put_node c m x"
  have inv: "cl_inv ?x g" by (rule cl_inv_start_election [OF assms(2) c re])
  have M: "members ?x = members x" using c by auto
  show ?thesis
  proof (cases re)
    case (Inl e)
    with assms(1) False re have "y = ?x \<and> r \<noteq> Inl Panic" by (auto simp: elect_def and_then_def on_node_member)
    with inv M show ?thesis by (auto intro: exI [of _ g])
  next
    case (Inr q)
    from start_election_frame [OF re] Inr obtain tm where tm: "checked_add_u64 (current_term (node_of x c)) 1 = Some tm"
      "current_term m = tm" "voted_for m = Some (rn_id (node_of x c))" "rn_log m = rn_log (node_of x c)"
      "q = \<lparr>rv_term = tm, rv_candidate_id = rn_id (node_of x c), rv_last_log_index = last_log_index (node_of x c),
        rv_last_log_term = last_log_term (node_of x c)\<rparr>" by auto
    have id_c: "rn_id (node_of x c) = c" using cl_invD(3) [OF assms(2)] c by (simp add: applied_inv_def)
    have llt: "last_log_term m = last_log_term (node_of x c)" using tm(4) by (simp add: last_log_term_def)
    have V: "voters ?x c (rv_term q) {c}" using tm c id_c by (auto simp: voters_def)
    have not_c: "lead g tm \<noteq> Some c"
      using lead_member [OF cl_invD(1) [OF assms(2)]] checked_succ_u64(2) [OF tm(1)] by (auto simp: not_le [symmetric])
    obtain rl x2 where loop: "elect_loop q c (bm_keys (cl_nodes ?x)) 1 ?x = (rl, x2)" by fastforce
    have l: "cl_inv x2 g" "members x2 = members ?x" "rl \<noteq> Inl Panic" "\<And>v. rl = Inr (Some v) \<Longrightarrow> \<exists>V. voters x2 c (rv_term q) V \<and> card V = v"
      using elect_loop_inv [OF loop inv members_card(3) [OF inv] _ V] members_card(4) [OF inv] id_c tm llt
      by (auto simp: last_log_index_def)
    have y: "(r, y) = (case rl of Inl e \<Rightarrow> (Inl e, x2) | Inr None \<Rightarrow> (Inr False, x2)
        | Inr (Some v) \<Rightarrow> if v * 2 > length (cl_nodes x2)
            then (Inr True, put_node c (become_leader (node_of x2 c)) x2) else (Inr False, x2))"
    proof -
      have "c \<in> members x2" using l(2) c by auto
      then show ?thesis
        using assms(1) False re Inr loop
        by (auto simp: elect_def and_then_def on_node_member split: sum.split option.split)
    qed
    show ?thesis
    proof (cases "\<exists>v. rl = Inr (Some v) \<and> v * 2 > length (cl_nodes x2)")
      case False
      with y l(3) have "y = x2 \<and> r \<noteq> Inl Panic" by (auto split: sum.splits option.splits if_splits)
      with l(1,2) M show ?thesis by (auto intro: exI [of _ g])
    next
      case True
      then obtain v V where v: "rl = Inr (Some v)" "v * 2 > length (cl_nodes x2)" "voters x2 c (rv_term q) V" "card V = v"
        using l(4) by blast
      have maj: "majority (members x2) V"
        using v members_card(1,2) [OF l(1)] by (simp add: majority_def voters_def)
      have cV: "c \<in> V" "current_term (node_of x2 c) = tm" using v(3) tm(5) by (auto simp: voters_def)
      have none: "lead g (current_term (node_of x2 c)) = None"
      proof (rule ccontr)
        assume "lead g (current_term (node_of x2 c)) \<noteq> None"
        then obtain k where k: "lead g tm = Some k" using cV(2) by auto
        obtain P where P: "majority (members x2) P"
          "\<And>n. n \<in> P \<Longrightarrow> tm \<le> current_term (node_of x2 n) \<and> (current_term (node_of x2 n) = tm \<longrightarrow> voted_for (node_of x2 n) = Some k)"
          using lead_quorum [OF cl_invD(1) [OF l(1)] k] by blast
        from majority.meet [OF P(1) maj] obtain n where n: "n \<in> P" "n \<in> V" by blast
        then have "current_term (node_of x2 n) = tm" "voted_for (node_of x2 n) = Some c"
          using v(3) tm(5) by (auto simp: voters_def)
        with P(2) [OF n(1)] k not_c show False by auto
      qed
      define g' where "g' = g\<lparr>lead := (lead g)(current_term (node_of x2 c) \<mapsto> c),
        llog := (llog g)(current_term (node_of x2 c) := rn_log (node_of x2 c))\<rparr>"
      have mem: "c \<in> members x2" using cV v(3) by (auto simp: voters_def)
      have "raft_inv (members x2) ((node_of x2)(c := become_leader (node_of x2 c))) g' \<and> extends g g'"
        by (rule raft_inv_lead [OF cl_invD(1) [OF l(1)] mem none maj])
           (use v(3) cV tm(5) in \<open>auto simp: voters_def become_leader_def g'_def\<close>)
      moreover from this have "cl_inv (put_node c (become_leader (node_of x2 c)) x2) g'"
        by (intro cl_inv_put [OF l(1) mem]) (auto simp: become_leader_def)
      moreover have "y = put_node c (become_leader (node_of x2 c)) x2 \<and> r = Inr True" using y v(1,2) by simp
      ultimately show ?thesis using l(2) M mem by (auto intro!: exI [of _ g'])
    qed
  qed
qed

section \<open>Replication\<close>

definition leads :: "raft_cluster \<Rightarrow> u64 \<Rightarrow> u64 \<Rightarrow> entry list \<Rightarrow> bool" where
  "leads x l t L \<longleftrightarrow> l \<in> members x \<and> rn_role (node_of x l) = Leader \<and> current_term (node_of x l) = t \<and> rn_log (node_of x l) = L"

text \<open>Entries with the same index and term have the same predecessors.\<close>

lemma log_matching:
  assumes "raft_inv M N g" and "a \<in> M" and "b \<in> M" and "i < length (rn_log (N a))" and "i < length (rn_log (N b))"
    and "e_term (rn_log (N a) ! i) = e_term (rn_log (N b) ! i)"
  shows "take (Suc i) (rn_log (N a)) = take (Suc i) (rn_log (N b))"
proof -
  have "take (Suc i) (rn_log (N a)) = take (Suc i) (llog g (e_term (rn_log (N a) ! i)))"
    using backed_log [OF assms(1,2)] assms(4) by (simp add: backed_def)
  moreover have "take (Suc i) (rn_log (N b)) = take (Suc i) (llog g (e_term (rn_log (N b) ! i)))"
    using backed_log [OF assms(1,3)] assms(5) by (simp add: backed_def)
  ultimately show ?thesis using assms(6) by simp
qed

definition from_leader :: "u64 \<Rightarrow> u64 \<Rightarrow> entry list \<Rightarrow> nat \<Rightarrow> nat \<Rightarrow> AppendEntries" where
  "from_leader l t L lc prev = \<lparr>ae_term = t, ae_leader_id = l, ae_prev_log_index = prev,
    ae_prev_log_term = (if prev = 0 then 0 else e_term (L ! (prev - 1))), ae_entries = drop prev L, ae_leader_commit = lc\<rparr>"

lemma append_from_leader:
  assumes "cl_inv x g" and "leads x l t L" and "f \<in> members x" and "f \<noteq> l" and "prev \<le> length L"
    and "lc \<le> commit_index (node_of x l)" and "append_entries (from_leader l t L lc prev) (node_of x f) = (r, m)"
  shows "cl_inv (put_node f m x) g"
    and "r = Inr v \<Longrightarrow> t < ar_term v
      \<or> ar_term v = t \<and> (prev = 0 \<longrightarrow> ar_success v)
        \<and> (ar_success v \<longrightarrow> ar_match_index v = length L \<and> rn_log m = L \<and> current_term m = t)"
proof -
  let ?q = "from_leader l t L lc prev" and ?n = "node_of x f"
  note inv = cl_invD(1) [OF assms(1)]
  have l: "l \<in> members x" "rn_role (node_of x l) = Leader" "current_term (node_of x l) = t" "rn_log (node_of x l) = L"
    using assms(2) by (auto simp: leads_def)
  have "cl_inv (put_node f m x) g \<and> (\<forall>v. r = Inr v \<longrightarrow> t < ar_term v
      \<or> ar_term v = t \<and> (prev = 0 \<longrightarrow> ar_success v)
        \<and> (ar_success v \<longrightarrow> ar_match_index v = length L \<and> rn_log m = L \<and> current_term m = t))"
  proof (cases "t < current_term ?n")
    case True
    then have "m = ?n \<and> r = Inr \<lparr>ar_term = current_term ?n, ar_success = False, ar_match_index = last_log_index ?n\<rparr>"
      using assms(7) by (auto simp: from_leader_def append_entries_stale)
    moreover have "cl_inv (put_node f ?n x) g"
      by (rule cl_inv_quiet [OF assms(1,3)]) (auto simp: votes_kept_def)
    ultimately show ?thesis using True by simp
  next
    case False
    then have stale: "\<not> ae_term ?q < current_term ?n" by (simp add: from_leader_def)
    have vk: "votes_kept ?n (follow ?q ?n)"
      using votes_kept_adopt [of ?n t] by (simp add: votes_kept_def from_leader_def)
    have tm: "current_term (follow ?q ?n) = t" using False by (simp add: from_leader_def max_def)
    show ?thesis
    proof (cases "log_matches ?q ?n")
      case unmatched: False
      from append_entries_refused [OF assms(7) stale unmatched] obtain w where m: "m = (follow ?q ?n)\<lparr>rn_wal := w\<rparr>"
        and r: "\<forall>v. r = Inr v \<longrightarrow> v = \<lparr>ar_term = ae_term ?q, ar_success = False, ar_match_index = length (rn_log ?n)\<rparr>" by blast
      have "cl_inv (put_node f m x) g"
        by (rule cl_inv_quiet [OF assms(1,3)]) (use vk in \<open>simp_all add: m votes_kept_def\<close>)
      moreover have "prev \<noteq> 0" using unmatched by (auto simp: log_matches_def from_leader_def)
      ultimately show ?thesis using r by (auto simp: from_leader_def)
    next
      case True
      have new: "new_log ?q ?n = L"
      proof (cases "prev = 0")
        case False
        with True assms(5) have "take (Suc (prev - 1)) (rn_log ?n) = take (Suc (prev - 1)) (rn_log (node_of x l))"
          by (intro log_matching [OF inv assms(3) l(1)]) (auto simp: log_matches_def from_leader_def l(4))
        with False l(4) show ?thesis by (simp add: new_log_def from_leader_def)
      qed (simp add: new_log_def from_leader_def)
      from append_entries_accepted [OF assms(7) stale True] obtain w where m: "m = (follow ?q ?n)\<lparr>rn_log := L, rn_wal := w,
          commit_index := (case r of Inl e \<Rightarrow> commit_index ?n | Inr v \<Rightarrow> new_commit ?q ?n)\<rparr>"
        and r: "\<forall>v. r = Inr v \<longrightarrow> v = \<lparr>ar_term = ae_term ?q, ar_success = True, ar_match_index = length L\<rparr>"
        unfolding new by blast
      have "ae_leader_commit ?q = lc" by (simp add: from_leader_def)
      then have nc: "new_commit ?q ?n = (if lc > commit_index ?n then min lc (length L) else commit_index ?n)"
        by (simp add: new_commit_def new)
      have commit: "commit_index m = commit_index ?n
          \<or> commit_index ?n < lc \<and> lc \<le> commit_index (node_of x l) \<and> commit_index m = min lc (length (rn_log (node_of x l)))"
        using assms(6) by (auto simp: m nc l(4) split: sum.split)
      have vm: "votes_kept ?n m" using vk by (simp add: m votes_kept_def)
      have cm: "current_term m = t" using tm by (simp add: m)
      have ri: "raft_inv (members x) ((node_of x)(f := m)) g"
        by (rule raft_inv_overwrite [OF inv l(1) assms(3) l(2) vm _ _ _ _ commit])
           (use cm l in \<open>simp_all add: m\<close>)
      have fi: "last_applied ?n \<le> commit_index ?n" "covered g (current_term ?n) (commit_index ?n) (rn_log ?n)"
        using raft_invD(5) [OF inv] assms(3) by (auto simp: index_inv_def)
      have "lead g t \<noteq> None" "llog g t = L" using leader_log [OF inv l(1,2)] l(3,4) by auto
      with covered_leader [OF inv fi(2), of t] False have "take (commit_index ?n) (rn_log ?n) = take (commit_index ?n) L"
        by simp
      then have "take (last_applied ?n) L = take (last_applied ?n) (rn_log ?n)"
        using fi(1) by (metis min.absorb1 take_take)
      then have "cl_inv (put_node f m x) g"
        by (intro cl_inv_put [OF assms(1,3) ri]) (simp_all add: m)
      moreover have "rn_log m = L" "ae_term ?q = t" by (simp_all add: m from_leader_def)
      ultimately show ?thesis using r cm by (cases r) simp_all
    qed
  qed
  then show "cl_inv (put_node f m x) g" and "r = Inr v \<Longrightarrow> t < ar_term v
      \<or> ar_term v = t \<and> (prev = 0 \<longrightarrow> ar_success v)
        \<and> (ar_success v \<longrightarrow> ar_match_index v = length L \<and> rn_log m = L \<and> current_term m = t)" by auto
qed

text \<open>What a loop over followers leaves alone.\<close>

definition only_changes :: "u64 set \<Rightarrow> raft_cluster \<Rightarrow> raft_cluster \<Rightarrow> bool" where
  "only_changes F x y \<longleftrightarrow> members y = members x \<and> cl_transport y = cl_transport x \<and> cl_stopped y = cl_stopped x
    \<and> (\<forall>i. i \<notin> F \<longrightarrow> node_of y i = node_of x i)"

lemma only_changes_put: "i \<in> members x \<Longrightarrow> i \<in> F \<Longrightarrow> only_changes F x (put_node i m x)"
  by (auto simp: only_changes_def)

lemma only_changes_refl [simp]: "only_changes F x x"
  by (simp add: only_changes_def)

lemma only_changes_trans:
  "only_changes F x y \<Longrightarrow> only_changes G y z \<Longrightarrow> F \<subseteq> H \<Longrightarrow> G \<subseteq> H \<Longrightarrow> only_changes H x z"
  by (simp add: only_changes_def) (metis subsetD)

lemma leads_only: "leads x l t L \<Longrightarrow> only_changes F x y \<Longrightarrow> l \<notin> F \<Longrightarrow> leads y l t L"
  by (auto simp: leads_def only_changes_def)

lemma replicate_to_inv:
  assumes "replicate_to l t L lc f prevs x = (r, y)" and "cl_inv x g" and "leads x l t L" and "f \<in> members x" and "f \<noteq> l"
    and "\<forall>p \<in> set prevs. p \<le> length L" and "lc \<le> commit_index (node_of x l)"
  shows "cl_inv y g \<and> members y = members x \<and> r \<noteq> Inl Panic
    \<and> (\<forall>k. r = Inr k \<longrightarrow> only_changes {f} x y \<and> (0 \<in> set prevs \<longrightarrow> k = Some (length L)
         \<and> rn_log (node_of y f) = L \<and> current_term (node_of y f) = t))"
  using assms
proof (induction prevs arbitrary: x)
  case Nil
  then show ?case by auto
next
  case (Cons p prevs)
  let ?q = "from_leader l t L lc p"
  obtain ra m where ra: "append_entries ?q (node_of x f) = (ra, m)" by fastforce
  let ?x = "put_node f m x"
  have p: "p \<le> length L" using Cons.prems(6) by simp
  note app = append_from_leader [OF Cons.prems(2,3,4,5) p Cons.prems(7) ra]
  have M: "members ?x = members x" using Cons.prems(4) by auto
  have eq: "replicate_to l t L lc f (p # prevs) x = and_then (on_node Panic f (append_entries ?q)) (\<lambda>response.
       if ar_term response > t
       then and_then (on_node Panic l (observe_term (ar_term response))) (\<lambda>_ x.
         (Inl (Err (IoError WouldBlock ''raft: leader observed a higher term'')), x))
       else if ar_success response then (\<lambda>x. (Inr (Some (ar_match_index response)), x))
       else replicate_to l t L lc f prevs) x"
    by (simp add: from_leader_def)
  have lm: "l \<in> members x" using Cons.prems(3) by (simp add: leads_def)
  show ?case
  proof (cases ra)
    case (Inl e)
    with Cons.prems(1) ra have "y = ?x \<and> r = Inl (Err e)"
      unfolding eq by (simp add: and_then_def on_node_member [OF Cons.prems(4)])
    with app(1) M show ?thesis by simp
  next
    case (Inr v)
    note res = app(2) [OF Inr]
    consider (higher) "ar_term v > t" | (ok) "\<not> ar_term v > t" "ar_success v" | (retry) "\<not> ar_term v > t" "\<not> ar_success v" by blast
    then show ?thesis
    proof cases
      case higher
      obtain ro mc where ro: "observe_term (ar_term v) (node_of ?x l) = (ro, mc)" by fastforce
      have "l \<in> members ?x" using lm M by simp
      then have "y = put_node l mc ?x \<and> (\<exists>e. r = Inl (Err e))"
        using Cons.prems(1) ra Inr higher ro unfolding eq
        by (cases ro) (simp_all add: and_then_def on_node_member [OF Cons.prems(4)] on_node_member [where x = ?x and i = l], auto)
      with cl_inv_observe [OF app(1) _ ro] lm M show ?thesis by auto
    next
      case ok
      with Cons.prems(1) ra Inr have "y = ?x \<and> r = Inr (Some (ar_match_index v))"
        unfolding eq by (simp add: and_then_def on_node_member [OF Cons.prems(4)])
      with app(1) M res ok only_changes_put [OF Cons.prems(4), of "{f}" m] show ?thesis by auto
    next
      case retry
      then have rest: "replicate_to l t L lc f prevs ?x = (r, y)"
        using Cons.prems(1) ra Inr unfolding eq by (simp add: and_then_def on_node_member [OF Cons.prems(4)])
      have oc: "only_changes {f} x ?x" using only_changes_put [OF Cons.prems(4)] by simp
      have "leads ?x l t L" using leads_only [OF Cons.prems(3) oc] Cons.prems(5) by simp
      note IH = Cons.IH [OF rest app(1) this]
      have "p \<noteq> 0" using res retry by auto
      moreover have "cl_inv y g \<and> members y = members ?x \<and> r \<noteq> Inl Panic
          \<and> (\<forall>k. r = Inr k \<longrightarrow> only_changes {f} ?x y \<and> (0 \<in> set prevs \<longrightarrow> k = Some (length L)
               \<and> rn_log (node_of y f) = L \<and> current_term (node_of y f) = t))"
        using IH Cons.prems(4-7) by simp
      ultimately show ?thesis using M only_changes_trans [OF oc, of "{f}" y "{f}"] by auto
    qed
  qed
qed

definition live :: "raft_cluster \<Rightarrow> u64 \<Rightarrow> u64 \<Rightarrow> bool" where
  "live x l f \<longleftrightarrow> f \<noteq> l \<and> f \<notin> cl_stopped x \<and> reachable l f (cl_transport x)"

lemma live_only: "only_changes F x y \<Longrightarrow> live y l f = live x l f"
  by (simp add: only_changes_def live_def)

definition in_sync :: "raft_cluster \<Rightarrow> u64 \<Rightarrow> u64 \<Rightarrow> entry list \<Rightarrow> u64 set \<Rightarrow> bool" where
  "in_sync x l t L F \<longleftrightarrow> (\<forall>f \<in> F. live x l f \<longrightarrow> rn_log (node_of x f) = L \<and> current_term (node_of x f) = t)"

lemma in_sync_only: "in_sync x l t L F \<Longrightarrow> only_changes G x y \<Longrightarrow> F \<inter> G = {} \<Longrightarrow> in_sync y l t L F"
  unfolding in_sync_def using live_only [of G x y l] by (auto simp: only_changes_def)

lemma replicate_loop_inv:
  assumes "replicate_loop l t L lc ids matched x = (r, y)" and "cl_inv x g" and "leads x l t L"
    and "distinct ids" and "set ids \<subseteq> members x" and "lc \<le> commit_index (node_of x l)"
  shows "cl_inv y g \<and> members y = members x \<and> r \<noteq> Inl Panic
    \<and> (\<forall>ms. r = Inr ms \<longrightarrow> only_changes (set ids - {l}) x y \<and> in_sync y l t L (set ids)
         \<and> ms = matched @ map (\<lambda>f. if live x l f then length L else 0) (filter (\<lambda>f. f \<noteq> l) ids))"
  using assms
proof (induction ids arbitrary: x matched)
  case Nil
  then show ?case by (auto simp: in_sync_def)
next
  case (Cons f ids)
  have sub: "set ids \<subseteq> members x" "f \<in> members x" "distinct ids" "f \<notin> set ids" using Cons.prems(4,5) by auto
  consider (self) "f = l" | (dead) "f \<noteq> l" "\<not> live x l f" | (live) "live x l f" by blast
  then show ?case
  proof cases
    case self
    with Cons.prems(1) have rest: "replicate_loop l t L lc ids matched x = (r, y)" by simp
    have "in_sync y l t L (set ids) \<Longrightarrow> in_sync y l t L (set (f # ids))"
      by (auto simp: in_sync_def live_def self)
    with Cons.IH [OF rest Cons.prems(2,3) sub(3,1) Cons.prems(6)] self sub(4) show ?thesis by auto
  next
    case dead
    with Cons.prems(1) have rest: "replicate_loop l t L lc ids (matched @ [0]) x = (r, y)" by (auto simp: live_def)
    note IH = Cons.IH [OF rest Cons.prems(2,3) sub(3,1) Cons.prems(6)]
    have "in_sync y l t L (set (f # ids)) \<and> only_changes (set (f # ids) - {l}) x y" if "r = Inr ms" for ms
    proof -
      have oc: "only_changes (set ids - {l}) x y" "in_sync y l t L (set ids)" using IH that by auto
      have "\<not> live y l f" using live_only [OF oc(1)] dead(2) by simp
      with oc show ?thesis
        using only_changes_trans [OF oc(1) only_changes_refl [of "{}"], of "set (f # ids) - {l}"] by (auto simp: in_sync_def)
    qed
    with IH dead show ?thesis by auto
  next
    case live
    then have fl: "f \<noteq> l" by (simp add: live_def)
    obtain rt x2 where rt: "replicate_to l t L lc f (rev [0 ..< length L + 1]) x = (rt, x2)" by fastforce
    have "\<forall>p \<in> set (rev [0 ..< length L + 1]). p \<le> length L" by auto
    note one = replicate_to_inv [OF rt Cons.prems(2,3) sub(2) fl this Cons.prems(6)]
    show ?thesis
    proof (cases rt)
      case (Inl e)
      with Cons.prems(1) live rt fl have "y = x2 \<and> r = Inl e" by (auto simp: live_def and_then_def)
      with one Inl show ?thesis by simp
    next
      case (Inr k)
      have x2: "only_changes {f} x x2" "k = Some (length L)" "rn_log (node_of x2 f) = L" "current_term (node_of x2 f) = t"
        "cl_inv x2 g" "members x2 = members x"
        using one Inr by (auto simp: image_iff)
      from Cons.prems(1) live rt Inr fl x2(2)
      have rest: "replicate_loop l t L lc ids (matched @ [length L]) x2 = (r, y)"
        by (auto simp: live_def and_then_def)
      have ld: "leads x2 l t L" using leads_only [OF Cons.prems(3) x2(1)] fl by simp
      have cm: "lc \<le> commit_index (node_of x2 l)" using Cons.prems(6) x2(1) fl by (simp add: only_changes_def)
      have sub2: "set ids \<subseteq> members x2" using sub(1) x2(6) by simp
      note IH = Cons.IH [OF rest x2(5) ld sub(3) sub2 cm]
      have "in_sync y l t L (set (f # ids)) \<and> only_changes (set (f # ids) - {l}) x y
          \<and> ms = matched @ map (\<lambda>f. if live x l f then length L else 0) (filter (\<lambda>f. f \<noteq> l) (f # ids))" if "r = Inr ms" for ms
      proof -
        have y: "only_changes (set ids - {l}) x2 y" "in_sync y l t L (set ids)"
          "ms = (matched @ [length L]) @ map (\<lambda>f. if live x2 l f then length L else 0) (filter (\<lambda>f. f \<noteq> l) ids)"
          using IH that by auto
        have "node_of y f = node_of x2 f" using y(1) sub(4) by (simp add: only_changes_def)
        then have "in_sync y l t L (set (f # ids))" using y(2) x2(3,4) by (simp add: in_sync_def)
        moreover have "only_changes (set (f # ids) - {l}) x y"
          by (rule only_changes_trans [OF x2(1) y(1)]) (use fl in auto)
        ultimately show ?thesis using y(3) live fl live_only [OF x2(1), of l] by simp
      qed
      with IH x2(6) show ?thesis by auto
    qed
  qed
qed

lemma only_members: "only_changes F x y \<Longrightarrow> members y = members x"
  by (simp add: only_changes_def)

text \<open>The leader's new commit index is backed by itself and the followers in sync.\<close>

lemma length_filter_card: "distinct xs \<Longrightarrow> length (filter P xs) = card {y \<in> set xs. P y}"
  using distinct_card [of "filter P xs"] by simp

lemma advance_commit_inv:
  assumes "cl_inv x g" and "leads x l t L" and "in_sync x l t L (members x)"
    and "ms = map (\<lambda>f. if live x l f then length L else 0) (filter (\<lambda>f. f \<noteq> l) (bm_keys (cl_nodes x)))"
    and "advance_commit ms (node_of x l) = (c, m)"
  shows "\<exists>g'. cl_inv (put_node l m x) g' \<and> extends g g'"
proof -
  note inv = cl_invD(1) [OF assms(1)] and adv = advance_commit_eq [OF assms(5)]
  have l: "l \<in> members x" "rn_role (node_of x l) = Leader" "current_term (node_of x l) = t" "rn_log (node_of x l) = L"
    using assms(2) by (auto simp: leads_def)
  show ?thesis
  proof (cases "c = commit_index (node_of x l)")
    case True
    with adv have "m = node_of x l" by simp
    then have "cl_inv (put_node l m x) g" by (intro cl_inv_quiet [OF assms(1) l(1)]) (simp_all add: votes_kept_def)
    then show ?thesis by (auto intro: exI [of _ g])
  next
    case False
    with adv have com: "commits_at ms (node_of x l) c" and c: "commit_index (node_of x l) < c" by auto
    let ?F = "{f \<in> members x. live x l f}" and ?ids = "bm_keys (cl_nodes x)"
    have fin: "finite ?F" "finite (members x)" using members_card(1) [OF assms(1)] by auto
    have "length (filter (\<lambda>i. c \<le> i) ms) \<le> length (filter (live x l) ?ids)"
    proof -
      have "length (filter (\<lambda>i. c \<le> i) (map (\<lambda>f. if live x l f then length L else 0) (filter (\<lambda>f. f \<noteq> l) ids)))
          \<le> length (filter (live x l) ids)" for ids
        using c by (induction ids) auto
      then show ?thesis unfolding assms(4) .
    qed
    also have "length (filter (live x l) ?ids) = card ?F"
      using length_filter_card [OF members_card(3) [OF assms(1)], of "live x l"] members_card(4) [OF assms(1)] by simp
    finally have cnt: "length (filter (\<lambda>i. c \<le> i) ms) \<le> card ?F" .
    have "length ms + 1 = card (members x)"
    proof -
      have "{f \<in> members x. f \<noteq> l} = members x - {l}" by blast
      then have "length (filter (\<lambda>f. f \<noteq> l) ?ids) = card (members x - {l})"
        using length_filter_card [OF members_card(3) [OF assms(1)], of "\<lambda>f. f \<noteq> l"] members_card(4) [OF assms(1)] by simp
      moreover have "card (members x - {l}) + 1 = card (members x)"
        using l(1) fin(2) by (metis Suc_eq_plus1 card_Suc_Diff1)
      ultimately show ?thesis unfolding assms(4) by simp
    qed
    moreover have "card (insert l ?F) = 1 + card ?F" using fin by (simp add: live_def)
    ultimately have maj: "majority (members x) (insert l ?F)"
      using com cnt l(1) fin(2) by (auto simp: commits_at_def majority_def)
    define g' where "g' = g\<lparr>comm := insert (current_term (node_of x l), c) (comm g)\<rparr>"
    have m: "m = (node_of x l)\<lparr>commit_index := c\<rparr>" using adv by blast
    have "raft_inv (members x) ((node_of x)(l := m)) g' \<and> extends g g'"
      by (rule raft_inv_commit [OF inv l(1,2) _ _ _ _ maj])
         (use c com assms(3) l in \<open>auto simp: commits_at_def m g'_def in_sync_def\<close>)
    moreover from this have "cl_inv (put_node l m x) g'"
      by (intro cl_inv_put [OF assms(1) l(1)]) (auto simp: m)
    ultimately show ?thesis by blast
  qed
qed

lemma heartbeat_keeps_log:
  assumes "append_entries (from_leader l t L cm (length L)) n = (r, m)" and "rn_log n = L" and "current_term n = t"
  shows "rn_log m = L \<and> current_term m = t"
proof -
  let ?q = "from_leader l t L cm (length L)"
  have "\<not> ae_term ?q < current_term n" and "log_matches ?q n"
    using assms(2,3) by (auto simp: from_leader_def log_matches_def)
  from append_entries_accepted [OF assms(1) this] show ?thesis
    using assms(2,3) by (auto simp: new_log_def from_leader_def)
qed

lemma publish_loop_inv:
  assumes "publish_loop l t L cm ids x = (r, y)" and "cl_inv x g" and "leads x l t L" and "in_sync x l t L (set ids)"
    and "distinct ids" and "set ids \<subseteq> members x" and "cm \<le> commit_index (node_of x l)"
  shows "cl_inv y g \<and> only_changes (set ids - {l}) x y \<and> r \<noteq> Inl Panic \<and> (r = Inr () \<longrightarrow> in_sync y l t L (set ids))"
  using assms
proof (induction ids arbitrary: x)
  case (Cons f ids)
  show ?case
  proof (cases "live x l f")
    case False
    then have "publish_loop l t L cm ids x = (r, y)" using Cons.prems(1) by (auto simp: live_def split: if_splits)
    moreover have "in_sync x l t L (set ids)" using Cons.prems(4) by (simp add: in_sync_def)
    ultimately have "cl_inv y g \<and> only_changes (set ids - {l}) x y \<and> r \<noteq> Inl Panic \<and> (r = Inr () \<longrightarrow> in_sync y l t L (set ids))"
      using Cons.IH [of x] Cons.prems(2,3,5,6,7) by auto
    moreover from this have "in_sync y l t L (set (f # ids))" if "r = Inr ()"
      using that False live_only [of _ x y l f] by (auto simp: in_sync_def)
    moreover have "only_changes (set (f # ids) - {l}) x y" if "only_changes (set ids - {l}) x y"
      by (rule only_changes_trans [OF that only_changes_refl [of "{}"]]) auto
    ultimately show ?thesis by blast
  next
    case True
    have f: "f \<in> members x" "f \<noteq> l" "f \<notin> set ids" "rn_log (node_of x f) = L"
      using Cons.prems(4-6) True by (auto simp: live_def in_sync_def)
    obtain ra m where ra: "append_entries (from_leader l t L cm (length L)) (node_of x f) = (ra, m)" by fastforce
    let ?x = "put_node f m x"
    note app = append_from_leader [OF Cons.prems(2,3) f(1,2) _ Cons.prems(7) ra]
    have oc: "only_changes {f} x ?x" using only_changes_put [OF f(1)] by simp
    have eq: "publish_loop l t L cm (f # ids) x = and_then (on_node Panic f (append_entries (from_leader l t L cm (length L))))
        (\<lambda>_. publish_loop l t L cm ids) x"
      using True f(1,4) by (simp add: live_def member_get last_log_index_def from_leader_def Let_def)
    show ?thesis
    proof (cases ra)
      case (Inl e)
      with Cons.prems(1) ra have "y = ?x \<and> r = Inl (Err e)"
        unfolding eq by (simp add: and_then_def on_node_member [OF f(1)])
      with app(1) show ?thesis using only_changes_put [OF f(1), of "set (f # ids) - {l}"] f(2) by simp
    next
      case (Inr v)
      with Cons.prems(1) ra have rest: "publish_loop l t L cm ids ?x = (r, y)"
        unfolding eq by (simp add: and_then_def on_node_member [OF f(1)])
      have "leads ?x l t L" using leads_only [OF Cons.prems(3) oc] f(2) by simp
      moreover have "in_sync ?x l t L (set ids)"
        using in_sync_only [OF _ oc, of l t L "set ids"] Cons.prems(4) f(3) by (simp add: in_sync_def)
      moreover have "cm \<le> commit_index (node_of ?x l)" using Cons.prems(7) f(2) by simp
      ultimately have "cl_inv y g \<and> only_changes (set ids - {l}) ?x y \<and> r \<noteq> Inl Panic \<and> (r = Inr () \<longrightarrow> in_sync y l t L (set ids))"
        using Cons.IH [OF rest] app(1) Cons.prems(5,6) only_members [OF oc] by simp
      moreover from this have "only_changes (set (f # ids) - {l}) x y"
        by (intro only_changes_trans [OF oc]) (use f(2) in auto)
      moreover have "rn_log m = L \<and> current_term m = t"
        using heartbeat_keeps_log [OF ra f(4)] Cons.prems(4) True by (simp add: in_sync_def)
      ultimately show ?thesis using f(3) by (auto simp: in_sync_def only_changes_def)
    qed
  qed
qed auto

lemma apply_loop_inv:
  assumes "apply_loop ids x = (r, y)" and "cl_inv x g" and "set ids \<subseteq> members x"
  shows "cl_inv y g \<and> members y = members x \<and> r = Inr () \<and> (\<forall>i. rn_log (node_of y i) = rn_log (node_of x i)
    \<and> commit_index (node_of y i) = commit_index (node_of x i))"
  using assms
proof (induction ids arbitrary: x)
  case (Cons i ids)
  let ?n = "node_of x i"
  note inv = cl_invD [OF Cons.prems(2)]
  have i: "i \<in> members x" using Cons.prems(3) by simp
  have a: "bm_get (cl_applied x) i = Some (map e_command (take (last_applied ?n) (rn_log ?n)))"
    using inv(3) i by (simp add: applied_inv_def)
  have ix: "last_applied ?n \<le> commit_index ?n" "commit_index ?n \<le> length (rn_log ?n)"
    using raft_invD(5) [OF inv(1)] i covered_length [OF inv(1)] by (auto simp: index_inv_def)
  let ?m = "?n\<lparr>last_applied := commit_index ?n\<rparr>"
  let ?x = "(put_node i ?m x)\<lparr>cl_applied := bm_insert i (map e_command (take (last_applied ?n) (rn_log ?n))
      @ map e_command (drop (last_applied ?n) (take (commit_index ?n) (rn_log ?n)))) (cl_applied x)\<rparr>"
  have same: "node_of ?x = (node_of x)(i := ?m)" "members ?x = members x"
    using i by (auto simp: node_of_def members_def put_node_def)
  have cat: "take (last_applied ?n) (rn_log ?n) @ drop (last_applied ?n) (take (commit_index ?n) (rn_log ?n))
      = take (commit_index ?n) (rn_log ?n)"
    using ix(1) by (metis append_take_drop_id min.absorb1 take_take)
  have "raft_inv (members x) (node_of ?x) g" unfolding same by (rule raft_inv_apply [OF inv(1) i])
  moreover have "applied_inv ?x"
    using inv(3) i cat unfolding applied_inv_def same by (simp add: map_append [symmetric] put_node_def del: map_append)
  ultimately have "cl_inv ?x g" using inv(2) same(2) by (simp add: cl_inv_def put_node_def)
  moreover have "apply_loop ids ?x = (r, y)"
    using Cons.prems(1) i a take_applied_eq [OF ix] by (simp add: member_get put_node_def)
  ultimately show ?case
    using Cons.IH [of ?x] Cons.prems(3) same by auto
qed simp

lemma replicate_existing_inv:
  assumes "replicate_existing l x = (r, y)" and "cl_inv x g" and "leads x l t L"
  shows "r \<noteq> Inl Panic \<and> (\<exists>g'. cl_inv y g' \<and> extends g g' \<and> members y = members x
    \<and> (\<forall>c. r = Inr c \<longrightarrow> rn_log (node_of y l) = L \<and> commit_index (node_of y l) = c
         \<and> (\<forall>f \<in> members x. live x l f \<longrightarrow> rn_log (node_of y f) = L)))"
proof -
  let ?n = "node_of x l" and ?ids = "bm_keys (cl_nodes x)"
  have l: "l \<in> members x" "current_term ?n = t" "rn_log ?n = L" using assms(3) by (auto simp: leads_def)
  note card = members_card [OF assms(2)]
  obtain r1 x1 where loop: "replicate_loop l t L (commit_index ?n) ?ids [] x = (r1, x1)" by fastforce
  note lp = replicate_loop_inv [OF loop assms(2,3) card(3) _ order_refl]
  have eq: "replicate_existing l x = and_then (replicate_loop l t L (commit_index ?n) ?ids []) (\<lambda>matched.
       and_then (on_node Panic l (\<lambda>n. case advance_commit matched n of (c, n') \<Rightarrow> (Inr c, n'))) (\<lambda>commit x.
       and_then (publish_loop l t L commit (bm_keys (cl_nodes x))) (\<lambda>_.
       and_then apply_all (\<lambda>_ x. (Inr commit, x))) x)) x"
    using l by (simp add: replicate_existing_def member_get Let_def)
  show ?thesis
  proof (cases r1)
    case (Inl e)
    with assms(1) and_then_Inl [of _ x e x1] loop have "y = x1 \<and> r = Inl e" unfolding eq by simp
    with lp Inl card(4) show ?thesis by (auto intro: exI [of _ g])
  next
    case (Inr ms)
    have x1: "cl_inv x1 g" "only_changes (members x - {l}) x x1" "in_sync x1 l t L (members x)"
      "ms = map (\<lambda>f. if live x l f then length L else 0) (filter (\<lambda>f. f \<noteq> l) ?ids)"
      using lp Inr card(4) by auto
    have M1: "members x1 = members x" using only_members [OF x1(2)] .
    have keys: "bm_keys (cl_nodes x1) = ?ids"
      using sorted_list_of_set.idem_if_sorted_distinct [of "bm_keys (cl_nodes x1)"]
        sorted_list_of_set.idem_if_sorted_distinct [of ?ids]
        cl_invD(2) [OF assms(2)] cl_invD(2) [OF x1(1)] card(4) members_card(4) [OF x1(1)] M1
      by (simp add: bm_inv_def strict_sorted_iff)
    have ld1: "leads x1 l t L" using leads_only [OF assms(3) x1(2)] by simp
    have lv: "live x1 l = live x l" using live_only [OF x1(2)] by auto
    obtain c m where adv: "advance_commit ms (node_of x1 l) = (c, m)" by fastforce
    obtain g' where g': "cl_inv (put_node l m x1) g'" "extends g g'"
      using advance_commit_inv [OF x1(1) ld1 _ _ adv] x1(3,4) M1 keys lv by auto
    let ?x2 = "put_node l m x1"
    have m: "m = (node_of x1 l)\<lparr>commit_index := c\<rparr>" using advance_commit_eq [OF adv] by blast
    have l1: "l \<in> members x1" using ld1 by (simp add: leads_def)
    have M2: "members ?x2 = members x" using l1 M1 by auto
    have ld2: "leads ?x2 l t L" using ld1 by (simp add: leads_def m)
    have oc2: "only_changes {l} x1 ?x2" using only_changes_put [OF l1] by simp
    have "in_sync ?x2 l t L (members x - {l})"
      using in_sync_only [OF _ oc2, of l t L "members x - {l}"] x1(3) by (simp add: in_sync_def)
    then have sync2: "in_sync ?x2 l t L (members x)" by (auto simp: in_sync_def live_def)
    obtain r3 x3 where pub: "publish_loop l t L c (bm_keys (cl_nodes ?x2)) ?x2 = (r3, x3)" by fastforce
    have p: "cl_inv x3 g' \<and> only_changes (members x - {l}) ?x2 x3 \<and> r3 \<noteq> Inl Panic
        \<and> (r3 = Inr () \<longrightarrow> in_sync x3 l t L (members x))"
      using publish_loop_inv [OF pub g'(1) ld2 _ members_card(3) [OF g'(1)]] members_card(4) [OF g'(1)] M2 sync2
      by (simp add: m)
    have step: "replicate_existing l x = and_then (publish_loop l t L c (bm_keys (cl_nodes ?x2)))
        (\<lambda>_. and_then apply_all (\<lambda>_ x. (Inr c, x))) ?x2"
      unfolding eq using loop Inr adv l1 by (simp add: and_then_def [of "replicate_loop l t L (commit_index ?n) ?ids []"]
          and_then_def [of "on_node Panic l f" for f] on_node_member)
    show ?thesis
    proof (cases r3)
      case (Inl e)
      with assms(1) pub have "y = x3 \<and> r = Inl e" unfolding step by (simp add: and_then_def)
      with p Inl g'(2) only_members [of _ ?x2 x3] M2 show ?thesis by (auto intro!: exI [of _ g'])
    next
      case (Inr u)
      obtain r4 x4 where ap: "apply_loop (bm_keys (cl_nodes x3)) x3 = (r4, x4)" by fastforce
      have x3: "cl_inv x3 g'" "members x3 = members x" using p only_members [of _ ?x2 x3] M2 by auto
      have a: "cl_inv x4 g' \<and> members x4 = members x3 \<and> r4 = Inr () \<and> (\<forall>i. rn_log (node_of x4 i) = rn_log (node_of x3 i)
          \<and> commit_index (node_of x4 i) = commit_index (node_of x3 i))"
        by (rule apply_loop_inv [OF ap x3(1)]) (use members_card(4) [OF x3(1)] in simp)
      have y: "y = x4 \<and> r = Inr c"
        using assms(1) pub Inr ap a unfolding step by (simp add: and_then_def apply_all_def)
      have "node_of x3 l = m" using p by (simp add: only_changes_def)
      then have "rn_log (node_of y l) = L \<and> commit_index (node_of y l) = c"
        using y a ld1 by (simp add: m leads_def)
      moreover have "rn_log (node_of y f) = L" if "f \<in> members x" "live x l f" for f
        using p that y a Inr live_only [of _ ?x2 x3 l] lv live_only [OF oc2] M2 by (auto simp: in_sync_def)
      ultimately show ?thesis using y a g'(2) x3(2) by (auto intro!: exI [of _ g'])
    qed
  qed
qed

section \<open>Runs of the cluster\<close>

text \<open>
  The operations in any order. \<open>synchronize\<close> is called on a leader. A restart opens all nodes again from what
  their disks kept; it needs the state of every node to be on disk, which is so as long as no write has failed.
\<close>

inductive cluster_step :: "raft_cluster \<Rightarrow> raft_cluster \<Rightarrow> bool" where
  cs_elect: "elect c x = (r, y) \<Longrightarrow> cluster_step x y"
| cs_timeout: "elect_by_timeout x = (r, y) \<Longrightarrow> cluster_step x y"
| cs_replicate: "replicate_command l command x = (r, y) \<Longrightarrow> cluster_step x y"
| cs_synchronize: "bm_get (cl_nodes x) l = Some n \<Longrightarrow> rn_role n = Leader \<Longrightarrow> synchronize l x = (r, y) \<Longrightarrow> cluster_step x y"
| cs_partition: "cluster_step x (partition_nodes a b x)"
| cs_isolate: "cluster_step x (isolate i x)"
| cs_heal: "cluster_step x (cluster_heal_all x)"
| cs_stop: "cluster_step x (stop_node i x)"
| cs_start: "cluster_step x (start_node i x)"
| cs_restart: "(\<And>i n. bm_get (cl_nodes x) i = Some n \<Longrightarrow> on_disk n \<and> crash_image (rn_wal n) (files i)) \<Longrightarrow>
    cluster_open (\<lambda>i. Some (files i)) (\<lambda>_. []) (bm_keys (cl_nodes x)) seed = Inr y \<Longrightarrow> cluster_step x y"

lemma cl_inv_net:
  assumes "cl_inv x g" and "cl_nodes y = cl_nodes x" and "cl_applied y = cl_applied x"
  shows "cl_inv y g \<and> members y = members x"
proof -
  have "node_of y = node_of x" "members y = members x" using assms(2) by (auto simp: node_of_def members_def)
  with assms show ?thesis by (simp add: cl_inv_def applied_inv_def)
qed

lemma isolate_frame: "cl_nodes (isolate i x) = cl_nodes x \<and> cl_applied (isolate i x) = cl_applied x"
proof -
  have "cl_nodes (foldl (\<lambda>x peer. if peer \<noteq> i then x\<lparr>cl_transport := partition_link i peer (cl_transport x)\<rparr> else x) x ps) = cl_nodes x
    \<and> cl_applied (foldl (\<lambda>x peer. if peer \<noteq> i then x\<lparr>cl_transport := partition_link i peer (cl_transport x)\<rparr> else x) x ps) = cl_applied x" for ps
    by (induction ps arbitrary: x) auto
  then show ?thesis by (simp add: isolate_def)
qed

lemma replicate_command_inv:
  assumes "replicate_command l command x = (r, y)" and "cl_inv x g"
  shows "r \<noteq> Inl Panic \<and> (\<exists>g'. cl_inv y g' \<and> extends g g' \<and> members y = members x
    \<and> (\<forall>i. r = Inr i \<longrightarrow> l \<in> members y \<and> 0 < i \<and> i \<le> commit_index (node_of y l) \<and> i \<le> length (rn_log (node_of y l))
         \<and> e_command (rn_log (node_of y l) ! (i - 1)) = command))"
proof (cases "l \<in> cl_stopped x \<or> l \<notin> members x \<or> rn_role (node_of x l) \<noteq> Leader")
  case True
  have "r \<noteq> Inl Panic \<and> (\<exists>e. r = Inl e) \<and> cl_inv y g \<and> members y = members x"
  proof (cases "l \<in> cl_stopped x \<or> l \<notin> members x")
    case True
    then show ?thesis
      using assms by (auto simp: replicate_command_def and_then_def on_node_missing unknown_node_def split: if_splits)
  next
    case False
    with True have l: "l \<notin> cl_stopped x" "l \<in> members x" "rn_role (node_of x l) \<noteq> Leader" by auto
    then have "y = put_node l (node_of x l) x \<and> (\<exists>e. r = Inl (Err e))"
      using assms(1) by (auto simp: replicate_command_def and_then_def on_node_member append_as_leader_def)
    moreover have "cl_inv (put_node l (node_of x l) x) g"
      by (rule cl_inv_quiet [OF assms(2) l(2)]) (simp_all add: votes_kept_def)
    ultimately show ?thesis using l(2) by auto
  qed
  then show ?thesis by (auto intro: exI [of _ g])
next
  case False
  then have l: "l \<notin> cl_stopped x" "l \<in> members x" "rn_role (node_of x l) = Leader" by auto
  let ?n = "node_of x l"
  let ?e = "\<lparr>e_term = current_term ?n, e_command = command\<rparr>"
  obtain ra m where ra: "append_as_leader command ?n = (ra, m)" by fastforce
  from append_as_leader_frame [OF ra] l(3) obtain w where m: "m = ?n\<lparr>rn_log := rn_log ?n @ [?e], rn_wal := w\<rparr>"
    and idx: "\<forall>i. ra = Inr i \<longrightarrow> i = length (rn_log ?n) + 1" by auto
  define g1 where "g1 = g\<lparr>llog := (llog g)(current_term ?n := rn_log m)\<rparr>"
  have ri: "raft_inv (members x) ((node_of x)(l := m)) g1 \<and> extends g g1"
    by (rule raft_inv_append [OF cl_invD(1) [OF assms(2)] l(2,3), of ?e]) (simp_all add: m g1_def)
  let ?x = "put_node l m x"
  have la: "last_applied ?n \<le> length (rn_log ?n)"
    using raft_invD(5) [OF cl_invD(1) [OF assms(2)]] covered_length [OF cl_invD(1) [OF assms(2)]] l(2)
    by (fastforce simp: index_inv_def)
  have inv: "cl_inv ?x g1" using la ri by (intro cl_inv_put [OF assms(2) l(2)]) (simp_all add: m)
  have M: "members ?x = members x" using l(2) by auto
  show ?thesis
  proof (cases ra)
    case (Inl e)
    with assms(1) l ra have "y = ?x \<and> r = Inl (Err e)"
      by (auto simp: replicate_command_def and_then_def on_node_member)
    with inv M ri show ?thesis by (auto intro!: exI [of _ g1])
  next
    case (Inr i)
    have i: "i = length (rn_log ?n) + 1" using idx Inr by blast
    have ld: "leads ?x l (current_term ?n) (rn_log m)" using l by (simp add: leads_def m)
    obtain r2 x2 where rep: "replicate_existing l ?x = (r2, x2)" by fastforce
    from replicate_existing_inv [OF rep inv ld] obtain g2 where g2: "r2 \<noteq> Inl Panic" "cl_inv x2 g2" "extends g1 g2"
      "members x2 = members ?x" "\<And>c. r2 = Inr c \<Longrightarrow> rn_log (node_of x2 l) = rn_log m \<and> commit_index (node_of x2 l) = c"
      by blast
    have ext: "extends g g2" using ri g2(3) extends_trans by blast
    have lm: "l \<in> members x2" using l(2) g2(4) M by simp
    then have "y = x2 \<and> r \<noteq> Inl Panic \<and> (\<forall>k. r = Inr k \<longrightarrow> k = i \<and> i \<le> commit_index (node_of x2 l) \<and> (\<exists>c. r2 = Inr c))"
      using assms(1) l ra Inr rep g2(1)
      by (auto simp: replicate_command_def and_then_def on_node_member member_get split: sum.splits if_splits)
    with g2 ext M lm i show ?thesis by (auto intro!: exI [of _ g2] simp: m nth_append)
  qed
qed

lemma synchronize_inv:
  assumes "synchronize l x = (r, y)" and "cl_inv x g" and "leads x l t L"
  shows "r \<noteq> Inl Panic \<and> (\<exists>g'. cl_inv y g' \<and> extends g g' \<and> members y = members x)"
proof -
  obtain r1 x1 where rep: "replicate_existing l x = (r1, x1)" by fastforce
  have "y = x1 \<and> (r = Inl Panic \<longrightarrow> r1 = Inl Panic)"
    using assms(1) rep by (auto simp: synchronize_def and_then_def split: sum.splits)
  with replicate_existing_inv [OF rep assms(2,3)] show ?thesis by blast
qed

lemma elect_by_timeout_inv:
  assumes "elect_by_timeout x = (r, y)" and "cl_inv x g"
  shows "r \<noteq> Inl Panic \<and> (\<exists>g'. cl_inv y g' \<and> extends g g' \<and> members y = members x)"
proof (cases "map_option fst (min_by_key (\<lambda>(i, node). election_timeout_ms node) (filter (\<lambda>(i, node). i \<notin> cl_stopped x) (cl_nodes x)))")
  case None
  then have "y = x \<and> r = Inr None" using assms(1) by (simp add: elect_by_timeout_def)
  with assms(2) show ?thesis by (auto intro: exI [of _ g])
next
  case (Some c)
  obtain r1 x1 where e: "elect c x = (r1, x1)" by fastforce
  have "y = x1 \<and> (r = Inl Panic \<longrightarrow> r1 = Inl Panic)"
    using assms(1) Some e unfolding elect_by_timeout_def by (auto simp: and_then_def split: sum.splits)
  with elect_inv [OF e assms(2)] show ?thesis by blast
qed

section \<open>Opening\<close>

lemma raft_open_frame:
  assumes "raft_open i file faults seed = Inr n"
  shows "rn_id n = i \<and> commit_index n = 0 \<and> last_applied n = 0 \<and> rn_role n = Follower"
proof -
  let ?r = "replay file"
  obtain res w where w: "(if truncated ?r then truncate_path (valid_bytes ?r) (open_wal file faults)
      else (Inr (), open_wal file faults)) = (res, w)" by fastforce
  show ?thesis
    using assms unfolding raft_open_def Let_def w by (cases res) (auto simp: rbind_Inr_iff)
qed

lemma open_nodes_eq:
  assumes "open_nodes files faults seed ids nodes applied = Inr (nodes', applied')" and "bm_inv nodes" and "distinct ids"
  shows "bm_inv nodes' \<and> fst ` set nodes' = fst ` set nodes \<union> set ids
    \<and> (\<forall>i \<in> set ids. \<exists>n. raft_open i (files i) (faults i) seed = Inr n \<and> bm_get nodes' i = Some n \<and> bm_get applied' i = Some [])
    \<and> (\<forall>i. i \<notin> set ids \<longrightarrow> bm_get nodes' i = bm_get nodes i \<and> bm_get applied' i = bm_get applied i)"
  using assms
proof (induction ids arbitrary: nodes applied)
  case (Cons i ids)
  then obtain n where n: "raft_open i (files i) (faults i) seed = Inr n"
    and rest: "open_nodes files faults seed ids (bm_insert i n nodes) (bm_insert i [] applied) = Inr (nodes', applied')"
    by (auto simp: rbind_Inr_iff)
  have "bm_inv (bm_insert i n nodes)" "distinct ids" "i \<notin> set ids" using Cons.prems(2,3) by auto
  with Cons.IH [OF rest] n show ?case by auto
qed simp

lemma cluster_open_eq:
  assumes "cluster_open files faults ids seed = Inr y" and "distinct ids"
  shows "bm_inv (cl_nodes y) \<and> members y = set ids
    \<and> (\<forall>i \<in> set ids. raft_open i (files i) (faults i) seed = Inr (node_of y i) \<and> bm_get (cl_applied y) i = Some [])"
proof -
  obtain nodes applied where o: "open_nodes files faults seed ids [] [] = Inr (nodes, applied)"
    and y: "y = \<lparr>cl_nodes = nodes, cl_transport = empty_transport, cl_stopped = {}, cl_applied = applied\<rparr>"
    using assms(1) by (auto simp: cluster_open_def rbind_Inr_iff)
  from open_nodes_eq [OF o bm_inv_Nil assms(2)] show ?thesis
    by (auto simp: y members_def node_of_def)
qed

lemma raft_inv_restart:
  assumes "raft_inv M N g" and "\<And>n. n \<in> M \<Longrightarrow> state_of (N' n) = state_of (N n) \<and> rn_role (N' n) = Follower
      \<and> commit_index (N' n) = 0 \<and> last_applied (N' n) = 0"
  shows "raft_inv M N' g"
proof -
  note inv = raft_invD [OF assms(1)]
  have same: "current_term (N' n) = current_term (N n)" "voted_for (N' n) = voted_for (N n)" "rn_log (N' n) = rn_log (N n)"
    if "n \<in> M" for n using assms(2) [OF that] by (simp_all add: state_of_def)
  have Q: "n \<in> M" if "majority M Q" "n \<in> Q" for n Q using that by (auto simp: majority_def)
  have "votes_inv M N' g"
    unfolding votes_inv_def
  proof (intro allI impI)
    fix t l
    assume l: "lead g t = Some l"
    obtain Q where "majority M Q"
      "\<And>n. n \<in> Q \<Longrightarrow> t \<le> current_term (N n) \<and> (current_term (N n) = t \<longrightarrow> voted_for (N n) = Some l)"
      using lead_quorum [OF assms(1) l] by blast
    then have "majority M Q \<and> (\<forall>n \<in> Q. t \<le> current_term (N' n) \<and> (current_term (N' n) = t \<longrightarrow> voted_for (N' n) = Some l))"
      using same Q by simp
    moreover have "l \<in> M" "t \<le> current_term (N' l)" using lead_member [OF assms(1) l] same by auto
    ultimately show "l \<in> M \<and> t \<le> current_term (N' l) \<and> (\<exists>Q. majority M Q \<and>
        (\<forall>n \<in> Q. t \<le> current_term (N' n) \<and> (current_term (N' n) = t \<longrightarrow> voted_for (N' n) = Some l)))" by blast
  qed
  moreover have "leaders_inv M N' g" using assms(2) by (simp add: leaders_inv_def)
  moreover have "logs_inv M N' g" using inv(3) same by (simp add: logs_inv_def)
  moreover have "comm_inv M N' g"
    unfolding comm_inv_def
  proof (intro allI impI)
    fix t i
    assume c: "(t, i) \<in> comm g"
    obtain P where "majority M P" "\<And>n. n \<in> P \<Longrightarrow> t \<le> current_term (N n) \<and> take i (rn_log (N n)) = take i (llog g t)"
      using comm_quorum [OF assms(1) c] by blast
    then have "majority M P \<and> (\<forall>n \<in> P. t \<le> current_term (N' n) \<and> take i (rn_log (N' n)) = take i (llog g t))"
      using same Q by simp
    with comm_facts [OF assms(1) c]
    show "lead g t \<noteq> None \<and> 0 < i \<and> i \<le> length (llog g t) \<and> e_term (llog g t ! (i - 1)) = t
      \<and> (\<exists>Q. majority M Q \<and> (\<forall>n \<in> Q. t \<le> current_term (N' n) \<and> take i (rn_log (N' n)) = take i (llog g t)))
      \<and> (\<forall>t' \<ge> t. lead g t' \<noteq> None \<longrightarrow> take i (llog g t') = take i (llog g t))" by blast
  qed
  moreover have "index_inv M N' g" using assms(2) by (simp add: index_inv_def covered_def)
  ultimately show ?thesis by (simp add: raft_inv_def)
qed

lemma cl_inv_restart:
  assumes "cl_inv x g" and "\<And>i n. bm_get (cl_nodes x) i = Some n \<Longrightarrow> on_disk n \<and> crash_image (rn_wal n) (files i)"
    and "cluster_open (\<lambda>i. Some (files i)) (\<lambda>_. []) (bm_keys (cl_nodes x)) seed = Inr y"
  shows "cl_inv y g \<and> members y = members x"
proof -
  note y = cluster_open_eq [OF assms(3) members_card(3) [OF assms(1)]]
  have M: "members y = members x" using y members_card(4) [OF assms(1)] by simp
  have node: "raft_open i (Some (files i)) [] seed = Inr (node_of y i)" "bm_get (cl_applied y) i = Some []"
    "state_of (node_of y i) = state_of (node_of x i)" if "i \<in> members x" for i
  proof -
    show o: "raft_open i (Some (files i)) [] seed = Inr (node_of y i)" "bm_get (cl_applied y) i = Some []"
      using y that unfolding members_card(4) [OF assms(1)] by blast+
    have "on_disk (node_of x i) \<and> crash_image (rn_wal (node_of x i)) (files i)" using assms(2) that by (simp add: member_get)
    with on_disk_open [of "node_of x i" "files i" i seed] o(1) show "state_of (node_of y i) = state_of (node_of x i)" by auto
  qed
  note frame = raft_open_frame [OF node(1)]
  have "raft_inv (members x) (node_of y) g"
    by (rule raft_inv_restart [OF cl_invD(1) [OF assms(1)]]) (use node frame in auto)
  moreover have "applied_inv y" using node frame unfolding applied_inv_def M by simp
  ultimately show ?thesis using y M by (simp add: cl_inv_def)
qed

lemma cl_inv_fresh:
  assumes "cluster_open (\<lambda>_. None) faults ids seed = Inr x" and "distinct ids"
  shows "cl_inv x \<lparr>lead = \<lambda>_. None, llog = \<lambda>_. [], comm = {}\<rparr>"
proof -
  note x = cluster_open_eq [OF assms]
  have node: "rn_log (node_of x i) = [] \<and> rn_role (node_of x i) = Follower \<and> commit_index (node_of x i) = 0
      \<and> last_applied (node_of x i) = 0 \<and> rn_id (node_of x i) = i" if "i \<in> set ids" for i
  proof -
    have "raft_open i None (faults i) seed = Inr (node_of x i)" using x that by simp
    moreover from this have "rn_log (node_of x i) = []"
      by (auto simp: raft_open_def replay_def Let_def default_state_def dest: sym [of _ "node_of x i"])
    ultimately show ?thesis using raft_open_frame by blast
  qed
  have "raft_inv (members x) (node_of x) \<lparr>lead = \<lambda>_. None, llog = \<lambda>_. [], comm = {}\<rparr>"
    using x node by (simp add: raft_inv_def votes_inv_def leaders_inv_def logs_inv_def comm_inv_def index_inv_def backed_def covered_def)
  moreover have "applied_inv x" using x node by (simp add: applied_inv_def)
  ultimately show ?thesis using x by (simp add: cl_inv_def)
qed

lemma cluster_step_inv:
  assumes "cluster_step x y" and "cl_inv x g"
  shows "\<exists>g'. cl_inv y g' \<and> extends g g' \<and> members y = members x"
  using assms(1)
proof (cases rule: cluster_step.cases)
  case (cs_elect c r)
  then show ?thesis using elect_inv [OF _ assms(2)] by blast
next
  case (cs_timeout r)
  then show ?thesis using elect_by_timeout_inv [OF _ assms(2)] by blast
next
  case (cs_replicate l command r)
  then show ?thesis using replicate_command_inv [OF _ assms(2)] by blast
next
  case (cs_synchronize l n r)
  then have "leads x l (current_term n) (rn_log n)"
    by (auto simp: leads_def members_def node_of_def dest: map_of_SomeD intro: rev_image_eqI)
  with synchronize_inv [OF cs_synchronize(3) assms(2)] show ?thesis by blast
next
  case (cs_restart files seed)
  with cl_inv_restart [OF assms(2)] show ?thesis by (blast intro: extends_refl)
next
  case (cs_isolate i)
  with cl_inv_net [OF assms(2)] isolate_frame show ?thesis by (blast intro: extends_refl)
next
  case (cs_partition a b)
  with cl_inv_net [OF assms(2), of y] show ?thesis by (intro exI [of _ g]) (simp add: partition_nodes_def)
next
  case cs_heal
  with cl_inv_net [OF assms(2), of y] show ?thesis by (intro exI [of _ g]) (simp add: cluster_heal_all_def)
next
  case (cs_stop i)
  with cl_inv_net [OF assms(2), of y] show ?thesis by (intro exI [of _ g]) (simp add: stop_node_def)
next
  case (cs_start i)
  with cl_inv_net [OF assms(2), of y] show ?thesis by (intro exI [of _ g]) (simp add: start_node_def)
qed

lemma cluster_steps_inv:
  assumes "cluster_step\<^sup>*\<^sup>* x y" and "cl_inv x g"
  shows "\<exists>g'. cl_inv y g' \<and> extends g g' \<and> members y = members x"
  using assms
proof (induction rule: rtranclp_induct)
  case base
  then show ?case by (auto intro: exI [of _ g])
next
  case (step y z)
  then obtain g' where g': "cl_inv y g'" "extends g g'" "members y = members x" by blast
  from cluster_step_inv [OF step(2) g'(1)] g'(2,3) show ?case using extends_trans by metis
qed

end
