(* ===== verification/Raft_Properties.thy ===== *)
theory Raft_Properties
  imports Raft_Cluster_Safety
begin

text \<open>
  The properties of the Raft cluster. Their runs are those of \<open>cluster_step\<close>: \<open>synchronize\<close> is called on leaders only,
  and all nodes are restarted only when their disks report no errors and hold their states. A cluster of one node that
  elects itself and replicates one command is their concrete instance.
\<close>

section \<open>Comparing committed prefixes\<close>

lemma committed_comparable:
  assumes "raft_inv M N g" and "covered g t c log" and "covered g t' c' log'" and "c \<le> c'"
  shows "take c log = take c log'"
proof (cases "c = 0")
  case False
  with assms(2-4) obtain t1 i1 t2 i2 where c: "(t1, i1) \<in> comm g" "c \<le> i1" "take c log = take c (llog g t1)"
    and c': "(t2, i2) \<in> comm g" "c' \<le> i2" "take c' log' = take c' (llog g t2)"
    by (auto simp: covered_def)
  note f1 = comm_facts [OF assms(1) c(1)] and f2 = comm_facts [OF assms(1) c'(1)]
  have "take c (llog g t1) = take c (llog g t2)"
  proof (cases "t1 \<le> t2")
    case True
    with f1(5) f2(1) have "take i1 (llog g t2) = take i1 (llog g t1)" by blast
    with c(2) show ?thesis by (metis min.absorb1 take_take)
  next
    case False
    with f2(5) f1(1) have "take i2 (llog g t1) = take i2 (llog g t2)" by simp
    moreover have "c \<le> i2" using assms(4) c'(2) by simp
    ultimately show ?thesis by (metis min.absorb1 take_take)
  qed
  moreover have "take c log' = take c (llog g t2)"
    using c'(3) assms(4) by (metis min.absorb1 take_take)
  ultimately show ?thesis using c(3) by simp
qed simp

lemma node_covered:
  assumes "cl_inv x g" and "i \<in> members x"
  shows "covered g (current_term (node_of x i)) (commit_index (node_of x i)) (rn_log (node_of x i))"
    and "last_applied (node_of x i) \<le> commit_index (node_of x i)"
    and "commit_index (node_of x i) \<le> length (rn_log (node_of x i))"
proof -
  show c: "covered g (current_term (node_of x i)) (commit_index (node_of x i)) (rn_log (node_of x i))"
    "last_applied (node_of x i) \<le> commit_index (node_of x i)"
    using raft_invD(5) [OF cl_invD(1) [OF assms(1)]] assms(2) by (auto simp: index_inv_def)
  show "commit_index (node_of x i) \<le> length (rn_log (node_of x i))"
    using covered_length [OF cl_invD(1) [OF assms(1)] c(1)] .
qed

lemma take_le: "m \<le> n \<Longrightarrow> take n a = take n b \<Longrightarrow> take m a = take m b"
  by (metis min.absorb1 take_take)

section \<open>A run\<close>

definition solo :: raft_cluster where
  "solo = \<lparr>cl_nodes = [(1, fresh_node)], cl_transport = empty_transport, cl_stopped = {}, cl_applied = [(1, [])]\<rparr>"

lemma open_solo: "cluster_open (\<lambda>_. None) (\<lambda>_. []) [1] 0 = Inr solo"
  by (simp add: cluster_open_def open_fresh_node solo_def)

definition solo_leader :: "wal \<Rightarrow> raft_cluster" where
  "solo_leader w = solo\<lparr>cl_nodes := [(1, fresh_node\<lparr>current_term := 1, rn_role := Leader, leader_id := Some 1,
    voted_for := Some 1, rn_wal := w\<rparr>)]\<rparr>"

lemma elect_solo: "\<exists>w. wal_faults w = [] \<and> elect 1 solo = (Inr True, solo_leader w)"
proof -
  let ?n = "fresh_node\<lparr>current_term := 1, rn_role := Candidate, leader_id := None, voted_for := Some 1\<rparr>"
  have "state_fits (state_of ?n)"
    by (simp add: state_fits_def state_of_def fresh_node_def state_bytes_def fits_record_def)
  then obtain w where p: "persist ?n = (Inr (), ?n\<lparr>rn_wal := w\<rparr>)"
    using persist_ok [of ?n] by (auto simp: fresh_node_def)
  moreover have "rn_id fresh_node = 1" "checked_add_u64 (current_term fresh_node) 1 = Some 1"
    by (simp_all add: fresh_node_def checked_add_u64_def)
  ultimately have "elect 1 solo = (Inr True, solo_leader w)"
    by (simp add: elect_def solo_def on_node_def start_election_def and_then_def become_leader_def solo_leader_def)
  moreover have "wal_faults w = []"
    using p by (auto simp: persist_def fresh_node_def and_then_def append_record_def write_all_def next_outcome_def
        sync_def sync_all_def split: sum.splits prod.splits if_splits dest!: arg_cong [where f = rn_wal])
  ultimately show ?thesis by blast
qed

definition solo_done :: "wal \<Rightarrow> raft_cluster" where
  "solo_done w = solo\<lparr>cl_nodes := [(1, fresh_node\<lparr>current_term := 1, rn_role := Leader, leader_id := Some 1,
      voted_for := Some 1, rn_log := [\<lparr>e_term = 1, e_command = [7]\<rparr>], commit_index := 1, last_applied := 1, rn_wal := w\<rparr>)],
    cl_applied := [(1, [[7]])]\<rparr>"

lemma replicate_solo:
  assumes "wal_faults w = []"
  shows "\<exists>w'. replicate_command 1 [7] (solo_leader w) = (Inr 1, solo_done w')"
proof -
  let ?n = "fresh_node\<lparr>current_term := 1, rn_role := Leader, leader_id := Some 1, voted_for := Some 1, rn_wal := w,
    rn_log := [\<lparr>e_term = 1, e_command = [7]\<rparr>]\<rparr>"
  have "state_fits (state_of ?n)"
    by (simp add: state_fits_def state_of_def fresh_node_def state_bytes_def fits_record_def entry_fits_def entry_bytes_def)
  then obtain w' where p: "persist ?n = (Inr (), ?n\<lparr>rn_wal := w'\<rparr>)"
    using persist_ok [of ?n] assms by (auto simp: fresh_node_def)
  define m where "m = fresh_node\<lparr>current_term := 1, rn_role := Leader, leader_id := Some 1, voted_for := Some 1,
    rn_log := [\<lparr>e_term = 1, e_command = [7]\<rparr>], rn_wal := w'\<rparr>"
  have a: "append_as_leader [7] (fresh_node\<lparr>current_term := 1, rn_role := Leader, leader_id := Some 1, voted_for := Some 1, rn_wal := w\<rparr>)
      = (Inr 1, m)"
    using p by (simp add: append_as_leader_def and_then_def last_log_index_def fresh_node_def m_def)
  have adv: "advance_commit [] m = (1, m\<lparr>commit_index := 1\<rparr>)"
    by (simp add: advance_commit_def m_def fresh_node_def last_log_index_def)
  have app: "take_applied (m\<lparr>commit_index := 1\<rparr>) = Some ([\<lparr>e_term = 1, e_command = [7]\<rparr>], m\<lparr>commit_index := 1, last_applied := 1\<rparr>)"
    by (subst take_applied_eq) (simp_all add: m_def fresh_node_def)
  have "replicate_existing 1 (solo\<lparr>cl_nodes := [(1, m)]\<rparr>) =
      (Inr 1, solo\<lparr>cl_nodes := [(1, m\<lparr>commit_index := 1, last_applied := 1\<rparr>)], cl_applied := [(1, [[7]])]\<rparr>)"
    by (simp add: replicate_existing_def Let_def and_then_def on_node_def adv apply_all_def) (simp add: solo_def app [unfolded One_nat_def])
  then have "replicate_command 1 [7] (solo_leader w) = (Inr 1, solo_done w')"
    by (simp add: replicate_command_def solo_leader_def on_node_def and_then_def a)
       (simp add: solo_def solo_done_def m_def fresh_node_def)
  then show ?thesis by blast
qed

section \<open>Properties\<close>

text \<open>
  C32. Election safety: in every run, whatever elections, partitions, stops and disk errors happen, and through restarts
  when the disks report no errors and hold the states of the nodes, two nodes that are leaders of the same term are the
  same node.
\<close>

theorem at_most_one_leader_per_term:
  assumes "cluster_open (\<lambda>_. None) faults ids seed = Inr x0" and "distinct ids" and "cluster_step\<^sup>*\<^sup>* x0 x"
    and "bm_get (cl_nodes x) i = Some n" and "bm_get (cl_nodes x) j = Some m"
    and "rn_role n = Leader" and "rn_role m = Leader" and "current_term n = current_term m"
  shows "i = j"
proof -
  obtain g where inv: "cl_inv x g" using cluster_steps_inv [OF assms(3) cl_inv_fresh [OF assms(1,2)]] by blast
  have "i \<in> members x" "j \<in> members x" "node_of x i = n" "node_of x j = m"
    using assms(4,5) by (auto simp: member_get node_of_def)
  with leader_log [OF cl_invD(1) [OF inv]] assms(6-8) show ?thesis by (metis option.inject)
qed

theorem at_most_one_leader_per_term_witness:
  "\<exists>x n. elect 1 solo = (Inr True, x) \<and> bm_get (cl_nodes x) 1 = Some n \<and> rn_role n = Leader
    \<and> (\<forall>j m. bm_get (cl_nodes x) j = Some m \<and> rn_role m = Leader \<and> current_term m = current_term n \<longrightarrow> 1 = j)"
proof -
  obtain w where e: "elect 1 solo = (Inr True, solo_leader w)" using elect_solo by blast
  let ?n = "fresh_node\<lparr>current_term := 1, rn_role := Leader, leader_id := Some 1, voted_for := Some 1, rn_wal := w\<rparr>"
  have run: "cluster_step\<^sup>*\<^sup>* solo (solo_leader w)" using cs_elect [OF e] by (rule r_into_rtranclp)
  have n: "bm_get (cl_nodes (solo_leader w)) 1 = Some ?n" "rn_role ?n = Leader" by (simp_all add: solo_leader_def)
  have "1 = j" if "bm_get (cl_nodes (solo_leader w)) j = Some m" "rn_role m = Leader" "current_term m = current_term ?n" for j m
    using at_most_one_leader_per_term [OF open_solo _ run n(1) that(1) n(2) that(2)] that(3) by simp
  with e n show ?thesis by blast
qed

text \<open>
  C33. State machine safety: in every run in which \<open>synchronize\<close> is called on leaders only and all nodes are restarted
  only when their disks report no errors and hold their states, of the commands applied by two nodes one sequence is
  a prefix of the other; no two nodes ever apply different commands at the same position. A \<open>synchronize\<close> on a node
  that does not lead, which the code does not refuse, can overwrite committed entries.
\<close>

theorem applied_commands_agree:
  assumes "cluster_open (\<lambda>_. None) faults ids seed = Inr x0" and "distinct ids" and "cluster_step\<^sup>*\<^sup>* x0 x"
    and "i \<in> set ids" and "j \<in> set ids"
  shows "\<exists>a b. bm_get (cl_applied x) i = Some a \<and> bm_get (cl_applied x) j = Some b
    \<and> (take (length a) b = a \<or> take (length b) a = b)"
proof -
  obtain g where inv: "cl_inv x g" and M: "members x = set ids"
    using cluster_steps_inv [OF assms(3) cl_inv_fresh [OF assms(1,2)]] cluster_open_eq [OF assms(1,2)] by auto
  have mem: "i \<in> members x" "j \<in> members x" using assms(4,5) M by auto
  let ?a = "\<lambda>k. map e_command (take (last_applied (node_of x k)) (rn_log (node_of x k)))"
  have ap: "bm_get (cl_applied x) k = Some (?a k)" "length (?a k) = last_applied (node_of x k)" if "k \<in> members x" for k
    using cl_invD(3) [OF inv] node_covered [OF inv that] that by (auto simp: applied_inv_def)
  have agree: "take (length (?a k)) (?a k') = ?a k"
    if k: "k \<in> members x" "k' \<in> members x" "last_applied (node_of x k) \<le> last_applied (node_of x k')" for k k'
  proof -
    note c = node_covered [OF inv k(1)] and c' = node_covered [OF inv k(2)]
    have "take (last_applied (node_of x k)) (rn_log (node_of x k)) = take (last_applied (node_of x k)) (rn_log (node_of x k'))"
    proof (cases "commit_index (node_of x k) \<le> commit_index (node_of x k')")
      case True
      from committed_comparable [OF cl_invD(1) [OF inv] c(1) c'(1) True] c(2) show ?thesis by (rule take_le [rotated])
    next
      case False
      with committed_comparable [OF cl_invD(1) [OF inv] c'(1) c(1)]
      have "take (commit_index (node_of x k')) (rn_log (node_of x k)) = take (commit_index (node_of x k')) (rn_log (node_of x k'))" by simp
      moreover have "last_applied (node_of x k) \<le> commit_index (node_of x k')" using k(3) c'(2) by simp
      ultimately show ?thesis using take_le by blast
    qed
    with k(3) c show ?thesis by (simp add: take_map min_def)
  qed
  show ?thesis
    using ap(1) [OF mem(1)] ap(1) [OF mem(2)] agree [OF mem] agree [OF mem(2,1)]
    by (meson nat_le_linear)
qed

theorem applied_commands_agree_witness:
  "\<exists>x w. elect 1 solo = (Inr True, solo_leader w) \<and> replicate_command 1 [7] (solo_leader w) = (Inr 1, x)
    \<and> (\<exists>a b. bm_get (cl_applied x) 1 = Some a \<and> bm_get (cl_applied x) 1 = Some b
         \<and> (take (length a) b = a \<or> take (length b) a = b) \<and> a = [[7]])"
proof -
  obtain w where e: "elect 1 solo = (Inr True, solo_leader w)" "wal_faults w = []" using elect_solo by blast
  obtain w' where r: "replicate_command 1 [7] (solo_leader w) = (Inr 1, solo_done w')" using replicate_solo [OF e(2)] by blast
  have run: "cluster_step\<^sup>*\<^sup>* solo (solo_done w')"
    using cs_elect [OF e(1)] cs_replicate [OF r] by (meson converse_rtranclp_into_rtranclp r_into_rtranclp)
  have "bm_get (cl_applied (solo_done w')) 1 = Some [[7]]" by (simp add: solo_done_def)
  with applied_commands_agree [OF open_solo _ run, of 1 1] e(1) r show ?thesis
    by (intro exI [of _ "solo_done w'"] exI [of _ w]) auto
qed

text \<open>
  C34. An acknowledged command is never lost in the same runs, with \<open>synchronize\<close> called on leaders only and restarts
  only when the disks report no errors and hold the states of the nodes: once \<open>replicate\<close> has returned an index, then
  after any further such steps every node that has committed that index holds the command there.
\<close>

theorem acknowledged_command_stays_committed:
  assumes "cluster_open (\<lambda>_. None) faults ids seed = Inr x0" and "distinct ids" and "cluster_step\<^sup>*\<^sup>* x0 x"
    and "replicate_command l command x = (Inr i, y)" and "cluster_step\<^sup>*\<^sup>* y z"
    and "bm_get (cl_nodes z) j = Some n" and "i \<le> commit_index n"
  shows "0 < i \<and> i \<le> length (rn_log n) \<and> e_command (rn_log n ! (i - 1)) = command"
proof -
  obtain g where inv: "cl_inv x g" using cluster_steps_inv [OF assms(3) cl_inv_fresh [OF assms(1,2)]] by blast
  from replicate_command_inv [OF assms(4) inv] obtain g1 where g1: "cl_inv y g1" "l \<in> members y" "0 < i"
    "i \<le> commit_index (node_of y l)" "i \<le> length (rn_log (node_of y l))" "e_command (rn_log (node_of y l) ! (i - 1)) = command"
    by auto
  obtain g2 where g2: "cl_inv z g2" "extends g1 g2" using cluster_steps_inv [OF assms(5) g1(1)] by blast
  have j: "j \<in> members z" "node_of z j = n" using assms(6) by (auto simp: member_get node_of_def)
  note cj = node_covered [OF g2(1) j(1), unfolded j(2)]
  have cl: "covered g2 (current_term (node_of y l)) (commit_index (node_of y l)) (rn_log (node_of y l))"
    using extends_covered [OF g2(2) cl_invD(1) [OF g1(1)] node_covered(1) [OF g1(1,2)]] .
  have "take i (rn_log n) = take i (rn_log (node_of y l))"
  proof (cases "commit_index n \<le> commit_index (node_of y l)")
    case True
    from take_le [OF assms(7) committed_comparable [OF cl_invD(1) [OF g2(1)] cj(1) cl True]] show ?thesis .
  next
    case False
    then have "take (commit_index (node_of y l)) (rn_log (node_of y l)) = take (commit_index (node_of y l)) (rn_log n)"
      using committed_comparable [OF cl_invD(1) [OF g2(1)] cl cj(1)] by simp
    from take_le [OF g1(4) this] show ?thesis by simp
  qed
  moreover have "i \<le> length (rn_log n)" using cj(3) assms(7) by simp
  ultimately show ?thesis using g1(3,6) by (metis diff_less nth_take zero_less_one)
qed

theorem acknowledged_command_stays_committed_witness:
  "\<exists>w y n. replicate_command 1 [7] (solo_leader w) = (Inr 1, y) \<and> bm_get (cl_nodes y) 1 = Some n
    \<and> e_command (rn_log n ! 0) = [7]"
proof -
  obtain w where e: "elect 1 solo = (Inr True, solo_leader w)" "wal_faults w = []" using elect_solo by blast
  obtain w' where r: "replicate_command 1 [7] (solo_leader w) = (Inr 1, solo_done w')" using replicate_solo [OF e(2)] by blast
  have run: "cluster_step\<^sup>*\<^sup>* solo (solo_leader w)" using cs_elect [OF e(1)] by (rule r_into_rtranclp)
  obtain n where n: "bm_get (cl_nodes (solo_done w')) 1 = Some n" "1 \<le> commit_index n"
    by (auto simp: solo_done_def)
  from acknowledged_command_stays_committed [OF open_solo _ run r rtranclp.rtrancl_refl n] r n(1) show ?thesis by auto
qed

text \<open>
  C35. No panics: in every run, with \<open>synchronize\<close> called on leaders only and restarts only when the disks report no
  errors and hold the states of the nodes, neither elections nor replication nor synchronisation through a leader
  reaches an \<open>expect\<close> or an index that panics.
\<close>

theorem cluster_never_panics:
  assumes "cluster_open (\<lambda>_. None) faults ids seed = Inr x0" and "distinct ids" and "cluster_step\<^sup>*\<^sup>* x0 x"
  shows "fst (elect c x) \<noteq> Inl Panic \<and> fst (elect_by_timeout x) \<noteq> Inl Panic \<and> fst (replicate_command l command x) \<noteq> Inl Panic
    \<and> (\<forall>n. bm_get (cl_nodes x) l = Some n \<and> rn_role n = Leader \<longrightarrow> fst (synchronize l x) \<noteq> Inl Panic)"
proof -
  obtain g where inv: "cl_inv x g" using cluster_steps_inv [OF assms(3) cl_inv_fresh [OF assms(1,2)]] by blast
  have "fst (synchronize l x) \<noteq> Inl Panic" if "bm_get (cl_nodes x) l = Some n" "rn_role n = Leader" for n
  proof -
    have "leads x l (current_term n) (rn_log n)" using that by (auto simp: leads_def member_get node_of_def)
    with synchronize_inv [of l x "fst (synchronize l x)" "snd (synchronize l x)" g] inv show ?thesis by auto
  qed
  with elect_inv [of c x "fst (elect c x)" "snd (elect c x)" g] elect_by_timeout_inv [of x "fst (elect_by_timeout x)" "snd (elect_by_timeout x)" g]
    replicate_command_inv [of l command x "fst (replicate_command l command x)" "snd (replicate_command l command x)" g] inv
  show ?thesis by auto
qed

theorem cluster_never_panics_witness: "fst (elect 1 solo) \<noteq> Inl Panic"
  using cluster_never_panics [OF open_solo _ rtranclp.rtrancl_refl, of 1 1 "[]"] by simp

end
