(* ===== verification/Linearizability.thy ===== *)
theory Linearizability
  imports Nut_Prelude
begin

text \<open>
  The register-history checker of \<open>src/src/linearizability.rs\<close>: a backtracking search for an order of the
  operations. The specification says what such an order is; the search finds one exactly when there is one.
\<close>

datatype operation = OpWrite rstring | OpRead

datatype outcome = OutOk "rstring option" | OutFail | OutInfo

record history_entry =
  he_id :: u64
  he_invoke :: u64
  he_complete :: u64
  he_operation :: operation
  he_outcome :: outcome

definition has_unordered_predecessor :: "history_entry list \<Rightarrow> bool list \<Rightarrow> nat \<Rightarrow> bool" where
  "has_unordered_predecessor history used candidate \<longleftrightarrow>
    list_ex (\<lambda>index. \<not> used ! index \<and> index \<noteq> candidate
      \<and> he_complete (history ! index) < he_invoke (history ! candidate)) [0 ..< length history]"

lemma mark_decreases:
  "i < length used \<Longrightarrow> \<not> used ! i \<Longrightarrow> length (filter Not (used[i := True])) < length (filter Not used)"
proof (induction used arbitrary: i)
  case (Cons u used)
  then show ?case by (cases i) auto
qed simp

text \<open>
  The loop over the candidates returns at the first that succeeds; the mark on a candidate is undone when it
  fails, so each is tried with the caller's marks. An index outside the vector of marks does not occur.
\<close>

function search :: "history_entry list \<Rightarrow> bool list \<Rightarrow> rstring option \<Rightarrow> bool" where
  "search history used state =
    (if list_all (\<lambda>u. u) used then True
     else list_ex (\<lambda>index.
       if index \<ge> length used \<or> used ! index \<or> has_unordered_predecessor history used index then False
       else
         (case (he_operation (history ! index), he_outcome (history ! index)) of
            (_, OutFail) \<Rightarrow> search history (used[index := True]) state
          | (OpWrite value, OutOk _) \<Rightarrow> search history (used[index := True]) (Some value)
          | (OpRead, OutOk observed) \<Rightarrow>
              if observed = state then search history (used[index := True]) state else False
          | (OpWrite value, OutInfo) \<Rightarrow>
              search history (used[index := True]) state \<or> search history (used[index := True]) (Some value)
          | (OpRead, OutInfo) \<Rightarrow> search history (used[index := True]) state))
       [0 ..< length history])"
  by pat_completeness auto

termination
  by (relation "measure (\<lambda>(history, used, state). length (filter Not used))") (auto intro: mark_decreases)

declare search.simps [simp del]

definition is_linearizable :: "history_entry list \<Rightarrow> bool" where
  "is_linearizable history = search history (List.replicate (length history) False) None"

section \<open>Specification\<close>

text \<open>What one operation may leave in the register, given its outcome.\<close>

definition effects :: "history_entry \<Rightarrow> rstring option \<Rightarrow> rstring option set" where
  "effects e state = (case he_outcome e of
     OutFail \<Rightarrow> {state}
   | OutOk observed \<Rightarrow> (case he_operation e of
       OpWrite value \<Rightarrow> {Some value}
     | OpRead \<Rightarrow> {s. s = state \<and> observed = state})
   | OutInfo \<Rightarrow> (case he_operation e of OpWrite value \<Rightarrow> {state, Some value} | OpRead \<Rightarrow> {state}))"

fun legal :: "history_entry list \<Rightarrow> nat list \<Rightarrow> rstring option \<Rightarrow> bool" where
  "legal history [] state \<longleftrightarrow> True"
| "legal history (i # order) state \<longleftrightarrow> (\<exists>s \<in> effects (history ! i) state. legal history order s)"

text \<open>No operation is ordered before one that had completed when it was invoked.\<close>

definition respects_time :: "history_entry list \<Rightarrow> nat list \<Rightarrow> bool" where
  "respects_time history order \<longleftrightarrow>
    sorted_wrt (\<lambda>i j. \<not> he_complete (history ! j) < he_invoke (history ! i)) order"

definition linearization :: "history_entry list \<Rightarrow> nat list \<Rightarrow> rstring option \<Rightarrow> nat set \<Rightarrow> bool" where
  "linearization history order state pending \<longleftrightarrow> distinct order \<and> set order = pending
    \<and> respects_time history order \<and> legal history order state"

lemma search_branch:
  "(if index \<ge> length used \<or> used ! index \<or> has_unordered_predecessor history used index then False
       else
         (case (he_operation (history ! index), he_outcome (history ! index)) of
            (_, OutFail) \<Rightarrow> search history (used[index := True]) state
          | (OpWrite value, OutOk _) \<Rightarrow> search history (used[index := True]) (Some value)
          | (OpRead, OutOk observed) \<Rightarrow>
              if observed = state then search history (used[index := True]) state else False
          | (OpWrite value, OutInfo) \<Rightarrow>
              search history (used[index := True]) state \<or> search history (used[index := True]) (Some value)
          | (OpRead, OutInfo) \<Rightarrow> search history (used[index := True]) state))
    \<longleftrightarrow> index < length used \<and> \<not> used ! index \<and> \<not> has_unordered_predecessor history used index
      \<and> (\<exists>s \<in> effects (history ! index) state. search history (used[index := True]) s)"
  by (cases "he_operation (history ! index)"; cases "he_outcome (history ! index)") (auto simp: effects_def)

lemma search_step:
  "search history used state \<longleftrightarrow> list_all (\<lambda>u. u) used
    \<or> (\<exists>i < length history. i < length used \<and> \<not> used ! i \<and> \<not> has_unordered_predecessor history used i
         \<and> (\<exists>s \<in> effects (history ! i) state. search history (used[i := True]) s))"
  unfolding search.simps [of history used state] search_branch by (auto simp: list_ex_iff)

lemma predecessor_iff:
  "has_unordered_predecessor history used i \<longleftrightarrow>
    (\<exists>j < length history. \<not> used ! j \<and> j \<noteq> i \<and> he_complete (history ! j) < he_invoke (history ! i))"
  by (auto simp: has_unordered_predecessor_def list_ex_iff)

definition pending :: "bool list \<Rightarrow> nat set" where
  "pending used = {i. i < length used \<and> \<not> used ! i}"

lemma pending_mark: "i \<in> pending used \<Longrightarrow> pending (used[i := True]) = pending used - {i}"
  by (auto simp: pending_def nth_list_update)

lemma linearization_Cons:
  "linearization history (i # order) state P \<longleftrightarrow> i \<in> P \<and> (\<forall>j \<in> P - {i}. \<not> he_complete (history ! j) < he_invoke (history ! i))
    \<and> (\<exists>s \<in> effects (history ! i) state. linearization history order s (P - {i}))"
  by (auto simp: linearization_def respects_time_def)

lemma linearization_Nil: "linearization history [] state P \<longleftrightarrow> P = {}"
  by (auto simp: linearization_def respects_time_def)

lemma search_correct:
  "length used = length history \<Longrightarrow> search history used state \<longleftrightarrow> (\<exists>order. linearization history order state (pending used))"
proof (induction "card (pending used)" arbitrary: used state rule: less_induct)
  case less
  have fin: "finite (pending used)" by (simp add: pending_def)
  have all: "list_all (\<lambda>u. u) used \<longleftrightarrow> pending used = {}" by (auto simp: pending_def list_all_length)
  have IH: "search history (used[i := True]) s \<longleftrightarrow> (\<exists>order. linearization history order s (pending used - {i}))"
    if "i \<in> pending used" for i s
    using less.hyps [of "used[i := True]" s] that less.prems card_Diff1_less [OF fin that] by (simp add: pending_mark)
  have pred: "has_unordered_predecessor history used i \<longleftrightarrow>
      (\<exists>j \<in> pending used - {i}. he_complete (history ! j) < he_invoke (history ! i))" for i
    using less.prems by (auto simp: predecessor_iff pending_def)
  have step: "search history used state \<longleftrightarrow> pending used = {} \<or> (\<exists>i \<in> pending used.
      (\<forall>j \<in> pending used - {i}. \<not> he_complete (history ! j) < he_invoke (history ! i))
      \<and> (\<exists>s \<in> effects (history ! i) state. \<exists>order. linearization history order s (pending used - {i})))"
  proof -
    have "i \<in> pending used \<longleftrightarrow> i < length history \<and> i < length used \<and> \<not> used ! i" for i
      using less.prems by (auto simp: pending_def)
    then have "search history used state \<longleftrightarrow> pending used = {} \<or> (\<exists>i \<in> pending used.
        \<not> has_unordered_predecessor history used i \<and> (\<exists>s \<in> effects (history ! i) state. search history (used[i := True]) s))"
      using search_step [of history used state] all by blast
    then show ?thesis unfolding pred using IH by blast
  qed
  show ?case
  proof
    assume "search history used state"
    with step consider "pending used = {}" | i s order where "i \<in> pending used"
      "\<forall>j \<in> pending used - {i}. \<not> he_complete (history ! j) < he_invoke (history ! i)"
      "s \<in> effects (history ! i) state" "linearization history order s (pending used - {i})" by blast
    then show "\<exists>order. linearization history order state (pending used)"
    proof cases
      case 1
      then have "linearization history [] state (pending used)" by (simp add: linearization_Nil)
      then show ?thesis by blast
    next
      case 2
      then have "linearization history (i # order) state (pending used)" by (auto simp: linearization_Cons)
      then show ?thesis by blast
    qed
  next
    assume "\<exists>order. linearization history order state (pending used)"
    then obtain order where o: "linearization history order state (pending used)" by blast
    show "search history used state"
    proof (cases order)
      case Nil
      with o step show ?thesis by (simp add: linearization_Nil)
    next
      case (Cons i rest)
      with o step show ?thesis by (auto simp: linearization_Cons)
    qed
  qed
qed

section \<open>Properties\<close>

text \<open>
  C40. The checker is sound and complete: it accepts a history exactly when all its operations can be put in an
  order that respects their real-time intervals and explains every observed value from an empty register, where
  failed operations have no effect and a write of unknown outcome may or may not have taken effect.
\<close>

theorem checker_finds_exactly_linearizations:
  "is_linearizable history \<longleftrightarrow> (\<exists>order. distinct order \<and> set order = {..< length history}
    \<and> respects_time history order \<and> legal history order None)"
proof -
  have "pending (List.replicate (length history) False) = {..< length history}" by (auto simp: pending_def)
  then show ?thesis
    using search_correct [of "List.replicate (length history) False" history None]
    by (simp add: is_linearizable_def linearization_def)
qed

end
