(* ===== verification/Failure.thy ===== *)
theory Failure
  imports Nut_Prelude
begin

text \<open>
  Code that may panic. A result is an error value or a panic on the left, the value on the right;
  slices, element accesses and \<open>expect\<close> are the partial operations the storage engine uses, each
  with the bounds check that Rust makes.
\<close>

datatype failure = Panicked | Failed io_error

type_synonym 'a may_fail = "failure + 'a"

definition fail_with :: "io_error \<Rightarrow> 'a may_fail" where
  "fail_with e = Inl (Failed e)"

definition of_io :: "'a io_result \<Rightarrow> 'a may_fail" where
  "of_io r = map_err Failed r"

text \<open>\<open>&xs[a..b]\<close>, \<open>xs[i]\<close>, \<open>xs[a..b].copy_from_slice(src)\<close>, \<open>xs[i] = v\<close> and \<open>expect\<close>.\<close>

definition slice :: "nat \<Rightarrow> nat \<Rightarrow> 'a list \<Rightarrow> 'a list may_fail" where
  "slice a b xs = (if a \<le> b \<and> b \<le> length xs then Inr (take (b - a) (drop a xs)) else Inl Panicked)"

definition elem_at :: "'a list \<Rightarrow> nat \<Rightarrow> 'a may_fail" where
  "elem_at xs i = (if i < length xs then Inr (xs ! i) else Inl Panicked)"

definition copy_from_slice :: "nat \<Rightarrow> nat \<Rightarrow> 'a list \<Rightarrow> 'a list \<Rightarrow> 'a list may_fail" where
  "copy_from_slice a b src xs =
    (if a \<le> b \<and> b \<le> length xs \<and> length src = b - a then Inr (take a xs @ src @ drop b xs) else Inl Panicked)"

definition set_at :: "nat \<Rightarrow> 'a \<Rightarrow> 'a list \<Rightarrow> 'a list may_fail" where
  "set_at i v xs = (if i < length xs then Inr (xs[i := v]) else Inl Panicked)"

definition expect :: "'a option \<Rightarrow> 'a may_fail" where
  "expect x = (case x of None \<Rightarrow> Inl Panicked | Some v \<Rightarrow> Inr v)"

section \<open>Evaluation on decomposed lists\<close>

named_theorems slice_simps \<open>slices of appended lists\<close>

lemma slice_append [slice_simps]:
  "length xs = a \<Longrightarrow> a + length ys = b \<Longrightarrow> slice a b (xs @ ys @ zs) = Inr ys"
  by (auto simp: slice_def)

lemma slice_all [slice_simps]: "b = length ys \<Longrightarrow> slice 0 b ys = Inr ys"
  by (simp add: slice_def)

lemma slice_prefix [slice_simps]: "b = length ys \<Longrightarrow> slice 0 b (ys @ zs) = Inr ys"
  by (simp add: slice_def)

lemma copy_append:
  "length xs = a \<Longrightarrow> length ys = length src \<Longrightarrow> a + length src = b \<Longrightarrow>
    copy_from_slice a b src (xs @ ys @ zs) = Inr (xs @ src @ zs)"
  by (auto simp: copy_from_slice_def)

lemma copy_length: "copy_from_slice a b src xs = Inr ys \<Longrightarrow> length ys = length xs"
  by (auto simp: copy_from_slice_def split: if_splits)

lemma slice_length: "slice a b xs = Inr ys \<Longrightarrow> length ys = b - a"
  by (auto simp: slice_def split: if_splits)

lemma elem_at_Inr: "i < length xs \<Longrightarrow> elem_at xs i = Inr (xs ! i)"
  by (simp add: elem_at_def)

lemma elem_at_iff: "elem_at xs i = Inr v \<longleftrightarrow> i < length xs \<and> v = xs ! i"
  by (auto simp: elem_at_def)

lemma fail_with_neq [simp]: "fail_with e \<noteq> Inr x" "Inr x \<noteq> fail_with e" "fail_with e \<noteq> Inl Panicked"
  by (simp_all add: fail_with_def)

lemma of_io_simps [simp]: "of_io (Inr x) = Inr x" "of_io (Inl e) = fail_with e"
  by (simp_all add: of_io_def fail_with_def)

lemma of_io_Inr_iff [simp]: "of_io r = Inr x \<longleftrightarrow> r = Inr x"
  by (simp add: of_io_def)

lemma of_io_no_panic [simp]: "of_io r \<noteq> Inl Panicked"
  by (cases r) (simp_all add: of_io_def)

lemma rbind_no_panic:
  "m \<noteq> Inl Panicked \<Longrightarrow> (\<And>x. m = Inr x \<Longrightarrow> f x \<noteq> Inl Panicked) \<Longrightarrow> rbind m f \<noteq> Inl Panicked"
  by (cases m) auto

end
