(* ===== verification/BTree_Index.thy ===== *)
theory BTree_Index
  imports Failure
begin

text \<open>
  \<open>src/src/btree.rs\<close>, the in-memory index: a vector of nodes that refer to each other by position. An operation that
  panics (an index out of range, \<open>expect_err\<close>, \<open>unreachable!\<close>) or recurses forever has the value \<open>None\<close>; that every
  operation on a well-formed index returns is part of what is proved. Keys and values are strings.
\<close>

section \<open>Nodes\<close>

definition MIN_DEGREE :: nat where
  "MIN_DEGREE = 8"

definition MAX_KEYS :: nat where
  "MAX_KEYS = MIN_DEGREE * 2 - 1"

record node =
  n_keys :: "rstring list"
  n_values :: "rstring list"
  n_children :: "nat list"

definition default_node :: node where
  "default_node = \<lparr>n_keys = [], n_values = [], n_children = []\<rparr>"

definition leaf :: "node \<Rightarrow> bool" where
  "leaf n \<longleftrightarrow> n_children n = []"

record btree =
  bt_nodes :: "node list"
  bt_root :: nat
  bt_len :: nat

definition btree_new :: btree where
  "btree_new = \<lparr>bt_nodes = [default_node], bt_root = 0, bt_len = 0\<rparr>"

definition btree_is_empty :: "btree \<Rightarrow> bool" where
  "btree_is_empty t \<longleftrightarrow> bt_len t = 0"

text \<open>\<open>xs[i]\<close>, \<open>Vec::insert\<close> and \<open>Vec::split_off\<close>, which panic out of range.\<close>

definition at :: "'a list \<Rightarrow> nat \<Rightarrow> 'a option" where
  "at xs i = (if i < length xs then Some (xs ! i) else None)"

definition insert_at :: "nat \<Rightarrow> 'a \<Rightarrow> 'a list \<Rightarrow> 'a list option" where
  "insert_at i x xs = (if i \<le> length xs then Some (take i xs @ x # drop i xs) else None)"

definition split_off :: "nat \<Rightarrow> 'a list \<Rightarrow> ('a list \<times> 'a list) option" where
  "split_off i xs = (if i \<le> length xs then Some (take i xs, drop i xs) else None)"

definition pop :: "'a list \<Rightarrow> ('a list \<times> 'a) option" where
  "pop xs = (if xs = [] then None else Some (butlast xs, last xs))"

text \<open>
  \<open>binary_search\<close> by its contract on sorted slices without duplicates, the only ones the index holds: the
  position of the key, or on the left the position where it belongs.
\<close>

definition binary_search :: "rstring list \<Rightarrow> rstring \<Rightarrow> nat + nat" where
  "binary_search ks key =
    (let i = length (takeWhile (\<lambda>k. k < key) ks) in if i < length ks \<and> ks ! i = key then Inr i else Inl i)"

section \<open>Operations\<close>

partial_function (option) get_from :: "node list \<Rightarrow> nat \<Rightarrow> rstring \<Rightarrow> rstring option option" where
  "get_from ns node_id key = Option.bind (at ns node_id) (\<lambda>node.
     case binary_search (n_keys node) key of
       Inr index \<Rightarrow> Option.bind (at (n_values node) index) (\<lambda>v. Some (Some v))
     | Inl index \<Rightarrow> if leaf node then Some None
         else Option.bind (at (n_children node) index) (\<lambda>child. get_from ns child key))"

definition btree_get :: "btree \<Rightarrow> rstring \<Rightarrow> rstring option option" where
  "btree_get t key = get_from (bt_nodes t) (bt_root t) key"

partial_function (option) replace :: "node list \<Rightarrow> nat \<Rightarrow> rstring \<Rightarrow> rstring \<Rightarrow> (bool \<times> node list) option" where
  "replace ns node_id key v = Option.bind (at ns node_id) (\<lambda>node.
     case binary_search (n_keys node) key of
       Inr index \<Rightarrow> if index < length (n_values node)
         then Some (True, ns[node_id := node\<lparr>n_values := (n_values node)[index := v]\<rparr>]) else None
     | Inl index \<Rightarrow> if leaf node then Some (False, ns)
         else Option.bind (at (n_children node) index) (\<lambda>child. replace ns child key v))"

definition split_child :: "nat \<Rightarrow> nat \<Rightarrow> node list \<Rightarrow> node list option" where
  "split_child parent_id child_index ns =
    Option.bind (at ns parent_id) (\<lambda>parent.
    Option.bind (at (n_children parent) child_index) (\<lambda>child_id.
    Option.bind (at ns child_id) (\<lambda>left.
    Option.bind (split_off MIN_DEGREE (n_keys left)) (\<lambda>(left_keys, right_keys).
    Option.bind (pop left_keys) (\<lambda>(left_keys, median_key).
    Option.bind (split_off MIN_DEGREE (n_values left)) (\<lambda>(left_values, right_values).
    Option.bind (pop left_values) (\<lambda>(left_values, median_value).
    Option.bind (if leaf left then Some (n_children left, []) else split_off MIN_DEGREE (n_children left)) (\<lambda>(left_children, right_children).
    let left = \<lparr>n_keys = left_keys, n_values = left_values, n_children = left_children\<rparr>;
        ns = ns[child_id := left] @ [\<lparr>n_keys = right_keys, n_values = right_values, n_children = right_children\<rparr>];
        right_id = length ns - 1 in
    Option.bind (at ns parent_id) (\<lambda>parent.
    Option.bind (insert_at child_index median_key (n_keys parent)) (\<lambda>ks.
    Option.bind (insert_at child_index median_value (n_values parent)) (\<lambda>vs.
    Option.bind (insert_at (child_index + 1) right_id (n_children parent)) (\<lambda>cs.
    Some (ns[parent_id := \<lparr>n_keys = ks, n_values = vs, n_children = cs\<rparr>])))))))))))))"

partial_function (option) insert_non_full :: "node list \<Rightarrow> nat \<Rightarrow> rstring \<Rightarrow> rstring \<Rightarrow> node list option" where
  "insert_non_full ns node_id key v = Option.bind (at ns node_id) (\<lambda>node.
     case binary_search (n_keys node) key of
       Inr _ \<Rightarrow> None
     | Inl index \<Rightarrow>
       if leaf node
       then Option.bind (insert_at index key (n_keys node)) (\<lambda>ks.
            Option.bind (insert_at index v (n_values node)) (\<lambda>vs.
            Some (ns[node_id := node\<lparr>n_keys := ks, n_values := vs\<rparr>])))
       else Option.bind (at (n_children node) index) (\<lambda>child_id.
            Option.bind (at ns child_id) (\<lambda>child.
            if length (n_keys child) = MAX_KEYS
            then Option.bind (split_child node_id index ns) (\<lambda>ns.
                 Option.bind (at ns node_id) (\<lambda>node.
                 Option.bind (at (n_keys node) index) (\<lambda>k.
                 if key = k then None
                 else Option.bind (at (n_children node) (if k < key then index + 1 else index)) (\<lambda>child_id.
                      insert_non_full ns child_id key v))))
            else insert_non_full ns child_id key v)))"

definition btree_insert :: "rstring \<Rightarrow> rstring \<Rightarrow> btree \<Rightarrow> btree option" where
  "btree_insert key v t =
    Option.bind (replace (bt_nodes t) (bt_root t) key v) (\<lambda>(found, ns).
    if found then Some (t\<lparr>bt_nodes := ns\<rparr>)
    else Option.bind (at ns (bt_root t)) (\<lambda>r.
    Option.bind (if length (n_keys r) = MAX_KEYS
                 then (let ns = ns @ [default_node\<lparr>n_children := [bt_root t]\<rparr>]; root = length ns - 1 in
                       Option.bind (split_child root 0 ns) (\<lambda>ns. Some (ns, root)))
                 else Some (ns, bt_root t)) (\<lambda>(ns, root).
    Option.bind (insert_non_full ns root key v) (\<lambda>ns.
    Some \<lparr>bt_nodes = ns, bt_root = root, bt_len = bt_len t + 1\<rparr>))))"

text \<open>
  \<open>collect\<close>: the loop over the keys from \<open>index\<close> on, and the descent into the children, are one recursion.
\<close>

partial_function (option) collect :: "node list \<Rightarrow> nat \<Rightarrow> nat \<Rightarrow> (rstring \<times> rstring) list \<Rightarrow> (rstring \<times> rstring) list option" where
  "collect ns node_id index out = Option.bind (at ns node_id) (\<lambda>node.
     if index < length (n_keys node)
     then Option.bind (if leaf node then Some out
                       else Option.bind (at (n_children node) index) (\<lambda>child. collect ns child 0 out)) (\<lambda>out.
          Option.bind (at (n_keys node) index) (\<lambda>k.
          Option.bind (at (n_values node) index) (\<lambda>v.
          collect ns node_id (index + 1) (out @ [(k, v)]))))
     else if leaf node then Some out
     else Option.bind (at (n_children node) (length (n_keys node))) (\<lambda>child. collect ns child 0 out))"

partial_function (option) collect_keys :: "node list \<Rightarrow> nat \<Rightarrow> nat \<Rightarrow> rstring list \<Rightarrow> rstring list option" where
  "collect_keys ns node_id index out = Option.bind (at ns node_id) (\<lambda>node.
     if index < length (n_keys node)
     then Option.bind (if leaf node then Some out
                       else Option.bind (at (n_children node) index) (\<lambda>child. collect_keys ns child 0 out)) (\<lambda>out.
          Option.bind (at (n_keys node) index) (\<lambda>k.
          collect_keys ns node_id (index + 1) (out @ [k])))
     else if leaf node then Some out
     else Option.bind (at (n_children node) (length (n_keys node))) (\<lambda>child. collect_keys ns child 0 out))"

definition btree_entries :: "btree \<Rightarrow> (rstring \<times> rstring) list option" where
  "btree_entries t = collect (bt_nodes t) (bt_root t) 0 []"

definition btree_keys :: "btree \<Rightarrow> rstring list option" where
  "btree_keys t = collect_keys (bt_nodes t) (bt_root t) 0 []"

fun insert_all :: "(rstring \<times> rstring) list \<Rightarrow> btree \<Rightarrow> btree option" where
  "insert_all [] t = Some t"
| "insert_all ((k, v) # es) t = Option.bind (btree_insert k v t) (insert_all es)"

definition btree_delete :: "rstring \<Rightarrow> btree \<Rightarrow> (bool \<times> btree) option" where
  "btree_delete key t = Option.bind (btree_get t key) (\<lambda>found.
     case found of None \<Rightarrow> Some (False, t)
     | Some _ \<Rightarrow> Option.bind (btree_entries t) (\<lambda>es.
         Option.bind (insert_all (filter (\<lambda>(candidate, _). candidate \<noteq> key) es) btree_new) (\<lambda>t. Some (True, t))))"

definition btree_range :: "btree \<Rightarrow> rstring \<Rightarrow> rstring \<Rightarrow> (rstring \<times> rstring) list option" where
  "btree_range t start stop = Option.bind (btree_entries t) (\<lambda>es. Some (filter (\<lambda>(key, _). key \<ge> start \<and> key < stop) es))"

end
