(* ===== verification/BTree_Structure.thy ===== *)
theory BTree_Structure
  imports BTree_Index
begin

text \<open>
  The tree that a vector of nodes represents. Everything is indexed by the height of a node: its entries in order
  (\<open>ents\<close>), the positions its subtree occupies (\<open>ids\<close>) and its well-formedness (\<open>wf_node\<close>). A frame rule says
  that only the nodes of a subtree matter to it, and \<open>descend\<close> replaces one child.
\<close>

section \<open>Interleaving children and entries\<close>

fun inter :: "'a list list \<Rightarrow> 'a list \<Rightarrow> 'a list" where
  "inter [] es = es"
| "inter (t # ts) [] = t"
| "inter (t # ts) (e # es) = t @ e # inter ts es"

definition lefts :: "'a list list \<Rightarrow> 'a list \<Rightarrow> 'a list" where
  "lefts ts es = concat (map2 (\<lambda>t e. t @ [e]) ts es)"

definition rights :: "'a list \<Rightarrow> 'a list list \<Rightarrow> 'a list" where
  "rights es ts = concat (map2 (\<lambda>e t. e # t) es ts)"

lemma inter_lefts: "length xs = length es \<Longrightarrow> inter (xs @ ts) (es @ fs) = lefts xs es @ inter ts fs"
  by (induction xs es rule: list_induct2) (simp_all add: lefts_def)

lemma inter_rights: "length ts = length es \<Longrightarrow> inter (t # ts) es = t @ rights es ts"
  by (induction ts es arbitrary: t rule: list_induct2) (simp_all add: rights_def)

lemma inter_split:
  "length xs = length es \<Longrightarrow> length ys = length fs \<Longrightarrow> inter (xs @ t # ys) (es @ fs) = lefts xs es @ t @ rights fs ys"
  by (simp add: inter_lefts inter_rights)

lemma lefts_below:
  assumes "length xs = length es" and "bm_inv (lefts xs es @ rest)" and "x \<in> set (lefts xs es)"
  shows "\<exists>e \<in> set es. fst x \<le> fst (e :: 'k::linorder \<times> 'v)"
  using assms
proof (induction xs es rule: list_induct2)
  case (Cons t ts e es)
  show ?case
  proof (cases "x \<in> set (lefts ts es)")
    case True
    have "bm_inv (lefts ts es @ rest)" using Cons.prems(1) by (simp add: lefts_def bm_inv_def sorted_wrt_append)
    with Cons.IH True show ?thesis by auto
  next
    case False
    then have "x \<in> set t \<or> x = e" using Cons.prems(2) by (auto simp: lefts_def)
    moreover have "bm_inv (t @ [e])" using Cons.prems(1) by (simp add: lefts_def bm_inv_def sorted_wrt_append)
    ultimately show ?thesis by (auto simp: bm_inv_def sorted_wrt_append)
  qed
qed (simp add: lefts_def)

lemma rights_above:
  assumes "length ys = length es" and "bm_inv (rest @ rights es ys)" and "x \<in> set (rights es ys)"
  shows "\<exists>e \<in> set es. fst e \<le> fst (x :: 'k::linorder \<times> 'v)"
  using assms
proof (induction ys es arbitrary: rest rule: list_induct2)
  case (Cons t ts e es)
  show ?case
  proof (cases "x \<in> set (rights es ts)")
    case True
    have "bm_inv ((rest @ e # t) @ rights es ts)" using Cons.prems(1) by (simp add: rights_def)
    with Cons.IH [of "rest @ e # t"] True show ?thesis by auto
  next
    case False
    then have "x \<in> set t \<or> x = e" using Cons.prems(2) by (auto simp: rights_def)
    moreover have "bm_inv (e # t)" using Cons.prems(1) by (simp add: rights_def bm_inv_def sorted_wrt_append)
    ultimately show ?thesis by (auto simp: bm_inv_def)
  qed
qed (simp add: rights_def)

section \<open>Ordered lists in parts\<close>

lemma bm_inv_append:
  "bm_inv (xs @ ys) \<longleftrightarrow> bm_inv xs \<and> bm_inv ys \<and> (\<forall>x \<in> set xs. \<forall>y \<in> set ys. fst x < fst y)"
  by (auto simp: bm_inv_def sorted_wrt_append)

lemma bm_insert_right: "(\<forall>x \<in> set xs. fst x < k) \<Longrightarrow> bm_insert k v (xs @ ys) = xs @ bm_insert k v ys"
  by (induction xs) auto

lemma bm_insert_left: "(\<forall>y \<in> set ys. k < fst y) \<Longrightarrow> bm_insert k v (xs @ ys) = bm_insert k v xs @ ys"
proof (induction xs)
  case Nil
  then show ?case by (cases ys) auto
qed auto

lemma bm_insert_mid:
  "(\<forall>x \<in> set xs. fst x < k) \<Longrightarrow> (\<forall>y \<in> set ys. k < fst y) \<Longrightarrow> bm_insert k v (xs @ t @ ys) = xs @ bm_insert k v t @ ys"
  by (simp add: bm_insert_right bm_insert_left)

lemma bm_insert_here: "(\<forall>x \<in> set xs. fst x < k) \<Longrightarrow> bm_insert k v (xs @ (k, w) # ys) = xs @ (k, v) # ys"
  by (simp add: bm_insert_right)

lemma bm_get_outside:
  "(\<forall>x \<in> set xs. fst x < k) \<Longrightarrow> bm_get xs (k :: 'k::linorder) = None"
  "(\<forall>x \<in> set xs. k < fst x) \<Longrightarrow> bm_get xs (k :: 'k::linorder) = None"
  by (induction xs) auto

lemma bm_get_mid:
  assumes "\<forall>x \<in> set xs. fst x < (k :: 'k::linorder)" and "\<forall>y \<in> set ys. k < fst y"
  shows "bm_get (xs @ t @ ys) k = bm_get t k"
proof -
  have "bm_get xs k = None" "bm_get ys k = None" using assms by (simp_all add: bm_get_outside)
  then show ?thesis by (simp add: map_add_def split: option.splits)
qed

lemma bm_get_here: "(\<forall>x \<in> set xs. fst x < (k :: 'k::linorder)) \<Longrightarrow> bm_get (xs @ (k, w) # ys) k = Some w"
proof -
  assume "\<forall>x \<in> set xs. fst x < k"
  then have "bm_get xs k = None" by (rule bm_get_outside)
  then show ?thesis by (simp add: map_add_def)
qed

lemma binary_search_cases:
  assumes "sorted_wrt (<) ks"
  obtains (found) i where "binary_search ks key = Inr i" "i < length ks" "ks ! i = key" "\<forall>k \<in> set (take i ks). k < key"
  | (missing) i where "binary_search ks key = Inl i" "i \<le> length ks" "\<forall>k \<in> set (take i ks). k < key"
      "\<forall>k \<in> set (drop i ks). key < k"
proof -
  define i where "i = length (takeWhile (\<lambda>k. k < key) ks)"
  have tw: "takeWhile (\<lambda>k. k < key) ks = take i ks" unfolding i_def by (rule takeWhile_eq_take)
  have low: "\<forall>k \<in> set (take i ks). k < key" unfolding tw [symmetric] by (blast dest: set_takeWhileD)
  have le: "i \<le> length ks" unfolding i_def by (rule length_takeWhile_le)
  have bs: "binary_search ks key = (if i < length ks \<and> ks ! i = key then Inr i else Inl i)"
    by (simp only: binary_search_def i_def Let_def)
  show ?thesis
  proof (cases "i < length ks \<and> ks ! i = key")
    case True
    then show ?thesis using found [of i] low bs by simp
  next
    case False
    have "key < k" if "k \<in> set (drop i ks)" for k
    proof -
      have lt: "i < length ks" using that by (cases "i < length ks") auto
      then have "\<not> ks ! i < key" unfolding i_def by (rule nth_length_takeWhile)
      then have "key < ks ! i" using False lt by auto
      moreover have "drop i ks = ks ! i # drop (Suc i) ks" using lt by (simp add: Cons_nth_drop_Suc)
      moreover have "sorted_wrt (<) (drop i ks)" using assms by (rule sorted_wrt_drop)
      ultimately show ?thesis using that by auto
    qed
    then show ?thesis using False missing [of i] low le bs by simp
  qed
qed

section \<open>Trees in a vector\<close>

definition pairs :: "node \<Rightarrow> (rstring \<times> rstring) list" where
  "pairs n = zip (n_keys n) (n_values n)"

primrec ents :: "node list \<Rightarrow> nat \<Rightarrow> nat \<Rightarrow> (rstring \<times> rstring) list" where
  "ents ns 0 i = pairs (ns ! i)"
| "ents ns (Suc h) i = inter (map (ents ns h) (n_children (ns ! i))) (pairs (ns ! i))"

primrec ids :: "node list \<Rightarrow> nat \<Rightarrow> nat \<Rightarrow> nat list" where
  "ids ns 0 i = [i]"
| "ids ns (Suc h) i = i # concat (map (ids ns h) (n_children (ns ! i)))"

text \<open>Nodes other than the root have at least \<open>MIN_DEGREE - 1\<close> keys.\<close>

definition node_ok :: "node \<Rightarrow> bool" where
  "node_ok n \<longleftrightarrow> length (n_values n) = length (n_keys n) \<and> length (n_keys n) \<le> MAX_KEYS"

definition filled :: "node \<Rightarrow> bool" where
  "filled n \<longleftrightarrow> MIN_DEGREE - 1 \<le> length (n_keys n)"

primrec wf_node :: "node list \<Rightarrow> nat \<Rightarrow> nat \<Rightarrow> bool" where
  "wf_node ns 0 i \<longleftrightarrow> i < length ns \<and> node_ok (ns ! i) \<and> n_children (ns ! i) = []"
| "wf_node ns (Suc h) i \<longleftrightarrow> i < length ns \<and> node_ok (ns ! i) \<and> length (n_children (ns ! i)) = length (n_keys (ns ! i)) + 1
     \<and> (\<forall>c \<in> set (n_children (ns ! i)). wf_node ns h c \<and> filled (ns ! c))"

lemma wf_node_lt: "wf_node ns h i \<Longrightarrow> i < length ns" and wf_node_ok: "wf_node ns h i \<Longrightarrow> node_ok (ns ! i)"
  by (cases h; simp)+

lemma self_in_ids [simp]: "i \<in> set (ids ns h i)"
  by (cases h) simp_all

lemma ids_lt: "wf_node ns h i \<Longrightarrow> j \<in> set (ids ns h i) \<Longrightarrow> j < length ns"
  by (induction h arbitrary: i) auto

text \<open>Only the nodes of a subtree matter to it.\<close>

lemma frame_subtree:
  assumes "wf_node ns h i" and "\<And>j. j \<in> set (ids ns h i) \<Longrightarrow> j < length ns' \<and> ns' ! j = ns ! j"
  shows "wf_node ns' h i" and "ents ns' h i = ents ns h i" and "ids ns' h i = ids ns h i"
proof -
  have "wf_node ns' h i \<and> ents ns' h i = ents ns h i \<and> ids ns' h i = ids ns h i"
    using assms
  proof (induction h arbitrary: i)
    case 0
    then show ?case by auto
  next
    case (Suc h)
    have here: "i < length ns'" "ns' ! i = ns ! i" using Suc.prems(2) [of i] by auto
    have kids: "wf_node ns' h c \<and> ents ns' h c = ents ns h c \<and> ids ns' h c = ids ns h c \<and> ns' ! c = ns ! c"
      if "c \<in> set (n_children (ns ! i))" for c
    proof -
      have sub: "set (ids ns h c) \<subseteq> set (ids ns (Suc h) i)" using that by auto
      then have "wf_node ns' h c \<and> ents ns' h c = ents ns h c \<and> ids ns' h c = ids ns h c"
        using Suc.IH [of c] Suc.prems that by (meson subsetD wf_node.simps(2))
      moreover have "ns' ! c = ns ! c" using Suc.prems(2) sub self_in_ids [of c ns h] by blast
      ultimately show ?thesis by blast
    qed
    have "map (ents ns' h) (n_children (ns ! i)) = map (ents ns h) (n_children (ns ! i))"
      "map (ids ns' h) (n_children (ns ! i)) = map (ids ns h) (n_children (ns ! i))"
      using kids by (auto intro!: map_cong)
    then show ?case using here kids Suc.prems(1) by (auto simp del: map_eq_conv)
  qed
  then show "wf_node ns' h i" and "ents ns' h i = ents ns h i" and "ids ns' h i = ids ns h i" by auto
qed

section \<open>A node and one of its children\<close>

text \<open>The entries of a node around its child number \<open>k\<close>.\<close>

definition before :: "node list \<Rightarrow> nat \<Rightarrow> nat \<Rightarrow> nat \<Rightarrow> (rstring \<times> rstring) list" where
  "before ns h i k = lefts (map (ents ns h) (take k (n_children (ns ! i)))) (take k (pairs (ns ! i)))"

definition behind :: "node list \<Rightarrow> nat \<Rightarrow> nat \<Rightarrow> nat \<Rightarrow> (rstring \<times> rstring) list" where
  "behind ns h i k = rights (drop k (pairs (ns ! i))) (map (ents ns h) (drop (Suc k) (n_children (ns ! i))))"

lemma length_pairs: "node_ok n \<Longrightarrow> length (pairs n) = length (n_keys n)"
  by (simp add: pairs_def node_ok_def)

lemma fst_pairs: "node_ok n \<Longrightarrow> map fst (pairs n) = n_keys n"
  by (simp add: pairs_def node_ok_def)

lemma ents_at_child:
  assumes "wf_node ns (Suc h) i" and "k \<le> length (n_keys (ns ! i))"
  shows "ents ns (Suc h) i = before ns h i k @ ents ns h (n_children (ns ! i) ! k) @ behind ns h i k"
proof -
  let ?n = "ns ! i"
  have ok: "node_ok ?n" "length (n_children ?n) = length (n_keys ?n) + 1" using assms(1) by auto
  then have l: "length (pairs ?n) = length (n_keys ?n)" by (simp add: length_pairs)
  have "n_children ?n = take k (n_children ?n) @ n_children ?n ! k # drop (Suc k) (n_children ?n)"
    using assms(2) ok by (intro id_take_nth_drop) simp
  then have "ents ns (Suc h) i = inter (map (ents ns h) (take k (n_children ?n)) @ ents ns h (n_children ?n ! k) # map (ents ns h) (drop (Suc k) (n_children ?n)))
      (take k (pairs ?n) @ drop k (pairs ?n))"
    by (simp flip: map_append list.map(2))
  also have "\<dots> = before ns h i k @ ents ns h (n_children ?n ! k) @ behind ns h i k"
    unfolding before_def behind_def by (rule inter_split) (use l ok assms(2) in simp_all)
  finally show ?thesis .
qed

text \<open>What a search for \<open>key\<close> learns from the keys of a node.\<close>

lemma around_child:
  assumes wf: "wf_node ns (Suc h) i" and s: "bm_inv (ents ns (Suc h) i)" and k: "k \<le> length (n_keys (ns ! i))"
    and lo: "\<forall>x \<in> set (take k (n_keys (ns ! i))). x < key" and hi: "\<forall>x \<in> set (drop k (n_keys (ns ! i))). key < x"
  shows "\<forall>x \<in> set (before ns h i k). fst x < key" and "\<forall>x \<in> set (behind ns h i k). key < fst x"
proof -
  let ?n = "ns ! i"
  have ok: "node_ok ?n" "length (n_children ?n) = length (n_keys ?n) + 1" using wf by auto
  note e = ents_at_child [OF wf k]
  have keys: "fst x \<in> set (take k (n_keys ?n))" if "x \<in> set (take k (pairs ?n))" for x
    using that fst_pairs [OF ok(1)] by (metis image_eqI image_set take_map)
  have keys': "fst x \<in> set (drop k (n_keys ?n))" if "x \<in> set (drop k (pairs ?n))" for x
    using that fst_pairs [OF ok(1)] by (metis image_eqI image_set drop_map)
  show "\<forall>x \<in> set (before ns h i k). fst x < key"
  proof
    fix x assume x: "x \<in> set (before ns h i k)"
    have "bm_inv (before ns h i k @ ents ns h (n_children ?n ! k) @ behind ns h i k)" using s unfolding e .
    from lefts_below [OF _ this [unfolded before_def] x [unfolded before_def]]
    obtain y where "y \<in> set (take k (pairs ?n))" "fst x \<le> fst y" using ok k by (auto simp: length_pairs)
    then show "fst x < key" using lo keys by (meson le_less_trans)
  qed
  show "\<forall>x \<in> set (behind ns h i k). key < fst x"
  proof
    fix x assume x: "x \<in> set (behind ns h i k)"
    have "bm_inv ((before ns h i k @ ents ns h (n_children ?n ! k)) @ behind ns h i k)" using s unfolding e by simp
    from rights_above [OF _ this [unfolded behind_def] x [unfolded behind_def]]
    obtain y where "y \<in> set (drop k (pairs ?n))" "fst y \<le> fst x" using ok k by (auto simp: length_pairs)
    then show "key < fst x" using hi keys' by (meson less_le_trans)
  qed
qed

lemma inter_contains: "length ts = length es + 1 \<Longrightarrow> set es \<subseteq> set (inter ts es)"
  by (induction ts es rule: inter.induct) auto

lemma sorted_node_keys:
  assumes "wf_node ns h i" and "bm_inv (ents ns h i)"
  shows "sorted_wrt (<) (n_keys (ns ! i))"
proof (cases h)
  case 0
  with assms show ?thesis using fst_pairs [of "ns ! i"] by (simp add: bm_inv_def)
next
  case (Suc g)
  have sub: "sorted_wrt (<) (map fst es)" if "length ts = length es + 1" "bm_inv (inter ts es)"
    for ts :: "(rstring \<times> rstring) list list" and es
    using that
  proof (induction ts es rule: inter.induct)
    case (3 t ts e es)
    have s: "bm_inv (inter ts es)" "\<forall>y \<in> set (inter ts es). fst e < fst y"
      using "3.prems"(2) by (auto simp: bm_inv_def sorted_wrt_append)
    then show ?case using inter_contains [of ts es] "3.IH" "3.prems"(1) by auto
  qed auto
  have "sorted_wrt (<) (map fst (pairs (ns ! i)))"
    by (rule sub [of "map (ents ns g) (n_children (ns ! i))"]) (use assms Suc in \<open>simp_all add: length_pairs\<close>)
  then show ?thesis using assms(1) by (simp add: fst_pairs wf_node_ok)
qed

lemma child_facts:
  assumes "wf_node ns (Suc h) i" and "distinct (ids ns (Suc h) i)" and "k \<le> length (n_keys (ns ! i))"
  defines "c \<equiv> n_children (ns ! i) ! k"
  shows "c \<in> set (n_children (ns ! i))" and "wf_node ns h c" and "filled (ns ! c)" and "distinct (ids ns h c)"
    and "i \<notin> set (ids ns h c)" and "set (ids ns h c) \<subseteq> set (ids ns (Suc h) i)"
proof -
  show m: "c \<in> set (n_children (ns ! i))" using assms(1,3) by (simp add: c_def)
  then show "wf_node ns h c" "filled (ns ! c)" using assms(1) by auto
  show "distinct (ids ns h c)" using assms(2) m by (auto simp: distinct_concat_iff)
  show "i \<notin> set (ids ns h c)" "set (ids ns h c) \<subseteq> set (ids ns (Suc h) i)" using assms(2) m by auto
qed

text \<open>Replacing a child by an updated one, whose new nodes come from behind the old vector.\<close>

definition updates :: "node list \<Rightarrow> node list \<Rightarrow> nat \<Rightarrow> nat \<Rightarrow> bool" where
  "updates ns ns' h i \<longleftrightarrow> wf_node ns' h i \<and> distinct (ids ns' h i) \<and> length ns \<le> length ns'
    \<and> (\<forall>j < length ns. j \<notin> set (ids ns h i) \<longrightarrow> ns' ! j = ns ! j)
    \<and> set (ids ns' h i) = set (ids ns h i) \<union> {length ns ..< length ns'}"

lemma updates_trans: "updates ns ns1 h i \<Longrightarrow> updates ns1 ns2 h i \<Longrightarrow> updates ns ns2 h i"
proof -
  assume a: "updates ns ns1 h i" and b: "updates ns1 ns2 h i"
  have s: "set (ids ns1 h i) = set (ids ns h i) \<union> {length ns ..< length ns1}"
    "set (ids ns2 h i) = set (ids ns1 h i) \<union> {length ns1 ..< length ns2}" "length ns \<le> length ns1" "length ns1 \<le> length ns2"
    using a b by (auto simp: updates_def)
  have "ns2 ! j = ns ! j" if "j < length ns" "j \<notin> set (ids ns h i)" for j
  proof -
    have "j \<notin> set (ids ns1 h i)" using that s(1) by auto
    then show ?thesis using that s(3) a b by (simp add: updates_def)
  qed
  moreover have "{length ns ..< length ns1} \<union> {length ns1 ..< length ns2} = {length ns ..< length ns2}" using s(3,4) by auto
  then have "set (ids ns2 h i) = set (ids ns h i) \<union> {length ns ..< length ns2}" using s(1,2) by blast
  ultimately show ?thesis using a b s by (simp add: updates_def)
qed

lemma descend:
  assumes wf: "wf_node ns (Suc h) i" and d: "distinct (ids ns (Suc h) i)" and k: "k \<le> length (n_keys (ns ! i))"
    and up: "updates ns ns' h (n_children (ns ! i) ! k)" and f: "filled (ns' ! (n_children (ns ! i) ! k))"
  shows "updates ns ns' (Suc h) i" and "ns' ! i = ns ! i"
    and "before ns' h i k = before ns h i k" and "behind ns' h i k = behind ns h i k"
proof -
  let ?c = "n_children (ns ! i) ! k" and ?xs = "take k (n_children (ns ! i))" and ?ys = "drop (Suc k) (n_children (ns ! i))"
  note c = child_facts [OF wf d k]
  have cs: "n_children (ns ! i) = ?xs @ ?c # ?ys" using k wf by (intro id_take_nth_drop) simp
  have here: "ns' ! i = ns ! i" using up c(5) wf by (simp add: updates_def)
  define A B where AB: "A = concat (map (ids ns h) ?xs)" "B = concat (map (ids ns h) ?ys)"
  have ids: "ids ns (Suc h) i = i # A @ ids ns h ?c @ B" unfolding AB by (subst ids.simps(2), subst cs) simp
  have old: "j < length ns" if "j \<in> set (ids ns (Suc h) i)" for j using ids_lt [OF wf that] .
  have same: "wf_node ns' h e \<and> ents ns' h e = ents ns h e \<and> ids ns' h e = ids ns h e \<and> filled (ns' ! e)" if "e \<in> set ?xs \<union> set ?ys" for e
  proof -
    have e: "wf_node ns h e" "filled (ns ! e)" using that wf by (auto dest: in_set_takeD in_set_dropD)
    have sub: "set (ids ns h e) \<subseteq> set A \<union> set B" unfolding AB using that by auto
    have fr: "j < length ns' \<and> ns' ! j = ns ! j" if "j \<in> set (ids ns h e)" for j
    proof -
      have "j \<in> set (ids ns (Suc h) i)" "j \<notin> set (ids ns h ?c)" using that sub d unfolding ids by auto
      with old [of j] up show ?thesis unfolding updates_def by (meson less_le_trans)
    qed
    from frame_subtree [OF e(1) fr] fr [OF self_in_ids] e(2) show ?thesis by simp
  qed
  have maps: "map (ids ns' h) ?xs = map (ids ns h) ?xs" "map (ids ns' h) ?ys = map (ids ns h) ?ys"
    "map (ents ns' h) ?xs = map (ents ns h) ?xs" "map (ents ns' h) ?ys = map (ents ns h) ?ys" using same by auto
  have ids': "ids ns' (Suc h) i = i # A @ ids ns' h ?c @ B"
    unfolding AB by (subst ids.simps(2), unfold here, subst cs) (simp only: map_append list.map maps concat_append concat.simps)
  have new: "set (ids ns' h ?c) = set (ids ns h ?c) \<union> {length ns ..< length ns'}" "distinct (ids ns' h ?c)" "length ns \<le> length ns'"
    using up by (auto simp: updates_def)
  have "distinct (ids ns' (Suc h) i)"
  proof -
    have "j < length ns" if "j \<in> set (i # A @ B)" for j using old [of j] that unfolding ids by auto
    then have n: "set (i # A @ B) \<inter> {length ns ..< length ns'} = {}" by (meson atLeastLessThan_iff disjoint_iff not_less)
    have o: "set (i # A @ B) \<inter> set (ids ns h ?c) = {}" "distinct (i # A @ B)" using d unfolding ids by auto
    have "set (i # A @ B) \<inter> set (ids ns' h ?c) = {}" using new(1) n o(1) by blast
    then show ?thesis using o(2) new(2) unfolding ids' by auto
  qed
  moreover have "wf_node ns' (Suc h) i"
  proof -
    have "wf_node ns' h e \<and> filled (ns' ! e)" if "e \<in> set (n_children (ns ! i))" for e
      using that same [of e] up f cs unfolding updates_def by (metis Un_iff list.set_intros set_ConsD set_append)
    then show ?thesis using here wf new(3) by auto
  qed
  ultimately show "updates ns ns' (Suc h) i"
    using up new unfolding updates_def ids ids' by auto
  show "ns' ! i = ns ! i" by (rule here)
  show "before ns' h i k = before ns h i k" "behind ns' h i k = behind ns h i k"
    unfolding before_def behind_def here by (simp_all only: maps)
qed

end
