(* ===== verification/BTree_Refinement.thy ===== *)
theory BTree_Refinement
  imports BTree_Structure
begin

text \<open>
  The operations of the index on well-formed trees: every call returns, and what it does to the entries is what the
  ordered map of \<open>Nut_Prelude\<close> does.
\<close>

section \<open>Lookup and traversal\<close>

lemma at_nth [simp]: "i < length xs \<Longrightarrow> at xs i = Some (xs ! i)"
  by (simp add: at_def)

lemma wf_leaf: "wf_node ns h i \<Longrightarrow> leaf (ns ! i) \<longleftrightarrow> h = 0"
  by (cases h) (auto simp: leaf_def)

lemma wf_values: "wf_node ns h i \<Longrightarrow> length (n_values (ns ! i)) = length (n_keys (ns ! i))"
  using wf_node_ok by (auto simp: node_ok_def)

lemma nth_pairs: "node_ok n \<Longrightarrow> j < length (n_keys n) \<Longrightarrow> pairs n ! j = (n_keys n ! j, n_values n ! j)"
  by (simp add: pairs_def node_ok_def)

text \<open>An entry of a node, and the tree after its value has been replaced.\<close>

definition set_value :: "nat \<Rightarrow> nat \<Rightarrow> rstring \<Rightarrow> node list \<Rightarrow> node list" where
  "set_value i j v ns = ns[i := (ns ! i)\<lparr>n_values := (n_values (ns ! i))[j := v]\<rparr>]"

lemma set_value_tree:
  assumes wf: "wf_node ns h i" and d: "distinct (ids ns h i)"
  shows "updates ns (set_value i j v ns) h i" and "filled (set_value i j v ns ! i) = filled (ns ! i)"
    and "\<And>g e. h = Suc g \<Longrightarrow> e \<in> set (n_children (ns ! i)) \<Longrightarrow> ents (set_value i j v ns) g e = ents ns g e"
proof -
  let ?ns' = "set_value i j v ns"
  have i: "i < length ns" using wf by (rule wf_node_lt)
  have n: "?ns' ! i = (ns ! i)\<lparr>n_values := (n_values (ns ! i))[j := v]\<rparr>" "length ?ns' = length ns" "\<And>m. m \<noteq> i \<Longrightarrow> ?ns' ! m = ns ! m"
    using i by (simp_all add: set_value_def)
  show "filled (?ns' ! i) = filled (ns ! i)" by (simp add: n filled_def)
  have fr: "wf_node ?ns' g e \<and> ents ?ns' g e = ents ns g e \<and> ids ?ns' g e = ids ns g e \<and> filled (?ns' ! e) = filled (ns ! e)"
    if "h = Suc g" "e \<in> set (n_children (ns ! i))" for g e
  proof -
    have "wf_node ns g e" using wf that by auto
    moreover have ni: "i \<notin> set (ids ns g e)" using d that by auto
    then have "m < length ?ns' \<and> ?ns' ! m = ns ! m" if "m \<in> set (ids ns g e)" for m
      using ids_lt [OF calculation that] n that by metis
    moreover have "e \<noteq> i" using ni by (metis self_in_ids)
    ultimately show ?thesis using frame_subtree [of ns g e ?ns'] n(3) by (metis (no_types))
  qed
  then show "\<And>g e. h = Suc g \<Longrightarrow> e \<in> set (n_children (ns ! i)) \<Longrightarrow> ents ?ns' g e = ents ns g e" by blast
  have "wf_node ?ns' h i \<and> ids ?ns' h i = ids ns h i"
  proof (cases h)
    case 0
    then show ?thesis using wf n by (simp add: node_ok_def)
  next
    case (Suc g)
    have "map (ids ?ns' g) (n_children (ns ! i)) = map (ids ns g) (n_children (ns ! i))" using fr [OF Suc] by simp
    then show ?thesis using wf n fr [OF Suc] Suc by (simp add: node_ok_def del: map_eq_conv)
  qed
  then show "updates ns ?ns' h i" using d n by (auto simp: updates_def) (metis self_in_ids)
qed

lemma entry_of_node:
  assumes wf: "wf_node ns h i" and d: "distinct (ids ns h i)" and j: "j < length (n_keys (ns ! i))"
  obtains xs ys where "ents ns h i = xs @ (n_keys (ns ! i) ! j, n_values (ns ! i) ! j) # ys"
    and "\<And>v. ents (set_value i j v ns) h i = xs @ (n_keys (ns ! i) ! j, v) # ys"
proof -
  let ?n = "ns ! i"
  have ok: "node_ok ?n" using wf by (rule wf_node_ok)
  have l: "length (pairs ?n) = length (n_keys ?n)" using ok by (rule length_pairs)
  have i: "i < length ns" using wf by (rule wf_node_lt)
  have p': "pairs (set_value i j v ns ! i) = (pairs ?n)[j := (n_keys ?n ! j, v)]" for v
    using i zip_update [of "n_keys ?n" j "n_keys ?n ! j" "n_values ?n" v] by (simp add: pairs_def set_value_def)
  have c': "n_children (set_value i j v ns ! i) = n_children ?n" for v using i by (simp add: set_value_def)
  have split: "(pairs ?n)[j := e] = take j (pairs ?n) @ e # drop (Suc j) (pairs ?n)" for e
    using j l by (simp add: upd_conv_take_nth_drop)
  have self: "pairs ?n = (pairs ?n)[j := (n_keys ?n ! j, n_values ?n ! j)]"
    using nth_pairs [OF ok j] by (metis list_update_id)
  show ?thesis
  proof (cases h)
    case 0
    show ?thesis
      by (rule that [of "take j (pairs ?n)" "drop (Suc j) (pairs ?n)"]) (simp_all only: 0 ents.simps p' split [symmetric] self [symmetric])
  next
    case (Suc g)
    let ?ts = "map (ents ns g) (n_children ?n)"
    have lt: "length ?ts = length (pairs ?n) + 1" using wf Suc l by simp
    have e: "inter ?ts ((pairs ?n)[j := e]) = (lefts (take j ?ts) (take j (pairs ?n)) @ ?ts ! j) @ e # inter (drop (Suc j) ?ts) (drop (Suc j) (pairs ?n))" for e
    proof -
      have "?ts = take j ?ts @ ?ts ! j # drop (Suc j) ?ts" by (rule id_take_nth_drop) (use lt j l in simp)
      then have "inter ?ts ((pairs ?n)[j := e]) = inter (take j ?ts @ ?ts ! j # drop (Suc j) ?ts) (take j (pairs ?n) @ e # drop (Suc j) (pairs ?n))"
        unfolding split by (rule arg_cong)
      also have "\<dots> = lefts (take j ?ts) (take j (pairs ?n)) @ inter (?ts ! j # drop (Suc j) ?ts) (e # drop (Suc j) (pairs ?n))"
        by (rule inter_lefts) (use lt j l in simp)
      finally show ?thesis by simp
    qed
    have ents': "ents (set_value i j v ns) h i = inter ?ts ((pairs ?n)[j := (n_keys ?n ! j, v)])" for v
    proof -
      have "map (ents (set_value i j v ns) g) (n_children ?n) = ?ts" using set_value_tree(3) [OF wf d Suc] by simp
      then show ?thesis unfolding Suc ents.simps c' p' by (simp only:)
    qed
    show ?thesis
      by (rule that [OF _ trans [OF ents' e]]) (use e [of "(n_keys ?n ! j, n_values ?n ! j)"] self in \<open>simp add: Suc\<close>)
  qed
qed

lemma sorted_split_lt: "bm_inv (xs @ (k, v) # ys) \<Longrightarrow> \<forall>x \<in> set xs. fst x < k"
  by (auto simp: bm_inv_def sorted_wrt_append)

lemma missing_in_leaf:
  assumes "wf_node ns 0 i" and "\<forall>x \<in> set (take j (n_keys (ns ! i))). x < key" and "\<forall>x \<in> set (drop j (n_keys (ns ! i))). key < x"
  shows "\<forall>x \<in> set (take j (pairs (ns ! i))). fst x < key" and "\<forall>x \<in> set (drop j (pairs (ns ! i))). key < fst x"
proof -
  have f: "map fst (pairs (ns ! i)) = n_keys (ns ! i)" using assms(1) by (simp add: fst_pairs)
  show "\<forall>x \<in> set (take j (pairs (ns ! i))). fst x < key" using assms(2) unfolding f [symmetric] take_map by auto
  show "\<forall>x \<in> set (drop j (pairs (ns ! i))). key < fst x" using assms(3) unfolding f [symmetric] drop_map by auto
qed

lemma get_from_correct:
  assumes "wf_node ns h i" and "distinct (ids ns h i)" and "bm_inv (ents ns h i)"
  shows "get_from ns i key = Some (bm_get (ents ns h i) key)"
  using assms
proof (induction h arbitrary: i)
  case 0
  note s = sorted_node_keys [OF "0.prems"(1,3)]
  from s show ?case
  proof (cases rule: binary_search_cases [where key = key])
    case (found j)
    obtain xs ys where e: "ents ns 0 i = xs @ (n_keys (ns ! i) ! j, n_values (ns ! i) ! j) # ys"
      using entry_of_node [OF "0.prems"(1,2) found(2)] by metis
    have "bm_get (ents ns 0 i) key = Some (n_values (ns ! i) ! j)"
      using sorted_split_lt [of xs] "0.prems"(3) bm_get_here [of xs key] unfolding e found(3) by simp
    then show ?thesis using found "0.prems" wf_values [OF "0.prems"(1)] wf_node_lt [OF "0.prems"(1)] by (subst get_from.simps) simp
  next
    case (missing j)
    have "bm_get (take j (pairs (ns ! i)) @ [] @ drop j (pairs (ns ! i))) key = bm_get [] key"
      by (rule bm_get_mid) (use missing_in_leaf [OF "0.prems"(1) missing(3,4)] in auto)
    then show ?thesis using missing "0.prems" wf_node_lt [OF "0.prems"(1)] wf_leaf [OF "0.prems"(1)] by (subst get_from.simps) simp
  qed
next
  case (Suc h)
  note s = sorted_node_keys [OF Suc.prems(1,3)]
  from s show ?case
  proof (cases rule: binary_search_cases [where key = key])
    case (found j)
    obtain xs ys where e: "ents ns (Suc h) i = xs @ (n_keys (ns ! i) ! j, n_values (ns ! i) ! j) # ys"
      using entry_of_node [OF Suc.prems(1,2) found(2)] by metis
    have "bm_get (ents ns (Suc h) i) key = Some (n_values (ns ! i) ! j)"
      using sorted_split_lt [of xs] Suc.prems(3) bm_get_here [of xs key] unfolding e found(3) by simp
    then show ?thesis using found wf_values [OF Suc.prems(1)] wf_node_lt [OF Suc.prems(1)] by (subst get_from.simps) simp
  next
    case (missing j)
    let ?c = "n_children (ns ! i) ! j"
    note c = child_facts [OF Suc.prems(1,2) missing(2)]
    note e = ents_at_child [OF Suc.prems(1) missing(2)]
    have g: "bm_get (ents ns (Suc h) i) key = bm_get (ents ns h ?c) key"
      unfolding e by (rule bm_get_mid [OF around_child [OF Suc.prems(1,3) missing(2,3,4)]])
    have "bm_inv (ents ns h ?c)" using Suc.prems(3) unfolding e bm_inv_append by blast
    from Suc.IH [OF c(2,4) this] g show ?thesis
      using missing wf_node_lt [OF Suc.prems(1)] wf_leaf [OF Suc.prems(1)] Suc.prems(1) by (subst get_from.simps) simp
  qed
qed

lemma bm_get_Some_dom: "bm_get xs k = Some v \<Longrightarrow> k \<in> fst ` set xs"
  by (force dest: map_of_SomeD)

lemma replace_found:
  assumes "wf_node ns h i" and "distinct (ids ns h i)" and "bm_inv (ents ns h i)"
    and b: "binary_search (n_keys (ns ! i)) key = Inr j" and j: "j < length (n_keys (ns ! i))" "n_keys (ns ! i) ! j = key"
  shows "key \<in> fst ` set (ents ns h i) \<and> (\<exists>ns'. replace ns i key v = Some (True, ns') \<and> updates ns ns' h i \<and> length ns' = length ns
      \<and> length (n_keys (ns' ! i)) = length (n_keys (ns ! i)) \<and> ents ns' h i = bm_insert key v (ents ns h i))"
proof -
  obtain xs ys where e: "ents ns h i = xs @ (n_keys (ns ! i) ! j, n_values (ns ! i) ! j) # ys"
    "ents (set_value i j v ns) h i = xs @ (n_keys (ns ! i) ! j, v) # ys"
    using entry_of_node [OF assms(1,2) j(1)] by metis
  have i: "i < length ns" using assms(1) by (rule wf_node_lt)
  have r: "replace ns i key v = Some (True, set_value i j v ns)"
    using b i j wf_values [OF assms(1)] by (subst replace.simps) (simp add: set_value_def)
  have "\<forall>x \<in> set xs. fst x < key" using sorted_split_lt [of xs] assms(3) j(2) unfolding e by auto
  then have "ents (set_value i j v ns) h i = bm_insert key v (ents ns h i)" unfolding e j(2) by (simp add: bm_insert_here)
  moreover have "length (set_value i j v ns) = length ns" "length (n_keys (set_value i j v ns ! i)) = length (n_keys (ns ! i))"
    using i by (simp_all add: set_value_def)
  ultimately show ?thesis using r e(1) j(2) set_value_tree(1) [OF assms(1,2)] by auto
qed

lemma replace_correct:
  assumes "wf_node ns h i" and "distinct (ids ns h i)" and "bm_inv (ents ns h i)"
  shows "if key \<in> fst ` set (ents ns h i)
    then \<exists>ns'. replace ns i key v = Some (True, ns') \<and> updates ns ns' h i \<and> length ns' = length ns
      \<and> length (n_keys (ns' ! i)) = length (n_keys (ns ! i)) \<and> ents ns' h i = bm_insert key v (ents ns h i)
    else replace ns i key v = Some (False, ns)"
  using assms
proof (induction h arbitrary: i)
  case 0
  note s = sorted_node_keys [OF "0.prems"(1,3)]
  from s show ?case
  proof (cases rule: binary_search_cases [where key = key])
    case (found j)
    show ?thesis using replace_found [OF "0.prems" found(1,2,3)] by auto
  next
    case (missing j)
    have "key \<noteq> fst x" if "x \<in> set (pairs (ns ! i))" for x
    proof -
      have "x \<in> set (take j (pairs (ns ! i))) \<or> x \<in> set (drop j (pairs (ns ! i)))"
        using that by (metis Un_iff append_take_drop_id set_append)
      then show ?thesis using missing_in_leaf [OF "0.prems"(1) missing(3,4)] by auto
    qed
    then have "key \<notin> fst ` set (ents ns 0 i)" by auto
    then show ?thesis using missing wf_node_lt [OF "0.prems"(1)] wf_leaf [OF "0.prems"(1)] by (subst replace.simps) simp
  qed
next
  case (Suc h)
  note s = sorted_node_keys [OF Suc.prems(1,3)]
  from s show ?case
  proof (cases rule: binary_search_cases [where key = key])
    case (found j)
    show ?thesis using replace_found [OF Suc.prems found(1,2,3)] by auto
  next
    case (missing j)
    let ?c = "n_children (ns ! i) ! j"
    note c = child_facts [OF Suc.prems(1,2) missing(2)]
    note e = ents_at_child [OF Suc.prems(1) missing(2)]
    note ar = around_child [OF Suc.prems(1,3) missing(2,3,4)]
    have r: "replace ns i key v = replace ns ?c key v"
      using missing wf_node_lt [OF Suc.prems(1)] wf_leaf [OF Suc.prems(1)] Suc.prems(1) by (subst replace.simps) simp
    have "bm_inv (ents ns h ?c)" using Suc.prems(3) unfolding e bm_inv_append by blast
    note IH = Suc.IH [OF c(2,4) this]
    have k: "key \<in> fst ` set (ents ns (Suc h) i) \<longleftrightarrow> key \<in> fst ` set (ents ns h ?c)"
      unfolding e using ar by fastforce
    show ?thesis
    proof (cases "key \<in> fst ` set (ents ns h ?c)")
      case True
      with IH obtain ns' where n: "replace ns ?c key v = Some (True, ns')" "updates ns ns' h ?c" "length ns' = length ns"
        "length (n_keys (ns' ! ?c)) = length (n_keys (ns ! ?c))" "ents ns' h ?c = bm_insert key v (ents ns h ?c)" by auto
      have "filled (ns' ! ?c)" using c(3) n(4) by (simp add: filled_def)
      note d = descend [OF Suc.prems(1,2) missing(2) n(2) this]
      have "ents ns' (Suc h) i = before ns h i j @ ents ns' h ?c @ behind ns h i j"
        using ents_at_child [of ns' h i j] d missing(2) by (simp add: updates_def)
      also have "\<dots> = bm_insert key v (ents ns (Suc h) i)" unfolding e n(5) by (rule bm_insert_mid [OF ar, symmetric])
      finally show ?thesis using True k r n d(1,2) by auto
    next
      case False
      with IH k r show ?thesis by simp
    qed
  qed
qed

section \<open>Traversal\<close>

lemma drop_inter:
  assumes "length ts = length es + 1" and "j < length es"
  shows "inter (drop j ts) (drop j es) = ts ! j @ es ! j # inter (drop (Suc j) ts) (drop (Suc j) es)"
proof -
  have "drop j ts = ts ! j # drop (Suc j) ts" "drop j es = es ! j # drop (Suc j) es" using assms by (simp_all add: Cons_nth_drop_Suc)
  then show ?thesis by simp
qed

lemma collect_correct:
  assumes "wf_node ns h i"
  shows "collect ns i 0 out = Some (out @ ents ns h i)"
  using assms
proof (induction h arbitrary: i out)
  case 0
  let ?n = "ns ! i"
  have n: "i < length ns" "node_ok ?n" "leaf ?n" "length (pairs ?n) = length (n_keys ?n)" "length (n_values ?n) = length (n_keys ?n)"
    using 0 by (auto simp: leaf_def length_pairs node_ok_def)
  have "collect ns i j out = Some (out @ drop j (pairs ?n))" if "j \<le> length (n_keys ?n)" for j out
    using that
  proof (induction "length (n_keys ?n) - j" arbitrary: j out)
    case 0
    then show ?case using n by (subst collect.simps) simp
  next
    case (Suc d)
    then have j: "j < length (n_keys ?n)" by simp
    have "collect ns i (Suc j) out' = Some (out' @ drop (Suc j) (pairs ?n))" for out' using Suc by simp
    moreover have "drop j (pairs ?n) = (n_keys ?n ! j, n_values ?n ! j) # drop (Suc j) (pairs ?n)"
      using j n nth_pairs [OF n(2) j] by (metis Cons_nth_drop_Suc)
    ultimately show ?case using n j by (subst collect.simps) simp
  qed
  from this [of 0] show ?case by simp
next
  case (Suc h)
  let ?n = "ns ! i" and ?ts = "map (ents ns h) (n_children (ns ! i))"
  have n: "i < length ns" "node_ok ?n" "\<not> leaf ?n" "length (pairs ?n) = length (n_keys ?n)" "length (n_values ?n) = length (n_keys ?n)"
    "length (n_children ?n) = length (n_keys ?n) + 1"
    using Suc.prems by (auto simp: leaf_def length_pairs node_ok_def)
  have kid: "collect ns (n_children ?n ! j) 0 out = Some (out @ ?ts ! j)" if "j < length (n_children ?n)" for j out
    using Suc.IH [of "n_children ?n ! j"] Suc.prems that by simp
  have "collect ns i j out = Some (out @ inter (drop j ?ts) (drop j (pairs ?n)))" if "j \<le> length (n_keys ?n)" for j out
    using that
  proof (induction "length (n_keys ?n) - j" arbitrary: j out)
    case 0
    then have j: "j = length (n_keys ?n)" by simp
    have "drop j ?ts = [?ts ! j]" using n j by (simp add: Cons_nth_drop_Suc [symmetric] del: nth_map)
    then have "inter (drop j ?ts) (drop j (pairs ?n)) = ?ts ! j" using n j by simp
    then show ?case using n j kid [of j] by (subst collect.simps) simp
  next
    case (Suc d)
    then have j: "j < length (n_keys ?n)" by simp
    have "collect ns i (Suc j) out' = Some (out' @ inter (drop (Suc j) ?ts) (drop (Suc j) (pairs ?n)))" for out' using Suc by simp
    then show ?case using n j kid [of j] drop_inter [of ?ts "pairs ?n" j] nth_pairs [OF n(2) j] by (subst collect.simps) simp
  qed
  from this [of 0] show ?case by simp
qed

text \<open>\<open>collect_keys\<close> is \<open>collect\<close> without the values.\<close>

lemma collect_keys_correct:
  assumes "wf_node ns h i"
  shows "collect_keys ns i 0 out = Some (out @ map fst (ents ns h i))"
  using assms
proof (induction h arbitrary: i out)
  case 0
  let ?n = "ns ! i"
  have n: "i < length ns" "leaf ?n" using 0 by (auto simp: leaf_def)
  have "collect_keys ns i j out = Some (out @ drop j (n_keys ?n))" if "j \<le> length (n_keys ?n)" for j out
    using that
  proof (induction "length (n_keys ?n) - j" arbitrary: j out)
    case 0
    then show ?case using n by (subst collect_keys.simps) simp
  next
    case (Suc d)
    then have j: "j < length (n_keys ?n)" by simp
    have "collect_keys ns i (Suc j) out' = Some (out' @ drop (Suc j) (n_keys ?n))" for out' using Suc by simp
    then show ?case using n j by (subst collect_keys.simps) (simp add: Cons_nth_drop_Suc)
  qed
  from this [of 0] show ?case using 0 by (simp add: fst_pairs)
next
  case (Suc h)
  let ?n = "ns ! i" and ?ts = "map (ents ns h) (n_children (ns ! i))"
  have n: "i < length ns" "node_ok ?n" "\<not> leaf ?n" "length (pairs ?n) = length (n_keys ?n)"
    "length (n_children ?n) = length (n_keys ?n) + 1"
    using Suc.prems by (auto simp: leaf_def length_pairs)
  have kid: "collect_keys ns (n_children ?n ! j) 0 out = Some (out @ map fst (?ts ! j))" if "j < length (n_children ?n)" for j out
    using Suc.IH [of "n_children ?n ! j"] Suc.prems that by simp
  have "collect_keys ns i j out = Some (out @ map fst (inter (drop j ?ts) (drop j (pairs ?n))))" if "j \<le> length (n_keys ?n)" for j out
    using that
  proof (induction "length (n_keys ?n) - j" arbitrary: j out)
    case 0
    then have j: "j = length (n_keys ?n)" by simp
    have "drop j ?ts = [?ts ! j]" using n j by (simp add: Cons_nth_drop_Suc [symmetric] del: nth_map)
    then have "inter (drop j ?ts) (drop j (pairs ?n)) = ?ts ! j" using n j by simp
    then show ?case using n j kid [of j] by (subst collect_keys.simps) simp
  next
    case (Suc d)
    then have j: "j < length (n_keys ?n)" by simp
    have "collect_keys ns i (Suc j) out' = Some (out' @ map fst (inter (drop (Suc j) ?ts) (drop (Suc j) (pairs ?n))))" for out' using Suc by simp
    then show ?case using n j kid [of j] drop_inter [of ?ts "pairs ?n" j] nth_pairs [OF n(2) j] by (subst collect_keys.simps) simp
  qed
  from this [of 0] show ?case by simp
qed

end
