(* ===== verification/BTree_Insert.thy ===== *)
theory BTree_Insert
  imports BTree_Refinement
begin

text \<open>
  Splitting a full child and inserting into a node that is not full: the entries change as in the ordered map, the tree
  stays balanced and every node but the root stays at least half full.
\<close>

section \<open>Splitting a node\<close>

definition left_half :: "node \<Rightarrow> node" where
  "left_half n = \<lparr>n_keys = take (MIN_DEGREE - 1) (n_keys n), n_values = take (MIN_DEGREE - 1) (n_values n),
     n_children = take MIN_DEGREE (n_children n)\<rparr>"

definition right_half :: "node \<Rightarrow> node" where
  "right_half n = \<lparr>n_keys = drop MIN_DEGREE (n_keys n), n_values = drop MIN_DEGREE (n_values n),
     n_children = drop MIN_DEGREE (n_children n)\<rparr>"

definition median :: "node \<Rightarrow> rstring \<times> rstring" where
  "median n = (n_keys n ! (MIN_DEGREE - 1), n_values n ! (MIN_DEGREE - 1))"

definition parent_of_halves :: "nat \<Rightarrow> node \<Rightarrow> nat \<Rightarrow> node \<Rightarrow> node" where
  "parent_of_halves k child r p =
    \<lparr>n_keys = take k (n_keys p) @ fst (median child) # drop k (n_keys p),
     n_values = take k (n_values p) @ snd (median child) # drop k (n_values p),
     n_children = take (Suc k) (n_children p) @ r # drop (Suc k) (n_children p)\<rparr>"

definition split_nodes :: "nat \<Rightarrow> nat \<Rightarrow> nat \<Rightarrow> node list \<Rightarrow> node list" where
  "split_nodes p k c ns = (ns[c := left_half (ns ! c)] @ [right_half (ns ! c)])
     [p := parent_of_halves k (ns ! c) (length ns) (ns ! p)]"

definition full :: "node \<Rightarrow> bool" where
  "full n \<longleftrightarrow> length (n_keys n) = MAX_KEYS"

lemma degrees: "MIN_DEGREE = 8" "MAX_KEYS = 15"
  by (simp_all add: MIN_DEGREE_def MAX_KEYS_def)

lemma split_pairs:
  assumes "node_ok n" and "full n"
  shows "pairs n = pairs (left_half n) @ median n # pairs (right_half n)"
proof -
  let ?p = "pairs n"
  have l: "length ?p = 15" using assms by (simp add: length_pairs full_def degrees)
  have "?p = take 7 ?p @ ?p ! 7 # drop 8 ?p" using id_take_nth_drop [of 7 ?p] l by simp
  moreover have "?p ! 7 = median n" using nth_pairs [OF assms(1), of 7] assms(2) by (simp add: median_def full_def degrees)
  ultimately show ?thesis
    by (simp add: pairs_def left_half_def right_half_def take_zip drop_zip degrees)
qed

lemma halves_ok:
  assumes "node_ok n" and "full n"
  shows "node_ok (left_half n)" and "node_ok (right_half n)" and "length (n_keys (left_half n)) = MIN_DEGREE - 1"
    and "length (n_keys (right_half n)) = MIN_DEGREE - 1" and "filled (left_half n)" and "filled (right_half n)"
  using assms by (simp_all add: node_ok_def full_def left_half_def right_half_def filled_def degrees)

lemma split_child_eq:
  assumes "p < length ns" and "k < length (n_children (ns ! p))" and "n_children (ns ! p) ! k < length ns"
    and "n_children (ns ! p) ! k \<noteq> p" and ok: "node_ok (ns ! p)" "node_ok (ns ! (n_children (ns ! p) ! k))"
    and f: "full (ns ! (n_children (ns ! p) ! k))" and "k \<le> length (n_keys (ns ! p))"
    and ch: "n_children (ns ! (n_children (ns ! p) ! k)) = [] \<or> MIN_DEGREE \<le> length (n_children (ns ! (n_children (ns ! p) ! k)))"
  shows "split_child p k ns = Some (split_nodes p k (n_children (ns ! p) ! k) ns)"
proof -
  define c where "c = n_children (ns ! p) ! k"
  define n where "n = ns ! c"
  have l: "length (n_keys n) = 15" "length (n_values n) = 15"
    using ok(2) f by (simp_all add: n_def c_def node_ok_def full_def degrees)
  have t: "take 8 (n_keys n) = take 7 (n_keys n) @ [n_keys n ! 7]" "take 8 (n_values n) = take 7 (n_values n) @ [n_values n ! 7]"
    using l take_Suc_conv_app_nth [of 7 "n_keys n"] take_Suc_conv_app_nth [of 7 "n_values n"] by simp_all
  have s: "split_off 8 (n_keys n) = Some (take 8 (n_keys n), drop 8 (n_keys n))"
    "split_off 8 (n_values n) = Some (take 8 (n_values n), drop 8 (n_values n))"
    using l by (simp_all add: split_off_def)
  have pops: "pop (take 8 (n_keys n)) = Some (take 7 (n_keys n), n_keys n ! 7)" "pop (take 8 (n_values n)) = Some (take 7 (n_values n), n_values n ! 7)"
    unfolding t by (simp_all add: pop_def)
  have kids: "(if leaf n then Some (n_children n, []) else split_off 8 (n_children n)) = Some (take 8 (n_children n), drop 8 (n_children n))"
    using ch by (auto simp: leaf_def split_off_def n_def c_def degrees)
  have ins: "insert_at k x xs = Some (take k xs @ x # drop k xs)" if "k \<le> length xs" for k and x :: 'a and xs using that by (simp add: insert_at_def)
  have "c \<noteq> p" "c < length ns" using assms by (simp_all add: c_def)
  then have at': "at (ns[c := L] @ [R]) p = Some (ns ! p)" "(ns[c := L] @ [R]) ! p = ns ! p" for L R
    using assms(1) by (simp_all add: at_def nth_append)
  show ?thesis
    unfolding split_child_def split_nodes_def c_def [symmetric] degrees
    using assms(1,2,3,8) ok(1) \<open>c < length ns\<close>
    by (simp add: s pops kids at' ins Let_def node_ok_def parent_of_halves_def left_half_def right_half_def median_def
        degrees flip: c_def n_def)
qed

lemma inter_join: "length xs = length es + 1 \<Longrightarrow> inter (xs @ ys) (es @ m # fs) = inter xs es @ m # inter ys fs"
proof (induction xs es rule: inter.induct)
  case (2 t ts)
  then show ?case by simp
qed auto

text \<open>The two halves of a child, in the vector after the split.\<close>

lemma split_nodes_nth:
  assumes "c < length ns" and "p < length ns" and "c \<noteq> p"
  shows "length (split_nodes p k c ns) = Suc (length ns)" and "split_nodes p k c ns ! c = left_half (ns ! c)"
    and "split_nodes p k c ns ! length ns = right_half (ns ! c)"
    and "split_nodes p k c ns ! p = parent_of_halves k (ns ! c) (length ns) (ns ! p)"
    and "\<And>j. j < length ns \<Longrightarrow> j \<noteq> c \<Longrightarrow> j \<noteq> p \<Longrightarrow> split_nodes p k c ns ! j = ns ! j"
  using assms by (simp_all add: split_nodes_def nth_append)

lemma split_halves:
  fixes k
  assumes wf: "wf_node ns h c" and d: "distinct (ids ns h c)" and f: "full (ns ! c)" and p: "p \<notin> set (ids ns h c)" "p < length ns"
  defines "ns' \<equiv> split_nodes p k c ns" and "r \<equiv> length ns"
  shows "wf_node ns' h c" and "wf_node ns' h r" and "ents ns' h c @ median (ns ! c) # ents ns' h r = ents ns h c"
    and "set (ids ns' h c) \<union> set (ids ns' h r) = insert r (set (ids ns h c))" and "distinct (ids ns' h c @ ids ns' h r)"
proof -
  let ?n = "ns ! c"
  have c: "c < length ns" "c \<noteq> p" using wf p self_in_ids [of c ns h] by (auto dest: wf_node_lt)
  note nth = split_nodes_nth [OF c(1) p(2) c(2), where k = k, folded ns'_def r_def]
  have ok: "node_ok ?n" using wf by (rule wf_node_ok)
  note halves = halves_ok [OF ok f] and sp = split_pairs [OF ok f]
  have "wf_node ns' h c \<and> wf_node ns' h r \<and> ents ns' h c @ median ?n # ents ns' h r = ents ns h c
    \<and> set (ids ns' h c) \<union> set (ids ns' h r) = insert r (set (ids ns h c)) \<and> distinct (ids ns' h c @ ids ns' h r)"
  proof (cases h)
    case 0
    have "n_children (left_half ?n) = []" "n_children (right_half ?n) = []" using wf 0 by (simp_all add: left_half_def right_half_def)
    then show ?thesis using nth halves sp c 0 by (auto simp: r_def)
  next
    case (Suc g)
    define ch where "ch = n_children ?n"
    have lc: "length ch = 16" using wf f Suc by (simp add: ch_def full_def degrees)
    have ids: "ids ns h c = c # concat (map (ids ns g) (take 8 ch)) @ concat (map (ids ns g) (drop 8 ch))"
      unfolding Suc ids.simps ch_def [symmetric] concat_append [symmetric] map_append [symmetric] by simp
    have kid: "wf_node ns' g e \<and> ents ns' g e = ents ns g e \<and> ids ns' g e = ids ns g e \<and> filled (ns' ! e)" if "e \<in> set ch" for e
    proof -
      have e: "wf_node ns g e" "filled (ns ! e)" using wf that Suc by (auto simp: ch_def)
      have sub: "set (ids ns g e) \<subseteq> set (ids ns h c)" "c \<notin> set (ids ns g e)" using that d Suc by (auto simp: ch_def)
      have fr: "j < length ns' \<and> ns' ! j = ns ! j" if "j \<in> set (ids ns g e)" for j
        using ids_lt [OF e(1) that, folded r_def] nth(1) nth(5) [of j] that sub p(1) by auto
      from frame_subtree [OF e(1) fr] fr [OF self_in_ids] e(2) show ?thesis by simp
    qed
    have sets: "set (take 8 ch) \<subseteq> set ch" "set (drop 8 ch) \<subseteq> set ch" by (simp_all add: set_take_subset set_drop_subset)
    have maps: "map (ids ns' g) (take 8 ch) = map (ids ns g) (take 8 ch)" "map (ids ns' g) (drop 8 ch) = map (ids ns g) (drop 8 ch)"
      "map (ents ns' g) (take 8 ch) = map (ents ns g) (take 8 ch)" "map (ents ns' g) (drop 8 ch) = map (ents ns g) (drop 8 ch)"
      using kid sets by auto
    have chs: "n_children (left_half ?n) = take 8 ch" "n_children (right_half ?n) = drop 8 ch"
      by (simp_all add: left_half_def right_half_def ch_def degrees)
    have idl: "ids ns' h c = c # concat (map (ids ns g) (take 8 ch))" "ids ns' h r = r # concat (map (ids ns g) (drop 8 ch))"
      unfolding Suc ids.simps nth chs by (simp_all only: maps)
    have el: "ents ns' h c = inter (map (ents ns g) (take 8 ch)) (pairs (left_half ?n))"
      "ents ns' h r = inter (map (ents ns g) (drop 8 ch)) (pairs (right_half ?n))"
      unfolding Suc ents.simps nth chs by (simp_all only: maps)
    have "ents ns h c = inter (map (ents ns g) (take 8 ch) @ map (ents ns g) (drop 8 ch)) (pairs (left_half ?n) @ median ?n # pairs (right_half ?n))"
      unfolding Suc ents.simps ch_def [symmetric] sp [symmetric] map_append [symmetric] by simp
    also have "\<dots> = ents ns' h c @ median ?n # ents ns' h r"
      unfolding el by (rule inter_join) (use halves lc in \<open>simp add: length_pairs degrees\<close>)
    finally have e: "ents ns' h c @ median ?n # ents ns' h r = ents ns h c" by simp
    have "r \<notin> set (ids ns h c)" using ids_lt [OF wf] by (auto simp: r_def)
    then have dd: "distinct (ids ns' h c @ ids ns' h r)" using d c unfolding ids idl by auto
    have w: "wf_node ns' h c" "wf_node ns' h r"
      using nth(1) nth(2) nth(3) chs halves kid sets lc c unfolding Suc wf_node.simps by (auto simp: degrees r_def)
    show ?thesis using e dd w unfolding ids idl by auto
  qed
  then show "wf_node ns' h c" and "wf_node ns' h r" and "ents ns' h c @ median ?n # ents ns' h r = ents ns h c"
    and "set (ids ns' h c) \<union> set (ids ns' h r) = insert r (set (ids ns h c))" and "distinct (ids ns' h c @ ids ns' h r)" by blast+
qed

lemma split_child_ok:
  assumes wf: "wf_node ns (Suc h) p" and d: "distinct (ids ns (Suc h) p)" and k: "k \<le> length (n_keys (ns ! p))"
    and room: "length (n_keys (ns ! p)) < MAX_KEYS" and f: "full (ns ! (n_children (ns ! p) ! k))"
  defines "c \<equiv> n_children (ns ! p) ! k"
  defines "ns' \<equiv> split_nodes p k c ns"
  shows "split_child p k ns = Some ns'" and "updates ns ns' (Suc h) p" and "ents ns' (Suc h) p = ents ns (Suc h) p"
    and "ns' ! p = parent_of_halves k (ns ! c) (length ns) (ns ! p)"
    and "length (n_keys (ns' ! c)) = MIN_DEGREE - 1" and "length (n_keys (ns' ! length ns)) = MIN_DEGREE - 1"
proof -
  let ?P = "ns ! p" and ?r = "length ns"
  note cf = child_facts [OF wf d k, folded c_def]
  have P: "p < length ns" "node_ok ?P" "length (n_children ?P) = length (n_keys ?P) + 1" using wf by auto
  have cp: "c \<noteq> p" using cf(5) self_in_ids [of c ns h] by metis
  have cl: "c < length ns" using cf(2) by (rule wf_node_lt)
  have fc: "full (ns ! c)" using f by (simp add: c_def)
  have okc: "node_ok (ns ! c)" using cf(2) by (rule wf_node_ok)
  have chc: "n_children (ns ! c) = [] \<or> MIN_DEGREE \<le> length (n_children (ns ! c))"
    using cf(2) fc by (cases h) (auto simp: full_def degrees)
  show "split_child p k ns = Some ns'"
    unfolding ns'_def c_def by (rule split_child_eq) (use P cp cl fc okc chc k in \<open>simp_all add: c_def\<close>)
  note nth = split_nodes_nth [OF cl P(1) cp, where k = k, folded ns'_def]
  show np: "ns' ! p = parent_of_halves k (ns ! c) ?r ?P" by (rule nth(4))
  show "length (n_keys (ns' ! c)) = MIN_DEGREE - 1" "length (n_keys (ns' ! ?r)) = MIN_DEGREE - 1"
    using nth(2,3) halves_ok(3,4) [OF okc fc] by simp_all
  note hv = split_halves [OF cf(2,4) fc cf(5) P(1), where k = k, folded ns'_def]
  define xs ys where xy: "xs = take k (n_children ?P)" "ys = drop (Suc k) (n_children ?P)"
  have cs: "n_children ?P = xs @ c # ys" unfolding xy c_def by (rule id_take_nth_drop) (use P k in simp)
  have cs': "n_children (ns' ! p) = xs @ c # ?r # ys"
    using P k by (simp add: np parent_of_halves_def xy c_def take_Suc_conv_app_nth)
  define A B where AB: "A = concat (map (ids ns h) xs)" "B = concat (map (ids ns h) ys)"
  have ids: "ids ns (Suc h) p = p # A @ ids ns h c @ B" unfolding ids.simps cs by (simp add: AB)
  have old: "j < ?r" if "j \<in> set (ids ns (Suc h) p)" for j by (rule ids_lt [OF wf that])
  have same: "wf_node ns' h e \<and> ents ns' h e = ents ns h e \<and> ids ns' h e = ids ns h e \<and> filled (ns' ! e)" if "e \<in> set xs \<union> set ys" for e
  proof -
    have e: "wf_node ns h e" "filled (ns ! e)" using that wf by (auto simp: cs)
    have sub: "set (ids ns h e) \<subseteq> set A \<union> set B" using that by (auto simp: AB)
    have fr: "j < length ns' \<and> ns' ! j = ns ! j" if "j \<in> set (ids ns h e)" for j
    proof -
      have "j \<in> set (ids ns (Suc h) p)" "j \<noteq> p" using that sub d unfolding ids by auto
      moreover have "c \<notin> set A \<union> set B"
        using d self_in_ids [of c ns h] unfolding ids distinct.simps distinct_append set_append by blast
      then have "j \<noteq> c" using that sub by blast
      ultimately have "j \<in> set (ids ns (Suc h) p)" "j \<noteq> p" "j \<noteq> c" by blast+
      with old [of j] nth(1) nth(5) [of j] show ?thesis by simp
    qed
    from frame_subtree [OF e(1) fr] fr [OF self_in_ids] e(2) show ?thesis by simp
  qed
  have maps: "map (ids ns' h) xs = map (ids ns h) xs" "map (ids ns' h) ys = map (ids ns h) ys"
    "map (ents ns' h) xs = map (ents ns h) xs" "map (ents ns' h) ys = map (ents ns h) ys" using same by auto
  have ids': "ids ns' (Suc h) p = p # A @ (ids ns' h c @ ids ns' h ?r) @ B"
    unfolding ids.simps cs' AB by (simp add: maps del: map_eq_conv)
  have o: "set (p # A @ B) \<inter> set (ids ns h c) = {}" "distinct (p # A @ B)" using d unfolding ids by auto
  have n: "?r \<notin> set (p # A @ B)" using old [of ?r] unfolding ids by auto
  have dist: "distinct (ids ns' (Suc h) p)"
  proof -
    have "set (p # A @ B) \<inter> set (ids ns' h c @ ids ns' h ?r) = {}" using hv(4) o(1) n by auto
    then show ?thesis using o(2) hv(5) unfolding ids' by auto
  qed
  have wf': "wf_node ns' (Suc h) p"
  proof -
    have "node_ok (ns' ! p)" "length (n_children (ns' ! p)) = length (n_keys (ns' ! p)) + 1"
      using P room k by (simp_all add: np parent_of_halves_def node_ok_def degrees)
    moreover have "wf_node ns' h e \<and> filled (ns' ! e)" if "e \<in> set (n_children (ns' ! p))" for e
      using that same [of e] hv(1,2) nth(2,3) halves_ok(5,6) [OF okc fc] unfolding cs' by auto
    ultimately show ?thesis using P(1) nth(1) by simp
  qed
  have frame: "ns' ! j = ns ! j" if "j < ?r" "j \<notin> set (ids ns (Suc h) p)" for j
  proof -
    have "j \<noteq> c" using that(2) self_in_ids [of c ns h] unfolding ids set_simps set_append by blast
    then show ?thesis using that nth(5) [of j] unfolding ids by auto
  qed
  have "set (ids ns' (Suc h) p) = set (ids ns (Suc h) p) \<union> {?r ..< length ns'}" using hv(4) nth(1) unfolding ids ids' by auto
  with wf' dist frame nth(1) show "updates ns ns' (Suc h) p" by (simp add: updates_def)
  have pp: "pairs (ns' ! p) = take k (pairs ?P) @ median (ns ! c) # drop k (pairs ?P)"
    using P(2) k by (simp add: np parent_of_halves_def pairs_def node_ok_def take_zip drop_zip zip_append1)
  have lx: "length (map (ents ns h) xs) = length (take k (pairs ?P))" "length (map (ents ns h) ys) = length (drop k (pairs ?P))"
    using P k by (simp_all add: xy length_pairs)
  have "ents ns' (Suc h) p = inter (map (ents ns h) xs @ ents ns' h c # ents ns' h ?r # map (ents ns h) ys)
      (take k (pairs ?P) @ median (ns ! c) # drop k (pairs ?P))"
    unfolding ents.simps cs' pp by (simp add: maps del: map_eq_conv)
  also have "\<dots> = lefts (map (ents ns h) xs) (take k (pairs ?P)) @ (ents ns' h c @ median (ns ! c) # ents ns' h ?r) @ rights (drop k (pairs ?P)) (map (ents ns h) ys)"
    using lx by (simp add: inter_lefts inter_rights)
  also have "\<dots> = ents ns (Suc h) p"
    unfolding hv(3) ents_at_child [OF wf k] before_def behind_def c_def [symmetric] xy by simp
  finally show "ents ns' (Suc h) p = ents ns (Suc h) p" .
qed

section \<open>Inserting into a node that is not full\<close>

lemma insert_at_eq: "i \<le> length xs \<Longrightarrow> insert_at i x xs = Some (take i xs @ x # drop i xs)"
  by (simp add: insert_at_def)

text \<open>The descent into a child that has room, when the child's insertion is known.\<close>

lemma insert_descend:
  assumes wf: "wf_node ns (Suc h) i" and d: "distinct (ids ns (Suc h) i)" and s: "bm_inv (ents ns (Suc h) i)"
    and j: "j \<le> length (n_keys (ns ! i))" and lo: "\<forall>x \<in> set (take j (n_keys (ns ! i))). x < key"
    and hi: "\<forall>x \<in> set (drop j (n_keys (ns ! i))). key < x"
    and IH: "\<exists>ns'. insert_non_full ns (n_children (ns ! i) ! j) key v = Some ns' \<and> updates ns ns' h (n_children (ns ! i) ! j)
      \<and> ents ns' h (n_children (ns ! i) ! j) = bm_insert key v (ents ns h (n_children (ns ! i) ! j))
      \<and> length (n_keys (ns ! (n_children (ns ! i) ! j))) \<le> length (n_keys (ns' ! (n_children (ns ! i) ! j)))"
  shows "\<exists>ns'. insert_non_full ns (n_children (ns ! i) ! j) key v = Some ns' \<and> updates ns ns' (Suc h) i
      \<and> ents ns' (Suc h) i = bm_insert key v (ents ns (Suc h) i) \<and> ns' ! i = ns ! i"
proof -
  let ?c = "n_children (ns ! i) ! j"
  from IH obtain ns' where n: "insert_non_full ns ?c key v = Some ns'" "updates ns ns' h ?c"
    "ents ns' h ?c = bm_insert key v (ents ns h ?c)" "length (n_keys (ns ! ?c)) \<le> length (n_keys (ns' ! ?c))" by blast
  have "filled (ns' ! ?c)" using child_facts(3) [OF wf d j] n(4) by (simp add: filled_def)
  note ds = descend [OF wf d j n(2) this]
  have "ents ns' (Suc h) i = before ns h i j @ ents ns' h ?c @ behind ns h i j"
    using ents_at_child [of ns' h i j] ds j by (simp add: updates_def)
  also have "\<dots> = bm_insert key v (ents ns (Suc h) i)"
    unfolding ents_at_child [OF wf j] n(3) by (rule bm_insert_mid [OF around_child [OF wf s j lo hi], symmetric])
  finally show ?thesis using n ds by blast
qed

lemma insert_leaf:
  assumes wf: "wf_node ns 0 i" and room: "\<not> full (ns ! i)" and b: "binary_search (n_keys (ns ! i)) key = Inl j"
    and j: "j \<le> length (n_keys (ns ! i))" and lo: "\<forall>x \<in> set (take j (n_keys (ns ! i))). x < key"
    and hi: "\<forall>x \<in> set (drop j (n_keys (ns ! i))). key < x"
  shows "\<exists>ns'. insert_non_full ns i key v = Some ns' \<and> updates ns ns' 0 i \<and> ents ns' 0 i = bm_insert key v (ents ns 0 i)
    \<and> length (n_keys (ns ! i)) \<le> length (n_keys (ns' ! i))"
proof -
  let ?n = "ns ! i"
  let ?n' = "?n\<lparr>n_keys := take j (n_keys ?n) @ key # drop j (n_keys ?n), n_values := take j (n_values ?n) @ v # drop j (n_values ?n)\<rparr>"
  have i: "i < length ns" "node_ok ?n" "n_children ?n = []" using wf by auto
  have lv: "length (n_values ?n) = length (n_keys ?n)" using i by (simp add: node_ok_def)
  have r: "insert_non_full ns i key v = Some (ns[i := ?n'])"
    using i b j lv by (subst insert_non_full.simps) (simp add: leaf_def insert_at_eq)
  have p: "pairs ?n' = take j (pairs ?n) @ [(key, v)] @ drop j (pairs ?n)"
    using j lv by (simp add: pairs_def take_zip drop_zip zip_append1)
  have "bm_insert key v (take j (pairs ?n) @ [] @ drop j (pairs ?n)) = take j (pairs ?n) @ bm_insert key v [] @ drop j (pairs ?n)"
    by (rule bm_insert_mid [OF missing_in_leaf [OF wf lo hi]])
  then have "ents (ns[i := ?n']) 0 i = bm_insert key v (ents ns 0 i)" using i p by simp
  moreover have "node_ok ?n'" using i room j by (simp add: node_ok_def full_def)
  then have "updates ns (ns[i := ?n']) 0 i" using i by (simp add: updates_def)
  moreover have "length (n_keys ?n) \<le> length (n_keys (ns[i := ?n'] ! i))" using i by simp
  ultimately show ?thesis using r by blast
qed

lemma insert_non_full_correct:
  assumes "wf_node ns h i" and "distinct (ids ns h i)" and "bm_inv (ents ns h i)" and "\<not> full (ns ! i)"
    and "key \<notin> fst ` set (ents ns h i)"
  shows "\<exists>ns'. insert_non_full ns i key v = Some ns' \<and> updates ns ns' h i \<and> ents ns' h i = bm_insert key v (ents ns h i)
    \<and> length (n_keys (ns ! i)) \<le> length (n_keys (ns' ! i))"
  using assms
proof (induction h arbitrary: i ns)
  case 0
  note s = sorted_node_keys [OF "0.prems"(1,3)]
  from s show ?case
  proof (cases rule: binary_search_cases [where key = key])
    case (found j)
    then show ?thesis using replace_found [OF "0.prems"(1,2,3) found(1,2,3)] "0.prems"(5) by blast
  next
    case (missing j)
    from insert_leaf [OF "0.prems"(1,4) missing(1,2,3,4)] show ?thesis .
  qed
next
  case (Suc h)
  note wf = Suc.prems(1) and d = Suc.prems(2) and so = Suc.prems(3)
  note s = sorted_node_keys [OF wf so]
  from s show ?case
  proof (cases rule: binary_search_cases [where key = key])
    case (found j)
    then show ?thesis using replace_found [OF Suc.prems(1,2,3) found(1,2,3)] Suc.prems(5) by blast
  next
    case (missing j)
    let ?c = "n_children (ns ! i) ! j"
    note c = child_facts [OF wf d missing(2)]
    note e = ents_at_child [OF wf missing(2)]
    have i: "i < length ns" "\<not> leaf (ns ! i)" "j < length (n_children (ns ! i))" "?c < length ns"
      using wf wf_leaf [OF wf] missing(2) wf_node_lt [OF c(2)] by auto
    show ?thesis
    proof (cases "full (ns ! ?c)")
      case False
      have "bm_inv (ents ns h ?c)" "key \<notin> fst ` set (ents ns h ?c)" using so Suc.prems(5) unfolding e bm_inv_append by auto
      from insert_descend [OF wf d so missing(2,3,4) Suc.IH [OF c(2,4) this(1) False this(2)]]
      obtain ns' where "insert_non_full ns ?c key v = Some ns'" "updates ns ns' (Suc h) i"
        "ents ns' (Suc h) i = bm_insert key v (ents ns (Suc h) i)" "ns' ! i = ns ! i" by blast
      moreover have "insert_non_full ns i key v = insert_non_full ns ?c key v"
        using missing(1) i False by (subst insert_non_full.simps) (simp add: full_def)
      ultimately show ?thesis by auto
    next
      case True
      define m where "m = split_nodes i j ?c ns"
      have room: "length (n_keys (ns ! i)) < MAX_KEYS" using wf Suc.prems(4) by (auto simp: full_def node_ok_def)
      note sp = split_child_ok [OF wf d missing(2) room True, folded m_def]
      have m: "wf_node m (Suc h) i" "distinct (ids m (Suc h) i)" "length ns \<le> length m" using sp(2) by (auto simp: updates_def)
      have so': "bm_inv (ents m (Suc h) i)" "key \<notin> fst ` set (ents m (Suc h) i)" using so Suc.prems(5) sp(3) by simp_all
      obtain mk where keys: "n_keys (m ! i) = take j (n_keys (ns ! i)) @ mk # drop j (n_keys (ns ! i))"
        by (simp add: sp(4) parent_of_halves_def)
      have kids: "n_children (m ! i) = take (Suc j) (n_children (ns ! i)) @ length ns # drop (Suc j) (n_children (ns ! i))"
        by (simp add: sp(4) parent_of_halves_def)
      have jk: "n_keys (m ! i) ! j = mk" "j < length (n_keys (m ! i))" using keys missing(2) by (simp_all add: nth_append)
      have "mk \<in> fst ` set (pairs (m ! i))" using fst_pairs [of "m ! i"] m(1) keys by (metis in_set_conv_decomp set_map wf_node_ok)
      then have "mk \<in> fst ` set (ents m (Suc h) i)"
        using inter_contains [of "map (ents m h) (n_children (m ! i))" "pairs (m ! i)"] m(1) by (auto simp: length_pairs)
      then have ne: "key \<noteq> mk" using so'(2) by blast
      define q where "q = (if mk < key then Suc j else j)"
      have q: "q \<le> length (n_keys (m ! i))" using jk q_def by auto
      have lo: "\<forall>x \<in> set (take q (n_keys (m ! i))). x < key" and hi: "\<forall>x \<in> set (drop q (n_keys (m ! i))). key < x"
        using missing(2,3,4) ne by (auto simp: q_def keys take_Suc_conv_app_nth split: if_splits)
      have "n_children (m ! i) ! q = ?c \<or> n_children (m ! i) ! q = length ns"
        using i(3) by (auto simp: q_def kids nth_append)
      then have nf: "\<not> full (m ! (n_children (m ! i) ! q))" using sp(5,6) by (auto simp: full_def degrees)
      note cm = child_facts [OF m(1,2) q]
      have "bm_inv (ents m h (n_children (m ! i) ! q))" "key \<notin> fst ` set (ents m h (n_children (m ! i) ! q))"
        using so' unfolding ents_at_child [OF m(1) q] bm_inv_append by auto
      from insert_descend [OF m(1,2) so'(1) q lo hi Suc.IH [OF cm(2,4) this(1) nf this(2)]]
      obtain ns' where n: "insert_non_full m (n_children (m ! i) ! q) key v = Some ns'" "updates m ns' (Suc h) i"
        "ents ns' (Suc h) i = bm_insert key v (ents m (Suc h) i)" "ns' ! i = m ! i" by blast
      have "at m i = Some (m ! i)" "at (n_children (m ! i)) q = Some (n_children (m ! i) ! q)"
        using i(1) m q by (simp_all add: at_def)
      then have "insert_non_full ns i key v = insert_non_full m (n_children (m ! i) ! q) key v"
        using missing(1) i True ne sp(1) jk by (subst insert_non_full.simps) (auto simp: full_def q_def)
      moreover have "updates ns ns' (Suc h) i" using sp(2) n(2) by (rule updates_trans)
      moreover have "length (n_keys (ns ! i)) \<le> length (n_keys (ns' ! i))" using keys n(4) by simp
      ultimately show ?thesis using n sp(3) by auto
    qed
  qed
qed

end
