(* ===== verification/BTree.thy ===== *)
theory BTree
  imports BTree_Insert
begin

text \<open>
  The index as an ordered map. \<open>ordered_index\<close> is what the store relies on; the B-tree is an interpretation of it. The
  section on balance bounds the height of the tree by the number of its entries.
\<close>

section \<open>The interface\<close>

lemma bm_list_of_map: "bm_inv m \<Longrightarrow> m = map (\<lambda>k. (k, the (bm_get m k))) (map fst m)"
  using bm_get_in [of m] by (intro nth_equalityI) (auto, metis nth_mem option.sel prod.collapse)

lemma bm_eqI:
  assumes "bm_inv a" and "bm_inv b" and "bm_get a = bm_get b"
  shows "a = b"
proof -
  have "set (map fst a) = set (map fst b)" using assms(3) by (metis dom_map_of_conv_image_fst set_map)
  then have "map fst a = map fst b"
    using assms(1,2) by (simp add: bm_inv_def strict_sorted_equal)
  then show ?thesis using bm_list_of_map [OF assms(1)] bm_list_of_map [OF assms(2)] assms(3) by metis
qed

locale ordered_index =
  fixes inv :: "'t \<Rightarrow> bool"
    and new :: 't
    and get :: "'t \<Rightarrow> rstring \<Rightarrow> rstring option option"
    and ins :: "rstring \<Rightarrow> rstring \<Rightarrow> 't \<Rightarrow> 't option"
    and del :: "rstring \<Rightarrow> 't \<Rightarrow> (bool \<times> 't) option"
    and entries :: "'t \<Rightarrow> (rstring \<times> rstring) list option"
  assumes inv_new: "inv new"
    and entries_new: "entries new = Some []"
    and entries_total: "inv t \<Longrightarrow> \<exists>es. entries t = Some es \<and> bm_inv es"
    and get_law: "inv t \<Longrightarrow> entries t = Some es \<Longrightarrow> get t k = Some (bm_get es k)"
    and ins_law: "inv t \<Longrightarrow> entries t = Some es \<Longrightarrow> \<exists>t'. ins k v t = Some t' \<and> inv t' \<and> entries t' = Some (bm_insert k v es)"
    and del_law: "inv t \<Longrightarrow> entries t = Some es \<Longrightarrow>
      \<exists>t'. del k t = Some (k \<in> fst ` set es, t') \<and> inv t' \<and> entries t' = Some (bm_remove k es)"
begin

text \<open>What a client sees of one operation after another.\<close>

lemma get_ins: "inv t \<Longrightarrow> \<exists>t'. ins k v t = Some t' \<and> inv t' \<and> get t' k' = (if k' = k then Some (Some v) else get t k')"
  using entries_total [of t] ins_law [of t _ k v] get_law by (fastforce simp: bm_simps)

lemma get_del: "inv t \<Longrightarrow> \<exists>b t'. del k t = Some (b, t') \<and> inv t' \<and> get t' k' = (if k' = k then Some None else get t k')"
  using entries_total [of t] del_law [of t _ k] get_law by (fastforce simp: bm_simps)

lemma entries_eqI:
  assumes "inv t" and "inv t'" and "\<And>k. get t k = get t' k"
  shows "entries t = entries t'"
proof -
  obtain es es' where e: "entries t = Some es" "bm_inv es" "entries t' = Some es'" "bm_inv es'"
    using entries_total assms(1,2) by meson
  have "bm_get es = bm_get es'" using assms(3) get_law [OF assms(1) e(1)] get_law [OF assms(2) e(3)] by auto
  then have "es = es'" using e by (intro bm_eqI)
  then show ?thesis using e by simp
qed

end

section \<open>The B-tree\<close>

definition btree_at :: "nat \<Rightarrow> btree \<Rightarrow> bool" where
  "btree_at h t \<longleftrightarrow> wf_node (bt_nodes t) h (bt_root t) \<and> distinct (ids (bt_nodes t) h (bt_root t))
    \<and> set (ids (bt_nodes t) h (bt_root t)) = {..< length (bt_nodes t)}
    \<and> bm_inv (ents (bt_nodes t) h (bt_root t)) \<and> bt_len t = length (ents (bt_nodes t) h (bt_root t))
    \<and> (h > 0 \<longrightarrow> n_keys (bt_nodes t ! bt_root t) \<noteq> [])"

definition btree_inv :: "btree \<Rightarrow> bool" where
  "btree_inv t \<longleftrightarrow> (\<exists>h. btree_at h t)"

abbreviation tree_ents :: "nat \<Rightarrow> btree \<Rightarrow> (rstring \<times> rstring) list" where
  "tree_ents h t \<equiv> ents (bt_nodes t) h (bt_root t)"

lemma btree_at_entries: "btree_at h t \<Longrightarrow> btree_entries t = Some (tree_ents h t)"
  using collect_correct [of "bt_nodes t" h "bt_root t" "[]"] by (simp add: btree_at_def btree_entries_def)

lemma btree_at_keys: "btree_at h t \<Longrightarrow> btree_keys t = Some (map fst (tree_ents h t))"
  using collect_keys_correct [of "bt_nodes t" h "bt_root t" "[]"] by (simp add: btree_at_def btree_keys_def)

lemma btree_at_get: "btree_at h t \<Longrightarrow> btree_get t k = Some (bm_get (tree_ents h t) k)"
  by (simp add: btree_at_def btree_get_def get_from_correct)

lemma btree_at_new: "btree_at 0 btree_new"
  by (simp add: btree_at_def btree_new_def default_node_def node_ok_def pairs_def lessThan_Suc)

lemma length_bm_insert: "bm_inv m \<Longrightarrow> length (bm_insert k v m) = (if k \<in> fst ` set m then length m else Suc (length m))"
  by (induction k v m rule: bm_insert.induct) (auto simp: bm_inv_Cons image_iff)

text \<open>A full root becomes the only child of a new root and is split.\<close>

lemma grow_root:
  assumes wf: "wf_node ns h r" and d: "distinct (ids ns h r)" and f: "full (ns ! r)"
  defines "m \<equiv> ns @ [default_node\<lparr>n_children := [r]\<rparr>]"
  shows "\<exists>ns'. split_child (length ns) 0 m = Some ns' \<and> wf_node ns' (Suc h) (length ns) \<and> distinct (ids ns' (Suc h) (length ns))
    \<and> ents ns' (Suc h) (length ns) = ents ns h r \<and> length (n_keys (ns' ! length ns)) = 1
    \<and> set (ids ns' (Suc h) (length ns)) = set (ids ns h r) \<union> {length ns ..< length ns'}"
proof -
  let ?p = "length ns"
  have r: "r < length ns" using wf by (rule wf_node_lt)
  have fr: "j < length m \<and> m ! j = ns ! j" if "j \<in> set (ids ns h r)" for j using ids_lt [OF wf that] by (simp add: m_def nth_append)
  note old = frame_subtree [OF wf fr]
  have p: "m ! ?p = default_node\<lparr>n_children := [r]\<rparr>" "m ! r = ns ! r" using r by (simp_all add: m_def nth_append)
  have wm: "wf_node m (Suc h) ?p" using old(1) f p by (simp add: m_def default_node_def node_ok_def filled_def full_def degrees)
  have im: "ids m (Suc h) ?p = ?p # ids ns h r" using old(3) p by (simp add: default_node_def)
  moreover have "?p \<notin> set (ids ns h r)" using ids_lt [OF wf] by auto
  ultimately have dm: "distinct (ids m (Suc h) ?p)" using d by simp
  have em: "ents m (Suc h) ?p = ents ns h r" using old(2) p by (simp add: default_node_def pairs_def)
  have "0 \<le> length (n_keys (m ! ?p))" "length (n_keys (m ! ?p)) < MAX_KEYS" "full (m ! (n_children (m ! ?p) ! 0))"
    using f p by (simp_all add: default_node_def degrees)
  note sp = split_child_ok [OF wm dm this]
  let ?ns' = "split_nodes ?p 0 (n_children (m ! ?p) ! 0) m"
  have up: "length m \<le> length ?ns'" "set (ids ?ns' (Suc h) ?p) = set (ids m (Suc h) ?p) \<union> {length m ..< length ?ns'}"
    "wf_node ?ns' (Suc h) ?p" "distinct (ids ?ns' (Suc h) ?p)"
    using sp(2) by (simp_all only: updates_def)
  have iv: "Suc a \<le> b \<Longrightarrow> insert a {Suc a ..< b} = {a ..< b}" for a b :: nat by auto
  have lm: "length m = Suc ?p" by (simp add: m_def)
  have "set (ids ?ns' (Suc h) ?p) = set (ids ns h r) \<union> {?p ..< length ?ns'}"
    unfolding up(2) im lm iv [OF up(1) [unfolded lm], symmetric] by simp
  moreover have "length (n_keys (?ns' ! ?p)) = 1" by (subst sp(4)) (simp add: p parent_of_halves_def default_node_def)
  moreover have "ents ?ns' (Suc h) ?p = ents ns h r" using sp(3) unfolding em .
  ultimately show ?thesis using sp(1) up(3,4) by blast
qed

lemma btree_insert_at:
  assumes t: "btree_at h t"
  shows "\<exists>t' h'. btree_insert k v t = Some t' \<and> btree_at h' t' \<and> tree_ents h' t' = bm_insert k v (tree_ents h t)"
proof -
  let ?ns = "bt_nodes t" and ?r = "bt_root t"
  have i: "wf_node ?ns h ?r" "distinct (ids ?ns h ?r)" "bm_inv (tree_ents h t)" "bt_len t = length (tree_ents h t)"
    "set (ids ?ns h ?r) = {..< length ?ns}"
    using t by (auto simp: btree_at_def)
  note rep = replace_correct [OF i(1,2,3), of k v]
  show ?thesis
  proof (cases "k \<in> fst ` set (tree_ents h t)")
    case True
    with rep obtain ns' where n: "replace ?ns ?r k v = Some (True, ns')" "updates ?ns ns' h ?r" "length ns' = length ?ns"
      "length (n_keys (ns' ! ?r)) = length (n_keys (?ns ! ?r))" "ents ns' h ?r = bm_insert k v (tree_ents h t)" by auto
    have u: "wf_node ns' h ?r" "distinct (ids ns' h ?r)" "set (ids ns' h ?r) = {..< length ns'}"
      using n(2,3) i(5) by (simp_all add: updates_def)
    have "n_keys (ns' ! ?r) = [] \<longleftrightarrow> n_keys (?ns ! ?r) = []" using n(4) by (metis length_0_conv)
    then have "btree_at h (t\<lparr>bt_nodes := ns'\<rparr>)"
      using u n(5) i(3,4) t True by (simp add: btree_at_def length_bm_insert)
    then show ?thesis using n by (auto simp: btree_insert_def)
  next
    case False
    then have r: "replace ?ns ?r k v = Some (False, ?ns)" using rep by simp
    have at: "at ?ns ?r = Some (?ns ! ?r)" using wf_node_lt [OF i(1)] by simp
    obtain ns1 r1 h1 where g: "(if length (n_keys (?ns ! ?r)) = MAX_KEYS
                 then (let ns = ?ns @ [default_node\<lparr>n_children := [?r]\<rparr>]; root = length ns - 1 in
                       Option.bind (split_child root 0 ns) (\<lambda>ns. Some (ns, root)))
                 else Some (?ns, ?r)) = Some (ns1, r1)"
      and n1: "wf_node ns1 h1 r1" "distinct (ids ns1 h1 r1)" "ents ns1 h1 r1 = tree_ents h t" "\<not> full (ns1 ! r1)"
        "h1 > 0 \<longrightarrow> n_keys (ns1 ! r1) \<noteq> []" "set (ids ns1 h1 r1) = {..< length ns1}"
    proof (cases "full (?ns ! ?r)")
      case True
      from grow_root [OF i(1,2) True] obtain ns' where
        n: "split_child (length ?ns) 0 (?ns @ [default_node\<lparr>n_children := [?r]\<rparr>]) = Some ns'"
          "wf_node ns' (Suc h) (length ?ns)" "distinct (ids ns' (Suc h) (length ?ns))" "ents ns' (Suc h) (length ?ns) = tree_ents h t"
          "length (n_keys (ns' ! length ?ns)) = 1" "set (ids ns' (Suc h) (length ?ns)) = set (ids ?ns h ?r) \<union> {length ?ns ..< length ns'}"
        by blast
      have iv: "a < b \<Longrightarrow> {..< a} \<union> {a ..< b} = {..< b}" for a b :: nat by auto
      have all: "set (ids ns' (Suc h) (length ?ns)) = {..< length ns'}" unfolding n(6) i(5) by (rule iv [OF wf_node_lt [OF n(2)]])
      show ?thesis
        by (rule that [OF _ n(2,3,4) _ _ all]) (use True n(1,5) in \<open>auto simp: full_def degrees\<close>)
    next
      case nf: False
      show ?thesis by (rule that [of ?ns ?r h]) (use nf t i in \<open>auto simp: full_def btree_at_def\<close>)
    qed
    from insert_non_full_correct [OF n1(1,2) _ n1(4), of k v] i(3) n1(3) False
    obtain ns2 where n2: "insert_non_full ns1 r1 k v = Some ns2" "updates ns1 ns2 h1 r1"
      "ents ns2 h1 r1 = bm_insert k v (tree_ents h t)" "length (n_keys (ns1 ! r1)) \<le> length (n_keys (ns2 ! r1))" by auto
    let ?t = "\<lparr>bt_nodes = ns2, bt_root = r1, bt_len = bt_len t + 1\<rparr>"
    have "{..< length ns1} \<union> {length ns1 ..< length ns2} = {..< length ns2}" using n2(2) by (auto simp: updates_def)
    then have "btree_at h1 ?t" using n2 n1(5,6) i False by (auto simp: btree_at_def updates_def length_bm_insert)
    moreover have "btree_insert k v t = Some ?t" using r at g n2(1) by (simp add: btree_insert_def)
    ultimately show ?thesis using n2(3) by fastforce
  qed
qed

lemma insert_all_at:
  assumes "btree_at h t" and "bm_inv (tree_ents h t @ es)"
  shows "\<exists>t' h'. insert_all es t = Some t' \<and> btree_at h' t' \<and> tree_ents h' t' = tree_ents h t @ es"
  using assms
proof (induction es arbitrary: t h)
  case (Cons e es)
  obtain k v where e: "e = (k, v)" by force
  from btree_insert_at [OF Cons.prems(1), of k v] obtain t1 h1 where t1: "btree_insert k v t = Some t1" "btree_at h1 t1"
    "tree_ents h1 t1 = bm_insert k v (tree_ents h t)" by blast
  have "\<forall>x \<in> set (tree_ents h t). fst x < k" using Cons.prems(2) by (simp add: e bm_inv_append)
  then have "tree_ents h1 t1 = tree_ents h t @ [e]" using t1(3) bm_insert_right [of "tree_ents h t" k v "[]"] by (simp add: e)
  with Cons.IH [OF t1(2)] Cons.prems(2) t1(1) show ?case by (simp add: e)
qed auto

lemma btree_delete_at:
  assumes t: "btree_at h t"
  shows "\<exists>t' h'. btree_delete k t = Some (k \<in> fst ` set (tree_ents h t), t') \<and> btree_at h' t' \<and> tree_ents h' t' = bm_remove k (tree_ents h t)"
proof (cases "bm_get (tree_ents h t) k")
  case None
  then have "k \<notin> fst ` set (tree_ents h t)" by (simp add: map_of_eq_None_iff)
  moreover from this have "bm_remove k (tree_ents h t) = tree_ents h t" unfolding bm_remove_def by (intro filter_True) (auto simp: image_iff)
  ultimately show ?thesis using t btree_at_get [OF t, of k] None by (auto simp: btree_delete_def)
next
  case (Some v)
  let ?es = "bm_remove k (tree_ents h t)"
  have "bm_inv (tree_ents 0 btree_new @ ?es)" using t by (simp add: btree_at_def btree_new_def default_node_def pairs_def)
  from insert_all_at [OF btree_at_new this] obtain t' h' where n: "insert_all ?es btree_new = Some t'" "btree_at h' t'" "tree_ents h' t' = ?es"
    by (auto simp: btree_new_def default_node_def pairs_def)
  have "k \<in> fst ` set (tree_ents h t)" using Some by (rule bm_get_Some_dom)
  then show ?thesis
    using n btree_at_get [OF t, of k] btree_at_entries [OF t] Some by (auto simp: btree_delete_def bm_remove_def)
qed

interpretation btree_index: ordered_index btree_inv btree_new btree_get btree_insert btree_delete btree_entries
proof unfold_locales
  show "btree_inv btree_new" using btree_at_new by (auto simp: btree_inv_def)
  show "btree_entries btree_new = Some []"
    using btree_at_entries [OF btree_at_new] by (simp add: btree_new_def default_node_def pairs_def)
  fix t es k v
  show "\<exists>es. btree_entries t = Some es \<and> bm_inv es" if "btree_inv t"
    using that btree_at_entries by (auto simp: btree_inv_def btree_at_def)
  assume "btree_inv t" "btree_entries t = Some es"
  then obtain h where h: "btree_at h t" "es = tree_ents h t" using btree_at_entries by (fastforce simp: btree_inv_def)
  show "btree_get t k = Some (bm_get es k)" using btree_at_get [OF h(1)] h(2) by simp
  show "\<exists>t'. btree_insert k v t = Some t' \<and> btree_inv t' \<and> btree_entries t' = Some (bm_insert k v es)"
    using btree_insert_at [OF h(1), of k v] btree_at_entries h(2) unfolding btree_inv_def by metis
  show "\<exists>t'. btree_delete k t = Some (k \<in> fst ` set es, t') \<and> btree_inv t' \<and> btree_entries t' = Some (bm_remove k es)"
    using btree_delete_at [OF h(1), of k] btree_at_entries h(2) unfolding btree_inv_def by metis
qed

section \<open>Balance\<close>

lemma length_inter: "length ts = length es + 1 \<Longrightarrow> length (inter ts es) = sum_list (map length ts) + length es"
  by (induction ts es rule: inter.induct) auto

lemma sum_list_ge:
  fixes f :: "'a \<Rightarrow> nat"
  shows "(\<And>x. x \<in> set xs \<Longrightarrow> b \<le> f x) \<Longrightarrow> length xs * b \<le> sum_list (map f xs)"
  by (induction xs) (auto simp: add_mono)

lemma sum_list_Suc: "sum_list (map (\<lambda>x. f x + 1) xs) = sum_list (map f xs) + length xs"
  for f :: "'a \<Rightarrow> nat"
  by (induction xs) simp_all

lemma subtree_entries:
  assumes "wf_node ns (Suc h) i"
    and "\<And>c. c \<in> set (n_children (ns ! i)) \<Longrightarrow> b \<le> length (ents ns h c) + 1"
  shows "(length (n_keys (ns ! i)) + 1) * b \<le> length (ents ns (Suc h) i) + 1"
proof -
  let ?n = "ns ! i"
  have l: "length (map (ents ns h) (n_children ?n)) = length (pairs ?n) + 1" "length (pairs ?n) = length (n_keys ?n)"
    using assms(1) by (simp_all add: length_pairs)
  have "length (n_children ?n) * b \<le> sum_list (map (\<lambda>c. length (ents ns h c) + 1) (n_children ?n))"
    by (rule sum_list_ge) (rule assms(2))
  also have "\<dots> = sum_list (map (\<lambda>c. length (ents ns h c)) (n_children ?n)) + length (n_children ?n)"
    by (rule sum_list_Suc)
  finally show ?thesis using length_inter [OF l(1)] l(2) assms(1) by (simp add: o_def)
qed

lemma filled_entries: "wf_node ns h i \<Longrightarrow> filled (ns ! i) \<Longrightarrow> MIN_DEGREE ^ Suc h \<le> length (ents ns h i) + 1"
proof (induction h arbitrary: i)
  case 0
  then show ?case by (simp add: length_pairs filled_def degrees)
next
  case (Suc h)
  have "(length (n_keys (ns ! i)) + 1) * MIN_DEGREE ^ Suc h \<le> length (ents ns (Suc h) i) + 1"
    by (rule subtree_entries [OF Suc.prems(1)]) (use Suc in auto)
  moreover have "MIN_DEGREE * MIN_DEGREE ^ Suc h \<le> (length (n_keys (ns ! i)) + 1) * MIN_DEGREE ^ Suc h"
    using Suc.prems(2) by (intro mult_le_mono1) (simp add: filled_def degrees)
  ultimately show ?case by (metis le_trans power_Suc)
qed

lemma btree_at_height: "btree_at h t \<Longrightarrow> h = 0 \<or> 2 * MIN_DEGREE ^ h \<le> bt_len t + 1"
proof (cases h)
  case (Suc g)
  assume t: "btree_at h t"
  let ?r = "bt_nodes t ! bt_root t"
  have "(length (n_keys ?r) + 1) * MIN_DEGREE ^ Suc g \<le> length (tree_ents (Suc g) t) + 1"
    by (rule subtree_entries) (use t filled_entries [of "bt_nodes t" g] in \<open>auto simp: btree_at_def Suc\<close>)
  moreover have "2 * MIN_DEGREE ^ Suc g \<le> (length (n_keys ?r) + 1) * MIN_DEGREE ^ Suc g"
    using t by (intro mult_le_mono1) (cases "n_keys ?r", auto simp: btree_at_def Suc)
  moreover have "bt_len t = length (tree_ents (Suc g) t)" using t by (simp add: btree_at_def Suc)
  ultimately show ?thesis unfolding Suc by (metis le_trans)
qed simp

section \<open>Properties\<close>

text \<open>A sequence of mutations, on the index and on an ordered map.\<close>

datatype index_op = Put rstring rstring | Del rstring

fun run_ops :: "index_op list \<Rightarrow> btree \<Rightarrow> btree option" where
  "run_ops [] t = Some t"
| "run_ops (Put k v # ops) t = Option.bind (btree_insert k v t) (run_ops ops)"
| "run_ops (Del k # ops) t = Option.bind (btree_delete k t) (\<lambda>(_, t). run_ops ops t)"

fun map_ops :: "index_op list \<Rightarrow> (rstring, rstring) bmap \<Rightarrow> (rstring, rstring) bmap" where
  "map_ops [] m = m"
| "map_ops (Put k v # ops) m = map_ops ops (bm_insert k v m)"
| "map_ops (Del k # ops) m = map_ops ops (bm_remove k m)"

lemma run_ops_at:
  "btree_at h t \<Longrightarrow> \<exists>t' h'. run_ops ops t = Some t' \<and> btree_at h' t' \<and> tree_ents h' t' = map_ops ops (tree_ents h t)"
proof (induction ops arbitrary: t h)
  case (Cons a ops)
  show ?case
  proof (cases a)
    case (Put k v)
    obtain t1 h1 where 1: "btree_insert k v t = Some t1" "btree_at h1 t1" "tree_ents h1 t1 = bm_insert k v (tree_ents h t)"
      using btree_insert_at [OF Cons.prems, of k v] by blast
    from Cons.IH [OF 1(2)] show ?thesis by (simp add: Put 1)
  next
    case (Del k)
    obtain b t1 h1 where 1: "btree_delete k t = Some (b, t1)" "btree_at h1 t1" "tree_ents h1 t1 = bm_remove k (tree_ents h t)"
      using btree_delete_at [OF Cons.prems, of k] by blast
    from Cons.IH [OF 1(2)] show ?thesis by (simp add: Del 1)
  qed
qed auto

lemma run_ops_new:
  obtains t h where "run_ops ops btree_new = Some t" and "btree_at h t" and "tree_ents h t = map_ops ops []"
  using run_ops_at [OF btree_at_new, of ops] by (auto simp: btree_new_def default_node_def pairs_def)

text \<open>
  C16. The B-tree is an ordered map: every sequence of insertions and deletions returns (no panic, no infinite
  recursion), and then lookup, traversal, the list of keys, the range query and the length are those of the ordered
  map that went through the same mutations.
\<close>

theorem btree_refines_ordered_map:
  "\<exists>t. run_ops ops btree_new = Some t \<and> btree_entries t = Some (map_ops ops []) \<and> btree_get t k = Some (bm_get (map_ops ops []) k)
    \<and> btree_keys t = Some (map fst (map_ops ops []))
    \<and> btree_range t start stop = Some (filter (\<lambda>(key, _). start \<le> key \<and> key < stop) (map_ops ops []))
    \<and> bt_len t = length (map_ops ops []) \<and> (btree_is_empty t \<longleftrightarrow> map_ops ops [] = [])"
proof -
  obtain t h where t: "run_ops ops btree_new = Some t" "btree_at h t" "tree_ents h t = map_ops ops []" by (rule run_ops_new)
  have "bt_len t = length (map_ops ops [])" using t by (simp add: btree_at_def)
  then show ?thesis
    using t btree_at_entries [OF t(2)] btree_at_get [OF t(2)] btree_at_keys [OF t(2)]
    by (auto simp: btree_range_def btree_is_empty_def)
qed

text \<open>
  C17. The B-tree stays balanced: after any insertions and deletions all leaves are at one depth \<open>h\<close>, the nodes are
  within their limits, and with \<open>n\<close> entries \<open>2 * 8 ^ h \<le> n + 1\<close> unless the root is a leaf, so a lookup visits at
  most \<open>1 + log\<^sub>8 ((n + 1) / 2)\<close> nodes.
\<close>

theorem btree_stays_balanced:
  "\<exists>t h. run_ops ops btree_new = Some t \<and> wf_node (bt_nodes t) h (bt_root t) \<and> distinct (ids (bt_nodes t) h (bt_root t))
    \<and> (h = 0 \<or> 2 * MIN_DEGREE ^ h \<le> bt_len t + 1)"
proof -
  obtain t h where t: "run_ops ops btree_new = Some t" "btree_at h t" by (rule run_ops_new)
  then show ?thesis using btree_at_height [OF t(2)] by (auto simp: btree_at_def)
qed

end
