(* ===== verification/Page.thy ===== *)
theory Page
  imports Failure Crc
begin

text \<open>
  \<open>src/src/page.rs\<close>: slotted pages of 4096 bytes. A page is its byte array; every read and write
  of it goes through the bounds checks of \<open>Failure\<close>. \<open>page_image\<close> is the layout as a function of the
  page's kind, its checksum field and its cells, and the operations are shown to be what they mean
  on it.
\<close>

section \<open>Layout\<close>

definition PAGE_SIZE :: nat where
  "PAGE_SIZE = 4096"

definition HEADER_SIZE :: nat where
  "HEADER_SIZE = 16"

definition MAGIC :: bytes where
  "MAGIC = ascii ''NPG1''"

definition VERSION :: u8 where
  "VERSION = 1"

datatype page_kind = Meta | Internal | Leaf

fun kind_as_u8 :: "page_kind \<Rightarrow> u8" where
  "kind_as_u8 Meta = 1"
| "kind_as_u8 Internal = 2"
| "kind_as_u8 Leaf = 3"

definition kind_decode :: "u8 \<Rightarrow> page_kind io_result" where
  "kind_decode v =
    (if v = 1 then Inr Meta else if v = 2 then Inr Internal else if v = 3 then Inr Leaf
     else Inl (invalid_data ''page: unknown page kind''))"

record slotted_page =
  page_bytes :: bytes

section \<open>Operations\<close>

definition get_u16 :: "bytes \<Rightarrow> nat \<Rightarrow> u16 may_fail" where
  "get_u16 bs offset = rbind (slice offset (offset + 2) bs) (\<lambda>s. Inr (of_le_bytes s))"

definition put_u16 :: "nat \<Rightarrow> u16 \<Rightarrow> bytes \<Rightarrow> bytes may_fail" where
  "put_u16 offset v bs = copy_from_slice offset (offset + 2) (le_bytes 2 v) bs"

definition page_new :: "page_kind \<Rightarrow> slotted_page may_fail" where
  "page_new k =
    rbind (copy_from_slice 0 4 MAGIC (replicate PAGE_SIZE 0)) (\<lambda>bs.
    rbind (set_at 4 VERSION bs) (\<lambda>bs.
    rbind (set_at 5 (kind_as_u8 k) bs) (\<lambda>bs.
    rbind (put_u16 6 0 bs) (\<lambda>bs.
    rbind (put_u16 8 (of_nat HEADER_SIZE) bs) (\<lambda>bs.
    rbind (put_u16 10 (of_nat PAGE_SIZE) bs) (\<lambda>bs.
    Inr \<lparr>page_bytes = bs\<rparr>))))))"

text \<open>The loop of \<open>cells\<close>, from \<open>index\<close> on; \<open>todo\<close> is the number of iterations left.\<close>

fun cells_loop :: "bytes \<Rightarrow> nat \<Rightarrow> nat \<Rightarrow> bytes list \<Rightarrow> bytes list may_fail" where
  "cells_loop bs index 0 acc = Inr acc"
| "cells_loop bs index (Suc todo) acc =
    rbind (get_u16 bs (HEADER_SIZE + index * 2)) (\<lambda>slot.
    let offset = unat slot in
    if offset < HEADER_SIZE \<or> offset + 2 > PAGE_SIZE
    then fail_with (invalid_data ''page: slot points outside page'')
    else rbind (get_u16 bs offset) (\<lambda>len.
      let start = offset + 2; stop = start + unat len in
      if stop > PAGE_SIZE then fail_with (invalid_data ''page: cell extends outside page'')
      else rbind (slice start stop bs) (\<lambda>cell. cells_loop bs (index + 1) todo (acc @ [cell]))))"

definition page_cells :: "slotted_page \<Rightarrow> bytes list may_fail" where
  "page_cells p = rbind (get_u16 (page_bytes p) 6) (\<lambda>count. cells_loop (page_bytes p) 0 (unat count) [])"

definition page_from_bytes :: "bytes \<Rightarrow> slotted_page may_fail" where
  "page_from_bytes bs =
    rbind (slice 0 4 bs) (\<lambda>m.
    if m \<noteq> MAGIC then fail_with (invalid_data ''page: bad magic'')
    else rbind (elem_at bs 4) (\<lambda>v.
    if v \<noteq> VERSION then fail_with (invalid_data ''page: unsupported version'')
    else rbind (elem_at bs 5) (\<lambda>k.
    rbind (of_io (kind_decode k)) (\<lambda>_.
    rbind (get_u16 bs 6) (\<lambda>count.
    rbind (get_u16 bs 8) (\<lambda>front.
    rbind (get_u16 bs 10) (\<lambda>back.
    if unat front \<noteq> HEADER_SIZE + unat count * 2 \<or> unat front > unat back \<or> unat back > PAGE_SIZE
    then fail_with (invalid_data ''page: invalid free-space bounds'')
    else rbind (slice 12 16 bs) (\<lambda>stored.
    rbind (copy_from_slice 12 16 (replicate 4 0) bs) (\<lambda>checked.
    if crc32 checked \<noteq> of_le_bytes stored then fail_with (invalid_data ''page: checksum mismatch'')
    else rbind (page_cells \<lparr>page_bytes = bs\<rparr>) (\<lambda>_. Inr \<lparr>page_bytes = bs\<rparr>))))))))))"

definition kind_of_page :: "slotted_page \<Rightarrow> page_kind may_fail" where
  "kind_of_page p = rbind (elem_at (page_bytes p) 5) (\<lambda>k.
    case kind_decode k of Inl e \<Rightarrow> Inl Panicked | Inr kind \<Rightarrow> Inr kind)"

text \<open>The errors of \<open>insert\<close> precede its first write, so the page is returned only on success.\<close>

definition page_insert :: "bytes \<Rightarrow> slotted_page \<Rightarrow> slotted_page may_fail" where
  "page_insert cell p =
    (if length cell \<ge> 2 ^ 16 then fail_with (invalid_input ''page: cell too large'')
     else let len = of_nat (length cell); bs = page_bytes p in
     rbind (get_u16 bs 6) (\<lambda>count.
     rbind (get_u16 bs 8) (\<lambda>front.
     rbind (get_u16 bs 10) (\<lambda>back.
     let needed = 2 + 2 + length cell in
     if unat back - unat front < needed then fail_with (IoError WriteZero ''page: no free space'')
     else let cell_at = unat back - 2 - length cell in
     rbind (put_u16 cell_at len bs) (\<lambda>bs.
     rbind (copy_from_slice (cell_at + 2) (unat back) cell bs) (\<lambda>bs.
     rbind (put_u16 (unat front) (of_nat cell_at) bs) (\<lambda>bs.
     rbind (put_u16 6 (of_nat (unat count + 1)) bs) (\<lambda>bs.
     rbind (put_u16 8 (of_nat (unat front + 2)) bs) (\<lambda>bs.
     rbind (put_u16 10 (of_nat cell_at) bs) (\<lambda>bs.
     Inr \<lparr>page_bytes = bs\<rparr>))))))))))"

definition page_finish :: "slotted_page \<Rightarrow> bytes may_fail" where
  "page_finish p =
    rbind (copy_from_slice 12 16 (replicate 4 0) (page_bytes p)) (\<lambda>bs.
    copy_from_slice 12 16 (le_bytes 4 (crc32 bs)) bs)"

section \<open>The layout as a function of the cells\<close>

definition cell_image :: "bytes \<Rightarrow> bytes" where
  "cell_image c = le_bytes 2 (of_nat (length c) :: u16) @ c"

definition cells_size :: "bytes list \<Rightarrow> nat" where
  "cells_size cs = sum_list (map (\<lambda>c. 2 + length c) cs)"

fun slots_image :: "nat \<Rightarrow> bytes list \<Rightarrow> bytes" where
  "slots_image back [] = []"
| "slots_image back (c # cs) =
    le_bytes 2 (of_nat (back - 2 - length c) :: u16) @ slots_image (back - 2 - length c) cs"

text \<open>A page has room for these cells.\<close>

definition page_fits :: "bytes list \<Rightarrow> bool" where
  "page_fits cs \<longleftrightarrow> HEADER_SIZE + 2 * length cs + cells_size cs \<le> PAGE_SIZE"

definition page_image :: "page_kind \<Rightarrow> bytes \<Rightarrow> bytes list \<Rightarrow> bytes" where
  "page_image k crc cs =
    MAGIC @ [VERSION, kind_as_u8 k] @ le_bytes 2 (of_nat (length cs) :: u16)
    @ le_bytes 2 (of_nat (HEADER_SIZE + 2 * length cs) :: u16) @ le_bytes 2 (of_nat (PAGE_SIZE - cells_size cs) :: u16)
    @ crc @ slots_image PAGE_SIZE cs @ replicate (PAGE_SIZE - HEADER_SIZE - 2 * length cs - cells_size cs) 0
    @ concat (map cell_image (rev cs))"

lemma MAGIC_length [simp]: "length MAGIC = 4"
  by (simp add: MAGIC_def ascii_def)

lemma cells_size_simps [simp]:
  "cells_size [] = 0" "cells_size (c # cs) = 2 + length c + cells_size cs"
  "cells_size (cs @ ds) = cells_size cs + cells_size ds" "cells_size (rev cs) = cells_size cs"
  by (simp_all add: cells_size_def rev_map [symmetric] sum_list_rev)

lemma length_cell_image [simp]: "length (cell_image c) = 2 + length c"
  by (simp add: cell_image_def)

lemma length_slots_image [simp]: "length (slots_image b cs) = 2 * length cs"
  by (induction b cs rule: slots_image.induct) simp_all

lemma slots_image_snoc:
  "slots_image b (cs @ [c]) = slots_image b cs @ le_bytes 2 (of_nat (b - cells_size cs - 2 - length c) :: u16)"
  by (induction b cs rule: slots_image.induct) (simp_all add: algebra_simps)

lemma slots_image_append:
  "slots_image b (cs @ ds) = slots_image b cs @ slots_image (b - cells_size cs) ds"
  by (induction b cs rule: slots_image.induct) (simp_all add: algebra_simps)

lemma length_cell_images [simp]: "length (concat (map cell_image cs)) = cells_size cs"
  by (induction cs) simp_all

lemma length_page_image [simp]: "length crc = 4 \<Longrightarrow> page_fits cs \<Longrightarrow> length (page_image k crc cs) = PAGE_SIZE"
  by (simp add: page_image_def page_fits_def HEADER_SIZE_def PAGE_SIZE_def)

lemma unat_of_nat_u16 [simp]: "n < 2 ^ 16 \<Longrightarrow> unat (of_nat n :: u16) = n"
  by (simp add: unat_of_nat)

lemma get_u16_append: "length xs = offset \<Longrightarrow> get_u16 (xs @ le_bytes 2 w @ zs) offset = Inr w"
  by (simp add: get_u16_def slice_append)

lemma put_u16_append:
  "length xs = offset \<Longrightarrow> length ys = 2 \<Longrightarrow> put_u16 offset w (xs @ ys @ zs) = Inr (xs @ le_bytes 2 w @ zs)"
  by (simp add: put_u16_def copy_append)

text \<open>The pieces of an image, in order.\<close>

definition image_head :: "page_kind \<Rightarrow> bytes" where
  "image_head k = MAGIC @ [VERSION, kind_as_u8 k]"

definition image_free :: "bytes list \<Rightarrow> bytes" where
  "image_free cs = replicate (PAGE_SIZE - HEADER_SIZE - 2 * length cs - cells_size cs) 0"

lemma length_image_head [simp]: "length (image_head k) = 6"
  by (simp add: image_head_def)

lemma page_image_alt:
  "page_image k crc cs = image_head k @ le_bytes 2 (of_nat (length cs) :: u16)
    @ le_bytes 2 (of_nat (HEADER_SIZE + 2 * length cs) :: u16) @ le_bytes 2 (of_nat (PAGE_SIZE - cells_size cs) :: u16)
    @ crc @ slots_image PAGE_SIZE cs @ image_free cs @ concat (map cell_image (rev cs))"
  by (simp add: page_image_def image_head_def image_free_def)

lemma image_header:
  "get_u16 (page_image k crc cs) 6 = Inr (of_nat (length cs))"
  "get_u16 (page_image k crc cs) 8 = Inr (of_nat (HEADER_SIZE + 2 * length cs))"
  "get_u16 (page_image k crc cs) 10 = Inr (of_nat (PAGE_SIZE - cells_size cs))"
  using get_u16_append [of "image_head k" 6]
    get_u16_append [of "image_head k @ le_bytes 2 (of_nat (length cs) :: u16)" 8]
    get_u16_append [of "image_head k @ le_bytes 2 (of_nat (length cs) :: u16) @ le_bytes 2 (of_nat (HEADER_SIZE + 2 * length cs) :: u16)" 10]
  by (simp_all add: page_image_alt)

lemma image_kind: "slice 0 4 (page_image k crc cs) = Inr MAGIC" "elem_at (page_image k crc cs) 4 = Inr VERSION"
  "elem_at (page_image k crc cs) 5 = Inr (kind_as_u8 k)"
  by (simp_all add: page_image_def slice_def elem_at_def nth_append)

lemma kind_decode_as_u8 [simp]: "kind_decode (kind_as_u8 k) = Inr k"
  by (cases k) (simp_all add: kind_decode_def)

lemma image_crc:
  assumes "length crc = 4"
  shows "slice 12 16 (page_image k crc cs) = Inr crc"
    and "length d = 4 \<Longrightarrow> copy_from_slice 12 16 d (page_image k crc cs) = Inr (page_image k d cs)"
proof -
  let ?h = "image_head k @ le_bytes 2 (of_nat (length cs) :: u16)
    @ le_bytes 2 (of_nat (HEADER_SIZE + 2 * length cs) :: u16) @ le_bytes 2 (of_nat (PAGE_SIZE - cells_size cs) :: u16)"
  show "slice 12 16 (page_image k crc cs) = Inr crc"
    using slice_append [of ?h 12 crc 16] assms by (simp add: page_image_alt)
  show "length d = 4 \<Longrightarrow> copy_from_slice 12 16 d (page_image k crc cs) = Inr (page_image k d cs)"
    using copy_append [of ?h 12 crc d 16] assms by (simp add: page_image_alt)
qed

section \<open>The operations on the layout\<close>

lemma replicate_split: "m \<le> n \<Longrightarrow> replicate n x = replicate m x @ replicate (n - m) x"
  by (simp flip: replicate_add)

lemma page_new_image: "page_new k = Inr \<lparr>page_bytes = page_image k (replicate 4 0) []\<rparr>"
proof -
  let ?r = "replicate 4 0 @ replicate 4080 (0 :: u8)"
  have "replicate PAGE_SIZE (0 :: u8) = replicate 12 0 @ ?r"
    by (simp add: PAGE_SIZE_def flip: replicate_add)
  then have z: "replicate PAGE_SIZE (0 :: u8) = replicate 4 0 @ [0, 0] @ [0, 0] @ [0, 0] @ [0, 0] @ ?r"
    by (simp add: numeral_eq_Suc)
  have m: "copy_from_slice 0 4 MAGIC (replicate PAGE_SIZE 0) = Inr (MAGIC @ [0, 0] @ [0, 0] @ [0, 0] @ [0, 0] @ ?r)"
    unfolding z using copy_append [of "[]" 0 "replicate 4 0" MAGIC 4] by simp
  have v: "set_at 4 VERSION (MAGIC @ [0, 0] @ xs) = Inr (MAGIC @ [VERSION, 0] @ xs)" for xs
    by (simp add: set_at_def list_update_append)
  have t: "set_at 5 (kind_as_u8 k) (MAGIC @ [VERSION, 0] @ xs) = Inr (image_head k @ xs)" for xs
    by (simp add: set_at_def list_update_append image_head_def)
  have c: "put_u16 6 0 (image_head k @ [0, 0] @ xs) = Inr (image_head k @ le_bytes 2 (0 :: u16) @ xs)" for xs
    by (rule put_u16_append) simp_all
  have f: "put_u16 8 (of_nat HEADER_SIZE) (image_head k @ le_bytes 2 (0 :: u16) @ [0, 0] @ xs)
    = Inr (image_head k @ le_bytes 2 (0 :: u16) @ le_bytes 2 (of_nat HEADER_SIZE :: u16) @ xs)" for xs
    using put_u16_append [of "image_head k @ le_bytes 2 (0 :: u16)" 8 "[0, 0]"] by simp
  have b: "put_u16 10 (of_nat PAGE_SIZE) (image_head k @ le_bytes 2 (0 :: u16) @ le_bytes 2 (of_nat HEADER_SIZE :: u16) @ [0, 0] @ xs)
    = Inr (image_head k @ le_bytes 2 (0 :: u16) @ le_bytes 2 (of_nat HEADER_SIZE :: u16) @ le_bytes 2 (of_nat PAGE_SIZE :: u16) @ xs)" for xs
    using put_u16_append [of "image_head k @ le_bytes 2 (0 :: u16) @ le_bytes 2 (of_nat HEADER_SIZE :: u16)" 10 "[0, 0]"] by simp
  have e: "page_image k (replicate 4 0) [] = image_head k @ le_bytes 2 (0 :: u16) @ le_bytes 2 (of_nat HEADER_SIZE :: u16)
      @ le_bytes 2 (of_nat PAGE_SIZE :: u16) @ ?r"
    by (simp add: page_image_alt image_free_def PAGE_SIZE_def HEADER_SIZE_def)
  show ?thesis unfolding page_new_def m rbind.simps v t c f b e ..
qed

lemma page_fits_unat:
  assumes "page_fits cs"
  shows "unat (of_nat (length cs) :: u16) = length cs"
    and "unat (of_nat (HEADER_SIZE + 2 * length cs) :: u16) = HEADER_SIZE + 2 * length cs"
    and "unat (of_nat (PAGE_SIZE - cells_size cs) :: u16) = PAGE_SIZE - cells_size cs"
  using assms by (auto simp: page_fits_def HEADER_SIZE_def PAGE_SIZE_def intro!: unat_of_nat_u16 simp del: of_nat_add of_nat_diff)

lemma page_insert_image:
  assumes "page_fits cs" and "length crc = 4"
  shows "page_insert c \<lparr>page_bytes = page_image k crc cs\<rparr> =
    (if length c \<ge> 2 ^ 16 then fail_with (invalid_input ''page: cell too large'')
     else if page_fits (cs @ [c]) then Inr \<lparr>page_bytes = page_image k crc (cs @ [c])\<rparr>
     else fail_with (IoError WriteZero ''page: no free space''))"
proof (cases "page_fits (cs @ [c])")
  case False
  then have "PAGE_SIZE - cells_size cs - (HEADER_SIZE + 2 * length cs) < 2 + 2 + length c"
    using assms(1) by (simp add: page_fits_def HEADER_SIZE_def PAGE_SIZE_def)
  with False show ?thesis
    unfolding page_insert_def Let_def select_convs image_header rbind.simps page_fits_unat [OF assms(1)] by simp
next
  case True
  define n s l where "n = length cs" and "s = cells_size cs" and "l = length c"
  define at where "at = PAGE_SIZE - s - 2 - l"
  let ?w = "\<lambda>m. of_nat m :: u16"
  let ?gap = "replicate (PAGE_SIZE - HEADER_SIZE - 2 * n - s - 4 - l) (0 :: u8)" and ?cells = "concat (map cell_image (rev cs))"
  from True have room: "20 + 2 * n + s + l \<le> 4096" by (simp add: page_fits_def HEADER_SIZE_def PAGE_SIZE_def n_def s_def l_def)
  note sizes = n_def [symmetric] s_def [symmetric] l_def [symmetric] HEADER_SIZE_def PAGE_SIZE_def at_def
  have hdr: "get_u16 (page_image k crc cs) 6 = Inr (?w n)" "get_u16 (page_image k crc cs) 8 = Inr (?w (HEADER_SIZE + 2 * n))"
    "get_u16 (page_image k crc cs) 10 = Inr (?w (PAGE_SIZE - s))" by (simp_all add: image_header n_def s_def)
  note un = page_fits_unat [OF assms(1), folded n_def s_def]
  have free: "image_free cs = replicate 2 0 @ ?gap @ replicate 2 0 @ replicate l 0"
  proof -
    have "PAGE_SIZE - HEADER_SIZE - 2 * n - s = 2 + ((PAGE_SIZE - HEADER_SIZE - 2 * n - s - 4 - l) + (2 + l))"
      using room by (simp add: sizes)
    then show ?thesis
      unfolding image_free_def n_def [symmetric] s_def [symmetric] replicate_add [symmetric]
      by (rule arg_cong)
  qed
  let ?x = "image_head k @ le_bytes 2 (?w n) @ le_bytes 2 (?w (HEADER_SIZE + 2 * n)) @ le_bytes 2 (?w (PAGE_SIZE - s)) @ crc @ slots_image PAGE_SIZE cs"
  have img: "page_image k crc cs = (?x @ replicate 2 0 @ ?gap) @ replicate 2 0 @ replicate l 0 @ ?cells"
    by (simp add: page_image_alt free n_def s_def)
  have len: "length (?x @ replicate 2 0 @ ?gap) = at" using assms room by (simp add: sizes)
  have 1: "put_u16 at (?w l) (page_image k crc cs) = Inr ((?x @ replicate 2 0 @ ?gap) @ le_bytes 2 (?w l) @ replicate l 0 @ ?cells)"
    unfolding img by (rule put_u16_append [OF len]) simp
  have 2: "copy_from_slice (at + 2) (PAGE_SIZE - s) c ((?x @ replicate 2 0 @ ?gap) @ le_bytes 2 (?w l) @ replicate l 0 @ ?cells)
    = Inr (?x @ replicate 2 0 @ ?gap @ cell_image c @ ?cells)"
    using copy_append [of "(?x @ replicate 2 0 @ ?gap) @ le_bytes 2 (?w l)" "at + 2" "replicate l 0" c "PAGE_SIZE - s" ?cells]
      len room assms by (simp add: cell_image_def sizes)
  have 3: "put_u16 (HEADER_SIZE + 2 * n) (?w at) (?x @ replicate 2 0 @ xs) = Inr (?x @ le_bytes 2 (?w at) @ xs)" for xs
    by (rule put_u16_append) (use assms in \<open>simp_all add: sizes\<close>)
  have 4: "put_u16 6 (?w (n + 1)) (?x @ xs) = Inr (image_head k @ le_bytes 2 (?w (n + 1)) @ le_bytes 2 (?w (HEADER_SIZE + 2 * n))
      @ le_bytes 2 (?w (PAGE_SIZE - s)) @ crc @ slots_image PAGE_SIZE cs @ xs)" for xs
    using put_u16_append [of "image_head k" 6 "le_bytes 2 (?w n)" "?w (n + 1)"] by simp
  have 5: "put_u16 8 w (image_head k @ le_bytes 2 (a :: u16) @ le_bytes 2 (b :: u16) @ xs) = Inr (image_head k @ le_bytes 2 a @ le_bytes 2 w @ xs)" for w a b xs
    using put_u16_append [of "image_head k @ le_bytes 2 a" 8 "le_bytes 2 b" w xs] by simp
  have 6: "put_u16 10 w (image_head k @ le_bytes 2 (a :: u16) @ le_bytes 2 (b :: u16) @ le_bytes 2 (d :: u16) @ xs)
    = Inr (image_head k @ le_bytes 2 a @ le_bytes 2 b @ le_bytes 2 w @ xs)" for w a b d xs
    using put_u16_append [of "image_head k @ le_bytes 2 a @ le_bytes 2 b" 10 "le_bytes 2 d" w xs] by simp
  have free': "image_free (cs @ [c]) = ?gap" by (simp add: image_free_def sizes)
  have img': "page_image k crc (cs @ [c]) = image_head k @ le_bytes 2 (?w (n + 1)) @ le_bytes 2 (?w (HEADER_SIZE + 2 * n + 2)) @ le_bytes 2 (?w at)
    @ crc @ slots_image PAGE_SIZE cs @ le_bytes 2 (?w at) @ ?gap @ cell_image c @ ?cells"
    unfolding page_image_alt free' by (simp add: slots_image_snoc sizes)
  have "unat (?w (PAGE_SIZE - s)) - 2 - length c = at" "\<not> unat (?w (PAGE_SIZE - s)) - unat (?w (HEADER_SIZE + 2 * n)) < 2 + 2 + length c"
    "\<not> 2 ^ 16 \<le> length c" unfolding un using room by (simp_all add: sizes)
  then show ?thesis
    using True unfolding page_insert_def Let_def select_convs hdr rbind.simps if_False l_def [symmetric]
    by (simp only: un 1 [unfolded append_assoc] 2 [unfolded append_assoc] 3 [unfolded append_assoc]
      4 [unfolded append_assoc] 5 6 img' rbind.simps if_False if_True)
qed

text \<open>The cells are read back in the order of insertion.\<close>

lemma cells_loop_image:
  assumes "ds @ cs = all" and "page_fits all" and "length crc = 4"
  shows "cells_loop (page_image k crc all) (length ds) (length cs) acc = Inr (acc @ cs)"
  using assms
proof (induction cs arbitrary: ds acc)
  case (Cons c cs)
  let ?b = "page_image k crc all" and ?at = "PAGE_SIZE - cells_size ds - 2 - length c"
  let ?h = "image_head k @ le_bytes 2 (of_nat (length all) :: u16)
    @ le_bytes 2 (of_nat (HEADER_SIZE + 2 * length all) :: u16) @ le_bytes 2 (of_nat (PAGE_SIZE - cells_size all) :: u16) @ crc"
  have all: "all = ds @ c # cs" using Cons.prems(1) by simp
  have room: "18 + 2 * length ds + 2 * length cs + cells_size ds + 2 + length c + cells_size cs \<le> 4096"
    using Cons.prems(2) by (simp add: page_fits_def all HEADER_SIZE_def PAGE_SIZE_def)
  have slots: "slots_image PAGE_SIZE all = slots_image PAGE_SIZE ds @ le_bytes 2 (of_nat ?at :: u16) @ slots_image ?at cs"
    unfolding all by (simp add: slots_image_append diff_diff_add add.assoc)
  have s: "get_u16 ?b (HEADER_SIZE + length ds * 2) = Inr (of_nat ?at)"
    unfolding page_image_alt slots
    using get_u16_append [of "?h @ slots_image PAGE_SIZE ds" "HEADER_SIZE + length ds * 2" "of_nat ?at :: u16"
      "slots_image ?at cs @ image_free all @ concat (map cell_image (rev all))"] Cons.prems(3) by (simp add: HEADER_SIZE_def)
  let ?pre = "?h @ slots_image PAGE_SIZE all @ image_free all @ concat (map cell_image (rev cs))"
  have img: "?b = ?pre @ le_bytes 2 (of_nat (length c) :: u16) @ c @ concat (map cell_image (rev ds))"
    by (simp add: page_image_alt all cell_image_def)
  have len: "length ?pre = ?at"
    using Cons.prems(3) room by (simp add: image_free_def all HEADER_SIZE_def PAGE_SIZE_def)
  have l: "get_u16 ?b ?at = Inr (of_nat (length c))" unfolding img by (rule get_u16_append [OF len])
  have u: "unat (of_nat ?at :: u16) = ?at" "unat (of_nat (length c) :: u16) = length c"
    using room by (auto simp: PAGE_SIZE_def intro!: unat_of_nat_u16 simp del: of_nat_diff)
  have at: "?at + 2 + length c \<le> PAGE_SIZE" "HEADER_SIZE \<le> ?at" using room by (simp_all add: PAGE_SIZE_def HEADER_SIZE_def)
  have c: "slice (?at + 2) (?at + 2 + length c) ?b = Inr c"
    unfolding img using slice_append [of "?pre @ le_bytes 2 (of_nat (length c) :: u16)" "?at + 2" c "?at + 2 + length c"] len by simp
  have "cells_loop ?b (length ds + 1) (length cs) (acc @ [c]) = Inr ((acc @ [c]) @ cs)"
    using Cons.IH [of "ds @ [c]" "acc @ [c]"] Cons.prems by simp
  with at show ?case
    by (simp only: list.size(4) add_0_right add_Suc_right cells_loop.simps s rbind.simps Let_def u l c) simp
qed simp

lemma page_cells_image:
  "page_fits cs \<Longrightarrow> length crc = 4 \<Longrightarrow> page_cells \<lparr>page_bytes = page_image k crc cs\<rparr> = Inr cs"
  using cells_loop_image [of "[]" cs cs crc k "[]"] page_fits_unat(1) [of cs]
  by (simp add: page_cells_def image_header)

lemma kind_of_page_image: "kind_of_page \<lparr>page_bytes = page_image k crc cs\<rparr> = Inr k"
  by (simp add: kind_of_page_def image_kind)

definition page_crc :: "page_kind \<Rightarrow> bytes list \<Rightarrow> bytes" where
  "page_crc k cs = le_bytes 4 (crc32 (page_image k (replicate 4 0) cs))"

lemma length_page_crc [simp]: "length (page_crc k cs) = 4"
  by (simp add: page_crc_def)

lemma page_finish_image:
  "length crc = 4 \<Longrightarrow> page_finish \<lparr>page_bytes = page_image k crc cs\<rparr> = Inr (page_image k (page_crc k cs) cs)"
  by (simp add: page_finish_def image_crc page_crc_def)

lemma page_from_bytes_image:
  assumes "page_fits cs" and "length crc = 4"
  shows "page_from_bytes (page_image k crc cs) =
    (if crc = page_crc k cs then Inr \<lparr>page_bytes = page_image k crc cs\<rparr>
     else fail_with (invalid_data ''page: checksum mismatch''))"
proof -
  have "crc32 (page_image k (replicate 4 0) cs) = of_le_bytes crc \<longleftrightarrow> crc = page_crc k cs"
    using le_bytes_inverse' [of crc 4, where 'a = 32] assms(2) by (auto simp: page_crc_def)
  moreover have "\<not> (HEADER_SIZE + 2 * length cs \<noteq> HEADER_SIZE + length cs * 2 \<or> HEADER_SIZE + 2 * length cs > PAGE_SIZE - cells_size cs
      \<or> PAGE_SIZE - cells_size cs > PAGE_SIZE)"
    using assms(1) unfolding page_fits_def HEADER_SIZE_def PAGE_SIZE_def by linarith
  ultimately show ?thesis
    unfolding page_from_bytes_def image_kind image_header rbind.simps page_fits_unat [OF assms(1)]
    by (simp add: page_cells_image [OF assms] page_cells_image [OF assms(1) length_page_crc] image_crc [OF assms(2)])
qed

text \<open>Several cells in a row, as a snapshot writes them.\<close>

primrec page_insert_all :: "bytes list \<Rightarrow> slotted_page \<Rightarrow> slotted_page may_fail" where
  "page_insert_all [] p = Inr p"
| "page_insert_all (c # cs) p = rbind (page_insert c p) (page_insert_all cs)"

lemma page_fits_prefix: "page_fits (cs @ ds) \<Longrightarrow> page_fits cs"
  by (simp add: page_fits_def)

lemma page_fits_Nil [simp]: "page_fits []"
  by (simp add: page_fits_def HEADER_SIZE_def PAGE_SIZE_def)

lemma page_fits_cell: "page_fits (cs @ c # ds) \<Longrightarrow> length c < 2 ^ 16"
  by (simp add: page_fits_def HEADER_SIZE_def PAGE_SIZE_def)

lemma page_insert_all_image:
  assumes "page_fits ds" and "length crc = 4"
  shows "if page_fits (ds @ cs)
     then page_insert_all cs \<lparr>page_bytes = page_image k crc ds\<rparr> = Inr \<lparr>page_bytes = page_image k crc (ds @ cs)\<rparr>
     else \<exists>e. page_insert_all cs \<lparr>page_bytes = page_image k crc ds\<rparr> = fail_with e"
  using assms
proof (induction cs arbitrary: ds)
  case (Cons c cs)
  show ?case
  proof (cases "length c < 2 ^ 16 \<and> page_fits (ds @ [c])")
    case True
    then show ?thesis using Cons.IH [of "ds @ [c]"] Cons.prems by (simp add: page_insert_image)
  next
    case False
    then have "\<not> page_fits (ds @ c # cs)"
      using page_fits_cell [of ds c cs] page_fits_prefix [of "ds @ [c]" cs] by auto
    with False Cons.prems show ?thesis by (auto simp: page_insert_image fail_with_def)
  qed
qed simp

lemma page_new_insert_all:
  "if page_fits cs
   then rbind (page_new k) (page_insert_all cs) = Inr \<lparr>page_bytes = page_image k (replicate 4 0) cs\<rparr>
   else \<exists>e. rbind (page_new k) (page_insert_all cs) = fail_with e"
  using page_insert_all_image [of "[]" "replicate 4 0" cs k] by (simp add: page_new_image)

section \<open>Decoding arbitrary bytes\<close>

definition zero_crc :: "bytes \<Rightarrow> bytes" where
  "zero_crc bs = take 12 bs @ replicate 4 0 @ drop 16 bs"

lemma page_from_bytes_InrD:
  assumes "page_from_bytes bs = Inr p"
  shows "page_bytes p = bs" and "crc32 (zero_crc bs) = of_le_bytes (take 4 (drop 12 bs))"
    and "\<exists>cs. page_cells p = Inr cs" and "\<exists>k. kind_of_page p = Inr k"
  using assms
  by (auto simp: page_from_bytes_def rbind_Inr_iff slice_def copy_from_slice_def zero_crc_def kind_of_page_def
      split: if_splits)

lemma get_u16_no_panic: "offset + 2 \<le> length bs \<Longrightarrow> \<exists>w. get_u16 bs offset = Inr w"
  by (simp add: get_u16_def slice_def)

lemma cells_loop_no_panic:
  assumes "length bs = PAGE_SIZE" and "HEADER_SIZE + (index + todo) * 2 \<le> PAGE_SIZE"
  shows "cells_loop bs index todo acc \<noteq> Inl Panicked"
  using assms(2)
proof (induction todo arbitrary: index acc)
  case (Suc todo)
  from Suc.prems obtain slot where s: "get_u16 bs (HEADER_SIZE + index * 2) = Inr slot"
    using get_u16_no_panic [of "HEADER_SIZE + index * 2" bs] assms(1) by auto
  show ?case
  proof (cases "unat slot < HEADER_SIZE \<or> unat slot + 2 > PAGE_SIZE")
    case False
    then obtain len where l: "get_u16 bs (unat slot) = Inr len"
      using get_u16_no_panic [of "unat slot" bs] assms(1) by auto
    have "slice (unat slot + 2) (unat slot + 2 + unat len) bs \<noteq> Inl Panicked" if "unat slot + 2 + unat len \<le> PAGE_SIZE"
      using that assms(1) by (simp add: slice_def)
    moreover have "cells_loop bs (index + 1) todo acc' \<noteq> Inl Panicked" for acc'
      using Suc.IH [of "index + 1"] Suc.prems by simp
    ultimately show ?thesis using False by (auto simp: s l Let_def rbind_Inl_iff)
  qed (simp add: s Let_def)
qed simp

lemma page_from_bytes_no_panic:
  assumes "length bs = PAGE_SIZE"
  shows "page_from_bytes bs \<noteq> Inl Panicked"
proof -
  have n: "HEADER_SIZE = 16" "PAGE_SIZE = 4096" by (simp_all add: HEADER_SIZE_def PAGE_SIZE_def)
  obtain c f b where g: "get_u16 bs 6 = Inr c" "get_u16 bs 8 = Inr f" "get_u16 bs 10 = Inr b"
    using get_u16_no_panic [of 6 bs] get_u16_no_panic [of 8 bs] get_u16_no_panic [of 10 bs] assms n by auto
  have "page_cells \<lparr>page_bytes = bs\<rparr> \<noteq> Inl Panicked" if "unat f = HEADER_SIZE + unat c * 2" "unat f \<le> unat b" "unat b \<le> PAGE_SIZE"
    using cells_loop_no_panic [of bs 0 "unat c"] assms that by (simp add: page_cells_def g)
  then show ?thesis
    using assms n by (auto simp: page_from_bytes_def g slice_def elem_at_def copy_from_slice_def rbind_Inl_iff)
qed

section \<open>Properties\<close>

text \<open>
  C12. A page holds what is put into it: the cells fit exactly when slots, length fields and contents leave the
  header free, and then the finished page has 4096 bytes and decodes to a page of the same kind with the same
  cells in the same order; otherwise an insertion fails with an error.
\<close>

theorem page_round_trips:
  "if page_fits cs
   then \<exists>p b q. rbind (page_new k) (page_insert_all cs) = Inr p \<and> page_finish p = Inr b \<and> length b = PAGE_SIZE
     \<and> page_from_bytes b = Inr q \<and> kind_of_page q = Inr k \<and> page_cells q = Inr cs
   else \<exists>e. rbind (page_new k) (page_insert_all cs) = fail_with e"
  using page_new_insert_all [of cs k]
  by (auto simp: page_finish_image page_from_bytes_image page_cells_image kind_of_page_image)

text \<open>
  C13. Corruption is reported: if a page decodes, then after a change of up to four consecutive bytes that lie
  wholly before, wholly inside or wholly behind the checksum field (bytes 12 to 15), decoding returns an error; it
  does not panic. A window across the border of the field is not covered: it can change the content and the checksum
  so that they fit again.
\<close>

theorem corrupt_page_is_rejected:
  assumes "page_from_bytes (pre @ xs @ post) = Inr p" and "length (pre @ xs @ post) = PAGE_SIZE"
    and "length ys = length xs" and "length xs \<le> 4" and "ys \<noteq> xs"
    and "length pre + length xs \<le> 12 \<or> 16 \<le> length pre \<or> 12 \<le> length pre \<and> length pre + length xs \<le> 16"
  shows "\<exists>e. page_from_bytes (pre @ ys @ post) = fail_with e"
proof -
  have "page_from_bytes (pre @ ys @ post) \<noteq> Inr q" for q
  proof
    assume r: "page_from_bytes (pre @ ys @ post) = Inr q"
    note crc = page_from_bytes_InrD(2) [OF assms(1)] page_from_bytes_InrD(2) [OF r]
    consider (before) "length pre + length xs \<le> 12" | (after) "16 \<le> length pre" | (field) "12 \<le> length pre" "length pre + length xs \<le> 16"
      using assms(6) by blast
    then show False
    proof cases
      case before
      let ?post = "take (12 - length pre - length xs) post @ replicate 4 0 @ drop (16 - length pre - length xs) post"
      have "zero_crc (pre @ zs @ post) = pre @ zs @ ?post" and "drop 12 (pre @ zs @ post) = drop (12 - length pre - length xs) post"
        if "length zs = length xs" for zs using before that by (simp_all add: zero_crc_def)
      then have "crc32 (pre @ xs @ ?post) = crc32 (pre @ ys @ ?post)" using crc assms(3) by metis
      then show False using crc.burst [of ys xs pre ?post] assms(3,4,5) by simp
    next
      case after
      have "zero_crc (pre @ zs @ post) = zero_crc pre @ zs @ post" and "take 4 (drop 12 (pre @ zs @ post)) = take 4 (drop 12 pre)" for zs
        using after by (simp_all add: zero_crc_def)
      then have "crc32 (zero_crc pre @ xs @ post) = crc32 (zero_crc pre @ ys @ post)" using crc by metis
      then show False using crc.burst [of ys xs "zero_crc pre" post] assms(3,4,5) by simp
    next
      case field
      have "zero_crc (pre @ xs @ post) = zero_crc (pre @ ys @ post)" using field assms(3) by (simp add: zero_crc_def)
      then have "(of_le_bytes (take 4 (drop 12 (pre @ xs @ post))) :: u32) = of_le_bytes (take 4 (drop 12 (pre @ ys @ post)))"
        using crc by metis
      then have "take 4 (drop 12 (pre @ xs @ post)) = take 4 (drop 12 (pre @ ys @ post))"
        using of_le_bytes_u32_inject assms(2,3) by (metis (no_types, lifting) length_append length_drop length_take min.cobounded2)
      then show False using field assms(3,5) by (simp add: take_append)
    qed
  qed
  moreover have "page_from_bytes (pre @ ys @ post) \<noteq> Inl Panicked"
    using page_from_bytes_no_panic [of "pre @ ys @ post"] assms(2,3) by simp
  ultimately show ?thesis by (metis fail_with_def failure.exhaust sum.exhaust)
qed

theorem corrupt_page_is_rejected_witness:
  "\<exists>e. page_from_bytes (take 4095 (page_image Leaf (page_crc Leaf []) []) @ [1] @ []) = fail_with e"
proof -
  let ?b = "page_image Leaf (page_crc Leaf []) []"
  have l: "length ?b = 4096" by (simp add: PAGE_SIZE_def)
  have "?b ! 4095 = 0" by (simp add: page_image_alt nth_append image_free_def PAGE_SIZE_def HEADER_SIZE_def)
  then have b: "take 4095 ?b @ [0] @ [] = ?b"
    using id_take_nth_drop [of 4095 ?b] l by simp
  have "page_from_bytes (take 4095 ?b @ [0] @ []) = Inr \<lparr>page_bytes = ?b\<rparr>"
    unfolding b by (simp add: page_from_bytes_image)
  then show ?thesis
    by (rule corrupt_page_is_rejected) (use l in \<open>simp_all add: PAGE_SIZE_def\<close>)
qed

end
