(* ===== verification/Pager.thy ===== *)
theory Pager
  imports Page Wal
begin

text \<open>
  \<open>src/src/pager.rs\<close>: page I/O through a bounded least-recently-used cache. The page file is its bytes, whether
  all of them have been synced, and the schedule of outcomes the operating system gives to the coming calls
  (a failing write may have written a part of its buffer). The cache is an association list without
  duplicate keys; the order in which the hash map would be iterated is irrelevant for eviction, where the minimum is
  unique, and is an argument of \<open>flush\<close>. Page numbers and the clock are unbounded: a page number is bounded by
  the size of the file, and the clock counts calls.
\<close>

section \<open>The page file\<close>

record page_file =
  pf_bytes :: bytes
  pf_synced :: bool
  pf_faults :: "io_outcome list"

definition file_outcome :: "page_file \<Rightarrow> io_outcome \<times> page_file" where
  "file_outcome f = (case pf_faults f of [] \<Rightarrow> (Done, f) | x # xs \<Rightarrow> (x, f\<lparr>pf_faults := xs\<rparr>))"

text \<open>Writing behind the end of a file, or extending it, fills the gap with zeroes.\<close>

definition overwrite :: "nat \<Rightarrow> bytes \<Rightarrow> bytes \<Rightarrow> bytes" where
  "overwrite offset buf bs =
    take offset (bs @ replicate (offset - length bs) 0) @ buf @ drop (offset + length buf) bs"

definition file_seek :: "(page_file, failure, unit) eff" where
  "file_seek f = (case file_outcome f of (Done, f') \<Rightarrow> (Inr (), f') | (Fault n e, f') \<Rightarrow> (fail_with e, f'))"

definition file_write_all :: "nat \<Rightarrow> bytes \<Rightarrow> (page_file, failure, unit) eff" where
  "file_write_all offset buf f = (case file_outcome f of
     (Done, f') \<Rightarrow> (Inr (), f'\<lparr>pf_bytes := overwrite offset buf (pf_bytes f'), pf_synced := False\<rparr>)
   | (Fault n e, f') \<Rightarrow>
       (fail_with e, f'\<lparr>pf_bytes := overwrite offset (take (min n (length buf - 1)) buf) (pf_bytes f'), pf_synced := False\<rparr>))"

definition file_read_exact :: "nat \<Rightarrow> nat \<Rightarrow> (page_file, failure, bytes) eff" where
  "file_read_exact offset len f = (case file_outcome f of
     (Done, f') \<Rightarrow>
       (if offset + len \<le> length (pf_bytes f') then Inr (take len (drop offset (pf_bytes f')))
        else fail_with (IoError UnexpectedEof ''failed to fill whole buffer''), f')
   | (Fault n e, f') \<Rightarrow> (fail_with e, f'))"

definition file_set_len :: "nat \<Rightarrow> (page_file, failure, unit) eff" where
  "file_set_len n f = (case file_outcome f of
     (Done, f') \<Rightarrow> (Inr (), f'\<lparr>pf_bytes := take n (pf_bytes f') @ replicate (n - length (pf_bytes f')) 0, pf_synced := False\<rparr>)
   | (Fault k e, f') \<Rightarrow> (fail_with e, f'))"

definition file_sync_all :: "(page_file, failure, unit) eff" where
  "file_sync_all f = (case file_outcome f of
     (Done, f') \<Rightarrow> (Inr (), f'\<lparr>pf_synced := True\<rparr>)
   | (Fault k e, f') \<Rightarrow> (fail_with e, f'))"

section \<open>The pager\<close>

type_synonym page_id = nat

record cached_page =
  cp_bytes :: bytes
  cp_dirty :: bool
  cp_touched :: nat

record pager =
  pg_file :: page_file
  pg_capacity :: nat
  pg_clock :: nat
  pg_pages :: nat
  pg_cache :: "(page_id \<times> cached_page) list"

definition on_file :: "(page_file, failure, 'a) eff \<Rightarrow> (pager, failure, 'a) eff" where
  "on_file m p = (case m (pg_file p) of (r, f) \<Rightarrow> (r, p\<lparr>pg_file := f\<rparr>))"

definition cache_insert :: "page_id \<Rightarrow> cached_page \<Rightarrow> (page_id \<times> cached_page) list \<Rightarrow> (page_id \<times> cached_page) list" where
  "cache_insert i c cache = (i, c) # filter (\<lambda>(j, _). j \<noteq> i) cache"

definition cache_remove :: "page_id \<Rightarrow> (page_id \<times> cached_page) list \<Rightarrow> (page_id \<times> cached_page) list" where
  "cache_remove i cache = filter (\<lambda>(j, _). j \<noteq> i) cache"

text \<open>\<open>open_inner\<close>, given the file's bytes (\<open>None\<close> when it does not exist) and the outcomes of its calls.\<close>

definition pager_open_inner :: "bytes option \<Rightarrow> io_outcome list \<Rightarrow> nat \<Rightarrow> bool \<Rightarrow> pager may_fail" where
  "pager_open_inner file faults capacity trunc =
    (if capacity = 0 then fail_with (invalid_input ''pager: cache capacity must be positive'')
     else let content = (case file of None \<Rightarrow> [] | Some bs \<Rightarrow> if trunc then [] else bs); len = length content in
     if len mod PAGE_SIZE \<noteq> 0 then fail_with (invalid_data ''pager: file ends in a partial page'')
     else Inr \<lparr>pg_file = \<lparr>pf_bytes = content, pf_synced = \<not> trunc, pf_faults = faults\<rparr>, pg_capacity = capacity, pg_clock = 0,
               pg_pages = len div PAGE_SIZE, pg_cache = []\<rparr>)"

definition pager_open :: "bytes option \<Rightarrow> io_outcome list \<Rightarrow> nat \<Rightarrow> pager may_fail" where
  "pager_open file faults capacity = pager_open_inner file faults capacity False"

definition pager_create :: "bytes option \<Rightarrow> io_outcome list \<Rightarrow> nat \<Rightarrow> pager may_fail" where
  "pager_create file faults capacity = pager_open_inner file faults capacity True"

definition flush_one :: "page_id \<Rightarrow> (pager, failure, unit) eff" where
  "flush_one i p = (case map_of (pg_cache p) i of
     None \<Rightarrow> (Inr (), p)
   | Some page \<Rightarrow>
       if cp_dirty page
       then and_then (on_file file_seek) (\<lambda>_.
            and_then (on_file (file_write_all (i * PAGE_SIZE) (cp_bytes page))) (\<lambda>_ p.
            (Inr (), p\<lparr>pg_cache := cache_insert i (page\<lparr>cp_dirty := False\<rparr>) (pg_cache p)\<rparr>))) p
       else (Inr (), p))"

fun least_touched :: "(page_id \<times> cached_page) list \<Rightarrow> (page_id \<times> cached_page) option" where
  "least_touched [] = None"
| "least_touched (x # xs) = (case least_touched xs of
     None \<Rightarrow> Some x
   | Some y \<Rightarrow> if cp_touched (snd x) \<le> cp_touched (snd y) then Some x else Some y)"

definition evict_if_needed :: "(pager, failure, unit) eff" where
  "evict_if_needed p =
    (if length (pg_cache p) < pg_capacity p then (Inr (), p)
     else (case least_touched (pg_cache p) of
         None \<Rightarrow> (Inl Panicked, p)
       | Some (victim, _) \<Rightarrow>
           and_then (flush_one victim) (\<lambda>_ p. (Inr (), p\<lparr>pg_cache := cache_remove victim (pg_cache p)\<rparr>)) p))"

definition ensure_loaded :: "page_id \<Rightarrow> (pager, failure, unit) eff" where
  "ensure_loaded i p =
    (if i \<ge> pg_pages p then (fail_with (IoError NotFound ''pager: page not found''), p)
     else if map_of (pg_cache p) i \<noteq> None then (Inr (), p)
     else and_then evict_if_needed (\<lambda>_.
          and_then (on_file file_seek) (\<lambda>_.
          and_then (on_file (file_read_exact (i * PAGE_SIZE) PAGE_SIZE)) (\<lambda>bs p.
          (Inr (), p\<lparr>pg_cache := cache_insert i \<lparr>cp_bytes = bs, cp_dirty = False, cp_touched = pg_clock p\<rparr> (pg_cache p)\<rparr>)))) p)"

definition pager_read :: "page_id \<Rightarrow> (pager, failure, bytes) eff" where
  "pager_read i = and_then (ensure_loaded i) (\<lambda>_ p.
    let clock = pg_clock p + 1 in
    (case map_of (pg_cache p) i of
       None \<Rightarrow> (Inl Panicked, p\<lparr>pg_clock := clock\<rparr>)
     | Some page \<Rightarrow> (Inr (cp_bytes page), p\<lparr>pg_clock := clock, pg_cache := cache_insert i (page\<lparr>cp_touched := clock\<rparr>) (pg_cache p)\<rparr>)))"

definition pager_write :: "page_id \<Rightarrow> bytes \<Rightarrow> (pager, failure, unit) eff" where
  "pager_write i bs p =
    (if i > pg_pages p then (fail_with (invalid_input ''pager: page id skips allocation''), p)
     else let p = (if i = pg_pages p then p\<lparr>pg_pages := pg_pages p + 1\<rparr> else p) in
     and_then (if map_of (pg_cache p) i = None then evict_if_needed else (\<lambda>p. (Inr (), p))) (\<lambda>_ p.
       let clock = pg_clock p + 1 in
       (Inr (), p\<lparr>pg_clock := clock, pg_cache := cache_insert i \<lparr>cp_bytes = bs, cp_dirty = True, cp_touched = clock\<rparr> (pg_cache p)\<rparr>)) p)"

definition allocate :: "(pager, failure, page_id) eff" where
  "allocate p = (let i = pg_pages p in
     and_then (pager_write i (replicate PAGE_SIZE 0)) (\<lambda>_ p. (Inr i, p)) (p\<lparr>pg_pages := pg_pages p + 1\<rparr>))"

primrec flush_list :: "page_id list \<Rightarrow> (pager, failure, unit) eff" where
  "flush_list [] p = (Inr (), p)"
| "flush_list (i # is) p = and_then (flush_one i) (\<lambda>_. flush_list is) p"

text \<open>\<open>order\<close> is the order in which the hash map yields the dirty pages.\<close>

definition flush :: "(page_id list \<Rightarrow> page_id list) \<Rightarrow> (pager, failure, unit) eff" where
  "flush order p =
    and_then (flush_list (order (map fst (filter (\<lambda>(_, c). cp_dirty c) (pg_cache p))))) (\<lambda>_ p.
    and_then (on_file (file_set_len (pg_pages p * PAGE_SIZE))) (\<lambda>_. on_file file_sync_all) p) p"

definition drop_pager :: "(page_id list \<Rightarrow> page_id list) \<Rightarrow> pager \<Rightarrow> page_file" where
  "drop_pager order p = pg_file (snd (flush order p))"

section \<open>Pages of a file\<close>

definition stored :: "bytes \<Rightarrow> page_id \<Rightarrow> bytes \<Rightarrow> bool" where
  "stored bs i b \<longleftrightarrow> (i + 1) * PAGE_SIZE \<le> length bs \<and> take PAGE_SIZE (drop (i * PAGE_SIZE) bs) = b"

lemma PAGE_SIZE_pos [simp]: "0 < PAGE_SIZE"
  by (simp add: PAGE_SIZE_def)

lemma length_overwrite [simp]: "length (overwrite offset buf bs) = max (length bs) (offset + length buf)"
  by (simp add: overwrite_def)

lemma nth_overwrite:
  "k < length (overwrite offset buf bs) \<Longrightarrow> overwrite offset buf bs ! k =
    (if k < offset then if k < length bs then bs ! k else 0
     else if k < offset + length buf then buf ! (k - offset) else bs ! k)"
proof -
  let ?pre = "take offset (bs @ replicate (offset - length bs) 0)"
  assume k: "k < length (overwrite offset buf bs)"
  have l: "length ?pre = offset" by auto
  have "?pre ! k = (if k < length bs then bs ! k else 0)" if "k < offset" using that by (auto simp: nth_append)
  moreover have "overwrite offset buf bs ! k = (if k < offset then ?pre ! k else (buf @ drop (offset + length buf) bs) ! (k - offset))"
    unfolding overwrite_def by (simp only: nth_append [of ?pre] l)
  ultimately show ?thesis using k by (auto simp: nth_append)
qed

lemma stored_nth:
  "stored bs i b \<longleftrightarrow> length b = PAGE_SIZE \<and> (i + 1) * PAGE_SIZE \<le> length bs \<and> (\<forall>k < PAGE_SIZE. bs ! (i * PAGE_SIZE + k) = b ! k)"
  by (auto simp: stored_def list_eq_iff_nth_eq)

lemma page_disjoint:
  assumes "i \<noteq> j" and "k < PAGE_SIZE"
  shows "j * PAGE_SIZE + k < i * PAGE_SIZE \<or> i * PAGE_SIZE + PAGE_SIZE \<le> j * PAGE_SIZE + k"
proof (cases "j < i")
  case True
  then have "(j + 1) * PAGE_SIZE \<le> i * PAGE_SIZE" by (intro mult_le_mono1) simp
  with assms(2) show ?thesis by simp
next
  case False
  with assms(1) have "(i + 1) * PAGE_SIZE \<le> j * PAGE_SIZE" by (intro mult_le_mono1) simp
  then show ?thesis by simp
qed

lemma stored_overwrite_other:
  assumes "stored bs j b" and "i \<noteq> j" and "length buf \<le> PAGE_SIZE"
  shows "stored (overwrite (i * PAGE_SIZE) buf bs) j b"
proof -
  have "overwrite (i * PAGE_SIZE) buf bs ! (j * PAGE_SIZE + k) = b ! k" if "k < PAGE_SIZE" for k
    using page_disjoint [OF assms(2) that] that assms(1,3) by (auto simp: stored_nth nth_overwrite)
  then show ?thesis using assms(1) by (auto simp: stored_nth)
qed

lemma stored_overwrite_same: "length b = PAGE_SIZE \<Longrightarrow> stored (overwrite (i * PAGE_SIZE) b bs) i b"
  by (auto simp: stored_nth nth_overwrite)

lemma stored_set_len: "stored bs i b \<Longrightarrow> (i + 1) * PAGE_SIZE \<le> n \<Longrightarrow> stored (take n bs @ replicate (n - length bs) 0) i b"
  by (auto simp: stored_def take_drop min_def)

section \<open>The cache\<close>

definition entry_ok :: "bytes \<Rightarrow> nat \<Rightarrow> nat \<Rightarrow> page_id \<Rightarrow> cached_page \<Rightarrow> bool" where
  "entry_ok bs pages clock i c \<longleftrightarrow> i < pages \<and> length (cp_bytes c) = PAGE_SIZE \<and> cp_touched c \<le> clock
     \<and> (\<not> cp_dirty c \<longrightarrow> stored bs i (cp_bytes c))"

lemma entry_ok_mono: "entry_ok bs n k i c \<Longrightarrow> n \<le> n' \<Longrightarrow> k \<le> k' \<Longrightarrow> entry_ok bs n' k' i c"
  by (auto simp: entry_ok_def)

definition pager_wf :: "pager \<Rightarrow> bool" where
  "pager_wf p \<longleftrightarrow> 0 < pg_capacity p \<and> length (pg_cache p) \<le> pg_capacity p \<and> distinct (map fst (pg_cache p))
    \<and> (\<forall>i c. map_of (pg_cache p) i = Some c \<longrightarrow> entry_ok (pf_bytes (pg_file p)) (pg_pages p) (pg_clock p) i c)
    \<and> length (pf_bytes (pg_file p)) \<le> pg_pages p * PAGE_SIZE"

lemma pager_wf_entry:
  "pager_wf p \<Longrightarrow> map_of (pg_cache p) i = Some c \<Longrightarrow> entry_ok (pf_bytes (pg_file p)) (pg_pages p) (pg_clock p) i c"
  unfolding pager_wf_def by blast

text \<open>The pager holds the pages of \<open>m\<close>, in the cache or in the file.\<close>

definition has_page :: "pager \<Rightarrow> page_id \<Rightarrow> bytes \<Rightarrow> bool" where
  "has_page p i b \<longleftrightarrow> i < pg_pages p
    \<and> ((\<exists>c. map_of (pg_cache p) i = Some c \<and> cp_bytes c = b) \<or> map_of (pg_cache p) i = None \<and> stored (pf_bytes (pg_file p)) i b)"

definition holds :: "pager \<Rightarrow> (page_id \<rightharpoonup> bytes) \<Rightarrow> bool" where
  "holds p m \<longleftrightarrow> (\<forall>i b. m i = Some b \<longrightarrow> has_page p i b)"

lemma holdsI: "(\<And>i b. m i = Some b \<Longrightarrow> has_page p i b) \<Longrightarrow> holds p m"
  by (simp add: holds_def)

lemma holds_transfer: "holds p m \<Longrightarrow> (\<And>i b. has_page p i b \<Longrightarrow> has_page p' i b) \<Longrightarrow> holds p' m"
  by (simp add: holds_def)

lemma map_of_cache_insert [simp]: "map_of (cache_insert i c cache) = (map_of cache)(i \<mapsto> c)"
proof -
  have "map_of (filter (\<lambda>(j, _). j \<noteq> i) cache) j = (if j = i then None else map_of cache j)" for j
    by (induction cache) auto
  then show ?thesis by (auto simp: cache_insert_def)
qed

lemma map_of_cache_remove [simp]: "map_of (cache_remove i cache) = (map_of cache)(i := None)"
  unfolding cache_remove_def by (rule ext, induction cache) auto

lemma distinct_cache_insert [simp]: "distinct (map fst cache) \<Longrightarrow> distinct (map fst (cache_insert i c cache))"
  by (auto simp: cache_insert_def distinct_map_filter)

lemma distinct_cache_remove [simp]: "distinct (map fst cache) \<Longrightarrow> distinct (map fst (cache_remove i cache))"
  by (auto simp: cache_remove_def distinct_map_filter)

lemma length_cache_remove_le: "length (cache_remove i cache) \<le> length cache"
  by (simp add: cache_remove_def)

lemma length_cache_remove:
  "distinct (map fst cache) \<Longrightarrow> length (cache_remove i cache) = (if map_of cache i = None then length cache else length cache - 1)"
proof (induction cache)
  case (Cons x cache)
  have "cache_remove i cache = cache" if "i \<notin> fst ` set cache"
    using that unfolding cache_remove_def by (intro filter_True) (auto simp: image_iff)
  then show ?case using Cons by (cases x; cases cache) (auto simp: cache_remove_def map_of_eq_None_iff split: if_splits)
qed (simp add: cache_remove_def)

lemma length_cache_insert:
  "distinct (map fst cache) \<Longrightarrow> length (cache_insert i c cache) = (if map_of cache i = None then length cache + 1 else length cache)"
proof -
  assume d: "distinct (map fst cache)"
  have "0 < length cache" if "map_of cache i \<noteq> None" using that by (cases cache) auto
  then show ?thesis using length_cache_remove [OF d, of i] by (auto simp: cache_insert_def cache_remove_def)
qed

lemma least_touched_None [simp]: "least_touched xs = None \<longleftrightarrow> xs = []"
  by (cases xs) (auto split: option.splits)

lemma least_touched_Some: "least_touched xs = Some x \<Longrightarrow> x \<in> set xs \<and> (\<forall>y \<in> set xs. cp_touched (snd x) \<le> cp_touched (snd y))"
  by (induction xs arbitrary: x) (fastforce split: option.splits if_splits)+

lemma file_ops_frame:
  "file_seek f = (r, f') \<Longrightarrow> pf_bytes f' = pf_bytes f \<and> r \<noteq> Inl Panicked"
  "file_read_exact off len f = (q, f') \<Longrightarrow> pf_bytes f' = pf_bytes f \<and> q \<noteq> Inl Panicked
     \<and> (q = Inr bs \<longrightarrow> off + len \<le> length (pf_bytes f) \<and> bs = take len (drop off (pf_bytes f)))"
  "file_sync_all f = (r, f') \<Longrightarrow> pf_bytes f' = pf_bytes f \<and> r \<noteq> Inl Panicked \<and> (r = Inr () \<longrightarrow> pf_synced f')"
  "file_set_len n f = (r, f') \<Longrightarrow> r \<noteq> Inl Panicked \<and> (pf_bytes f' = pf_bytes f \<and> r \<noteq> Inr ()
     \<or> pf_bytes f' = take n (pf_bytes f) @ replicate (n - length (pf_bytes f)) 0 \<and> r = Inr ())"
  by (auto simp: file_seek_def file_read_exact_def file_sync_all_def file_set_len_def file_outcome_def
      split: list.splits io_outcome.splits prod.splits if_splits)

lemma file_write_frame:
  assumes "file_write_all off buf f = (r, f')"
  shows "r \<noteq> Inl Panicked \<and> (\<exists>n. pf_bytes f' = overwrite off (take n buf) (pf_bytes f) \<and> (r = Inr () \<longrightarrow> length buf \<le> n))"
  using assms by (auto simp: file_write_all_def file_outcome_def split: list.splits io_outcome.splits intro: exI [of _ "length buf"])

section \<open>The operations keep the pages\<close>

lemma pager_wf_file:
  assumes "pager_wf p" and "holds p m" and "pf_bytes f = pf_bytes (pg_file p)"
  shows "pager_wf (p\<lparr>pg_file := f\<rparr>)" and "holds (p\<lparr>pg_file := f\<rparr>) m"
  using assms by (simp_all add: pager_wf_def holds_def has_page_def)

lemma pager_wf_overwrite:
  assumes wf: "pager_wf p" and h: "holds p m" and c: "map_of (pg_cache p) i = Some c" "cp_dirty c"
    and f: "pf_bytes f = overwrite (i * PAGE_SIZE) buf (pf_bytes (pg_file p))" and l: "length buf \<le> PAGE_SIZE"
  shows "pager_wf (p\<lparr>pg_file := f\<rparr>)" and "holds (p\<lparr>pg_file := f\<rparr>) m"
proof -
  have keep: "stored (pf_bytes f) j b" if "stored (pf_bytes (pg_file p)) j b" "j \<noteq> i" for j b
    unfolding f by (rule stored_overwrite_other) (use that l in auto)
  have "i < pg_pages p" using pager_wf_entry [OF wf c(1)] by (simp add: entry_ok_def)
  then have "(i + 1) * PAGE_SIZE \<le> pg_pages p * PAGE_SIZE" by (intro mult_le_mono1) simp
  then have "length (pf_bytes f) \<le> pg_pages p * PAGE_SIZE" using wf l by (simp add: f pager_wf_def)
  moreover have "entry_ok (pf_bytes f) (pg_pages p) (pg_clock p) j d" if "map_of (pg_cache p) j = Some d" for j d
    using pager_wf_entry [OF wf that] keep c that by (cases "j = i") (auto simp: entry_ok_def)
  ultimately show "pager_wf (p\<lparr>pg_file := f\<rparr>)" using wf unfolding pager_wf_def by simp
  show "holds (p\<lparr>pg_file := f\<rparr>) m" 
    by (rule holds_transfer [OF h]) (use c keep in \<open>fastforce simp: has_page_def\<close>)
qed

text \<open>What a step that only moves pages between cache and file leaves alone.\<close>

definition same_pages :: "pager \<Rightarrow> pager \<Rightarrow> bool" where
  "same_pages p p' \<longleftrightarrow> pg_pages p' = pg_pages p \<and> pg_clock p' = pg_clock p \<and> pg_capacity p' = pg_capacity p"

lemma cache_insert_ok:
  assumes "pager_wf p" and "length (pg_cache p) < pg_capacity p \<or> map_of (pg_cache p) i \<noteq> None" and "i < pg_pages p"
    and "length (cp_bytes c) = PAGE_SIZE" and "cp_touched c \<le> clock" and "pg_clock p \<le> clock"
    and "\<not> cp_dirty c \<Longrightarrow> stored (pf_bytes (pg_file p)) i (cp_bytes c)"
  shows "pager_wf (p\<lparr>pg_clock := clock, pg_cache := cache_insert i c (pg_cache p)\<rparr>)"
proof -
  let ?q = "p\<lparr>pg_clock := clock, pg_cache := cache_insert i c (pg_cache p)\<rparr>"
  have "entry_ok (pf_bytes (pg_file ?q)) (pg_pages ?q) (pg_clock ?q) j d" if "map_of (pg_cache ?q) j = Some d" for j d
  proof (cases "j = i")
    case True
    with that assms(3,4,5,7) show ?thesis by (auto simp: entry_ok_def)
  next
    case False
    with that pager_wf_entry [OF assms(1), of j d] assms(6) show ?thesis by (auto intro: entry_ok_mono)
  qed
  then show ?thesis using assms(1,2) unfolding pager_wf_def by (auto simp: length_cache_insert)
qed

lemma flush_one_ok:
  assumes wf: "pager_wf p" and h: "holds p m" and r: "flush_one i p = (r, p')"
  shows "pager_wf p' \<and> holds p' m \<and> same_pages p p' \<and> r \<noteq> Inl Panicked \<and> length (pg_cache p') = length (pg_cache p)
    \<and> (r = Inr () \<longrightarrow> map_of (pg_cache p') = (map_of (pg_cache p))(i := map_option (cp_dirty_update (\<lambda>_. False)) (map_of (pg_cache p) i)))
    \<and> (\<forall>j. map_of (pg_cache p') j = map_of (pg_cache p) j \<or> map_of (pg_cache p') j = map_option (cp_dirty_update (\<lambda>_. False)) (map_of (pg_cache p) j))"
proof (cases "map_of (pg_cache p) i")
  case None
  with r wf h show ?thesis by (auto simp: flush_one_def same_pages_def)
next
  case (Some c)
  show ?thesis
  proof (cases "cp_dirty c")
    case False
    with Some r wf h show ?thesis by (auto simp: flush_one_def same_pages_def)
  next
    case dirty: True
    obtain r1 f1 where s: "file_seek (pg_file p) = (r1, f1)" by force
    note f1 = file_ops_frame(1) [OF s]
    have b: "length (cp_bytes c) = PAGE_SIZE" using pager_wf_entry [OF wf Some] by (simp add: entry_ok_def)
    show ?thesis
    proof (cases r1)
      case (Inl e)
      with r Some dirty s have "r = Inl e" "p' = p\<lparr>pg_file := f1\<rparr>" by (auto simp: flush_one_def on_file_def and_then_def)
      with f1 Inl pager_wf_file [OF wf h] show ?thesis by (auto simp: same_pages_def)
    next
      case (Inr u)
      obtain r2 f2 where w: "file_write_all (i * PAGE_SIZE) (cp_bytes c) f1 = (r2, f2)" by force
      obtain n where n: "r2 \<noteq> Inl Panicked" "pf_bytes f2 = overwrite (i * PAGE_SIZE) (take n (cp_bytes c)) (pf_bytes (pg_file p))"
        "r2 = Inr () \<longrightarrow> length (cp_bytes c) \<le> n"
        using file_write_frame [OF w] f1 by auto
      have ok: "pager_wf (p\<lparr>pg_file := f2\<rparr>)" "holds (p\<lparr>pg_file := f2\<rparr>) m"
        using pager_wf_overwrite [OF wf h Some dirty n(2)] b by auto
      show ?thesis
      proof (cases r2)
        case (Inl e)
        with r Some dirty s Inr w have "r = Inl e" "p' = p\<lparr>pg_file := f2\<rparr>" by (auto simp: flush_one_def on_file_def and_then_def)
        with ok n(1) Inl show ?thesis by (auto simp: same_pages_def)
      next
        case i2: (Inr v)
        let ?c = "c\<lparr>cp_dirty := False\<rparr>"
        have e: "r = Inr ()" "p' = p\<lparr>pg_file := f2, pg_cache := cache_insert i ?c (pg_cache p)\<rparr>"
          using r Some dirty s Inr w i2 by (auto simp: flush_one_def on_file_def and_then_def)
        have "stored (pf_bytes f2) i (cp_bytes c)" using n i2 b by (simp add: stored_overwrite_same)
        then have "pager_wf (p\<lparr>pg_file := f2, pg_clock := pg_clock p, pg_cache := cache_insert i ?c (pg_cache p)\<rparr>)"
          using cache_insert_ok [OF ok(1), of i ?c "pg_clock p"] pager_wf_entry [OF wf Some] Some by (simp add: entry_ok_def)
        then have "pager_wf p'" by (simp add: e)
        moreover have "holds p' m" 
          by (rule holds_transfer [OF ok(2)]) (use Some in \<open>auto simp: e has_page_def\<close>)
        ultimately show ?thesis using e Some wf by (auto simp: same_pages_def length_cache_insert pager_wf_def)
      qed
    qed
  qed
qed

lemma evict_ok:
  assumes wf: "pager_wf p" and h: "holds p m" and r: "evict_if_needed p = (r, p')"
  shows "pager_wf p' \<and> holds p' m \<and> same_pages p p' \<and> r \<noteq> Inl Panicked \<and> (r = Inr () \<longrightarrow> length (pg_cache p') < pg_capacity p)
    \<and> (map_of (pg_cache p) j = None \<longrightarrow> map_of (pg_cache p') j = None)"
proof (cases "length (pg_cache p) < pg_capacity p")
  case True
  with r wf h show ?thesis by (auto simp: evict_if_needed_def same_pages_def)
next
  case full: False
  then have "pg_cache p \<noteq> []" using wf by (auto simp: pager_wf_def)
  then obtain v c where v: "least_touched (pg_cache p) = Some (v, c)" using least_touched_None [of "pg_cache p"] by (metis option.exhaust surj_pair)
  obtain r1 p1 where f: "flush_one v p = (r1, p1)" by force
  note ok = flush_one_ok [OF wf h f]
  have none: "map_of (pg_cache p) j = None \<longrightarrow> map_of (pg_cache p1) j = None" using ok by (metis option.map(1))
  show ?thesis
  proof (cases r1)
    case (Inl e)
    with r full v f have "r = Inl e" "p' = p1" by (auto simp: evict_if_needed_def)
    with ok Inl none show ?thesis by auto
  next
    case (Inr u)
    have e: "r = Inr ()" "p' = p1\<lparr>pg_cache := cache_remove v (pg_cache p1)\<rparr>"
      using r full v f Inr by (auto simp: evict_if_needed_def)
    have "map_of (pg_cache p) v = Some c"
      using least_touched_Some [OF v] wf by (simp add: pager_wf_def)
    then have c1: "map_of (pg_cache p1) v = Some (c\<lparr>cp_dirty := False\<rparr>)" using ok Inr by simp
    have d: "distinct (map fst (pg_cache p1))" using ok by (simp add: pager_wf_def)
    have "stored (pf_bytes (pg_file p1)) v (cp_bytes c)"
      using pager_wf_entry [OF conjunct1 [OF ok] c1] by (simp add: entry_ok_def)
    then have "holds p' m"
      by (intro holds_transfer [OF conjunct1 [OF conjunct2 [OF ok]]]) (use c1 in \<open>auto simp: e has_page_def\<close>)
    moreover have "pager_wf p'"
      using conjunct1 [OF ok] d length_cache_remove_le [of v "pg_cache p1"] unfolding e pager_wf_def
      by (simp del: map_of_eq_Some_iff)
    moreover have "length (pg_cache p') < pg_capacity p"
    proof -
      have "0 < length (pg_cache p1)" using c1 by (cases "pg_cache p1") auto
      moreover have "length (pg_cache p1) \<le> pg_capacity p" using ok by (simp add: pager_wf_def same_pages_def)
      moreover have "length (pg_cache p') = length (pg_cache p1) - 1" using c1 d by (simp add: e length_cache_remove)
      ultimately show ?thesis by linarith
    qed
    ultimately show ?thesis using e ok none by (auto simp: same_pages_def)
  qed
qed

lemma ensure_loaded_ok:
  assumes wf: "pager_wf p" and h: "holds p m" and r: "ensure_loaded i p = (r, p')"
  shows "pager_wf p' \<and> holds p' m \<and> same_pages p p' \<and> r \<noteq> Inl Panicked \<and> (r = Inr () \<longrightarrow> i < pg_pages p \<and> map_of (pg_cache p') i \<noteq> None)"
proof (cases "i \<ge> pg_pages p \<or> map_of (pg_cache p) i \<noteq> None")
  case True
  with r wf h show ?thesis by (auto simp: ensure_loaded_def same_pages_def split: if_splits)
next
  case False
  then have i: "i < pg_pages p" "map_of (pg_cache p) i = None" by auto
  obtain r1 p1 where e: "evict_if_needed p = (r1, p1)" by force
  note ok1 = evict_ok [OF wf h e, of i]
  show ?thesis
  proof (cases r1)
    case (Inl x)
    with r i e have "r = Inl x" "p' = p1" by (auto simp: ensure_loaded_def)
    with ok1 Inl show ?thesis by auto
  next
    case r1: (Inr u)
    obtain r2 f2 where s: "file_seek (pg_file p1) = (r2, f2)" by force
    note f2 = file_ops_frame(1) [OF s]
    obtain r3 f3 where rd: "file_read_exact (i * PAGE_SIZE) PAGE_SIZE f2 = (r3, f3)" by force
    note f3 = file_ops_frame(2) [OF rd]
    have wf1: "pager_wf p1" "holds p1 m" using ok1 by auto
    have wf3: "pager_wf (p1\<lparr>pg_file := f\<rparr>)" "holds (p1\<lparr>pg_file := f\<rparr>) m" if "f = f2 \<or> f = f3" for f
      using pager_wf_file [OF wf1, of f] that f2 f3 by auto
    show ?thesis
    proof (cases "\<exists>bs. r2 = Inr () \<and> r3 = Inr bs")
      case False
      with r i e r1 s rd have "r = Inl x \<and> (p' = p1\<lparr>pg_file := f2\<rparr> \<and> r2 = Inl x \<or> p' = p1\<lparr>pg_file := f3\<rparr> \<and> r3 = Inl x)"
        if "r = Inl x" for x using that by (cases r2; cases r3) (auto simp: ensure_loaded_def on_file_def and_then_def)
      moreover have "\<exists>x. r = Inl x" using r i e r1 s rd False by (cases r2; cases r3) (auto simp: ensure_loaded_def on_file_def and_then_def)
      ultimately show ?thesis using wf3 ok1 f2 f3 by (auto simp: same_pages_def)
    next
      case True
      then obtain bs where b: "r2 = Inr ()" "r3 = Inr bs" by blast
      let ?c = "\<lparr>cp_bytes = bs, cp_dirty = False, cp_touched = pg_clock p1\<rparr>"
      have p': "r = Inr ()" "p' = p1\<lparr>pg_file := f3, pg_cache := cache_insert i ?c (pg_cache p1)\<rparr>"
        using r i e r1 s rd b by (auto simp: ensure_loaded_def on_file_def and_then_def)
      have st: "stored (pf_bytes f3) i bs" using f2 f3 b by (auto simp: stored_def algebra_simps)
      have "pager_wf p'" unfolding p'
        using cache_insert_ok [of "p1\<lparr>pg_file := f3\<rparr>" i ?c "pg_clock p1"] wf3 ok1 r1 i st
        by (simp add: same_pages_def stored_nth)
      moreover have "holds p' m"
        by (rule holds_transfer [OF wf3(2) [of f3]]) (use st ok1 i in \<open>auto simp: p' has_page_def stored_def\<close>)
      ultimately show ?thesis using p' ok1 i by (auto simp: same_pages_def)
    qed
  qed
qed

lemma pager_read_ok:
  assumes wf: "pager_wf p" and h: "holds p m" and r: "pager_read i p = (r, p')"
  shows "pager_wf p' \<and> holds p' m \<and> r \<noteq> Inl Panicked \<and> pg_pages p' = pg_pages p \<and> pg_capacity p' = pg_capacity p
    \<and> (\<forall>b. r = Inr b \<longrightarrow> i < pg_pages p \<and> length b = PAGE_SIZE \<and> (i \<in> dom m \<longrightarrow> m i = Some b))"
proof -
  obtain r1 p1 where e: "ensure_loaded i p = (r1, p1)" by force
  note ok = ensure_loaded_ok [OF wf h e]
  show ?thesis
  proof (cases r1)
    case (Inl x)
    with r e have "r = Inl x" "p' = p1" by (auto simp: pager_read_def)
    with ok Inl show ?thesis by (auto simp: same_pages_def)
  next
    case (Inr u)
    then obtain c where c: "map_of (pg_cache p1) i = Some c" using ok by auto
    let ?c = "c\<lparr>cp_touched := pg_clock p1 + 1\<rparr>"
    have p': "r = Inr (cp_bytes c)" "p' = p1\<lparr>pg_clock := pg_clock p1 + 1, pg_cache := cache_insert i ?c (pg_cache p1)\<rparr>"
      using r e Inr c by (auto simp: pager_read_def Let_def)
    have wf1: "pager_wf p1" "holds p1 m" using ok by auto
    have "entry_ok (pf_bytes (pg_file p1)) (pg_pages p1) (pg_clock p1) i c" by (rule pager_wf_entry [OF wf1(1) c])
    then have ci: "i < pg_pages p1" "length (cp_bytes c) = PAGE_SIZE" "\<not> cp_dirty c \<longrightarrow> stored (pf_bytes (pg_file p1)) i (cp_bytes c)"
      by (auto simp: entry_ok_def)
    have "pager_wf p'" unfolding p' using ci c by (intro cache_insert_ok [OF wf1(1)]) auto
    moreover have "holds p' m" by (rule holds_transfer [OF wf1(2)]) (use c in \<open>auto simp: p' has_page_def\<close>)
    moreover have "m i = Some (cp_bytes c)" if "i \<in> dom m" using that wf1(2) c unfolding holds_def has_page_def by fastforce
    ultimately show ?thesis using p' ok ci by (auto simp: same_pages_def)
  qed
qed

lemma more_pages:
  assumes "pager_wf p" and "holds p m" and "pg_pages p \<le> n"
  shows "pager_wf (p\<lparr>pg_pages := n\<rparr>)" and "holds (p\<lparr>pg_pages := n\<rparr>) m"
proof -
  have "pg_pages p * PAGE_SIZE \<le> n * PAGE_SIZE" using assms(3) by (rule mult_le_mono1)
  then have "length (pf_bytes (pg_file p)) \<le> n * PAGE_SIZE" using assms(1) unfolding pager_wf_def by linarith
  then show "pager_wf (p\<lparr>pg_pages := n\<rparr>)"
    using assms(1) entry_ok_mono [OF pager_wf_entry [OF assms(1)] assms(3) order_refl] unfolding pager_wf_def
    by (simp del: map_of_eq_Some_iff)
  show "holds (p\<lparr>pg_pages := n\<rparr>) m" by (rule holds_transfer [OF assms(2)]) (use assms(3) in \<open>auto simp: has_page_def\<close>)
qed

lemma pager_write_ok:
  assumes wf: "pager_wf p" and h: "holds p m" and b: "length bs = PAGE_SIZE" and r: "pager_write i bs p = (r, p')"
    and m': "m' = (if r = Inr () then m(i \<mapsto> bs) else m)"
  shows "pager_wf p' \<and> holds p' m' \<and> r \<noteq> Inl Panicked \<and> pg_capacity p' = pg_capacity p \<and> (i < pg_pages p \<longrightarrow> pg_pages p' = pg_pages p)
    \<and> (i = pg_pages p \<longrightarrow> pg_pages p' = pg_pages p + 1) \<and> (r = Inr () \<longrightarrow> i \<le> pg_pages p)"
proof (cases "i > pg_pages p")
  case True
  with r wf h show ?thesis by (auto simp: pager_write_def m')
next
  case False
  define q where "q = (if i = pg_pages p then p\<lparr>pg_pages := pg_pages p + 1\<rparr> else p)"
  have q: "pager_wf q" "holds q m" "i < pg_pages q" "pg_capacity q = pg_capacity p" "i < pg_pages p \<longrightarrow> pg_pages q = pg_pages p"
    "i = pg_pages p \<longrightarrow> pg_pages q = pg_pages p + 1"
    using more_pages [OF wf h, of "pg_pages p + 1"] wf h False by (auto simp: q_def)
  obtain r1 p1 where e: "(if map_of (pg_cache q) i = None then evict_if_needed else (\<lambda>p. (Inr (), p))) q = (r1, p1)" by force
  have ok: "pager_wf p1 \<and> holds p1 m \<and> same_pages q p1 \<and> r1 \<noteq> Inl Panicked"
    and room: "r1 = Inr () \<longrightarrow> length (pg_cache p1) < pg_capacity p1 \<or> map_of (pg_cache p1) i \<noteq> None"
    using e evict_ok [OF q(1,2), of r1 p1] q by (auto simp: same_pages_def split: if_splits)
  let ?c = "\<lparr>cp_bytes = bs, cp_dirty = True, cp_touched = pg_clock p1 + 1\<rparr>"
  have rr: "(r, p') = (case r1 of Inl x \<Rightarrow> (Inl x, p1)
     | Inr _ \<Rightarrow> (Inr (), p1\<lparr>pg_clock := pg_clock p1 + 1, pg_cache := cache_insert i ?c (pg_cache p1)\<rparr>))"
    using r False e unfolding pager_write_def q_def [symmetric] Let_def
    by (cases r1) (auto simp: and_then_def)
  show ?thesis
  proof (cases r1)
    case (Inl x)
    with rr ok q m' show ?thesis by (auto simp: same_pages_def)
  next
    case (Inr u)
    then have p': "r = Inr ()" "p' = p1\<lparr>pg_clock := pg_clock p1 + 1, pg_cache := cache_insert i ?c (pg_cache p1)\<rparr>" using rr by auto
    have "pager_wf p'" unfolding p' using ok room Inr q b by (intro cache_insert_ok) (auto simp: same_pages_def)
    moreover have "holds p' (m(i \<mapsto> bs))"
    proof (rule holdsI)
      fix j b assume j: "(m(i \<mapsto> bs)) j = Some b"
      then have "has_page p1 j b" if "j \<noteq> i" using that ok by (auto simp: holds_def)
      then show "has_page p' j b" using j ok q by (cases "j = i") (auto simp: p' has_page_def same_pages_def)
    qed
    ultimately show ?thesis using p' ok q False by (auto simp: same_pages_def m')
  qed
qed

lemma allocate_ok:
  assumes wf: "pager_wf p" and h: "holds p m" and r: "allocate p = (r, p')"
  shows "pager_wf p' \<and> holds p' m \<and> r \<noteq> Inl Panicked \<and> pg_capacity p' = pg_capacity p \<and> pg_pages p' = pg_pages p + 1
    \<and> (\<forall>i. r = Inr i \<longrightarrow> i = pg_pages p \<and> (m i = None \<longrightarrow> holds p' (m(i \<mapsto> replicate PAGE_SIZE 0))))"
proof -
  let ?z = "replicate PAGE_SIZE (0 :: u8)" and ?q = "p\<lparr>pg_pages := pg_pages p + 1\<rparr>"
  have q: "pager_wf ?q" "holds ?q m" using more_pages [OF wf h, of "pg_pages p + 1"] by auto
  obtain r1 p1 where w: "pager_write (pg_pages p) ?z ?q = (r1, p1)" by force
  have n: "m (pg_pages p) = None" using h by (cases "m (pg_pages p)") (auto simp: holds_def has_page_def)
  have "holds p1 m" if "holds p1 (m(pg_pages p \<mapsto> ?z))" 
    using that n unfolding holds_def by (metis fun_upd_other option.distinct(1))
  then have "pager_wf p1 \<and> holds p1 m \<and> r1 \<noteq> Inl Panicked \<and> pg_capacity p1 = pg_capacity p \<and> pg_pages p1 = pg_pages p + 1"
    and "r1 = Inr () \<longrightarrow> holds p1 (m(pg_pages p \<mapsto> ?z))"
    using pager_write_ok [OF q _ w refl] by (auto split: if_splits)
  then show ?thesis using r w by (cases r1) (auto simp: allocate_def Let_def and_then_def)
qed

lemma flush_list_ok:
  assumes "pager_wf p" and "holds p m" and "flush_list is p = (r, p')"
  shows "pager_wf p' \<and> holds p' m \<and> same_pages p p' \<and> r \<noteq> Inl Panicked
    \<and> (r = Inr () \<longrightarrow> (\<forall>j c. map_of (pg_cache p') j = Some c \<and> cp_dirty c \<longrightarrow> j \<notin> set is \<and> map_of (pg_cache p) j = Some c))"
  using assms
proof (induction "is" arbitrary: p)
  case Nil
  then show ?case by (auto simp: same_pages_def)
next
  case (Cons i is')
  obtain r1 p1 where f: "flush_one i p = (r1, p1)" by force
  note ok = flush_one_ok [OF Cons.prems(1,2) f]
  show ?case
  proof (cases r1)
    case (Inl e)
    with Cons.prems(3) f have "r = Inl e" "p' = p1" by auto
    with ok Inl show ?thesis by auto
  next
    case (Inr u)
    with Cons.prems(3) f have fl: "flush_list is' p1 = (r, p')" by auto
    have IH: "pager_wf p' \<and> holds p' m \<and> same_pages p1 p' \<and> r \<noteq> Inl Panicked"
      "\<And>j c. r = Inr () \<Longrightarrow> map_of (pg_cache p') j = Some c \<Longrightarrow> cp_dirty c \<Longrightarrow> j \<notin> set is' \<and> map_of (pg_cache p1) j = Some c"
      using Cons.IH [OF _ _ fl] ok by blast+
    have "j \<notin> set (i # is') \<and> map_of (pg_cache p) j = Some c"
      if "r = Inr ()" "map_of (pg_cache p') j = Some c" "cp_dirty c" for j c
    proof -
      have j: "j \<notin> set is'" "map_of (pg_cache p1) j = Some c" using IH(2) [OF that] by auto
      have up: "map_of (pg_cache p1) = (map_of (pg_cache p))(i := map_option (cp_dirty_update (\<lambda>_. False)) (map_of (pg_cache p) i))"
        using ok Inr by simp
      have "j \<noteq> i" using j(2) that(3) unfolding up by (cases "map_of (pg_cache p) i") auto
      then show ?thesis using j unfolding up by simp
    qed
    with IH(1) ok show ?thesis unfolding same_pages_def by auto
  qed
qed

lemma flush_ok:
  assumes wf: "pager_wf p" and h: "holds p m" and o: "\<And>xs. set (order xs) = set xs" and r: "flush order p = (r, p')"
  shows "pager_wf p' \<and> holds p' m \<and> same_pages p p' \<and> r \<noteq> Inl Panicked
    \<and> (r = Inr () \<longrightarrow> pf_synced (pg_file p') \<and> length (pf_bytes (pg_file p')) = pg_pages p * PAGE_SIZE
        \<and> (\<forall>i b. m i = Some b \<longrightarrow> stored (pf_bytes (pg_file p')) i b))"
proof -
  let ?dirty = "map fst (filter (\<lambda>(_, c). cp_dirty c) (pg_cache p))"
  obtain r1 p1 where f: "flush_list (order ?dirty) p = (r1, p1)" by force
  note ok = flush_list_ok [OF wf h f]
  show ?thesis
  proof (cases r1)
    case (Inl e)
    with r f have "r = Inl e" "p' = p1" by (auto simp: flush_def)
    with ok Inl show ?thesis by auto
  next
    case (Inr u)
    have clean: "\<not> cp_dirty c" if "map_of (pg_cache p1) j = Some c" for j c
    proof
      assume "cp_dirty c"
      with that ok Inr have "j \<notin> set ?dirty" "map_of (pg_cache p) j = Some c" using o by auto
      with map_of_SomeD [OF this(2)] \<open>cp_dirty c\<close> show False by force
    qed
    have e1: "entry_ok (pf_bytes (pg_file p1)) (pg_pages p1) (pg_clock p1) j c" if "map_of (pg_cache p1) j = Some c" for j c
      using pager_wf_entry [OF conjunct1 [OF ok] that] .
    have all: "stored (pf_bytes (pg_file p1)) i b" "i < pg_pages p1" if "m i = Some b" for i b
    proof -
      have "has_page p1 i b" using ok that by (auto simp: holds_def)
      then show "stored (pf_bytes (pg_file p1)) i b" "i < pg_pages p1"
        using clean e1 by (auto simp: has_page_def entry_ok_def)
    qed
    obtain r2 f2 where sl: "file_set_len (pg_pages p1 * PAGE_SIZE) (pg_file p1) = (r2, f2)" by force
    obtain r3 f3 where sy: "file_sync_all f2 = (r3, f3)" by force
    have fl: "length (pf_bytes (pg_file p1)) \<le> pg_pages p1 * PAGE_SIZE" using ok by (simp add: pager_wf_def)
    have st: "stored (pf_bytes g) i b" if "stored (pf_bytes (pg_file p1)) i b" "i < pg_pages p1" "g = f2 \<or> g = f3" for g i b
    proof -
      have "(i + 1) * PAGE_SIZE \<le> pg_pages p1 * PAGE_SIZE" using that(2) by (intro mult_le_mono1) simp
      then show ?thesis using file_ops_frame(4) [OF sl] file_ops_frame(3) [OF sy] that stored_set_len [OF that(1)] by metis
    qed
    have "length (pf_bytes g) \<le> pg_pages p1 * PAGE_SIZE" if "g = f2 \<or> g = f3" for g
      using file_ops_frame(4) [OF sl] file_ops_frame(3) [OF sy] that fl by auto
    moreover have "entry_ok (pf_bytes g) (pg_pages p1) (pg_clock p1) j c" if "map_of (pg_cache p1) j = Some c" "g = f2 \<or> g = f3" for g j c
      using e1 [OF that(1)] st [OF _ _ that(2)] by (auto simp: entry_ok_def)
    ultimately have g: "pager_wf (p1\<lparr>pg_file := g\<rparr>)" if "g = f2 \<or> g = f3" for g
      using ok that unfolding pager_wf_def by (simp del: map_of_eq_Some_iff)
    have h2: "holds (p1\<lparr>pg_file := g\<rparr>) m" if "g = f2 \<or> g = f3" for g
      by (rule holds_transfer [of p1]) (use ok st that in \<open>auto simp: has_page_def\<close>)
    have eq: "(r, p') = (case r2 of Inl e \<Rightarrow> (Inl e, p1\<lparr>pg_file := f2\<rparr>) | Inr _ \<Rightarrow> (r3, p1\<lparr>pg_file := f3\<rparr>))"
      using r f Inr sl sy by (cases r2) (auto simp: flush_def on_file_def and_then_def)
    have "length (pf_bytes f3) = pg_pages p1 * PAGE_SIZE" if "r2 = Inr ()"
      using file_ops_frame(4) [OF sl] file_ops_frame(3) [OF sy] that fl by auto
    moreover have "stored (pf_bytes f3) i b" if "m i = Some b" for i b using st [OF all [OF that]] by blast
    moreover have "r2 \<noteq> Inl Panicked" "r3 \<noteq> Inl Panicked" "r3 = Inr () \<longrightarrow> pf_synced f3"
      using file_ops_frame(4) [OF sl] file_ops_frame(3) [OF sy] by auto
    ultimately show ?thesis
      using eq conjunct1 [OF conjunct2 [OF conjunct2 [OF ok]]] g [of f2] g [of f3] h2 [of f2] h2 [of f3]
      by (cases r2) (auto simp: same_pages_def)
  qed
qed

section \<open>Progress without faults\<close>

lemma holds_single [simp]: "holds p [i \<mapsto> b] \<longleftrightarrow> has_page p i b"
  by (auto simp: holds_def)

definition no_faults :: "pager \<Rightarrow> bool" where
  "no_faults p \<longleftrightarrow> pf_faults (pg_file p) = []"

lemma flush_one_succeeds: "no_faults p \<Longrightarrow> \<exists>p'. flush_one i p = (Inr (), p') \<and> no_faults p'"
  by (auto simp: flush_one_def no_faults_def and_then_def on_file_def file_seek_def file_write_all_def file_outcome_def
      split: option.splits)

lemma evict_succeeds: "no_faults p \<Longrightarrow> pager_wf p \<Longrightarrow> \<exists>p'. evict_if_needed p = (Inr (), p') \<and> no_faults p'"
proof (cases "length (pg_cache p) < pg_capacity p")
  case False
  assume p: "no_faults p" "pager_wf p"
  with False obtain v c where v: "least_touched (pg_cache p) = Some (v, c)"
    using least_touched_None [of "pg_cache p"] by (cases "least_touched (pg_cache p)") (auto simp: pager_wf_def)
  obtain p1 where "flush_one v p = (Inr (), p1)" "no_faults p1" using flush_one_succeeds [OF p(1)] by blast
  with v False show ?thesis by (auto simp: evict_if_needed_def no_faults_def and_then_def)
qed (simp add: evict_if_needed_def)

lemma ensure_loaded_succeeds:
  assumes "no_faults p" and wf: "pager_wf p" and i: "has_page p i b"
  shows "\<exists>p'. ensure_loaded i p = (Inr (), p') \<and> no_faults p'"
proof (cases "map_of (pg_cache p) i")
  case (Some c)
  with assms show ?thesis by (auto simp: ensure_loaded_def has_page_def)
next
  case None
  obtain p1 where e: "evict_if_needed p = (Inr (), p1)" "no_faults p1" using evict_succeeds [OF assms(1,2)] by blast
  have "holds p [i \<mapsto> b]" using i by simp
  from evict_ok [OF wf this e(1), of i] None have "stored (pf_bytes (pg_file p1)) i b" by (auto simp: has_page_def)
  then have "i * PAGE_SIZE + PAGE_SIZE \<le> length (pf_bytes (pg_file p1))" by (simp add: stored_def algebra_simps)
  with e None i show ?thesis
    by (auto simp: ensure_loaded_def has_page_def no_faults_def and_then_def on_file_def file_seek_def file_read_exact_def file_outcome_def)
qed

lemma pager_read_succeeds:
  assumes "no_faults p" and wf: "pager_wf p" and i: "has_page p i b"
  shows "\<exists>p'. pager_read i p = (Inr b, p') \<and> no_faults p'"
proof -
  obtain p1 where e: "ensure_loaded i p = (Inr (), p1)" "no_faults p1" using ensure_loaded_succeeds [OF assms] by blast
  have "holds p [i \<mapsto> b]" using i by simp
  from ensure_loaded_ok [OF wf this e(1)] obtain c where "map_of (pg_cache p1) i = Some c" "cp_bytes c = b"
    by (auto simp: has_page_def)
  with e show ?thesis by (auto simp: pager_read_def Let_def no_faults_def)
qed

lemma pager_write_succeeds:
  assumes "no_faults p" and wf: "pager_wf p" and "i \<le> pg_pages p"
  shows "\<exists>p'. pager_write i bs p = (Inr (), p') \<and> no_faults p'"
proof -
  have "holds p Map.empty" by (simp add: holds_def)
  from more_pages(1) [OF wf this, of "pg_pages p + 1"] wf
  have "pager_wf (if i = pg_pages p then p\<lparr>pg_pages := pg_pages p + 1\<rparr> else p)"
    and "no_faults (if i = pg_pages p then p\<lparr>pg_pages := pg_pages p + 1\<rparr> else p)" using assms(1) by (auto simp: no_faults_def)
  from evict_succeeds [OF this(2,1)] this(2) assms(3) show ?thesis
    unfolding pager_write_def Let_def by (auto simp: and_then_def no_faults_def)
qed

lemma allocate_succeeds:
  assumes "no_faults p" and "pager_wf p"
  shows "\<exists>p'. allocate p = (Inr (pg_pages p), p') \<and> no_faults p'"
proof -
  have "holds p Map.empty" by (simp add: holds_def)
  from more_pages(1) [OF assms(2) this, of "pg_pages p + 1"] assms(1) show ?thesis
    using pager_write_succeeds [of "p\<lparr>pg_pages := pg_pages p + 1\<rparr>" "pg_pages p" "replicate PAGE_SIZE 0"]
    by (auto simp: allocate_def Let_def and_then_def no_faults_def)
qed

lemma flush_list_succeeds: "no_faults p \<Longrightarrow> \<exists>p'. flush_list is p = (Inr (), p') \<and> no_faults p'"
proof (induction "is" arbitrary: p)
  case (Cons i is')
  obtain p1 where "flush_one i p = (Inr (), p1)" "no_faults p1" using flush_one_succeeds [OF Cons.prems] by blast
  with Cons.IH [of p1] show ?case by (auto simp: and_then_def)
qed simp

lemma flush_succeeds:
  assumes "no_faults p"
  shows "\<exists>p'. flush order p = (Inr (), p') \<and> no_faults p'"
proof -
  obtain p1 where "flush_list (order (map fst (filter (\<lambda>(_, c). cp_dirty c) (pg_cache p)))) p = (Inr (), p1)" "no_faults p1"
    using flush_list_succeeds [OF assms] by blast
  then show ?thesis
    by (auto simp: flush_def no_faults_def and_then_def on_file_def file_set_len_def file_sync_all_def file_outcome_def)
qed

section \<open>Opening\<close>

definition file_pages :: "bytes \<Rightarrow> page_id \<rightharpoonup> bytes" where
  "file_pages bs i = (if (i + 1) * PAGE_SIZE \<le> length bs then Some (take PAGE_SIZE (drop (i * PAGE_SIZE) bs)) else None)"

lemma file_pages_stored: "file_pages bs i = Some b \<longleftrightarrow> stored bs i b"
  by (auto simp: file_pages_def stored_def)

lemma pager_open_ok:
  assumes "pager_open_inner file faults capacity trunc = Inr p"
  shows "pager_wf p \<and> holds p (file_pages (pf_bytes (pg_file p))) \<and> pg_pages p * PAGE_SIZE = length (pf_bytes (pg_file p))
    \<and> pf_bytes (pg_file p) = (case file of None \<Rightarrow> [] | Some bs \<Rightarrow> if trunc then [] else bs) \<and> pf_faults (pg_file p) = faults
    \<and> pg_capacity p = capacity"
proof -
  let ?bs = "case file of None \<Rightarrow> [] | Some bs \<Rightarrow> if trunc then [] else bs"
  from assms have c: "0 < capacity" "length ?bs mod PAGE_SIZE = 0"
    and p: "p = \<lparr>pg_file = \<lparr>pf_bytes = ?bs, pf_synced = \<not> trunc, pf_faults = faults\<rparr>, pg_capacity = capacity, pg_clock = 0,
               pg_pages = length ?bs div PAGE_SIZE, pg_cache = []\<rparr>"
    by (auto simp: pager_open_inner_def Let_def split: if_splits)
  have l: "length ?bs div PAGE_SIZE * PAGE_SIZE = length ?bs" using c(2) by (simp add: mod_0_imp_dvd)
  have "i < length ?bs div PAGE_SIZE" if "stored ?bs i b" for i b
  proof (rule ccontr)
    assume "\<not> i < length ?bs div PAGE_SIZE"
    then have "length ?bs div PAGE_SIZE * PAGE_SIZE \<le> i * PAGE_SIZE" by (intro mult_le_mono1) simp
    with that l show False by (simp add: stored_def) (simp add: PAGE_SIZE_def)
  qed
  then have "holds p (file_pages ?bs)" by (auto simp: holds_def has_page_def p file_pages_stored)
  then show ?thesis using c l by (simp add: p pager_wf_def)
qed

section \<open>Runs of the pager\<close>

text \<open>Steps of a pager together with the pages written so far; every operation may fail.\<close>

inductive pager_step :: "pager \<times> (page_id \<rightharpoonup> bytes) \<Rightarrow> pager \<times> (page_id \<rightharpoonup> bytes) \<Rightarrow> bool" where
  ps_read: "pager_read i p = (r, p') \<Longrightarrow> pager_step (p, m) (p', m)"
| ps_write: "pager_write i bs p = (r, p') \<Longrightarrow> length bs = PAGE_SIZE \<Longrightarrow>
    pager_step (p, m) (p', if r = Inr () then m(i \<mapsto> bs) else m)"
| ps_allocate: "allocate p = (r, p') \<Longrightarrow>
    pager_step (p, m) (p', case r of Inl _ \<Rightarrow> m | Inr i \<Rightarrow> m(i \<mapsto> replicate PAGE_SIZE 0))"
| ps_flush: "flush order p = (r, p') \<Longrightarrow> (\<And>xs. set (order xs) = set xs) \<Longrightarrow> pager_step (p, m) (p', m)"

lemma pager_step_ok: "pager_step x y \<Longrightarrow> pager_wf (fst x) \<and> holds (fst x) (snd x) \<Longrightarrow>
    pager_wf (fst y) \<and> holds (fst y) (snd y) \<and> pg_capacity (fst y) = pg_capacity (fst x)"
proof (induction rule: pager_step.induct)
  case (ps_read i p r p' m)
  then show ?case using pager_read_ok [of p m i r p'] by auto
next
  case (ps_write i bs p r p' m)
  then show ?case using pager_write_ok [of p m bs i r p'] by auto
next
  case (ps_allocate p r p' m)
  have "m (pg_pages p) = None" if "holds p m" using that by (cases "m (pg_pages p)") (auto simp: holds_def has_page_def)
  then show ?case using ps_allocate allocate_ok [of p m r p'] by (auto split: sum.splits)
next
  case (ps_flush order p r p' m)
  then show ?case using flush_ok [of p m order r p'] by (auto simp: same_pages_def)
qed

lemma pager_steps_ok:
  "pager_step\<^sup>*\<^sup>* x y \<Longrightarrow> pager_wf (fst x) \<and> holds (fst x) (snd x) \<Longrightarrow>
    pager_wf (fst y) \<and> holds (fst y) (snd y) \<and> pg_capacity (fst y) = pg_capacity (fst x)"
  by (induction rule: rtranclp_induct) (use pager_step_ok in fastforce)+

section \<open>Properties\<close>

text \<open>
  C14. The cache is transparent, also when reads, writes and syncs fail at any point: after any sequence of
  operations, reading a page returns an error or exactly the bytes last written to it (or found in the file), it
  never panics, it succeeds when the operating system reports no error, and the cache stays within its capacity.
\<close>

theorem pager_read_returns_last_write:
  assumes "pager_open file faults capacity = Inr p0"
    and "pager_step\<^sup>*\<^sup>* (p0, file_pages (pf_bytes (pg_file p0))) (p, m)" and "m i = Some b"
  shows "length (pg_cache p) \<le> capacity \<and> fst (pager_read i p) \<noteq> Inl Panicked
    \<and> (\<forall>b'. fst (pager_read i p) = Inr b' \<longrightarrow> b' = b)
    \<and> (pf_faults (pg_file p) = [] \<longrightarrow> fst (pager_read i p) = Inr b)"
proof -
  have o: "pager_wf p0 \<and> holds p0 (file_pages (pf_bytes (pg_file p0)))" "pg_capacity p0 = capacity"
    using pager_open_ok [OF assms(1) [unfolded pager_open_def]] by auto
  from pager_steps_ok [OF assms(2)] o have wf: "pager_wf p" "holds p m" "pg_capacity p = capacity" by auto
  obtain r p' where r: "pager_read i p = (r, p')" by (cases "pager_read i p")
  have "has_page p i b" using wf(2) assms(3) by (simp add: holds_def)
  from pager_read_succeeds [OF _ wf(1) this] r have "pf_faults (pg_file p) = [] \<longrightarrow> r = Inr b" by (auto simp: no_faults_def)
  moreover have "length (pg_cache p) \<le> capacity" using wf(1,3) by (simp add: pager_wf_def)
  moreover have "r \<noteq> Inl Panicked" "\<forall>b'. r = Inr b' \<longrightarrow> b' = b" 
    using pager_read_ok [OF wf(1,2) r] assms(3) by (simp_all add: domI)
  ultimately show ?thesis unfolding r fst_conv by blast
qed

definition fresh_pager :: pager where
  "fresh_pager = \<lparr>pg_file = \<lparr>pf_bytes = [], pf_synced = True, pf_faults = []\<rparr>, pg_capacity = 1, pg_clock = 0, pg_pages = 0, pg_cache = []\<rparr>"

definition two_writes :: pager where
  "two_writes = snd (pager_write 1 (replicate PAGE_SIZE 9) (snd (pager_write 0 (replicate PAGE_SIZE 7) fresh_pager)))"

lemma fresh_pager_open: "pager_open None [] 1 = Inr fresh_pager"
  by (simp add: pager_open_def pager_open_inner_def fresh_pager_def)

lemma two_writes_run:
  "pager_step\<^sup>*\<^sup>* (fresh_pager, file_pages (pf_bytes (pg_file fresh_pager)))
    (two_writes, (file_pages (pf_bytes (pg_file fresh_pager)))(0 \<mapsto> replicate PAGE_SIZE 7, 1 \<mapsto> replicate PAGE_SIZE 9))"
  and two_writes_faults: "pf_faults (pg_file two_writes) = []"
proof -
  let ?a = "replicate PAGE_SIZE 7 :: bytes" and ?b = "replicate PAGE_SIZE 9 :: bytes" and ?m = "file_pages (pf_bytes (pg_file fresh_pager))"
  have wf: "pager_wf fresh_pager" "holds fresh_pager ?m" "no_faults fresh_pager"
    using pager_open_ok [OF fresh_pager_open [unfolded pager_open_def]] by (auto simp: no_faults_def)
  obtain p1 where 1: "pager_write 0 ?a fresh_pager = (Inr (), p1)" "no_faults p1"
    using pager_write_succeeds [OF wf(3,1)] by (auto simp: fresh_pager_def)
  from pager_write_ok [OF wf(1,2) _ 1(1) refl] have wf1: "pager_wf p1" "pg_pages p1 = 1" by (auto simp: fresh_pager_def)
  obtain p2 where 2: "pager_write 1 ?b p1 = (Inr (), p2)" "no_faults p2"
    using pager_write_succeeds [OF 1(2) wf1(1)] wf1(2) by auto
  have t: "two_writes = p2" using 1 2 by (simp add: two_writes_def)
  have "pager_step (fresh_pager, ?m) (p1, ?m(0 \<mapsto> ?a))" "pager_step (p1, ?m(0 \<mapsto> ?a)) (two_writes, ?m(0 \<mapsto> ?a, 1 \<mapsto> ?b))"
    using ps_write [OF 1(1), of ?m] ps_write [OF 2(1), of "?m(0 \<mapsto> ?a)"] by (simp_all add: t)
  then show "pager_step\<^sup>*\<^sup>* (fresh_pager, ?m) (two_writes, ?m(0 \<mapsto> ?a, 1 \<mapsto> ?b))" by (meson converse_rtranclp_into_rtranclp r_into_rtranclp)
  show "pf_faults (pg_file two_writes) = []" using 2(2) by (simp add: t no_faults_def)
qed

theorem pager_read_returns_last_write_witness: "fst (pager_read 0 two_writes) = Inr (replicate PAGE_SIZE 7)"
proof -
  have "((file_pages (pf_bytes (pg_file fresh_pager)))(0 \<mapsto> replicate PAGE_SIZE 7, 1 \<mapsto> replicate PAGE_SIZE 9)) 0 = Some (replicate PAGE_SIZE 7)"
    by simp
  from pager_read_returns_last_write [OF fresh_pager_open two_writes_run this] two_writes_faults show ?thesis by blast
qed

text \<open>
  C15. A successful flush is durable and complete: whatever happened before, and in whichever order the hash map
  yields the dirty pages, the file is then synced, and a pager opened on its bytes holds every page that was written.
\<close>

theorem flush_makes_pages_durable:
  assumes "pager_open file faults capacity = Inr p0"
    and "pager_step\<^sup>*\<^sup>* (p0, file_pages (pf_bytes (pg_file p0))) (p, m)"
    and "flush order p = (Inr (), p')" and "\<And>xs. set (order xs) = set xs" and "0 < capacity'"
  shows "pf_synced (pg_file p') \<and> (\<exists>q. pager_open (Some (pf_bytes (pg_file p'))) faults' capacity' = Inr q
    \<and> pg_pages q = pg_pages p \<and> (\<forall>i b. m i = Some b \<longrightarrow> file_pages (pf_bytes (pg_file q)) i = Some b))"
proof -
  have "pager_wf p0 \<and> holds p0 (file_pages (pf_bytes (pg_file p0)))"
    using pager_open_ok [OF assms(1) [unfolded pager_open_def]] by auto
  from pager_steps_ok [OF assms(2)] this have "pager_wf p" "holds p m" by auto
  from flush_ok [OF this assms(4,3)] have f: "pf_synced (pg_file p')" "length (pf_bytes (pg_file p')) = pg_pages p * PAGE_SIZE"
    "\<And>i b. m i = Some b \<Longrightarrow> stored (pf_bytes (pg_file p')) i b" by auto
  then show ?thesis using assms(5) by (auto simp: pager_open_def pager_open_inner_def file_pages_stored)
qed

theorem flush_makes_pages_durable_witness:
  "\<exists>p'. flush rev two_writes = (Inr (), p') \<and> pf_synced (pg_file p') \<and> file_pages (pf_bytes (pg_file p')) 0 = Some (replicate PAGE_SIZE 7)"
proof -
  obtain p' where f: "flush rev two_writes = (Inr (), p')"
    using flush_succeeds [of two_writes rev] two_writes_faults by (auto simp: no_faults_def)
  from flush_makes_pages_durable [OF fresh_pager_open two_writes_run f, of 1 "[]"] f
  obtain q where "pf_synced (pg_file p')" "pager_open (Some (pf_bytes (pg_file p'))) [] 1 = Inr q"
    "file_pages (pf_bytes (pg_file q)) 0 = Some (replicate PAGE_SIZE 7)" by auto
  with f show ?thesis by (auto simp: pager_open_def pager_open_inner_def Let_def split: if_splits)
qed

end
