(* ===== verification/BTree_Snapshot.thy ===== *)
theory BTree_Snapshot
  imports BTree Pager
begin

text \<open>
  \<open>src/src/btree.rs\<close>, the persistent form of the index: \<open>save\<close> writes every node to a page of a temporary file through
  the pager and publishes it by renaming, \<open>load\<close> reads the snapshot or its backup. The directory is the contents of
  the three files \<open>path\<close>, \<open>path.bak\<close> and \<open>path.tmp\<close> (\<open>None\<close> when a file does not exist) with the outcomes of the coming
  calls; the publication modelled is the one of systems other than Windows.
\<close>

section \<open>Files\<close>

record snapshot_fs =
  fs_main :: "bytes option"
  fs_bak :: "bytes option"
  fs_tmp :: "bytes option"
  fs_faults :: "io_outcome list"

definition fs_outcome :: "snapshot_fs \<Rightarrow> io_outcome \<times> snapshot_fs" where
  "fs_outcome d = (case fs_faults d of [] \<Rightarrow> (Done, d) | x # xs \<Rightarrow> (x, d\<lparr>fs_faults := xs\<rparr>))"

text \<open>\<open>let _ = fs::remove_file(..)\<close>: errors are ignored.\<close>

definition remove_tmp :: "snapshot_fs \<Rightarrow> snapshot_fs" where
  "remove_tmp d = (case fs_outcome d of (Done, d') \<Rightarrow> d'\<lparr>fs_tmp := None\<rparr> | (Fault n e, d') \<Rightarrow> d')"

definition remove_bak :: "snapshot_fs \<Rightarrow> snapshot_fs" where
  "remove_bak d = (case fs_outcome d of (Done, d') \<Rightarrow> d'\<lparr>fs_bak := None\<rparr> | (Fault n e, d') \<Rightarrow> d')"

text \<open>\<open>fs::rename\<close> replaces the target; it fails when the source does not exist.\<close>

definition missing_file :: io_error where
  "missing_file = IoError NotFound ''No such file or directory''"

definition rename_main_bak :: "(snapshot_fs, failure, unit) eff" where
  "rename_main_bak d = (case fs_outcome d of
     (Done, d') \<Rightarrow> if fs_main d' = None then (fail_with missing_file, d') else (Inr (), d'\<lparr>fs_bak := fs_main d', fs_main := None\<rparr>)
   | (Fault n e, d') \<Rightarrow> (fail_with e, d'))"

definition rename_bak_main :: "(snapshot_fs, failure, unit) eff" where
  "rename_bak_main d = (case fs_outcome d of
     (Done, d') \<Rightarrow> if fs_bak d' = None then (fail_with missing_file, d') else (Inr (), d'\<lparr>fs_main := fs_bak d', fs_bak := None\<rparr>)
   | (Fault n e, d') \<Rightarrow> (fail_with e, d'))"

definition rename_tmp_main :: "(snapshot_fs, failure, unit) eff" where
  "rename_tmp_main d = (case fs_outcome d of
     (Done, d') \<Rightarrow> if fs_tmp d' = None then (fail_with missing_file, d') else (Inr (), d'\<lparr>fs_main := fs_tmp d', fs_tmp := None\<rparr>)
   | (Fault n e, d') \<Rightarrow> (fail_with e, d'))"

text \<open>Opening the parent directory and syncing it is one call here; it is skipped for a path without a parent.\<close>

definition sync_parent :: "(snapshot_fs, failure, unit) eff" where
  "sync_parent d = (case fs_outcome d of (Done, d') \<Rightarrow> (Inr (), d') | (Fault n e, d') \<Rightarrow> (fail_with e, d'))"

definition publish_snapshot :: "(snapshot_fs, failure, unit) eff" where
  "publish_snapshot d =
    and_then (\<lambda>d. if fs_main d \<noteq> None then rename_main_bak d else (Inr (), d)) (\<lambda>_ d.
      case rename_tmp_main d of
        (Inl e, d) \<Rightarrow> (Inl e, if fs_bak d \<noteq> None then snd (rename_bak_main d) else d)
      | (Inr _, d) \<Rightarrow> (Inr (), remove_bak d)) (remove_bak d)"

section \<open>Cells\<close>

definition encode_pair :: "rstring \<Rightarrow> rstring \<Rightarrow> bytes may_fail" where
  "encode_pair key v =
    (if length key \<ge> 2 ^ 32 then fail_with (invalid_input ''btree: key too large'')
     else if length v \<ge> 2 ^ 32 then fail_with (invalid_input ''btree: value too large'')
     else Inr (le_bytes 4 (of_nat (length key) :: u32) @ le_bytes 4 (of_nat (length v) :: u32) @ key @ v))"

text \<open>The sums of two 32-bit lengths do not overflow a 64-bit \<open>usize\<close>.\<close>

definition decode_pair :: "bytes \<Rightarrow> (rstring \<times> rstring \<times> nat) may_fail" where
  "decode_pair cell =
    (if length cell < 8 then fail_with (invalid_data ''btree: short cell'')
     else rbind (slice 0 4 cell) (\<lambda>a. rbind (slice 4 8 cell) (\<lambda>b.
       let key_end = 8 + unat (of_le_bytes a :: u32); value_end = key_end + unat (of_le_bytes b :: u32) in
       if value_end > length cell then fail_with (invalid_data ''btree: value exceeds cell'')
       else rbind (slice 8 key_end cell) (\<lambda>key.
         if \<not> utf8_valid key then fail_with (invalid_data ''btree: key is not UTF-8'')
         else rbind (slice key_end value_end cell) (\<lambda>v.
         if \<not> utf8_valid v then fail_with (invalid_data ''btree: value is not UTF-8'')
         else Inr (key, v, value_end))))))"

definition bt_take_u64 :: "bytes \<Rightarrow> nat \<Rightarrow> u64 may_fail" where
  "bt_take_u64 bs offset =
    (if offset + 8 \<le> length bs then rbind (slice offset (offset + 8) bs) (\<lambda>s. Inr (of_le_bytes s))
     else fail_with (invalid_data ''btree: missing u64''))"

definition page_to_index :: "u64 \<Rightarrow> nat \<Rightarrow> nat may_fail" where
  "page_to_index page count =
    (if page = 0 \<or> unat page - 1 \<ge> count then fail_with (invalid_data ''btree: child page out of range'')
     else Inr (unat page - 1))"

section \<open>Saving\<close>

definition index_bytes :: "nat \<Rightarrow> bytes" where
  "index_bytes i = le_bytes 8 ((of_nat i :: u64) + 1)"

fun insert_items :: "node \<Rightarrow> nat \<Rightarrow> nat \<Rightarrow> slotted_page \<Rightarrow> slotted_page may_fail" where
  "insert_items n item 0 page = Inr page"
| "insert_items n item (Suc todo) page =
    rbind (elem_at (n_keys n) item) (\<lambda>k.
    rbind (elem_at (n_values n) item) (\<lambda>v.
    rbind (encode_pair k v) (\<lambda>cell.
    rbind (if leaf n then Inr cell else rbind (elem_at (n_children n) (item + 1)) (\<lambda>c. Inr (cell @ index_bytes c))) (\<lambda>cell.
    rbind (page_insert cell page) (insert_items n (item + 1) todo)))))"

definition node_page :: "node \<Rightarrow> bytes may_fail" where
  "node_page n =
    rbind (page_new (if leaf n then Leaf else Internal)) (\<lambda>page.
    rbind (if leaf n then Inr page else rbind (elem_at (n_children n) 0) (\<lambda>c. page_insert (index_bytes c) page)) (\<lambda>page.
    rbind (insert_items n 0 (length (n_keys n)) page) page_finish))"

definition meta_page :: "btree \<Rightarrow> bytes may_fail" where
  "meta_page t =
    rbind (page_new Meta) (\<lambda>meta.
    rbind (page_insert (le_bytes 8 ((of_nat (bt_root t) :: u64) + 1) @ le_bytes 8 (of_nat (length (bt_nodes t)) :: u64)
      @ le_bytes 8 (of_nat (bt_len t) :: u64)) meta) page_finish)"

definition write_page :: "page_id \<Rightarrow> bytes may_fail \<Rightarrow> (pager, failure, unit) eff" where
  "write_page i r p = (case r of Inl e \<Rightarrow> (Inl e, p) | Inr b \<Rightarrow> pager_write i b p)"

primrec allocate_nodes :: "node list \<Rightarrow> (pager, failure, unit) eff" where
  "allocate_nodes [] p = (Inr (), p)"
| "allocate_nodes (n # ns) p = and_then allocate (\<lambda>_. allocate_nodes ns) p"

fun save_nodes :: "nat \<Rightarrow> node list \<Rightarrow> (pager, failure, unit) eff" where
  "save_nodes index [] p = (Inr (), p)"
| "save_nodes index (n # ns) p = and_then (write_page (index + 1) (node_page n)) (\<lambda>_. save_nodes (index + 1) ns) p"

definition save_pages :: "btree \<Rightarrow> (pager, failure, unit) eff" where
  "save_pages t =
    and_then allocate (\<lambda>_.
    and_then (allocate_nodes (bt_nodes t)) (\<lambda>_.
    and_then (write_page 0 (meta_page t)) (\<lambda>_.
    save_nodes 0 (bt_nodes t))))"

text \<open>The pager is dropped on every way out, which flushes it once more.\<close>

definition write_temp :: "(page_id list \<Rightarrow> page_id list) \<Rightarrow> btree \<Rightarrow> (snapshot_fs, failure, unit) eff" where
  "write_temp order t d =
    (let d = remove_tmp d in
     case pager_create (fs_tmp d) (fs_faults d) 64 of
       Inl e \<Rightarrow> (Inl e, d)
     | Inr p \<Rightarrow>
       (case and_then (save_pages t) (\<lambda>_. flush order) p of (r, p) \<Rightarrow>
         let f = drop_pager order p in (r, d\<lparr>fs_tmp := Some (pf_bytes f), fs_faults := pf_faults f\<rparr>)))"

definition btree_save :: "(page_id list \<Rightarrow> page_id list) \<Rightarrow> btree \<Rightarrow> (snapshot_fs, failure, unit) eff" where
  "btree_save order t =
    and_then (write_temp order t) (\<lambda>_.
    and_then publish_snapshot (\<lambda>_. sync_parent))"

section \<open>Loading\<close>

fun decode_cells :: "page_kind \<Rightarrow> nat \<Rightarrow> bytes list \<Rightarrow> node \<Rightarrow> node may_fail" where
  "decode_cells kind count [] n = Inr n"
| "decode_cells kind count (cell # cells) n =
    rbind (decode_pair cell) (\<lambda>(key, v, used).
    let n = n\<lparr>n_keys := n_keys n @ [key], n_values := n_values n @ [v]\<rparr> in
    rbind
      (if kind = Internal
       then rbind (bt_take_u64 cell used) (\<lambda>page.
            rbind (page_to_index page count) (\<lambda>c.
            if used + 8 \<noteq> length cell then fail_with (invalid_data ''btree: trailing internal cell bytes'')
            else Inr (n\<lparr>n_children := n_children n @ [c]\<rparr>)))
       else if used \<noteq> length cell then fail_with (invalid_data ''btree: trailing leaf cell bytes'')
       else Inr n)
      (decode_cells kind count cells))"

definition decode_node :: "nat \<Rightarrow> slotted_page \<Rightarrow> node may_fail" where
  "decode_node count page =
    rbind (page_cells page) (\<lambda>cells.
    rbind (kind_of_page page) (\<lambda>kind.
    rbind
      (if kind = Internal
       then (case cells of
           [] \<Rightarrow> fail_with (invalid_data ''btree: internal page has no child'')
         | left # rest \<Rightarrow>
             if length left \<noteq> 8 then fail_with (invalid_data ''btree: malformed left child'')
             else rbind (bt_take_u64 left 0) (\<lambda>p.
                  rbind (page_to_index p count) (\<lambda>c. Inr (rest, default_node\<lparr>n_children := [c]\<rparr>))))
       else if kind \<noteq> Leaf then fail_with (invalid_data ''btree: unexpected node page kind'')
       else Inr (cells, default_node))
      (\<lambda>(rest, n).
        rbind (decode_cells kind count rest n) (\<lambda>n.
        if \<not> leaf n \<and> length (n_children n) \<noteq> length (n_keys n) + 1
        then fail_with (invalid_data ''btree: child/key count mismatch'') else Inr n))))"

fun load_nodes :: "nat \<Rightarrow> page_id \<Rightarrow> nat \<Rightarrow> pager \<Rightarrow> node list may_fail" where
  "load_nodes count page_id 0 p = Inr []"
| "load_nodes count page_id (Suc todo) p =
    (case pager_read page_id p of
       (Inl e, p) \<Rightarrow> Inl e
     | (Inr b, p) \<Rightarrow>
         rbind (page_from_bytes b) (\<lambda>page.
         rbind (decode_node count page) (\<lambda>n.
         rbind (load_nodes count (page_id + 1) todo p) (\<lambda>ns. Inr (n # ns)))))"

text \<open>A cycle among the nodes of a file makes \<open>entries\<close> recurse until the stack overflows.\<close>

definition load_exact :: "io_outcome list \<Rightarrow> bytes \<Rightarrow> btree may_fail" where
  "load_exact faults file =
    rbind (pager_open (Some file) faults 64) (\<lambda>p.
    if pg_pages p = 0 then Inr btree_new
    else (case pager_read 0 p of
       (Inl e, p) \<Rightarrow> Inl e
     | (Inr b, p) \<Rightarrow>
       rbind (page_from_bytes b) (\<lambda>meta.
       rbind (kind_of_page meta) (\<lambda>kind.
       if kind \<noteq> Meta then fail_with (invalid_data ''btree: page zero is not metadata'')
       else rbind (page_cells meta) (\<lambda>cells.
       if length cells \<noteq> 1 \<or> length (cells ! 0) \<noteq> 24 then fail_with (invalid_data ''btree: malformed metadata'')
       else rbind (bt_take_u64 (cells ! 0) 0) (\<lambda>root_page.
       rbind (bt_take_u64 (cells ! 0) 8) (\<lambda>count.
       rbind (bt_take_u64 (cells ! 0) 16) (\<lambda>len.
       if root_page = 0 \<or> count = 0 \<or> pg_pages p \<noteq> unat count + 1
       then fail_with (invalid_data ''btree: inconsistent metadata'')
       else rbind (load_nodes (unat count) 1 (unat count) p) (\<lambda>ns.
       rbind (page_to_index root_page (unat count)) (\<lambda>root.
       let t = \<lparr>bt_nodes = ns, bt_root = root, bt_len = unat len\<rparr> in
       case btree_entries t of
         None \<Rightarrow> Inl Panicked
       | Some es \<Rightarrow> if length es \<noteq> unat len then fail_with (invalid_data ''btree: entry count mismatch'') else Inr t))))))))))"

text \<open>The two schedules are the outcomes of reading the snapshot and its backup.\<close>

definition btree_load :: "io_outcome list \<Rightarrow> io_outcome list \<Rightarrow> snapshot_fs \<Rightarrow> btree may_fail" where
  "btree_load faults faults' d =
    (case fs_main d of
       Some file \<Rightarrow>
         (case load_exact faults file of
            Inr t \<Rightarrow> Inr t
          | Inl Panicked \<Rightarrow> Inl Panicked
          | Inl (Failed e) \<Rightarrow> (case fs_bak d of Some backup \<Rightarrow> load_exact faults' backup | None \<Rightarrow> fail_with e))
     | None \<Rightarrow> (case fs_bak d of Some backup \<Rightarrow> load_exact faults' backup | None \<Rightarrow> Inr btree_new))"

end
