(* ===== verification/BTree_Cells.thy ===== *)
theory BTree_Cells
  imports BTree_Snapshot
begin

text \<open>
  Pages of the snapshot: a node is written as the cells \<open>node_cells\<close>, in exactly one page or not at all, and decoding the
  page gives the node back.
\<close>

section \<open>Entries\<close>

definition pair_bytes :: "rstring \<Rightarrow> rstring \<Rightarrow> bytes" where
  "pair_bytes k v = le_bytes 4 (of_nat (length k) :: u32) @ le_bytes 4 (of_nat (length v) :: u32) @ k @ v"

lemma length_pair_bytes [simp]: "length (pair_bytes k v) = 8 + length k + length v"
  by (simp add: pair_bytes_def)

lemma encode_pair_eq: "length k < 2 ^ 32 \<Longrightarrow> length v < 2 ^ 32 \<Longrightarrow> encode_pair k v = Inr (pair_bytes k v)"
  by (simp add: encode_pair_def pair_bytes_def)

lemma encode_pair_InrD: "encode_pair k v = Inr c \<Longrightarrow> length k < 2 ^ 32 \<and> length v < 2 ^ 32"
  by (auto simp: encode_pair_def split: if_splits)

lemma decode_pair_bytes:
  assumes "utf8_valid k" and "utf8_valid v" and l: "length k < 2 ^ 32" "length v < 2 ^ 32"
  shows "decode_pair (pair_bytes k v @ rest) = Inr (k, v, 8 + length k + length v)"
proof -
  let ?a = "le_bytes 4 (of_nat (length k) :: u32)" and ?b = "le_bytes 4 (of_nat (length v) :: u32)"
  have s: "slice 0 4 (pair_bytes k v @ rest) = Inr ?a" "slice 4 8 (pair_bytes k v @ rest) = Inr ?b"
    using slice_append [of "[]" 0 ?a 4] slice_append [of ?a 4 ?b 8] by (simp_all add: pair_bytes_def)
  have t: "slice 8 (8 + length k) (pair_bytes k v @ rest) = Inr k"
    "slice (8 + length k) (8 + length k + length v) (pair_bytes k v @ rest) = Inr v"
    using slice_append [of "?a @ ?b" 8 k "8 + length k" "v @ rest"]
      slice_append [of "?a @ ?b @ k" "8 + length k" v "8 + length k + length v" rest] by (simp_all add: pair_bytes_def)
  have u: "unat (of_le_bytes ?a :: u32) = length k" "unat (of_le_bytes ?b :: u32) = length v" using l by simp_all
  show ?thesis unfolding decode_pair_def s rbind.simps u Let_def t using assms(1,2) by simp
qed

lemma index_bytes_length [simp]: "length (index_bytes i) = 8"
  by (simp add: index_bytes_def)

lemma take_index:
  assumes "length xs = used" and "c < count" and "count < 2 ^ 64"
  shows "rbind (bt_take_u64 (xs @ index_bytes c) used) (\<lambda>page. page_to_index page count) = Inr c"
proof -
  have "bt_take_u64 (xs @ index_bytes c) used = Inr ((of_nat c :: u64) + 1)"
    using slice_append [of xs used "index_bytes c" "used + 8" "[]"] assms(1) by (simp add: bt_take_u64_def index_bytes_def)
  moreover have "unat ((of_nat c :: u64) + 1) = Suc c" using assms(2,3) by (simp add: unat_word_ariths unat_of_nat)
  ultimately show ?thesis using assms(2) by (auto simp: page_to_index_def)
qed

section \<open>Nodes\<close>

definition item_cell :: "node \<Rightarrow> nat \<Rightarrow> bytes" where
  "item_cell n j = pair_bytes (n_keys n ! j) (n_values n ! j) @ (if leaf n then [] else index_bytes (n_children n ! (j + 1)))"

definition node_cells :: "node \<Rightarrow> bytes list" where
  "node_cells n = (if leaf n then [] else [index_bytes (n_children n ! 0)]) @ map (item_cell n) [0 ..< length (n_keys n)]"

definition node_kind :: "node \<Rightarrow> page_kind" where
  "node_kind n = (if leaf n then Leaf else Internal)"

text \<open>A node of an index with \<open>count\<close> nodes, with valid strings.\<close>

definition node_shape :: "nat \<Rightarrow> node \<Rightarrow> bool" where
  "node_shape count n \<longleftrightarrow> length (n_values n) = length (n_keys n) \<and> (leaf n \<or> length (n_children n) = length (n_keys n) + 1)
    \<and> (\<forall>c \<in> set (n_children n). c < count)"

definition node_strings :: "node \<Rightarrow> bool" where
  "node_strings n \<longleftrightarrow> (\<forall>s \<in> set (n_keys n) \<union> set (n_values n). utf8_valid s)"

definition small_strings :: "node \<Rightarrow> bool" where
  "small_strings n \<longleftrightarrow> (\<forall>s \<in> set (n_keys n) \<union> set (n_values n). length s < 2 ^ 32)"

lemma page_insert_all_append: "page_insert_all (xs @ ys) p = rbind (page_insert_all xs p) (page_insert_all ys)"
proof (induction xs arbitrary: p)
  case (Cons x xs)
  then show ?case by (cases "page_insert x p") simp_all
qed simp

lemma insert_items_small:
  assumes "node_shape count n" and "small_strings n" and "item + todo \<le> length (n_keys n)"
  shows "insert_items n item todo page = page_insert_all (map (item_cell n) [item ..< item + todo]) page"
  using assms(3)
proof (induction todo arbitrary: item page)
  case (Suc todo)
  have i: "item < length (n_keys n)" "item < length (n_values n)" "leaf n \<or> item + 1 < length (n_children n)"
    using Suc.prems assms(1) by (auto simp: node_shape_def)
  then have e: "encode_pair (n_keys n ! item) (n_values n ! item) = Inr (pair_bytes (n_keys n ! item) (n_values n ! item))"
    using assms(2) by (intro encode_pair_eq) (auto simp: small_strings_def)
  have u: "[item ..< item + Suc todo] = item # [item + 1 ..< item + 1 + todo]" by (simp add: upt_conv_Cons)
  have "insert_items n item (Suc todo) page = rbind (page_insert (item_cell n item) page) (insert_items n (item + 1) todo)"
    using i by (auto simp: elem_at_def e item_cell_def)
  also have "\<dots> = rbind (page_insert (item_cell n item) page) (page_insert_all (map (item_cell n) [item + 1 ..< item + 1 + todo]))"
    using Suc.IH [of "item + 1"] Suc.prems by (cases "page_insert (item_cell n item) page") simp_all
  finally show ?case unfolding u by simp
qed simp

lemma insert_items_large:
  assumes "insert_items n item todo page = Inr page'" and "item \<le> j" and "j < item + todo"
  shows "length (n_keys n ! j) < 2 ^ 32 \<and> length (n_values n ! j) < 2 ^ 32"
  using assms
proof (induction todo arbitrary: item page)
  case (Suc todo)
  from Suc.prems(1) obtain cell p where "encode_pair (n_keys n ! item) (n_values n ! item) = Inr cell" "insert_items n (item + 1) todo p = Inr page'"
    by (auto simp: rbind_Inr_iff elem_at_iff)
  with Suc.IH [of "item + 1" p] Suc.prems(2,3) encode_pair_InrD show ?case by (cases "j = item") auto
qed simp

lemma node_page_ok:
  assumes s: "node_shape count n"
  shows "node_page n = Inr b \<longleftrightarrow> small_strings n \<and> page_fits (node_cells n)
    \<and> b = page_image (node_kind n) (page_crc (node_kind n) (node_cells n)) (node_cells n)"
proof -
  let ?items = "map (item_cell n) [0 ..< length (n_keys n)]" and ?k = "node_kind n" and ?z = "replicate 4 (0 :: u8)"
  have first: "(if leaf n then Inr page else rbind (elem_at (n_children n) 0) (\<lambda>c. page_insert (index_bytes c) page))
      = page_insert_all (if leaf n then [] else [index_bytes (n_children n ! 0)]) page" for page
    using s by (cases "n_children n") (auto simp: node_shape_def leaf_def elem_at_def, (cases "page_insert (index_bytes (hd (n_children n))) page"; simp)+)
  have small: "small_strings n" if i: "insert_items n 0 (length (n_keys n)) page = Inr p" for page p
    using insert_items_large [OF i] s by (auto simp: small_strings_def node_shape_def in_set_conv_nth)
  have eq: "node_page n = rbind (rbind (page_new ?k) (page_insert_all (node_cells n))) page_finish" if "small_strings n"
    unfolding node_page_def node_cells_def first insert_items_small [OF s that, of 0 "length (n_keys n)", simplified]
    by (simp add: rbind_assoc node_kind_def page_insert_all_append cong: if_cong)
  show ?thesis
  proof (cases "small_strings n")
    case True
    with page_new_insert_all [of "node_cells n" ?k] show ?thesis
      by (auto simp: eq page_finish_image fail_with_def split: if_splits)
  next
    case False
    have "node_page n \<noteq> Inr b"
    proof
      assume "node_page n = Inr b"
      then obtain page p where "insert_items n 0 (length (n_keys n)) page = Inr p" by (auto simp: node_page_def rbind_Inr_iff)
      with small False show False by blast
    qed
    with False show ?thesis by simp
  qed
qed

lemma decode_cells_items:
  assumes s: "node_shape count n" "node_strings n" "small_strings n" and c: "count < 2 ^ 64"
    and "j \<le> length (n_keys n)"
    and "acc = \<lparr>n_keys = take j (n_keys n), n_values = take j (n_values n), n_children = (if leaf n then [] else take (j + 1) (n_children n))\<rparr>"
  shows "decode_cells (node_kind n) count (map (item_cell n) [j ..< length (n_keys n)]) acc = Inr n"
  using assms(5,6)
proof (induction "length (n_keys n) - j" arbitrary: j acc)
  case 0
  then have "j = length (n_keys n)" by simp
  with 0 s(1) show ?case by (cases n) (auto simp: node_shape_def leaf_def)
next
  case (Suc d)
  let ?k = "n_keys n ! j" and ?v = "n_values n ! j"
  have j: "j < length (n_keys n)" "j < length (n_values n)" using Suc.hyps(2) s(1) by (auto simp: node_shape_def)
  have "?k \<in> set (n_keys n)" "?v \<in> set (n_values n)" using j by simp_all
  then have d: "decode_pair (pair_bytes ?k ?v @ rest) = Inr (?k, ?v, 8 + length ?k + length ?v)" for rest
    using s(2,3) by (intro decode_pair_bytes) (auto simp: node_strings_def small_strings_def)
  define n1 where "n1 = acc\<lparr>n_keys := n_keys acc @ [?k], n_values := n_values acc @ [?v]\<rparr>"
  define n2 where "n2 = (if leaf n then n1 else n1\<lparr>n_children := n_children n1 @ [n_children n ! (j + 1)]\<rparr>)"
  have n2: "n2 = \<lparr>n_keys = take (Suc j) (n_keys n), n_values = take (Suc j) (n_values n),
      n_children = (if leaf n then [] else take (Suc j + 1) (n_children n))\<rparr>"
    using j s(1) Suc.prems(2) by (auto simp: n2_def n1_def take_Suc_conv_app_nth node_shape_def)
  have kid: "rbind (bt_take_u64 (item_cell n j) (8 + length ?k + length ?v)) (\<lambda>page. page_to_index page count) = Inr (n_children n ! (j + 1))" if "\<not> leaf n"
    using take_index [of "pair_bytes ?k ?v" _ "n_children n ! (j + 1)" count] that c j s(1) by (auto simp: item_cell_def node_shape_def)
  have step: "decode_cells (node_kind n) count (item_cell n j # cells) acc = decode_cells (node_kind n) count cells n2" for cells
  proof (cases "leaf n")
    case True
    then show ?thesis using d [of "[]"] by (simp add: item_cell_def node_kind_def n2_def n1_def)
  next
    case False
    from kid [OF False] obtain page where "bt_take_u64 (item_cell n j) (8 + length ?k + length ?v) = Inr page"
      "page_to_index page count = Inr (n_children n ! (j + 1))" by (auto simp: rbind_Inr_iff)
    then show ?thesis using d [of "index_bytes (n_children n ! (j + 1))"] False
      by (simp add: item_cell_def node_kind_def n2_def n1_def)
  qed
  have "[j ..< length (n_keys n)] = j # [Suc j ..< length (n_keys n)]" using j by (simp add: upt_conv_Cons)
  moreover have "decode_cells (node_kind n) count (map (item_cell n) [Suc j ..< length (n_keys n)]) n2 = Inr n"
    by (rule Suc.hyps(1) [OF _ _ n2]) (use Suc.hyps(2) j in auto)
  ultimately show ?case by (simp only: list.map step)
qed

lemma decode_node_page:
  assumes s: "node_shape count n" "node_strings n" and c: "count < 2 ^ 64" and b: "node_page n = Inr b"
  shows "length b = PAGE_SIZE" and "rbind (page_from_bytes b) (decode_node count) = Inr n"
proof -
  let ?cs = "node_cells n" and ?k = "node_kind n"
  have sm: "small_strings n" and f: "page_fits ?cs" and bi: "b = page_image ?k (page_crc ?k ?cs) ?cs" using b node_page_ok [OF s(1)] by auto
  then show "length b = PAGE_SIZE" by simp
  have dc: "decode_cells ?k count (map (item_cell n) [0 ..< length (n_keys n)]) (default_node\<lparr>n_children := (if leaf n then [] else [n_children n ! 0])\<rparr>) = Inr n"
    using s(1) by (intro decode_cells_items [OF s sm c]) (auto simp: default_node_def node_shape_def take_Suc hd_conv_nth, (cases "n_children n"; simp)+)
  have "decode_node count \<lparr>page_bytes = b\<rparr> = Inr n"
  proof (cases "leaf n")
    case True
    then show ?thesis using dc s(1) unfolding decode_node_def bi page_cells_image [OF f length_page_crc] kind_of_page_image
      by (simp add: node_kind_def node_cells_def default_node_def)
  next
    case False
    have z: "bt_take_u64 (index_bytes (n_children n ! 0)) 0 = Inr page \<Longrightarrow> page_to_index page count = Inr (n_children n ! 0)" for page
      using take_index [of "[]" 0 "n_children n ! 0" count] False s(1) c by (auto simp: node_shape_def rbind_Inr_iff)
    obtain page where "bt_take_u64 (index_bytes (n_children n ! 0)) 0 = Inr page" by (simp add: bt_take_u64_def slice_def)
    with z False dc s(1) show ?thesis unfolding decode_node_def bi page_cells_image [OF f length_page_crc] kind_of_page_image
      by (simp add: node_kind_def node_cells_def node_shape_def)
  qed
  then show "rbind (page_from_bytes b) (decode_node count) = Inr n" using f by (simp add: bi page_from_bytes_image)
qed

end
