(* ===== verification/BTree_Persistence.thy ===== *)
theory BTree_Persistence
  imports BTree_Cells
begin

text \<open>
  Saving and loading the index: what \<open>save\<close> has written loads as the same index, \<open>save\<close> succeeds without I/O errors
  exactly when every node fits into a page, and a crash at any point of the publication leaves the old or the new
  snapshot, provided the old one was the main file.
\<close>

section \<open>Flushing twice\<close>

definition clean :: "pager \<Rightarrow> bool" where
  "clean p \<longleftrightarrow> (\<forall>c \<in> snd ` set (pg_cache p). \<not> cp_dirty c)"

lemma flush_clean:
  assumes wf: "pager_wf p" and o: "\<And>xs. set (order xs) = set xs" and r: "flush order p = (Inr (), p')"
  shows "clean p'"
proof -
  let ?dirty = "map fst (filter (\<lambda>(_, c). cp_dirty c) (pg_cache p))"
  obtain r1 p1 where f: "flush_list (order ?dirty) p = (r1, p1)" by force
  have h: "holds p Map.empty" by (simp add: holds_def)
  note ok = flush_list_ok [OF wf h f]
  from r f obtain u where r1: "r1 = Inr u" and c: "pg_cache p' = pg_cache p1"
    by (cases r1) (auto simp: flush_def and_then_Inr_iff on_file_def split: prod.splits)
  have "\<not> cp_dirty c" if "(j, c) \<in> set (pg_cache p1)" for j c
  proof
    assume d: "cp_dirty c"
    have "map_of (pg_cache p1) j = Some c" using that ok by (simp add: pager_wf_def)
    with ok r1 d have "j \<notin> set ?dirty" "map_of (pg_cache p) j = Some c" using o by auto
    with map_of_SomeD [OF this(2)] d show False by force
  qed
  then show ?thesis by (auto simp: clean_def c)
qed

lemma flush_again:
  assumes "clean p" and "length (pf_bytes (pg_file p)) = pg_pages p * PAGE_SIZE" and o: "\<And>xs. set (order xs) = set xs"
  shows "pf_bytes (pg_file (snd (flush order p))) = pf_bytes (pg_file p)"
proof -
  have d: "filter (\<lambda>(_, c). cp_dirty c) (pg_cache p) = []" using assms(1) by (force simp: clean_def filter_empty_conv)
  have z: "order [] = []" using o [of "[]"] by simp
  show ?thesis using assms(2)
    by (auto simp: flush_def d z on_file_def and_then_def file_set_len_def file_sync_all_def file_outcome_def
        split: prod.splits sum.splits list.splits io_outcome.splits)
qed

section \<open>Writing the pages\<close>

lemma allocate_nodes_ok:
  assumes "pager_wf p" and "holds p m" and "allocate_nodes ns p = (Inr (), p')"
  shows "pager_wf p' \<and> holds p' m \<and> pg_pages p' = pg_pages p + length ns"
  using assms
proof (induction ns arbitrary: p)
  case (Cons n ns)
  from Cons.prems(3) obtain i p1 where 1: "allocate p = (Inr i, p1)" "allocate_nodes ns p1 = (Inr (), p')"
    by (auto simp: and_then_Inr_iff)
  from allocate_ok [OF Cons.prems(1,2) 1(1)] Cons.IH [OF _ _ 1(2)] show ?case by auto
qed simp

lemma write_page_ok:
  assumes "pager_wf p" and "holds p m" and "i < pg_pages p" and "\<And>b. r = Inr b \<Longrightarrow> length b = PAGE_SIZE"
    and "write_page i r p = (Inr (), p')"
  shows "\<exists>b. r = Inr b \<and> pager_wf p' \<and> holds p' (m(i \<mapsto> b)) \<and> pg_pages p' = pg_pages p"
proof (cases r)
  case (Inr b)
  with assms(5) have w: "pager_write i b p = (Inr (), p')" by (simp add: write_page_def)
  from pager_write_ok [OF assms(1,2) assms(4) [OF Inr] w refl] assms(3) Inr show ?thesis by auto
qed (use assms(5) in \<open>simp add: write_page_def\<close>)

lemma save_nodes_ok:
  assumes "pager_wf p" and "holds p m" and "index + length ns < pg_pages p"
    and "\<And>n b. n \<in> set ns \<Longrightarrow> node_page n = Inr b \<Longrightarrow> length b = PAGE_SIZE" and "save_nodes index ns p = (Inr (), p')"
  shows "pager_wf p' \<and> pg_pages p' = pg_pages p \<and> (\<exists>m'. holds p' m' \<and> (\<forall>i \<le> index. m' i = m i)
    \<and> (\<forall>j < length ns. \<exists>b. node_page (ns ! j) = Inr b \<and> m' (index + 1 + j) = Some b))"
  using assms
proof (induction ns arbitrary: index p m)
  case (Cons n ns)
  from Cons.prems(5) obtain p1 where 1: "write_page (index + 1) (node_page n) p = (Inr (), p1)" "save_nodes (index + 1) ns p1 = (Inr (), p')"
    by (auto simp: and_then_Inr_iff)
  obtain b where b: "node_page n = Inr b" "pager_wf p1" "holds p1 (m(index + 1 \<mapsto> b))" "pg_pages p1 = pg_pages p"
    using write_page_ok [OF Cons.prems(1,2) _ _ 1(1)] Cons.prems(3,4) by auto
  have "index + 1 + length ns < pg_pages p1" using Cons.prems(3) b(4) by simp
  from Cons.IH [OF b(2,3) this _ 1(2)] Cons.prems(4) obtain m' where
    m': "pager_wf p'" "pg_pages p' = pg_pages p1" "holds p' m'" "\<forall>i \<le> index + 1. m' i = (m(index + 1 \<mapsto> b)) i"
      "\<forall>j < length ns. \<exists>b. node_page (ns ! j) = Inr b \<and> m' (index + 1 + 1 + j) = Some b" by auto
  have "\<exists>b. node_page ((n # ns) ! j) = Inr b \<and> m' (index + 1 + j) = Some b" if "j < length (n # ns)" for j
    using that m'(4,5) b(1) by (cases j) auto
  moreover have "\<forall>i \<le> index. m' i = m i" using m'(4) by auto
  ultimately show ?case using m'(1,2,3) b(4) by auto
qed auto

section \<open>Reading them back\<close>

lemma load_nodes_ok:
  assumes "pager_wf p" and "no_faults p" and "holds p m" and "count < 2 ^ 64"
    and "\<forall>j < length ns. \<exists>b. node_page (ns ! j) = Inr b \<and> m (page_id + j) = Some b"
    and "\<forall>n \<in> set ns. node_shape count n \<and> node_strings n"
  shows "load_nodes count page_id (length ns) p = Inr ns"
  using assms
proof (induction ns arbitrary: page_id p)
  case (Cons n ns)
  from Cons.prems(5) obtain b where b: "node_page n = Inr b" "m page_id = Some b" by force
  have hp: "has_page p page_id b" using Cons.prems(3) b(2) by (simp add: holds_def)
  obtain p1 where r: "pager_read page_id p = (Inr b, p1)" "no_faults p1" using pager_read_succeeds [OF Cons.prems(2,1) hp] by blast
  have p1: "pager_wf p1" "holds p1 m" using pager_read_ok [OF Cons.prems(1,3) r(1)] by auto
  have "\<forall>j < length ns. \<exists>b. node_page (ns ! j) = Inr b \<and> m (page_id + 1 + j) = Some b"
    using Cons.prems(5) by (metis Suc_less_eq add.commute add_Suc_right length_Cons nth_Cons_Suc plus_1_eq_Suc)
  then have "load_nodes count (page_id + 1) (length ns) p1 = Inr ns" using Cons.IH p1 r(2) Cons.prems(4,6) by simp
  moreover have "rbind (page_from_bytes b) (decode_node count) = Inr n"
    using decode_node_page(2) [OF _ _ Cons.prems(4) b(1)] Cons.prems(6) by simp
  ultimately show ?case using r(1) by (auto simp: rbind_Inr_iff)
qed simp

definition strings_ok :: "(rstring \<times> rstring) list \<Rightarrow> bool" where
  "strings_ok es \<longleftrightarrow> (\<forall>e \<in> set es. utf8_valid (fst e) \<and> utf8_valid (snd e))"

text \<open>Vector lengths are machine integers.\<close>

definition index_sized :: "btree \<Rightarrow> bool" where
  "index_sized t \<longleftrightarrow> length (bt_nodes t) < 2 ^ 64 \<and> bt_len t < 2 ^ 64"

lemma subtree_ids_le:
  assumes "wf_node ns (Suc h) i" and "\<And>c. c \<in> set (n_children (ns ! i)) \<Longrightarrow> length (ids ns h c) \<le> length (ents ns h c)"
  shows "length (ids ns (Suc h) i) + length (n_keys (ns ! i)) \<le> length (ents ns (Suc h) i) + 1"
proof -
  let ?n = "ns ! i"
  have l: "length (map (ents ns h) (n_children ?n)) = length (pairs ?n) + 1" "length (pairs ?n) = length (n_keys ?n)"
    using assms(1) by (simp_all add: length_pairs)
  have "sum_list (map (\<lambda>c. length (ids ns h c)) (n_children ?n)) \<le> sum_list (map (\<lambda>c. length (ents ns h c)) (n_children ?n))"
    using assms(2) by (intro sum_list_mono) auto
  then show ?thesis using length_inter [OF l(1)] l(2) by (simp add: o_def length_concat)
qed

lemma filled_ids_le: "wf_node ns h i \<Longrightarrow> filled (ns ! i) \<Longrightarrow> length (ids ns h i) \<le> length (ents ns h i)"
proof (induction h arbitrary: i)
  case 0
  then show ?case by (simp add: length_pairs filled_def degrees)
next
  case (Suc h)
  have "length (ids ns (Suc h) i) + length (n_keys (ns ! i)) \<le> length (ents ns (Suc h) i) + 1"
    by (rule subtree_ids_le [OF Suc.prems(1)]) (use Suc in auto)
  then show ?case using Suc.prems(2) by (simp add: filled_def degrees)
qed

text \<open>So an index of \<open>n\<close> entries has at most \<open>n + 1\<close> nodes.\<close>

lemma btree_at_nodes_le:
  assumes t: "btree_at h t"
  shows "length (bt_nodes t) \<le> bt_len t + 1"
proof -
  have "card {..< length (bt_nodes t)} = length (ids (bt_nodes t) h (bt_root t))"
    using t distinct_card by (metis btree_at_def)
  moreover have "length (ids (bt_nodes t) h (bt_root t)) \<le> length (tree_ents h t) + 1"
  proof (cases h)
    case (Suc g)
    have "length (ids (bt_nodes t) (Suc g) (bt_root t)) + length (n_keys (bt_nodes t ! bt_root t)) \<le> length (tree_ents (Suc g) t) + 1"
      by (rule subtree_ids_le) (use t filled_ids_le [of "bt_nodes t" g] in \<open>auto simp: btree_at_def Suc\<close>)
    then show ?thesis by (simp add: Suc)
  qed simp
  ultimately show ?thesis using t by (simp add: btree_at_def)
qed

lemma subtree_nodes:
  assumes "wf_node ns h i" and "j \<in> set (ids ns h i)"
  shows "node_shape (length ns) (ns ! j) \<and> set (pairs (ns ! j)) \<subseteq> set (ents ns h i)"
  using assms
proof (induction h arbitrary: i)
  case 0
  then show ?case by (auto simp: node_shape_def node_ok_def leaf_def)
next
  case (Suc h)
  have kids: "set (ents ns h c) \<subseteq> set (ents ns (Suc h) i)" if c: "c \<in> set (n_children (ns ! i))" for c
  proof -
    obtain k where k: "k < length (n_children (ns ! i))" "c = n_children (ns ! i) ! k" using c by (auto simp: in_set_conv_nth)
    then show ?thesis using ents_at_child [OF Suc.prems(1), of k] Suc.prems(1) by auto
  qed
  show ?case
  proof (cases "j = i")
    case True
    have "set (pairs (ns ! i)) \<subseteq> set (ents ns (Suc h) i)"
      using inter_contains [of "map (ents ns h) (n_children (ns ! i))" "pairs (ns ! i)"] Suc.prems(1) by (simp add: length_pairs)
    then show ?thesis using True Suc.prems(1) wf_node_lt by (auto simp: node_shape_def node_ok_def)
  next
    case False
    then obtain c where c: "c \<in> set (n_children (ns ! i))" "j \<in> set (ids ns h c)" using Suc.prems(2) by auto
    then show ?thesis using Suc.IH [of c] Suc.prems(1) kids [OF c(1)] by auto
  qed
qed

lemma btree_nodes:
  assumes "btree_at h t" and "strings_ok (tree_ents h t)" and "n \<in> set (bt_nodes t)"
  shows "node_shape (length (bt_nodes t)) n" and "node_strings n"
proof -
  obtain j where j: "j < length (bt_nodes t)" "n = bt_nodes t ! j" using assms(3) by (auto simp: in_set_conv_nth)
  have "j \<in> set (ids (bt_nodes t) h (bt_root t))" using assms(1) j(1) by (auto simp: btree_at_def)
  from subtree_nodes [OF _ this] assms(1) j(2) have s: "node_shape (length (bt_nodes t)) n" "set (pairs n) \<subseteq> set (tree_ents h t)"
    by (auto simp: btree_at_def)
  then show "node_shape (length (bt_nodes t)) n" by blast
  have ok: "\<forall>x \<in> set (pairs n). utf8_valid (fst x) \<and> utf8_valid (snd x)" using s(2) assms(2) by (auto simp: strings_ok_def)
  have "n_keys n = map fst (pairs n)" "n_values n = map snd (pairs n)" using s(1) by (auto simp: pairs_def node_shape_def)
  then show "node_strings n" using ok by (auto simp: node_strings_def)
qed

definition metadata :: "btree \<Rightarrow> bytes" where
  "metadata t = le_bytes 8 ((of_nat (bt_root t) :: u64) + 1) @ le_bytes 8 (of_nat (length (bt_nodes t)) :: u64) @ le_bytes 8 (of_nat (bt_len t) :: u64)"

lemma metadata_fits: "page_fits [metadata t]" "length (metadata t) = 24"
  by (simp_all add: metadata_def page_fits_def HEADER_SIZE_def PAGE_SIZE_def)

lemma meta_page_eq: "meta_page t = Inr (page_image Meta (page_crc Meta [metadata t]) [metadata t])"
  using metadata_fits by (simp add: meta_page_def page_new_image page_insert_image page_finish_image flip: metadata_def)

lemma metadata_fields:
  "bt_take_u64 (metadata t) 0 = Inr ((of_nat (bt_root t) :: u64) + 1)"
  "bt_take_u64 (metadata t) 8 = Inr (of_nat (length (bt_nodes t)))" "bt_take_u64 (metadata t) 16 = Inr (of_nat (bt_len t))"
proof -
  let ?a = "le_bytes 8 ((of_nat (bt_root t) :: u64) + 1)" and ?b = "le_bytes 8 (of_nat (length (bt_nodes t)) :: u64)"
    and ?c = "le_bytes 8 (of_nat (bt_len t) :: u64)"
  show "bt_take_u64 (metadata t) 0 = Inr ((of_nat (bt_root t) :: u64) + 1)"
    "bt_take_u64 (metadata t) 8 = Inr (of_nat (length (bt_nodes t)))" "bt_take_u64 (metadata t) 16 = Inr (of_nat (bt_len t))"
    using slice_append [of "[]" 0 ?a 8 "?b @ ?c"] slice_append [of ?a 8 ?b 16 ?c] slice_append [of "?a @ ?b" 16 ?c 24 "[]"]
    by (simp_all add: bt_take_u64_def metadata_def)
qed

text \<open>A file that holds the pages of an index.\<close>

definition holds_snapshot :: "bytes \<Rightarrow> btree \<Rightarrow> bool" where
  "holds_snapshot file t \<longleftrightarrow> length file = (length (bt_nodes t) + 1) * PAGE_SIZE
    \<and> (\<exists>b. meta_page t = Inr b \<and> stored file 0 b)
    \<and> (\<forall>j < length (bt_nodes t). \<exists>b. node_page (bt_nodes t ! j) = Inr b \<and> stored file (1 + j) b)"

lemma load_exact_saved:
  assumes t: "btree_at h t" and st: "strings_ok (tree_ents h t)" and sz: "index_sized t" and f: "holds_snapshot file t"
  shows "load_exact [] file = Inr t"
proof -
  let ?n = "length (bt_nodes t)"
  have len: "length file = (?n + 1) * PAGE_SIZE" using f by (simp add: holds_snapshot_def)
  obtain p where p: "pager_open_inner (Some file) [] 64 False = Inr p" by (simp add: pager_open_inner_def len)
  note o = pager_open_ok [OF p]
  have pf: "pf_bytes (pg_file p) = file" using o by auto
  have "pg_pages p * PAGE_SIZE = (?n + 1) * PAGE_SIZE" using o pf len by metis
  then have pn: "pg_pages p = ?n + 1" using PAGE_SIZE_pos by (simp only: mult_cancel2) auto
  note pg = pn pf
  have pw: "pager_wf p" "holds p (file_pages file)" "no_faults p" using o pg(2) by (auto simp: no_faults_def)
  let ?b0 = "page_image Meta (page_crc Meta [metadata t]) [metadata t]"
  have s0: "stored file 0 ?b0" using f by (auto simp: holds_snapshot_def meta_page_eq)
  have "has_page p 0 ?b0" using pw(2) s0 by (simp add: holds_def file_pages_stored)
  from pager_read_succeeds [OF pw(3,1) this] obtain p1 where r0: "pager_read 0 p = (Inr ?b0, p1)" "no_faults p1" by blast
  have p1: "pager_wf p1" "holds p1 (file_pages file)" "pg_pages p1 = ?n + 1" using pager_read_ok [OF pw(1,2) r0(1)] pg(1) by auto
  have root: "bt_root t < ?n" using t by (auto simp: btree_at_def dest: wf_node_lt)
  have n64: "?n < 2 ^ 64" "bt_len t < 2 ^ 64" using sz by (auto simp: index_sized_def)
  have un: "unat (of_nat ?n :: u64) = ?n" "unat (of_nat (bt_len t) :: u64) = bt_len t" "unat ((of_nat (bt_root t) :: u64) + 1) = Suc (bt_root t)"
    using n64 root by (simp_all add: unat_word_ariths unat_of_nat)
  have nz: "(of_nat ?n :: u64) \<noteq> 0" "(of_nat (bt_root t) :: u64) + 1 \<noteq> 0" using un root by (metis unat_0 not_less_zero, metis nat.distinct(1) unat_0)
  have "load_nodes ?n 1 ?n p1 = Inr (bt_nodes t)"
  proof (rule load_nodes_ok [OF p1(1) r0(2) p1(2) n64(1)])
    show "\<forall>j < ?n. \<exists>b. node_page (bt_nodes t ! j) = Inr b \<and> file_pages file (1 + j) = Some b"
      using f by (simp add: holds_snapshot_def file_pages_stored)
    show "\<forall>n \<in> set (bt_nodes t). node_shape ?n n \<and> node_strings n" using btree_nodes [OF t st] by blast
  qed
  moreover have "page_to_index ((of_nat (bt_root t) :: u64) + 1) ?n = Inr (bt_root t)" using un nz root by (simp add: page_to_index_def)
  moreover have "btree_entries t = Some (tree_ents h t)" "length (tree_ents h t) = bt_len t"
    using btree_at_entries [OF t] t by (simp_all add: btree_at_def)
  moreover have eta: "\<lparr>bt_nodes = bt_nodes t, bt_root = bt_root t, bt_len = bt_len t\<rparr> = t" by simp
  ultimately show ?thesis
    using metadata_fits p r0(1) p1(3) pg(1) nz
    unfolding load_exact_def pager_open_def p
    by (simp add: page_from_bytes_image kind_of_page_image page_cells_image metadata_fields un Let_def eta)
qed

section \<open>Saving\<close>

lemma save_pages_ok:
  assumes t: "btree_at h t" "strings_ok (tree_ents h t)" "index_sized t"
    and p: "pager_wf p" "pg_pages p = 0" and s: "save_pages t p = (Inr (), p')"
  shows "pager_wf p' \<and> pg_pages p' = length (bt_nodes t) + 1 \<and> (\<exists>m b. holds p' m \<and> meta_page t = Inr b \<and> m 0 = Some b
    \<and> (\<forall>j < length (bt_nodes t). \<exists>b. node_page (bt_nodes t ! j) = Inr b \<and> m (1 + j) = Some b))"
proof -
  have h: "holds p Map.empty" by (simp add: holds_def)
  from s obtain i p1 p2 p3 where 1: "allocate p = (Inr i, p1)" "allocate_nodes (bt_nodes t) p1 = (Inr (), p2)"
    "write_page 0 (meta_page t) p2 = (Inr (), p3)" "save_nodes 0 (bt_nodes t) p3 = (Inr (), p')"
    by (auto simp: save_pages_def and_then_Inr_iff)
  have a1: "pager_wf p1" "holds p1 Map.empty" "pg_pages p1 = 1" using allocate_ok [OF p(1) h 1(1)] p(2) by auto
  from allocate_nodes_ok [OF a1(1,2) 1(2)] a1(3) have a2: "pager_wf p2" "holds p2 Map.empty" "pg_pages p2 = length (bt_nodes t) + 1" by auto
  have "length b = PAGE_SIZE" if "meta_page t = Inr b" for b using that metadata_fits by (auto simp: meta_page_eq)
  then obtain b where b: "meta_page t = Inr b" "pager_wf p3" "holds p3 [0 \<mapsto> b]" "pg_pages p3 = pg_pages p2"
    using write_page_ok [OF a2(1,2) _ _ 1(3)] a2(3) by auto
  have "length b = PAGE_SIZE" if "n \<in> set (bt_nodes t)" "node_page n = Inr b" for n b
    using decode_node_page(1) [OF btree_nodes [OF t(1,2) that(1)] _ that(2)] t(3) by (simp add: index_sized_def)
  with save_nodes_ok [OF b(2,3) _ _ 1(4)] b(4) a2(3) obtain m where "pager_wf p'" "pg_pages p' = length (bt_nodes t) + 1" "holds p' m"
    "m 0 = Some b" "\<forall>j < length (bt_nodes t). \<exists>b. node_page (bt_nodes t ! j) = Inr b \<and> m (1 + j) = Some b" by auto
  with b(1) show ?thesis by blast
qed

lemma publish_ok:
  assumes "and_then publish_snapshot (\<lambda>_. sync_parent) d = (Inr (), d')"
  shows "fs_main d' = fs_tmp d" and "fs_tmp d \<noteq> None"
proof -
  obtain d2 where 1: "publish_snapshot d = (Inr (), d2)" "sync_parent d2 = (Inr (), d')" using assms by (auto simp: and_then_Inr_iff)
  from 1(1) obtain u d3 where 2: "(if fs_main (remove_bak d) \<noteq> None then rename_main_bak (remove_bak d) else (Inr (), remove_bak d)) = (Inr u, d3)"
    and 3: "(case rename_tmp_main d3 of (Inl e, d) \<Rightarrow> (Inl e, if fs_bak d \<noteq> None then snd (rename_bak_main d) else d)
      | (Inr _, d) \<Rightarrow> (Inr (), remove_bak d)) = (Inr (), d2)" by (auto simp: publish_snapshot_def and_then_Inr_iff)
  from 3 obtain v d4 where 4: "rename_tmp_main d3 = (Inr v, d4)" "d2 = remove_bak d4" by (auto split: prod.splits sum.splits)
  have a: "fs_tmp (remove_bak d) = fs_tmp d" "fs_main (remove_bak d4) = fs_main d4" by (auto simp: remove_bak_def fs_outcome_def split: list.splits io_outcome.splits)
  have b: "fs_tmp d3 = fs_tmp d" using 2 a by (auto simp: rename_main_bak_def fs_outcome_def split: list.splits io_outcome.splits if_splits)
  have c: "fs_main d4 = fs_tmp d3" "fs_tmp d3 \<noteq> None" using 4(1) by (auto simp: rename_tmp_main_def fs_outcome_def split: list.splits io_outcome.splits if_splits)
  have "fs_main d' = fs_main d2" using 1(2) by (auto simp: sync_parent_def fs_outcome_def split: list.splits io_outcome.splits)
  then show "fs_main d' = fs_tmp d" "fs_tmp d \<noteq> None" using a b c 4(2) by auto
qed

lemma pager_create_ok:
  obtains p where "pager_create file faults 64 = Inr p" and "pager_wf p" and "pg_pages p = 0" and "pf_faults (pg_file p) = faults"
proof -
  obtain p where p: "pager_create file faults 64 = Inr p" by (simp add: pager_create_def pager_open_inner_def split: option.splits)
  from pager_open_ok [OF p [unfolded pager_create_def]] have "pager_wf p" "pg_pages p = 0" "pf_faults (pg_file p) = faults"
    by (auto simp: PAGE_SIZE_def split: option.splits)
  with p that show thesis by blast
qed

lemma remove_tmp_frame: "fs_main (remove_tmp d) = fs_main d" "fs_bak (remove_tmp d) = fs_bak d"
  "fs_faults d = [] \<Longrightarrow> fs_faults (remove_tmp d) = []"
  by (auto simp: remove_tmp_def fs_outcome_def split: list.splits io_outcome.splits)

lemma write_temp_frame:
  assumes "write_temp order t d = (r, d')"
  shows "fs_main d' = fs_main d" and "fs_bak d' = fs_bak d"
  using assms
  by (auto simp: write_temp_def Let_def remove_tmp_frame split: sum.splits prod.splits)

lemma write_temp_ok:
  assumes t: "btree_at h t" "strings_ok (tree_ents h t)" "index_sized t" and o: "\<And>xs. set (order xs) = set xs"
    and s: "write_temp order t d = (Inr (), d')"
  shows "\<exists>file. fs_tmp d' = Some file \<and> holds_snapshot file t"
proof -
  define d1 where "d1 = remove_tmp d"
  obtain p where p: "pager_create (fs_tmp d1) (fs_faults d1) 64 = Inr p" "pager_wf p" "pg_pages p = 0" by (rule pager_create_ok)
  obtain r p2 where w: "and_then (save_pages t) (\<lambda>_. flush order) p = (r, p2)" by force
  define f where "f = drop_pager order p2"
  have r: "r = Inr ()" and d': "fs_tmp d' = Some (pf_bytes f)"
    using s p(1) w by (auto simp: write_temp_def Let_def d1_def f_def)
  from w r obtain p1 where 1: "save_pages t p = (Inr (), p1)" "flush order p1 = (Inr (), p2)" by (auto simp: and_then_Inr_iff)
  from save_pages_ok [OF t p(2,3) 1(1)] obtain m b where m: "pager_wf p1" "pg_pages p1 = length (bt_nodes t) + 1" "holds p1 m" "meta_page t = Inr b"
    "m 0 = Some b" "\<forall>j < length (bt_nodes t). \<exists>b. node_page (bt_nodes t ! j) = Inr b \<and> m (1 + j) = Some b" by blast
  have fl: "length (pf_bytes (pg_file p2)) = pg_pages p1 * PAGE_SIZE" "pg_pages p2 = pg_pages p1"
    "\<And>i b. m i = Some b \<Longrightarrow> stored (pf_bytes (pg_file p2)) i b"
    using flush_ok [OF m(1,3) o 1(2)] by (auto simp: same_pages_def)
  have "pf_bytes f = pf_bytes (pg_file p2)"
    unfolding f_def drop_pager_def by (rule flush_again [OF flush_clean [OF m(1) o 1(2)] _ o]) (simp add: fl)
  then have "holds_snapshot (pf_bytes f) t" using m(2,4,5,6) fl unfolding holds_snapshot_def by auto
  with d' show ?thesis by blast
qed

section \<open>Saving without I/O errors\<close>

lemma allocate_nodes_succeeds:
  "no_faults p \<Longrightarrow> pager_wf p \<Longrightarrow> \<exists>p'. allocate_nodes ns p = (Inr (), p') \<and> no_faults p'"
proof (induction ns arbitrary: p)
  case (Cons n ns)
  obtain p1 where 1: "allocate p = (Inr (pg_pages p), p1)" "no_faults p1" using allocate_succeeds [OF Cons.prems] by blast
  have "holds p Map.empty" by (simp add: holds_def)
  from allocate_ok [OF Cons.prems(2) this 1(1)] have "pager_wf p1" by simp
  from Cons.IH [OF 1(2) this] 1(1) show ?case by (auto simp: and_then_def)
qed simp

definition node_fits :: "node \<Rightarrow> bool" where
  "node_fits n \<longleftrightarrow> page_fits (node_cells n)"

lemma node_fits_small: "node_shape count n \<Longrightarrow> node_fits n \<Longrightarrow> small_strings n"
proof -
  assume s: "node_shape count n" and f: "node_fits n"
  have "length (n_keys n ! j) < 2 ^ 32 \<and> length (n_values n ! j) < 2 ^ 32" if j: "j < length (n_keys n)" for j
  proof -
    have "item_cell n j \<in> set (node_cells n)" using j by (simp add: node_cells_def)
    then obtain xs ys where "node_cells n = xs @ item_cell n j # ys" by (auto simp: in_set_conv_decomp)
    with f have "length (item_cell n j) < 2 ^ 16" unfolding node_fits_def by (metis page_fits_cell)
    then show ?thesis by (simp add: item_cell_def split: if_splits)
  qed
  then show "small_strings n" using s by (auto simp: small_strings_def node_shape_def in_set_conv_nth)
qed

lemma node_page_fits: "node_shape count n \<Longrightarrow> (\<exists>b. node_page n = Inr b) \<longleftrightarrow> node_fits n"
  using node_page_ok [of count n] node_fits_small [of count n] by (auto simp: node_fits_def)

lemma save_nodes_result:
  assumes "no_faults p" and "pager_wf p" and "index + length ns < pg_pages p"
    and "\<And>n b. n \<in> set ns \<Longrightarrow> node_page n = Inr b \<Longrightarrow> length b = PAGE_SIZE"
  shows "\<exists>r p'. save_nodes index ns p = (r, p') \<and> no_faults p' \<and> (r = Inr () \<longleftrightarrow> (\<forall>n \<in> set ns. \<exists>b. node_page n = Inr b))"
  using assms
proof (induction ns arbitrary: index p)
  case (Cons n ns)
  show ?case
  proof (cases "node_page n")
    case (Inl e)
    then show ?thesis using Cons.prems(1) by (simp add: and_then_def write_page_def)
  next
    case (Inr b)
    have i: "index + 1 \<le> pg_pages p" using Cons.prems(3) by simp
    obtain p1 where 1: "pager_write (index + 1) b p = (Inr (), p1)" "no_faults p1" using pager_write_succeeds [OF Cons.prems(1,2) i] by blast
    then have w: "write_page (index + 1) (node_page n) p = (Inr (), p1)" using Inr by (simp add: write_page_def)
    have "holds p Map.empty" "length b = PAGE_SIZE" using Cons.prems(4) [of n b] Inr by (auto simp: holds_def)
    from write_page_ok [OF Cons.prems(2) this(1) _ _ w] Inr Cons.prems(3) this(2) have p1: "pager_wf p1" "index + 1 + length ns < pg_pages p1" by auto
    have "length b = PAGE_SIZE" if "m \<in> set ns" "node_page m = Inr b" for m b
      by (rule Cons.prems(4) [of m]) (use that in auto)
    from Cons.IH [OF 1(2) p1 this] w Inr show ?thesis by (auto simp: and_then_def)
  qed
qed auto

lemma save_pages_result:
  assumes t: "btree_at h t" "strings_ok (tree_ents h t)" "index_sized t" and p: "pager_wf p" "pg_pages p = 0" "no_faults p"
  shows "\<exists>r p'. save_pages t p = (r, p') \<and> no_faults p' \<and> (r = Inr () \<longleftrightarrow> (\<forall>n \<in> set (bt_nodes t). node_fits n))"
proof -
  have h: "holds p Map.empty" by (simp add: holds_def)
  obtain p1 where 1: "allocate p = (Inr (pg_pages p), p1)" "no_faults p1" using allocate_succeeds [OF p(3,1)] by blast
  have a1: "pager_wf p1" "holds p1 Map.empty" "pg_pages p1 = 1" using allocate_ok [OF p(1) h 1(1)] p(2) by auto
  obtain p2 where 2: "allocate_nodes (bt_nodes t) p1 = (Inr (), p2)" "no_faults p2" using allocate_nodes_succeeds [OF 1(2) a1(1)] by blast
  from allocate_nodes_ok [OF a1(1,2) 2(1)] a1(3) have a2: "pager_wf p2" "holds p2 Map.empty" "pg_pages p2 = length (bt_nodes t) + 1" by auto
  obtain b where b: "meta_page t = Inr b" "length b = PAGE_SIZE" using metadata_fits by (simp add: meta_page_eq)
  obtain p3 where "pager_write 0 b p2 = (Inr (), p3)" "no_faults p3" using pager_write_succeeds [OF 2(2) a2(1)] by blast
  then have 3: "write_page 0 (meta_page t) p2 = (Inr (), p3)" "no_faults p3" using b(1) by (simp_all add: write_page_def)
  from write_page_ok [OF a2(1,2) _ _ 3(1)] b a2(3) have a3: "pager_wf p3" "0 + length (bt_nodes t) < pg_pages p3" by auto
  have n: "length b = PAGE_SIZE" if n: "n \<in> set (bt_nodes t)" "node_page n = Inr b" for n b
    using decode_node_page(1) [OF btree_nodes [OF t(1,2) n(1)] _ n(2)] t(3) by (auto simp: index_sized_def)
  have f: "(\<exists>b. node_page n = Inr b) \<longleftrightarrow> node_fits n" if "n \<in> set (bt_nodes t)" for n
    using node_page_fits [OF btree_nodes(1) [OF t(1,2) that]] .
  from save_nodes_result [OF 3(2) a3 n] 1(1) 2(1) 3(1) f show ?thesis by (auto simp: save_pages_def and_then_def)
qed

lemma write_temp_result:
  assumes t: "btree_at h t" "strings_ok (tree_ents h t)" "index_sized t" and d: "fs_faults d = []"
    and w: "write_temp order t d = (r, d')"
  shows "r = Inr () \<longleftrightarrow> (\<forall>n \<in> set (bt_nodes t). node_fits n)" and "fs_faults d' = []"
proof -
  define d1 where "d1 = remove_tmp d"
  have d1: "fs_faults d1 = []" using d remove_tmp_frame(3) by (simp add: d1_def)
  obtain p where p: "pager_create (fs_tmp d1) (fs_faults d1) 64 = Inr p" "pager_wf p" "pg_pages p = 0" "pf_faults (pg_file p) = fs_faults d1"
    by (rule pager_create_ok)
  have nf: "no_faults p" using p(4) d1 by (simp add: no_faults_def)
  obtain r1 p1 where s: "save_pages t p = (r1, p1)" "no_faults p1" "r1 = Inr () \<longleftrightarrow> (\<forall>n \<in> set (bt_nodes t). node_fits n)"
    using save_pages_result [OF t p(2,3) nf] by blast
  obtain p2 where 2: "flush order p1 = (Inr (), p2)" "no_faults p2" using flush_succeeds [OF s(2)] by blast
  obtain p3 where 3: "flush order p2 = (Inr (), p3)" "no_faults p3" using flush_succeeds [OF 2(2)] by blast
  show "r = Inr () \<longleftrightarrow> (\<forall>n \<in> set (bt_nodes t). node_fits n)" "fs_faults d' = []"
    using w p(1) s 2 3 by (cases r1; auto simp: write_temp_def Let_def and_then_def drop_pager_def no_faults_def d1_def)+
qed

section \<open>Publishing\<close>

text \<open>The directory after each call of \<open>publish_snapshot\<close>: what a crash may leave.\<close>

definition publish_points :: "snapshot_fs \<Rightarrow> snapshot_fs list" where
  "publish_points d =
    (let d0 = remove_bak d; (r, d1) = (if fs_main d0 \<noteq> None then rename_main_bak d0 else (Inr (), d0)) in
     [d, d0, d1] @ (case r of Inl e \<Rightarrow> []
       | Inr _ \<Rightarrow> (case rename_tmp_main d1 of
           (Inl e, d2) \<Rightarrow> [d2, if fs_bak d2 \<noteq> None then snd (rename_bak_main d2) else d2]
         | (Inr _, d2) \<Rightarrow> [d2, remove_bak d2])))"

lemma publish_points_last: "last (publish_points d) = snd (publish_snapshot d)"
  by (auto simp: publish_points_def publish_snapshot_def and_then_def Let_def split: prod.splits sum.splits)

lemma publish_no_faults:
  assumes "fs_faults d = []" and "fs_tmp d = Some file"
  shows "publish_snapshot d = (Inr (), d\<lparr>fs_main := Some file, fs_tmp := None, fs_bak := None\<rparr>)"
    and "publish_points d = [d, d\<lparr>fs_bak := None\<rparr>, d\<lparr>fs_bak := fs_main d, fs_main := None\<rparr>,
      d\<lparr>fs_bak := fs_main d, fs_main := Some file, fs_tmp := None\<rparr>, d\<lparr>fs_main := Some file, fs_tmp := None, fs_bak := None\<rparr>]"
  using assms
  by (cases "fs_main d"; cases d; simp add: publish_snapshot_def publish_points_def and_then_def remove_bak_def rename_main_bak_def rename_tmp_main_def
      fs_outcome_def Let_def)+

lemma publish_point_loads:
  assumes d: "fs_faults d = []" "fs_tmp d = Some new_file" and new: "load_exact [] new_file = Inr new"
    and old: "fs_main d = Some old_file \<and> load_exact [] old_file = Inr old \<or> fs_main d = None \<and> fs_bak d = None \<and> old = btree_new"
    and p: "d' \<in> set (publish_points d)"
  shows "btree_load [] [] d' = Inr old \<or> btree_load [] [] d' = Inr new"
  using old p unfolding publish_no_faults(2) [OF d] by (auto simp: btree_load_def d new)

lemma saved_index:
  assumes "btree_inv t" and "btree_entries t = Some es" and "strings_ok es" and "index_sized t"
  obtains h where "btree_at h t" and "strings_ok (tree_ents h t)" and "index_sized t"
  using assms btree_at_entries by (fastforce simp: btree_inv_def)

lemma save_fits:
  assumes "btree_inv t" and "btree_entries t = Some es" and "strings_ok es" and "index_sized t"
    and o: "\<And>xs. set (order xs) = set xs" and f: "\<forall>n \<in> set (bt_nodes t). node_fits n" and d: "fs_faults d = []"
  obtains d1 bs where "write_temp order t d = (Inr (), d1)" and "fs_faults d1 = []" and "fs_tmp d1 = Some bs" and "load_exact [] bs = Inr t"
    and "fs_main d1 = fs_main d" and "fs_bak d1 = fs_bak d"
    and "btree_save order t d = (Inr (), d1\<lparr>fs_main := Some bs, fs_tmp := None, fs_bak := None\<rparr>)"
proof -
  obtain h where t: "btree_at h t" "strings_ok (tree_ents h t)" "index_sized t" by (rule saved_index [OF assms(1-4)])
  obtain d1 where w: "write_temp order t d = (Inr (), d1)" using write_temp_result(1) [OF t d] f by (metis surj_pair)
  obtain bs where b: "fs_tmp d1 = Some bs" "holds_snapshot bs t" using write_temp_ok [OF t o w] by blast
  note n = write_temp_result(2) [OF t d w]
  have "btree_save order t d = (Inr (), d1\<lparr>fs_main := Some bs, fs_tmp := None, fs_bak := None\<rparr>)"
    using publish_no_faults(1) [OF n b(1)] w n by (auto simp: btree_save_def and_then_def sync_parent_def fs_outcome_def)
  with that [OF w n b(1) load_exact_saved [OF t b(2)] write_temp_frame [OF w]] show thesis by blast
qed

lemma save_does_not_fit:
  assumes "btree_inv t" and "btree_entries t = Some es" and "strings_ok es" and "index_sized t"
    and f: "\<not> (\<forall>n \<in> set (bt_nodes t). node_fits n)" and d: "fs_faults d = []"
  obtains e d1 where "write_temp order t d = (Inl e, d1)" and "fs_faults d1 = []"
proof -
  obtain h where t: "btree_at h t" "strings_ok (tree_ents h t)" "index_sized t" by (rule saved_index [OF assms(1-4)])
  obtain r d1 where w: "write_temp order t d = (r, d1)" by force
  then show thesis using write_temp_result [OF t d w] f that by (cases r) auto
qed

lemma btree_save_result:
  assumes "btree_inv t" and "btree_entries t = Some es" and "strings_ok es" and "index_sized t"
    and o: "\<And>xs. set (order xs) = set xs" and d: "fs_faults d = []"
  shows "if \<forall>n \<in> set (bt_nodes t). node_fits n
    then fst (btree_save order t d) = Inr () \<and> fs_bak (snd (btree_save order t d)) = None
    else (\<exists>e. fst (btree_save order t d) = Inl e) \<and> fs_main (snd (btree_save order t d)) = fs_main d
      \<and> fs_bak (snd (btree_save order t d)) = fs_bak d"
proof (cases "\<forall>n \<in> set (bt_nodes t). node_fits n")
  case True
  obtain d1 bs where "btree_save order t d = (Inr (), d1\<lparr>fs_main := Some bs, fs_tmp := None, fs_bak := None\<rparr>)"
    by (rule save_fits [OF assms(1-5) True d])
  then show ?thesis using True by simp
next
  case False
  obtain e d1 where w: "write_temp order t d = (Inl e, d1)" by (rule save_does_not_fit [OF assms(1-4) False d])
  with False show ?thesis by (auto simp: btree_save_def and_then_def write_temp_frame [OF w])
qed

section \<open>A small index\<close>

definition one_entry :: btree where
  "one_entry = \<lparr>bt_nodes = [\<lparr>n_keys = [[97]], n_values = [[98]], n_children = []\<rparr>], bt_root = 0, bt_len = 1\<rparr>"

definition empty_dir :: snapshot_fs where
  "empty_dir = \<lparr>fs_main = None, fs_bak = None, fs_tmp = None, fs_faults = []\<rparr>"

lemma one_entry_at: "btree_at 0 one_entry"
  by (auto simp: btree_at_def one_entry_def pairs_def leaf_def node_ok_def bm_inv_def degrees)

lemma one_entry_facts:
  "btree_inv one_entry" "btree_entries one_entry = Some [([97], [98])]" "strings_ok [([97], [98])]" "index_sized one_entry"
  "\<forall>n \<in> set (bt_nodes one_entry). node_fits n"
proof -
  show "btree_inv one_entry" using one_entry_at by (auto simp: btree_inv_def)
  show "btree_entries one_entry = Some [([97], [98])]" using btree_at_entries [OF one_entry_at] by (simp add: one_entry_def pairs_def)
  show "strings_ok [([97], [98])]" by (simp add: strings_ok_def utf8_valid.simps utf8_step_def)
  show "index_sized one_entry" by (simp add: index_sized_def one_entry_def)
  show "\<forall>n \<in> set (bt_nodes one_entry). node_fits n"
    by (simp add: one_entry_def node_fits_def node_cells_def item_cell_def leaf_def page_fits_def HEADER_SIZE_def PAGE_SIZE_def)
qed

lemma new_facts:
  "btree_inv btree_new" "btree_entries btree_new = Some []" "strings_ok []" "index_sized btree_new" "\<forall>n \<in> set (bt_nodes btree_new). node_fits n"
  using btree_index.inv_new btree_index.entries_new
  by (simp_all add: strings_ok_def index_sized_def btree_new_def default_node_def node_fits_def node_cells_def leaf_def page_fits_def HEADER_SIZE_def PAGE_SIZE_def)

lemma rev_permutes: "set (rev xs) = set xs"
  by simp

section \<open>Properties\<close>

text \<open>
  C18. What \<open>save\<close> has written loads as the same index: whatever errors the operating system reports on the way and
  whatever the directory held before, when \<open>save\<close> returns successfully, \<open>load\<close> returns the very tree that was saved.
\<close>

theorem snapshot_round_trip:
  assumes "btree_inv t" and "btree_entries t = Some es" and "strings_ok es" and "index_sized t"
    and o: "\<And>xs. set (order xs) = set xs" and s: "btree_save order t d = (Inr (), d')"
  shows "btree_load [] [] d' = Inr t"
proof -
  obtain h where t: "btree_at h t" "strings_ok (tree_ents h t)" "index_sized t" by (rule saved_index [OF assms(1-4)])
  from s obtain d1 where 1: "write_temp order t d = (Inr (), d1)" "and_then publish_snapshot (\<lambda>_. sync_parent) d1 = (Inr (), d')"
    by (auto simp: btree_save_def and_then_Inr_iff)
  from write_temp_ok [OF t o 1(1)] obtain bs where "fs_tmp d1 = Some bs" "holds_snapshot bs t" by blast
  then have "fs_main d' = Some bs" "load_exact [] bs = Inr t" using publish_ok(1) [OF 1(2)] load_exact_saved [OF t] by simp_all
  then show ?thesis by (simp add: btree_load_def)
qed

theorem snapshot_round_trip_witness:
  "\<exists>d. btree_save rev one_entry empty_dir = (Inr (), d) \<and> btree_load [] [] d = Inr one_entry"
proof -
  have e: "fs_faults empty_dir = []" by (simp add: empty_dir_def)
  obtain d1 bs where "btree_save rev one_entry empty_dir = (Inr (), d1\<lparr>fs_main := Some bs, fs_tmp := None, fs_bak := None\<rparr>)"
    by (rule save_fits [OF one_entry_facts(1-4) rev_permutes one_entry_facts(5) e])
  with snapshot_round_trip [OF one_entry_facts(1-4) rev_permutes] show ?thesis by blast
qed

text \<open>
  C19. Without I/O errors \<open>save\<close> succeeds exactly when the cells of every node fit into one page, and when it fails the
  snapshot and its backup are untouched.
\<close>

theorem save_succeeds_iff_nodes_fit:
  assumes "btree_inv t" and "btree_entries t = Some es" and "strings_ok es" and "index_sized t"
    and o: "\<And>xs. set (order xs) = set xs" and d: "fs_faults d = []"
  shows "if \<forall>n \<in> set (bt_nodes t). node_fits n
    then fst (btree_save order t d) = Inr () \<and> fs_bak (snd (btree_save order t d)) = None
    else (\<exists>e. fst (btree_save order t d) = Inl e) \<and> fs_main (snd (btree_save order t d)) = fs_main d
      \<and> fs_bak (snd (btree_save order t d)) = fs_bak d"
  by (rule btree_save_result [OF assms])

theorem save_succeeds_iff_nodes_fit_witness: "fst (btree_save rev one_entry empty_dir) = Inr ()"
proof -
  have "fs_faults empty_dir = []" by (simp add: empty_dir_def)
  from save_succeeds_iff_nodes_fit [OF one_entry_facts(1-4) rev_permutes this] one_entry_facts(5) show ?thesis by simp
qed

text \<open>
  A crash at any point of the publication of a snapshot, when the old one is the main file (or there is none yet),
  leaves a directory from which \<open>load\<close> returns the old or the new index.
\<close>

theorem publication_is_atomic:
  assumes "btree_inv t" and "btree_entries t = Some es" and "strings_ok es" and "index_sized t"
    and o: "\<And>xs. set (order xs) = set xs" and d: "fs_faults d = []" and w: "write_temp order t d = (Inr (), d1)"
    and old: "btree_load [] [] d = Inr old" and main: "fs_main d \<noteq> None \<and> load_exact [] (the (fs_main d)) = Inr old \<or> fs_main d = None \<and> fs_bak d = None"
    and p: "d' \<in> set (publish_points d1)"
  shows "btree_load [] [] d' = Inr old \<or> btree_load [] [] d' = Inr t"
proof -
  obtain h where t: "btree_at h t" "strings_ok (tree_ents h t)" "index_sized t" by (rule saved_index [OF assms(1-4)])
  obtain bs where f: "fs_tmp d1 = Some bs" "holds_snapshot bs t" using write_temp_ok [OF t o w] by blast
  note ld = load_exact_saved [OF t f(2)]
  have "fs_main d1 = Some (the (fs_main d)) \<and> load_exact [] (the (fs_main d)) = Inr old \<or> fs_main d1 = None \<and> fs_bak d1 = None \<and> old = btree_new"
    using main old unfolding write_temp_frame [OF w] by (auto simp: btree_load_def)
  from publish_point_loads [OF write_temp_result(2) [OF t d w] f(1) ld this p] show ?thesis .
qed

theorem publication_is_atomic_witness:
  "\<exists>d d1. fs_main d \<noteq> None \<and> btree_load [] [] d = Inr one_entry \<and> write_temp rev btree_new d = (Inr (), d1)
    \<and> (btree_load [] [] (publish_points d1 ! 2) = Inr one_entry \<or> btree_load [] [] (publish_points d1 ! 2) = Inr btree_new)"
proof -
  have e: "fs_faults empty_dir = []" by (simp add: empty_dir_def)
  obtain d0 :: snapshot_fs and bs where 0: "fs_faults d0 = []" "load_exact [] bs = Inr one_entry"
    by (rule save_fits [OF one_entry_facts(1-4) rev_permutes one_entry_facts(5) e]) blast
  define d where "d = d0\<lparr>fs_main := Some bs\<rparr>"
  have d: "fs_faults d = []" "fs_main d = Some bs" "btree_load [] [] d = Inr one_entry" using 0 by (simp_all add: d_def btree_load_def)
  obtain d1 bs' where 1: "write_temp rev btree_new d = (Inr (), d1)" "fs_faults d1 = []" "fs_tmp d1 = Some bs'"
    by (rule save_fits [OF new_facts(1-4) rev_permutes new_facts(5) d(1)])
  have "fs_main d \<noteq> None \<and> load_exact [] (the (fs_main d)) = Inr one_entry \<or> fs_main d = None \<and> fs_bak d = None" using d 0 by simp
  moreover have "publish_points d1 ! 2 \<in> set (publish_points d1)" by (intro nth_mem) (simp add: publish_no_faults(2) [OF 1(2,3)])
  ultimately have "btree_load [] [] (publish_points d1 ! 2) = Inr one_entry \<or> btree_load [] [] (publish_points d1 ! 2) = Inr btree_new"
    by (rule publication_is_atomic [OF new_facts(1-4) rev_permutes d(1) 1(1) d(3)])
  with 1(1) d(2,3) show ?thesis by blast
qed

end
