(* ===== verification/Store.thy ===== *)
theory Store
  imports Command BTree_Persistence
begin

text \<open>
  \<open>src/src/store.rs\<close>: the durable key/value store. Its state is the log, the directory of its page snapshot, the index
  and the statistics of the recovery. Every mutation is appended to the log and synced before the index changes;
  \<open>checkpoint\<close> saves the index and empties the log; \<open>open\<close> loads the snapshot and replays the log over it.
\<close>

section \<open>State and operations\<close>

record store_recovery =
  records_replayed :: nat
  was_truncated :: bool
  valid_prefix :: nat

record store =
  st_wal :: wal
  st_dir :: snapshot_fs
  st_data :: btree
  st_recovery :: store_recovery

definition on_log :: "(wal, io_error, 'a) eff \<Rightarrow> (store, failure, 'a) eff" where
  "on_log m s = (case m (st_wal s) of (r, w) \<Rightarrow> (of_io r, s\<lparr>st_wal := w\<rparr>))"

definition on_dir :: "(snapshot_fs, failure, 'a) eff \<Rightarrow> (store, failure, 'a) eff" where
  "on_dir m s = (case m (st_dir s) of (r, d) \<Rightarrow> (r, s\<lparr>st_dir := d\<rparr>))"

fun apply_memory :: "command \<Rightarrow> btree \<Rightarrow> btree may_fail" where
  "apply_memory (CSet key v) data = expect (btree_insert key v data)"
| "apply_memory (CDelete key) data = rbind (expect (btree_delete key data)) (\<lambda>(_, data). Inr data)"
| "apply_memory CCheckpoint data = Inr data"

fun replay_records :: "bytes list \<Rightarrow> btree \<Rightarrow> btree may_fail" where
  "replay_records [] data = Inr data"
| "replay_records (record # rest) data =
    rbind (of_io (decode record)) (\<lambda>command. rbind (apply_memory command data) (replay_records rest))"

text \<open>
  The state of \<open>open\<close> is the log file; \<open>faults\<close>, \<open>lf\<close> and \<open>lf'\<close> are the outcomes of the calls on the log, on the snapshot
  and on its backup.
\<close>

definition store_open :: "io_outcome list \<Rightarrow> io_outcome list \<Rightarrow> io_outcome list \<Rightarrow> snapshot_fs \<Rightarrow> (bytes option, failure, store) eff" where
  "store_open faults lf lf' dir path =
    (let r = replay path in
     case rbind (btree_load lf lf' dir) (replay_records (records r)) of
       Inl e \<Rightarrow> (Inl e, path)
     | Inr data \<Rightarrow>
       (case (if truncated r then truncate_path (valid_bytes r) (open_wal path faults) else (Inr (), open_wal path faults)) of
          (Inl e, w) \<Rightarrow> (fail_with e, Some (wal_bytes w))
        | (Inr _, w) \<Rightarrow>
            (Inr \<lparr>st_wal = w, st_dir = dir, st_data = data,
               st_recovery = \<lparr>records_replayed = length (records r), was_truncated = truncated r, valid_prefix = valid_bytes r\<rparr>\<rparr>,
             Some (wal_bytes w))))"

definition mutate :: "command \<Rightarrow> (store, failure, unit) eff" where
  "mutate command s = (case apply_memory command (st_data s) of
     Inl e \<Rightarrow> (Inl e, s)
   | Inr data \<Rightarrow> (Inr (), s\<lparr>st_data := data\<rparr>))"

definition store_apply :: "command \<Rightarrow> (store, failure, unit) eff" where
  "store_apply command =
    and_then (on_log (append_record (encode command))) (\<lambda>_.
    and_then (on_log sync) (\<lambda>_. mutate command))"

definition store_set :: "rstring \<Rightarrow> rstring \<Rightarrow> (store, failure, unit) eff" where
  "store_set key v = store_apply (CSet key v)"

definition store_delete :: "rstring \<Rightarrow> (store, failure, unit) eff" where
  "store_delete key = store_apply (CDelete key)"

primrec append_all :: "command list \<Rightarrow> (store, failure, unit) eff" where
  "append_all [] s = (Inr (), s)"
| "append_all (c # cs) s = and_then (on_log (append_record (encode c))) (\<lambda>_. append_all cs) s"

primrec mutate_all :: "command list \<Rightarrow> (store, failure, unit) eff" where
  "mutate_all [] s = (Inr (), s)"
| "mutate_all (c # cs) s = and_then (mutate c) (\<lambda>_. mutate_all cs) s"

definition apply_batch :: "command list \<Rightarrow> (store, failure, unit) eff" where
  "apply_batch commands s =
    (if CCheckpoint \<in> set commands
     then (fail_with (invalid_input ''store: checkpoint is not a user mutation''), s)
     else and_then (append_all commands) (\<lambda>_. and_then (on_log sync) (\<lambda>_. mutate_all commands)) s)"

definition set_batch :: "(rstring \<times> rstring) list \<Rightarrow> (store, failure, unit) eff" where
  "set_batch entries = apply_batch (map (\<lambda>(key, v). CSet key v) entries)"

fun stage_error :: "string \<Rightarrow> failure \<Rightarrow> failure" where
  "stage_error stage Panicked = Panicked"
| "stage_error stage (Failed (IoError kind msg)) = Failed (IoError kind (''store: failed to '' @ stage @ '': '' @ msg))"

definition at_stage :: "string \<Rightarrow> (store, failure, unit) eff \<Rightarrow> (store, failure, unit) eff" where
  "at_stage stage m s = (case m s of (r, s) \<Rightarrow> (map_err (stage_error stage) r, s))"

definition checkpoint :: "(page_id list \<Rightarrow> page_id list) \<Rightarrow> (store, failure, unit) eff" where
  "checkpoint order s =
    and_then (at_stage ''write page snapshot'' (on_dir (btree_save order (st_data s)))) (\<lambda>_.
    and_then (at_stage ''append checkpoint record'' (on_log (append_record (encode CCheckpoint)))) (\<lambda>_.
    and_then (at_stage ''sync checkpoint record'' (on_log sync)) (\<lambda>_.
    at_stage ''truncate checkpointed WAL'' (on_log reset)))) s"

definition store_get :: "store \<Rightarrow> rstring \<Rightarrow> rstring option may_fail" where
  "store_get s key = expect (btree_get (st_data s) key)"

definition store_contains :: "store \<Rightarrow> rstring \<Rightarrow> bool may_fail" where
  "store_contains s key = rbind (expect (btree_get (st_data s) key)) (\<lambda>v. Inr (v \<noteq> None))"

definition store_len :: "store \<Rightarrow> nat" where
  "store_len s = bt_len (st_data s)"

definition store_is_empty :: "store \<Rightarrow> bool" where
  "store_is_empty s = btree_is_empty (st_data s)"

definition keys_sorted :: "store \<Rightarrow> rstring list may_fail" where
  "keys_sorted s = expect (btree_keys (st_data s))"

definition store_range :: "store \<Rightarrow> rstring \<Rightarrow> rstring \<Rightarrow> (rstring \<times> rstring) list may_fail" where
  "store_range s start stop = expect (btree_range (st_data s) start stop)"

definition wal_size :: "store \<Rightarrow> nat" where
  "wal_size s = size_of_wal (st_wal s)"

section \<open>The abstract map\<close>

type_synonym kvs = "(rstring, rstring) bmap"

fun cmd_map :: "command \<Rightarrow> kvs \<Rightarrow> kvs" where
  "cmd_map (CSet k v) m = bm_insert k v m"
| "cmd_map (CDelete k) m = bm_remove k m"
| "cmd_map CCheckpoint m = m"

abbreviation apply_cmds :: "command list \<Rightarrow> kvs \<Rightarrow> kvs" where
  "apply_cmds cs m \<equiv> fold cmd_map cs m"

definition represents :: "btree \<Rightarrow> kvs \<Rightarrow> bool" where
  "represents t m \<longleftrightarrow> btree_inv t \<and> btree_entries t = Some m"

lemma bm_inv_cmd [simp]: "bm_inv m \<Longrightarrow> bm_inv (cmd_map c m)"
  by (cases c) simp_all

lemma bm_inv_cmds [simp]: "bm_inv m \<Longrightarrow> bm_inv (apply_cmds cs m)"
  by (induction cs arbitrary: m) simp_all

lemma represents_inv: "represents t m \<Longrightarrow> bm_inv m"
  using btree_index.entries_total [of t] by (auto simp: represents_def)

lemma represents_new [simp]: "represents btree_new []"
  by (simp add: represents_def btree_index.inv_new btree_index.entries_new)

text \<open>A key is either untouched by a sequence of commands or left as they make it, whatever the map was.\<close>

lemma cmds_touch:
  "(\<forall>m. bm_get (apply_cmds cs m) k = bm_get m k) \<or> (\<forall>m m'. bm_get (apply_cmds cs m) k = bm_get (apply_cmds cs m') k)"
proof (induction cs rule: rev_induct)
  case (snoc c cs)
  then show ?case by (cases c) auto
qed simp

lemma cmds_idempotent:
  assumes "bm_inv m"
  shows "apply_cmds cs (apply_cmds cs m) = apply_cmds cs m"
proof (rule bm_eqI)
  show "bm_get (apply_cmds cs (apply_cmds cs m)) = bm_get (apply_cmds cs m)"
    using cmds_touch [of cs] by (intro ext) metis
qed (use assms in simp_all)

lemma apply_memory_ok:
  assumes "represents t m"
  shows "\<exists>t'. apply_memory c t = Inr t' \<and> represents t' (cmd_map c m)"
proof (cases c)
  case (CSet k v)
  obtain t' where "btree_insert k v t = Some t'" "btree_inv t'" "btree_entries t' = Some (bm_insert k v m)"
    using btree_index.ins_law [of t m k v] assms by (auto simp: represents_def)
  then show ?thesis by (simp add: CSet represents_def expect_def)
next
  case (CDelete k)
  obtain b t' where "btree_delete k t = Some (b, t')" "btree_inv t'" "btree_entries t' = Some (bm_remove k m)"
    using btree_index.del_law [of t m k] assms by (auto simp: represents_def)
  then show ?thesis by (simp add: CDelete represents_def expect_def)
qed (use assms in simp)

lemma replay_records_ok:
  "represents t m \<Longrightarrow> list_all command_fits cs \<Longrightarrow> \<exists>t'. replay_records (map encode cs) t = Inr t' \<and> represents t' (apply_cmds cs m)"
proof (induction cs arbitrary: t m)
  case (Cons c cs)
  obtain t1 where 1: "apply_memory c t = Inr t1" "represents t1 (cmd_map c m)" using apply_memory_ok [OF Cons.prems(1)] by blast
  have "decode (encode c) = Inr c" using Cons.prems(2) cmd.dec_enc by simp
  with Cons.IH [OF 1(2)] Cons.prems(2) 1(1) show ?case by simp
qed simp

lemma mutate_all_ok:
  "represents (st_data s) m \<Longrightarrow> \<exists>t. mutate_all cs s = (Inr (), s\<lparr>st_data := t\<rparr>) \<and> represents t (apply_cmds cs m)"
proof (induction cs arbitrary: s m)
  case Nil
  then show ?case by (intro exI [of _ "st_data s"]) simp
next
  case (Cons c cs)
  obtain t1 where 1: "apply_memory c (st_data s) = Inr t1" "represents t1 (cmd_map c m)" using apply_memory_ok [OF Cons.prems(1)] by blast
  from Cons.IH [of "s\<lparr>st_data := t1\<rparr>" "cmd_map c m"] 1 show ?case by (auto simp: and_then_def mutate_def)
qed

lemma strings_ok_cmd: "strings_ok m \<Longrightarrow> command_utf8 c \<Longrightarrow> bm_inv m \<Longrightarrow> strings_ok (cmd_map c m)"
  using bm_get_in [of m] bm_get_in [of "cmd_map c m"]
  by (cases c) (auto simp: strings_ok_def split: if_splits)

lemma strings_ok_cmds: "strings_ok m \<Longrightarrow> list_all command_fits cs \<Longrightarrow> bm_inv m \<Longrightarrow> strings_ok (apply_cmds cs m)"
  by (induction cs arbitrary: m) (auto simp: strings_ok_cmd command_fits_def)

end
