(* ===== verification/Store_Durability.thy ===== *)
theory Store_Durability
  imports Store
begin

text \<open>
  Durability of the store. A life of the store is any sequence of completed mutations, batches and checkpoints, of
  refused calls and of crashes at any point of a mutation, a batch or a checkpoint, each followed by a new \<open>open\<close>; the disk
  reports no errors, and a crash keeps what was synced and some prefix of what was written after it. One crash is excluded:
  while a snapshot is published into a directory in which an earlier crash left only the backup
  (\<open>second_crash_loses_snapshot\<close> shows what it does). The invariant says that replaying the log over the snapshot gives
  the index.
\<close>

section \<open>The operations without I/O errors\<close>

lemma append_all_ok:
  assumes "wal_faults (st_wal s) = []" and "list_all command_fits cs"
  shows "append_all cs s = (Inr (), s\<lparr>st_wal := (st_wal s)\<lparr>wal_bytes := wal_bytes (st_wal s) @ wal_log (map encode cs)\<rparr>\<rparr>)"
  using assms
proof (induction cs arbitrary: s)
  case (Cons c cs)
  have a: "append_record (encode c) (st_wal s) = (Inr (), (st_wal s)\<lparr>wal_bytes := wal_bytes (st_wal s) @ frame (encode c)\<rparr>)"
    using Cons.prems cmd.enc_fits by (intro append_record_ok) simp_all
  with Cons.IH [of "s\<lparr>st_wal := (st_wal s)\<lparr>wal_bytes := wal_bytes (st_wal s) @ frame (encode c)\<rparr>\<rparr>"] Cons.prems
  show ?case by (simp add: and_then_def on_log_def)
qed simp

lemma append_all_fits:
  assumes "append_all cs s = (Inr (), s')" and "list_all command_utf8 cs"
  shows "list_all command_fits cs"
  using assms
proof (induction cs arbitrary: s)
  case (Cons c cs)
  from Cons.prems(1) obtain s1 where 1: "on_log (append_record (encode c)) s = (Inr (), s1)" "append_all cs s1 = (Inr (), s')"
    by (auto simp: and_then_Inr_iff)
  from 1(1) obtain w where "append_record (encode c) (st_wal s) = (Inr (), w)" by (auto simp: on_log_def split: prod.splits)
  from append_record_cases [OF this] Cons.IH [OF 1(2)] Cons.prems(2) show ?case by (auto simp: command_fits_def)
qed simp

definition logged :: "command list \<Rightarrow> store \<Rightarrow> store" where
  "logged cs s = s\<lparr>st_wal := (st_wal s)\<lparr>wal_bytes := wal_bytes (st_wal s) @ wal_log (map encode cs),
     wal_synced := length (wal_bytes (st_wal s) @ wal_log (map encode cs))\<rparr>\<rparr>"

lemma apply_batch_ok:
  assumes s: "wal_faults (st_wal s) = []" "represents (st_data s) m" and cs: "list_all command_utf8 cs" and r: "apply_batch cs s = (Inr (), s')"
  shows "list_all command_fits cs \<and> (\<exists>t. s' = (logged cs s)\<lparr>st_data := t\<rparr> \<and> represents t (apply_cmds cs m))"
proof -
  from r obtain s1 where 1: "append_all cs s = (Inr (), s1)" "and_then (on_log sync) (\<lambda>_. mutate_all cs) s1 = (Inr (), s')"
    by (auto simp: apply_batch_def and_then_Inr_iff split: if_splits)
  have fits: "list_all command_fits cs" by (rule append_all_fits [OF 1(1) cs])
  have s1: "s1 = s\<lparr>st_wal := (st_wal s)\<lparr>wal_bytes := wal_bytes (st_wal s) @ wal_log (map encode cs)\<rparr>\<rparr>"
    using append_all_ok [OF s(1) fits] 1(1) by simp
  have "on_log sync s1 = (Inr (), logged cs s)" using s(1) by (simp add: s1 on_log_def sync_ok logged_def)
  moreover obtain t where "mutate_all cs (logged cs s) = (Inr (), (logged cs s)\<lparr>st_data := t\<rparr>)" "represents t (apply_cmds cs m)"
    using mutate_all_ok [of "logged cs s" m cs] s(2) by (auto simp: logged_def)
  ultimately show ?thesis using 1(2) fits by (auto simp: and_then_def)
qed

lemma store_apply_batch: "c \<noteq> CCheckpoint \<Longrightarrow> store_apply c = apply_batch [c]"
proof
  fix s assume "c \<noteq> CCheckpoint"
  then show "store_apply c s = apply_batch [c] s"
    by (cases "on_log (append_record (encode c)) s"; cases "fst (on_log (append_record (encode c)) s)")
      (auto simp: store_apply_def apply_batch_def and_then_def split: prod.splits sum.splits)
qed

section \<open>Invariant\<close>

text \<open>The directory's snapshot is a map: the main file, or the backup when a crash left only that, or neither.\<close>

definition dir_holds :: "snapshot_fs \<Rightarrow> kvs \<Rightarrow> bool" where
  "dir_holds d m \<longleftrightarrow> fs_faults d = [] \<and> strings_ok m \<and> (\<exists>t. represents t m \<and>
    (case fs_main d of Some bs \<Rightarrow> load_exact [] bs = Inr t
     | None \<Rightarrow> (case fs_bak d of Some bs \<Rightarrow> load_exact [] bs = Inr t | None \<Rightarrow> t = btree_new)))"

lemma dir_holds_load: "dir_holds d m \<Longrightarrow> \<exists>t. btree_load [] [] d = Inr t \<and> represents t m"
  by (auto simp: dir_holds_def btree_load_def split: option.splits)

definition store_inv :: "store \<Rightarrow> kvs \<Rightarrow> bool" where
  "store_inv s m \<longleftrightarrow> wal_faults (st_wal s) = [] \<and> represents (st_data s) m
    \<and> wal_synced (st_wal s) = length (wal_bytes (st_wal s))
    \<and> (\<exists>m0 cs. list_all command_fits cs \<and> wal_bytes (st_wal s) = wal_log (map encode cs) \<and> dir_holds (st_dir s) m0 \<and> m = apply_cmds cs m0)"

lemma store_invI:
  assumes "list_all command_fits cs" and "wal_bytes (st_wal s) = wal_log (map encode cs)" and "dir_holds (st_dir s) m0" and "m = apply_cmds cs m0"
    and "wal_faults (st_wal s) = []" and "represents (st_data s) m" and "wal_synced (st_wal s) = length (wal_bytes (st_wal s))"
  shows "store_inv s m"
  using assms unfolding store_inv_def by blast

lemma store_inv_strings: "store_inv s m \<Longrightarrow> strings_ok m"
  unfolding store_inv_def dir_holds_def using strings_ok_cmds represents_inv by metis

lemma apply_batch_inv:
  assumes "store_inv s m" and "list_all command_utf8 cs" and "apply_batch cs s = (Inr (), s')"
  shows "store_inv s' (apply_cmds cs m)"
proof -
  obtain m0 cs0 where i: "wal_faults (st_wal s) = []" "represents (st_data s) m" "list_all command_fits cs0"
    "wal_bytes (st_wal s) = wal_log (map encode cs0)" "dir_holds (st_dir s) m0" "m = apply_cmds cs0 m0"
    using assms(1) by (auto simp: store_inv_def)
  from apply_batch_ok [OF i(1,2) assms(2,3)] obtain t where t: "list_all command_fits cs" "s' = (logged cs s)\<lparr>st_data := t\<rparr>"
    "represents t (apply_cmds cs m)" by blast
  have "wal_bytes (st_wal s') = wal_log (map encode (cs0 @ cs))" "list_all command_fits (cs0 @ cs)" "apply_cmds cs m = apply_cmds (cs0 @ cs) m0"
    using i t by (simp_all add: logged_def)
  then show ?thesis using i(1,5) t(2,3) by (intro store_invI [of "cs0 @ cs" _ m0]) (auto simp: logged_def)
qed

section \<open>Opening after a crash\<close>

lemma store_open_ok:
  assumes d: "dir_holds d m0" and cs: "list_all command_fits cs" and f: "f = wal_log (map encode cs) @ t" "\<not> starts_with_frame t"
  shows "\<exists>s. store_open [] [] [] d (Some f) = (Inr s, Some (wal_log (map encode cs))) \<and> store_inv s (apply_cmds cs m0)
    \<and> st_recovery s = \<lparr>records_replayed = length cs, was_truncated = (t \<noteq> []), valid_prefix = length (wal_log (map encode cs))\<rparr>"
proof -
  obtain t0 where t0: "btree_load [] [] d = Inr t0" "represents t0 m0" using dir_holds_load [OF d] by blast
  obtain t1 where t1: "replay_records (map encode cs) t0 = Inr t1" "represents t1 (apply_cmds cs m0)" using replay_records_ok [OF t0(2) cs] by blast
  have r: "replay (Some f) = \<lparr>records = map encode cs, truncated = (t \<noteq> []), valid_bytes = length (wal_log (map encode cs))\<rparr>"
    using cmd.replay_values_tail [OF cs f(2)] f(1) by simp
  define w where "w = \<lparr>wal_bytes = wal_log (map encode cs), wal_synced = length (wal_log (map encode cs)), wal_faults = []\<rparr>"
  have w: "(if t \<noteq> [] then truncate_path (length (wal_log (map encode cs))) (open_wal (Some f) []) else (Inr (), open_wal (Some f) [])) = (Inr (), w)"
    by (simp add: truncate_path_ok open_wal_def f(1) w_def Let_def)
  define s where "s = \<lparr>st_wal = w, st_dir = d, st_data = t1,
      st_recovery = \<lparr>records_replayed = length cs, was_truncated = (t \<noteq> []), valid_prefix = length (wal_log (map encode cs))\<rparr>\<rparr>"
  have "store_open [] [] [] d (Some f) = (Inr s, Some (wal_bytes w))"
    unfolding store_open_def Let_def r using t0(1) t1(1) w by (cases "t = []") (simp_all add: s_def)
  moreover have "store_inv s (apply_cmds cs m0)" unfolding store_inv_def using t1(2) d cs by (auto simp: s_def w_def)
  ultimately show ?thesis by (simp add: s_def w_def)
qed

text \<open>A crash while \<open>ys\<close> are being appended to a log of \<open>xs\<close>.\<close>

lemma store_open_crash:
  assumes d: "dir_holds d m0" and cs: "list_all command_fits (xs @ ys)" and w: "wal_bytes w = wal_log (map encode (xs @ ys))"
    "length (wal_log (map encode xs)) \<le> wal_synced w" and f: "crash_image w f"
  shows "\<exists>s k. store_open [] [] [] d (Some f) = (Inr s, Some (wal_bytes (st_wal s))) \<and> store_inv s (apply_cmds (xs @ take k ys) m0)"
proof -
  from f obtain n where n: "wal_synced w \<le> n" "f = take n (wal_bytes w)" by (auto simp: crash_image_def)
  then obtain k t where kt: "f = wal_log (map encode (xs @ take k ys)) @ t" "\<not> starts_with_frame t"
    using cmd.crash_prefix [OF cs] w by (metis order_trans)
  have "list_all command_fits (xs @ take k ys)" using cs by (auto simp: list_all_iff dest: in_set_takeD)
  from store_open_ok [OF d this kt] obtain s where "store_open [] [] [] d (Some f) = (Inr s, Some (wal_log (map encode (xs @ take k ys))))"
    "store_inv s (apply_cmds (xs @ take k ys) m0)" by blast
  moreover from this(1) have "wal_bytes (st_wal s) = wal_log (map encode (xs @ take k ys))"
    by (auto simp: store_open_def Let_def split: sum.splits prod.splits if_splits)
  ultimately show ?thesis by metis
qed

section \<open>Checkpoints\<close>

lemma dir_holds_saved:
  assumes "represents t m" and "strings_ok m" and "load_exact [] bs = Inr t" and "fs_faults d = []" and "fs_main d = Some bs"
  shows "dir_holds d m"
  using assms by (auto simp: dir_holds_def)

lemma dir_holds_same: "dir_holds d m \<Longrightarrow> fs_main d' = fs_main d \<Longrightarrow> fs_bak d' = fs_bak d \<Longrightarrow> fs_faults d' = [] \<Longrightarrow> dir_holds d' m"
  by (simp only: dir_holds_def)

lemma checkpoint_inv:
  assumes inv: "store_inv s m" and sz: "index_sized (st_data s)" and o: "\<And>xs. set (order xs) = set xs" and r: "checkpoint order s = (r, s')"
  shows "store_inv s' m"
proof -
  obtain m0 cs where i: "wal_faults (st_wal s) = []" "represents (st_data s) m" "list_all command_fits cs"
    "wal_bytes (st_wal s) = wal_log (map encode cs)" "dir_holds (st_dir s) m0" "m = apply_cmds cs m0"
    "wal_synced (st_wal s) = length (wal_bytes (st_wal s))"
    using inv by (auto simp: store_inv_def)
  have t: "btree_inv (st_data s)" "btree_entries (st_data s) = Some m" "strings_ok m" using i(2) store_inv_strings [OF inv] by (auto simp: represents_def)
  have d: "fs_faults (st_dir s) = []" using i(5) by (simp add: dir_holds_def)
  show ?thesis
  proof (cases "\<forall>n \<in> set (bt_nodes (st_data s)). node_fits n")
    case True
    obtain d1 bs where d1: "fs_faults d1 = []" "load_exact [] bs = Inr (st_data s)"
      "btree_save order (st_data s) (st_dir s) = (Inr (), d1\<lparr>fs_main := Some bs, fs_tmp := None, fs_bak := None\<rparr>)"
      by (rule save_fits [OF t sz o True d])
    define d2 where "d2 = d1\<lparr>fs_main := Some bs, fs_tmp := None, fs_bak := None\<rparr>"
    have "s' = s\<lparr>st_dir := d2, st_wal := (st_wal s)\<lparr>wal_bytes := [], wal_synced := 0\<rparr>\<rparr>"
      using r i(1) d1(3) unfolding d2_def [symmetric]
      by (simp add: checkpoint_def and_then_def at_stage_def on_dir_def on_log_def append_record_ok fits_record_def sync_ok reset_def
          truncate_all_def sync_all_def next_outcome_def)
    moreover have "dir_holds d2 m" by (rule dir_holds_saved [OF i(2) t(3) d1(2)]) (simp_all add: d2_def d1(1))
    ultimately show ?thesis using i(1,2) by (intro store_invI [of "[]" _ m]) auto
  next
    case False
    obtain e d1 where w: "write_temp order (st_data s) (st_dir s) = (Inl e, d1)" "fs_faults d1 = []" by (rule save_does_not_fit [OF t sz False d])
    then have "s' = s\<lparr>st_dir := d1\<rparr>" using r by (simp add: checkpoint_def and_then_def at_stage_def on_dir_def btree_save_def)
    moreover have "dir_holds d1 m0" by (rule dir_holds_same [OF i(5) write_temp_frame [OF w(1)] w(2)])
    ultimately show ?thesis using i by (intro store_invI [of cs _ m0]) auto
  qed
qed

section \<open>Crashes\<close>

text \<open>
  \<open>store_crash s cs f d\<close>: a crash of \<open>s\<close> while the commands \<open>cs\<close> are in flight (none for an idle store or a checkpoint)
  can leave the log file \<open>f\<close> and the directory \<open>d\<close>. The cases are those of a batch, and of a checkpoint while it writes
  the temporary file, publishes it, appends its record, and has emptied the log. The publication of a snapshot over a
  directory that an earlier crash left with only the backup is excluded: see \<open>second_crash_loses_snapshot\<close>.
\<close>

inductive store_crash :: "store \<Rightarrow> command list \<Rightarrow> bytes \<Rightarrow> snapshot_fs \<Rightarrow> bool" where
  crash_batch: "list_all command_fits cs \<Longrightarrow> append_all cs s = (Inr (), s') \<Longrightarrow> crash_image (st_wal s') f \<Longrightarrow> store_crash s cs f (st_dir s)"
| crash_temp: "store_crash s [] (wal_bytes (st_wal s)) ((st_dir s)\<lparr>fs_tmp := tmp\<rparr>)"
| crash_publish: "write_temp order (st_data s) (st_dir s) = (Inr (), d1) \<Longrightarrow> (\<And>xs. set (order xs) = set xs) \<Longrightarrow> index_sized (st_data s) \<Longrightarrow>
    fs_main (st_dir s) \<noteq> None \<or> fs_bak (st_dir s) = None \<Longrightarrow> d \<in> set (publish_points d1) \<Longrightarrow>
    store_crash s [] (wal_bytes (st_wal s)) d"
| crash_record: "btree_save order (st_data s) (st_dir s) = (Inr (), d) \<Longrightarrow> (\<And>xs. set (order xs) = set xs) \<Longrightarrow> index_sized (st_data s) \<Longrightarrow>
    append_record (encode CCheckpoint) (st_wal s) = (Inr (), w) \<Longrightarrow> crash_image w f \<Longrightarrow> store_crash s [] f d"
| crash_reset: "btree_save order (st_data s) (st_dir s) = (Inr (), d) \<Longrightarrow> (\<And>xs. set (order xs) = set xs) \<Longrightarrow> index_sized (st_data s) \<Longrightarrow>
    store_crash s [] [] d"

lemma save_succeeded:
  assumes t: "represents t m" "strings_ok m" "index_sized t" and o: "\<And>xs. set (order xs) = set xs" and d: "fs_faults d = []"
    and w: "write_temp order t d = (Inr (), d1)"
  obtains bs where "fs_faults d1 = []" and "fs_tmp d1 = Some bs" and "load_exact [] bs = Inr t" and "fs_main d1 = fs_main d" and "fs_bak d1 = fs_bak d"
    and "btree_save order t d = (Inr (), d1\<lparr>fs_main := Some bs, fs_tmp := None, fs_bak := None\<rparr>)"
proof -
  have e: "btree_inv t" "btree_entries t = Some m" using t(1) by (auto simp: represents_def)
  have "\<forall>n \<in> set (bt_nodes t). node_fits n"
  proof (rule ccontr)
    assume "\<not> (\<forall>n \<in> set (bt_nodes t). node_fits n)"
    then obtain e' d2 where "write_temp order t d = (Inl e', d2)" by (rule save_does_not_fit [OF e t(2,3) _ d])
    with w show False by simp
  qed
  then show thesis by (rule save_fits [OF e t(2,3) o _ d]) (use w that in auto)
qed

lemma save_dir:
  assumes inv: "store_inv s m" and sv: "btree_save order (st_data s) (st_dir s) = (Inr (), d)" and o: "\<And>xs. set (order xs) = set xs"
    and sz: "index_sized (st_data s)"
  shows "dir_holds d m"
proof -
  have r: "represents (st_data s) m" and st: "strings_ok m" and f: "fs_faults (st_dir s) = []"
    using inv store_inv_strings [OF inv] by (auto simp: store_inv_def dir_holds_def)
  from sv obtain d1 where w: "write_temp order (st_data s) (st_dir s) = (Inr (), d1)" by (auto simp: btree_save_def and_then_Inr_iff)
  obtain bs where b: "fs_faults d1 = []" "load_exact [] bs = Inr (st_data s)"
    "btree_save order (st_data s) (st_dir s) = (Inr (), d1\<lparr>fs_main := Some bs, fs_tmp := None, fs_bak := None\<rparr>)"
    by (rule save_succeeded [OF r st sz o f w])
  show ?thesis by (rule dir_holds_saved [OF r st b(2)]) (use b sv in auto)
qed

lemma crash_dir:
  assumes inv: "store_inv s m" and w: "write_temp order (st_data s) (st_dir s) = (Inr (), d1)" and o: "\<And>xs. set (order xs) = set xs"
    and sz: "index_sized (st_data s)" and old: "dir_holds (st_dir s) m0" and main: "fs_main (st_dir s) \<noteq> None \<or> fs_bak (st_dir s) = None"
    and d: "d \<in> set (publish_points d1)"
  shows "dir_holds d m0 \<or> dir_holds d m"
proof -
  have r: "represents (st_data s) m" and st: "strings_ok m" and f: "fs_faults (st_dir s) = []"
    using inv old store_inv_strings [OF inv] by (auto simp: store_inv_def dir_holds_def)
  obtain bs where b: "fs_faults d1 = []" "fs_tmp d1 = Some bs" "load_exact [] bs = Inr (st_data s)" "fs_main d1 = fs_main (st_dir s)" "fs_bak d1 = fs_bak (st_dir s)"
    by (rule save_succeeded [OF r st sz o f w])
  note pts = d [unfolded publish_no_faults(2) [OF b(1,2)], simplified]
  have new: "dir_holds d m" if "fs_main d = Some bs" "fs_faults d = []" using dir_holds_saved [OF r st b(3) that(2,1)] .
  have keep: "dir_holds (d1\<lparr>fs_bak := fs_main d1, fs_main := None\<rparr>) m0" "dir_holds d1 m0" "dir_holds (d1\<lparr>fs_bak := None\<rparr>) m0"
    using old main b by (auto simp: dir_holds_def split: option.splits)
  from pts keep new b(1) show ?thesis by auto
qed

lemma crash_recovers_store:
  assumes inv: "store_inv s m" and c: "store_crash s cs f d"
  shows "\<exists>s' k. store_open [] [] [] d (Some f) = (Inr s', Some (wal_bytes (st_wal s'))) \<and> store_inv s' (apply_cmds (take k cs) m)"
proof -
  obtain m0 cs0 where i: "wal_faults (st_wal s) = []" "represents (st_data s) m" "list_all command_fits cs0"
    "wal_bytes (st_wal s) = wal_log (map encode cs0)" "dir_holds (st_dir s) m0" "m = apply_cmds cs0 m0"
    "wal_synced (st_wal s) = length (wal_bytes (st_wal s))"
    using inv by (auto simp: store_inv_def)
  have st: "strings_ok m" by (rule store_inv_strings [OF inv])
  have f0: "fs_faults (st_dir s) = []" using i(5) by (simp add: dir_holds_def)
  have idem: "apply_cmds cs0 m = m" using cmds_idempotent [OF represents_inv] i(5,6) by (auto simp: dir_holds_def)
  have log: "\<exists>s'. store_open [] [] [] d' (Some (wal_bytes (st_wal s))) = (Inr s', Some (wal_bytes (st_wal s'))) \<and> store_inv s' m"
    if "dir_holds d' m0 \<or> dir_holds d' m" for d'
  proof -
    have ci: "crash_image (st_wal s) (wal_bytes (st_wal s))" unfolding crash_image_def i(7) by (intro exI [of _ "length (wal_bytes (st_wal s))"]) simp
    have "list_all command_fits (cs0 @ [])" "wal_bytes (st_wal s) = wal_log (map encode (cs0 @ []))" "length (wal_log (map encode cs0)) \<le> wal_synced (st_wal s)"
      using i(3,4,7) by simp_all
    note o = store_open_crash [OF _ this ci]
    from that show ?thesis using o [of d' m0] o [of d' m] i(6) idem by auto
  qed
  from c show ?thesis
  proof cases
    case (crash_batch s')
    have s': "s' = s\<lparr>st_wal := (st_wal s)\<lparr>wal_bytes := wal_bytes (st_wal s) @ wal_log (map encode cs)\<rparr>\<rparr>"
      using append_all_ok [OF i(1) crash_batch(2)] crash_batch(3) by simp
    have "list_all command_fits (cs0 @ cs)" "wal_bytes (st_wal s') = wal_log (map encode (cs0 @ cs))" "length (wal_log (map encode cs0)) \<le> wal_synced (st_wal s')"
      using i(3,4,7) crash_batch(2) by (simp_all add: s')
    from store_open_crash [OF i(5) this crash_batch(4)] show ?thesis by (simp add: crash_batch(1) i(6))
  next
    case (crash_temp tmp)
    have "dir_holds d m0" using dir_holds_same [OF i(5)] f0 crash_temp by simp
    then show ?thesis using log crash_temp by fastforce
  next
    case (crash_publish order d1)
    from crash_dir [OF inv crash_publish(3,4,5) i(5) crash_publish(6,7)] show ?thesis using log crash_publish(1,2) by fastforce
  next
    case (crash_record order w)
    have dm: "dir_holds d m" using save_dir [OF inv crash_record(2,3,4)] .
    have w: "w = (st_wal s)\<lparr>wal_bytes := wal_bytes (st_wal s) @ frame (encode CCheckpoint)\<rparr>"
      using crash_record(5) append_record_ok [OF i(1), of "encode CCheckpoint"] by (simp add: fits_record_def)
    have "list_all command_fits (cs0 @ [CCheckpoint])" "wal_bytes w = wal_log (map encode (cs0 @ [CCheckpoint]))" "length (wal_log (map encode cs0)) \<le> wal_synced w"
      using i(3,4,7) by (simp_all add: w command_fits_def fits_record_def)
    from store_open_crash [OF dm this crash_record(6)] obtain s' k where
      o: "store_open [] [] [] d (Some f) = (Inr s', Some (wal_bytes (st_wal s')))" "store_inv s' (apply_cmds (cs0 @ take k [CCheckpoint]) m)" by blast
    have "apply_cmds (cs0 @ take k [CCheckpoint]) m = m" by (cases k) (simp_all add: idem)
    with o crash_record(1) show ?thesis by auto
  next
    case (crash_reset order)
    have dm: "dir_holds d m" using save_dir [OF inv crash_reset(3,4,5)] .
    from store_open_ok [OF dm, of "[]" "[]" "[]"] crash_reset(1,2) show ?thesis by (auto simp: store_open_def Let_def split: sum.splits prod.splits if_splits)
  qed
qed

section \<open>Lives of a store\<close>

text \<open>
  A store with the map its completed calls have made. A crash is followed by \<open>open\<close>; the map is then the one before with
  some of the commands in flight applied.
\<close>

inductive store_step :: "store \<times> kvs \<Rightarrow> store \<times> kvs \<Rightarrow> bool" where
  step_set: "utf8_valid k \<Longrightarrow> utf8_valid v \<Longrightarrow> store_set k v s = (Inr (), s') \<Longrightarrow> store_step (s, m) (s', bm_insert k v m)"
| step_delete: "utf8_valid k \<Longrightarrow> store_delete k s = (Inr (), s') \<Longrightarrow> store_step (s, m) (s', bm_remove k m)"
| step_batch: "list_all command_utf8 cs \<Longrightarrow> apply_batch cs s = (Inr (), s') \<Longrightarrow> store_step (s, m) (s', apply_cmds cs m)"
| step_refused: "CCheckpoint \<in> set cs \<Longrightarrow> apply_batch cs s = (r, s') \<Longrightarrow> store_step (s, m) (s', m)"
| step_checkpoint: "index_sized (st_data s) \<Longrightarrow> (\<And>xs. set (order xs) = set xs) \<Longrightarrow> checkpoint order s = (r, s') \<Longrightarrow> store_step (s, m) (s', m)"
| step_crash: "store_crash s cs f d \<Longrightarrow> store_open [] [] [] d (Some f) = (Inr s', f') \<Longrightarrow>
    btree_entries (st_data s') = Some (apply_cmds (take k cs) m) \<Longrightarrow> store_step (s, m) (s', apply_cmds (take k cs) m)"

lemma store_inv_unique: "store_inv s m \<Longrightarrow> btree_entries (st_data s) = Some m' \<Longrightarrow> m' = m"
  by (simp add: store_inv_def represents_def)

lemma store_step_inv: "store_step x y \<Longrightarrow> store_inv (fst x) (snd x) \<Longrightarrow> store_inv (fst y) (snd y)"
proof (induction rule: store_step.induct)
  case (step_set k v s s' m)
  then show ?case using apply_batch_inv [of s m "[CSet k v]" s'] by (simp add: store_set_def store_apply_batch)
next
  case (step_delete k s s' m)
  then show ?case using apply_batch_inv [of s m "[CDelete k]" s'] by (simp add: store_delete_def store_apply_batch)
next
  case (step_batch cs s s' m)
  then show ?case using apply_batch_inv by simp
next
  case (step_refused cs s r s' m)
  then show ?case by (simp add: apply_batch_def)
next
  case (step_checkpoint s order r s' m)
  then show ?case using checkpoint_inv [OF _ step_checkpoint.hyps] by simp
next
  case (step_crash s cs f d s' f' k m)
  then have inv: "store_inv s m" by simp
  obtain k' where "store_inv s' (apply_cmds (take k' cs) m)" using crash_recovers_store [OF inv step_crash.hyps(1)] step_crash.hyps(2) by auto
  with store_inv_unique [OF this step_crash.hyps(3)] show ?case by simp
qed

lemma store_steps_inv:
  assumes "store_step\<^sup>*\<^sup>* (s0, m0) (s, m)" and "store_inv s0 m0"
  shows "store_inv s m"
proof -
  have "store_inv (fst y) (snd y)" if "store_step\<^sup>*\<^sup>* x y" "store_inv (fst x) (snd x)" for x y
    using that by (induction rule: rtranclp_induct) (auto simp: store_step_inv)
  from this [OF assms(1)] assms(2) show ?thesis by simp
qed

lemma fresh_store_inv:
  assumes "store_open [] [] [] empty_dir None = (Inr s, f)"
  shows "store_inv s []"
proof -
  have d: "dir_holds empty_dir []" by (simp add: dir_holds_def empty_dir_def strings_ok_def)
  have "s = \<lparr>st_wal = \<lparr>wal_bytes = [], wal_synced = 0, wal_faults = []\<rparr>, st_dir = empty_dir, st_data = btree_new,
      st_recovery = \<lparr>records_replayed = 0, was_truncated = False, valid_prefix = 0\<rparr>\<rparr>"
    using assms by (simp add: store_open_def replay_def open_wal_def btree_load_def empty_dir_def)
  then show ?thesis using d by (intro store_invI [of "[]" _ "[]"]) auto
qed

lemma store_reads:
  assumes "store_inv s m"
  shows "store_get s k = Inr (bm_get m k)" and "store_contains s k = Inr (bm_get m k \<noteq> None)" and "keys_sorted s = Inr (map fst m)"
    and "store_len s = length m" and "store_range s a b = Inr (filter (\<lambda>(key, _). a \<le> key \<and> key < b) m)"
proof -
  obtain h where t: "btree_at h (st_data s)" "tree_ents h (st_data s) = m"
    using assms btree_at_entries by (fastforce simp: store_inv_def represents_def btree_inv_def)
  show "store_get s k = Inr (bm_get m k)" "store_contains s k = Inr (bm_get m k \<noteq> None)" "keys_sorted s = Inr (map fst m)"
    using btree_at_get [OF t(1)] btree_at_keys [OF t(1)] t(2) by (auto simp: store_get_def store_contains_def keys_sorted_def expect_def)
  show "store_len s = length m" using t by (simp add: store_len_def btree_at_def)
  show "store_range s a b = Inr (filter (\<lambda>(key, _). a \<le> key \<and> key < b) m)"
    using btree_at_entries [OF t(1)] t(2) by (simp add: store_range_def btree_range_def expect_def)
qed

section \<open>Entries larger than a page\<close>

lemma represents_sized: "represents t m \<Longrightarrow> length m + 1 < 2 ^ 64 \<Longrightarrow> index_sized t"
  using btree_at_nodes_le btree_at_entries by (fastforce simp: represents_def btree_inv_def index_sized_def btree_at_def)

lemma inter_subset: "set (inter ts es) \<subseteq> (\<Union>t \<in> set ts. set t) \<union> set es"
  by (induction ts es rule: inter.induct) auto

lemma entry_in_node:
  "wf_node ns h i \<Longrightarrow> e \<in> set (ents ns h i) \<Longrightarrow> \<exists>n \<in> set ns. e \<in> set (pairs n)"
proof (induction h arbitrary: i)
  case 0
  then show ?case by auto
next
  case (Suc h)
  from Suc.prems(2) inter_subset [of "map (ents ns h) (n_children (ns ! i))" "pairs (ns ! i)"]
  consider c where "c \<in> set (n_children (ns ! i))" "e \<in> set (ents ns h c)" | "e \<in> set (pairs (ns ! i))" by auto
  then show ?case
  proof cases
    case 1
    then show ?thesis using Suc.IH [of c] Suc.prems(1) by auto
  next
    case 2
    then show ?thesis using wf_node_lt [OF Suc.prems(1)] by auto
  qed
qed

lemma fitting_entries:
  assumes "node_shape count n" and "node_fits n" and "(k, v) \<in> set (pairs n)"
  shows "length k + length v < PAGE_SIZE"
proof -
  obtain j where j: "j < length (n_keys n)" "n_keys n ! j = k" "n_values n ! j = v"
    using assms(1,3) by (auto simp: pairs_def node_shape_def in_set_zip)
  then have "item_cell n j \<in> set (node_cells n)" by (simp add: node_cells_def)
  then have "cells_size (node_cells n) \<ge> 2 + length (item_cell n j)"
    by (auto simp: cells_size_def dest!: split_list)
  then show ?thesis using assms(2) j by (auto simp: node_fits_def page_fits_def item_cell_def HEADER_SIZE_def split: if_splits)
qed

lemma oversized_does_not_fit:
  assumes "represents t m" and "strings_ok m" and "(k, v) \<in> set m" and "PAGE_SIZE \<le> length k + length v"
  shows "\<not> (\<forall>n \<in> set (bt_nodes t). node_fits n)"
proof -
  obtain h where t: "btree_at h t" "tree_ents h t = m"
    using assms(1) btree_at_entries by (fastforce simp: represents_def btree_inv_def)
  then obtain n where n: "n \<in> set (bt_nodes t)" "(k, v) \<in> set (pairs n)" using entry_in_node assms(3) by (fastforce simp: btree_at_def)
  have "node_shape (length (bt_nodes t)) n" by (rule btree_nodes(1) [OF t(1) _ n(1)]) (simp add: t(2) assms(2))
  with fitting_entries [OF this _ n(2)] assms(4) n(1) show ?thesis by (meson not_less)
qed

section \<open>Properties\<close>

text \<open>
  C20. The store is durable and recovers exactly what it acknowledged. In every life of a store on a disk without
  errors, with fewer than 2^64 nodes and entries at every checkpoint (successful mutations and batches, refused batches,
  checkpoints, and crashes at any point of a mutation, a batch or a checkpoint, each followed by \<open>open\<close>), the reads return
  the map made by the completed calls, and after such a crash \<open>open\<close> succeeds and recovers that map with some
  prefix of the commands that were in flight, none when a checkpoint was interrupted. The one crash that is excluded is
  during the publication of a snapshot into a directory that an earlier crash left with the backup only; there
  the data is lost, as \<open>second_crash_loses_snapshot\<close> shows.
\<close>

theorem store_recovers_acknowledged_writes:
  assumes "store_open [] [] [] empty_dir None = (Inr s0, f0)" and "store_step\<^sup>*\<^sup>* (s0, []) (s, m)"
  shows "store_get s k = Inr (bm_get m k) \<and> keys_sorted s = Inr (map fst m) \<and> store_len s = length m
    \<and> store_range s a b = Inr (filter (\<lambda>(key, _). a \<le> key \<and> key < b) m)
    \<and> (\<forall>cs f d. store_crash s cs f d \<longrightarrow> (\<exists>s' k. store_open [] [] [] d (Some f) = (Inr s', Some (wal_bytes (st_wal s')))
      \<and> btree_entries (st_data s') = Some (apply_cmds (take k cs) m)))"
proof -
  have inv: "store_inv s m" by (rule store_steps_inv [OF assms(2) fresh_store_inv [OF assms(1)]])
  have "\<exists>s' k. store_open [] [] [] d (Some f) = (Inr s', Some (wal_bytes (st_wal s'))) \<and> btree_entries (st_data s') = Some (apply_cmds (take k cs) m)"
    if "store_crash s cs f d" for cs f d
    using crash_recovers_store [OF inv that] by (auto simp: store_inv_def represents_def)
  then show ?thesis using store_reads [OF inv] by blast
qed

lemma store_set_succeeds:
  assumes inv: "store_inv s m" and c: "command_fits (CSet k v)"
  shows "\<exists>s'. store_set k v s = (Inr (), s')"
proof -
  have w: "wal_faults (st_wal s) = []" and r: "represents (st_data s) m" using inv by (auto simp: store_inv_def)
  define s1 where "s1 = s\<lparr>st_wal := (st_wal s)\<lparr>wal_bytes := wal_bytes (st_wal s) @ wal_log (map encode [CSet k v])\<rparr>\<rparr>"
  have a: "append_all [CSet k v] s = (Inr (), s1)" using append_all_ok [OF w, of "[CSet k v]"] c by (simp add: s1_def)
  have "on_log sync s1 = (Inr (), logged [CSet k v] s)" using w by (simp add: s1_def on_log_def sync_ok logged_def)
  moreover obtain t where "mutate_all [CSet k v] (logged [CSet k v] s) = (Inr (), (logged [CSet k v] s)\<lparr>st_data := t\<rparr>)"
    using mutate_all_ok [of "logged [CSet k v] s" m "[CSet k v]"] r by (auto simp: logged_def)
  ultimately show ?thesis using a by (simp add: store_set_def store_apply_batch apply_batch_def and_then_def)
qed

definition fresh_store :: store where
  "fresh_store = \<lparr>st_wal = \<lparr>wal_bytes = [], wal_synced = 0, wal_faults = []\<rparr>, st_dir = empty_dir, st_data = btree_new,
     st_recovery = \<lparr>records_replayed = 0, was_truncated = False, valid_prefix = 0\<rparr>\<rparr>"

lemma fresh_store_open: "store_open [] [] [] empty_dir None = (Inr fresh_store, Some [])"
  by (simp add: store_open_def replay_def open_wal_def btree_load_def empty_dir_def fresh_store_def)

lemma fresh_store_set:
  assumes "command_fits (CSet k v)"
  obtains s where "store_set k v fresh_store = (Inr (), s)" and "store_step\<^sup>*\<^sup>* (fresh_store, []) (s, [(k, v)])" and "store_inv s [(k, v)]"
proof -
  have inv: "store_inv fresh_store []" by (rule fresh_store_inv [OF fresh_store_open])
  obtain s where s: "store_set k v fresh_store = (Inr (), s)" using store_set_succeeds [OF inv assms] by blast
  have "store_step (fresh_store, []) (s, bm_insert k v [])" by (rule step_set) (use assms s in \<open>auto simp: command_fits_def\<close>)
  then have st: "store_step\<^sup>*\<^sup>* (fresh_store, []) (s, [(k, v)])" by (simp add: r_into_rtranclp)
  show thesis by (rule that [OF s st store_steps_inv [OF st inv]])
qed

theorem store_recovers_acknowledged_writes_witness:
  "\<exists>s s' k. store_set [97] [98] fresh_store = (Inr (), s) \<and> store_get s [97] = Inr (Some [98])
    \<and> store_open [] [] [] (st_dir s) (Some (wal_bytes (st_wal s))) = (Inr s', Some (wal_bytes (st_wal s')))
    \<and> btree_entries (st_data s') = Some [([97], [98])]"
proof -
  have "command_fits (CSet [97] [98])" by (simp add: command_fits_def fits_record_def length_encode utf8_valid.simps utf8_step_def del: encode.simps)
  then obtain s where s: "store_set [97] [98] fresh_store = (Inr (), s)" "store_step\<^sup>*\<^sup>* (fresh_store, []) (s, [([97], [98])])"
    by (rule fresh_store_set)
  note th = store_recovers_acknowledged_writes [OF fresh_store_open s(2), of "[97]"]
  have "store_crash s [] (wal_bytes (st_wal s)) ((st_dir s)\<lparr>fs_tmp := fs_tmp (st_dir s)\<rparr>)" by (rule crash_temp)
  then have "store_crash s [] (wal_bytes (st_wal s)) (st_dir s)" by simp
  with th s(1) show ?thesis by fastforce
qed

text \<open>
  A key/value pair that is larger than a page blocks every checkpoint: it is accepted and acknowledged, but from then
  on \<open>checkpoint\<close> returns an error and the log keeps growing, until the pair is deleted; nothing is lost.
\<close>

theorem oversized_entry_blocks_checkpoint:
  assumes "store_open [] [] [] empty_dir None = (Inr s0, f0)" and "store_step\<^sup>*\<^sup>* (s0, []) (s, m)"
    and "(k, v) \<in> set m" and "PAGE_SIZE \<le> length k + length v" and "index_sized (st_data s)" and "checkpoint order s = (r, s')"
  shows "\<exists>e. r = Inl e \<and> st_wal s' = st_wal s \<and> st_data s' = st_data s"
proof -
  have inv: "store_inv s m" by (rule store_steps_inv [OF assms(2) fresh_store_inv [OF assms(1)]])
  have t: "represents (st_data s) m" "strings_ok m" "fs_faults (st_dir s) = []"
    using inv store_inv_strings [OF inv] by (auto simp: store_inv_def dir_holds_def)
  then have e: "btree_inv (st_data s)" "btree_entries (st_data s) = Some m" by (auto simp: represents_def)
  obtain e d1 where "write_temp order (st_data s) (st_dir s) = (Inl e, d1)"
    by (rule save_does_not_fit [OF e t(2) assms(5) oversized_does_not_fit [OF t(1,2) assms(3,4)] t(3)])
  then show ?thesis using assms(6) by (auto simp: checkpoint_def and_then_def at_stage_def on_dir_def btree_save_def)
qed

theorem oversized_entry_blocks_checkpoint_witness:
  "\<exists>s e. store_set [97] (replicate PAGE_SIZE 98) fresh_store = (Inr (), s) \<and> fst (checkpoint rev s) = Inl e"
proof -
  let ?v = "replicate PAGE_SIZE 98 :: rstring"
  have "utf8_valid ?v" by (rule utf8_valid_ascii) simp
  then have "command_fits (CSet [97] ?v)" by (simp add: command_fits_def fits_record_def length_encode PAGE_SIZE_def del: encode.simps)
  then obtain s where s: "store_set [97] ?v fresh_store = (Inr (), s)" "store_step\<^sup>*\<^sup>* (fresh_store, []) (s, [([97], ?v)])" "store_inv s [([97], ?v)]"
    by (rule fresh_store_set)
  have "index_sized (st_data s)" using s(3) by (intro represents_sized [of _ "[([97], ?v)]"]) (simp_all add: store_inv_def)
  from oversized_entry_blocks_checkpoint [OF fresh_store_open s(2) _ _ this, of "[97]" ?v rev "fst (checkpoint rev s)" "snd (checkpoint rev s)"]
  obtain e where "fst (checkpoint rev s) = Inl e" by auto
  with s(1) show ?thesis by blast
qed

text \<open>
  C21. A second crash can lose the snapshot. After a crash between the two renames of a publication only the backup is
  left; it is loaded correctly, but the next checkpoint removes it before it renames the new snapshot into place, and a
  crash there leaves neither file: \<open>open\<close> then succeeds with an empty store, although the key was acknowledged and
  checkpointed.
\<close>

theorem second_crash_loses_snapshot:
  "\<exists>d0 s0 d1 s1 d d2 s2. btree_save rev one_entry empty_dir = (Inr (), d0)
    \<and> fst (store_open [] [] [] d0 None) = Inr s0 \<and> store_get s0 [97] = Inr (Some [98])
    \<and> store_crash s0 [] [] d1 \<and> fst (store_open [] [] [] d1 (Some [])) = Inr s1 \<and> store_get s1 [97] = Inr (Some [98])
    \<and> write_temp rev (st_data s1) (st_dir s1) = (Inr (), d) \<and> d2 \<in> set (publish_points d)
    \<and> fst (store_open [] [] [] d2 (Some [])) = Inr s2 \<and> store_get s2 [97] = Inr None"
proof -
  have get: "store_get s [97] = Inr (Some [98])" if "st_data s = one_entry" for s
    using btree_at_get [OF one_entry_at, of "[97]"] that by (simp add: store_get_def expect_def one_entry_def pairs_def)
  have new: "store_get s [97] = Inr None" if "st_data s = btree_new" for s
    using btree_index.get_law [OF btree_index.inv_new btree_index.entries_new] that by (simp add: store_get_def expect_def)
  define st where "st t d = \<lparr>st_wal = \<lparr>wal_bytes = [], wal_synced = 0, wal_faults = []\<rparr>, st_dir = d, st_data = t,
     st_recovery = \<lparr>records_replayed = 0, was_truncated = False, valid_prefix = 0\<rparr>\<rparr>" for t d
  have rp: "replay (Some []) = \<lparr>records = [], truncated = False, valid_bytes = 0\<rparr>" using replay_log [of "[]"] by simp
  have op: "fst (store_open [] [] [] d f) = Inr (st t d)" if "btree_load [] [] d = Inr t" "f = None \<or> f = Some []" for t d f
    using that rp by (auto simp: store_open_def replay_def open_wal_def st_def)
  have e: "fs_faults empty_dir = []" by (simp add: empty_dir_def)
  obtain d' bs where s: "fs_faults d' = []" "load_exact [] bs = Inr one_entry"
    "btree_save rev one_entry empty_dir = (Inr (), d'\<lparr>fs_main := Some bs, fs_tmp := None, fs_bak := None\<rparr>)"
    by (rule save_fits [OF one_entry_facts(1-4) rev_permutes one_entry_facts(5) e])
  define d0 where "d0 = d'\<lparr>fs_main := Some bs, fs_tmp := None, fs_bak := None\<rparr>"
  have d0: "fs_faults d0 = []" "btree_load [] [] d0 = Inr one_entry" "fs_main d0 = Some bs" using s by (simp_all add: d0_def btree_load_def)
  obtain t0 bs0 where w0: "write_temp rev one_entry d0 = (Inr (), t0)" "fs_faults t0 = []" "fs_tmp t0 = Some bs0" "fs_main t0 = fs_main d0"
    by (rule save_fits [OF one_entry_facts(1-4) rev_permutes one_entry_facts(5) d0(1)])
  define d1 where "d1 = t0\<lparr>fs_bak := fs_main t0, fs_main := None\<rparr>"
  have d1: "btree_load [] [] d1 = Inr one_entry" "fs_faults d1 = []" "fs_main d1 = None" "fs_bak d1 = Some bs"
    using s d0 w0 by (simp_all add: d1_def btree_load_def)
  have c: "store_crash (st one_entry d0) [] [] d1"
    using crash_publish [of rev "st one_entry d0" t0 d1] w0(1) one_entry_facts(4) d0(3) publish_no_faults(2) [OF w0(2,3)] by (simp add: st_def d1_def)
  obtain t1 bs1 where w1: "write_temp rev one_entry d1 = (Inr (), t1)" "fs_faults t1 = []" "fs_tmp t1 = Some bs1" "fs_main t1 = fs_main d1"
    by (rule save_fits [OF one_entry_facts(1-4) rev_permutes one_entry_facts(5) d1(2)])
  define d2 where "d2 = t1\<lparr>fs_bak := None\<rparr>"
  have d2: "d2 \<in> set (publish_points t1)" "btree_load [] [] d2 = Inr btree_new"
    using publish_no_faults(2) [OF w1(2,3)] w1(4) d1(3) by (simp_all add: d2_def btree_load_def)
  have "write_temp rev (st_data (st one_entry d1)) (st_dir (st one_entry d1)) = (Inr (), t1)" using w1(1) by (simp add: st_def)
  moreover have "store_get (st one_entry d0) [97] = Inr (Some [98])" "store_get (st one_entry d1) [97] = Inr (Some [98])"
    "store_get (st btree_new d2) [97] = Inr None" by (simp_all add: get new st_def)
  ultimately show ?thesis
    using s(3) [folded d0_def] c d2(1) op [OF d0(2), of None] op [OF d1(1), of "Some []"] op [OF d2(2), of "Some []"] by blast
qed

end
