(* ===== verification/Sql_Ast.thy ===== *)
theory Sql_Ast
  imports Failure
begin

text \<open>
  \<open>src/src/sql/ast.rs\<close>: the syntax trees, the values with their derived order, and the display of a value. An \<open>i64\<close> is a
  64-bit word read as a signed number.
\<close>

section \<open>Syntax trees\<close>

type_synonym i64 = "64 word"

datatype data_type = TypeInteger | TypeText | TypeBoolean

datatype sql_value = VNull | VInteger i64 | VText rstring | VBoolean bool

record column_def =
  cd_name :: rstring
  cd_type :: data_type
  cd_primary :: bool

datatype binary_op = OpEq | OpNe | OpLt | OpLe | OpGt | OpGe | OpAnd | OpOr

datatype expr =
  EColumn rstring
| ELiteral sql_value
| EBinary binary_op expr expr

datatype projection = AllColumns | Columns "rstring list"

record select =
  sel_table :: rstring
  sel_projection :: projection
  sel_filter :: "expr option"
  sel_order_by :: "(rstring \<times> bool) option"
  sel_limit :: "nat option"

datatype sql_statement =
  SCreateTable rstring "column_def list"
| SInsert rstring "rstring list" "sql_value list"
| SSelect select
| SUpdate rstring "(rstring \<times> sql_value) list" "expr option"
| SDelete rstring "expr option"
| SBegin
| SCommit
| SRollback
| SExplain select

datatype sql_result =
  Affected nat
| Rows "rstring list" "sql_value list list"
| Begun
| Committed
| RolledBack
| Explained rstring

section \<open>The order of values\<close>

text \<open>\<open>derive(PartialOrd, Ord)\<close>: by variant, then by content.\<close>

fun value_rank :: "sql_value \<Rightarrow> nat" where
  "value_rank VNull = 0"
| "value_rank (VInteger _) = 1"
| "value_rank (VText _) = 2"
| "value_rank (VBoolean _) = 3"

fun value_le :: "sql_value \<Rightarrow> sql_value \<Rightarrow> bool" where
  "value_le (VInteger a) (VInteger b) \<longleftrightarrow> sint a \<le> sint b"
| "value_le (VText a) (VText b) \<longleftrightarrow> a \<le> b"
| "value_le (VBoolean a) (VBoolean b) \<longleftrightarrow> a \<le> b"
| "value_le a b \<longleftrightarrow> value_rank a \<le> value_rank b"

instantiation sql_value :: linorder
begin

definition less_eq_sql_value :: "sql_value \<Rightarrow> sql_value \<Rightarrow> bool" where
  "less_eq_sql_value = value_le"

definition less_sql_value :: "sql_value \<Rightarrow> sql_value \<Rightarrow> bool" where
  "less_sql_value a b \<longleftrightarrow> value_le a b \<and> \<not> value_le b a"

instance
proof
  fix x y z :: sql_value
  show "x < y \<longleftrightarrow> x \<le> y \<and> \<not> y \<le> x" by (simp add: less_eq_sql_value_def less_sql_value_def)
  show "x \<le> x" by (cases x) (simp_all add: less_eq_sql_value_def)
  show "x \<le> y \<Longrightarrow> y \<le> z \<Longrightarrow> x \<le> z" by (cases x; cases y; cases z) (auto simp: less_eq_sql_value_def)
  show "x \<le> y \<Longrightarrow> y \<le> x \<Longrightarrow> x = y"
    by (cases x; cases y) (auto simp: less_eq_sql_value_def dest: signed_word_eqI [OF sym])
  show "x \<le> y \<or> y \<le> x" by (cases x; cases y) (auto simp: less_eq_sql_value_def)
qed

end

section \<open>Numbers in decimal\<close>

definition digit_char :: "nat \<Rightarrow> char" where
  "digit_char n = char_of (48 + n)"

fun show_nat :: "nat \<Rightarrow> string" where
  "show_nat n = (if n < 10 then [digit_char n] else show_nat (n div 10) @ [digit_char (n mod 10)])"

declare show_nat.simps [simp del]

definition show_int :: "int \<Rightarrow> string" where
  "show_int i = (if i < 0 then CHR ''-'' # show_nat (nat (- i)) else show_nat (nat i))"

text \<open>\<open>Display\<close> for values.\<close>

fun value_to_string :: "sql_value \<Rightarrow> rstring" where
  "value_to_string VNull = ascii ''NULL''"
| "value_to_string (VInteger v) = ascii (show_int (sint v))"
| "value_to_string (VText v) = v"
| "value_to_string (VBoolean v) = ascii (if v then ''true'' else ''false'')"

text \<open>A value of the program: its text is a string.\<close>

fun value_ok :: "sql_value \<Rightarrow> bool" where
  "value_ok (VText s) \<longleftrightarrow> utf8_valid s"
| "value_ok _ \<longleftrightarrow> True"

end
