(* ===== verification/Catalog.thy ===== *)
theory Catalog
  imports Mvcc Sql_Ast
begin

text \<open>
  \<open>src/src/catalog.rs\<close>: schemas and rows as keys and values of the transactional store, with their text encodings. A
  missing primary key of an unvalidated schema is the \<open>expect\<close> of \<open>primary_index\<close>.
\<close>

section \<open>Strings\<close>

text \<open>\<open>split\<close>, \<open>lines\<close> and \<open>join\<close> of the standard library; \<open>lines\<close> drops a final empty line and the carriage return of a
  terminated line.\<close>

fun split_on :: "u8 \<Rightarrow> bytes \<Rightarrow> bytes list" where
  "split_on c [] = [[]]"
| "split_on c (b # s) = (if b = c then [] # split_on c s
     else (case split_on c s of [] \<Rightarrow> [[b]] | p # ps \<Rightarrow> (b # p) # ps))"

definition strip_cr :: "bytes \<Rightarrow> bytes" where
  "strip_cr s = (if s \<noteq> [] \<and> last s = 0x0D then butlast s else s)"

definition str_lines :: "bytes \<Rightarrow> bytes list" where
  "str_lines s = (let ps = split_on 0x0A s in map strip_cr (butlast ps) @ (if last ps = [] then [] else [last ps]))"

fun str_join :: "bytes \<Rightarrow> bytes list \<Rightarrow> bytes" where
  "str_join sep [] = []"
| "str_join sep [s] = s"
| "str_join sep (s # ss) = s @ sep @ str_join sep ss"

primrec position :: "('a \<Rightarrow> bool) \<Rightarrow> 'a list \<Rightarrow> nat option" where
  "position P [] = None"
| "position P (x # xs) = (if P x then Some 0 else map_option Suc (position P xs))"

definition quote_name :: "rstring \<Rightarrow> string" where
  "quote_name s = [char_of (39::nat)] @ string_of_bytes s @ [char_of (39::nat)]"

section \<open>Schemas\<close>

record schema =
  sc_name :: rstring
  sc_columns :: "column_def list"

definition CATALOG_PREFIX :: rstring where
  "CATALOG_PREFIX = ascii ''__CATALOG:''"

definition ROW_PREFIX :: rstring where
  "ROW_PREFIX = ascii ''__ROW:''"

definition validate :: "schema \<Rightarrow> unit may_fail" where
  "validate sc =
    (if sc_columns sc = [] then fail_with (invalid_input ''catalog: table needs at least one column'')
     else if length (filter cd_primary (sc_columns sc)) \<noteq> 1 then fail_with (invalid_input ''catalog: table needs exactly one primary key'')
     else if \<exists>i \<in> {..< length (sc_columns sc)}. \<exists>earlier \<in> set (take i (sc_columns sc)). cd_name earlier = cd_name (sc_columns sc ! i)
     then fail_with (invalid_input ''catalog: duplicate column'')
     else Inr ())"

definition primary_index :: "schema \<Rightarrow> nat may_fail" where
  "primary_index sc = expect (position cd_primary (sc_columns sc))"

definition column_index :: "schema \<Rightarrow> rstring \<Rightarrow> nat option" where
  "column_index sc name = position (\<lambda>c. cd_name c = name) (sc_columns sc)"

definition catalog_key :: "rstring \<Rightarrow> rstring" where
  "catalog_key table = CATALOG_PREFIX @ table"

definition row_prefix :: "rstring \<Rightarrow> rstring" where
  "row_prefix table = ROW_PREFIX @ table @ [0x3A]"

fun check_type :: "sql_value \<Rightarrow> data_type \<Rightarrow> unit may_fail" where
  "check_type VNull _ = Inr ()"
| "check_type (VInteger _) TypeInteger = Inr ()"
| "check_type (VText _) TypeText = Inr ()"
| "check_type (VBoolean _) TypeBoolean = Inr ()"
| "check_type _ _ = fail_with (invalid_input ''sql: value has the wrong column type'')"

section \<open>Encodings\<close>

fun encode_value :: "sql_value \<Rightarrow> bytes" where
  "encode_value VNull = [0x4E]"
| "encode_value (VInteger v) = 0x49 # le_bytes 8 v"
| "encode_value (VText v) = 0x54 # v"
| "encode_value (VBoolean v) = [0x42, if v then 1 else 0]"

definition decode_value :: "bytes \<Rightarrow> sql_value may_fail" where
  "decode_value bs = (case bs of
     [] \<Rightarrow> fail_with (invalid_data ''catalog: malformed row value'')
   | tag # rest \<Rightarrow>
       if tag = 0x4E \<and> length bs = 1 then Inr VNull
       else if tag = 0x49 \<and> length bs = 9 then Inr (VInteger (of_le_bytes rest))
       else if tag = 0x54 then
         (if utf8_valid rest then Inr (VText rest) else fail_with (invalid_data ''catalog: row text is not UTF-8''))
       else if tag = 0x42 \<and> length bs = 2 \<and> hd rest \<le> 1 then Inr (VBoolean (hd rest = 1))
       else fail_with (invalid_data ''catalog: malformed row value''))"

definition hex_digit_byte :: "u8 \<Rightarrow> u8" where
  "hex_digit_byte n = ascii ''0123456789abcdef'' ! unat n"

definition hex :: "bytes \<Rightarrow> rstring" where
  "hex bs = concat (map (\<lambda>b. [hex_digit_byte (drop_bit 4 b), hex_digit_byte (b AND 0x0F)]) bs)"

definition digit :: "u8 \<Rightarrow> u8 may_fail" where
  "digit b = (if 0x30 \<le> b \<and> b \<le> 0x39 then Inr (b - 0x30)
     else if 0x61 \<le> b \<and> b \<le> 0x66 then Inr (b - 0x61 + 10)
     else fail_with (invalid_data ''catalog: invalid hex''))"

fun unhex_pairs :: "bytes \<Rightarrow> bytes may_fail" where
  "unhex_pairs (a # b # rest) =
    rbind (digit a) (\<lambda>high. rbind (digit b) (\<lambda>low.
    rbind (unhex_pairs rest) (\<lambda>out. Inr ((push_bit 4 high OR low) # out))))"
| "unhex_pairs _ = Inr []"

definition unhex :: "rstring \<Rightarrow> bytes may_fail" where
  "unhex s = (if length s mod 2 \<noteq> 0 then fail_with (invalid_data ''catalog: odd hex length'') else unhex_pairs s)"

definition encode_row :: "sql_value list \<Rightarrow> rstring" where
  "encode_row row = str_join [0x3A] (map (\<lambda>v. hex (encode_value v)) row)"

definition decode_row :: "rstring \<Rightarrow> schema \<Rightarrow> sql_value list may_fail" where
  "decode_row encoded sc =
    rbind (collect_results (\<lambda>part. rbind (unhex part) decode_value) (split_on 0x3A encoded)) (\<lambda>vals.
    if length vals \<noteq> length (sc_columns sc) then fail_with (invalid_data ''catalog: row column count mismatch'')
    else rbind (collect_results (\<lambda>(v, c). check_type v (cd_type c)) (zip vals (sc_columns sc))) (\<lambda>_. Inr vals))"

fun type_tag :: "data_type \<Rightarrow> rstring" where
  "type_tag TypeInteger = [0x49]"
| "type_tag TypeText = [0x54]"
| "type_tag TypeBoolean = [0x42]"

definition encode_column :: "column_def \<Rightarrow> rstring" where
  "encode_column c = cd_name c @ [0x7C] @ type_tag (cd_type c) @ [0x7C] @ (if cd_primary c then [0x31] else [0x30])"

definition encode_schema :: "schema \<Rightarrow> rstring" where
  "encode_schema sc = str_join [0x0A] (map encode_column (sc_columns sc))"

definition decode_column :: "rstring \<Rightarrow> column_def may_fail" where
  "decode_column line =
    (let fields = split_on 0x7C line in
     if length fields \<noteq> 3 then fail_with (invalid_data ''catalog: malformed schema'')
     else
       rbind (if fields ! 1 = [0x49] then Inr TypeInteger else if fields ! 1 = [0x54] then Inr TypeText
              else if fields ! 1 = [0x42] then Inr TypeBoolean else fail_with (invalid_data ''catalog: unknown column type'')) (\<lambda>data_type.
       rbind (if fields ! 2 = [0x30] then Inr False else if fields ! 2 = [0x31] then Inr True
              else fail_with (invalid_data ''catalog: malformed primary-key flag'')) (\<lambda>primary_key.
       Inr \<lparr>cd_name = fields ! 0, cd_type = data_type, cd_primary = primary_key\<rparr>)))"

definition decode_schema :: "rstring \<Rightarrow> rstring \<Rightarrow> schema may_fail" where
  "decode_schema name encoded =
    rbind (collect_results decode_column (str_lines encoded)) (\<lambda>columns.
    let sc = \<lparr>sc_name = name, sc_columns = columns\<rparr> in
    rbind (validate sc) (\<lambda>_. Inr sc))"

section \<open>Access through a transaction\<close>

fun txn_io_error :: "txn_error \<Rightarrow> io_error" where
  "txn_io_error (Io e) = e"
| "txn_io_error other = invalid_input (txn_error_to_string other)"

definition of_txn :: "txn_error + 'a \<Rightarrow> 'a may_fail" where
  "of_txn r = map_err (\<lambda>e. Failed (txn_io_error e)) r"

definition load_schema :: "inner \<Rightarrow> transaction \<Rightarrow> rstring \<Rightarrow> schema may_fail" where
  "load_schema s t table =
    rbind (of_txn (txn_get s t (catalog_key table))) (\<lambda>found.
    case found of
      None \<Rightarrow> fail_with (invalid_input (''sql: unknown table '' @ quote_name table))
    | Some encoded \<Rightarrow> decode_schema table encoded)"

definition sql_set :: "rstring \<Rightarrow> rstring \<Rightarrow> (inner \<times> transaction, failure, unit) eff" where
  "sql_set key v st = (case txn_set key v st of (r, st) \<Rightarrow> (of_txn r, st))"

definition sql_delete :: "rstring \<Rightarrow> (inner \<times> transaction, failure, unit) eff" where
  "sql_delete key st = (case txn_delete key st of (r, st) \<Rightarrow> (of_txn r, st))"

definition save_schema :: "schema \<Rightarrow> (inner \<times> transaction, failure, unit) eff" where
  "save_schema sc st = (case validate sc of
     Inl e \<Rightarrow> (Inl e, st)
   | Inr _ \<Rightarrow> sql_set (catalog_key (sc_name sc)) (encode_schema sc) st)"

definition row_key_for_primary :: "schema \<Rightarrow> sql_value \<Rightarrow> rstring may_fail" where
  "row_key_for_primary sc primary =
    (if primary = VNull then fail_with (invalid_input ''sql: primary key cannot be NULL'')
     else rbind (primary_index sc) (\<lambda>i.
       rbind (elem_at (sc_columns sc) i) (\<lambda>c.
       rbind (check_type primary (cd_type c)) (\<lambda>_.
       Inr (row_prefix (sc_name sc) @ hex (encode_value primary))))))"

definition row_key :: "schema \<Rightarrow> sql_value list \<Rightarrow> rstring may_fail" where
  "row_key sc row =
    rbind (primary_index sc) (\<lambda>i.
    if i < length row then
      (if row ! i = VNull then fail_with (invalid_input ''sql: primary key cannot be NULL'')
       else row_key_for_primary sc (row ! i))
    else fail_with (invalid_input ''sql: row does not match schema''))"

section \<open>The encodings are invertible\<close>

lemma split_on_free: "c \<notin> set p \<Longrightarrow> split_on c p = [p]"
  by (induction p) auto

lemma split_on_append: "c \<notin> set p \<Longrightarrow> split_on c (p @ c # s) = p # split_on c s"
  by (induction p) auto

lemma str_join_Cons: "ps \<noteq> [] \<Longrightarrow> str_join sep (p # ps) = p @ sep @ str_join sep ps"
  by (cases ps) simp_all

lemma split_on_join: "ps \<noteq> [] \<Longrightarrow> \<forall>p \<in> set ps. c \<notin> set p \<Longrightarrow> split_on c (str_join [c] ps) = ps"
proof (induction ps)
  case (Cons p ps)
  then show ?case by (cases "ps = []") (simp_all add: split_on_free split_on_append str_join_Cons)
qed simp

lemma str_lines_join:
  assumes "ps \<noteq> []" and "\<forall>p \<in> set ps. p \<noteq> [] \<and> 0x0A \<notin> set p \<and> last p \<noteq> 0x0D"
  shows "str_lines (str_join [0x0A] ps) = ps"
proof -
  have "map strip_cr (butlast ps) = butlast ps" using assms(2) by (intro map_idI) (auto simp: strip_cr_def dest: in_set_butlastD)
  moreover have "last ps \<noteq> []" using assms by (metis last_in_set)
  ultimately show ?thesis using split_on_join [of ps "0x0A"] assms by (simp add: str_lines_def)
qed

text \<open>Hexadecimal.\<close>

lemma hex_digit_table:
  "list_all (\<lambda>n. ascii ''0123456789abcdef'' ! n = (if n < 10 then of_nat (0x30 + n) else of_nat (0x57 + n))) [0 ..< 16]"
  by (simp add: upt_rec [of _ 16] numeral_eq_Suc [symmetric] ascii_def)

lemma hex_digit_byte_eq: "unat n < 16 \<Longrightarrow> hex_digit_byte n = (if n < 10 then 0x30 + n else 0x57 + n)"
  using hex_digit_table by (auto simp: list_all_iff hex_digit_byte_def word_less_nat_alt)

lemma hex_digit_back:
  "list_all (\<lambda>i. let b = ascii ''0123456789abcdef'' ! i :: u8 in (0x30 \<le> b \<and> b \<le> 0x39 \<and> of_nat i = b - 0x30) \<or> (0x61 \<le> b \<and> b \<le> 0x66 \<and> of_nat i = b - 0x61 + 10)) [0 ..< 16]"
  by (simp add: upt_rec [of _ 16] numeral_eq_Suc [symmetric] ascii_def)

lemma hex_digit_iff:
  fixes b n :: u8
  shows "(0x30 \<le> b \<and> b \<le> 0x39 \<and> n = b - 0x30) \<or> (0x61 \<le> b \<and> b \<le> 0x66 \<and> n = b - 0x61 + 10) \<longleftrightarrow> unat n < 16 \<and> b = hex_digit_byte n" (is "?l \<longleftrightarrow> ?r")
proof
  assume ?l
  then have "unat n < 16" and "b = (if n < 10 then 0x30 + n else 0x57 + n)"
    by (auto; unat_arith)+
  then show ?r using hex_digit_byte_eq by simp
next
  assume r: ?r
  then have "unat n \<in> set [0 ..< 16]" by simp
  from bspec [OF hex_digit_back [unfolded list_all_iff] this] r show ?l by (simp add: hex_digit_byte_def Let_def)
qed

lemma hex_digit_decoder:
  "(if 0x30 \<le> b \<and> b \<le> 0x39 then Inr (b - 0x30) else if 0x61 \<le> b \<and> b \<le> 0x66 then Inr (b - 0x61 + 10) else Inl e) = Inr n
    \<longleftrightarrow> unat n < 16 \<and> b = hex_digit_byte n"
proof -
  have "\<not> (b \<le> 0x39 \<and> 0x61 \<le> b)" for b :: u8 using order_trans [of "0x61" b "0x39"] by auto
  then show ?thesis unfolding hex_digit_iff [symmetric] by auto
qed

lemma nibbles:
  fixes b :: u8
  shows "unat (drop_bit 4 b) < 16" and "unat (b AND 0x0F) < 16" and "push_bit 4 (drop_bit 4 b) OR (b AND 0x0F) = b"
proof -
  have "unat b < 256" using unsigned_less [of b, where ?'a = nat] by simp
  then show "unat (drop_bit 4 b) < 16" unfolding unsigned_drop_bit_eq by (simp add: drop_bit_eq_div take_bit_eq_mod)
  have m: "b AND 0x0F = take_bit 4 b" using take_bit_eq_mask [of 4 b] by (simp add: mask_eq_exp_minus_1)
  have "unat (take_bit 4 b) = take_bit 4 (unat b)" by (simp add: unsigned_take_bit_eq)
  then show "unat (b AND 0x0F) < 16" unfolding m by (simp add: take_bit_eq_mod)
  show "push_bit 4 (drop_bit 4 b) OR (b AND 0x0F) = b"
    unfolding m by (rule bit_word_eqI) (auto simp: bit_or_iff bit_push_bit_iff bit_drop_bit_eq bit_take_bit_iff)
qed

lemma nibbles_of:
  fixes high low :: u8
  assumes "unat high < 16" and "unat low < 16"
  shows "drop_bit 4 (push_bit 4 high OR low) = high" and "(push_bit 4 high OR low) AND 0x0F = low"
proof -
  have m: "(w :: u8) AND 0x0F = take_bit 4 w" for w using take_bit_eq_mask [of 4 w] by (simp add: mask_eq_exp_minus_1)
  have low: "take_bit 4 w = w" if "unat w < 16" for w :: u8
    using that by (simp add: word_unat_eq_iff unsigned_take_bit_eq take_bit_nat_eq_self)
  have bits: "n < 4" if "unat w < 16" "bit w n" for w :: u8 and n
    using low [OF that(1)] that(2) by (metis bit_take_bit_iff)
  show "(push_bit 4 high OR low) AND 0x0F = low" unfolding m
    using low [OF assms(2)] by (simp add: take_bit_push_bit)
  show "drop_bit 4 (push_bit 4 high OR low) = high"
    by (rule bit_word_eqI) (use bits [OF assms(1)] bits [OF assms(2)] in \<open>fastforce simp: bit_simps add.commute\<close>)
qed
lemma hex_simps [simp]: "hex [] = []" "hex (b # bs) = hex_digit_byte (drop_bit 4 b) # hex_digit_byte (b AND 0x0F) # hex bs"
  by (simp_all add: hex_def)

text \<open>
  Decoding of hexadecimal text: \<open>digit\<close> accepts exactly the sixteen digits, \<open>pairs\<close> combines two of them. The catalog, the server
  and the client each have their own copy of the two functions.
\<close>

locale hex_decoder =
  fixes digit :: "u8 \<Rightarrow> 'e + u8" and pairs :: "bytes \<Rightarrow> 'e + bytes"
  assumes digit_iff: "digit b = Inr n \<longleftrightarrow> unat n < 16 \<and> b = hex_digit_byte n"
    and pairs_Nil: "pairs [] = Inr []"
    and pairs_Cons: "pairs (a # b # rest) = rbind (digit a) (\<lambda>high. rbind (digit b) (\<lambda>low.
      rbind (pairs rest) (\<lambda>out. Inr ((push_bit 4 high OR low) # out))))"
begin

lemma pairs_hex: "pairs (hex bs) = Inr bs"
proof (induction bs)
  case (Cons b bs)
  have "digit (hex_digit_byte (drop_bit 4 b)) = Inr (drop_bit 4 b)" "digit (hex_digit_byte (b AND 0x0F)) = Inr (b AND 0x0F)"
    using nibbles(1,2) [of b] by (simp_all add: digit_iff)
  with Cons show ?case by (simp add: pairs_Cons nibbles(3))
qed (simp add: pairs_Nil)

lemma pairs_exact: "even (length s) \<Longrightarrow> pairs s = Inr bs \<Longrightarrow> s = hex bs"
proof (induction s arbitrary: bs rule: induct_list012)
  case (3 a b rest)
  from 3(4) obtain high low out where d: "digit a = Inr high" "digit b = Inr low" "pairs rest = Inr out"
    "bs = (push_bit 4 high OR low) # out" by (auto simp: pairs_Cons rbind_Inr_iff)
  with 3(1) [OF _ d(3)] 3(3) have "rest = hex out" by simp
  moreover from d(1,2) have "unat high < 16" "unat low < 16" "a = hex_digit_byte high" "b = hex_digit_byte low"
    by (simp_all add: digit_iff)
  ultimately show ?case unfolding d(4) hex_simps nibbles_of [OF \<open>unat high < 16\<close> \<open>unat low < 16\<close>] by simp
qed (auto simp: pairs_Nil)

end

interpretation catalog_hex: hex_decoder digit unhex_pairs
proof
  show "digit b = Inr n \<longleftrightarrow> unat n < 16 \<and> b = hex_digit_byte n" for b n
    unfolding digit_def fail_with_def by (rule hex_digit_decoder)
qed simp_all

lemma length_hex [simp]: "length (hex bs) = 2 * length bs"
  by (induction bs) simp_all

lemma unhex_hex: "unhex (hex bs) = Inr bs"
  by (simp add: unhex_def catalog_hex.pairs_hex)

lemma hex_digit_range: "unat n < 16 \<Longrightarrow> 0x30 \<le> hex_digit_byte n \<and> hex_digit_byte n \<le> 0x39 \<or> 0x61 \<le> hex_digit_byte n \<and> hex_digit_byte n \<le> 0x66"
  using hex_digit_iff [of "hex_digit_byte n" n] by auto

lemma hex_range: "b \<in> set (hex bs) \<Longrightarrow> 0x30 \<le> b \<and> b \<le> 0x39 \<or> 0x61 \<le> b \<and> b \<le> 0x66"
  using hex_digit_range [OF nibbles(1)] hex_digit_range [OF nibbles(2)] by (induction bs) auto

lemma hex_no_colon: "0x3A \<notin> set (hex bs)"
  using hex_range [of "0x3A" bs] by auto

lemma hex_ascii: "b \<in> set (hex bs) \<Longrightarrow> b < 0x80"
  using hex_range [of b bs] by (auto intro: le_less_trans)

lemma utf8_hex: "utf8_valid (hex bs)"
  using hex_ascii by (rule utf8_valid_ascii)

lemma str_join_set: "set (str_join sep ps) \<subseteq> set sep \<union> (\<Union>p \<in> set ps. set p)"
  by (induction sep ps rule: str_join.induct) auto

lemma utf8_join: "utf8_valid sep \<Longrightarrow> list_all utf8_valid ps \<Longrightarrow> utf8_valid (str_join sep ps)"
  by (induction sep ps rule: str_join.induct) (auto intro!: utf8_valid_append)

lemma hex_inject: "hex a = hex b \<longleftrightarrow> a = b"
  using unhex_hex [of a] unhex_hex [of b] by (metis sum.inject(2))

text \<open>Values and rows.\<close>

lemma decode_encode_value: "value_ok v \<Longrightarrow> decode_value (encode_value v) = Inr v"
  by (cases v) (simp_all add: decode_value_def)

lemma encode_value_inject: "value_ok v \<Longrightarrow> value_ok w \<Longrightarrow> encode_value v = encode_value w \<longleftrightarrow> v = w"
  using decode_encode_value [of v] decode_encode_value [of w] by (metis sum.inject(2))

text \<open>A row of a schema: the right number of values of the right types.\<close>

definition row_ok :: "schema \<Rightarrow> sql_value list \<Rightarrow> bool" where
  "row_ok sc row \<longleftrightarrow> length row = length (sc_columns sc) \<and> list_all value_ok row
    \<and> (\<forall>i < length row. check_type (row ! i) (cd_type (sc_columns sc ! i)) = Inr ())"

lemma check_types:
  "length vs = length cs \<Longrightarrow>
    (\<exists>u. collect_results (\<lambda>(v, c). check_type v (cd_type c)) (zip vs cs) = Inr u) \<longleftrightarrow> (\<forall>i < length vs. check_type (vs ! i) (cd_type (cs ! i)) = Inr ())"
proof (induction vs cs rule: list_induct2)
  case (Cons v vs c cs)
  then show ?case by (auto simp: rbind_Inr_iff less_Suc_eq_0_disj)
qed simp

lemma decode_row_encode:
  assumes "row_ok sc row" and "row \<noteq> []"
  shows "decode_row (encode_row row) sc = Inr row"
proof -
  have "split_on 0x3A (encode_row row) = map (\<lambda>v. hex (encode_value v)) row"
    unfolding encode_row_def using assms(2) hex_no_colon by (intro split_on_join) auto
  moreover have "collect_results (\<lambda>part. rbind (unhex part) decode_value) (map (\<lambda>v. hex (encode_value v)) row) = Inr row"
    using assms(1) by (auto simp: row_ok_def list_all_iff unhex_hex decode_encode_value intro: collect_results_all)
  ultimately show ?thesis using assms(1) check_types [of row "sc_columns sc"] by (auto simp: decode_row_def row_ok_def)
qed

text \<open>Schemas.\<close>

definition name_ok :: "rstring \<Rightarrow> bool" where
  "name_ok n \<longleftrightarrow> utf8_valid n \<and> 0x7C \<notin> set n \<and> 0x0A \<notin> set n \<and> 0x3A \<notin> set n"

definition schema_ok :: "schema \<Rightarrow> bool" where
  "schema_ok sc \<longleftrightarrow> validate sc = Inr () \<and> list_all (\<lambda>c. name_ok (cd_name c)) (sc_columns sc)"

lemma validate_iff:
  "validate sc = Inr () \<longleftrightarrow> sc_columns sc \<noteq> [] \<and> length (filter cd_primary (sc_columns sc)) = 1 \<and> distinct (map cd_name (sc_columns sc))"
proof -
  let ?cs = "sc_columns sc"
  have "(\<exists>i \<in> {..< length ?cs}. \<exists>earlier \<in> set (take i ?cs). cd_name earlier = cd_name (?cs ! i)) \<longleftrightarrow> \<not> distinct (map cd_name ?cs)"
    (is "?dup \<longleftrightarrow> _")
  proof
    assume ?dup
    then obtain i e where i: "i < length ?cs" "e \<in> set (take i ?cs)" "cd_name e = cd_name (?cs ! i)" by auto
    then obtain j where "j < i" "e = ?cs ! j" by (auto simp: in_set_conv_nth)
    with i have "i < length ?cs \<and> j < length ?cs \<and> i \<noteq> j \<and> cd_name (?cs ! i) = cd_name (?cs ! j)" by simp
    then show "\<not> distinct (map cd_name ?cs)" unfolding distinct_conv_nth length_map by (metis nth_map)
  next
    assume "\<not> distinct (map cd_name ?cs)"
    then obtain i j where "i < length ?cs" "j < i" "cd_name (?cs ! j) = cd_name (?cs ! i)"
      by (auto simp: distinct_conv_nth) (metis linorder_neqE_nat)+
    then show ?dup by (intro bexI [of _ i] bexI [of _ "?cs ! j"]) (auto simp: in_set_conv_nth)
  qed
  then show ?thesis by (auto simp: validate_def)
qed

lemma decode_column_encode: "name_ok (cd_name c) \<Longrightarrow> decode_column (encode_column c) = Inr c"
proof -
  assume n: "name_ok (cd_name c)"
  let ?p = "if cd_primary c then [0x31] else [0x30] :: bytes"
  have "split_on 0x7C (type_tag (cd_type c) @ 0x7C # ?p) = [type_tag (cd_type c), ?p]" by (cases "cd_type c") simp_all
  then have "split_on 0x7C (encode_column c) = [cd_name c, type_tag (cd_type c), ?p]"
    using n split_on_append [of "0x7C" "cd_name c"] by (simp add: encode_column_def name_ok_def)
  then show ?thesis by (cases "cd_type c"; cases "cd_primary c") (simp_all add: decode_column_def)
qed

lemma decode_schema_encode:
  assumes "schema_ok sc"
  shows "decode_schema (sc_name sc) (encode_schema sc) = Inr sc"
proof -
  have v: "validate sc = Inr ()" and n: "\<And>c. c \<in> set (sc_columns sc) \<Longrightarrow> name_ok (cd_name c)"
    using assms by (auto simp: schema_ok_def list_all_iff)
  have line: "encode_column c \<noteq> [] \<and> 0x0A \<notin> set (encode_column c) \<and> last (encode_column c) \<noteq> 0x0D" if "name_ok (cd_name c)" for c
    using that by (cases "cd_type c") (auto simp: encode_column_def name_ok_def)
  have "str_lines (encode_schema sc) = map encode_column (sc_columns sc)"
    unfolding encode_schema_def using v n line by (intro str_lines_join) (auto simp: validate_iff)
  moreover have "collect_results decode_column (map encode_column (sc_columns sc)) = Inr (sc_columns sc)"
    using n decode_column_encode by (auto intro: collect_results_all)
  moreover have eta: "\<lparr>sc_name = sc_name sc, sc_columns = sc_columns sc\<rparr> = sc" by simp
  ultimately show ?thesis using v by (simp add: decode_schema_def Let_def eta)
qed

end
