(* ===== verification/Sql_Lexer.thy ===== *)
theory Sql_Lexer
  imports Sql_Ast
begin

text \<open>
  \<open>src/src/sql/lexer.rs\<close>: from a statement text to tokens with byte offsets. The scanning position is the rest of the
  input together with its offset; a string slice that does not start at a character boundary is a panic.
\<close>

section \<open>Tokens\<close>

datatype token_kind =
  TWord rstring
| TInteger i64
| TString rstring
| TComma
| TLeftParen
| TRightParen
| TStar
| TSemicolon
| TEq
| TNe
| TLt
| TLe
| TGt
| TGe
| TEnd

record token =
  tk_kind :: token_kind
  tk_pos :: nat

definition sql_error :: "nat \<Rightarrow> string \<Rightarrow> io_error" where
  "sql_error pos message = invalid_input (''sql at byte '' @ show_nat pos @ '': '' @ message)"

section \<open>Character classes\<close>

definition is_ascii_whitespace :: "u8 \<Rightarrow> bool" where
  "is_ascii_whitespace b \<longleftrightarrow> b \<in> {0x20, 0x09, 0x0A, 0x0C, 0x0D}"

definition is_ascii_digit :: "u8 \<Rightarrow> bool" where
  "is_ascii_digit b \<longleftrightarrow> 0x30 \<le> b \<and> b \<le> 0x39"

definition is_ascii_uppercase :: "u8 \<Rightarrow> bool" where
  "is_ascii_uppercase b \<longleftrightarrow> 0x41 \<le> b \<and> b \<le> 0x5A"

definition is_ascii_lowercase :: "u8 \<Rightarrow> bool" where
  "is_ascii_lowercase b \<longleftrightarrow> 0x61 \<le> b \<and> b \<le> 0x7A"

definition is_ascii_alphabetic :: "u8 \<Rightarrow> bool" where
  "is_ascii_alphabetic b \<longleftrightarrow> is_ascii_uppercase b \<or> is_ascii_lowercase b"

definition word_start :: "u8 \<Rightarrow> bool" where
  "word_start b \<longleftrightarrow> is_ascii_alphabetic b \<or> b = 0x5F"

definition word_part :: "u8 \<Rightarrow> bool" where
  "word_part b \<longleftrightarrow> is_ascii_alphabetic b \<or> is_ascii_digit b \<or> b = 0x5F"

definition to_ascii_uppercase :: "u8 \<Rightarrow> u8" where
  "to_ascii_uppercase b = (if is_ascii_lowercase b then b - 0x20 else b)"

definition digit_value :: "u8 \<Rightarrow> int" where
  "digit_value b = uint b - 48"

definition parse_digits :: "bytes \<Rightarrow> int" where
  "parse_digits s = foldl (\<lambda>n b. 10 * n + digit_value b) 0 s"

text \<open>\<open>parse::<i64>\<close> of an optional sign and at least one digit.\<close>

definition parse_i64 :: "bool \<Rightarrow> bytes \<Rightarrow> i64 option" where
  "parse_i64 negative digits =
    (let n = (if negative then - parse_digits digits else parse_digits digits) in
     if - (2 ^ 63) \<le> n \<and> n < 2 ^ 63 then Some (word_of_int n) else None)"

section \<open>The lexer\<close>

text \<open>The loop over a string literal, behind the opening quote: \<open>acc\<close> is the literal's content so far.\<close>

function lex_string :: "nat \<Rightarrow> bytes \<Rightarrow> rstring \<Rightarrow> (token_kind \<times> bytes) may_fail" where
  "lex_string pos s acc =
    (case s of
       [] \<Rightarrow> fail_with (sql_error pos ''unterminated string literal'')
     | b # r \<Rightarrow>
         if b = 0x27 then
           (case r of
              c # r' \<Rightarrow> if c = 0x27 then lex_string pos r' (acc @ [0x27]) else Inr (TString acc, r)
            | [] \<Rightarrow> Inr (TString acc, r))
         else
           (case utf8_step s of
              None \<Rightarrow> Inl Panicked
            | Some r' \<Rightarrow> lex_string pos r' (acc @ take (length s - length r') s)))"
  by pat_completeness auto
termination
  by (relation "measure (\<lambda>(pos, s, acc). length s)") (auto dest: utf8_step_shorter)

declare lex_string.simps [simp del]

definition lex_integer :: "nat \<Rightarrow> bool \<Rightarrow> bytes \<Rightarrow> (token_kind \<times> bytes) may_fail" where
  "lex_integer pos negative s =
    (if negative \<and> \<not> (case s of b # _ \<Rightarrow> is_ascii_digit b | [] \<Rightarrow> False)
     then fail_with (sql_error pos (''expected digits after '' @ [char_of (39::nat)] @ ''-'' @ [char_of (39::nat)]))
     else (case parse_i64 negative (takeWhile is_ascii_digit s) of
         None \<Rightarrow> fail_with (sql_error pos ''integer literal out of range'')
       | Some v \<Rightarrow> Inr (TInteger v, dropWhile is_ascii_digit s)))"

definition next_is_eq :: "bytes \<Rightarrow> bool" where
  "next_is_eq r \<longleftrightarrow> (case r of c # _ \<Rightarrow> c = 0x3D | [] \<Rightarrow> False)"

text \<open>One token at a byte that is not white space.\<close>

fun lex_token :: "nat \<Rightarrow> bytes \<Rightarrow> (token_kind \<times> bytes) may_fail" where
  "lex_token pos [] = Inl Panicked"
| "lex_token pos (b # r) =
    (if b = 0x2C then Inr (TComma, r)
     else if b = 0x28 then Inr (TLeftParen, r)
     else if b = 0x29 then Inr (TRightParen, r)
     else if b = 0x2A then Inr (TStar, r)
     else if b = 0x3B then Inr (TSemicolon, r)
     else if b = 0x3D then Inr (TEq, r)
     else if b = 0x21 \<and> next_is_eq r then Inr (TNe, tl r)
     else if b = 0x3C \<and> next_is_eq r then Inr (TLe, tl r)
     else if b = 0x3E \<and> next_is_eq r then Inr (TGe, tl r)
     else if b = 0x3C then Inr (TLt, r)
     else if b = 0x3E then Inr (TGt, r)
     else if b = 0x27 then lex_string pos r []
     else if b = 0x2D then lex_integer pos True r
     else if is_ascii_digit b then lex_integer pos False (b # r)
     else if word_start b then Inr (TWord (map to_ascii_uppercase (b # takeWhile word_part r)), dropWhile word_part r)
     else fail_with (sql_error pos (''unexpected character '' @ [char_of (39::nat), char_of (unat b), char_of (39::nat)])))"

lemma lex_string_shorter: "lex_string pos s acc = Inr (k, r) \<Longrightarrow> length r < length s"
proof (induction "length s" arbitrary: s acc rule: less_induct)
  case less
  note l = less.prems [unfolded lex_string.simps [of pos s]]
  show ?case
  proof (cases s)
    case (Cons b t)
    show ?thesis
    proof (cases "b = 0x27")
      case True
      with l Cons less.hyps [of "tl t" "acc @ [0x27]"] show ?thesis by (auto split: list.splits if_splits)
    next
      case False
      with l Cons obtain r' where "utf8_step s = Some r'" "lex_string pos r' (acc @ take (length s - length r') s) = Inr (k, r)"
        by (auto split: option.splits)
      with less.hyps [of r'] utf8_step_shorter [of s r'] show ?thesis by fastforce
    qed
  qed (use l in simp)
qed

lemma lex_integer_shorter: "lex_integer pos negative s = Inr (k, r) \<Longrightarrow> length r \<le> length s"
  using length_dropWhile_le [of is_ascii_digit s] by (auto simp: lex_integer_def split: if_splits option.splits)

lemma lex_digits_shorter: "is_ascii_digit b \<Longrightarrow> lex_integer pos negative (b # s) = Inr (k, r) \<Longrightarrow> length r \<le> length s"
  using length_dropWhile_le [of is_ascii_digit s] by (auto simp: lex_integer_def split: if_splits option.splits)

lemma lex_token_shorter: "lex_token pos s = Inr (k, r) \<Longrightarrow> length r < length s"
proof (cases s)
  case (Cons b t)
  assume l: "lex_token pos s = Inr (k, r)"
  have "length r \<le> length t" if "next_is_eq t" "r = tl t" using that by simp
  moreover have "length r \<le> length t" if "lex_string pos t [] = Inr (k, r)" using lex_string_shorter [OF that] by simp
  moreover have "length r \<le> length t" if "r = dropWhile word_part t" using length_dropWhile_le that by auto
  ultimately have "length r \<le> length t"
    using l lex_integer_shorter [of pos True t k r] lex_digits_shorter [of b pos False t k r] by (auto simp: Cons split: if_splits)
  then show ?thesis by (simp add: Cons)
qed simp

declare lex_token.simps(2) [simp del]

lemma rbind_cong [fundef_cong]: "m = m' \<Longrightarrow> (\<And>x. m' = Inr x \<Longrightarrow> f x = f' x) \<Longrightarrow> rbind m f = rbind m' f'"
  by (cases m') simp_all

function lex_loop :: "nat \<Rightarrow> bytes \<Rightarrow> token list may_fail" where
  "lex_loop offset s =
    (case s of
       [] \<Rightarrow> Inr [\<lparr>tk_kind = TEnd, tk_pos = offset\<rparr>]
     | b # rest \<Rightarrow>
         if is_ascii_whitespace b then lex_loop (offset + 1) rest
         else rbind (lex_token offset s) (\<lambda>(kind, r).
              rbind (lex_loop (offset + (length s - length r)) r) (\<lambda>tokens.
              Inr (\<lparr>tk_kind = kind, tk_pos = offset\<rparr> # tokens))))"
  by pat_completeness auto
termination
  by (relation "measure (\<lambda>(offset, s). length s)") (auto dest: lex_token_shorter)

declare lex_loop.simps [simp del]

definition lex :: "rstring \<Rightarrow> token list may_fail" where
  "lex source = lex_loop 0 source"

section \<open>No panic on a string\<close>

lemma utf8_valid_step: "utf8_valid s \<Longrightarrow> s \<noteq> [] \<Longrightarrow> \<exists>r. utf8_step s = Some r \<and> utf8_valid r"
  by (subst (asm) utf8_valid.simps) (auto split: option.splits)

lemma lex_string_safe:
  "utf8_valid s \<Longrightarrow> lex_string pos s acc \<noteq> Inl Panicked \<and> (\<forall>k r. lex_string pos s acc = Inr (k, r) \<longrightarrow> utf8_valid r)"
proof (induction "length s" arbitrary: s acc rule: less_induct)
  case less
  show ?case
  proof (cases s)
    case Nil
    then show ?thesis by (simp add: lex_string.simps)
  next
    case (Cons b t)
    show ?thesis
    proof (cases "b = 0x27")
      case True
      with less.prems Cons have v: "utf8_valid t" by simp
      show ?thesis
      proof (cases t)
        case Nil
        then show ?thesis using v by (subst (1 2) lex_string.simps) (simp add: Cons True)
      next
        case (Cons c u)
        have "c = 0x27 \<Longrightarrow> utf8_valid u" using v Cons by simp
        then show ?thesis using v less.hyps [of u "acc @ [0x27]"] \<open>s = b # t\<close> Cons True by (subst (1 2) lex_string.simps) auto
      qed
    next
      case False
      obtain r where r: "utf8_step s = Some r" "utf8_valid r" using utf8_valid_step [OF less.prems] Cons by blast
      have e: "lex_string pos s acc = lex_string pos r (acc @ take (length s - length r) s)"
        using r(1) False by (subst lex_string.simps) (simp add: Cons)
      show ?thesis unfolding e by (rule less.hyps [OF utf8_step_shorter [OF r(1)] r(2)])
    qed
  qed
qed

lemma ascii_classes: "is_ascii_digit b \<Longrightarrow> b < 0x80" "word_part b \<Longrightarrow> b < 0x80" "word_start b \<Longrightarrow> b < 0x80" "is_ascii_whitespace b \<Longrightarrow> b < 0x80"
  by (auto simp: is_ascii_digit_def word_part_def word_start_def is_ascii_alphabetic_def is_ascii_uppercase_def is_ascii_lowercase_def
      is_ascii_whitespace_def word_le_nat_alt word_less_nat_alt)

lemma utf8_valid_dropWhile: "utf8_valid s \<Longrightarrow> (\<And>b. P b \<Longrightarrow> b < 0x80) \<Longrightarrow> utf8_valid (dropWhile P s)"
  by (induction s) auto

lemma lex_integer_safe:
  "utf8_valid s \<Longrightarrow> lex_integer pos neg s \<noteq> Inl Panicked \<and> (\<forall>k r. lex_integer pos neg s = Inr (k, r) \<longrightarrow> utf8_valid r)"
  using utf8_valid_dropWhile [of s is_ascii_digit] ascii_classes(1) by (auto simp: lex_integer_def split: option.splits)

lemma lex_token_safe:
  assumes v: "utf8_valid s" and "s \<noteq> []"
  shows "lex_token pos s \<noteq> Inl Panicked \<and> (\<forall>k r. lex_token pos s = Inr (k, r) \<longrightarrow> utf8_valid r)"
proof -
  obtain b t where s: "s = b # t" using assms(2) by (cases s) auto
  show ?thesis
  proof (cases "b < 0x80")
    case True
    then have t: "utf8_valid t" using v by (simp add: s)
    have eq: "utf8_valid (tl t)" if "next_is_eq t" using t that by (cases t) (auto simp: next_is_eq_def)
    have w: "utf8_valid (dropWhile word_part t)" using utf8_valid_dropWhile [OF t] ascii_classes(2) by blast
    show ?thesis
      using t eq w lex_string_safe [OF t, of pos "[]"] lex_integer_safe [OF t, of pos True] lex_integer_safe [OF v, of pos False]
      unfolding s lex_token.simps by (simp split: if_splits)
  next
    case False
    have "b \<notin> {0x2C, 0x28, 0x29, 0x2A, 0x3B, 0x3D, 0x21, 0x3C, 0x3E, 0x27, 0x2D}"
    proof
      assume "b \<in> {0x2C, 0x28, 0x29, 0x2A, 0x3B, 0x3D, 0x21, 0x3C, 0x3E, 0x27, 0x2D}"
      then have "b < 0x80" by (elim insertE emptyE) simp_all
      with False show False ..
    qed
    then show ?thesis using False ascii_classes(1,3) [of b] unfolding s lex_token.simps by (auto simp del: not_less)
  qed
qed

text \<open>The token sequence of every text ends with \<open>TEnd\<close> and has no other \<open>TEnd\<close>.\<close>

definition well_ended :: "token list \<Rightarrow> bool" where
  "well_ended ts \<longleftrightarrow> ts \<noteq> [] \<and> tk_kind (last ts) = TEnd \<and> (\<forall>t \<in> set (butlast ts). tk_kind t \<noteq> TEnd)"

lemma lex_string_kind: "lex_string pos s acc = Inr (k, r) \<Longrightarrow> k \<noteq> TEnd"
proof (induction "length s" arbitrary: s acc rule: less_induct)
  case less
  note l = less.prems [unfolded lex_string.simps [of pos s]]
  show ?case
  proof (cases s)
    case (Cons b t)
    show ?thesis
    proof (cases "b = 0x27")
      case True
      with l Cons less.hyps [of "tl t" "acc @ [0x27]"] show ?thesis by (auto split: list.splits if_splits)
    next
      case False
      with l Cons obtain r' where "utf8_step s = Some r'" "lex_string pos r' (acc @ take (length s - length r') s) = Inr (k, r)"
        by (auto split: option.splits)
      with less.hyps [of r'] utf8_step_shorter [of s r'] show ?thesis by fastforce
    qed
  qed (use l in simp)
qed

lemma lex_token_kind: "lex_token pos s = Inr (k, r) \<Longrightarrow> k \<noteq> TEnd"
  using lex_string_kind [of pos "tl s" "[]" k r]
  by (cases s) (auto simp: lex_token.simps lex_integer_def split: if_splits option.splits)

lemma lex_loop_safe:
  "utf8_valid s \<Longrightarrow> lex_loop offset s \<noteq> Inl Panicked \<and> (\<forall>ts. lex_loop offset s = Inr ts \<longrightarrow> well_ended ts)"
proof (induction "length s" arbitrary: s offset rule: less_induct)
  case less
  show ?case
  proof (cases s)
    case Nil
    then show ?thesis by (simp add: lex_loop.simps well_ended_def)
  next
    case (Cons b t)
    show ?thesis
    proof (cases "is_ascii_whitespace b")
      case True
      then have "utf8_valid t" using less.prems ascii_classes(4) by (simp add: Cons)
      then show ?thesis using less.hyps [of t "offset + 1"] True by (simp add: lex_loop.simps [of offset] Cons)
    next
      case False
      have e: "lex_loop offset s = rbind (lex_token offset s) (\<lambda>(kind, r). rbind (lex_loop (offset + (length s - length r)) r) (\<lambda>tokens.
          Inr (\<lparr>tk_kind = kind, tk_pos = offset\<rparr> # tokens)))"
        using False by (subst lex_loop.simps) (simp add: Cons)
      note tok = lex_token_safe [OF less.prems, of offset]
      show ?thesis
      proof (cases "lex_token offset s")
        case (Inl err)
        then show ?thesis using tok Cons unfolding e by simp
      next
        case (Inr p)
        obtain k r where p: "p = (k, r)" by force
        have r: "utf8_valid r" "length r < length s" "k \<noteq> TEnd"
          using tok Cons Inr lex_token_shorter [of offset s k r] lex_token_kind [of offset s k r] by (auto simp: p)
        from less.hyps [OF r(2,1), of "offset + (length s - length r)"] r(3) show ?thesis
          unfolding e Inr p by (cases "lex_loop (offset + (length s - length r)) r") (auto simp: well_ended_def)
      qed
    qed
  qed
qed

section \<open>Rendering tokens\<close>

text \<open>A text for every token sequence; lexing it gives the tokens back.\<close>

definition escape :: "rstring \<Rightarrow> bytes" where
  "escape s = concat (map (\<lambda>b. if b = 0x27 then [0x27, 0x27] else [b]) s)"

fun render_kind :: "token_kind \<Rightarrow> bytes" where
  "render_kind (TWord w) = w"
| "render_kind (TInteger i) = ascii (show_int (sint i))"
| "render_kind (TString s) = 0x27 # escape s @ [0x27]"
| "render_kind TComma = [0x2C]"
| "render_kind TLeftParen = [0x28]"
| "render_kind TRightParen = [0x29]"
| "render_kind TStar = [0x2A]"
| "render_kind TSemicolon = [0x3B]"
| "render_kind TEq = [0x3D]"
| "render_kind TNe = [0x21, 0x3D]"
| "render_kind TLt = [0x3C]"
| "render_kind TLe = [0x3C, 0x3D]"
| "render_kind TGt = [0x3E]"
| "render_kind TGe = [0x3E, 0x3D]"
| "render_kind TEnd = []"

definition word_ok :: "rstring \<Rightarrow> bool" where
  "word_ok w \<longleftrightarrow> w \<noteq> [] \<and> word_start (hd w) \<and> list_all word_part w \<and> list_all (\<lambda>b. \<not> is_ascii_lowercase b) w"

fun kind_ok :: "token_kind \<Rightarrow> bool" where
  "kind_ok (TWord w) \<longleftrightarrow> word_ok w"
| "kind_ok (TString s) \<longleftrightarrow> utf8_valid s"
| "kind_ok TEnd \<longleftrightarrow> False"
| "kind_ok _ \<longleftrightarrow> True"

definition render :: "token_kind list \<Rightarrow> bytes" where
  "render ks = concat (map (\<lambda>k. render_kind k @ [0x20]) ks)"

text \<open>Numbers.\<close>

lemma digit_char_byte: "n < 10 \<Longrightarrow> of_char (digit_char n) = (of_nat (48 + n) :: u8)"
proof -
  assume n: "n < 10"
  have "of_char (digit_char n) = (of_nat (of_char (digit_char n)) :: u8)" by (simp only: of_nat_of_char)
  also have "of_char (digit_char n) = 48 + n" using n by (simp add: digit_char_def)
  finally show ?thesis .
qed

lemma digit_byte:
  assumes "n < 10"
  shows "is_ascii_digit (of_char (digit_char n))" and "digit_value (of_char (digit_char n)) = int n"
proof -
  have u: "unat (of_char (digit_char n) :: u8) = 48 + n" using assms unfolding digit_char_byte [OF assms] unat_of_nat by simp
  then show "is_ascii_digit (of_char (digit_char n))" using assms by (simp add: is_ascii_digit_def word_le_nat_alt)
  show "digit_value (of_char (digit_char n)) = int n" using u by (simp add: digit_value_def uint_nat)
qed

lemma show_nat_bytes:
  "list_all is_ascii_digit (ascii (show_nat n)) \<and> show_nat n \<noteq> [] \<and> parse_digits (ascii (show_nat n)) = int n"
proof (induction n rule: show_nat.induct)
  case (1 n)
  show ?case
  proof (cases "n < 10")
    case True
    then show ?thesis using digit_byte [OF True] by (simp add: show_nat.simps ascii_def parse_digits_def)
  next
    case False
    have m: "n mod 10 < 10" by simp
    have "show_nat n = show_nat (n div 10) @ [digit_char (n mod 10)]" using False by (simp add: show_nat.simps [of n])
    moreover have "10 * int (n div 10) + int (n mod 10) = int n" by presburger
    ultimately show ?thesis using 1 [OF False] digit_byte [OF m] by (simp add: ascii_def parse_digits_def)
  qed
qed

lemma lex_integer_show:
  assumes "0 \<le> n" and "- (2 ^ 63) \<le> (if neg then - n else n)" and "(if neg then - n else n) < 2 ^ 63"
  shows "lex_integer pos neg (ascii (show_nat (nat n)) @ 0x20 # rest) = Inr (TInteger (word_of_int (if neg then - n else n)), 0x20 # rest)"
proof -
  let ?d = "ascii (show_nat (nat n))"
  note sn = show_nat_bytes [of "nat n"]
  have sp: "\<not> is_ascii_digit 0x20" by (simp add: is_ascii_digit_def)
  have t: "takeWhile is_ascii_digit (?d @ 0x20 # rest) = ?d" "dropWhile is_ascii_digit (?d @ 0x20 # rest) = 0x20 # rest"
    using sn sp by (simp_all add: list_all_iff)
  have "case ?d @ 0x20 # rest of b # _ \<Rightarrow> is_ascii_digit b | [] \<Rightarrow> False" using sn by (cases ?d) (auto simp: ascii_def)
  moreover have "parse_i64 neg ?d = Some (word_of_int (if neg then - n else n))"
    using sn assms(1) assms(2,3) unfolding parse_i64_def by (simp split: if_splits)
  ultimately show ?thesis unfolding lex_integer_def t by simp
qed

lemma word_not_special:
  assumes "word_start b"
  shows "b \<notin> {0x2C, 0x28, 0x29, 0x2A, 0x3B, 0x3D, 0x21, 0x3C, 0x3E, 0x27, 0x2D, 0x20}" and "\<not> is_ascii_digit b" and "\<not> is_ascii_whitespace b"
  using assms
  by (auto simp: word_start_def is_ascii_alphabetic_def is_ascii_uppercase_def is_ascii_lowercase_def is_ascii_digit_def is_ascii_whitespace_def
      word_le_nat_alt)

lemma digit_not_special:
  assumes "is_ascii_digit b"
  shows "b \<notin> {0x2C, 0x28, 0x29, 0x2A, 0x3B, 0x3D, 0x21, 0x3C, 0x3E, 0x27, 0x2D, 0x20}" and "\<not> is_ascii_whitespace b"
  using assms by (auto simp: is_ascii_digit_def is_ascii_whitespace_def word_le_nat_alt)

lemma lex_token_integer: "lex_token pos (ascii (show_int (sint i)) @ 0x20 # rest) = Inr (TInteger i, 0x20 # rest)"
proof (cases "sint i < 0")
  case True
  have "lex_integer pos True (ascii (show_nat (nat (- sint i))) @ 0x20 # rest) = Inr (TInteger (word_of_int (sint i)), 0x20 # rest)"
    using lex_integer_show [of "- sint i" True pos rest] sint_ge [of i] sint_lt [of i] True by simp
  then show ?thesis using True by (simp add: show_int_def ascii_def lex_token.simps)
next
  case False
  have l: "lex_integer pos False (ascii (show_nat (nat (sint i))) @ 0x20 # rest) = Inr (TInteger (word_of_int (sint i)), 0x20 # rest)"
    using lex_integer_show [of "sint i" False pos rest] sint_ge [of i] sint_lt [of i] False by simp
  obtain b t where b: "ascii (show_nat (nat (sint i))) = b # t" "is_ascii_digit b"
    using show_nat_bytes [of "nat (sint i)"] by (cases "ascii (show_nat (nat (sint i)))") (auto simp: ascii_def)
  have "lex_token pos (b # t @ 0x20 # rest) = lex_integer pos False (b # t @ 0x20 # rest)"
    using digit_not_special [OF b(2)] b(2) by (auto simp: lex_token.simps)
  then show ?thesis using False l by (simp add: show_int_def b(1))
qed

lemma lex_token_word:
  assumes "word_ok w"
  shows "lex_token pos (w @ 0x20 # rest) = Inr (TWord w, 0x20 # rest)"
proof -
  obtain b t where w: "w = b # t" using assms by (cases w) (auto simp: word_ok_def)
  have b: "word_start b" "list_all word_part t" "list_all (\<lambda>b. \<not> is_ascii_lowercase b) (b # t)" using assms by (auto simp: word_ok_def w)
  have sp: "\<not> word_part 0x20" by (simp add: word_part_def is_ascii_alphabetic_def is_ascii_uppercase_def is_ascii_lowercase_def is_ascii_digit_def)
  have t: "takeWhile word_part (t @ 0x20 # rest) = t" "dropWhile word_part (t @ 0x20 # rest) = 0x20 # rest"
    using b(2) sp by (simp_all add: list_all_iff)
  have "map to_ascii_uppercase (b # t) = b # t" using b(3) by (intro map_idI) (auto simp: to_ascii_uppercase_def list_all_iff)
  then show ?thesis using word_not_special [OF b(1)] b(1) t by (auto simp: w lex_token.simps)
qed

text \<open>String literals.\<close>

lemma utf8_step_split:
  assumes "utf8_step s = Some r"
  obtains c where "s = c @ r" and "utf8_step c = Some []" and "c \<noteq> []" and "hd s \<noteq> 0x27 \<Longrightarrow> 0x27 \<notin> set c" and "hd s = 0x27 \<Longrightarrow> c = [0x27]"
proof -
  have hi: "\<not> b < 0x80 \<Longrightarrow> b \<noteq> 0x27" "utf8_cont b \<Longrightarrow> b \<noteq> 0x27" for b :: u8 by (auto simp: utf8_cont_def)
  obtain a t where s: "s = a # t" using assms by (cases s) (auto simp: utf8_step_def)
  show thesis
  proof (cases "a < 0x80")
    case True
    with assms have "r = t" by (simp add: utf8_step_def s)
    with that [of "[a]"] True show thesis by (auto simp: s utf8_step_def)
  next
    case False
    from assms False consider b where "t = b # r" "utf8_ok2 a b" | b c where "t = b # c # r" "\<not> utf8_ok2 a b" "utf8_ok3 a b c"
      | b c d where "t = b # c # d # r" "\<not> utf8_ok2 a b" "\<not> utf8_ok3 a b c" "utf8_ok4 a b c d"
      by (auto simp: utf8_step_def s split: list.splits if_splits)
    then show thesis
    proof cases
      case 1
      then show thesis using that [of "[a, b]"] hi False by (auto simp: s utf8_step_def utf8_ok2_def)
    next
      case 2
      then show thesis using that [of "[a, b, c]"] hi False by (auto simp: s utf8_step_def utf8_ok3_def)
    next
      case 3
      then show thesis using that [of "[a, b, c, d]"] hi False by (auto simp: s utf8_step_def utf8_ok4_def)
    qed
  qed
qed

lemma escape_append: "escape (xs @ ys) = escape xs @ escape ys"
  by (simp add: escape_def)

lemma escape_id: "0x27 \<notin> set c \<Longrightarrow> escape c = c"
  by (induction c) (auto simp: escape_def)

lemma lex_string_escape:
  "utf8_valid s \<Longrightarrow> rest \<noteq> [] \<Longrightarrow> hd rest \<noteq> 0x27 \<Longrightarrow> lex_string pos (escape s @ 0x27 # rest) acc = Inr (TString (acc @ s), rest)"
proof (induction "length s" arbitrary: s acc rule: less_induct)
  case less
  show ?case
  proof (cases "s = []")
    case True
    then show ?thesis using less.prems by (subst lex_string.simps) (auto simp: escape_def split: list.splits)
  next
    case False
    obtain r where r: "utf8_step s = Some r" "utf8_valid r" using utf8_valid_step [OF less.prems(1) False] by blast
    obtain c where c: "s = c @ r" "utf8_step c = Some []" "c \<noteq> []" "hd s \<noteq> 0x27 \<Longrightarrow> 0x27 \<notin> set c" "hd s = 0x27 \<Longrightarrow> c = [0x27]"
      using utf8_step_split [OF r(1)] by metis
    have IH: "lex_string pos (escape r @ 0x27 # rest) (acc @ c) = Inr (TString (acc @ s), rest)"
      using less.hyps [OF utf8_step_shorter [OF r(1)] r(2) less.prems(2,3), of "acc @ c"] by (simp add: c(1))
    show ?thesis
    proof (cases "hd s = 0x27")
      case True
      note c5 = c(5) [OF True]
      have "escape s = 0x27 # 0x27 # escape r" unfolding c(1) c5 by (simp add: escape_def)
      then show ?thesis using IH unfolding c5 by (subst lex_string.simps) simp
    next
      case False
      have e: "escape s = c @ escape r" unfolding c(1) escape_append escape_id [OF c(4) [OF False]] ..
      obtain b t where b: "c = b # t" using c(3) by (cases c) auto
      have "b \<noteq> 0x27" using False c(1) b by simp
      moreover have "utf8_step (c @ escape r @ 0x27 # rest) = Some (escape r @ 0x27 # rest)" using utf8_step_append [OF c(2)] by simp
      ultimately show ?thesis using IH by (subst lex_string.simps) (simp add: e b)
    qed
  qed
qed

lemma lex_token_render:
  assumes "kind_ok k"
  shows "lex_token pos (render_kind k @ 0x20 # rest) = Inr (k, 0x20 # rest)"
proof (cases k)
  case (TString s)
  have "lex_string pos (escape s @ 0x27 # 0x20 # rest) [] = Inr (TString s, 0x20 # rest)"
    using lex_string_escape [of s "0x20 # rest" pos "[]"] assms TString by simp
  then show ?thesis by (simp add: TString lex_token.simps)
qed (use assms lex_token_word lex_token_integer in \<open>simp_all add: lex_token.simps next_is_eq_def\<close>)

lemma render_kind_start:
  assumes "kind_ok k"
  shows "\<exists>b t. render_kind k = b # t \<and> \<not> is_ascii_whitespace b"
proof (cases k)
  case (TInteger i)
  show ?thesis
    using show_nat_bytes [of "nat (- sint i)"] show_nat_bytes [of "nat (sint i)"] digit_not_special(2)
    by (cases "ascii (show_nat (nat (sint i)))") (auto simp: TInteger show_int_def ascii_def is_ascii_whitespace_def)
next
  case (TWord w)
  then show ?thesis using assms word_not_special(3) by (cases w) (auto simp: word_ok_def)
qed (use assms in \<open>auto simp: is_ascii_whitespace_def\<close>)

lemma lex_render:
  "list_all kind_ok ks \<Longrightarrow> \<exists>ts. lex_loop offset (render ks) = Inr ts \<and> map tk_kind ts = ks @ [TEnd]"
proof (induction ks arbitrary: offset)
  case Nil
  then show ?case by (simp add: render_def lex_loop.simps)
next
  case (Cons k ks)
  have k: "kind_ok k" using Cons.prems by simp
  obtain b t where b: "render_kind k = b # t" "\<not> is_ascii_whitespace b" using render_kind_start [OF k] by blast
  have r: "render (k # ks) = render_kind k @ 0x20 # render ks" by (simp add: render_def)
  have sp: "lex_loop off (0x20 # render ks) = lex_loop (off + 1) (render ks)" for off
    by (subst lex_loop.simps) (simp add: is_ascii_whitespace_def)
  let ?off = "offset + (length (render (k # ks)) - length (0x20 # render ks))"
  obtain ts where ts: "lex_loop (?off + 1) (render ks) = Inr ts" "map tk_kind ts = ks @ [TEnd]" using Cons by fastforce
  have "lex_loop offset (render (k # ks)) = rbind (lex_token offset (render (k # ks))) (\<lambda>(kind, r).
      rbind (lex_loop (offset + (length (render (k # ks)) - length r)) r) (\<lambda>tokens. Inr (\<lparr>tk_kind = kind, tk_pos = offset\<rparr> # tokens)))"
    using b by (subst lex_loop.simps) (simp add: r)
  also have "\<dots> = Inr (\<lparr>tk_kind = k, tk_pos = offset\<rparr> # ts)"
    using lex_token_render [OF k, of offset "render ks"] sp [of ?off] ts(1) by (simp add: r)
  finally show ?case using ts(2) by simp
qed

end
