(* ===== verification/Sql_Parser.thy ===== *)
theory Sql_Parser
  imports Sql_Lexer
begin

text \<open>
  \<open>src/src/sql/parser.rs\<close>: the recursive-descent parser. The parser's state is the rest of the token sequence; every
  \<open>?\<close> ends the parse, so a parsing function maps it to an error or to a value and the tokens left. Indexing past the last
  token is a panic. The mutually recursive expression functions take the number of nested parentheses they may still
  enter (and a loop the number of its rounds); \<open>expr\<close> gives them the number of tokens, and it is a theorem that this
  bound is never reached.
\<close>

section \<open>Token access\<close>

type_synonym 'a parse_result = "('a \<times> token list) may_fail"

definition peek :: "token list \<Rightarrow> token may_fail" where
  "peek ts = (case ts of [] \<Rightarrow> Inl Panicked | t # _ \<Rightarrow> Inr t)"

definition at_end :: "token list \<Rightarrow> bool may_fail" where
  "at_end ts = rbind (peek ts) (\<lambda>t. Inr (tk_kind t = TEnd))"

definition advance :: "token list \<Rightarrow> token parse_result" where
  "advance ts = (case ts of [] \<Rightarrow> Inl Panicked | t # r \<Rightarrow> Inr (t, if tk_kind t = TEnd then ts else r))"

definition expected :: "string \<Rightarrow> token list \<Rightarrow> 'a may_fail" where
  "expected what ts = rbind (peek ts) (\<lambda>t. fail_with (sql_error (tk_pos t) (''expected '' @ what)))"

definition consume_simple :: "token_kind \<Rightarrow> token list \<Rightarrow> bool parse_result" where
  "consume_simple kind ts = rbind (peek ts) (\<lambda>t. Inr (if tk_kind t = kind then (True, tl ts) else (False, ts)))"

definition expect_simple :: "token_kind \<Rightarrow> string \<Rightarrow> token list \<Rightarrow> unit parse_result" where
  "expect_simple kind description ts =
    rbind (consume_simple kind ts) (\<lambda>(ok, ts). if ok then Inr ((), ts) else expected description ts)"

definition check_word :: "string \<Rightarrow> token list \<Rightarrow> bool may_fail" where
  "check_word w ts = rbind (peek ts) (\<lambda>t. Inr (tk_kind t = TWord (ascii w)))"

definition consume_word :: "string \<Rightarrow> token list \<Rightarrow> bool parse_result" where
  "consume_word w ts = rbind (check_word w ts) (\<lambda>b. Inr (if b then (True, tl ts) else (False, ts)))"

definition quoted :: "string \<Rightarrow> string" where
  "quoted w = [char_of (39::nat)] @ w @ [char_of (39::nat)]"

definition expect_word :: "string \<Rightarrow> token list \<Rightarrow> unit parse_result" where
  "expect_word w ts = rbind (consume_word w ts) (\<lambda>(ok, ts). if ok then Inr ((), ts) else expected (quoted w) ts)"

definition parse_word :: "token list \<Rightarrow> rstring parse_result" where
  "parse_word ts = rbind (advance ts) (\<lambda>(t, ts).
     case tk_kind t of TWord w \<Rightarrow> Inr (w, ts) | _ \<Rightarrow> fail_with (sql_error (tk_pos t) ''expected an identifier''))"

definition sql_identifier :: "token list \<Rightarrow> rstring parse_result" where
  "sql_identifier ts = parse_word ts"

definition literal :: "token list \<Rightarrow> sql_value parse_result" where
  "literal ts = rbind (advance ts) (\<lambda>(t, ts).
     case tk_kind t of
       TInteger v \<Rightarrow> Inr (VInteger v, ts)
     | TString v \<Rightarrow> Inr (VText v, ts)
     | TWord w \<Rightarrow>
         if w = ascii ''NULL'' then Inr (VNull, ts)
         else if w = ascii ''TRUE'' then Inr (VBoolean True, ts)
         else if w = ascii ''FALSE'' then Inr (VBoolean False, ts)
         else fail_with (sql_error (tk_pos t) ''expected a literal value'')
     | _ \<Rightarrow> fail_with (sql_error (tk_pos t) ''expected a literal value''))"

section \<open>What every parsing function keeps\<close>

text \<open>
  From a sequence that ends with \<open>TEnd\<close> a parsing function does not panic and leaves such a sequence; on success it has
  consumed at least \<open>n\<close> tokens.
\<close>

definition sound :: "nat \<Rightarrow> token list \<Rightarrow> 'a parse_result \<Rightarrow> bool" where
  "sound n ts m \<longleftrightarrow> (\<forall>x r. m = Inr (x, r) \<longrightarrow> length r + n \<le> length ts)
    \<and> (well_ended ts \<longrightarrow> m \<noteq> Inl Panicked \<and> (\<forall>x r. m = Inr (x, r) \<longrightarrow> well_ended r))"

named_theorems parse_sound \<open>parsing functions are sound\<close>

lemma well_ended_not_Nil [simp]: "\<not> well_ended []"
  by (simp add: well_ended_def)

lemma well_ended_tl: "well_ended (t # ts) \<Longrightarrow> tk_kind t \<noteq> TEnd \<Longrightarrow> well_ended ts"
  by (cases ts) (auto simp: well_ended_def)

lemma sound_mono: "sound n ts m \<Longrightarrow> k \<le> n \<Longrightarrow> sound k ts m"
  unfolding sound_def by fastforce

lemma sound_length: "sound n ts m \<Longrightarrow> m = Inr (x, r) \<Longrightarrow> length r + n \<le> length ts"
  by (simp add: sound_def)

lemma sound_bind:
  assumes m: "sound n ts m" and f: "\<And>x r. m = Inr (x, r) \<Longrightarrow> length r + n \<le> length ts \<Longrightarrow> sound k r (f (x, r))"
  shows "sound (n + k) ts (rbind m f)"
proof (cases m)
  case (Inl e)
  then show ?thesis using m by (simp add: sound_def)
next
  case (Inr p)
  obtain x r where p: "p = (x, r)" by force
  have l: "length r + n \<le> length ts" using m Inr p by (simp add: sound_def)
  from f [of x r] m Inr p l show ?thesis unfolding sound_def by fastforce
qed

lemma sound_bind_le:
  assumes m: "sound n ts m" and f: "\<And>x r. m = Inr (x, r) \<Longrightarrow> length r + n \<le> length ts \<Longrightarrow> sound (k - n) r (f (x, r))"
  shows "sound k ts (rbind m f)"
proof (rule sound_mono)
  show "sound (n + (k - n)) ts (rbind m f)" by (rule sound_bind [OF m f])
qed simp

lemma sound_bind_pair:
  assumes "sound n ts m" and "\<And>x r. m = Inr (x, r) \<Longrightarrow> length r + n \<le> length ts \<Longrightarrow> sound (k - n) r (g x r)"
  shows "sound k ts (rbind m (\<lambda>(x, r). g x r))"
  by (rule sound_bind_le [OF assms(1)]) (use assms(2) in simp)

lemma sound_Inr [parse_sound]: "sound 0 ts (Inr (x, ts))"
  by (simp add: sound_def)

lemma sound_fail [parse_sound]: "sound n ts (fail_with e)"
  by (simp add: sound_def)

lemma sound_expected [parse_sound]: "sound n ts (expected what ts)"
  by (cases ts) (simp_all add: sound_def expected_def peek_def)

lemma sound_consume_simple [parse_sound]: "kind \<noteq> TEnd \<Longrightarrow> sound 0 ts (consume_simple kind ts)"
  by (cases ts) (auto simp: sound_def consume_simple_def peek_def dest: well_ended_tl)

lemma consumed: "consume_simple kind ts = Inr (True, r) \<Longrightarrow> ts \<noteq> [] \<and> r = tl ts \<and> tk_kind (hd ts) = kind"
  by (cases ts) (auto simp: consume_simple_def peek_def split: if_splits)

lemma consume_word_simple: "consume_word w ts = consume_simple (TWord (ascii w)) ts"
  by (cases ts) (simp_all add: consume_word_def consume_simple_def check_word_def peek_def)

lemma sound_consume_word [parse_sound]: "sound 0 ts (consume_word w ts)"
  by (simp add: consume_word_simple sound_consume_simple)

lemma sound_expect_simple [parse_sound]: "kind \<noteq> TEnd \<Longrightarrow> sound 1 ts (expect_simple kind d ts)"
  by (cases ts) (auto simp: sound_def expect_simple_def consume_simple_def expected_def peek_def dest: well_ended_tl)

lemma sound_expect_word [parse_sound]: "sound 1 ts (expect_word w ts)"
  by (cases ts) (auto simp: sound_def expect_word_def consume_word_simple consume_simple_def expected_def peek_def dest: well_ended_tl)

lemma sound_word [parse_sound]: "sound 1 ts (parse_word ts)"
  by (cases ts) (auto simp: sound_def parse_word_def advance_def dest: well_ended_tl split: token_kind.splits)

lemma sound_sql_identifier [parse_sound]: "sound 1 ts (sql_identifier ts)"
  unfolding sql_identifier_def by (rule sound_word)

lemma sound_literal [parse_sound]: "sound 1 ts (literal ts)"
  by (cases ts) (auto simp: sound_def literal_def advance_def dest: well_ended_tl split: token_kind.splits if_splits)

lemmas identifier_length = sound_length [OF sound_sql_identifier]
lemmas word_length = sound_length [OF sound_word]
lemmas literal_length = sound_length [OF sound_literal]

lemma consume_length: "consume_simple k ts = Inr (b, r) \<Longrightarrow> length r \<le> length ts \<and> (b \<longrightarrow> length r < length ts)"
  by (cases ts) (auto simp: consume_simple_def peek_def split: if_splits)

lemma consume_word_length: "consume_word w ts = Inr (b, r) \<Longrightarrow> length r \<le> length ts \<and> (b \<longrightarrow> length r < length ts)"
  by (simp add: consume_word_simple consume_length)

lemma expect_length: "expect_simple k d ts = Inr (x, r) \<Longrightarrow> length r < length ts"
  using consume_length [of k ts] by (auto simp: expect_simple_def expected_def rbind_Inr_iff split: if_splits)

lemma expect_word_length: "expect_word w ts = Inr (x, r) \<Longrightarrow> length r < length ts"
  using consume_word_length [of w ts] by (auto simp: expect_word_def expected_def rbind_Inr_iff split: if_splits)

section \<open>Lists\<close>

function identifier_list :: "token_kind \<Rightarrow> token list \<Rightarrow> rstring list parse_result" where
  "identifier_list kind ts =
    rbind (sql_identifier ts) (\<lambda>(name, ts1).
    rbind (consume_simple kind ts1) (\<lambda>(done, ts2).
    if done then Inr ([name], ts2)
    else rbind (expect_simple TComma (quoted '','') ts2) (\<lambda>(_, ts3).
         rbind (identifier_list kind ts3) (\<lambda>(names, ts4). Inr (name # names, ts4)))))"
  by pat_completeness auto
termination
  by (relation "measure (\<lambda>(kind, ts). length ts)") (auto dest!: identifier_length consume_length expect_length)

function identifier_list_until_word :: "string \<Rightarrow> token list \<Rightarrow> rstring list parse_result" where
  "identifier_list_until_word w ts =
    rbind (sql_identifier ts) (\<lambda>(name, ts1).
    rbind (check_word w ts1) (\<lambda>done.
    if done then Inr ([name], ts1)
    else rbind (expect_simple TComma (quoted '','') ts1) (\<lambda>(_, ts3).
         rbind (identifier_list_until_word w ts3) (\<lambda>(names, ts4). Inr (name # names, ts4)))))"
  by pat_completeness auto
termination
  by (relation "measure (\<lambda>(w, ts). length ts)") (auto dest!: identifier_length expect_length)

declare identifier_list.simps [simp del] identifier_list_until_word.simps [simp del]

definition parse_type :: "rstring \<Rightarrow> token list \<Rightarrow> data_type may_fail" where
  "parse_type type_name ts =
    (if type_name = ascii ''INT'' \<or> type_name = ascii ''INTEGER'' then Inr TypeInteger
     else if type_name = ascii ''TEXT'' then Inr TypeText
     else if type_name = ascii ''BOOL'' \<or> type_name = ascii ''BOOLEAN'' then Inr TypeBoolean
     else expected ''INT, TEXT, or BOOLEAN'' ts)"

definition column_definition :: "token list \<Rightarrow> column_def parse_result" where
  "column_definition ts =
    rbind (sql_identifier ts) (\<lambda>(name, ts).
    rbind (parse_word ts) (\<lambda>(type_name, ts).
    rbind (parse_type type_name ts) (\<lambda>data_type.
    rbind (consume_word ''PRIMARY'' ts) (\<lambda>(primary, ts).
    rbind (if primary then expect_word ''KEY'' ts else Inr ((), ts)) (\<lambda>(_, ts).
    Inr (\<lparr>cd_name = name, cd_type = data_type, cd_primary = primary\<rparr>, ts))))))"

lemma sound_column [parse_sound]: "sound 1 ts (column_definition ts)"
  unfolding column_definition_def
proof (rule sound_bind_le [OF sound_sql_identifier], clarsimp)
  fix name ts1
  show "sound 0 ts1 (rbind (parse_word ts1) (\<lambda>(type_name, ts). rbind (parse_type type_name ts) (\<lambda>data_type.
      rbind (consume_word ''PRIMARY'' ts) (\<lambda>(primary, ts). rbind (if primary then expect_word ''KEY'' ts else Inr ((), ts)) (\<lambda>(_, ts).
      Inr (\<lparr>cd_name = name, cd_type = data_type, cd_primary = primary\<rparr>, ts))))))"
  proof (rule sound_bind_le [OF sound_word], clarsimp)
    fix type_name ts2
    show "sound 0 ts2 (rbind (parse_type type_name ts2) (\<lambda>data_type. rbind (consume_word ''PRIMARY'' ts2) (\<lambda>(primary, ts).
        rbind (if primary then expect_word ''KEY'' ts else Inr ((), ts)) (\<lambda>(_, ts).
        Inr (\<lparr>cd_name = name, cd_type = data_type, cd_primary = primary\<rparr>, ts)))))"
    proof (cases "parse_type type_name ts2")
      case (Inl e)
      then show ?thesis by (cases ts2) (auto simp: sound_def parse_type_def expected_def peek_def split: if_splits)
    next
      case (Inr ty)
      show ?thesis unfolding Inr rbind.simps
        by (rule sound_bind_le [OF sound_consume_word]) (auto intro!: sound_bind_le [where n = 0] sound_Inr intro: sound_mono [OF sound_expect_word])
    qed
  qed
qed

function column_list :: "token list \<Rightarrow> column_def list parse_result" where
  "column_list ts =
    rbind (column_definition ts) (\<lambda>(column, ts1).
    rbind (consume_simple TComma ts1) (\<lambda>(more, ts2).
    if more then rbind (column_list ts2) (\<lambda>(columns, ts3). Inr (column # columns, ts3))
    else Inr ([column], ts2)))"
  by pat_completeness auto
termination
  by (relation "measure length") (auto dest!: sound_length [OF sound_column] consume_length)

function value_list :: "token list \<Rightarrow> sql_value list parse_result" where
  "value_list ts =
    rbind (literal ts) (\<lambda>(v, ts1).
    rbind (consume_simple TComma ts1) (\<lambda>(more, ts2).
    if more then rbind (value_list ts2) (\<lambda>(vs, ts3). Inr (v # vs, ts3))
    else Inr ([v], ts2)))"
  by pat_completeness auto
termination
  by (relation "measure length") (auto dest!: literal_length consume_length)

definition assignment :: "token list \<Rightarrow> (rstring \<times> sql_value) parse_result" where
  "assignment ts =
    rbind (sql_identifier ts) (\<lambda>(column, ts).
    rbind (expect_simple TEq (quoted ''='') ts) (\<lambda>(_, ts).
    rbind (literal ts) (\<lambda>(v, ts). Inr ((column, v), ts))))"

lemma sound_assignment [parse_sound]: "sound 1 ts (assignment ts)"
  unfolding assignment_def
  by (rule sound_bind_le [OF sound_sql_identifier], clarsimp,
      rule sound_bind_le [OF sound_expect_simple], simp, clarsimp,
      rule sound_bind_le [OF sound_literal], simp add: sound_Inr)

function assignment_list :: "token list \<Rightarrow> (rstring \<times> sql_value) list parse_result" where
  "assignment_list ts =
    rbind (assignment ts) (\<lambda>(a, ts1).
    rbind (consume_simple TComma ts1) (\<lambda>(more, ts2).
    if more then rbind (assignment_list ts2) (\<lambda>(rest, ts3). Inr (a # rest, ts3))
    else Inr ([a], ts2)))"
  by pat_completeness auto
termination
  by (relation "measure length") (auto dest!: sound_length [OF sound_assignment] consume_length)

declare column_list.simps [simp del] value_list.simps [simp del] assignment_list.simps [simp del]

section \<open>Expressions\<close>

fun comparison_op :: "token_kind \<Rightarrow> binary_op option" where
  "comparison_op TEq = Some OpEq"
| "comparison_op TNe = Some OpNe"
| "comparison_op TLt = Some OpLt"
| "comparison_op TLe = Some OpLe"
| "comparison_op TGt = Some OpGt"
| "comparison_op TGe = Some OpGe"
| "comparison_op _ = None"

definition literal_word :: "rstring \<Rightarrow> bool" where
  "literal_word w \<longleftrightarrow> w = ascii ''NULL'' \<or> w = ascii ''TRUE'' \<or> w = ascii ''FALSE''"

text \<open>\<open>nested\<close> parses the expression inside parentheses.\<close>

definition primary :: "(token list \<Rightarrow> expr parse_result) \<Rightarrow> token list \<Rightarrow> expr parse_result" where
  "primary nested ts =
    rbind (consume_simple TLeftParen ts) (\<lambda>(paren, ts).
    if paren then
      rbind (nested ts) (\<lambda>(e, ts).
      rbind (expect_simple TRightParen (quoted '')'') ts) (\<lambda>(_, ts). Inr (e, ts)))
    else rbind (peek ts) (\<lambda>t.
      case tk_kind t of
        TInteger _ \<Rightarrow> rbind (literal ts) (\<lambda>(v, ts). Inr (ELiteral v, ts))
      | TString _ \<Rightarrow> rbind (literal ts) (\<lambda>(v, ts). Inr (ELiteral v, ts))
      | TWord w \<Rightarrow>
          if literal_word w then rbind (literal ts) (\<lambda>(v, ts). Inr (ELiteral v, ts))
          else rbind (sql_identifier ts) (\<lambda>(c, ts). Inr (EColumn c, ts))
      | _ \<Rightarrow> expected ''column, literal, or parenthesized expression'' ts))"

definition comparison :: "(token list \<Rightarrow> expr parse_result) \<Rightarrow> token list \<Rightarrow> expr parse_result" where
  "comparison nested ts =
    rbind (primary nested ts) (\<lambda>(left, ts).
    rbind (peek ts) (\<lambda>t.
    case comparison_op (tk_kind t) of
      Some oper \<Rightarrow> rbind (primary nested (tl ts)) (\<lambda>(right, ts). Inr (EBinary oper left right, ts))
    | None \<Rightarrow> Inr (left, ts)))"

fun and_loop :: "nat \<Rightarrow> (token list \<Rightarrow> expr parse_result) \<Rightarrow> expr \<Rightarrow> token list \<Rightarrow> expr parse_result" where
  "and_loop 0 nested e ts = Inl Panicked"
| "and_loop (Suc n) nested e ts =
    rbind (consume_word ''AND'' ts) (\<lambda>(more, ts).
    if more then rbind (comparison nested ts) (\<lambda>(right, ts). and_loop n nested (EBinary OpAnd e right) ts)
    else Inr (e, ts))"

definition and_expr :: "(token list \<Rightarrow> expr parse_result) \<Rightarrow> token list \<Rightarrow> expr parse_result" where
  "and_expr nested ts = rbind (comparison nested ts) (\<lambda>(e, ts). and_loop (length ts) nested e ts)"

fun or_loop :: "nat \<Rightarrow> (token list \<Rightarrow> expr parse_result) \<Rightarrow> expr \<Rightarrow> token list \<Rightarrow> expr parse_result" where
  "or_loop 0 nested e ts = Inl Panicked"
| "or_loop (Suc n) nested e ts =
    rbind (consume_word ''OR'' ts) (\<lambda>(more, ts).
    if more then rbind (and_expr nested ts) (\<lambda>(right, ts). or_loop n nested (EBinary OpOr e right) ts)
    else Inr (e, ts))"

definition or_expr :: "(token list \<Rightarrow> expr parse_result) \<Rightarrow> token list \<Rightarrow> expr parse_result" where
  "or_expr nested ts = rbind (and_expr nested ts) (\<lambda>(e, ts). or_loop (length ts) nested e ts)"

primrec expr_at :: "nat \<Rightarrow> token list \<Rightarrow> expr parse_result" where
  "expr_at 0 ts = Inl Panicked"
| "expr_at (Suc n) ts = or_expr (expr_at n) ts"

definition parse_expr :: "token list \<Rightarrow> expr parse_result" where
  "parse_expr ts = expr_at (length ts) ts"

text \<open>The functions are sound for every \<open>nested\<close> that is sound on the shorter sequences.\<close>

definition sound_below :: "nat \<Rightarrow> (token list \<Rightarrow> expr parse_result) \<Rightarrow> bool" where
  "sound_below n p \<longleftrightarrow> (\<forall>ts. length ts < n \<longrightarrow> sound 1 ts (p ts))"

lemma sound_primary:
  assumes p: "sound_below n nested" and ts: "length ts \<le> n"
  shows "sound 1 ts (primary nested ts)"
proof (cases ts)
  case Nil
  then show ?thesis by (simp add: primary_def consume_simple_def peek_def sound_def)
next
  case (Cons t r)
  show ?thesis
  proof (cases "tk_kind t = TLeftParen")
    case True
    have n: "sound 1 r (nested r)" using p ts Cons by (simp add: sound_below_def)
    have "sound 1 r (rbind (nested r) (\<lambda>(e, ts). rbind (expect_simple TRightParen (quoted '')'') ts) (\<lambda>(_, ts). Inr (e, ts))))"
      by (rule sound_bind_le [OF n], clarsimp, rule sound_bind_le [OF sound_expect_simple], simp, simp add: sound_Inr)
    with True show ?thesis by (auto simp: Cons primary_def consume_simple_def peek_def sound_def dest: well_ended_tl)
  next
    case False
    have l: "sound 1 ts (rbind (literal ts) (\<lambda>(v, ts). Inr (ELiteral v, ts)))"
      by (rule sound_bind_le [OF sound_literal]) (simp add: sound_Inr)
    have i: "sound 1 ts (rbind (sql_identifier ts) (\<lambda>(c, ts). Inr (EColumn c, ts)))"
      by (rule sound_bind_le [OF sound_sql_identifier]) (simp add: sound_Inr)
    from False l i sound_expected [of 1 ts "''column, literal, or parenthesized expression''"] show ?thesis
      by (cases "tk_kind t") (simp_all add: Cons primary_def consume_simple_def peek_def)
  qed
qed

lemma sound_comparison:
  assumes p: "sound_below n nested" and ts: "length ts \<le> n"
  shows "sound 1 ts (comparison nested ts)"
  unfolding comparison_def
proof (rule sound_bind_pair [OF sound_primary [OF p ts]])
  fix left and r :: "token list"
  assume "length r + 1 \<le> length ts"
  then have "length r < length ts" by simp
  show "sound (1 - 1) r (rbind (peek r) (\<lambda>t. case comparison_op (tk_kind t) of None \<Rightarrow> Inr (left, r)
      | Some oper \<Rightarrow> rbind (primary nested (tl r)) (\<lambda>(right, ts). Inr (EBinary oper left right, ts))))"
  proof (cases r)
    case Nil
    then show ?thesis by (simp add: peek_def sound_def)
  next
    case (Cons t u)
    show ?thesis
    proof (cases "comparison_op (tk_kind t)")
      case None
      then show ?thesis using sound_Inr by (simp add: Cons peek_def)
    next
      case (Some oper)
      then have k: "tk_kind t \<noteq> TEnd" by auto
      have "length u \<le> n" using \<open>length r < length ts\<close> ts Cons by simp
      have "sound 1 u (rbind (primary nested u) (\<lambda>(right, ts). Inr (EBinary oper left right, ts)))"
        by (rule sound_bind_le [OF sound_primary [OF p \<open>length u \<le> n\<close>]]) (simp add: sound_Inr)
      then show ?thesis using k by (auto simp: Cons peek_def Some sound_def dest: well_ended_tl)
    qed
  qed
qed

lemma sound_after:
  assumes "ts = t # r" and "tk_kind t \<noteq> TEnd" and "sound n r m"
  shows "sound (Suc n) ts m"
  using assms by (auto simp: sound_def dest: well_ended_tl)

text \<open>Both loops: with as many rounds as there are tokens they end.\<close>

lemma sound_and_loop:
  "sound_below n nested \<Longrightarrow> length ts \<le> n \<Longrightarrow> length ts \<le> k \<Longrightarrow> ts \<noteq> [] \<Longrightarrow> sound 0 ts (and_loop k nested e ts)"
proof (induction k arbitrary: e ts)
  case (Suc k)
  obtain t r where ts: "ts = t # r" using Suc.prems(4) by (cases ts) auto
  show ?case
  proof (cases "tk_kind t = TWord (ascii ''AND'')")
    case True
    have "length r \<le> n" using Suc.prems(2) ts by simp
    note cmp = sound_comparison [OF Suc.prems(1) this]
    have "sound 1 r (rbind (comparison nested r) (\<lambda>(right, ts). and_loop k nested (EBinary OpAnd e right) ts))"
    proof (rule sound_bind_pair [OF cmp])
      fix x and u :: "token list"
      assume u: "length u + 1 \<le> length r"
      show "sound (1 - 1) u (and_loop k nested (EBinary OpAnd e x) u)"
      proof (cases "u = []")
        case False
        then show ?thesis using Suc.IH [OF Suc.prems(1), of u] u Suc.prems(2,3) ts by simp
      next
        case True
        then show ?thesis by (cases k) (simp_all add: sound_def consume_word_simple consume_simple_def peek_def)
      qed
    qed
    from sound_mono [OF sound_after [OF ts _ this]] True show ?thesis by (simp add: ts consume_word_simple consume_simple_def peek_def)
  next
    case False
    then show ?thesis using sound_Inr by (simp add: ts consume_word_simple consume_simple_def peek_def)
  qed
qed simp

lemma sound_and_expr:
  assumes p: "sound_below n nested" and ts: "length ts \<le> n"
  shows "sound 1 ts (and_expr nested ts)"
  unfolding and_expr_def
proof (rule sound_bind_pair [OF sound_comparison [OF p ts]])
  fix e and r :: "token list"
  assume r: "length r + 1 \<le> length ts"
  show "sound (1 - 1) r (and_loop (length r) nested e r)"
    using sound_and_loop [OF p, of r "length r" e] r ts by (cases "r = []") (simp_all add: sound_def)
qed

lemma sound_or_loop:
  "sound_below n nested \<Longrightarrow> length ts \<le> n \<Longrightarrow> length ts \<le> k \<Longrightarrow> ts \<noteq> [] \<Longrightarrow> sound 0 ts (or_loop k nested e ts)"
proof (induction k arbitrary: e ts)
  case (Suc k)
  obtain t r where ts: "ts = t # r" using Suc.prems(4) by (cases ts) auto
  show ?case
  proof (cases "tk_kind t = TWord (ascii ''OR'')")
    case True
    have "length r \<le> n" using Suc.prems(2) ts by simp
    note cmp = sound_and_expr [OF Suc.prems(1) this]
    have "sound 1 r (rbind (and_expr nested r) (\<lambda>(right, ts). or_loop k nested (EBinary OpOr e right) ts))"
    proof (rule sound_bind_pair [OF cmp])
      fix x and u :: "token list"
      assume u: "length u + 1 \<le> length r"
      show "sound (1 - 1) u (or_loop k nested (EBinary OpOr e x) u)"
      proof (cases "u = []")
        case False
        then show ?thesis using Suc.IH [OF Suc.prems(1), of u] u Suc.prems(2,3) ts by simp
      next
        case True
        then show ?thesis by (cases k) (simp_all add: sound_def consume_word_simple consume_simple_def peek_def)
      qed
    qed
    from sound_mono [OF sound_after [OF ts _ this]] True show ?thesis by (simp add: ts consume_word_simple consume_simple_def peek_def)
  next
    case False
    then show ?thesis using sound_Inr by (simp add: ts consume_word_simple consume_simple_def peek_def)
  qed
qed simp

lemma sound_expr_at: "sound_below (Suc n) (expr_at n)"
proof (induction n)
  case 0
  then show ?case by (auto simp: sound_below_def sound_def)
next
  case (Suc n)
  have "sound 1 ts (or_expr (expr_at n) ts)" if ts: "length ts \<le> Suc n" for ts
    unfolding or_expr_def
  proof (rule sound_bind_pair [OF sound_and_expr [OF Suc.IH ts]])
    fix e and r :: "token list"
    assume r: "length r + 1 \<le> length ts"
    show "sound (1 - 1) r (or_loop (length r) (expr_at n) e r)"
      using sound_or_loop [OF Suc.IH, of r "length r" e] r ts by (cases "r = []") (simp_all add: sound_def)
  qed
  then show ?case by (simp add: sound_below_def)
qed

lemma sound_parse_expr [parse_sound]: "sound 1 ts (parse_expr ts)"
  using sound_expr_at [of "length ts"] by (simp add: sound_below_def parse_expr_def)

section \<open>Statements\<close>

definition create_table :: "token list \<Rightarrow> sql_statement parse_result" where
  "create_table ts =
    rbind (sql_identifier ts) (\<lambda>(table, ts).
    rbind (expect_simple TLeftParen (quoted ''('') ts) (\<lambda>(_, ts).
    rbind (column_list ts) (\<lambda>(columns, ts).
    rbind (expect_simple TRightParen (quoted '')'') ts) (\<lambda>(_, ts).
    Inr (SCreateTable table columns, ts)))))"

definition parse_insert :: "token list \<Rightarrow> sql_statement parse_result" where
  "parse_insert ts =
    rbind (sql_identifier ts) (\<lambda>(table, ts).
    rbind (expect_simple TLeftParen (quoted ''('') ts) (\<lambda>(_, ts).
    rbind (identifier_list TRightParen ts) (\<lambda>(columns, ts).
    rbind (expect_word ''VALUES'' ts) (\<lambda>(_, ts).
    rbind (expect_simple TLeftParen (quoted ''('') ts) (\<lambda>(_, ts).
    rbind (value_list ts) (\<lambda>(vals, ts).
    rbind (expect_simple TRightParen (quoted '')'') ts) (\<lambda>(_, ts).
    Inr (SInsert table columns vals, ts))))))))"

definition where_clause :: "token list \<Rightarrow> expr option parse_result" where
  "where_clause ts =
    rbind (consume_word ''WHERE'' ts) (\<lambda>(present, ts).
    if present then rbind (parse_expr ts) (\<lambda>(e, ts). Inr (Some e, ts)) else Inr (None, ts))"

definition order_clause :: "token list \<Rightarrow> (rstring \<times> bool) option parse_result" where
  "order_clause ts =
    rbind (consume_word ''ORDER'' ts) (\<lambda>(present, ts).
    if present then
      rbind (expect_word ''BY'' ts) (\<lambda>(_, ts).
      rbind (sql_identifier ts) (\<lambda>(column, ts).
      rbind (consume_word ''DESC'' ts) (\<lambda>(desc, ts).
      if desc then Inr (Some (column, False), ts)
      else rbind (consume_word ''ASC'' ts) (\<lambda>(_, ts). Inr (Some (column, True), ts)))))
    else Inr (None, ts))"

definition limit_clause :: "token list \<Rightarrow> nat option parse_result" where
  "limit_clause ts =
    rbind (consume_word ''LIMIT'' ts) (\<lambda>(present, ts).
    if present then
      rbind (advance ts) (\<lambda>(t, ts).
      let bad = fail_with (sql_error (tk_pos t) ''LIMIT expects a nonnegative integer'') in
      case tk_kind t of
        TInteger v \<Rightarrow> if sint v \<ge> 0 then Inr (Some (unat v), ts) else bad
      | _ \<Rightarrow> bad)
    else Inr (None, ts))"

definition select_projection :: "token list \<Rightarrow> projection parse_result" where
  "select_projection ts =
    rbind (consume_simple TStar ts) (\<lambda>(star, ts).
    if star then Inr (AllColumns, ts)
    else rbind (identifier_list_until_word ''FROM'' ts) (\<lambda>(names, ts). Inr (Columns names, ts)))"

definition select_after_keyword :: "token list \<Rightarrow> select parse_result" where
  "select_after_keyword ts =
    rbind (select_projection ts) (\<lambda>(proj, ts).
    rbind (expect_word ''FROM'' ts) (\<lambda>(_, ts).
    rbind (sql_identifier ts) (\<lambda>(table, ts).
    rbind (where_clause ts) (\<lambda>(flt, ts).
    rbind (order_clause ts) (\<lambda>(order_by, ts).
    rbind (limit_clause ts) (\<lambda>(limit, ts).
    Inr (\<lparr>sel_table = table, sel_projection = proj, sel_filter = flt, sel_order_by = order_by, sel_limit = limit\<rparr>, ts)))))))"

definition parse_update :: "token list \<Rightarrow> sql_statement parse_result" where
  "parse_update ts =
    rbind (sql_identifier ts) (\<lambda>(table, ts).
    rbind (expect_word ''SET'' ts) (\<lambda>(_, ts).
    rbind (assignment_list ts) (\<lambda>(assignments, ts).
    rbind (where_clause ts) (\<lambda>(flt, ts).
    Inr (SUpdate table assignments flt, ts)))))"

definition parse_delete :: "token list \<Rightarrow> sql_statement parse_result" where
  "parse_delete ts =
    rbind (sql_identifier ts) (\<lambda>(table, ts).
    rbind (where_clause ts) (\<lambda>(flt, ts).
    Inr (SDelete table flt, ts)))"

text \<open>\<open>if self.consume_word(w) { return .. }\<close>\<close>

definition on_word :: "string \<Rightarrow> (token list \<Rightarrow> 'a parse_result) \<Rightarrow> (token list \<Rightarrow> 'a parse_result) \<Rightarrow> token list \<Rightarrow> 'a parse_result" where
  "on_word w yes no ts = rbind (consume_word w ts) (\<lambda>(found, ts). if found then yes ts else no ts)"

definition statement :: "token list \<Rightarrow> sql_statement parse_result" where
  "statement =
    on_word ''CREATE'' (\<lambda>ts. rbind (expect_word ''TABLE'' ts) (\<lambda>(_, ts). create_table ts))
    (on_word ''INSERT'' (\<lambda>ts. rbind (expect_word ''INTO'' ts) (\<lambda>(_, ts). parse_insert ts))
    (on_word ''SELECT'' (\<lambda>ts. rbind (select_after_keyword ts) (\<lambda>(sel, ts). Inr (SSelect sel, ts)))
    (on_word ''UPDATE'' parse_update
    (on_word ''DELETE'' (\<lambda>ts. rbind (expect_word ''FROM'' ts) (\<lambda>(_, ts). parse_delete ts))
    (on_word ''BEGIN'' (\<lambda>ts. Inr (SBegin, ts))
    (on_word ''COMMIT'' (\<lambda>ts. Inr (SCommit, ts))
    (on_word ''ROLLBACK'' (\<lambda>ts. Inr (SRollback, ts))
    (on_word ''EXPLAIN'' (\<lambda>ts. rbind (expect_word ''SELECT'' ts) (\<lambda>(_, ts).
        rbind (select_after_keyword ts) (\<lambda>(sel, ts). Inr (SExplain sel, ts))))
    (expected ''CREATE, INSERT, SELECT, UPDATE, DELETE, or transaction command'')))))))))"

lemma sound_identifier_list [parse_sound]: "kind \<noteq> TEnd \<Longrightarrow> sound 1 ts (identifier_list kind ts)"
proof (induction kind ts rule: identifier_list.induct)
  case (1 kind ts)
  show ?case
    unfolding identifier_list.simps [of kind ts]
  proof (rule sound_bind_pair [OF sound_sql_identifier], rule sound_bind_pair [OF sound_consume_simple [OF 1(2)]])
    fix name ts1 and ok :: bool and ts2
    assume a: "sql_identifier ts = Inr (name, ts1)" "consume_simple kind ts1 = Inr (ok, ts2)"
    have "sound 0 ts2 (rbind (expect_simple TComma (quoted '','') ts2) (\<lambda>(_, ts3).
        rbind (identifier_list kind ts3) (\<lambda>(names, ts4). Inr (name # names, ts4))))" if "\<not> ok"
    proof (rule sound_bind_pair [OF sound_expect_simple])
      fix x ts3
      assume x: "expect_simple TComma (quoted '','') ts2 = Inr (x, ts3)"
      have "sound 1 ts3 (identifier_list kind ts3)" using 1(1) [OF a(1) refl a(2) refl that x refl 1(2)] .
      then show "sound (0 - 1) ts3 (rbind (identifier_list kind ts3) (\<lambda>(names, ts4). Inr (name # names, ts4)))"
        by (rule sound_bind_pair) (simp add: sound_Inr)
    qed simp
    then show "sound (1 - 1 - 0) ts2 (if ok then Inr ([name], ts2) else rbind (expect_simple TComma (quoted '','') ts2) (\<lambda>(_, ts3).
        rbind (identifier_list kind ts3) (\<lambda>(names, ts4). Inr (name # names, ts4))))" by (simp add: sound_Inr)
  qed
qed

lemma sound_identifier_list_until_word [parse_sound]: "sound 1 ts (identifier_list_until_word w ts)"
proof (induction w ts rule: identifier_list_until_word.induct)
  case (1 w ts)
  show ?case
    unfolding identifier_list_until_word.simps [of w ts]
  proof (rule sound_bind_pair [OF sound_sql_identifier])
    fix name ts1
    assume a: "sql_identifier ts = Inr (name, ts1)"
    have "sound 0 ts1 (rbind (expect_simple TComma (quoted '','') ts1) (\<lambda>(_, ts3).
        rbind (identifier_list_until_word w ts3) (\<lambda>(names, ts4). Inr (name # names, ts4))))" if c: "check_word w ts1 = Inr False"
    proof (rule sound_bind_pair [OF sound_expect_simple])
      fix x ts3
      assume x: "expect_simple TComma (quoted '','') ts1 = Inr (x, ts3)"
      have "sound 1 ts3 (identifier_list_until_word w ts3)" using 1 [OF a refl c _ x refl] by simp
      then show "sound (0 - 1) ts3 (rbind (identifier_list_until_word w ts3) (\<lambda>(names, ts4). Inr (name # names, ts4)))"
        by (rule sound_bind_pair) (simp add: sound_Inr)
    qed simp
    then show "sound (1 - 1) ts1 (rbind (check_word w ts1) (\<lambda>ok. if ok then Inr ([name], ts1) else rbind (expect_simple TComma (quoted '','') ts1)
        (\<lambda>(_, ts3). rbind (identifier_list_until_word w ts3) (\<lambda>(names, ts4). Inr (name # names, ts4)))))"
      by (cases ts1; cases "check_word w ts1") (auto simp: sound_Inr check_word_def peek_def sound_def)
  qed
qed

text \<open>A list of items separated by commas.\<close>

lemma sound_comma_list:
  assumes item: "sound 1 ts (item ts)"
    and rest: "\<And>x r1 r2. item ts = Inr (x, r1) \<Longrightarrow> consume_simple TComma r1 = Inr (True, r2) \<Longrightarrow> sound 1 r2 (again r2)"
  shows "sound 1 ts (rbind (item ts) (\<lambda>(x, ts1). rbind (consume_simple TComma ts1) (\<lambda>(ok, ts2).
    if ok then rbind (again ts2) (\<lambda>(xs, ts3). Inr (x # xs, ts3)) else Inr ([x], ts2))))"
proof (rule sound_bind_pair [OF item], rule sound_bind_pair [OF sound_consume_simple])
  fix x r1 and ok :: bool and r2
  assume a: "item ts = Inr (x, r1)" "consume_simple TComma r1 = Inr (ok, r2)"
  have "sound 0 r2 (rbind (again r2) (\<lambda>(xs, ts3). Inr (x # xs, ts3)))" if ok
    using a that by (intro sound_bind_pair [OF rest [OF a(1)]]) (simp_all add: sound_Inr)
  then show "sound (1 - 1 - 0) r2 (if ok then rbind (again r2) (\<lambda>(xs, ts3). Inr (x # xs, ts3)) else Inr ([x], r2))"
    by (simp add: sound_Inr)
qed simp

lemma sound_column_list [parse_sound]: "sound 1 ts (column_list ts)"
proof (induction ts rule: column_list.induct)
  case (1 ts)
  show ?case unfolding column_list.simps [of ts] by (rule sound_comma_list [OF sound_column]) (use 1 in auto)
qed

lemma sound_value_list [parse_sound]: "sound 1 ts (value_list ts)"
proof (induction ts rule: value_list.induct)
  case (1 ts)
  show ?case unfolding value_list.simps [of ts] by (rule sound_comma_list [OF sound_literal]) (use 1 in auto)
qed

lemma sound_assignment_list [parse_sound]: "sound 1 ts (assignment_list ts)"
proof (induction ts rule: assignment_list.induct)
  case (1 ts)
  show ?case unfolding assignment_list.simps [of ts] by (rule sound_comma_list [OF sound_assignment]) (use 1 in auto)
qed

text \<open>An optional clause behind a keyword.\<close>

lemma sound_clause:
  assumes "\<And>r. sound 0 r (yes r)" and "\<And>r. sound 0 r (no r)"
  shows "sound 0 ts (rbind (consume_word w ts) (\<lambda>(present, ts). if present then yes ts else no ts))"
  by (rule sound_bind_pair [OF sound_consume_word]) (use assms in auto)

lemma sound_where_clause [parse_sound]: "sound 0 ts (where_clause ts)"
  unfolding where_clause_def
  by (rule sound_clause) (auto intro!: sound_bind_pair [OF sound_parse_expr] sound_Inr)

lemma sound_order_clause [parse_sound]: "sound 0 ts (order_clause ts)"
  unfolding order_clause_def
  by (rule sound_clause)
    (auto intro!: sound_bind_pair [OF sound_expect_word] sound_bind_pair [OF sound_sql_identifier] sound_bind_pair [OF sound_consume_word] sound_Inr)

lemma sound_limit_clause [parse_sound]: "sound 0 ts (limit_clause ts)"
  unfolding limit_clause_def
proof (rule sound_clause)
  fix r
  show "sound 0 r (rbind (advance r) (\<lambda>(t, ts). let bad = fail_with (sql_error (tk_pos t) ''LIMIT expects a nonnegative integer'') in
      case tk_kind t of TInteger v \<Rightarrow> if 0 \<le> sint v then Inr (Some (unat v), ts) else bad | _ \<Rightarrow> bad))"
    by (cases r) (auto simp: sound_def advance_def Let_def dest: well_ended_tl split: token_kind.splits if_splits)
  show "sound 0 r (Inr (None, r))" by (rule sound_Inr)
qed

lemma sound_select_projection [parse_sound]: "sound 0 ts (select_projection ts)"
  unfolding select_projection_def
  by (auto intro!: sound_bind_pair [OF sound_consume_simple] sound_bind_pair [OF sound_identifier_list_until_word] sound_Inr)

lemmas sound_steps = sound_sql_identifier sound_expect_simple sound_expect_word sound_column_list sound_identifier_list sound_value_list
  sound_assignment_list sound_where_clause sound_order_clause sound_limit_clause sound_select_projection

lemma sound_create_table [parse_sound]: "sound 0 ts (create_table ts)"
  unfolding create_table_def by (auto intro!: sound_bind_pair [OF sound_sql_identifier] sound_bind_pair [OF sound_expect_simple]
      sound_bind_pair [OF sound_column_list] sound_Inr)

lemma sound_parse_insert [parse_sound]: "sound 0 ts (parse_insert ts)"
  unfolding parse_insert_def by (auto intro!: sound_bind_pair [OF sound_sql_identifier] sound_bind_pair [OF sound_expect_simple]
      sound_bind_pair [OF sound_identifier_list] sound_bind_pair [OF sound_expect_word] sound_bind_pair [OF sound_value_list] sound_Inr)

lemma sound_select [parse_sound]: "sound 0 ts (select_after_keyword ts)"
  unfolding select_after_keyword_def by (auto intro!: sound_bind_pair [OF sound_sql_identifier] sound_bind_pair [OF sound_expect_word]
      sound_bind_pair [OF sound_select_projection] sound_bind_pair [OF sound_where_clause] sound_bind_pair [OF sound_order_clause]
      sound_bind_pair [OF sound_limit_clause] sound_Inr)

lemma sound_parse_update [parse_sound]: "sound 0 ts (parse_update ts)"
  unfolding parse_update_def by (auto intro!: sound_bind_pair [OF sound_sql_identifier] sound_bind_pair [OF sound_expect_word]
      sound_bind_pair [OF sound_assignment_list] sound_bind_pair [OF sound_where_clause] sound_Inr)

lemma sound_parse_delete [parse_sound]: "sound 0 ts (parse_delete ts)"
  unfolding parse_delete_def by (auto intro!: sound_bind_pair [OF sound_sql_identifier] sound_bind_pair [OF sound_where_clause] sound_Inr)

lemma sound_on_word:
  assumes "\<And>r. sound 0 r (yes r)" and "sound 1 ts (no ts)"
  shows "sound 1 ts (on_word w yes no ts)"
proof (cases ts)
  case (Cons t r)
  then show ?thesis
    using assms sound_after [OF Cons, of 0 "yes r"] by (auto simp: on_word_def consume_word_simple consume_simple_def peek_def)
qed (simp add: on_word_def consume_word_simple consume_simple_def peek_def sound_def)

lemma sound_statement [parse_sound]: "sound 1 ts (statement ts)"
  unfolding statement_def
  by (intro sound_on_word sound_expected)
    (auto intro!: sound_bind_pair [OF sound_expect_word] sound_bind_pair [OF sound_select] sound_create_table sound_parse_insert sound_parse_update
      sound_parse_delete sound_Inr)

section \<open>Scripts\<close>

function parse_loop :: "token list \<Rightarrow> sql_statement list may_fail" where
  "parse_loop ts =
    rbind (at_end ts) (\<lambda>end.
    if end then Inr []
    else rbind (consume_simple TSemicolon ts) (\<lambda>(separator, ts1).
    if separator then parse_loop ts1
    else rbind (statement ts1) (\<lambda>(st, ts2).
    rbind (consume_simple TSemicolon ts2) (\<lambda>(separator, ts3).
    rbind (at_end ts3) (\<lambda>end.
    if \<not> separator \<and> \<not> end then expected (quoted '';'' @ '' between statements'') ts3
    else rbind (parse_loop ts3) (\<lambda>sts. Inr (st # sts)))))))"
  by pat_completeness auto
termination
  by (relation "measure length") (auto dest!: consume_length sound_length [OF sound_statement])

declare parse_loop.simps [simp del]

definition parse :: "rstring \<Rightarrow> sql_statement list may_fail" where
  "parse source =
    rbind (lex source) (\<lambda>tokens.
    rbind (parse_loop tokens) (\<lambda>statements.
    if statements = [] then fail_with (sql_error 0 ''expected a statement'') else Inr statements))"

lemma parse_loop_safe: "well_ended ts \<Longrightarrow> parse_loop ts \<noteq> Inl Panicked"
proof (induction ts rule: parse_loop.induct)
  case (1 ts)
  obtain t r where ts: "ts = t # r" using 1(3) by (cases ts) auto
  show ?case
  proof (cases "tk_kind t = TEnd \<or> tk_kind t = TSemicolon")
    case True
    show ?thesis
    proof (cases "tk_kind t = TEnd")
      case True
      then show ?thesis by (subst parse_loop.simps) (simp add: ts at_end_def peek_def)
    next
      case False
      have c: "at_end ts = Inr False" "consume_simple TSemicolon ts = Inr (True, r)"
        using False True by (simp_all add: ts at_end_def peek_def consume_simple_def)
      have "well_ended r" using well_ended_tl 1(3) False ts by blast
      then have "parse_loop r \<noteq> Inl Panicked" using 1(1) [OF c(1) _ c(2) refl] by simp
      then show ?thesis by (subst parse_loop.simps) (simp add: c)
    qed
  next
    case False
    have c: "at_end ts = Inr False" "consume_simple TSemicolon ts = Inr (False, ts)" using False by (simp_all add: ts at_end_def peek_def consume_simple_def)
    have st: "sound 1 ts (statement ts)" by (rule sound_statement)
    show ?thesis
    proof (cases "statement ts")
      case (Inl e)
      then show ?thesis using st 1(3) by (subst parse_loop.simps) (simp add: c sound_def)
    next
      case (Inr p)
      obtain x ts2 where p: "p = (x, ts2)" by force
      have w2: "well_ended ts2" using st 1(3) Inr p by (simp add: sound_def)
      have "sound 0 ts2 (consume_simple TSemicolon ts2)" by (rule sound_consume_simple) simp
      then obtain sep ts3 where s3: "consume_simple TSemicolon ts2 = Inr (sep, ts3)" "well_ended ts3"
        using w2 by (cases ts2) (auto simp: sound_def consume_simple_def peek_def split: if_splits)
      obtain b where b: "at_end ts3 = Inr b" using s3(2) by (cases ts3) (auto simp: at_end_def peek_def)
      have IH: "parse_loop ts3 \<noteq> Inl Panicked" if "sep \<or> b" 
        using 1(2) [OF c(1) _ c(2) refl _ Inr [unfolded p] refl s3(1) refl b _ s3(2)] that by simp
      have "expected (quoted '';'' @ '' between statements'') ts3 \<noteq> (Inl Panicked :: sql_statement list may_fail)"
        using s3(2) by (cases ts3) (auto simp: expected_def peek_def)
      then show ?thesis using Inr p s3(1) b IH by (subst parse_loop.simps) (auto simp: c rbind_Inl_iff)
    qed
  qed
qed

lemma parse_safe:
  assumes "utf8_valid source"
  shows "parse source \<noteq> Inl Panicked"
proof -
  have "lex source \<noteq> Inl Panicked" "\<And>ts. lex source = Inr ts \<Longrightarrow> well_ended ts"
    using lex_loop_safe [OF assms, of 0] by (auto simp: lex_def)
  then show ?thesis using parse_loop_safe by (cases "lex source") (auto simp: parse_def rbind_Inl_iff split: if_splits)
qed

end
