(* ===== verification/Sql_Executor.thy ===== *)
theory Sql_Executor
  imports Catalog Sql_Parser Mvcc_Scan
begin

text \<open>
  \<open>src/src/sql/plan.rs\<close> and \<open>src/src/sql/executor.rs\<close>: the rule-based planner, the evaluation of expressions, the
  pulling row sources, the statements over a transaction and the engine with its optional active transaction. A
  transaction shares the store with the engine, so a statement works on the pair of both.
\<close>

section \<open>Planning\<close>

datatype access = FullScan | PrimaryKey sql_value

record plan =
  pl_access :: access
  pl_select :: select

fun primary_equality :: "expr \<Rightarrow> rstring \<Rightarrow> sql_value option" where
  "primary_equality (EBinary OpEq (EColumn column) (ELiteral v)) pk = (if column = pk then Some v else None)"
| "primary_equality (EBinary OpEq (ELiteral v) (EColumn column)) pk = (if column = pk then Some v else None)"
| "primary_equality _ pk = None"

definition plan_select :: "select \<Rightarrow> schema \<Rightarrow> plan may_fail" where
  "plan_select sel sc =
    rbind (primary_index sc) (\<lambda>i.
    rbind (elem_at (sc_columns sc) i) (\<lambda>c.
    Inr \<lparr>pl_access = (case Option.bind (sel_filter sel) (\<lambda>e. primary_equality e (cd_name c)) of
                       Some v \<Rightarrow> PrimaryKey v | None \<Rightarrow> FullScan),
         pl_select = sel\<rparr>))"

definition plan_to_string :: "plan \<Rightarrow> rstring" where
  "plan_to_string p = (let sel = pl_select p in
     (case pl_access p of
        FullScan \<Rightarrow> ascii ''Scan(table='' @ sel_table sel @ ascii '')''
      | PrimaryKey v \<Rightarrow> ascii ''IndexLookup(table='' @ sel_table sel @ ascii '', primary_key='' @ value_to_string v @ ascii '')'')
     @ (if sel_filter sel \<noteq> None then ascii '' -> Filter'' else [])
     @ ascii '' -> Project''
     @ (case sel_order_by sel of
          None \<Rightarrow> []
        | Some (column, ascending) \<Rightarrow>
            ascii '' -> Sort('' @ column @ ascii '' '' @ (if ascending then ascii ''ASC'' else ascii ''DESC'') @ ascii '')'')
     @ (case sel_limit sel of None \<Rightarrow> [] | Some n \<Rightarrow> ascii '' -> Limit('' @ ascii (show_nat n) @ ascii '')''))"

section \<open>Expressions\<close>

text \<open>\<open>std::cmp::Ordering\<close> and \<open>Ord::cmp\<close>.\<close>

datatype ordering = Less | Equal | Greater

definition cmp :: "'a::linorder \<Rightarrow> 'a \<Rightarrow> ordering" where
  "cmp a b = (if a < b then Less else if a = b then Equal else Greater)"

fun reverse_ordering :: "ordering \<Rightarrow> ordering" where
  "reverse_ordering Less = Greater"
| "reverse_ordering Equal = Equal"
| "reverse_ordering Greater = Less"

type_synonym row = "sql_value list"

fun value_order :: "sql_value \<Rightarrow> sql_value \<Rightarrow> ordering may_fail" where
  "value_order (VInteger a) (VInteger b) = Inr (cmp (sint a) (sint b))"
| "value_order (VText a) (VText b) = Inr (cmp a b)"
| "value_order (VBoolean a) (VBoolean b) = Inr (cmp a b)"
| "value_order _ _ = fail_with (invalid_input ''sql: cannot compare different types'')"

fun op_result :: "binary_op \<Rightarrow> ordering \<Rightarrow> bool may_fail" where
  "op_result OpEq order = Inr (order = Equal)"
| "op_result OpNe order = Inr (order \<noteq> Equal)"
| "op_result OpLt order = Inr (order = Less)"
| "op_result OpLe order = Inr (order \<noteq> Greater)"
| "op_result OpGt order = Inr (order = Greater)"
| "op_result OpGe order = Inr (order \<noteq> Less)"
| "op_result OpAnd order = Inl Panicked"
| "op_result OpOr order = Inl Panicked"

definition compare :: "binary_op \<Rightarrow> sql_value \<Rightarrow> sql_value \<Rightarrow> sql_value may_fail" where
  "compare oper left right =
    (if left = VNull \<or> right = VNull then Inr VNull
     else rbind (value_order left right) (\<lambda>order. rbind (op_result oper order) (\<lambda>b. Inr (VBoolean b))))"

fun truth :: "sql_value \<Rightarrow> bool option may_fail" where
  "truth (VBoolean b) = Inr (Some b)"
| "truth VNull = Inr None"
| "truth _ = fail_with (invalid_input ''sql: AND/OR expects boolean values'')"

definition logic_and :: "sql_value \<Rightarrow> sql_value \<Rightarrow> sql_value may_fail" where
  "logic_and left right =
    rbind (truth left) (\<lambda>a. rbind (truth right) (\<lambda>b.
    if a = Some False \<or> b = Some False then Inr (VBoolean False)
    else if a = Some True \<and> b = Some True then Inr (VBoolean True)
    else Inr VNull))"

definition logic_or :: "sql_value \<Rightarrow> sql_value \<Rightarrow> sql_value may_fail" where
  "logic_or left right =
    rbind (truth left) (\<lambda>a. rbind (truth right) (\<lambda>b.
    if a = Some True \<or> b = Some True then Inr (VBoolean True)
    else if a = Some False \<and> b = Some False then Inr (VBoolean False)
    else Inr VNull))"

definition find_column :: "string \<Rightarrow> schema \<Rightarrow> rstring \<Rightarrow> nat may_fail" where
  "find_column message sc column = (case column_index sc column of
     None \<Rightarrow> fail_with (invalid_input (message @ quote_name column))
   | Some i \<Rightarrow> Inr i)"

primrec eval :: "expr \<Rightarrow> row \<Rightarrow> schema \<Rightarrow> sql_value may_fail" where
  "eval (ELiteral v) row sc = Inr v"
| "eval (EColumn column) row sc = rbind (find_column ''sql: unknown column '' sc column) (\<lambda>i. elem_at row i)"
| "eval (EBinary oper left right) row sc =
    rbind (eval left row sc) (\<lambda>a. rbind (eval right row sc) (\<lambda>b.
    case oper of OpAnd \<Rightarrow> logic_and a b | OpOr \<Rightarrow> logic_or a b | _ \<Rightarrow> compare oper a b))"

definition matches_filter :: "expr option \<Rightarrow> row \<Rightarrow> schema \<Rightarrow> bool may_fail" where
  "matches_filter condition row sc = (case condition of
     None \<Rightarrow> Inr True
   | Some e \<Rightarrow> rbind (eval e row sc) (\<lambda>v. Inr (v = VBoolean True)))"

fun compare_for_sort :: "sql_value \<Rightarrow> sql_value \<Rightarrow> ordering" where
  "compare_for_sort VNull VNull = Equal"
| "compare_for_sort VNull _ = Less"
| "compare_for_sort _ VNull = Greater"
| "compare_for_sort left right = cmp left right"

text \<open>\<open>slice::sort_by\<close> is a stable sort: among equal elements the earlier stays first.\<close>

primrec insert_by :: "('a \<Rightarrow> 'a \<Rightarrow> ordering) \<Rightarrow> 'a \<Rightarrow> 'a list \<Rightarrow> 'a list" where
  "insert_by f x [] = [x]"
| "insert_by f x (y # ys) = (if f x y = Greater then y # insert_by f x ys else x # y # ys)"

definition sort_by :: "('a \<Rightarrow> 'a \<Rightarrow> ordering) \<Rightarrow> 'a list \<Rightarrow> 'a list" where
  "sort_by f xs = foldr (insert_by f) xs []"

section \<open>Row sources\<close>

datatype row_source = VecSource "row list" | FilterSource row_source expr schema

primrec rows_left :: "row_source \<Rightarrow> nat" where
  "rows_left (VecSource rows) = length rows"
| "rows_left (FilterSource inp e sc) = rows_left inp"

text \<open>A source that has failed is not used again.\<close>

function next_row :: "row_source \<Rightarrow> (row option \<times> row_source) may_fail" where
  "next_row (VecSource []) = Inr (None, VecSource [])"
| "next_row (VecSource (row # rows)) = Inr (Some row, VecSource rows)"
| "next_row (FilterSource inp e sc) =
    rbind (next_row inp) (\<lambda>(found, inp').
    case found of
      None \<Rightarrow> Inr (None, FilterSource inp' e sc)
    | Some row \<Rightarrow> rbind (matches_filter (Some e) row sc) (\<lambda>matches.
        if matches then Inr (Some row, FilterSource inp' e sc) else next_row (FilterSource inp' e sc)))"
  by pat_completeness auto

text \<open>A row that is returned has been taken from the underlying rows; one round of the loop, for any \<open>pull\<close>.\<close>

lemma filter_round_shorter:
  assumes "rbind (pull inp) (\<lambda>(found, inp'). case found of None \<Rightarrow> Inr (None, FilterSource inp' e sc)
      | Some row \<Rightarrow> rbind (matches_filter (Some e) row sc) (\<lambda>matches.
        if matches then Inr (Some row, FilterSource inp' e sc) else pull (FilterSource inp' e sc))) = Inr (Some row, src')"
    and "\<And>r inp'. pull inp = Inr (Some r, inp') \<Longrightarrow> rows_left inp' < rows_left inp"
    and "\<And>r inp'. pull inp = Inr (Some r, inp') \<Longrightarrow> matches_filter (Some e) r sc = Inr False \<Longrightarrow>
      pull (FilterSource inp' e sc) = Inr (Some row, src') \<Longrightarrow> rows_left src' < rows_left inp'"
  shows "rows_left src' < rows_left inp"
proof -
  from assms(1) obtain r inp' b where r: "pull inp = Inr (Some r, inp')" and b: "matches_filter (Some e) r sc = Inr b"
    and res: "(if b then Inr (Some r, FilterSource inp' e sc) else pull (FilterSource inp' e sc)) = Inr (Some row, src')"
    by (auto simp: rbind_Inr_iff split: option.splits)
  note less = assms(2) [OF r]
  show ?thesis
  proof (cases b)
    case False
    with res assms(3) [OF r] b less show ?thesis by fastforce
  qed (use res less in auto)
qed

lemma next_row_shorter_dom:
  "next_row_dom src \<Longrightarrow> next_row src = Inr (Some row, src') \<Longrightarrow> rows_left src' < rows_left src"
proof (induction src arbitrary: row src' rule: next_row.pinduct)
  case (3 inp e sc)
  show ?case
    unfolding rows_left.simps
    by (rule filter_round_shorter [OF 3(4) [unfolded next_row.psimps(3) [OF 3(1)]] 3(2)]) (use 3(3) in force)+
qed (auto simp: next_row.psimps)

termination next_row
  by (relation "measures [rows_left, size]") (auto dest: next_row_shorter_dom)

lemma next_row_shorter: "next_row src = Inr (Some row, src') \<Longrightarrow> rows_left src' < rows_left src"
proof (induction src arbitrary: row src' rule: next_row.induct)
  case (3 inp e sc)
  show ?case
    unfolding rows_left.simps
    by (rule filter_round_shorter [OF trans [OF next_row.simps(3) [symmetric] 3(3)] 3(1)]) (use 3(2) in \<open>force simp del: next_row.simps\<close>)+
qed auto

function drain :: "row_source \<Rightarrow> row list may_fail" where
  "drain src = rbind (next_row src) (\<lambda>(found, src').
    case found of None \<Rightarrow> Inr [] | Some row \<Rightarrow> rbind (drain src') (\<lambda>rows. Inr (row # rows)))"
  by pat_completeness auto

termination drain
  by (relation "measure rows_left") (auto dest: next_row_shorter)

declare drain.simps [simp del]

section \<open>Statements\<close>

type_synonym txn_state = "inner \<times> transaction"
type_synonym 'a sql_eff = "(txn_state, failure, 'a) eff"

text \<open>Reading a part of the state, and a computation without effects inside one with effects.\<close>

definition reading :: "(txn_state \<Rightarrow> 'a may_fail) \<Rightarrow> 'a sql_eff" where
  "reading f st = (f st, st)"

definition pure :: "'a may_fail \<Rightarrow> 'a sql_eff" where
  "pure r st = (r, st)"

definition sql_get :: "rstring \<Rightarrow> txn_state \<Rightarrow> rstring option may_fail" where
  "sql_get key = (\<lambda>(s, t). of_txn (txn_get s t key))"

definition all_rows :: "schema \<Rightarrow> txn_state \<Rightarrow> (rstring \<times> row) list may_fail" where
  "all_rows sc = (\<lambda>(s, t).
    rbind (of_txn (scan_prefix s t (row_prefix (sc_name sc)))) (\<lambda>pairs.
    collect_results (\<lambda>(key, encoded). rbind (decode_row encoded sc) (\<lambda>row. Inr (key, row))) pairs))"

definition access_rows :: "schema \<Rightarrow> plan \<Rightarrow> txn_state \<Rightarrow> row list may_fail" where
  "access_rows sc p st = (case pl_access p of
     FullScan \<Rightarrow> rbind (all_rows sc st) (\<lambda>rows. Inr (map snd rows))
   | PrimaryKey v \<Rightarrow>
       if v = VNull then Inr []
       else rbind (row_key_for_primary sc v) (\<lambda>key.
         rbind (sql_get key st) (\<lambda>found.
         case found of
           Some encoded \<Rightarrow> rbind (decode_row encoded sc) (\<lambda>row. Inr [row])
         | None \<Rightarrow> Inr [])))"

definition project :: "schema \<Rightarrow> projection \<Rightarrow> (rstring list \<times> nat list) may_fail" where
  "project sc p = (case p of
     AllColumns \<Rightarrow> Inr (map cd_name (sc_columns sc), [0 ..< length (sc_columns sc)])
   | Columns columns \<Rightarrow> rbind (collect_results (find_column ''sql: unknown column '' sc) columns) (\<lambda>indexes.
       Inr (columns, indexes)))"

text \<open>Sorting compares every row as soon as there are two; the comparison indexes both rows.\<close>

definition sort_rows :: "schema \<Rightarrow> (rstring \<times> bool) option \<Rightarrow> row list \<Rightarrow> row list may_fail" where
  "sort_rows sc order_by rows = (case order_by of
     None \<Rightarrow> Inr rows
   | Some (column, ascending) \<Rightarrow>
       rbind (find_column ''sql: unknown ORDER BY column '' sc column) (\<lambda>i.
       if 2 \<le> length rows \<and> (\<exists>row \<in> set rows. length row \<le> i) then Inl Panicked
       else Inr (sort_by (\<lambda>left right.
         let order = compare_for_sort (left ! i) (right ! i) in
         if ascending then order else reverse_ordering order) rows)))"

definition select_rows :: "select \<Rightarrow> txn_state \<Rightarrow> sql_result may_fail" where
  "select_rows sel st =
    rbind (load_schema (fst st) (snd st) (sel_table sel)) (\<lambda>sc.
    rbind (plan_select sel sc) (\<lambda>p.
    rbind (access_rows sc p st) (\<lambda>rows.
    rbind (drain (case sel_filter sel of
             None \<Rightarrow> VecSource rows
           | Some e \<Rightarrow> FilterSource (VecSource rows) e sc)) (\<lambda>materialized.
    rbind (sort_rows sc (sel_order_by sel) materialized) (\<lambda>sorted.
    let limited = (case sel_limit sel of None \<Rightarrow> sorted | Some n \<Rightarrow> take n sorted) in
    rbind (project sc (sel_projection sel)) (\<lambda>(columns, indexes).
    rbind (collect_results (\<lambda>row. collect_results (elem_at row) indexes) limited) (\<lambda>rows.
    Inr (Rows columns rows))))))))"

primrec insert_values :: "schema \<Rightarrow> (rstring \<times> sql_value) list \<Rightarrow> row \<Rightarrow> bool list \<Rightarrow> row may_fail" where
  "insert_values sc [] row assigned = Inr row"
| "insert_values sc (pair # pairs) row assigned = (case pair of (column, v) \<Rightarrow>
    rbind (find_column ''sql: unknown column '' sc column) (\<lambda>i.
    rbind (elem_at assigned i) (\<lambda>done.
    if done then fail_with (invalid_input ''sql: duplicate INSERT column'')
    else rbind (elem_at (sc_columns sc) i) (\<lambda>c.
      rbind (check_type v (cd_type c)) (\<lambda>_.
      rbind (set_at i v row) (\<lambda>row.
      rbind (set_at i True assigned) (\<lambda>assigned. insert_values sc pairs row assigned)))))))"

definition sql_insert :: "rstring \<Rightarrow> rstring list \<Rightarrow> sql_value list \<Rightarrow> sql_result sql_eff" where
  "sql_insert table columns vals =
    and_then (reading (\<lambda>(s, t). load_schema s t table)) (\<lambda>sc.
    if length columns \<noteq> length vals
    then pure (fail_with (invalid_input ''sql: INSERT column/value count mismatch''))
    else
      let n = length (sc_columns sc) in
      and_then (pure (insert_values sc (zip columns vals) (replicate n VNull) (replicate n False))) (\<lambda>row.
      and_then (pure (row_key sc row)) (\<lambda>key.
      and_then (reading (sql_get key)) (\<lambda>found.
      if found \<noteq> None then pure (fail_with (invalid_input ''sql: duplicate primary key''))
      else and_then (sql_set key (encode_row row)) (\<lambda>_. pure (Inr (Affected 1)))))))"

primrec assign_values :: "schema \<Rightarrow> (rstring \<times> sql_value) list \<Rightarrow> row \<Rightarrow> row may_fail" where
  "assign_values sc [] row = Inr row"
| "assign_values sc (pair # pairs) row = (case pair of (column, v) \<Rightarrow>
    rbind (find_column ''sql: unknown column '' sc column) (\<lambda>i.
    rbind (elem_at (sc_columns sc) i) (\<lambda>c.
    rbind (check_type v (cd_type c)) (\<lambda>_.
    rbind (set_at i v row) (\<lambda>row. assign_values sc pairs row)))))"

definition update_row :: "schema \<Rightarrow> (rstring \<times> sql_value) list \<Rightarrow> rstring \<Rightarrow> row \<Rightarrow> unit sql_eff" where
  "update_row sc assignments old_key row =
    and_then (pure (assign_values sc assignments row)) (\<lambda>row.
    and_then (pure (row_key sc row)) (\<lambda>new_key.
    and_then
      (if new_key \<noteq> old_key then
         and_then (reading (sql_get new_key)) (\<lambda>found.
         if found \<noteq> None then pure (fail_with (invalid_input ''sql: duplicate primary key''))
         else sql_delete old_key)
       else pure (Inr ()))
      (\<lambda>_. sql_set new_key (encode_row row))))"

primrec update_rows :: "schema \<Rightarrow> (rstring \<times> sql_value) list \<Rightarrow> expr option \<Rightarrow> (rstring \<times> row) list \<Rightarrow> nat \<Rightarrow> nat sql_eff" where
  "update_rows sc assignments condition [] affected = pure (Inr affected)"
| "update_rows sc assignments condition (pair # rows) affected = (case pair of (old_key, row) \<Rightarrow>
    and_then (pure (matches_filter condition row sc)) (\<lambda>matches.
    if \<not> matches then update_rows sc assignments condition rows affected
    else and_then (update_row sc assignments old_key row) (\<lambda>_.
      update_rows sc assignments condition rows (affected + 1))))"

definition sql_update :: "rstring \<Rightarrow> (rstring \<times> sql_value) list \<Rightarrow> expr option \<Rightarrow> sql_result sql_eff" where
  "sql_update table assignments condition =
    and_then (reading (\<lambda>(s, t). load_schema s t table)) (\<lambda>sc.
    and_then (reading (all_rows sc)) (\<lambda>rows.
    and_then (update_rows sc assignments condition rows 0) (\<lambda>affected. pure (Inr (Affected affected)))))"

primrec delete_rows :: "schema \<Rightarrow> expr option \<Rightarrow> (rstring \<times> row) list \<Rightarrow> nat \<Rightarrow> nat sql_eff" where
  "delete_rows sc condition [] affected = pure (Inr affected)"
| "delete_rows sc condition (pair # rows) affected = (case pair of (key, row) \<Rightarrow>
    and_then (pure (matches_filter condition row sc)) (\<lambda>matches.
    if \<not> matches then delete_rows sc condition rows affected
    else and_then (sql_delete key) (\<lambda>_. delete_rows sc condition rows (affected + 1))))"

definition sql_delete_rows :: "rstring \<Rightarrow> expr option \<Rightarrow> sql_result sql_eff" where
  "sql_delete_rows table condition =
    and_then (reading (\<lambda>(s, t). load_schema s t table)) (\<lambda>sc.
    and_then (reading (all_rows sc)) (\<lambda>rows.
    and_then (delete_rows sc condition rows 0) (\<lambda>affected. pure (Inr (Affected affected)))))"

definition sql_create :: "rstring \<Rightarrow> column_def list \<Rightarrow> sql_result sql_eff" where
  "sql_create table columns =
    (let sc = \<lparr>sc_name = table, sc_columns = columns\<rparr> in
     and_then (pure (validate sc)) (\<lambda>_.
     and_then (reading (sql_get (catalog_key table))) (\<lambda>found.
     if found \<noteq> None then pure (fail_with (invalid_input (''sql: table '' @ quote_name table @ '' already exists'')))
     else and_then (save_schema sc) (\<lambda>_. pure (Inr (Affected 0))))))"

definition sql_explain :: "select \<Rightarrow> txn_state \<Rightarrow> sql_result may_fail" where
  "sql_explain sel = (\<lambda>(s, t).
    rbind (load_schema s t (sel_table sel)) (\<lambda>sc.
    rbind (plan_select sel sc) (\<lambda>p. Inr (Explained (plan_to_string p)))))"

fun execute_data :: "sql_statement \<Rightarrow> sql_result sql_eff" where
  "execute_data (SCreateTable table columns) = sql_create table columns"
| "execute_data (SInsert table columns vals) = sql_insert table columns vals"
| "execute_data (SSelect sel) = reading (select_rows sel)"
| "execute_data (SUpdate table assignments condition) = sql_update table assignments condition"
| "execute_data (SDelete table condition) = sql_delete_rows table condition"
| "execute_data (SExplain sel) = reading (sql_explain sel)"
| "execute_data _ = pure (fail_with (invalid_input ''sql: internal transaction dispatch error''))"

section \<open>The engine\<close>

record sql_engine =
  en_store :: inner
  en_active :: "transaction option"

definition engine_open :: "bytes option \<Rightarrow> io_outcome list \<Rightarrow> sql_engine io_result" where
  "engine_open log_file faults = rbind (mvcc_open log_file faults) (\<lambda>s. Inr \<lparr>en_store = s, en_active = None\<rparr>)"

text \<open>A panic unwinds through the statement: the transaction of an auto-committed statement is dropped.\<close>

definition with_transaction :: "'a sql_eff \<Rightarrow> (sql_engine, failure, 'a) eff" where
  "with_transaction oper en = (case en_active en of
     Some t \<Rightarrow> (case oper (en_store en, t) of (r, s, t) \<Rightarrow> (r, en\<lparr>en_store := s, en_active := Some t\<rparr>))
   | None \<Rightarrow> (case begin_txn (en_store en) of
       (Inl e, s) \<Rightarrow> (fail_with (txn_io_error e), en\<lparr>en_store := s\<rparr>)
     | (Inr t, s) \<Rightarrow> (case oper (s, t) of
         (Inr result, s, t) \<Rightarrow> (case commit t s of
            (Inl e, s) \<Rightarrow> (fail_with (txn_io_error e), en\<lparr>en_store := s\<rparr>)
          | (Inr _, s) \<Rightarrow> (Inr result, en\<lparr>en_store := s\<rparr>))
       | (Inl (Failed e), s, t) \<Rightarrow> (fail_with e, en\<lparr>en_store := snd (abort t s)\<rparr>)
       | (Inl Panicked, s, t) \<Rightarrow> (Inl Panicked, en\<lparr>en_store := drop_txn t s\<rparr>))))"

fun execute_statement :: "sql_statement \<Rightarrow> (sql_engine, failure, sql_result) eff" where
  "execute_statement SBegin en =
    (if en_active en \<noteq> None then (fail_with (invalid_input ''sql: transaction already active''), en)
     else case begin_txn (en_store en) of
       (Inl e, s) \<Rightarrow> (fail_with (txn_io_error e), en\<lparr>en_store := s\<rparr>)
     | (Inr t, s) \<Rightarrow> (Inr Begun, en\<lparr>en_store := s, en_active := Some t\<rparr>))"
| "execute_statement SCommit en = (case en_active en of
     None \<Rightarrow> (fail_with (invalid_input ''sql: no active transaction''), en)
   | Some t \<Rightarrow> (case commit t (en_store en) of
       (Inl e, s) \<Rightarrow> (fail_with (txn_io_error e), en\<lparr>en_store := s, en_active := None\<rparr>)
     | (Inr _, s) \<Rightarrow> (Inr Committed, en\<lparr>en_store := s, en_active := None\<rparr>)))"
| "execute_statement SRollback en = (case en_active en of
     None \<Rightarrow> (fail_with (invalid_input ''sql: no active transaction''), en)
   | Some t \<Rightarrow> (case abort t (en_store en) of
       (Inl e, s) \<Rightarrow> (fail_with (txn_io_error e), en\<lparr>en_store := s, en_active := None\<rparr>)
     | (Inr _, s) \<Rightarrow> (Inr RolledBack, en\<lparr>en_store := s, en_active := None\<rparr>)))"
| "execute_statement other en = with_transaction (execute_data other) en"

primrec execute_all :: "sql_statement list \<Rightarrow> (sql_engine, failure, sql_result list) eff" where
  "execute_all [] = (\<lambda>en. (Inr [], en))"
| "execute_all (st # sts) =
    and_then (execute_statement st) (\<lambda>result.
    and_then (execute_all sts) (\<lambda>results en. (Inr (result # results), en)))"

definition execute :: "rstring \<Rightarrow> (sql_engine, failure, sql_result list) eff" where
  "execute source en = (case parse source of
     Inl e \<Rightarrow> (Inl e, en)
   | Inr statements \<Rightarrow> execute_all statements en)"

end
