(* ===== verification/Sql_Tables.thy ===== *)
theory Sql_Tables
  imports Sql_Executor Mvcc_System
begin

text \<open>
  What a transaction sees, as a map from keys to values, and the tables in it: the catalog holds schemas, and every
  row key holds a row of a table of the catalog, under the key of its primary value. The operations of the catalog and
  of the executor on such a map.
\<close>

named_theorems sql_eff \<open>evaluation of statements\<close>

section \<open>The view of a transaction\<close>

definition view :: "txn_state \<Rightarrow> rstring \<rightharpoonup> rstring" where
  "view st = (\<lambda>k. case bm_get (txn_writes (snd st)) k of
     Some v \<Rightarrow> v | None \<Rightarrow> visible_value (mv_versions (fst st)) k (txn_snapshot (snd st)))"

definition live :: "txn_state \<Rightarrow> bool" where
  "live st \<longleftrightarrow> \<not> txn_finished (snd st) \<and> \<not> poisoned (fst st) \<and> bm_inv (txn_writes (snd st))"

text \<open>A statement touches the log and the buffered writes only, by steps of the transactional store.\<close>

definition follows :: "txn_state \<Rightarrow> txn_state \<Rightarrow> bool" where
  "follows st st' \<longleftrightarrow> (\<forall>x i. sys_store x = fst st \<longrightarrow> sys_txns x i = Some (snd st) \<longrightarrow>
     mvcc_step\<^sup>*\<^sup>* x (x\<lparr>sys_store := fst st', sys_txns := (sys_txns x)(i \<mapsto> snd st')\<rparr>))"

definition same_txn :: "txn_state \<Rightarrow> txn_state \<Rightarrow> bool" where
  "same_txn st st' \<longleftrightarrow> (\<exists>w ws. fst st' = (fst st)\<lparr>mv_wal := w\<rparr> \<and> snd st' = (snd st)\<lparr>txn_writes := ws\<rparr>) \<and> follows st st'"

lemma follows_refl: "follows st st"
proof -
  have "x\<lparr>sys_store := fst st, sys_txns := (sys_txns x)(i \<mapsto> snd st)\<rparr> = x"
    if "sys_store x = fst st" "sys_txns x i = Some (snd st)" for x :: mvcc_sys and i
    using that(1) [symmetric] fun_upd_triv [of "sys_txns x" i] that(2) by simp
  then show ?thesis by (simp add: follows_def)
qed

lemma follows_trans:
  assumes "follows st st'" and "follows st' st''"
  shows "follows st st''"
  unfolding follows_def
proof (intro allI impI)
  fix x :: mvcc_sys and i assume "sys_store x = fst st" and "sys_txns x i = Some (snd st)"
  let ?y = "x\<lparr>sys_store := fst st', sys_txns := (sys_txns x)(i \<mapsto> snd st')\<rparr>"
  from \<open>sys_store x = fst st\<close> \<open>sys_txns x i = Some (snd st)\<close> assms(1) have one: "mvcc_step\<^sup>*\<^sup>* x ?y"
    unfolding follows_def by blast
  from assms(2) [unfolded follows_def, rule_format, of ?y i] have "mvcc_step\<^sup>*\<^sup>* ?y (x\<lparr>sys_store := fst st'', sys_txns := (sys_txns x)(i \<mapsto> snd st'')\<rparr>)"
    by simp
  with one show "mvcc_step\<^sup>*\<^sup>* x (x\<lparr>sys_store := fst st'', sys_txns := (sys_txns x)(i \<mapsto> snd st'')\<rparr>)" by (rule rtranclp_trans)
qed

lemma same_txn_refl [simp]: "same_txn st st"
  unfolding same_txn_def using follows_refl
  by (intro conjI exI [of _ "mv_wal (fst st)"] exI [of _ "txn_writes (snd st)"]) simp_all

lemma same_txn_trans: "same_txn st st' \<Longrightarrow> same_txn st' st'' \<Longrightarrow> same_txn st st''"
  by (auto simp: same_txn_def intro: follows_trans [of st st' st''])

lemma sql_get_view: "live st \<Longrightarrow> sql_get k st = Inr (view st k)"
  by (cases st) (auto simp: sql_get_def live_def txn_get_def ensure_open_def get_at_def lock_def of_txn_def view_def
      split: option.split)

lemma write_view: "view (s\<lparr>mv_wal := w\<rparr>, t\<lparr>txn_writes := bm_insert k x (txn_writes t)\<rparr>) = (view (s, t))(k := x)"
  by (rule ext) (simp add: view_def cong: option.case_cong)

text \<open>The outcome of a buffered write, of a value or of a deletion.\<close>

lemma write_outcome:
  assumes "live (s, t)" and "s' = s\<lparr>mv_wal := w\<rparr>" and follows: "follows (s, t) (s', t')"
    and "r = Inr () \<and> \<not> txn_finished t \<and> t' = t\<lparr>txn_writes := bm_insert k x (txn_writes t)\<rparr> \<or> (\<exists>e. r = Inl e) \<and> t' = t"
  obtains (ok) "of_txn r = Inr ()" "live (s', t')" "same_txn (s, t) (s', t')" "view (s', t') = (view (s, t))(k := x)"
  | (error) e where "of_txn r = fail_with e" "live (s', t')" "same_txn (s, t) (s', t')" "view (s', t') = view (s, t)"
proof -
  from assms(4) show ?thesis
  proof
    assume a: "r = Inr () \<and> \<not> txn_finished t \<and> t' = t\<lparr>txn_writes := bm_insert k x (txn_writes t)\<rparr>"
    show ?thesis
    proof (rule ok)
      show "of_txn r = Inr ()" using a by (simp add: of_txn_def)
      show "live (s', t')" using assms(1,2) a by (simp add: live_def)
      show "same_txn (s, t) (s', t')" using assms(2) a follows by (auto simp: same_txn_def)
      show "view (s', t') = (view (s, t))(k := x)" using a assms(2) write_view by simp
    qed
  next
    assume a: "(\<exists>e. r = Inl e) \<and> t' = t"
    then obtain e where e: "r = Inl e" by blast
    show ?thesis
    proof (rule error)
      show "of_txn r = fail_with (txn_io_error e)" using e by (simp add: of_txn_def fail_with_def)
      show "live (s', t')" using assms(1,2) a by (simp add: live_def)
      show "same_txn (s, t) (s', t')" using assms(2) a follows by (auto simp: same_txn_def intro: exI [of _ "txn_writes t"])
      show "view (s', t') = view (s, t)" using a assms(2) by (simp add: view_def cong: option.case_cong)
    qed
  qed
qed

lemma sql_set_cases:
  assumes "live st" and "utf8_valid k" and "utf8_valid v"
  obtains (ok) st' where "sql_set k v st = (Inr (), st')" "live st'" "same_txn st st'" "view st' = (view st)(k \<mapsto> v)"
  | (error) e st' where "sql_set k v st = (fail_with e, st')" "live st'" "same_txn st st'" "view st' = view st"
proof -
  obtain s t where st: "st = (s, t)" by (cases st)
  obtain r s' t' where r: "txn_set k v (s, t) = (r, s', t')" by (cases "txn_set k v (s, t)") auto
  from txn_set_frame [OF r] obtain w where w: "s' = s\<lparr>mv_wal := w\<rparr>" and
    c: "r = Inr () \<and> \<not> txn_finished t \<and> t' = t\<lparr>txn_writes := bm_insert k (Some v) (txn_writes t)\<rparr> \<or> (\<exists>e. r = Inl e) \<and> t' = t" by blast
  have eq: "sql_set k v st = (of_txn r, s', t')" using r st by (simp add: sql_set_def)
  have f: "follows (s, t) (s', t')"
    unfolding follows_def using mvcc_step.set [OF _ assms(2,3)] r by auto
  show ?thesis by (rule write_outcome [OF assms(1) [unfolded st] w f c]) (use that eq st in auto)
qed

lemma sql_delete_cases:
  assumes "live st" and "utf8_valid k"
  obtains (ok) st' where "sql_delete k st = (Inr (), st')" "live st'" "same_txn st st'" "view st' = (view st)(k := None)"
  | (error) e st' where "sql_delete k st = (fail_with e, st')" "live st'" "same_txn st st'" "view st' = view st"
proof -
  obtain s t where st: "st = (s, t)" by (cases st)
  obtain r s' t' where r: "txn_delete k (s, t) = (r, s', t')" by (cases "txn_delete k (s, t)") auto
  from txn_delete_frame [OF r] obtain w where w: "s' = s\<lparr>mv_wal := w\<rparr>" and
    c: "r = Inr () \<and> \<not> txn_finished t \<and> t' = t\<lparr>txn_writes := bm_insert k None (txn_writes t)\<rparr> \<or> (\<exists>e. r = Inl e) \<and> t' = t" by blast
  have eq: "sql_delete k st = (of_txn r, s', t')" using r st by (simp add: sql_delete_def)
  have f: "follows (s, t) (s', t')"
    unfolding follows_def using mvcc_step.delete [OF _ assms(2)] r by auto
  show ?thesis by (rule write_outcome [OF assms(1) [unfolded st] w f c]) (use that eq st in auto)
qed

lemma scan_view:
  assumes "live st"
  shows "\<exists>ps. of_txn (scan_prefix (fst st) (snd st) prefix) = Inr ps \<and> bm_inv ps
    \<and> (\<forall>k. bm_get ps k = (if starts_with k prefix then view st k else None))"
proof -
  from scan_prefix_rows [of "snd st" "fst st" prefix] assms obtain ps where
    "scan_prefix (fst st) (snd st) prefix = Inr ps" "bm_inv ps"
    "\<forall>k. bm_get ps k = (if starts_with k prefix then case bm_get (txn_writes (snd st)) k of Some v \<Rightarrow> v
       | None \<Rightarrow> visible_value (mv_versions (fst st)) k (txn_snapshot (snd st)) else None)"
    unfolding live_def by blast
  then show ?thesis by (simp add: of_txn_def view_def)
qed

section \<open>Tables in a map\<close>

definition table_schema :: "(rstring \<rightharpoonup> rstring) \<Rightarrow> schema \<Rightarrow> bool" where
  "table_schema m sc \<longleftrightarrow> m (catalog_key (sc_name sc)) = Some (encode_schema sc) \<and> schema_ok sc \<and> name_ok (sc_name sc)"

definition is_row :: "schema \<Rightarrow> rstring \<Rightarrow> row \<Rightarrow> bool" where
  "is_row sc k row \<longleftrightarrow> row_ok sc row \<and> row_key sc row = Inr k"

definition db_ok :: "(rstring \<rightharpoonup> rstring) \<Rightarrow> bool" where
  "db_ok m \<longleftrightarrow>
    (\<forall>table v. m (catalog_key table) = Some v \<longrightarrow>
       name_ok table \<and> (\<exists>sc. sc_name sc = table \<and> schema_ok sc \<and> v = encode_schema sc)) \<and>
    (\<forall>k v. m k = Some v \<and> starts_with k ROW_PREFIX \<longrightarrow>
       (\<exists>sc row. table_schema m sc \<and> is_row sc k row \<and> v = encode_row row))"

text \<open>Keys of the catalog and of rows differ, and so do row keys of different tables.\<close>

lemma catalog_not_row [simp]: "\<not> starts_with (catalog_key table) ROW_PREFIX"
  by (simp add: catalog_key_def CATALOG_PREFIX_def ROW_PREFIX_def starts_with_def ascii_def)

lemma catalog_key_inject [simp]: "catalog_key a = catalog_key b \<longleftrightarrow> a = b"
  by (simp add: catalog_key_def)

lemma starts_with_iff: "starts_with k p \<longleftrightarrow> (\<exists>r. k = p @ r)"
  by (auto simp: starts_with_def) (metis append_take_drop_id)

lemma row_prefix_row: "starts_with k (row_prefix table) \<Longrightarrow> starts_with k ROW_PREFIX"
  by (auto simp: starts_with_iff row_prefix_def)

lemma split_name:
  "c \<notin> set a \<Longrightarrow> c \<notin> set b \<Longrightarrow> a @ c # x = b @ c # y \<longleftrightarrow> a = b \<and> x = y"
proof (induction a arbitrary: b)
  case Nil
  then show ?case by (cases b) auto
next
  case (Cons h a)
  then show ?case by (cases b) auto
qed

lemma row_prefix_table:
  assumes "name_ok a" and "name_ok b"
  shows "starts_with (row_prefix a @ x) (row_prefix b) \<longleftrightarrow> a = b"
  using assms split_name [of "0x3A" a b] by (auto simp: starts_with_iff row_prefix_def name_ok_def)

text \<open>The primary key of a validated schema.\<close>

definition pk :: "schema \<Rightarrow> nat" where
  "pk sc = (case position cd_primary (sc_columns sc) of Some i \<Rightarrow> i | None \<Rightarrow> 0)"

lemma position_Some: "position P xs = Some i \<longleftrightarrow> i < length xs \<and> P (xs ! i) \<and> (\<forall>j < i. \<not> P (xs ! j))"
proof (induction xs arbitrary: i)
  case (Cons x xs)
  then show ?case by (cases i) (auto simp: less_Suc_eq_0_disj nth_Cons split: nat.splits)
qed simp

lemma position_None: "position P xs = None \<longleftrightarrow> (\<forall>x \<in> set xs. \<not> P x)"
  by (induction xs) auto

lemma schema_ok_pk:
  assumes "schema_ok sc"
  shows "primary_index sc = Inr (pk sc)" and "pk sc < length (sc_columns sc)"
proof -
  have "filter cd_primary (sc_columns sc) \<noteq> []" using assms by (auto simp: schema_ok_def validate_iff)
  then have "position cd_primary (sc_columns sc) \<noteq> None" by (auto simp: position_None filter_empty_conv)
  then obtain i where i: "position cd_primary (sc_columns sc) = Some i" by blast
  then show "primary_index sc = Inr (pk sc)" by (simp add: primary_index_def expect_def pk_def)
  from i have "pk sc = i" by (simp add: pk_def)
  with i show "pk sc < length (sc_columns sc)" by (simp add: position_Some)
qed

lemma schema_ok_columns: "schema_ok sc \<Longrightarrow> sc_columns sc \<noteq> []"
  by (simp add: schema_ok_def validate_iff)

lemma check_type_cases:
  obtains (ok) "check_type v ty = Inr ()" | (error) e where "check_type v ty = fail_with e"
  by (cases "(v, ty)" rule: check_type.cases) auto

definition primary_key_of :: "schema \<Rightarrow> sql_value \<Rightarrow> rstring" where
  "primary_key_of sc v = row_prefix (sc_name sc) @ hex (encode_value v)"

lemma row_key_for_primary_eq:
  assumes "schema_ok sc"
  shows "row_key_for_primary sc v =
    (if v = VNull then fail_with (invalid_input ''sql: primary key cannot be NULL'')
     else rbind (check_type v (cd_type (sc_columns sc ! pk sc))) (\<lambda>_. Inr (primary_key_of sc v)))"
  using schema_ok_pk [OF assms] by (simp add: row_key_for_primary_def elem_at_Inr primary_key_of_def)

lemma row_key_eq:
  assumes "schema_ok sc" and "row_ok sc row"
  shows "row_key sc row = (if row ! pk sc = VNull then fail_with (invalid_input ''sql: primary key cannot be NULL'')
    else Inr (primary_key_of sc (row ! pk sc)))"
  using schema_ok_pk [OF assms(1)] assms by (simp add: row_key_def row_key_for_primary_eq row_ok_def)

lemma primary_key_of_row [simp]: "starts_with (primary_key_of sc v) (row_prefix (sc_name sc))"
  by (simp add: primary_key_of_def starts_with_iff)

lemma primary_key_of_inject:
  "value_ok v \<Longrightarrow> value_ok w \<Longrightarrow> primary_key_of sc v = primary_key_of sc w \<longleftrightarrow> v = w"
  by (simp add: primary_key_of_def hex_inject encode_value_inject)

lemma is_row_iff:
  "schema_ok sc \<Longrightarrow> is_row sc k row \<longleftrightarrow> row_ok sc row \<and> row ! pk sc \<noteq> VNull \<and> k = primary_key_of sc (row ! pk sc)"
  by (auto simp: is_row_def row_key_eq split: if_splits)

lemma row_ok_not_Nil: "schema_ok sc \<Longrightarrow> row_ok sc row \<Longrightarrow> row \<noteq> []"
  using schema_ok_columns by (auto simp: row_ok_def)

lemma decode_stored: "schema_ok sc \<Longrightarrow> is_row sc k row \<Longrightarrow> decode_row (encode_row row) sc = Inr row"
  by (simp add: is_row_def decode_row_encode row_ok_not_Nil)

lemma is_row_prefix: "schema_ok sc \<Longrightarrow> is_row sc k row \<Longrightarrow> starts_with k (row_prefix (sc_name sc))"
  by (simp add: is_row_iff)

lemma is_row_key_row: "schema_ok sc \<Longrightarrow> is_row sc k row \<Longrightarrow> starts_with k ROW_PREFIX"
  by (blast intro: row_prefix_row is_row_prefix)

lemma row_key_not_catalog: "schema_ok sc \<Longrightarrow> is_row sc k row \<Longrightarrow> k \<noteq> catalog_key table"
  using is_row_key_row by force

lemma table_schema_ok: "table_schema m sc \<Longrightarrow> schema_ok sc"
  by (simp add: table_schema_def)

lemma table_schema_unique:
  assumes "table_schema m a" and "table_schema m b" and "sc_name a = sc_name b"
  shows "a = b"
proof -
  from assms have "encode_schema a = encode_schema b" by (simp add: table_schema_def)
  then have "Inr a = (Inr b :: schema may_fail)"
    using decode_schema_encode [OF table_schema_ok [OF assms(1)]] decode_schema_encode [OF table_schema_ok [OF assms(2)]] assms(3)
    by metis
  then show ?thesis by simp
qed

lemma db_ok_row:
  assumes "db_ok m" and "table_schema m sc" and "m k = Some v" and "starts_with k (row_prefix (sc_name sc))"
  shows "\<exists>row. is_row sc k row \<and> v = encode_row row"
proof -
  from assms(1,3) row_prefix_row [OF assms(4)] obtain sc' row where
    r: "table_schema m sc'" "is_row sc' k row" "v = encode_row row"
    unfolding db_ok_def by blast
  then have k: "k = row_prefix (sc_name sc') @ hex (encode_value (row ! pk sc'))"
    by (simp add: is_row_iff table_schema_ok primary_key_of_def)
  from assms(4) have "sc_name sc' = sc_name sc"
    unfolding k using r(1) assms(2) by (simp add: row_prefix_table table_schema_def)
  with r table_schema_unique [OF r(1) assms(2)] show ?thesis by blast
qed

lemma load_schema_view:
  assumes "live st" and "db_ok (view st)"
  obtains (unknown) "view st (catalog_key table) = None"
      "load_schema (fst st) (snd st) table = fail_with (invalid_input (''sql: unknown table '' @ quote_name table))"
  | (table) sc where "load_schema (fst st) (snd st) table = Inr sc" "table_schema (view st) sc" "sc_name sc = table"
proof -
  have get: "of_txn (txn_get (fst st) (snd st) (catalog_key table)) = Inr (view st (catalog_key table))"
    using sql_get_view [OF assms(1), of "catalog_key table"] by (cases st) (simp add: sql_get_def)
  show ?thesis
  proof (cases "view st (catalog_key table)")
    case None
    then show ?thesis using get by (intro unknown) (simp_all add: load_schema_def)
  next
    case (Some v)
    with assms(2) obtain sc where sc: "sc_name sc = table" "schema_ok sc" "v = encode_schema sc" "name_ok table"
      unfolding db_ok_def by blast
    show ?thesis
    proof (rule table)
      show "load_schema (fst st) (snd st) table = Inr sc"
        using get Some sc decode_schema_encode [OF sc(2)] by (simp add: load_schema_def)
      show "table_schema (view st) sc" using Some sc by (simp add: table_schema_def)
    qed (rule sc(1))
  qed
qed

text \<open>The rows of a table, in the order of their keys.\<close>

definition table_rows :: "(rstring \<rightharpoonup> rstring) \<Rightarrow> schema \<Rightarrow> (rstring \<times> row) list \<Rightarrow> bool" where
  "table_rows m sc rows \<longleftrightarrow> sorted_wrt (<) (map fst rows)
    \<and> set rows = {(k, row). is_row sc k row \<and> m k = Some (encode_row row)}"

lemma all_rows_view:
  assumes "live st" and "db_ok (view st)" and "table_schema (view st) sc"
  obtains rows where "all_rows sc st = Inr rows" "table_rows (view st) sc rows"
proof -
  obtain ps where ps: "of_txn (scan_prefix (fst st) (snd st) (row_prefix (sc_name sc))) = Inr ps" "bm_inv ps"
    "\<And>k. bm_get ps k = (if starts_with k (row_prefix (sc_name sc)) then view st k else None)"
    using scan_view [OF assms(1), of "row_prefix (sc_name sc)"] by blast
  note ok = table_schema_ok [OF assms(3)]
  have mem: "(k, v) \<in> set ps \<longleftrightarrow> starts_with k (row_prefix (sc_name sc)) \<and> view st k = Some v" for k v
    using ps(2,3) by (simp add: bm_get_in)
  let ?good = "\<lambda>p r. fst p = fst r \<and> is_row sc (fst r) (snd r) \<and> snd p = encode_row (snd r)"
  have "\<exists>r. ?good p r" if "p \<in> set ps" for p
    using that db_ok_row [OF assms(2,3), of "fst p" "snd p"] mem [of "fst p" "snd p"] by fastforce
  then obtain g where g: "\<And>p. p \<in> set ps \<Longrightarrow> ?good p (g p)" by metis
  let ?f = "\<lambda>(key, encoded). rbind (decode_row encoded sc) (\<lambda>row. Inr (key, row))"
  have f: "?f p = Inr (g p)" if "p \<in> set ps" for p
    using g [OF that] decode_stored [OF ok, of "fst (g p)" "snd (g p)"] by (simp add: case_prod_unfold)
  have "collect_results ?f qs = Inr (map g qs)" if "set qs \<subseteq> set ps" for qs
    using that f by (induction qs) simp_all
  with ps(1) have all: "all_rows sc st = Inr (map g ps)" by (cases st) (simp add: all_rows_def)
  have "set (map g ps) = {(k, row). is_row sc k row \<and> view st k = Some (encode_row row)}"
  proof (intro set_eqI iffI; clarify)
    fix k row assume "(k, row) \<in> set (map g ps)"
    then obtain p where "p \<in> set ps" "g p = (k, row)" by auto
    with g [of p] have "p = (k, encode_row row)" "p \<in> set ps" "is_row sc k row" by (simp_all add: prod_eq_iff)
    with mem show "is_row sc k row \<and> view st k = Some (encode_row row)" by simp
  next
    fix k row assume r: "is_row sc k row" "view st k = Some (encode_row row)"
    then have p: "(k, encode_row row) \<in> set ps" using mem is_row_prefix [OF ok] by blast
    from g [OF p] r decode_stored [OF ok] have "g (k, encode_row row) = (k, row)"
      by (metis fst_conv snd_conv prod.collapse sum.inject(2))
    with p show "(k, row) \<in> set (map g ps)" by (metis image_eqI set_map)
  qed
  moreover have "map fst (map g ps) = map fst ps" using g by simp
  ultimately have "table_rows (view st) sc (map g ps)" using ps(2) unfolding table_rows_def bm_inv_def by metis
  with all that show ?thesis by blast
qed

text \<open>What the engine writes is ASCII.\<close>

lemma utf8_row: "utf8_valid (encode_row row)"
proof (rule utf8_valid_ascii)
  fix b assume "b \<in> set (encode_row row)"
  with str_join_set [of "[0x3A]" "map (\<lambda>v. hex (encode_value v)) row"] have "b = 0x3A \<or> (\<exists>v. b \<in> set (hex (encode_value v)))"
    by (auto simp: encode_row_def)
  then show "b < 0x80" using hex_ascii by auto
qed

lemma utf8_catalog_key: "name_ok table \<Longrightarrow> utf8_valid (catalog_key table)"
  by (auto simp: catalog_key_def CATALOG_PREFIX_def name_ok_def ascii_def intro!: utf8_valid_append)

lemma utf8_row_key: "name_ok (sc_name sc) \<Longrightarrow> utf8_valid (primary_key_of sc v)"
  by (auto simp: primary_key_of_def row_prefix_def ROW_PREFIX_def name_ok_def ascii_def intro!: utf8_valid_append utf8_hex)

lemma utf8_is_row: "table_schema m sc \<Longrightarrow> is_row sc k row \<Longrightarrow> utf8_valid k"
  by (auto simp: is_row_iff table_schema_def utf8_row_key)

lemma utf8_schema: "schema_ok sc \<Longrightarrow> utf8_valid (encode_schema sc)"
proof -
  assume "schema_ok sc"
  then have n: "name_ok (cd_name c)" if "c \<in> set (sc_columns sc)" for c using that by (simp add: schema_ok_def list_all_iff)
  have "utf8_valid (encode_column c)" if "name_ok (cd_name c)" for c
    using that by (cases "cd_type c") (auto simp: encode_column_def name_ok_def intro!: utf8_valid_append)
  with n show ?thesis unfolding encode_schema_def by (intro utf8_join) (auto simp: list_all_iff)
qed

text \<open>Changes that keep the tables intact.\<close>

lemma table_schema_update:
  "schema_ok sc' \<Longrightarrow> is_row sc' k row \<Longrightarrow> table_schema (m(k := x)) sc \<longleftrightarrow> table_schema m sc"
  by (auto simp: table_schema_def dest: row_key_not_catalog [where table = "sc_name sc"])

lemma db_ok_put:
  assumes "db_ok m" and "table_schema m sc" and "is_row sc k row"
  shows "db_ok (m(k \<mapsto> encode_row row))"
proof -
  note ok = table_schema_ok [OF assms(2)]
  note same = table_schema_update [OF ok assms(3)]
  have "(m(k \<mapsto> encode_row row)) (catalog_key table) = m (catalog_key table)" for table
    using row_key_not_catalog [OF ok assms(3)] by auto
  moreover have "\<exists>sc row'. table_schema (m(k \<mapsto> encode_row row)) sc \<and> is_row sc k' row' \<and> v = encode_row row'"
    if "(m(k \<mapsto> encode_row row)) k' = Some v" "starts_with k' ROW_PREFIX" for k' v
  proof (cases "k' = k")
    case True
    with that assms same show ?thesis by auto
  next
    case False
    with that have "m k' = Some v \<and> starts_with k' ROW_PREFIX" by simp
    with assms(1) obtain sc' row' where "table_schema m sc'" "is_row sc' k' row'" "v = encode_row row'"
      unfolding db_ok_def by blast
    with same show ?thesis by auto
  qed
  ultimately show ?thesis using assms(1) unfolding db_ok_def by auto
qed

lemma db_ok_remove:
  assumes "db_ok m" and "starts_with k ROW_PREFIX"
  shows "db_ok (m(k := None))"
proof -
  have c: "(m(k := None)) (catalog_key table) = m (catalog_key table)" for table using assms(2) by auto
  then have "table_schema (m(k := None)) sc = table_schema m sc" for sc by (simp add: table_schema_def)
  then show ?thesis using assms(1) c unfolding db_ok_def by (auto simp: fun_upd_def split: if_splits)
qed

lemma db_ok_create:
  assumes "db_ok m" and "m (catalog_key (sc_name sc)) = None" and "schema_ok sc" and "name_ok (sc_name sc)"
  shows "db_ok (m(catalog_key (sc_name sc) \<mapsto> encode_schema sc))"
proof -
  let ?m = "m(catalog_key (sc_name sc) \<mapsto> encode_schema sc)"
  have keep: "table_schema m sc' \<Longrightarrow> table_schema ?m sc'" for sc'
    using assms(2) by (auto simp: table_schema_def)
  have "?m k = m k" if "starts_with k ROW_PREFIX" for k using that by auto
  with assms(1) keep have "?m k = Some v \<and> starts_with k ROW_PREFIX \<Longrightarrow>
      \<exists>sc row. table_schema ?m sc \<and> is_row sc k row \<and> v = encode_row row" for k v
    unfolding db_ok_def by metis
  moreover have "name_ok table \<and> (\<exists>sc. sc_name sc = table \<and> schema_ok sc \<and> v = encode_schema sc)"
    if "?m (catalog_key table) = Some v" for table v
    using that assms unfolding db_ok_def by (auto split: if_splits)
  ultimately show ?thesis unfolding db_ok_def by blast
qed

end
