(* ===== verification/Sql_Statements.thy ===== *)
theory Sql_Statements
  imports Sql_Tables
begin

text \<open>
  What the statements do to the tables a transaction sees, whether they succeed or fail: the conditions of a small
  program logic for statements that may fail but must neither panic nor damage the tables.
\<close>

section \<open>Results without a panic\<close>

definition returns :: "'a may_fail \<Rightarrow> ('a \<Rightarrow> bool) \<Rightarrow> bool" where
  "returns m Q \<longleftrightarrow> (case m of Inl Panicked \<Rightarrow> False | Inl (Failed _) \<Rightarrow> True | Inr x \<Rightarrow> Q x)"

named_theorems returns_intros \<open>results without a panic\<close>

lemma returns_iff: "returns m Q \<longleftrightarrow> m \<noteq> Inl Panicked \<and> (\<forall>x. m = Inr x \<longrightarrow> Q x)"
  by (auto simp: returns_def split: sum.splits failure.splits)

lemma returns_bind: "returns m Q \<Longrightarrow> (\<And>x. m = Inr x \<Longrightarrow> Q x \<Longrightarrow> returns (f x) R) \<Longrightarrow> returns (rbind m f) R"
  by (cases m) (auto simp: returns_iff)

lemma returns_mono: "returns m Q \<Longrightarrow> (\<And>x. Q x \<Longrightarrow> R x) \<Longrightarrow> returns m R"
  by (auto simp: returns_iff)

lemma returns_Inr [simp]: "returns (Inr x) Q \<longleftrightarrow> Q x"
  by (simp add: returns_def)

lemma returns_fail [simp]: "returns (fail_with e) Q"
  by (simp add: returns_def fail_with_def)

lemma returns_find_column [returns_intros]:
  "returns (find_column msg sc c) (\<lambda>i. i < length (sc_columns sc) \<and> cd_name (sc_columns sc ! i) = c)"
proof (cases "column_index sc c")
  case (Some i)
  then have "i < length (sc_columns sc) \<and> cd_name (sc_columns sc ! i) = c" by (simp add: column_index_def position_Some)
  with Some show ?thesis by (simp add: find_column_def)
qed (simp add: find_column_def)

lemma returns_elem_at [returns_intros]: "i < length xs \<Longrightarrow> returns (elem_at xs i) (\<lambda>x. x = xs ! i)"
  by (simp add: elem_at_def)

lemma returns_set_at [returns_intros]: "i < length xs \<Longrightarrow> returns (set_at i v xs) (\<lambda>ys. ys = xs[i := v])"
  by (simp add: set_at_def)

lemma returns_check_type [returns_intros]: "returns (check_type v ty) (\<lambda>_. check_type v ty = Inr ())"
  by (cases "(v, ty)" rule: check_type.cases) simp_all

section \<open>Expressions on rows\<close>

lemma op_result_compares: "oper \<noteq> OpAnd \<Longrightarrow> oper \<noteq> OpOr \<Longrightarrow> op_result oper order \<noteq> Inl Panicked"
  by (cases oper) simp_all

lemma value_order_no_panic: "value_order a b \<noteq> Inl Panicked"
  by (cases "(a, b)" rule: value_order.cases) simp_all

lemma truth_no_panic: "truth v \<noteq> Inl Panicked"
  by (cases v) simp_all

lemma compare_no_panic: "oper \<noteq> OpAnd \<Longrightarrow> oper \<noteq> OpOr \<Longrightarrow> compare oper a b \<noteq> Inl Panicked"
  unfolding compare_def using value_order_no_panic op_result_compares by (auto simp: rbind_Inl_iff)

lemma logic_no_panic: "logic_and a b \<noteq> Inl Panicked" "logic_or a b \<noteq> Inl Panicked"
  unfolding logic_and_def logic_or_def using truth_no_panic by (auto simp: rbind_Inl_iff)

lemma eval_no_panic: "length row = length (sc_columns sc) \<Longrightarrow> eval e row sc \<noteq> Inl Panicked"
proof (induction e)
  case (EColumn c)
  then show ?case
    using returns_find_column [of "''sql: unknown column ''" sc c] by (auto simp: returns_iff rbind_Inl_iff elem_at_def)
next
  case (EBinary oper a b)
  then show ?case using compare_no_panic logic_no_panic by (cases oper) (auto simp: rbind_Inl_iff)
qed simp

lemma matches_no_panic: "length row = length (sc_columns sc) \<Longrightarrow> matches_filter c row sc \<noteq> Inl Panicked"
  using eval_no_panic [of row sc] by (cases c) (auto simp: matches_filter_def rbind_Inl_iff)

section \<open>Row sources\<close>

text \<open>Pulling all rows through a filter is filtering the list, up to the first error.\<close>

primrec filter_rows :: "expr \<Rightarrow> schema \<Rightarrow> row list \<Rightarrow> row list may_fail" where
  "filter_rows e sc [] = Inr []"
| "filter_rows e sc (row # rows) = rbind (matches_filter (Some e) row sc) (\<lambda>matches.
    rbind (filter_rows e sc rows) (\<lambda>kept. Inr (if matches then row # kept else kept)))"

lemma drain_vec: "drain (VecSource rows) = Inr rows"
  by (induction rows) (simp_all add: drain.simps)

lemma drain_filter: "drain (FilterSource (VecSource rows) e sc) = filter_rows e sc rows"
proof (induction rows)
  case Nil
  show ?case by (subst drain.simps) simp
next
  case (Cons row rows)
  show ?case
  proof (cases "matches_filter (Some e) row sc")
    case (Inr b)
    show ?thesis
    proof (cases b)
      case True
      then show ?thesis using Inr Cons by (subst drain.simps) simp
    next
      case False
      then have "next_row (FilterSource (VecSource (row # rows)) e sc) = next_row (FilterSource (VecSource rows) e sc)"
        using Inr by simp
      then have "drain (FilterSource (VecSource (row # rows)) e sc) = drain (FilterSource (VecSource rows) e sc)"
        by (simp add: drain.simps [of "FilterSource _ _ _"])
      then show ?thesis using Inr False Cons by (cases "filter_rows e sc rows") simp_all
    qed
  qed (subst drain.simps, simp)
qed

lemma filter_rows_no_panic:
  "(\<And>row. row \<in> set rows \<Longrightarrow> length row = length (sc_columns sc)) \<Longrightarrow> filter_rows e sc rows \<noteq> Inl Panicked"
  using matches_no_panic by (induction rows) (auto simp: rbind_Inl_iff)

lemma filter_rows_Inr:
  "filter_rows e sc rows = Inr kept \<Longrightarrow> kept = filter (\<lambda>row. matches_filter (Some e) row sc = Inr True) rows
    \<and> (\<forall>row \<in> set rows. \<exists>b. matches_filter (Some e) row sc = Inr b)"
  by (induction rows arbitrary: kept) (auto simp: rbind_Inr_iff)

section \<open>Assignments\<close>

lemma row_ok_update:
  "row_ok sc row \<Longrightarrow> i < length (sc_columns sc) \<Longrightarrow> value_ok v \<Longrightarrow> check_type v (cd_type (sc_columns sc ! i)) = Inr () \<Longrightarrow>
    row_ok sc (row[i := v])"
  by (auto simp: row_ok_def nth_list_update list_all_length)

lemma row_ok_nulls: "row_ok sc (replicate (length (sc_columns sc)) VNull)"
  by (simp add: row_ok_def list_all_length)

lemma returns_cell:
  assumes "row_ok sc row" and "value_ok v" and "i < length (sc_columns sc)" and "\<And>row'. row_ok sc row' \<Longrightarrow> returns (f row') Q"
  shows "returns (rbind (elem_at (sc_columns sc) i) (\<lambda>c. rbind (check_type v (cd_type c)) (\<lambda>_. rbind (set_at i v row) f))) Q"
proof (rule returns_bind [OF returns_elem_at [OF assms(3)]], rule returns_bind [OF returns_check_type])
  fix c assume "c = sc_columns sc ! i" and "check_type v (cd_type c) = Inr ()"
  with assms row_ok_update [OF assms(1,3,2)] show "returns (rbind (set_at i v row) f) Q"
    by (simp add: set_at_def row_ok_def)
qed

lemma returns_assign_values:
  assumes "row_ok sc row" and "list_all (\<lambda>(c, v). value_ok v) pairs"
  shows "returns (assign_values sc pairs row) (row_ok sc)"
  using assms
proof (induction pairs arbitrary: row)
  case (Cons pair pairs)
  then show ?case
    by (cases pair) (auto intro!: returns_bind [OF returns_find_column] returns_cell)
qed simp

lemma returns_insert_values:
  assumes "row_ok sc row" and "length assigned = length (sc_columns sc)" and "list_all (\<lambda>(c, v). value_ok v) pairs"
  shows "returns (insert_values sc pairs row assigned) (row_ok sc)"
  using assms
proof (induction pairs arbitrary: row assigned)
  case (Cons pair pairs)
  obtain c v where p: "pair = (c, v)" by (cases pair)
  note prems = Cons.prems [unfolded p]
  have cell: "returns (rbind (elem_at (sc_columns sc) i) (\<lambda>c. rbind (check_type v (cd_type c)) (\<lambda>_.
      rbind (set_at i v row) (\<lambda>row. rbind (set_at i True assigned) (\<lambda>assigned. insert_values sc pairs row assigned))))) (row_ok sc)"
    if "i < length (sc_columns sc)" for i
    by (rule returns_cell [OF prems(1) _ that]) (use prems that Cons.IH in \<open>auto intro: returns_bind [OF returns_set_at]\<close>)
  show ?case
    unfolding insert_values.simps p prod.case
    by (rule returns_bind [OF returns_find_column], rule returns_bind [OF returns_elem_at]) (use cell prems in auto)
qed simp

section \<open>Statements that keep the tables intact\<close>

definition sound_state :: "txn_state \<Rightarrow> bool" where
  "sound_state st \<longleftrightarrow> live st \<and> db_ok (view st)"

definition runs :: "txn_state \<Rightarrow> 'a sql_eff \<Rightarrow> ('a \<Rightarrow> txn_state \<Rightarrow> bool) \<Rightarrow> bool" where
  "runs st m Q \<longleftrightarrow> (case m st of (r, st') \<Rightarrow>
     r \<noteq> Inl Panicked \<and> sound_state st' \<and> same_txn st st' \<and> (\<forall>x. r = Inr x \<longrightarrow> Q x st'))"

lemma runsI:
  "m st = (r, st') \<Longrightarrow> r \<noteq> Inl Panicked \<Longrightarrow> sound_state st' \<Longrightarrow> same_txn st st' \<Longrightarrow> (\<And>x. r = Inr x \<Longrightarrow> Q x st') \<Longrightarrow> runs st m Q"
  by (simp add: runs_def)

lemma runs_bind:
  assumes "runs st m Q" and "\<And>x st'. sound_state st' \<Longrightarrow> Q x st' \<Longrightarrow> runs st' (f x) R"
  shows "runs st (and_then m f) R"
proof -
  obtain r st' where m: "m st = (r, st')" by (cases "m st")
  with assms(1) have a: "r \<noteq> Inl Panicked" "sound_state st'" "same_txn st st'" "\<And>x. r = Inr x \<Longrightarrow> Q x st'"
    by (auto simp: runs_def)
  show ?thesis
  proof (cases r)
    case (Inl e)
    with m a show ?thesis by (intro runsI [of _ _ "Inl e" st']) (auto simp: and_then_def)
  next
    case (Inr x)
    obtain r' st'' where f: "f x st' = (r', st'')" by (cases "f x st'")
    with assms(2) [OF a(2) a(4) [OF Inr]] have "r' \<noteq> Inl Panicked" "sound_state st''" "same_txn st' st''"
      "\<And>y. r' = Inr y \<Longrightarrow> R y st''" by (auto simp: runs_def)
    with m Inr f a(3) show ?thesis by (intro runsI [of _ _ r' st'']) (auto simp: and_then_def intro: same_txn_trans)
  qed
qed

lemma runs_mono: "runs st m Q \<Longrightarrow> (\<And>x st'. Q x st' \<Longrightarrow> R x st') \<Longrightarrow> runs st m R"
  by (auto simp: runs_def split: prod.splits)

lemma runs_if: "(P \<Longrightarrow> runs st a Q) \<Longrightarrow> (\<not> P \<Longrightarrow> runs st b Q) \<Longrightarrow> runs st (if P then a else b) Q"
  by simp

lemma runs_pure: "sound_state st \<Longrightarrow> returns r (\<lambda>x. Q x st) \<Longrightarrow> runs st (pure r) Q"
  by (simp add: runs_def pure_def returns_iff)

lemma runs_reading: "sound_state st \<Longrightarrow> returns (f st) (\<lambda>x. Q x st) \<Longrightarrow> runs st (reading f) Q"
  by (simp add: runs_def reading_def returns_iff)

lemma runs_set:
  assumes "sound_state st" and "utf8_valid k" and "utf8_valid v" and "db_ok ((view st)(k \<mapsto> v))"
  shows "runs st (sql_set k v) (\<lambda>_ st'. view st' = (view st)(k \<mapsto> v))"
proof (rule sql_set_cases [of st k v, OF _ assms(2,3)])
  show "live st" using assms(1) by (simp add: sound_state_def)
qed (use assms in \<open>auto intro!: runsI simp: sound_state_def\<close>)

lemma runs_put:
  assumes "sound_state st" and "table_schema (view st) sc" and "is_row sc k row"
  shows "runs st (sql_set k (encode_row row)) (\<lambda>_ st'. view st' = (view st)(k \<mapsto> encode_row row))"
  using assms by (intro runs_set db_ok_put utf8_row utf8_is_row) (simp_all add: sound_state_def)

lemma runs_delete:
  assumes "sound_state st" and "starts_with k ROW_PREFIX" and "utf8_valid k"
  shows "runs st (sql_delete k) (\<lambda>_ st'. view st' = (view st)(k := None))"
proof (rule sql_delete_cases [of st k, OF _ assms(3)])
  show "live st" using assms(1) by (simp add: sound_state_def)
qed (use assms db_ok_remove in \<open>auto intro!: runsI simp: sound_state_def\<close>)

lemma runs_get:
  "sound_state st \<Longrightarrow> runs st (reading (sql_get k)) (\<lambda>x st'. st' = st \<and> x = view st k)"
  by (rule runs_reading) (simp_all add: sound_state_def sql_get_view)

lemma runs_load_schema:
  assumes "sound_state st"
  shows "runs st (reading (\<lambda>(s, t). load_schema s t table)) (\<lambda>sc st'. st' = st \<and> table_schema (view st) sc \<and> sc_name sc = table)"
proof (rule runs_reading [OF assms])
  have "live st" "db_ok (view st)" using assms by (simp_all add: sound_state_def)
  then show "returns (case st of (s, t) \<Rightarrow> load_schema s t table) (\<lambda>sc. st = st \<and> table_schema (view st) sc \<and> sc_name sc = table)"
    by (rule load_schema_view [of st table]) (auto simp: case_prod_unfold)
qed

lemma runs_all_rows:
  assumes "sound_state st" and "table_schema (view st) sc"
  shows "runs st (reading (all_rows sc)) (\<lambda>rows st'. st' = st \<and> table_rows (view st) sc rows)"
proof (rule runs_reading [OF assms(1)])
  have "live st" "db_ok (view st)" using assms by (simp_all add: sound_state_def)
  then show "returns (all_rows sc st) (\<lambda>rows. st = st \<and> table_rows (view st) sc rows)"
    by (rule all_rows_view [OF _ _ assms(2)]) auto
qed

lemma returns_row_key:
  assumes "schema_ok sc" and "row_ok sc row"
  shows "returns (row_key sc row) (\<lambda>k. is_row sc k row)"
  using assms by (auto simp: row_key_eq is_row_iff)

text \<open>\<open>INSERT\<close>.\<close>

lemma runs_insert_row:
  assumes "sound_state st" and "table_schema (view st) sc" and "row_ok sc row"
  shows "runs st (and_then (pure (row_key sc row)) (\<lambda>key. and_then (reading (sql_get key)) (\<lambda>found.
      if found \<noteq> None then pure (fail_with e) else and_then (sql_set key (encode_row row)) (\<lambda>_. pure (Inr x)))))
    (\<lambda>r st'. r = x \<and> (\<exists>k. is_row sc k row \<and> view st k = None \<and> view st' = (view st)(k \<mapsto> encode_row row)))"
proof (rule runs_bind [where Q = "\<lambda>k st'. st' = st \<and> is_row sc k row"])
  show "runs st (pure (row_key sc row)) (\<lambda>k st'. st' = st \<and> is_row sc k row)"
    using returns_row_key [OF table_schema_ok [OF assms(2)] assms(3)] by (intro runs_pure [OF assms(1)]) simp
  fix k st1 assume "st1 = st \<and> is_row sc k row"
  then have st1: "st1 = st" and k: "is_row sc k row" by auto
  show "runs st1 (and_then (reading (sql_get k)) (\<lambda>found.
      if found \<noteq> None then pure (fail_with e) else and_then (sql_set k (encode_row row)) (\<lambda>_. pure (Inr x))))
    (\<lambda>r st'. r = x \<and> (\<exists>k. is_row sc k row \<and> view st k = None \<and> view st' = (view st)(k \<mapsto> encode_row row)))"
    (is "runs _ _ ?Q")
  proof -
    have "runs st (and_then (sql_set k (encode_row row)) (\<lambda>_. pure (Inr x))) ?Q" if "view st k = None"
      by (rule runs_bind [OF runs_put [OF assms(1,2) k]], rule runs_pure) (use k that in auto)
    then show ?thesis
      unfolding st1 by (intro runs_bind [OF runs_get [OF assms(1)]]) (auto intro!: runs_pure)
  qed
qed

definition inserted :: "(rstring \<rightharpoonup> rstring) \<Rightarrow> rstring \<Rightarrow> rstring list \<Rightarrow> sql_value list \<Rightarrow> sql_result \<Rightarrow> (rstring \<rightharpoonup> rstring) \<Rightarrow> bool" where
  "inserted m table columns vals r m' \<longleftrightarrow> r = Affected 1 \<and> length columns = length vals
    \<and> (\<exists>sc k row. table_schema m sc \<and> sc_name sc = table \<and> is_row sc k row \<and> m k = None
         \<and> insert_values sc (zip columns vals) (replicate (length (sc_columns sc)) VNull)
             (replicate (length (sc_columns sc)) False) = Inr row
         \<and> m' = m(k \<mapsto> encode_row row))"

lemma runs_insert:
  assumes "sound_state st" and "list_all value_ok vals"
  shows "runs st (sql_insert table columns vals) (\<lambda>r st'. inserted (view st) table columns vals r (view st'))"
  unfolding sql_insert_def Let_def
proof (rule runs_bind [OF runs_load_schema [OF assms(1)]], goal_cases)
  case (1 sc st')
  then have sc: "table_schema (view st) sc" "sc_name sc = table" and st': "st' = st" by auto
  let ?cells = "insert_values sc (zip columns vals) (replicate (length (sc_columns sc)) VNull) (replicate (length (sc_columns sc)) False)"
  have pairs: "list_all (\<lambda>(c, v). value_ok v) (zip columns vals)"
    using assms(2) by (auto simp: list_all_iff dest: set_zip_rightD)
  have row: "runs st (pure ?cells) (\<lambda>row st'. st' = st \<and> row_ok sc row \<and> ?cells = Inr row)"
    using returns_insert_values [OF row_ok_nulls _ pairs, of "replicate (length (sc_columns sc)) False"]
    by (intro runs_pure [OF assms(1)]) (auto simp: returns_iff)
  show ?case
    unfolding st'
  proof (rule runs_if)
    assume "\<not> length columns \<noteq> length vals"
    then have len: "length columns = length vals" by simp
    show "runs st (and_then (pure ?cells) (\<lambda>row. and_then (pure (row_key sc row)) (\<lambda>key. and_then (reading (sql_get key)) (\<lambda>found.
        if found \<noteq> None then pure (fail_with (invalid_input ''sql: duplicate primary key''))
        else and_then (sql_set key (encode_row row)) (\<lambda>_. pure (Inr (Affected 1)))))))
      (\<lambda>r st'. inserted (view st) table columns vals r (view st'))"
    proof (rule runs_bind [OF row])
      fix r st1 assume r: "st1 = st \<and> row_ok sc r \<and> ?cells = Inr r"
      show "runs st1 (and_then (pure (row_key sc r)) (\<lambda>key. and_then (reading (sql_get key)) (\<lambda>found.
          if found \<noteq> None then pure (fail_with (invalid_input ''sql: duplicate primary key''))
          else and_then (sql_set key (encode_row r)) (\<lambda>_. pure (Inr (Affected 1))))))
        (\<lambda>r st'. inserted (view st) table columns vals r (view st'))"
        by (rule runs_mono [OF runs_insert_row [where sc = sc]]) (use r sc len assms(1) in \<open>auto simp: inserted_def\<close>)
    qed
  qed (simp add: runs_pure [OF assms(1)])
qed

text \<open>\<open>CREATE TABLE\<close>.\<close>

lemma runs_create:
  assumes "sound_state st" and "name_ok table" and "list_all (\<lambda>c. name_ok (cd_name c)) columns"
  shows "runs st (sql_create table columns) (\<lambda>r st'. r = Affected 0 \<and> view st (catalog_key table) = None
    \<and> schema_ok \<lparr>sc_name = table, sc_columns = columns\<rparr>
    \<and> view st' = (view st)(catalog_key table \<mapsto> encode_schema \<lparr>sc_name = table, sc_columns = columns\<rparr>))"
proof -
  let ?sc = "\<lparr>sc_name = table, sc_columns = columns\<rparr>"
  have check: "runs st (pure (validate ?sc)) (\<lambda>_ st'. st' = st \<and> schema_ok ?sc)"
    using assms(3) by (intro runs_pure [OF assms(1)]) (auto simp: returns_iff validate_def schema_ok_def)
  have save: "runs st (and_then (save_schema ?sc) (\<lambda>_. pure (Inr (Affected 0)))) (\<lambda>r st'. r = Affected 0 \<and> view st (catalog_key table) = None
    \<and> schema_ok ?sc \<and> view st' = (view st)(catalog_key table \<mapsto> encode_schema ?sc))"
    if "schema_ok ?sc" "view st (catalog_key table) = None"
  proof -
    have save: "save_schema ?sc = sql_set (catalog_key table) (encode_schema ?sc)"
      using that(1) by (auto simp: save_schema_def schema_ok_def)
    have "db_ok ((view st)(catalog_key table \<mapsto> encode_schema ?sc))"
      using db_ok_create [of "view st" ?sc] that assms(1,2) by (simp add: sound_state_def)
    note put = runs_set [OF assms(1) utf8_catalog_key [OF assms(2)] utf8_schema [OF that(1)] this]
    show ?thesis
      unfolding save by (rule runs_bind [OF put], rule runs_pure) (use that in auto)
  qed
  show ?thesis
    unfolding sql_create_def Let_def
    by (rule runs_bind [OF check], rule runs_bind [OF runs_get], simp, rule runs_if) (use save assms(1) in \<open>auto intro: runs_pure\<close>)
qed

text \<open>\<open>DELETE\<close>: the keys are those of the rows read before.\<close>

definition matching :: "schema \<Rightarrow> expr option \<Rightarrow> (rstring \<times> row) list \<Rightarrow> (rstring \<times> row) list" where
  "matching sc c rows = filter (\<lambda>(k, row). matches_filter c row sc = Inr True) rows"

lemma runs_matches:
  assumes "sound_state st" and "row_ok sc row"
  shows "runs st (pure (matches_filter c row sc)) (\<lambda>b st'. st' = st \<and> matches_filter c row sc = Inr b)"
  using matches_no_panic [of row sc c] assms by (intro runs_pure) (auto simp: returns_iff row_ok_def)

lemma runs_delete_rows:
  assumes "sound_state st" and "list_all (\<lambda>(k, row). starts_with k ROW_PREFIX \<and> utf8_valid k \<and> row_ok sc row) rows"
  shows "runs st (delete_rows sc c rows n) (\<lambda>r st'. r = n + length (matching sc c rows)
    \<and> view st' = (\<lambda>k. if k \<in> fst ` set (matching sc c rows) then None else view st k)
    \<and> (\<forall>(k, row) \<in> set rows. \<exists>b. matches_filter c row sc = Inr b))"
  using assms
proof (induction rows arbitrary: st n)
  case Nil
  then show ?case by (simp add: runs_pure matching_def)
next
  case (Cons p rows)
  obtain k row where p: "p = (k, row)" by (cases p)
  with Cons.prems have k: "starts_with k ROW_PREFIX" "row_ok sc row" "utf8_valid k"
    and rest: "list_all (\<lambda>(k, row). starts_with k ROW_PREFIX \<and> utf8_valid k \<and> row_ok sc row) rows" by auto
  show ?case
    unfolding delete_rows.simps p prod.case
  proof (rule runs_bind [OF runs_matches [OF Cons.prems(1) k(2)]], rule runs_if)
    fix b st1 assume b: "st1 = st \<and> matches_filter c row sc = Inr b" and "\<not> b"
    then show "runs st1 (delete_rows sc c rows n) (\<lambda>r st'. r = n + length (matching sc c ((k, row) # rows))
        \<and> view st' = (\<lambda>ka. if ka \<in> fst ` set (matching sc c ((k, row) # rows)) then None else view st ka)
        \<and> (\<forall>(k, row) \<in> set ((k, row) # rows). \<exists>b. matches_filter c row sc = Inr b))"
      by (intro runs_mono [OF Cons.IH [OF _ rest]]) (use Cons.prems(1) in \<open>auto simp: matching_def\<close>)
  next
    fix b st1 assume b: "st1 = st \<and> matches_filter c row sc = Inr b" and "\<not> \<not> b"
    show "runs st1 (and_then (sql_delete k) (\<lambda>_. delete_rows sc c rows (n + 1)))
      (\<lambda>r st'. r = n + length (matching sc c ((k, row) # rows))
        \<and> view st' = (\<lambda>ka. if ka \<in> fst ` set (matching sc c ((k, row) # rows)) then None else view st ka)
        \<and> (\<forall>(k, row) \<in> set ((k, row) # rows). \<exists>b. matches_filter c row sc = Inr b))"
    proof (rule runs_bind [OF runs_delete [OF _ k(1,3)]])
      show "sound_state st1" using b Cons.prems(1) by simp
      fix st2 assume "sound_state st2" and "view st2 = (view st1)(k := None)"
      then show "runs st2 (delete_rows sc c rows (n + 1)) (\<lambda>r st'. r = n + length (matching sc c ((k, row) # rows))
          \<and> view st' = (\<lambda>ka. if ka \<in> fst ` set (matching sc c ((k, row) # rows)) then None else view st ka)
          \<and> (\<forall>(k, row) \<in> set ((k, row) # rows). \<exists>b. matches_filter c row sc = Inr b))"
        by (intro runs_mono [OF Cons.IH [OF _ rest]]) (use b \<open>\<not> \<not> b\<close> in \<open>auto simp: matching_def fun_eq_iff\<close>)
    qed
  qed
qed

section \<open>Relations\<close>

definition relation :: "(rstring \<rightharpoonup> rstring) \<Rightarrow> schema \<Rightarrow> row set" where
  "relation m sc = {row. \<exists>k. is_row sc k row \<and> m k = Some (encode_row row)}"

definition key_of :: "schema \<Rightarrow> row \<Rightarrow> rstring" where
  "key_of sc row = primary_key_of sc (row ! pk sc)"

lemma is_row_key: "schema_ok sc \<Longrightarrow> is_row sc k row \<Longrightarrow> k = key_of sc row"
  by (simp add: is_row_iff key_of_def)

lemma relation_iff:
  "schema_ok sc \<Longrightarrow> row \<in> relation m sc \<longleftrightarrow> is_row sc (key_of sc row) row \<and> m (key_of sc row) = Some (encode_row row)"
  unfolding relation_def using is_row_key by auto

lemma relation_key_inj:
  assumes "schema_ok sc" and "a \<in> relation m sc" and "b \<in> relation m sc" and "key_of sc a = key_of sc b"
  shows "a = b"
proof -
  have "is_row sc (key_of sc a) a" "is_row sc (key_of sc a) b" "encode_row a = encode_row b"
    using assms(2-4) by (auto simp: relation_iff [OF assms(1)])
  then show ?thesis using decode_stored [OF assms(1)] by (metis sum.inject(2))
qed

lemma relation_remove: "schema_ok sc \<Longrightarrow> relation (m(k := None)) sc = {row \<in> relation m sc. key_of sc row \<noteq> k}"
  by (auto simp: relation_iff split: if_splits)

lemma relation_put:
  assumes "schema_ok sc" and "is_row sc k row"
  shows "relation (m(k \<mapsto> encode_row row)) sc = insert row {r \<in> relation m sc. key_of sc r \<noteq> k}"
proof -
  have "r = row" if "is_row sc k r" "encode_row r = encode_row row" for r
    using that decode_stored [OF assms(1)] assms(2) by (metis sum.inject(2))
  moreover note is_row_key [OF assms]
  ultimately show ?thesis using assms by (auto simp: relation_iff split: if_splits)
qed

lemma table_rows_relation:
  assumes "schema_ok sc" and "table_rows m sc rows"
  shows "distinct (map snd rows)" and "set (map snd rows) = relation m sc" and "distinct (map fst rows)"
proof -
  have r: "is_row sc k row \<and> m k = Some (encode_row row)" if "(k, row) \<in> set rows" for k row
    using assms(2) that by (auto simp: table_rows_def)
  have keys: "map fst rows = map (key_of sc) (map snd rows)"
    using r is_row_key [OF assms(1)] by (induction rows) fastforce+
  show d: "distinct (map fst rows)" using assms(2) by (simp add: table_rows_def strict_sorted_iff)
  then show "distinct (map snd rows)" unfolding keys by (metis distinct_map)
  show "set (map snd rows) = relation m sc"
    using assms(2) by (force simp: table_rows_def relation_def)
qed

text \<open>A statement on one table leaves the keys outside it alone.\<close>

definition only_table :: "rstring \<Rightarrow> (rstring \<rightharpoonup> rstring) \<Rightarrow> (rstring \<rightharpoonup> rstring) \<Rightarrow> bool" where
  "only_table table m m' \<longleftrightarrow> (\<forall>k. \<not> starts_with k (row_prefix table) \<longrightarrow> m' k = m k)"

lemma only_table_trans: "only_table t a b \<Longrightarrow> only_table t b c \<Longrightarrow> only_table t a c"
  by (simp add: only_table_def)

lemma only_table_schema: "only_table table m m' \<Longrightarrow> table_schema m' sc \<longleftrightarrow> table_schema m sc"
proof -
  assume "only_table table m m'"
  moreover have "\<not> starts_with (catalog_key t) (row_prefix table)" for t using row_prefix_row catalog_not_row by blast
  ultimately have "m' (catalog_key t) = m (catalog_key t)" for t by (simp add: only_table_def)
  then show ?thesis by (simp add: table_schema_def)
qed

lemma only_table_put: "schema_ok sc \<Longrightarrow> is_row sc k row \<Longrightarrow> only_table (sc_name sc) m (m(k := x))"
  using is_row_prefix by (auto simp: only_table_def)

text \<open>\<open>UPDATE\<close>.\<close>

lemma runs_update_row:
  assumes "sound_state st" and "table_schema (view st) sc" and "is_row sc k row" and "list_all (\<lambda>(c, v). value_ok v) asgs"
  shows "runs st (update_row sc asgs k row) (\<lambda>_ st'. \<exists>row' k'. assign_values sc asgs row = Inr row' \<and> is_row sc k' row'
    \<and> (k' = k \<or> view st k' = None) \<and> view st' = (view st)(k := None, k' \<mapsto> encode_row row'))" (is "runs _ _ ?Q")
proof -
  note ok = table_schema_ok [OF assms(2)]
  have asg: "runs st (pure (assign_values sc asgs row)) (\<lambda>r st'. st' = st \<and> row_ok sc r \<and> assign_values sc asgs row = Inr r)"
    using returns_assign_values [OF _ assms(4)] assms(3) by (intro runs_pure [OF assms(1)]) (auto simp: returns_iff is_row_def)
  show ?thesis
    unfolding update_row_def
  proof (rule runs_bind [OF asg], rule runs_bind [where Q = "\<lambda>k' st'. st' = st \<and> is_row sc k' r" for r])
    fix r st1 assume r: "st1 = st \<and> row_ok sc r \<and> assign_values sc asgs row = Inr r"
    then show "runs st1 (pure (row_key sc r)) (\<lambda>k' st'. st' = st \<and> is_row sc k' r)"
      using returns_row_key [OF ok] assms(1) by (intro runs_pure) auto
    fix k' st2 assume k': "st2 = st \<and> is_row sc k' r"
    have del: "runs st (if k' \<noteq> k then and_then (reading (sql_get k')) (\<lambda>found.
          if found \<noteq> None then pure (fail_with (invalid_input ''sql: duplicate primary key'')) else sql_delete k)
        else pure (Inr ()))
      (\<lambda>_ st'. if k' = k then view st' = view st else view st k' = None \<and> view st' = (view st)(k := None))"
    proof (rule runs_if)
      assume "k' \<noteq> k"
      then show "runs st (and_then (reading (sql_get k')) (\<lambda>found.
          if found \<noteq> None then pure (fail_with (invalid_input ''sql: duplicate primary key'')) else sql_delete k))
        (\<lambda>_ st'. if k' = k then view st' = view st else view st k' = None \<and> view st' = (view st)(k := None))"
        by (intro runs_bind [OF runs_get [OF assms(1)]] runs_if)
           (use assms(1) runs_delete [OF assms(1) is_row_key_row [OF ok assms(3)] utf8_is_row [OF assms(2,3)]] in \<open>auto intro: runs_pure runs_mono\<close>)
    qed (simp add: runs_pure [OF assms(1)])
    show "runs st2 (and_then (if k' \<noteq> k then and_then (reading (sql_get k')) (\<lambda>found.
          if found \<noteq> None then pure (fail_with (invalid_input ''sql: duplicate primary key'')) else sql_delete k)
        else pure (Inr ())) (\<lambda>_. sql_set k' (encode_row r))) ?Q"
      unfolding k' [THEN conjunct1]
    proof (rule runs_bind [OF del])
      fix st3 assume st3: "sound_state st3"
        and v: "if k' = k then view st3 = view st else view st k' = None \<and> view st3 = (view st)(k := None)"
      then have "table_schema (view st3) sc"
        using assms(2) table_schema_update [OF ok assms(3)] by (auto split: if_splits)
      from runs_put [OF st3 this conjunct2 [OF k']] show "runs st3 (sql_set k' (encode_row r)) ?Q"
        by (rule runs_mono) (use r k' v in \<open>auto split: if_splits\<close>)
    qed
  qed
qed

text \<open>Of several assignments to a column the last one counts.\<close>

definition set_row :: "column_def list \<Rightarrow> (rstring \<times> sql_value) list \<Rightarrow> row \<Rightarrow> row" where
  "set_row columns asgs row = map2 (\<lambda>c old. case map_of (rev asgs) (cd_name c) of Some v \<Rightarrow> v | None \<Rightarrow> old) columns row"

lemma schema_ok_distinct: "schema_ok sc \<Longrightarrow> distinct (map cd_name (sc_columns sc))"
  by (simp add: schema_ok_def validate_iff)

lemma assign_values_row:
  assumes "assign_values sc pairs row = Inr row'" and "length row = length (sc_columns sc)" and "distinct (map cd_name (sc_columns sc))"
  shows "row' = set_row (sc_columns sc) pairs row"
  using assms(1,2)
proof (induction pairs arbitrary: row)
  case Nil
  then show ?case by (auto simp: set_row_def intro!: nth_equalityI)
next
  case (Cons pair pairs)
  obtain c v where p: "pair = (c, v)" by (cases pair)
  from Cons.prems(1) obtain j where j: "find_column ''sql: unknown column '' sc c = Inr j"
    and rest: "assign_values sc pairs (row[j := v]) = Inr row'"
    by (auto simp: p rbind_Inr_iff elem_at_iff set_at_def split: if_splits)
  have name: "j < length (sc_columns sc)" "cd_name (sc_columns sc ! j) = c"
    using returns_find_column [of "''sql: unknown column ''" sc c] j by (auto simp: returns_iff)
  have other: "cd_name (sc_columns sc ! i) = c \<longleftrightarrow> i = j" if "i < length (sc_columns sc)" for i
    using that name nth_eq_iff_index_eq [OF assms(3), of i j] by auto
  have "row' = set_row (sc_columns sc) pairs (row[j := v])" by (rule Cons.IH [OF rest]) (simp add: Cons.prems(2))
  also have "\<dots> = set_row (sc_columns sc) (pair # pairs) row"
    using other Cons.prems(2) p
    by (intro nth_equalityI) (auto simp: set_row_def map_add_def nth_list_update split: option.split)
  finally show ?case .
qed

lemma relation_replace:
  assumes "schema_ok sc" and "is_row sc k row" and "m k = Some (encode_row row)" and "is_row sc k' row'" and "k' = k \<or> m k' = None"
  shows "relation (m(k := None, k' \<mapsto> encode_row row')) sc = insert row' (relation m sc - {row})"
proof -
  have key: "k = key_of sc row" "k' = key_of sc row'" using is_row_key [OF assms(1)] assms(2,4) by auto
  have "key_of sc r \<noteq> k \<and> key_of sc r \<noteq> k' \<longleftrightarrow> r \<noteq> row" if "r \<in> relation m sc" for r
  proof
    assume "r \<noteq> row"
    have "row \<in> relation m sc" using key assms by (simp add: relation_iff)
    then have "key_of sc r \<noteq> k" using relation_key_inj [OF assms(1) that] \<open>r \<noteq> row\<close> key by blast
    moreover have "m (key_of sc r) \<noteq> None" using that by (simp add: relation_iff [OF assms(1)])
    ultimately show "key_of sc r \<noteq> k \<and> key_of sc r \<noteq> k'" using assms(5) by auto
  qed (use key in auto)
  then show ?thesis
    unfolding relation_put [OF assms(1,4)] relation_remove [OF assms(1)] by auto
qed

lemma runs_update_rows:
  assumes "sound_state st" and "table_schema (view st) sc" and "list_all (\<lambda>(c, v). value_ok v) asgs"
    and "\<And>k row. (k, row) \<in> set rows \<Longrightarrow> is_row sc k row \<and> view st k = Some (encode_row row)" and "distinct (map fst rows)"
  shows "runs st (update_rows sc asgs c rows n) (\<lambda>r st'. r = n + length (matching sc c rows)
    \<and> only_table (sc_name sc) (view st) (view st')
    \<and> relation (view st') sc = (relation (view st) sc - snd ` set (matching sc c rows)) \<union> set_row (sc_columns sc) asgs ` snd ` set (matching sc c rows)
    \<and> (\<forall>(k, row) \<in> set rows. \<exists>b. matches_filter c row sc = Inr b))"
  using assms(1,2,4,5)
proof (induction rows arbitrary: st n)
  case Nil
  then show ?case by (simp add: runs_pure matching_def only_table_def)
next
  case (Cons p rows)
  obtain k row where p: "p = (k, row)" by (cases p)
  note ok = table_schema_ok [OF Cons.prems(2)]
  from Cons.prems(3) [of k row] p have k: "is_row sc k row" "view st k = Some (encode_row row)" by auto
  then have row: "row_ok sc row" by (simp add: is_row_def)
  have rest: "is_row sc k2 row2 \<and> view st k2 = Some (encode_row row2) \<and> k2 \<noteq> k" if "(k2, row2) \<in> set rows" for k2 row2
    using that Cons.prems(3,4) p by force
  let ?Q = "\<lambda>rows n st r st'. r = n + length (matching sc c rows)
    \<and> only_table (sc_name sc) (view st) (view st')
    \<and> relation (view st') sc = (relation (view st) sc - snd ` set (matching sc c rows)) \<union> set_row (sc_columns sc) asgs ` snd ` set (matching sc c rows)
    \<and> (\<forall>(k, row) \<in> set rows. \<exists>b. matches_filter c row sc = Inr b)"
  show ?case
    unfolding update_rows.simps p prod.case
  proof (rule runs_bind [OF runs_matches [OF Cons.prems(1) row]], rule runs_if)
    fix b st1 assume b: "st1 = st \<and> matches_filter c row sc = Inr b" and "\<not> b"
    have "runs st (update_rows sc asgs c rows n) (?Q rows n st)"
      by (rule Cons.IH) (use Cons.prems rest in auto)
    then show "runs st1 (update_rows sc asgs c rows n) (?Q ((k, row) # rows) n st)"
      unfolding b [THEN conjunct1] by (rule runs_mono) (use b \<open>\<not> b\<close> in \<open>auto simp: matching_def\<close>)
  next
    fix b st1 assume b: "st1 = st \<and> matches_filter c row sc = Inr b" and "\<not> \<not> b"
    show "runs st1 (and_then (update_row sc asgs k row) (\<lambda>_. update_rows sc asgs c rows (n + 1))) (?Q ((k, row) # rows) n st)"
      unfolding b [THEN conjunct1]
    proof (rule runs_bind [OF runs_update_row [OF Cons.prems(1,2) k(1) assms(3)]])
      fix st2 assume st2: "sound_state st2" and "\<exists>row' k'. assign_values sc asgs row = Inr row' \<and> is_row sc k' row'
        \<and> (k' = k \<or> view st k' = None) \<and> view st2 = (view st)(k := None, k' \<mapsto> encode_row row')"
      then obtain row' k' where r: "assign_values sc asgs row = Inr row'" "is_row sc k' row'" "k' = k \<or> view st k' = None"
        and v: "view st2 = (view st)(k := None, k' \<mapsto> encode_row row')" by blast
      have only: "only_table (sc_name sc) (view st) (view st2)"
        unfolding v by (rule only_table_trans [OF only_table_put [OF ok k(1)] only_table_put [OF ok r(2)]])
      have rel: "relation (view st2) sc = insert row' (relation (view st) sc - {row})"
        unfolding v by (rule relation_replace [OF ok k r(2,3)])
      have keep: "is_row sc k2 row2 \<and> view st2 k2 = Some (encode_row row2) \<and> row2 \<noteq> row'" if "(k2, row2) \<in> set rows" for k2 row2
        using rest [OF that] r v is_row_key [OF ok] by auto
      have new: "row' \<notin> snd ` set (matching sc c rows)" by (auto simp: matching_def dest!: keep)
      have "runs st2 (update_rows sc asgs c rows (n + 1)) (?Q rows (n + 1) st2)"
        by (rule Cons.IH [OF st2]) (use only_table_schema [OF only] Cons.prems keep in auto)
      then show "runs st2 (update_rows sc asgs c rows (n + 1)) (?Q ((k, row) # rows) n st)"
      proof (rule runs_mono)
        fix x st3 assume q: "?Q rows (n + 1) st2 x st3"
        moreover have m: "matching sc c ((k, row) # rows) = (k, row) # matching sc c rows"
          using b \<open>\<not> \<not> b\<close> by (simp add: matching_def)
        moreover have "row' = set_row (sc_columns sc) asgs row"
          by (rule assign_values_row [OF r(1) _ schema_ok_distinct [OF ok]]) (use row in \<open>simp add: row_ok_def\<close>)
        ultimately show "?Q ((k, row) # rows) n st x st3"
          using rel new b only_table_trans [OF only] by auto
      qed
    qed
  qed
qed

lemma matching_relation:
  assumes "distinct (map snd rows)" and "set (map snd rows) = R"
  shows "snd ` set (matching sc c rows) = {row \<in> R. matches_filter c row sc = Inr True}"
    and "length (matching sc c rows) = card {row \<in> R. matches_filter c row sc = Inr True}"
    and "(\<forall>(k, row) \<in> set rows. P row) \<longleftrightarrow> (\<forall>row \<in> R. P row)"
proof -
  show s: "snd ` set (matching sc c rows) = {row \<in> R. matches_filter c row sc = Inr True}"
    using assms(2) by (force simp: matching_def)
  have "distinct (map snd (matching sc c rows))" using assms(1) unfolding matching_def by (rule distinct_map_filter)
  then have "length (matching sc c rows) = card (set (map snd (matching sc c rows)))"
    by (metis distinct_card length_map)
  with s show "length (matching sc c rows) = card {row \<in> R. matches_filter c row sc = Inr True}" by simp
  show "(\<forall>(k, row) \<in> set rows. P row) \<longleftrightarrow> (\<forall>row \<in> R. P row)" using assms(2) by force
qed

lemma runs_on_rows:
  assumes "sound_state st"
    and "\<And>sc rows. table_schema (view st) sc \<Longrightarrow> sc_name sc = table \<Longrightarrow> table_rows (view st) sc rows \<Longrightarrow> runs st (f sc rows) Q"
  shows "runs st (and_then (reading (\<lambda>(s, t). load_schema s t table)) (\<lambda>sc. and_then (reading (all_rows sc)) (f sc))) Q"
proof (rule runs_bind [OF runs_load_schema [OF assms(1)]])
  fix sc st1 assume a: "st1 = st \<and> table_schema (view st) sc \<and> sc_name sc = table"
  then show "runs st1 (and_then (reading (all_rows sc)) (f sc)) Q"
    using runs_bind [OF runs_all_rows [OF assms(1)], of sc "f sc" Q] assms(2) by auto
qed

text \<open>The effect of a statement that changes the matching rows of a table.\<close>

definition changed :: "(rstring \<rightharpoonup> rstring) \<Rightarrow> rstring \<Rightarrow> expr option \<Rightarrow> (schema \<Rightarrow> row set \<Rightarrow> row set) \<Rightarrow> sql_result \<Rightarrow> (rstring \<rightharpoonup> rstring) \<Rightarrow> bool" where
  "changed m table c f r m' \<longleftrightarrow> (\<exists>sc M. table_schema m sc \<and> sc_name sc = table \<and> only_table table m m'
     \<and> (\<forall>row \<in> relation m sc. \<exists>b. matches_filter c row sc = Inr b)
     \<and> M = {row \<in> relation m sc. matches_filter c row sc = Inr True}
     \<and> r = Affected (card M) \<and> relation m' sc = (relation m sc - M) \<union> f sc M)"

lemma runs_update:
  assumes "sound_state st" and "list_all (\<lambda>(c, v). value_ok v) asgs"
  shows "runs st (sql_update table asgs c) (\<lambda>r st'. changed (view st) table c (\<lambda>sc M. set_row (sc_columns sc) asgs ` M) r (view st'))"
  unfolding sql_update_def
proof (rule runs_on_rows [OF assms(1)])
  fix sc rows assume sc: "table_schema (view st) sc" "sc_name sc = table" and rows: "table_rows (view st) sc rows"
  note rel = table_rows_relation [OF table_schema_ok [OF sc(1)] rows]
  note M = matching_relation [OF rel(1,2)]
  have upd: "runs st (update_rows sc asgs c rows 0) (\<lambda>r st'. r = 0 + length (matching sc c rows)
    \<and> only_table (sc_name sc) (view st) (view st')
    \<and> relation (view st') sc = (relation (view st) sc - snd ` set (matching sc c rows)) \<union> set_row (sc_columns sc) asgs ` snd ` set (matching sc c rows)
    \<and> (\<forall>(k, row) \<in> set rows. \<exists>b. matches_filter c row sc = Inr b))"
    by (rule runs_update_rows [OF assms(1) sc(1) assms(2)]) (use rows rel(3) in \<open>auto simp: table_rows_def\<close>)
  show "runs st (and_then (update_rows sc asgs c rows 0) (\<lambda>affected. pure (Inr (Affected affected))))
      (\<lambda>r st'. changed (view st) table c (\<lambda>sc M. set_row (sc_columns sc) asgs ` M) r (view st'))"
    by (rule runs_bind [OF upd], rule runs_pure) (use sc M in \<open>auto simp: changed_def\<close>)
qed

lemma runs_delete_statement:
  assumes "sound_state st"
  shows "runs st (sql_delete_rows table c) (\<lambda>r st'. changed (view st) table c (\<lambda>_ _. {}) r (view st'))"
  unfolding sql_delete_rows_def
proof (rule runs_on_rows [OF assms(1)])
  fix sc rows assume sc: "table_schema (view st) sc" "sc_name sc = table" and rows: "table_rows (view st) sc rows"
  note ok = table_schema_ok [OF sc(1)]
  note rel = table_rows_relation [OF ok rows]
  note M = matching_relation [OF rel(1,2)]
  let ?M = "matching sc c rows"
  have is_r: "is_row sc k row" if "(k, row) \<in> set rows" for k row using that rows by (auto simp: table_rows_def)
  have del: "runs st (delete_rows sc c rows 0) (\<lambda>r st'. r = 0 + length ?M
    \<and> view st' = (\<lambda>k. if k \<in> fst ` set ?M then None else view st k)
    \<and> (\<forall>(k, row) \<in> set rows. \<exists>b. matches_filter c row sc = Inr b))"
    by (rule runs_delete_rows [OF assms], unfold list_all_iff)
       (use is_r is_row_key_row [OF ok] utf8_is_row [OF sc(1)] in \<open>blast intro: is_row_def [THEN iffD1, THEN conjunct1]\<close>)
  have keys: "fst ` set ?M = key_of sc ` snd ` set ?M"
    using is_r is_row_key [OF ok] by (force simp: matching_def)
  have only: "only_table table (view st) (\<lambda>k. if k \<in> fst ` set ?M then None else view st k)"
    using is_r is_row_prefix [OF ok] sc(2) by (force simp: only_table_def matching_def)
  have same: "key_of sc row \<in> fst ` set ?M \<longleftrightarrow> row \<in> snd ` set ?M" if "row \<in> relation (view st) sc" for row
    unfolding keys using that relation_key_inj [OF ok] M(1) by auto
  have "row \<in> relation (\<lambda>k. if k \<in> K then None else view st k) sc \<longleftrightarrow> row \<in> relation (view st) sc \<and> key_of sc row \<notin> K" for row K
    by (auto simp: relation_iff [OF ok] split: if_splits)
  then have "relation (\<lambda>k. if k \<in> fst ` set ?M then None else view st k) sc = relation (view st) sc - snd ` set ?M"
    using same by blast
  with only show "runs st (and_then (delete_rows sc c rows 0) (\<lambda>affected. pure (Inr (Affected affected))))
      (\<lambda>r st'. changed (view st) table c (\<lambda>_ _. {}) r (view st'))"
    by (intro runs_bind [OF del] runs_pure) (use sc M in \<open>auto simp: changed_def\<close>)
qed

end
