(* ===== verification/Sql_Select.thy ===== *)
theory Sql_Select
  imports Sql_Statements "HOL-Library.Multiset"
begin

text \<open>
  \<open>SELECT\<close>: the plan does not change the result, sorting is stable in both directions, and the rows returned are the
  projection of the first rows of the relation that satisfy the condition, in the order asked for.
\<close>

lemma rbind_fail [simp]: "rbind (fail_with e) f = fail_with e"
  by (simp add: fail_with_def)

section \<open>Sorting\<close>

lemma compare_for_sort_cmp: "compare_for_sort a b = cmp a b"
  by (cases "(a, b)" rule: compare_for_sort.cases) (auto simp: cmp_def less_sql_value_def less_eq_sql_value_def)

lemma insert_by_cmp: "insert_by (\<lambda>a b. cmp (f a) (f b)) x ys = insort_key f x ys"
  by (induction ys) (auto simp: cmp_def)

lemma sort_by_cmp: "sort_by (\<lambda>a b. cmp (f a) (f b)) xs = sort_key f xs"
  by (simp add: sort_by_def sort_key_def insert_by_cmp [abs_def])

abbreviation desc :: "('a \<Rightarrow> 'b::linorder) \<Rightarrow> 'a \<Rightarrow> 'a \<Rightarrow> ordering" where
  "desc f \<equiv> \<lambda>a b. reverse_ordering (cmp (f a) (f b))"

lemma desc_greater: "desc f a b = Greater \<longleftrightarrow> f a < f b"
  by (auto simp: cmp_def)

lemma insert_desc:
  "mset (insert_by (desc f) x ys) = add_mset x (mset ys)"
  "sorted (map f (rev ys)) \<Longrightarrow> sorted (map f (rev (insert_by (desc f) x ys)))"
  "filter (\<lambda>y. k = f y) (insert_by (desc f) x ys) = filter (\<lambda>y. k = f y) (x # ys)"
proof -
  show m: "mset (insert_by (desc f) x ys) = add_mset x (mset ys)" for ys
    by (induction ys) simp_all
  have set: "set (insert_by (desc f) x ys) = insert x (set ys)" for ys
    by (induction ys) auto
  show "sorted (map f (rev ys)) \<Longrightarrow> sorted (map f (rev (insert_by (desc f) x ys)))"
  proof (induction ys)
    case (Cons y ys)
    then show ?case by (fastforce simp: sorted_append desc_greater set simp del: insert_by.simps(1))
  qed simp
  show "filter (\<lambda>y. k = f y) (insert_by (desc f) x ys) = filter (\<lambda>y. k = f y) (x # ys)"
    by (induction ys) (auto simp: desc_greater)
qed

lemma sort_by_desc: "sort_by (desc f) xs = rev (sort_key f (rev xs))"
proof -
  have m: "mset (sort_by (desc f) xs) = mset xs" "sorted (map f (rev (sort_by (desc f) xs)))"
    unfolding sort_by_def by (induction xs) (simp_all add: insert_desc)
  have stable: "filter (\<lambda>y. k = f y) (sort_by (desc f) xs) = filter (\<lambda>y. k = f y) xs" for k
    unfolding sort_by_def by (induction xs) (auto simp: insert_desc(3))
  have "sort_key f (rev xs) = rev (sort_by (desc f) xs)"
    by (rule properties_for_sort_key) (simp_all add: m stable rev_filter [symmetric])
  then show ?thesis by simp
qed

section \<open>Rows in the order of their keys\<close>

definition in_key_order :: "schema \<Rightarrow> row set \<Rightarrow> row list \<Rightarrow> bool" where
  "in_key_order sc R rows \<longleftrightarrow> sorted_wrt (\<lambda>a b. key_of sc a < key_of sc b) rows \<and> set rows = R"

lemma table_rows_in_key_order:
  assumes "schema_ok sc" and "table_rows m sc rows"
  shows "in_key_order sc (relation m sc) (map snd rows)"
proof -
  have "map fst rows = map (key_of sc) (map snd rows)"
    using assms is_row_key [OF assms(1)] by (auto simp: table_rows_def)
  then have "sorted_wrt (<) (map (key_of sc) (map snd rows))" using assms(2) unfolding table_rows_def by metis
  then have "sorted_wrt (\<lambda>a b. key_of sc a < key_of sc b) (map snd rows)" by (simp only: sorted_wrt_map)
  with table_rows_relation(2) [OF assms] show ?thesis by (simp add: in_key_order_def)
qed

lemma in_key_order_filter: "in_key_order sc R rows \<Longrightarrow> in_key_order sc {row \<in> R. P row} (filter P rows)"
  by (auto simp: in_key_order_def intro: sorted_wrt_filter)

lemma in_key_order_unique: "in_key_order sc R a \<Longrightarrow> in_key_order sc R b \<Longrightarrow> a = b"
proof -
  assume "in_key_order sc R a" "in_key_order sc R b"
  then have s: "sorted_wrt (<) (map (key_of sc) a)" "sorted_wrt (<) (map (key_of sc) b)" "set a = R" "set b = R"
    by (simp_all add: in_key_order_def sorted_wrt_map)
  then have "map (key_of sc) a = map (key_of sc) b" by (intro strict_sorted_equal) simp_all
  moreover have "inj_on (key_of sc) R" using s(1,3) by (auto simp: strict_sorted_iff distinct_map)
  ultimately show "a = b" using s(3,4) by (metis map_inj_on sup.idem)
qed

lemma relation_row_ok: "schema_ok sc \<Longrightarrow> row \<in> relation m sc \<Longrightarrow> row_ok sc row"
  by (simp add: relation_iff is_row_def)

section \<open>The plan\<close>

text \<open>The name of the primary column finds the primary column.\<close>

lemma pk_column: "schema_ok sc \<Longrightarrow> find_column msg sc (cd_name (sc_columns sc ! pk sc)) = Inr (pk sc)"
proof -
  assume ok: "schema_ok sc"
  then have d: "distinct (map cd_name (sc_columns sc))" by (simp add: schema_ok_def validate_iff)
  then have "position (\<lambda>c. cd_name c = cd_name (sc_columns sc ! pk sc)) (sc_columns sc) = Some (pk sc)"
    using schema_ok_pk(2) [OF ok] nth_eq_iff_index_eq [OF d] by (auto simp: position_Some)
  then show ?thesis by (simp add: find_column_def column_index_def)
qed

lemma plan_select_eq:
  assumes "schema_ok sc"
  shows "plan_select sel sc = Inr \<lparr>pl_access = (case Option.bind (sel_filter sel) (\<lambda>e. primary_equality e (cd_name (sc_columns sc ! pk sc))) of
      Some v \<Rightarrow> PrimaryKey v | None \<Rightarrow> FullScan), pl_select = sel\<rparr>"
  using schema_ok_pk [OF assms] by (simp add: plan_select_def elem_at_Inr)

lemma compare_eq_types:
  assumes "check_type a ty = Inr ()" and "a \<noteq> VNull" and "b \<noteq> VNull"
  shows "compare OpEq a b = (if check_type b ty = Inr () then Inr (VBoolean (a = b))
      else fail_with (invalid_input ''sql: cannot compare different types''))"
    and "compare OpEq b a = compare OpEq a b"
  using assms by (cases a; cases b; cases ty; auto simp: compare_def cmp_def fail_with_def signed_word_eqI)+

text \<open>A condition of the form the planner recognises compares the primary value of the row with the literal.\<close>

lemma primary_equality_eval:
  assumes "schema_ok sc" and "row_ok sc row" and "primary_equality e (cd_name (sc_columns sc ! pk sc)) = Some v"
  shows "eval e row sc = compare OpEq (row ! pk sc) v \<or> eval e row sc = compare OpEq v (row ! pk sc)"
proof -
  let ?c = "cd_name (sc_columns sc ! pk sc)"
  have "e = EBinary OpEq (EColumn ?c) (ELiteral v) \<or> e = EBinary OpEq (ELiteral v) (EColumn ?c)"
    using assms(3) by (cases "(e, ?c)" rule: primary_equality.cases) (auto split: if_splits)
  moreover have "elem_at row (pk sc) = Inr (row ! pk sc)"
    using assms(2) schema_ok_pk(2) [OF assms(1)] by (simp add: elem_at_Inr row_ok_def)
  ultimately show ?thesis using pk_column [OF assms(1)] by auto
qed

lemma primary_equality_matches:
  assumes "schema_ok sc" and "is_row sc k row" and "primary_equality e (cd_name (sc_columns sc ! pk sc)) = Some v"
  shows "matches_filter (Some e) row sc =
    (if v = VNull then Inr False
     else if check_type v (cd_type (sc_columns sc ! pk sc)) = Inr () then Inr (row ! pk sc = v)
     else fail_with (invalid_input ''sql: cannot compare different types''))"
proof -
  have row: "row_ok sc row" "row ! pk sc \<noteq> VNull" using assms(1,2) by (simp_all add: is_row_iff)
  then have "check_type (row ! pk sc) (cd_type (sc_columns sc ! pk sc)) = Inr ()"
    using schema_ok_pk(2) [OF assms(1)] by (simp add: row_ok_def)
  note cmp = compare_eq_types [OF this row(2)]
  have "compare OpEq VNull x = Inr VNull" "compare OpEq x VNull = Inr VNull" for x by (simp_all add: compare_def)
  with primary_equality_eval [OF assms(1) row(1) assms(3)] cmp show ?thesis
    by (cases "v = VNull") (auto simp: matches_filter_def fail_with_def)
qed

section \<open>Finding the rows\<close>

definition sift :: "expr option \<Rightarrow> schema \<Rightarrow> row list \<Rightarrow> row list may_fail" where
  "sift c sc rows = (case c of None \<Rightarrow> Inr rows | Some e \<Rightarrow> filter_rows e sc rows)"

lemma drain_sift: "drain (case c of None \<Rightarrow> VecSource rows | Some e \<Rightarrow> FilterSource (VecSource rows) e sc) = sift c sc rows"
  by (cases c) (simp_all add: drain_vec drain_filter sift_def)

lemma sift_Inr: "sift c sc rows = Inr kept \<Longrightarrow> kept = filter (\<lambda>row. matches_filter c row sc = Inr True) rows"
  by (cases c) (auto simp: sift_def matches_filter_def dest: filter_rows_Inr)

lemma sift_no_panic: "(\<And>row. row \<in> set rows \<Longrightarrow> row_ok sc row) \<Longrightarrow> sift c sc rows \<noteq> Inl Panicked"
  using filter_rows_no_panic [of rows sc] by (cases c) (auto simp: sift_def row_ok_def)

lemma filter_rows_all: "(\<And>row. row \<in> set rows \<Longrightarrow> matches_filter (Some e) row sc = Inr (P row)) \<Longrightarrow> filter_rows e sc rows = Inr (filter P rows)"
  by (induction rows) simp_all

definition scan_plan :: "select \<Rightarrow> plan" where
  "scan_plan sel = \<lparr>pl_access = FullScan, pl_select = sel\<rparr>"

definition lookup_plan :: "sql_value \<Rightarrow> select \<Rightarrow> plan" where
  "lookup_plan v sel = \<lparr>pl_access = PrimaryKey v, pl_select = sel\<rparr>"

lemma scan_access:
  assumes "sound_state st" and "table_schema (view st) sc"
  obtains rows where "access_rows sc (scan_plan sel) st = Inr rows" "in_key_order sc (relation (view st) sc) rows"
proof -
  from assms(1) have "live st" "db_ok (view st)" by (simp_all add: sound_state_def)
  then obtain rows where "all_rows sc st = Inr rows" "table_rows (view st) sc rows"
    by (rule all_rows_view [OF _ _ assms(2)])
  with table_rows_in_key_order [OF table_schema_ok [OF assms(2)]] show ?thesis
    by (intro that [of "map snd rows"]) (simp_all add: access_rows_def scan_plan_def)
qed

lemma lookup_access:
  assumes "sound_state st" and "table_schema (view st) sc" and "value_ok v"
    and "check_type v (cd_type (sc_columns sc ! pk sc)) = Inr ()"
  obtains rows where "access_rows sc (lookup_plan v sel) st = Inr rows"
    "in_key_order sc {row \<in> relation (view st) sc. row ! pk sc = v} rows"
proof (cases "v = VNull")
  case True
  note ok = table_schema_ok [OF assms(2)]
  have "{row \<in> relation (view st) sc. row ! pk sc = v} = {}" using True by (auto simp: relation_iff [OF ok] is_row_iff [OF ok])
  with True show ?thesis by (intro that [of "[]"]) (simp_all add: access_rows_def lookup_plan_def in_key_order_def)
next
  case False
  note ok = table_schema_ok [OF assms(2)]
  let ?k = "primary_key_of sc v"
  from assms(1) have live: "live st" and db: "db_ok (view st)" by (simp_all add: sound_state_def)
  have acc: "access_rows sc (lookup_plan v sel) st = (case view st ?k of Some encoded \<Rightarrow> rbind (decode_row encoded sc) (\<lambda>row. Inr [row]) | None \<Rightarrow> Inr [])"
    using False assms(4) by (simp add: access_rows_def lookup_plan_def row_key_for_primary_eq [OF ok] sql_get_view [OF live])
  have key: "key_of sc row = ?k \<longleftrightarrow> row ! pk sc = v" if "row \<in> relation (view st) sc" for row
    using relation_row_ok [OF ok that] schema_ok_pk(2) [OF ok] assms(3)
    by (auto simp: key_of_def row_ok_def list_all_length primary_key_of_inject)
  show ?thesis
  proof (cases "view st ?k")
    case None
    have "row ! pk sc \<noteq> v" if "row \<in> relation (view st) sc" for row
      using key [OF that] that None by (auto simp: relation_iff [OF ok])
    then have "{row \<in> relation (view st) sc. row ! pk sc = v} = {}" by blast
    with None acc show ?thesis by (intro that [of "[]"]) (simp_all add: in_key_order_def)
  next
    case (Some encoded)
    with db_ok_row [OF db assms(2)] obtain row where row: "is_row sc ?k row" "encoded = encode_row row"
      using primary_key_of_row by blast
    then have rel: "row \<in> relation (view st) sc" using Some is_row_key [OF ok row(1)] by (simp add: relation_iff [OF ok])
    then have "{r \<in> relation (view st) sc. r ! pk sc = v} = {row}"
      using key relation_key_inj [OF ok _ rel] is_row_key [OF ok row(1)] by auto
    with Some acc row decode_stored [OF ok row(1)] show ?thesis
      by (intro that [of "[row]"]) (simp_all add: in_key_order_def)
  qed
qed

text \<open>An index lookup and a scan find the same rows.\<close>

lemma lookup_is_scan:
  assumes "sound_state st" and "table_schema (view st) sc" and "value_ok v"
    and "check_type v (cd_type (sc_columns sc ! pk sc)) = Inr ()"
    and "primary_equality e (cd_name (sc_columns sc ! pk sc)) = Some v"
  shows "rbind (access_rows sc (lookup_plan v sel) st) (sift (Some e) sc) = rbind (access_rows sc (scan_plan sel) st) (sift (Some e) sc)"
proof -
  note ok = table_schema_ok [OF assms(2)]
  obtain found where found: "access_rows sc (lookup_plan v sel) st = Inr found"
    "in_key_order sc {row \<in> relation (view st) sc. row ! pk sc = v} found" by (rule lookup_access [OF assms(1-4)])
  obtain rows where rows: "access_rows sc (scan_plan sel) st = Inr rows" "in_key_order sc (relation (view st) sc) rows"
    by (rule scan_access [OF assms(1,2)])
  have "matches_filter (Some e) row sc = Inr (row ! pk sc = v)" if "row \<in> relation (view st) sc" for row
  proof -
    have r: "is_row sc (key_of sc row) row" using that by (simp add: relation_iff [OF ok])
    then have "row ! pk sc \<noteq> VNull" by (simp add: is_row_iff [OF ok])
    with primary_equality_matches [OF ok r assms(5)] assms(4) show ?thesis by auto
  qed
  then have all: "filter_rows e sc xs = Inr (filter (\<lambda>row. row ! pk sc = v) xs)" if "set xs \<subseteq> relation (view st) sc" for xs
    using that by (intro filter_rows_all) auto
  have "filter_rows e sc rows = Inr (filter (\<lambda>row. row ! pk sc = v) rows)"
    "filter_rows e sc found = Inr (filter (\<lambda>row. row ! pk sc = v) found)"
    using found(2) rows(2) by (auto intro!: all simp only: in_key_order_def)
  moreover have "filter (\<lambda>row. row ! pk sc = v) found = found" using found(2) by (auto simp: in_key_order_def filter_id_conv)
  moreover have "filter (\<lambda>row. row ! pk sc = v) rows = found"
    using in_key_order_unique [OF in_key_order_filter [OF rows(2)] found(2)] .
  ultimately show ?thesis using found(1) rows(1) by (simp add: sift_def)
qed

section \<open>The result of a query\<close>

definition order_rows :: "schema \<Rightarrow> (rstring \<times> bool) option \<Rightarrow> row list \<Rightarrow> row list" where
  "order_rows sc order rows = (case order of
     None \<Rightarrow> rows
   | Some (column, ascending) \<Rightarrow> (case column_index sc column of
       None \<Rightarrow> rows
     | Some i \<Rightarrow> if ascending then sort_key (\<lambda>row. row ! i) rows else rev (sort_key (\<lambda>row. row ! i) (rev rows))))"

definition limit_rows :: "nat option \<Rightarrow> row list \<Rightarrow> row list" where
  "limit_rows limit rows = (case limit of None \<Rightarrow> rows | Some n \<Rightarrow> take n rows)"

definition selected :: "(rstring \<rightharpoonup> rstring) \<Rightarrow> select \<Rightarrow> sql_result \<Rightarrow> bool" where
  "selected m sel r \<longleftrightarrow> (\<exists>sc rows columns indexes.
     table_schema m sc \<and> sc_name sc = sel_table sel
     \<and> in_key_order sc {row \<in> relation m sc. matches_filter (sel_filter sel) row sc = Inr True} rows
     \<and> project sc (sel_projection sel) = Inr (columns, indexes)
     \<and> r = Rows columns (map (\<lambda>row. map (\<lambda>i. row ! i) indexes) (limit_rows (sel_limit sel) (order_rows sc (sel_order_by sel) rows))))"

lemma set_order_rows [simp]: "set (order_rows sc order rows) = set rows"
  by (simp add: order_rows_def split: option.split)

lemma set_limit_rows: "set (limit_rows n rows) \<subseteq> set rows"
  by (auto simp: limit_rows_def split: option.split dest: in_set_takeD)

lemma returns_sort_rows:
  assumes "\<And>row. row \<in> set rows \<Longrightarrow> row_ok sc row"
  shows "returns (sort_rows sc order rows) (\<lambda>sorted. sorted = order_rows sc order rows)"
proof (cases order)
  case (Some p)
  obtain column ascending where p: "p = (column, ascending)" by (cases p)
  show ?thesis
  proof (cases "column_index sc column")
    case (Some i)
    have i: "i < length (sc_columns sc)" using Some by (simp add: column_index_def position_Some)
    then have "\<not> (\<exists>row \<in> set rows. length row \<le> i)" using assms by (fastforce simp: row_ok_def)
    then have "\<not> (2 \<le> length rows \<and> (\<exists>row \<in> set rows. length row \<le> i))" by blast
    note no_panic = if_not_P [OF this]
    show ?thesis
      using \<open>order = Some p\<close> p Some
      by (cases ascending) (simp_all add: no_panic sort_rows_def order_rows_def find_column_def compare_for_sort_cmp sort_by_cmp sort_by_desc)
  next
    case None
    then show ?thesis using \<open>order = Some p\<close> p by (simp add: sort_rows_def find_column_def)
  qed
qed (simp add: sort_rows_def order_rows_def)

lemma returns_project:
  "returns (project sc p) (\<lambda>(columns, indexes). \<forall>i \<in> set indexes. i < length (sc_columns sc))"
proof (cases p)
  case (Columns names)
  have "returns (collect_results (find_column msg sc) names) (\<lambda>is. \<forall>i \<in> set is. i < length (sc_columns sc))" for msg
  proof (induction names)
    case (Cons n names)
    then show ?case by (auto intro!: returns_bind [OF returns_find_column] returns_bind [OF Cons])
  qed simp
  then show ?thesis unfolding project_def Columns projection.case by (rule returns_bind) simp
qed (simp add: project_def)

lemma collect_columns:
  assumes "\<And>row. row \<in> set rows \<Longrightarrow> length row = n" and "\<forall>i \<in> set indexes. i < n"
  shows "collect_results (\<lambda>row. collect_results (elem_at row) indexes) rows = Inr (map (\<lambda>row. map (\<lambda>i. row ! i) indexes) rows)"
  using assms by (intro collect_results_map) (simp add: elem_at_Inr)

text \<open>\<open>SELECT\<close> from the rows of the condition on.\<close>

definition present :: "select \<Rightarrow> schema \<Rightarrow> row list \<Rightarrow> sql_result may_fail" where
  "present sel sc materialized =
    rbind (sort_rows sc (sel_order_by sel) materialized) (\<lambda>sorted.
    let limited = (case sel_limit sel of None \<Rightarrow> sorted | Some n \<Rightarrow> take n sorted) in
    rbind (project sc (sel_projection sel)) (\<lambda>(columns, indexes).
    rbind (collect_results (\<lambda>row. collect_results (elem_at row) indexes) limited) (\<lambda>rows.
    Inr (Rows columns rows))))"

lemma select_rows_eq:
  "select_rows sel st = rbind (load_schema (fst st) (snd st) (sel_table sel)) (\<lambda>sc. rbind (plan_select sel sc) (\<lambda>p.
     rbind (rbind (access_rows sc p st) (sift (sel_filter sel) sc)) (present sel sc)))"
  by (simp add: select_rows_def present_def [abs_def] drain_sift rbind_assoc)

lemma returns_present:
  assumes "\<And>row. row \<in> set rows \<Longrightarrow> row_ok sc row"
  shows "returns (present sel sc rows) (\<lambda>r. \<exists>columns indexes. project sc (sel_projection sel) = Inr (columns, indexes)
    \<and> r = Rows columns (map (\<lambda>row. map (\<lambda>i. row ! i) indexes) (limit_rows (sel_limit sel) (order_rows sc (sel_order_by sel) rows))))"
  unfolding present_def Let_def limit_rows_def [symmetric]
proof (rule returns_bind [OF returns_sort_rows [OF assms]], assumption, rule returns_bind [OF returns_project])
  fix sorted p assume s: "sorted = order_rows sc (sel_order_by sel) rows"
    and p: "project sc (sel_projection sel) = Inr p" "case p of (columns, indexes) \<Rightarrow> \<forall>i \<in> set indexes. i < length (sc_columns sc)"
  obtain columns indexes where [simp]: "p = (columns, indexes)" by (cases p)
  have "length row = length (sc_columns sc)" if "row \<in> set (limit_rows (sel_limit sel) sorted)" for row
    using that set_limit_rows assms s by (fastforce simp: row_ok_def)
  from collect_columns [OF this] p s
  show "returns (case p of (columns, indexes) \<Rightarrow> rbind (collect_results (\<lambda>row. collect_results (elem_at row) indexes)
      (limit_rows (sel_limit sel) sorted)) (\<lambda>rows. Inr (Rows columns rows)))
    (\<lambda>r. \<exists>columns indexes. project sc (sel_projection sel) = Inr (columns, indexes)
    \<and> r = Rows columns (map (\<lambda>row. map (\<lambda>i. row ! i) indexes) (limit_rows (sel_limit sel) (order_rows sc (sel_order_by sel) rows))))"
    by simp
qed

lemma returns_find_rows:
  assumes "sound_state st" and "table_schema (view st) sc" and "pred_option (\<lambda>e. \<forall>v. primary_equality e name = Some v \<longrightarrow> value_ok v) (sel_filter sel)"
    and "name = cd_name (sc_columns sc ! pk sc)" and "plan_select sel sc = Inr p"
  shows "returns (rbind (access_rows sc p st) (sift (sel_filter sel) sc))
    (in_key_order sc {row \<in> relation (view st) sc. matches_filter (sel_filter sel) row sc = Inr True})"
proof -
  note ok = table_schema_ok [OF assms(2)]
  obtain rows where rows: "access_rows sc (scan_plan sel) st = Inr rows" "in_key_order sc (relation (view st) sc) rows"
    by (rule scan_access [OF assms(1,2)])
  have no_panic: "sift (sel_filter sel) sc rows \<noteq> Inl Panicked"
    using rows(2) relation_row_ok [OF ok] by (intro sift_no_panic) (auto simp: in_key_order_def)
  have scan: "returns (rbind (access_rows sc (scan_plan sel) st) (sift (sel_filter sel) sc))
    (in_key_order sc {row \<in> relation (view st) sc. matches_filter (sel_filter sel) row sc = Inr True})"
    using rows no_panic in_key_order_filter [OF rows(2)] sift_Inr by (fastforce simp: returns_iff)
  show ?thesis
  proof (cases "Option.bind (sel_filter sel) (\<lambda>e. primary_equality e name)")
    case None
    then have "p = scan_plan sel" using assms(4,5) plan_select_eq [OF ok] by (simp add: scan_plan_def)
    with scan show ?thesis by simp
  next
    case (Some v)
    then obtain e where e: "sel_filter sel = Some e" "primary_equality e name = Some v" by (auto simp: bind_eq_Some_conv)
    with assms(3) have v: "value_ok v" by simp
    have p: "p = lookup_plan v sel" using Some assms(4,5) plan_select_eq [OF ok] by (simp add: lookup_plan_def)
    show ?thesis
    proof (cases "check_type v (cd_type (sc_columns sc ! pk sc)) = Inr ()")
      case True
      from lookup_is_scan [OF assms(1,2) v True] e assms(4) scan show ?thesis unfolding p by auto
    next
      case False
      then have v: "v \<noteq> VNull" by auto
      obtain err where "check_type v (cd_type (sc_columns sc ! pk sc)) = fail_with err"
        by (rule check_type_cases [of v "cd_type (sc_columns sc ! pk sc)"]) (use False in auto)
      with v have "row_key_for_primary sc v = fail_with err" by (simp add: row_key_for_primary_eq [OF ok])
      with v show ?thesis unfolding p by (simp add: access_rows_def lookup_plan_def)
    qed
  qed
qed

lemma runs_select:
  assumes "sound_state st" and "pred_option (\<lambda>e. \<forall>name v. primary_equality e name = Some v \<longrightarrow> value_ok v) (sel_filter sel)"
  shows "runs st (reading (select_rows sel)) (\<lambda>r st'. st' = st \<and> selected (view st) sel r)"
proof (rule runs_reading [OF assms(1)])
  have "live st" "db_ok (view st)" using assms(1) by (simp_all add: sound_state_def)
  then show "returns (select_rows sel st) (\<lambda>r. st = st \<and> selected (view st) sel r)"
  proof (rule load_schema_view [of st "sel_table sel"])
    fix sc assume load: "load_schema (fst st) (snd st) (sel_table sel) = Inr sc"
      and sc: "table_schema (view st) sc" "sc_name sc = sel_table sel"
    note ok = table_schema_ok [OF sc(1)]
    obtain p where p: "plan_select sel sc = Inr p" using plan_select_eq [OF ok] by blast
    have "returns (rbind (access_rows sc p st) (sift (sel_filter sel) sc))
      (in_key_order sc {row \<in> relation (view st) sc. matches_filter (sel_filter sel) row sc = Inr True})"
      by (rule returns_find_rows [OF assms(1) sc(1) _ refl p]) (use assms(2) in \<open>cases "sel_filter sel"; auto\<close>)
    then have "returns (rbind (rbind (access_rows sc p st) (sift (sel_filter sel) sc)) (present sel sc)) (selected (view st) sel)"
    proof (rule returns_bind)
      fix rows assume rows: "in_key_order sc {row \<in> relation (view st) sc. matches_filter (sel_filter sel) row sc = Inr True} rows"
      then have "row_ok sc row" if "row \<in> set rows" for row
        using that relation_row_ok [OF ok] by (auto simp: in_key_order_def)
      from returns_present [OF this] show "returns (present sel sc rows) (selected (view st) sel)"
        by (rule returns_mono) (use rows sc in \<open>auto simp: selected_def\<close>)
    qed
    then show ?thesis by (simp add: select_rows_eq load p)
  qed (simp add: select_rows_eq)
qed

lemma runs_explain:
  assumes "sound_state st"
  shows "runs st (reading (sql_explain sel)) (\<lambda>r st'. st' = st \<and> (\<exists>sc p. table_schema (view st) sc \<and> sc_name sc = sel_table sel
    \<and> plan_select sel sc = Inr p \<and> r = Explained (plan_to_string p)))"
proof (rule runs_reading [OF assms(1)])
  have "live st" "db_ok (view st)" using assms(1) by (simp_all add: sound_state_def)
  then show "returns (sql_explain sel st) (\<lambda>r. st = st \<and> (\<exists>sc p. table_schema (view st) sc \<and> sc_name sc = sel_table sel
    \<and> plan_select sel sc = Inr p \<and> r = Explained (plan_to_string p)))"
    by (rule load_schema_view [of st "sel_table sel"])
       (auto simp: sql_explain_def case_prod_unfold plan_select_eq [OF table_schema_ok])
qed

end
