(* ===== verification/Sql_Print.thy ===== *)
theory Sql_Print
  imports Sql_Parser
begin

text \<open>
  A printer for statements and the proof that the parser inverts it: the printer puts parentheses only where the
  precedence of \<open>OR\<close>, \<open>AND\<close> and the comparisons requires them, so the round trip fixes how the parser groups operators.
\<close>

section \<open>The printer\<close>

abbreviation kw :: "string \<Rightarrow> token_kind" where
  "kw w \<equiv> TWord (ascii w)"

fun literal_kind :: "sql_value \<Rightarrow> token_kind" where
  "literal_kind VNull = kw ''NULL''"
| "literal_kind (VInteger i) = TInteger i"
| "literal_kind (VText s) = TString s"
| "literal_kind (VBoolean b) = (if b then kw ''TRUE'' else kw ''FALSE'')"

fun op_kind :: "binary_op \<Rightarrow> token_kind" where
  "op_kind OpEq = TEq"
| "op_kind OpNe = TNe"
| "op_kind OpLt = TLt"
| "op_kind OpLe = TLe"
| "op_kind OpGt = TGt"
| "op_kind OpGe = TGe"
| "op_kind OpAnd = kw ''AND''"
| "op_kind OpOr = kw ''OR''"

definition precedence :: "binary_op \<Rightarrow> nat" where
  "precedence oper = (if oper = OpOr then 0 else if oper = OpAnd then 1 else 2)"

text \<open>\<open>OR\<close> and \<open>AND\<close> associate to the left, comparisons do not associate.\<close>

definition left_level :: "binary_op \<Rightarrow> nat" where
  "left_level oper = (if oper = OpOr then 0 else if oper = OpAnd then 1 else 3)"

fun show_expr :: "nat \<Rightarrow> expr \<Rightarrow> token_kind list" where
  "show_expr level (EColumn c) = [TWord c]"
| "show_expr level (ELiteral v) = [literal_kind v]"
| "show_expr level (EBinary oper l r) =
    (let body = show_expr (left_level oper) l @ op_kind oper # show_expr (Suc (precedence oper)) r
     in if level \<le> precedence oper then body else TLeftParen # body @ [TRightParen])"

fun commas :: "token_kind list list \<Rightarrow> token_kind list" where
  "commas [] = []"
| "commas [x] = x"
| "commas (x # xs) = x @ TComma # commas xs"

fun type_kind :: "data_type \<Rightarrow> token_kind" where
  "type_kind TypeInteger = kw ''INTEGER''"
| "type_kind TypeText = kw ''TEXT''"
| "type_kind TypeBoolean = kw ''BOOLEAN''"

definition show_column :: "column_def \<Rightarrow> token_kind list" where
  "show_column c = [TWord (cd_name c), type_kind (cd_type c)] @ (if cd_primary c then [kw ''PRIMARY'', kw ''KEY''] else [])"

definition show_filter :: "expr option \<Rightarrow> token_kind list" where
  "show_filter f = (case f of None \<Rightarrow> [] | Some e \<Rightarrow> kw ''WHERE'' # show_expr 0 e)"

definition show_order :: "(rstring \<times> bool) option \<Rightarrow> token_kind list" where
  "show_order ord = (case ord of None \<Rightarrow> []
     | Some (c, asc) \<Rightarrow> [kw ''ORDER'', kw ''BY'', TWord c, if asc then kw ''ASC'' else kw ''DESC''])"

definition show_limit :: "nat option \<Rightarrow> token_kind list" where
  "show_limit l = (case l of None \<Rightarrow> [] | Some n \<Rightarrow> [kw ''LIMIT'', TInteger (of_nat n)])"

fun show_projection :: "projection \<Rightarrow> token_kind list" where
  "show_projection AllColumns = [TStar]"
| "show_projection (Columns cs) = commas (map (\<lambda>c. [TWord c]) cs)"

definition show_select :: "select \<Rightarrow> token_kind list" where
  "show_select s = show_projection (sel_projection s) @ [kw ''FROM'', TWord (sel_table s)]
     @ show_filter (sel_filter s) @ show_order (sel_order_by s) @ show_limit (sel_limit s)"

fun show_statement :: "sql_statement \<Rightarrow> token_kind list" where
  "show_statement (SCreateTable t cs) = [kw ''CREATE'', kw ''TABLE'', TWord t, TLeftParen] @ commas (map show_column cs) @ [TRightParen]"
| "show_statement (SInsert t cs vs) = [kw ''INSERT'', kw ''INTO'', TWord t, TLeftParen] @ commas (map (\<lambda>c. [TWord c]) cs)
     @ [TRightParen, kw ''VALUES'', TLeftParen] @ commas (map (\<lambda>v. [literal_kind v]) vs) @ [TRightParen]"
| "show_statement (SSelect s) = kw ''SELECT'' # show_select s"
| "show_statement (SUpdate t as f) = [kw ''UPDATE'', TWord t, kw ''SET''] @ commas (map (\<lambda>(c, v). [TWord c, TEq, literal_kind v]) as) @ show_filter f"
| "show_statement (SDelete t f) = [kw ''DELETE'', kw ''FROM'', TWord t] @ show_filter f"
| "show_statement SBegin = [kw ''BEGIN'']"
| "show_statement SCommit = [kw ''COMMIT'']"
| "show_statement SRollback = [kw ''ROLLBACK'']"
| "show_statement (SExplain s) = [kw ''EXPLAIN'', kw ''SELECT''] @ show_select s"

definition print_script :: "sql_statement list \<Rightarrow> rstring" where
  "print_script sts = render (concat (map (\<lambda>st. show_statement st @ [TSemicolon]) sts))"

section \<open>What can be printed\<close>

fun expr_ok :: "expr \<Rightarrow> bool" where
  "expr_ok (EColumn c) \<longleftrightarrow> word_ok c \<and> \<not> literal_word c"
| "expr_ok (ELiteral v) \<longleftrightarrow> value_ok v"
| "expr_ok (EBinary oper l r) \<longleftrightarrow> expr_ok l \<and> expr_ok r"

definition filter_ok :: "expr option \<Rightarrow> bool" where
  "filter_ok f \<longleftrightarrow> (case f of None \<Rightarrow> True | Some e \<Rightarrow> expr_ok e)"

definition select_ok :: "select \<Rightarrow> bool" where
  "select_ok s \<longleftrightarrow> word_ok (sel_table s) \<and> filter_ok (sel_filter s)
    \<and> (case sel_projection s of AllColumns \<Rightarrow> True | Columns cs \<Rightarrow> cs \<noteq> [] \<and> list_all word_ok cs)
    \<and> (case sel_order_by s of None \<Rightarrow> True | Some (c, _) \<Rightarrow> word_ok c)
    \<and> (case sel_limit s of None \<Rightarrow> True | Some n \<Rightarrow> n < 2 ^ 63)"

fun statement_ok :: "sql_statement \<Rightarrow> bool" where
  "statement_ok (SCreateTable t cs) \<longleftrightarrow> word_ok t \<and> cs \<noteq> [] \<and> list_all (\<lambda>c. word_ok (cd_name c)) cs"
| "statement_ok (SInsert t cs vs) \<longleftrightarrow> word_ok t \<and> cs \<noteq> [] \<and> list_all word_ok cs \<and> vs \<noteq> [] \<and> list_all value_ok vs"
| "statement_ok (SSelect s) \<longleftrightarrow> select_ok s"
| "statement_ok (SUpdate t as f) \<longleftrightarrow> word_ok t \<and> as \<noteq> [] \<and> list_all (\<lambda>(c, v). word_ok c \<and> value_ok v) as \<and> filter_ok f"
| "statement_ok (SDelete t f) \<longleftrightarrow> word_ok t \<and> filter_ok f"
| "statement_ok (SExplain s) \<longleftrightarrow> select_ok s"
| "statement_ok _ \<longleftrightarrow> True"

section \<open>Parsing what was printed\<close>

definition parses :: "'a parse_result \<Rightarrow> 'a \<Rightarrow> token_kind list \<Rightarrow> bool" where
  "parses m x ks \<longleftrightarrow> (\<exists>r. m = Inr (x, r) \<and> map tk_kind r = ks)"

lemma parsesI: "m = Inr (x, r) \<Longrightarrow> map tk_kind r = ks \<Longrightarrow> parses m x ks"
  by (auto simp: parses_def)

lemma parses_bind:
  assumes "parses m x ks" and "\<And>r. map tk_kind r = ks \<Longrightarrow> parses (g x r) y ks'"
  shows "parses (rbind m (\<lambda>(x, r). g x r)) y ks'"
  using assms by (auto simp: parses_def)

lemma parses_Inr: "map tk_kind r = ks \<Longrightarrow> parses (Inr (x, r)) x ks"
  by (auto simp: parses_def)

text \<open>The first token and the others.\<close>

lemma kinds_Cons:
  assumes "map tk_kind ts = k # ks"
  obtains t r where "ts = t # r" and "tk_kind t = k" and "map tk_kind r = ks"
  using assms by (cases ts) auto

lemma parses_identifier: "map tk_kind ts = TWord w # ks \<Longrightarrow> parses (sql_identifier ts) w ks"
  by (elim kinds_Cons) (simp add: parses_def sql_identifier_def parse_word_def advance_def)

lemma parses_literal: "map tk_kind ts = literal_kind v # ks \<Longrightarrow> parses (literal ts) v ks"
  by (elim kinds_Cons) (cases v; simp add: parses_def literal_def advance_def ascii_def split: if_splits)

lemma parses_consume: "map tk_kind ts = k # ks \<Longrightarrow> parses (consume_simple k ts) True ks"
  by (elim kinds_Cons) (simp add: parses_def consume_simple_def peek_def)

lemma parses_skip: "map tk_kind ts = ks \<Longrightarrow> ks \<noteq> [] \<Longrightarrow> hd ks \<noteq> k \<Longrightarrow> parses (consume_simple k ts) False ks"
  by (cases ts) (auto simp: parses_def consume_simple_def peek_def)

lemmas parses_consume_word = parses_consume [where k = "TWord (ascii w)" for w, folded consume_word_simple]
lemmas parses_skip_word = parses_skip [where k = "TWord (ascii w)" for w, folded consume_word_simple]

lemma parses_expect: "map tk_kind ts = k # ks \<Longrightarrow> parses (expect_simple k d ts) () ks"
  by (elim kinds_Cons) (simp add: parses_def expect_simple_def consume_simple_def peek_def)

lemma parses_expect_word: "map tk_kind ts = kw w # ks \<Longrightarrow> parses (expect_word w ts) () ks"
  by (elim kinds_Cons) (simp add: parses_def expect_word_def consume_word_simple consume_simple_def peek_def)

section \<open>Expressions\<close>

lemma and_loop_fuel:
  "sound_below n nested \<Longrightarrow> length ts \<le> n \<Longrightarrow> length ts \<le> k \<Longrightarrow> length ts \<le> k' \<Longrightarrow> ts \<noteq> [] \<Longrightarrow>
    and_loop k nested e ts = and_loop k' nested e ts"
proof (induction k arbitrary: k' e ts)
  case (Suc k)
  obtain j where k': "k' = Suc j" using Suc.prems(4,5) by (cases k') auto
  obtain t r where ts: "ts = t # r" using Suc.prems(5) by (cases ts) auto
  have "and_loop k nested (EBinary OpAnd e x) u = and_loop j nested (EBinary OpAnd e x) u" if "comparison nested r = Inr (x, u)" for x u
  proof (cases "u = []")
    case False
    have "sound 1 r (comparison nested r)" using sound_comparison [OF Suc.prems(1)] Suc.prems(2) ts by simp
    then have "length u < length r" using that by (fastforce simp: sound_def)
    then show ?thesis using Suc.IH [OF Suc.prems(1) _ _ _ False] Suc.prems(2-4) ts k' by simp
  next
    case True
    then show ?thesis by (cases k; cases j) (simp_all add: consume_word_simple consume_simple_def peek_def)
  qed
  then show ?case
    by (cases "comparison nested r") (auto simp: k' ts consume_word_simple consume_simple_def peek_def)
qed simp

lemma or_loop_fuel:
  "sound_below n nested \<Longrightarrow> length ts \<le> n \<Longrightarrow> length ts \<le> k \<Longrightarrow> length ts \<le> k' \<Longrightarrow> ts \<noteq> [] \<Longrightarrow>
    or_loop k nested e ts = or_loop k' nested e ts"
proof (induction k arbitrary: k' e ts)
  case (Suc k)
  obtain j where k': "k' = Suc j" using Suc.prems(4,5) by (cases k') auto
  obtain t r where ts: "ts = t # r" using Suc.prems(5) by (cases ts) auto
  have "or_loop k nested (EBinary OpOr e x) u = or_loop j nested (EBinary OpOr e x) u" if "and_expr nested r = Inr (x, u)" for x u
  proof (cases "u = []")
    case False
    have "sound 1 r (and_expr nested r)" using sound_and_expr [OF Suc.prems(1)] Suc.prems(2) ts by simp
    then have "length u < length r" using that by (fastforce simp: sound_def)
    then show ?thesis using Suc.IH [OF Suc.prems(1) _ _ _ False] Suc.prems(2-4) ts k' by simp
  next
    case True
    then show ?thesis by (cases k; cases j) (simp_all add: consume_word_simple consume_simple_def peek_def)
  qed
  then show ?case
    by (cases "and_expr nested r") (auto simp: k' ts consume_word_simple consume_simple_def peek_def)
qed simp

text \<open>Which tokens may follow an expression at the four levels.\<close>

definition ends_comparison :: "token_kind list \<Rightarrow> bool" where
  "ends_comparison ks \<longleftrightarrow> ks \<noteq> [] \<and> comparison_op (hd ks) = None"

definition ends_and :: "token_kind list \<Rightarrow> bool" where
  "ends_and ks \<longleftrightarrow> ends_comparison ks \<and> hd ks \<noteq> kw ''AND''"

definition ends_or :: "token_kind list \<Rightarrow> bool" where
  "ends_or ks \<longleftrightarrow> ends_and ks \<and> hd ks \<noteq> kw ''OR''"

definition okA :: "expr \<Rightarrow> bool" where
  "okA e \<longleftrightarrow> (\<forall>n ts ks. map tk_kind ts = show_expr 3 e @ ks \<longrightarrow> length ts \<le> Suc n \<longrightarrow> ks \<noteq> [] \<longrightarrow> parses (primary (expr_at n) ts) e ks)"

definition okB :: "expr \<Rightarrow> bool" where
  "okB e \<longleftrightarrow> (\<forall>n ts ks. map tk_kind ts = show_expr 2 e @ ks \<longrightarrow> length ts \<le> Suc n \<longrightarrow> ends_comparison ks \<longrightarrow>
    parses (comparison (expr_at n) ts) e ks)"

definition okC :: "expr \<Rightarrow> bool" where
  "okC e \<longleftrightarrow> (\<forall>n ts ks. map tk_kind ts = show_expr 1 e @ ks \<longrightarrow> length ts \<le> Suc n \<longrightarrow> ends_comparison ks \<longrightarrow>
    (\<exists>r. map tk_kind r = ks \<and> length r \<le> length ts \<and> and_expr (expr_at n) ts = and_loop (length r) (expr_at n) e r))"

definition okD :: "expr \<Rightarrow> bool" where
  "okD e \<longleftrightarrow> (\<forall>n ts ks. map tk_kind ts = show_expr 0 e @ ks \<longrightarrow> length ts \<le> Suc n \<longrightarrow> ends_and ks \<longrightarrow>
    (\<exists>r. map tk_kind r = ks \<and> length r \<le> length ts \<and> or_expr (expr_at n) ts = or_loop (length r) (expr_at n) e r))"

lemma and_loop_stop: "map tk_kind r = ks \<Longrightarrow> ends_and ks \<Longrightarrow> and_loop (length r) nested e r = Inr (e, r)"
  by (cases r) (auto simp: ends_and_def ends_comparison_def consume_word_simple consume_simple_def peek_def)

lemma or_loop_stop: "map tk_kind r = ks \<Longrightarrow> ends_or ks \<Longrightarrow> or_loop (length r) nested e r = Inr (e, r)"
  by (cases r) (auto simp: ends_or_def ends_and_def ends_comparison_def consume_word_simple consume_simple_def peek_def)

lemma okA_atom:
  assumes "expr_ok e" and "\<And>oper l r. e \<noteq> EBinary oper l r"
  shows "okA e"
  unfolding okA_def
proof (intro allI impI)
  fix n ks and ts :: "token list"
  assume k: "map tk_kind ts = show_expr 3 e @ ks"
  show "parses (primary (expr_at n) ts) e ks"
  proof (cases e)
    case (EColumn c)
    obtain t r where t: "ts = t # r" "tk_kind t = TWord c" "map tk_kind r = ks" using k by (auto simp: EColumn elim: kinds_Cons)
    have "parses (sql_identifier ts) c ks" by (rule parses_identifier) (simp add: t)
    then show ?thesis using t assms(1) by (auto simp: EColumn primary_def consume_simple_def peek_def parses_def)
  next
    case (ELiteral v)
    obtain t r where t: "ts = t # r" "tk_kind t = literal_kind v" "map tk_kind r = ks" using k by (auto simp: ELiteral elim: kinds_Cons)
    have "parses (literal ts) v ks" by (rule parses_literal) (simp add: t)
    then show ?thesis using t by (cases v) (auto simp: ELiteral primary_def consume_simple_def peek_def parses_def literal_word_def split: if_splits)
  qed (use assms(2) in blast)
qed

lemma okA_paren:
  assumes e: "e = EBinary oper l r" and d: "okD e"
  shows "okA e"
  unfolding okA_def
proof (intro allI impI)
  fix n ks and ts :: "token list"
  assume k: "map tk_kind ts = show_expr 3 e @ ks" and n: "length ts \<le> Suc n"
  have "show_expr 3 e = TLeftParen # show_expr 0 e @ [TRightParen]" by (simp add: e Let_def precedence_def)
  with k obtain t u where t: "ts = t # u" "tk_kind t = TLeftParen" "map tk_kind u = show_expr 0 e @ TRightParen # ks" by (auto elim: kinds_Cons)
  obtain m where m: "n = Suc m" using n t by (cases n; cases u) auto
  have f: "ends_and (TRightParen # ks)" by (simp add: ends_and_def ends_comparison_def)
  have lu: "length u \<le> Suc m" using n by (simp add: t(1) m)
  from d [unfolded okD_def, rule_format, OF t(3) lu f] obtain v where
    v: "map tk_kind v = TRightParen # ks" "or_expr (expr_at m) u = or_loop (length v) (expr_at m) e v" by metis
  have "ends_or (TRightParen # ks)" by (simp add: ends_or_def ends_and_def ends_comparison_def)
  from or_loop_stop [OF v(1) this] v(2) have "expr_at n u = Inr (e, v)" by (simp add: m)
  with parses_expect [OF v(1), of "quoted '')''"] t show "parses (primary (expr_at n) ts) e ks"
    by (auto simp: primary_def consume_simple_def peek_def parses_def)
qed

lemma okB_primary:
  assumes "okA e" and "show_expr 2 e = show_expr 3 e"
  shows "okB e"
  unfolding okB_def
proof (intro allI impI)
  fix n ks and ts :: "token list"
  assume k: "map tk_kind ts = show_expr 2 e @ ks" and n: "length ts \<le> Suc n" and f: "ends_comparison ks"
  then have "parses (primary (expr_at n) ts) e ks" using assms by (auto simp: okA_def ends_comparison_def)
  then obtain r where r: "primary (expr_at n) ts = Inr (e, r)" "map tk_kind r = ks" by (auto simp: parses_def)
  then show "parses (comparison (expr_at n) ts) e ks" using f by (cases r) (auto simp: comparison_def peek_def ends_comparison_def parses_def)
qed

lemma okB_comparison:
  assumes e: "e = EBinary oper l r" and oper: "oper \<noteq> OpAnd" "oper \<noteq> OpOr" and l: "okA l" and r: "okA r"
  shows "okB e"
  unfolding okB_def
proof (intro allI impI)
  fix n ks and ts :: "token list"
  assume k: "map tk_kind ts = show_expr 2 e @ ks" and n: "length ts \<le> Suc n" and f: "ends_comparison ks"
  have s: "show_expr 2 e = show_expr 3 l @ op_kind oper # show_expr 3 r"
    using oper by (simp add: e Let_def precedence_def left_level_def numeral_3_eq_3)
  have "parses (primary (expr_at n) ts) l (op_kind oper # show_expr 3 r @ ks)" using l k n s by (auto simp: okA_def)
  then obtain u where u: "primary (expr_at n) ts = Inr (l, u)" "map tk_kind u = op_kind oper # show_expr 3 r @ ks" by (auto simp: parses_def)
  obtain t v where t: "u = t # v" "tk_kind t = op_kind oper" "map tk_kind v = show_expr 3 r @ ks" using u(2) by (auto elim: kinds_Cons)
  have "length v \<le> length ts" using arg_cong [OF k, of length] arg_cong [OF t(3), of length] s by simp
  then have "parses (primary (expr_at n) v) r ks" using r t(3) n f by (auto simp: okA_def ends_comparison_def)
  moreover have "comparison_op (op_kind oper) = Some oper" using oper by (cases oper) auto
  ultimately show "parses (comparison (expr_at n) ts) e ks" using u(1) t by (auto simp: comparison_def peek_def parses_def e)
qed

lemma okC_comparison:
  assumes "okB e" and "show_expr 1 e = show_expr 2 e"
  shows "okC e"
  unfolding okC_def
proof (intro allI impI)
  fix n ks and ts :: "token list"
  assume k: "map tk_kind ts = show_expr 1 e @ ks" and n: "length ts \<le> Suc n" and f: "ends_comparison ks"
  then have "parses (comparison (expr_at n) ts) e ks" using assms by (auto simp: okB_def)
  then obtain r where r: "comparison (expr_at n) ts = Inr (e, r)" "map tk_kind r = ks" by (auto simp: parses_def)
  have "length r \<le> length ts" using arg_cong [OF k, of length] arg_cong [OF r(2), of length] by simp
  with r show "\<exists>r. map tk_kind r = ks \<and> length r \<le> length ts \<and> and_expr (expr_at n) ts = and_loop (length r) (expr_at n) e r"
    by (auto simp: and_expr_def)
qed

lemma okC_and:
  assumes e: "e = EBinary OpAnd l r" and l: "okC l" and r: "okB r"
  shows "okC e"
  unfolding okC_def
proof (intro allI impI)
  fix n ks and ts :: "token list"
  assume k: "map tk_kind ts = show_expr 1 e @ ks" and n: "length ts \<le> Suc n" and f: "ends_comparison ks"
  have s: "show_expr 1 e = show_expr 1 l @ kw ''AND'' # show_expr 2 r" by (simp add: e Let_def precedence_def left_level_def numeral_2_eq_2)
  have "ends_comparison (kw ''AND'' # show_expr 2 r @ ks)" by (simp add: ends_comparison_def)
  then obtain u where u: "map tk_kind u = kw ''AND'' # show_expr 2 r @ ks" "length u \<le> length ts"
    "and_expr (expr_at n) ts = and_loop (length u) (expr_at n) l u" using l k n s unfolding okC_def by (metis append.assoc append_Cons)
  obtain t v where t: "u = t # v" "tk_kind t = kw ''AND''" "map tk_kind v = show_expr 2 r @ ks" using u(1) by (auto elim: kinds_Cons)
  have "parses (comparison (expr_at n) v) r ks" using r t(3) f n u(2) by (auto simp: okB_def t(1))
  then obtain w where w: "comparison (expr_at n) v = Inr (r, w)" "map tk_kind w = ks" by (auto simp: parses_def)
  have "length w \<le> length v" using arg_cong [OF t(3), of length] arg_cong [OF w(2), of length] by simp
  moreover have "w \<noteq> []" using w(2) f by (auto simp: ends_comparison_def)
  moreover have "and_expr (expr_at n) ts = and_loop (length v) (expr_at n) e w"
    using u(3) w(1) by (simp add: t e consume_word_simple consume_simple_def peek_def)
  ultimately show "\<exists>r. map tk_kind r = ks \<and> length r \<le> length ts \<and> and_expr (expr_at n) ts = and_loop (length r) (expr_at n) e r"
    using and_loop_fuel [OF sound_expr_at, of w n "length v" "length w" e] w(2) n u(2) t(1) by (intro exI [of _ w]) auto
qed

lemma okD_and:
  assumes "okC e" and "show_expr 0 e = show_expr 1 e"
  shows "okD e"
  unfolding okD_def
proof (intro allI impI)
  fix n ks and ts :: "token list"
  assume k: "map tk_kind ts = show_expr 0 e @ ks" and n: "length ts \<le> Suc n" and f: "ends_and ks"
  then obtain r where r: "map tk_kind r = ks" "length r \<le> length ts" "and_expr (expr_at n) ts = and_loop (length r) (expr_at n) e r"
    using assms unfolding okC_def ends_and_def by metis
  with and_loop_stop [OF r(1) f] show "\<exists>r. map tk_kind r = ks \<and> length r \<le> length ts \<and> or_expr (expr_at n) ts = or_loop (length r) (expr_at n) e r"
    by (auto simp: or_expr_def)
qed

lemma okD_or:
  assumes e: "e = EBinary OpOr l r" and l: "okD l" and r: "okC r"
  shows "okD e"
  unfolding okD_def
proof (intro allI impI)
  fix n ks and ts :: "token list"
  assume k: "map tk_kind ts = show_expr 0 e @ ks" and n: "length ts \<le> Suc n" and f: "ends_and ks"
  have s: "show_expr 0 e = show_expr 0 l @ kw ''OR'' # show_expr 1 r" by (simp add: e Let_def precedence_def left_level_def)
  have "ends_and (kw ''OR'' # show_expr 1 r @ ks)" by (simp add: ends_and_def ends_comparison_def ascii_def)
  then obtain u where u: "map tk_kind u = kw ''OR'' # show_expr 1 r @ ks" "length u \<le> length ts"
    "or_expr (expr_at n) ts = or_loop (length u) (expr_at n) l u" using l k n s unfolding okD_def by (metis append.assoc append_Cons)
  obtain t v where t: "u = t # v" "tk_kind t = kw ''OR''" "map tk_kind v = show_expr 1 r @ ks" using u(1) by (auto elim: kinds_Cons)
  have "length v \<le> Suc n" using n u(2) t(1) by simp
  then obtain w where w: "map tk_kind w = ks" "length w \<le> length v" "and_expr (expr_at n) v = and_loop (length w) (expr_at n) r w"
    using r t(3) f unfolding okC_def ends_and_def by metis
  have "and_expr (expr_at n) v = Inr (r, w)" using w(3) and_loop_stop [OF w(1) f] by simp
  then have "or_expr (expr_at n) ts = or_loop (length v) (expr_at n) e w"
    using u(3) by (simp add: t e consume_word_simple consume_simple_def peek_def)
  moreover have "w \<noteq> []" using w(1) f by (auto simp: ends_and_def ends_comparison_def)
  ultimately show "\<exists>r. map tk_kind r = ks \<and> length r \<le> length ts \<and> or_expr (expr_at n) ts = or_loop (length r) (expr_at n) e r"
    using or_loop_fuel [OF sound_expr_at, of w n "length v" "length w" e] w(1,2) n u(2) t(1) by (intro exI [of _ w]) auto
qed

lemma expr_levels: "expr_ok e \<Longrightarrow> okA e \<and> okB e \<and> okC e \<and> okD e"
proof (induction e)
  case (EBinary oper l r)
  then have IH: "okA l" "okB l" "okC l" "okD l" "okA r" "okB r" "okC r" by auto
  let ?e = "EBinary oper l r"
  have s: "precedence oper < 2 \<Longrightarrow> show_expr 2 ?e = show_expr 3 ?e" "precedence oper \<noteq> 1 \<Longrightarrow> show_expr 1 ?e = show_expr 2 ?e"
    "precedence oper \<noteq> 0 \<Longrightarrow> show_expr 0 ?e = show_expr 1 ?e" by (auto simp: Let_def precedence_def)
  consider "oper = OpOr" | "oper = OpAnd" | "oper \<noteq> OpOr" "oper \<noteq> OpAnd" by blast
  then show ?case
  proof cases
    case 1
    then have p: "precedence oper = 0" by (simp add: precedence_def)
    have d: "okD ?e" using okD_or [OF _ IH(4,7)] 1 by blast
    note a = okA_paren [OF refl d]
    note b = okB_primary [OF a s(1)]
    from okC_comparison [OF b s(2)] a b d p show ?thesis by simp
  next
    case 2
    then have p: "precedence oper = 1" by (simp add: precedence_def)
    have c: "okC ?e" using okC_and [OF _ IH(3,6)] 2 by blast
    note d = okD_and [OF c s(3)]
    note a = okA_paren [OF refl d]
    from okB_primary [OF a s(1)] a c d p show ?thesis by simp
  next
    case 3
    then have p: "precedence oper = 2" by (simp add: precedence_def)
    have b: "okB ?e" using okB_comparison [OF refl 3(2,1) IH(1,5)] .
    note c = okC_comparison [OF b s(2)]
    note d = okD_and [OF c s(3)]
    from okA_paren [OF refl d] b c d p show ?thesis by simp
  qed
qed (use okA_atom okB_primary okC_comparison okD_and in auto)

lemma parses_expr:
  assumes "expr_ok e" and k: "map tk_kind ts = show_expr 0 e @ ks" and f: "ends_or ks"
  shows "parses (parse_expr ts) e ks"
proof -
  have d: "okD e" using expr_levels [OF assms(1)] by simp
  have "ts \<noteq> []" using k f by (auto simp: ends_or_def ends_and_def ends_comparison_def)
  then obtain m where m: "length ts = Suc m" by (cases ts) auto
  obtain r where r: "map tk_kind r = ks" "or_expr (expr_at m) ts = or_loop (length r) (expr_at m) e r"
    using d k f m unfolding okD_def ends_or_def by (metis order_refl)
  with or_loop_stop [OF r(1) f] show ?thesis by (auto simp: parse_expr_def m parses_def)
qed

section \<open>Clauses and lists\<close>

text \<open>What may follow a clause: a keyword that starts a later one, or the end of the statement.\<close>

definition ends_clause :: "string list \<Rightarrow> token_kind list \<Rightarrow> bool" where
  "ends_clause ws ks \<longleftrightarrow> ks \<noteq> [] \<and> hd ks \<in> {TSemicolon, TEnd} \<union> kw ` set ws"

lemma parses_where:
  assumes "filter_ok f" and k: "map tk_kind ts = show_filter f @ ks" and e: "ends_clause [''ORDER'', ''LIMIT''] ks"
  shows "parses (where_clause ts) f ks"
proof (cases f)
  case None
  have "hd ks \<noteq> kw ''WHERE''" "ks \<noteq> []" using e by (auto simp: ends_clause_def ascii_def)
  then show ?thesis unfolding where_clause_def using k
    by (intro parses_bind [OF parses_skip_word]) (auto simp: None show_filter_def intro: parses_Inr)
next
  case (Some x)
  have o: "ends_or ks" using e by (auto simp: ends_clause_def ends_or_def ends_and_def ends_comparison_def ascii_def)
  have x: "expr_ok x" using assms(1) by (simp add: filter_ok_def Some)
  have "parses (rbind (parse_expr r) (\<lambda>(e, ts). Inr (Some e, ts))) f ks" if "map tk_kind r = show_expr 0 x @ ks" for r
    by (rule parses_bind [OF parses_expr [OF x that o]]) (simp add: Some parses_Inr)
  then show ?thesis unfolding where_clause_def using k
    by (intro parses_bind [OF parses_consume_word]) (auto simp: Some show_filter_def)
qed

lemma parses_order:
  assumes k: "map tk_kind ts = show_order ord @ ks" and e: "ends_clause [''LIMIT''] ks"
  shows "parses (order_clause ts) ord ks"
proof (cases ord)
  case None
  have "hd ks \<noteq> kw ''ORDER''" "ks \<noteq> []" using e by (auto simp: ends_clause_def ascii_def)
  then show ?thesis unfolding order_clause_def using k
    by (intro parses_bind [OF parses_skip_word]) (auto simp: None show_order_def intro: parses_Inr)
next
  case (Some p)
  obtain c asc where p: "p = (c, asc)" by force
  let ?dir = "if asc then kw ''ASC'' else kw ''DESC''"
  have dir: "parses (rbind (consume_word ''DESC'' r) (\<lambda>(desc, ts). if desc then Inr (Some (c, False), ts)
      else rbind (consume_word ''ASC'' ts) (\<lambda>(_, ts). Inr (Some (c, True), ts)))) (Some (c, asc)) ks" if r: "map tk_kind r = ?dir # ks" for r
  proof (cases asc)
    case True
    have "kw ''ASC'' \<noteq> kw ''DESC''" by (simp add: ascii_def)
    with r True show ?thesis
      by (intro parses_bind [OF parses_skip_word [of r "kw ''ASC'' # ks"]])
        (auto intro!: parses_bind [OF parses_consume_word] parses_Inr)
  next
    case False
    with r show ?thesis by (intro parses_bind [OF parses_consume_word]) (auto intro!: parses_Inr)
  qed
  have "parses (rbind (expect_word ''BY'' r) (\<lambda>(_, ts). rbind (sql_identifier ts) (\<lambda>(column, ts). rbind (consume_word ''DESC'' ts) (\<lambda>(desc, ts).
      if desc then Inr (Some (column, False), ts) else rbind (consume_word ''ASC'' ts) (\<lambda>(_, ts). Inr (Some (column, True), ts)))))) ord ks"
    if r: "map tk_kind r = kw ''BY'' # TWord c # ?dir # ks" for r
    unfolding Some p by (rule parses_bind [OF parses_expect_word [OF r]], rule parses_bind [OF parses_identifier], assumption, rule dir)
  then show ?thesis unfolding order_clause_def using k
    by (intro parses_bind [OF parses_consume_word]) (auto simp: Some p show_order_def)
qed

lemma parses_limit:
  assumes n: "case l of None \<Rightarrow> True | Some n \<Rightarrow> n < 2 ^ 63" and k: "map tk_kind ts = show_limit l @ ks" and e: "ends_clause [] ks"
  shows "parses (limit_clause ts) l ks"
proof (cases l)
  case None
  have "hd ks \<noteq> kw ''LIMIT''" "ks \<noteq> []" using e by (auto simp: ends_clause_def ascii_def)
  then show ?thesis unfolding limit_clause_def using k
    by (intro parses_bind [OF parses_skip_word]) (auto simp: None show_limit_def intro: parses_Inr)
next
  case (Some m)
  have m: "m < 2 ^ 63" using n by (simp add: Some)
  then have u: "unat (of_nat m :: i64) = m" by (simp add: unat_of_nat)
  have sg: "0 \<le> sint (of_nat m :: i64)" using m by (simp add: signed_of_nat signed_take_bit_int_eq_self)
  have "parses (rbind (advance r) (\<lambda>(t, ts). let bad = fail_with (sql_error (tk_pos t) ''LIMIT expects a nonnegative integer'') in
      case tk_kind t of TInteger v \<Rightarrow> if 0 \<le> sint v then Inr (Some (unat v), ts) else bad | _ \<Rightarrow> bad)) l ks"
    if r: "map tk_kind r = TInteger (of_nat m) # ks" for r
    using r u sg by (elim kinds_Cons) (simp add: advance_def Some parses_Inr)
  then show ?thesis unfolding limit_clause_def using k
    by (intro parses_bind [OF parses_consume_word]) (auto simp: Some show_limit_def)
qed

lemma commas_Cons: "xs \<noteq> [] \<Longrightarrow> commas (x # xs) = x @ TComma # commas xs"
  by (cases xs) simp_all

text \<open>Lists of items separated by commas, for the three loops of the parser.\<close>

lemma parses_comma_list:
  assumes step: "\<And>ts. loop ts = rbind (item ts) (\<lambda>(x, ts1). rbind (consume_simple TComma ts1) (\<lambda>(ok, ts2).
      if ok then rbind (loop ts2) (\<lambda>(xs, ts3). Inr (x # xs, ts3)) else Inr ([x], ts2)))"
    and item: "\<And>x ts ks. P x \<Longrightarrow> map tk_kind ts = pr x @ ks \<Longrightarrow> ks \<noteq> [] \<Longrightarrow> hd ks \<in> F \<Longrightarrow> parses (item ts) x ks" and comma: "TComma \<in> F"
  shows "xs \<noteq> [] \<Longrightarrow> list_all P xs \<Longrightarrow> map tk_kind ts = commas (map pr xs) @ ks \<Longrightarrow> ks \<noteq> [] \<Longrightarrow> hd ks \<in> F \<Longrightarrow> hd ks \<noteq> TComma \<Longrightarrow>
    parses (loop ts) xs ks"
proof (induction xs arbitrary: ts)
  case (Cons x xs)
  show ?case
  proof (cases "xs = []")
    case True
    have x: "parses (item ts) x ks" using item [of x ts ks] Cons.prems True by simp
    have "parses (rbind (consume_simple TComma r) (\<lambda>(ok, ts2). if ok then rbind (loop ts2) (\<lambda>(xs, ts3). Inr (x # xs, ts3)) else Inr ([x], ts2))) [x] ks"
      if r: "map tk_kind r = ks" for r
      using Cons.prems(4,6) by (intro parses_bind [OF parses_skip [OF r]]) (auto intro: parses_Inr)
    then show ?thesis unfolding step [of ts] True by (intro parses_bind [OF x])
  next
    case False
    let ?rest = "commas (map pr xs) @ ks"
    have k: "map tk_kind ts = pr x @ TComma # ?rest" using Cons.prems(3) False by (simp add: commas_Cons)
    have x: "parses (item ts) x (TComma # ?rest)" using item [of x ts] Cons.prems(2) k comma by simp
    have "parses (rbind (consume_simple TComma r) (\<lambda>(ok, ts2). if ok then rbind (loop ts2) (\<lambda>(xs, ts3). Inr (x # xs, ts3)) else Inr ([x], ts2))) (x # xs) ks"
      if r: "map tk_kind r = TComma # ?rest" for r
    proof (rule parses_bind [OF parses_consume [OF r]])
      fix u :: "token list" assume u: "map tk_kind u = ?rest"
      have "parses (loop u) xs ks" using Cons.IH [OF False _ u] Cons.prems by simp
      then show "parses (if True then rbind (loop u) (\<lambda>(xs, ts3). Inr (x # xs, ts3)) else Inr ([x], u)) (x # xs) ks"
        by (simp, rule parses_bind) (rule parses_Inr)
    qed
    then show ?thesis unfolding step [of ts] by (intro parses_bind [OF x])
  qed
qed simp

lemma parses_column:
  assumes k: "map tk_kind ts = show_column c @ ks" and f: "ks \<noteq> []" "hd ks \<in> {TComma, TRightParen}"
  shows "parses (column_definition ts) c ks"
proof -
  let ?pk = "if cd_primary c then [kw ''PRIMARY'', kw ''KEY''] else []"
  obtain w where w: "type_kind (cd_type c) = TWord w" by (cases "cd_type c") auto
  have ty: "parse_type w r = Inr (cd_type c)" for r using w by (cases "cd_type c") (auto simp: parse_type_def ascii_def)
  have pk: "parses (rbind (consume_word ''PRIMARY'' r) (\<lambda>(primary, ts). rbind (if primary then expect_word ''KEY'' ts else Inr ((), ts)) (\<lambda>(_, ts).
      Inr (\<lparr>cd_name = cd_name c, cd_type = cd_type c, cd_primary = primary\<rparr>, ts)))) c ks" if r: "map tk_kind r = ?pk @ ks" for r
  proof (cases "cd_primary c")
    case True
    then have r': "map tk_kind r = kw ''PRIMARY'' # kw ''KEY'' # ks" using r by simp
    show ?thesis by (rule parses_bind [OF parses_consume_word [OF r']], simp, rule parses_bind [OF parses_expect_word], assumption)
        (auto simp: parses_def True)
  next
    case False
    have "hd ks \<noteq> kw ''PRIMARY''" using f by auto
    with False r f(1) show ?thesis by (intro parses_bind [OF parses_skip_word [of r ks]]) (auto simp: parses_def)
  qed
  have k': "map tk_kind ts = TWord (cd_name c) # TWord w # ?pk @ ks" using k by (simp add: show_column_def w)
  show ?thesis
    unfolding column_definition_def
    by (rule parses_bind [OF parses_identifier [OF k']], rule parses_bind [OF parses_identifier [unfolded sql_identifier_def]], assumption)
      (simp add: ty pk)
qed

lemma parses_assignment: "map tk_kind ts = TWord c # TEq # literal_kind v # ks \<Longrightarrow> parses (assignment ts) (c, v) ks"
  unfolding assignment_def
  by (rule parses_bind [OF parses_identifier], assumption, rule parses_bind [OF parses_expect], assumption,
      rule parses_bind [OF parses_literal], assumption, rule parses_Inr)

lemma parses_columns:
  "cs \<noteq> [] \<Longrightarrow> map tk_kind ts = commas (map show_column cs) @ TRightParen # ks \<Longrightarrow> parses (column_list ts) cs (TRightParen # ks)"
  by (rule parses_comma_list [where P = "\<lambda>_. True" and F = "{TComma, TRightParen}" and pr = show_column, OF column_list.simps])
    (auto simp: parses_column list_all_iff)

lemma parses_values:
  "vs \<noteq> [] \<Longrightarrow> map tk_kind ts = commas (map (\<lambda>v. [literal_kind v]) vs) @ TRightParen # ks \<Longrightarrow> parses (value_list ts) vs (TRightParen # ks)"
  by (rule parses_comma_list [where P = "\<lambda>_. True" and F = UNIV and pr = "\<lambda>v. [literal_kind v]", OF value_list.simps])
    (auto simp: parses_literal list_all_iff)

lemma parses_assignments:
  "as \<noteq> [] \<Longrightarrow> map tk_kind ts = commas (map (\<lambda>(c, v). [TWord c, TEq, literal_kind v]) as) @ ks \<Longrightarrow> ks \<noteq> [] \<Longrightarrow> hd ks \<noteq> TComma \<Longrightarrow>
    parses (assignment_list ts) as ks"
  by (rule parses_comma_list [where P = "\<lambda>_. True" and F = UNIV and pr = "\<lambda>(c, v). [TWord c, TEq, literal_kind v]", OF assignment_list.simps])
    (auto simp: parses_assignment list_all_iff)

lemma parses_identifiers:
  "cs \<noteq> [] \<Longrightarrow> map tk_kind ts = commas (map (\<lambda>c. [TWord c]) cs) @ TRightParen # ks \<Longrightarrow> parses (identifier_list TRightParen ts) cs ks"
proof (induction cs arbitrary: ts)
  case (Cons c cs)
  show ?case
  proof (cases "cs = []")
    case True
    then have k: "map tk_kind ts = TWord c # TRightParen # ks" using Cons.prems(2) by simp
    show ?thesis unfolding True identifier_list.simps [of _ ts]
      by (rule parses_bind [OF parses_identifier [OF k]], rule parses_bind [OF parses_consume], assumption) (simp add: parses_Inr)
  next
    case False
    let ?rest = "commas (map (\<lambda>c. [TWord c]) cs) @ TRightParen # ks"
    have k: "map tk_kind ts = TWord c # TComma # ?rest" using Cons.prems(2) False by (simp add: commas_Cons)
    have rest: "parses (rbind (identifier_list TRightParen r) (\<lambda>(names, ts4). Inr (c # names, ts4))) (c # cs) ks" if "map tk_kind r = ?rest" for r
      by (rule parses_bind [OF Cons.IH [OF False that]]) (rule parses_Inr)
    have "parses (rbind (expect_simple TComma (quoted '','') r) (\<lambda>(_, ts3). rbind (identifier_list TRightParen ts3) (\<lambda>(names, ts4). Inr (c # names, ts4)))) (c # cs) ks"
      if "map tk_kind r = TComma # ?rest" for r
      by (rule parses_bind [OF parses_expect [OF that]]) (rule rest)
    then show ?thesis unfolding identifier_list.simps [of _ ts]
      by (intro parses_bind [OF parses_identifier [OF k]] parses_bind [OF parses_skip [of _ "TComma # ?rest"]]) auto
  qed
qed simp

lemma parses_identifiers_until:
  "cs \<noteq> [] \<Longrightarrow> map tk_kind ts = commas (map (\<lambda>c. [TWord c]) cs) @ kw ''FROM'' # ks \<Longrightarrow>
    parses (identifier_list_until_word ''FROM'' ts) cs (kw ''FROM'' # ks)"
proof (induction cs arbitrary: ts)
  case (Cons c cs)
  have check: "check_word ''FROM'' r = Inr (k = kw ''FROM'')" if "map tk_kind r = k # ks'" for r k ks'
    using that by (elim kinds_Cons) (simp add: check_word_def peek_def)
  show ?case
  proof (cases "cs = []")
    case True
    then have k: "map tk_kind ts = TWord c # kw ''FROM'' # ks" using Cons.prems(2) by simp
    show ?thesis unfolding True identifier_list_until_word.simps [of _ ts]
      by (rule parses_bind [OF parses_identifier [OF k]]) (simp add: check parses_Inr)
  next
    case False
    let ?rest = "commas (map (\<lambda>c. [TWord c]) cs) @ kw ''FROM'' # ks"
    have k: "map tk_kind ts = TWord c # TComma # ?rest" using Cons.prems(2) False by (simp add: commas_Cons)
    have rest: "parses (rbind (identifier_list_until_word ''FROM'' r) (\<lambda>(names, ts4). Inr (c # names, ts4))) (c # cs) (kw ''FROM'' # ks)"
      if "map tk_kind r = ?rest" for r
      by (rule parses_bind [OF Cons.IH [OF False that]]) (rule parses_Inr)
    have "parses (rbind (expect_simple TComma (quoted '','') r) (\<lambda>(_, ts3). rbind (identifier_list_until_word ''FROM'' ts3) (\<lambda>(names, ts4). Inr (c # names, ts4))))
        (c # cs) (kw ''FROM'' # ks)" if "map tk_kind r = TComma # ?rest" for r
      by (rule parses_bind [OF parses_expect [OF that]]) (rule rest)
    then show ?thesis unfolding identifier_list_until_word.simps [of _ ts]
      by (intro parses_bind [OF parses_identifier [OF k]]) (simp add: check)
  qed
qed simp

section \<open>Statements\<close>

abbreviation ends_statement :: "token_kind list \<Rightarrow> bool" where
  "ends_statement ks \<equiv> ends_clause [] ks"

lemma parses_projection:
  assumes "case p of AllColumns \<Rightarrow> True | Columns cs \<Rightarrow> cs \<noteq> []" and k: "map tk_kind ts = show_projection p @ kw ''FROM'' # ks"
  shows "parses (select_projection ts) p (kw ''FROM'' # ks)"
proof (cases p)
  case AllColumns
  then have k': "map tk_kind ts = TStar # kw ''FROM'' # ks" using k by simp
  show ?thesis unfolding select_projection_def AllColumns by (rule parses_bind [OF parses_consume [OF k']]) (simp add: parses_Inr)
next
  case (Columns cs)
  have cs: "cs \<noteq> []" using assms(1) by (simp add: Columns)
  have k': "map tk_kind ts = commas (map (\<lambda>c. [TWord c]) cs) @ kw ''FROM'' # ks" using k by (simp add: Columns)
  have "hd (commas (map (\<lambda>c. [TWord c]) cs) @ kw ''FROM'' # ks) \<noteq> TStar"
    using cs by (cases cs; cases "tl cs") auto
  moreover have "parses (rbind (identifier_list_until_word ''FROM'' r) (\<lambda>(names, ts). Inr (Columns names, ts))) p (kw ''FROM'' # ks)"
    if "map tk_kind r = commas (map (\<lambda>c. [TWord c]) cs) @ kw ''FROM'' # ks" for r
    unfolding Columns by (rule parses_bind [OF parses_identifiers_until [OF cs that]]) (rule parses_Inr)
  ultimately show ?thesis unfolding select_projection_def by (intro parses_bind [OF parses_skip [OF k']]) auto
qed

lemma parses_select:
  assumes ok: "select_ok s" and k: "map tk_kind ts = show_select s @ ks" and e: "ends_statement ks"
  shows "parses (select_after_keyword ts) s ks"
proof -
  let ?l = "show_limit (sel_limit s) @ ks"
  let ?o = "show_order (sel_order_by s) @ ?l"
  have el: "ends_clause [''LIMIT''] ?l" using e by (auto simp: ends_clause_def show_limit_def split: option.splits)
  have eo: "ends_clause [''ORDER'', ''LIMIT''] ?o" using el by (auto simp: ends_clause_def show_order_def split: option.splits)
  have p: "case sel_projection s of AllColumns \<Rightarrow> True | Columns cs \<Rightarrow> cs \<noteq> []" using ok by (auto simp: select_ok_def split: projection.splits)
  have f: "filter_ok (sel_filter s)" and l: "case sel_limit s of None \<Rightarrow> True | Some n \<Rightarrow> n < 2 ^ 63" using ok by (auto simp: select_ok_def)
  have k': "map tk_kind ts = show_projection (sel_projection s) @ kw ''FROM'' # TWord (sel_table s) # show_filter (sel_filter s) @ ?o"
    using k by (simp add: show_select_def)
  show ?thesis
    unfolding select_after_keyword_def
    by (rule parses_bind [OF parses_projection [OF p k']], rule parses_bind [OF parses_expect_word], assumption,
        rule parses_bind [OF parses_identifier], assumption, rule parses_bind [OF parses_where [OF f]], assumption, rule eo,
        rule parses_bind [OF parses_order], assumption, rule el, rule parses_bind [OF parses_limit [OF l]], assumption, rule e)
      (auto simp: parses_def)
qed

lemma parses_on_word: "map tk_kind ts = kw w # ks \<Longrightarrow> (\<And>r. map tk_kind r = ks \<Longrightarrow> parses (yes r) x ks') \<Longrightarrow> parses (on_word w yes no ts) x ks'"
  unfolding on_word_def by (rule parses_bind [OF parses_consume_word], assumption) simp

lemma parses_off_word:
  "map tk_kind ts = kw v # ks \<Longrightarrow> kw v \<noteq> kw w \<Longrightarrow> parses (no ts) x ks' \<Longrightarrow> parses (on_word w yes no ts) x ks'"
  by (elim kinds_Cons) (simp add: on_word_def consume_word_simple consume_simple_def peek_def)

text \<open>The statements behind their keywords.\<close>

lemma parses_create:
  assumes "cs \<noteq> []" and k: "map tk_kind r = kw ''TABLE'' # TWord t # TLeftParen # commas (map show_column cs) @ TRightParen # ks"
  shows "parses (rbind (expect_word ''TABLE'' r) (\<lambda>(_, ts). create_table ts)) (SCreateTable t cs) ks"
  unfolding create_table_def
  by (rule parses_bind [OF parses_expect_word [OF k]], rule parses_bind [OF parses_identifier], assumption, rule parses_bind [OF parses_expect], assumption,
      rule parses_bind [OF parses_columns [OF assms(1)]], assumption, rule parses_bind [OF parses_expect], assumption, rule parses_Inr)

lemma parses_insert_values:
  assumes "cs \<noteq> []" and "vs \<noteq> []" and k: "map tk_kind r = kw ''INTO'' # TWord t # TLeftParen # commas (map (\<lambda>c. [TWord c]) cs) @ TRightParen
    # kw ''VALUES'' # TLeftParen # commas (map (\<lambda>v. [literal_kind v]) vs) @ TRightParen # ks"
  shows "parses (rbind (expect_word ''INTO'' r) (\<lambda>(_, ts). parse_insert ts)) (SInsert t cs vs) ks"
  unfolding parse_insert_def
  by (rule parses_bind [OF parses_expect_word [OF k]], rule parses_bind [OF parses_identifier], assumption, rule parses_bind [OF parses_expect], assumption,
      rule parses_bind [OF parses_identifiers [OF assms(1)]], assumption, rule parses_bind [OF parses_expect_word], assumption,
      rule parses_bind [OF parses_expect], assumption, rule parses_bind [OF parses_values [OF assms(2)]], assumption,
      rule parses_bind [OF parses_expect], assumption, rule parses_Inr)

lemma parses_select_statement:
  assumes "select_ok s" and "map tk_kind r = show_select s @ ks" and "ends_statement ks"
  shows "parses (rbind (select_after_keyword r) (\<lambda>(sel, ts). Inr (g sel, ts))) (g s) ks"
  by (rule parses_bind [OF parses_select [OF assms]]) (rule parses_Inr)

lemma parses_update_set:
  assumes "as \<noteq> []" and "filter_ok f" and e: "ends_statement ks"
    and k: "map tk_kind r = TWord t # kw ''SET'' # commas (map (\<lambda>(c, v). [TWord c, TEq, literal_kind v]) as) @ show_filter f @ ks"
  shows "parses (parse_update r) (SUpdate t as f) ks"
proof -
  have ew: "ends_clause [''ORDER'', ''LIMIT''] ks" using e by (auto simp: ends_clause_def)
  have fk: "show_filter f @ ks \<noteq> []" "hd (show_filter f @ ks) \<noteq> TComma" using e by (auto simp: show_filter_def ends_clause_def split: option.splits)
  show ?thesis unfolding parse_update_def
    by (rule parses_bind [OF parses_identifier [OF k]], rule parses_bind [OF parses_expect_word], assumption,
        rule parses_bind [OF parses_assignments [OF assms(1) _ fk]], assumption, rule parses_bind [OF parses_where [OF assms(2) _ ew]], assumption, rule parses_Inr)
qed

lemma parses_delete_from:
  assumes "filter_ok f" and e: "ends_statement ks" and k: "map tk_kind r = kw ''FROM'' # TWord t # show_filter f @ ks"
  shows "parses (rbind (expect_word ''FROM'' r) (\<lambda>(_, ts). parse_delete ts)) (SDelete t f) ks"
proof -
  have ew: "ends_clause [''ORDER'', ''LIMIT''] ks" using e by (auto simp: ends_clause_def)
  show ?thesis unfolding parse_delete_def
    by (rule parses_bind [OF parses_expect_word [OF k]], rule parses_bind [OF parses_identifier], assumption,
        rule parses_bind [OF parses_where [OF assms(1) _ ew]], assumption, rule parses_Inr)
qed

lemma parses_explain:
  assumes "select_ok s" and "ends_statement ks" and k: "map tk_kind r = kw ''SELECT'' # show_select s @ ks"
  shows "parses (rbind (expect_word ''SELECT'' r) (\<lambda>(_, ts). rbind (select_after_keyword ts) (\<lambda>(sel, ts). Inr (SExplain sel, ts)))) (SExplain s) ks"
  by (rule parses_bind [OF parses_expect_word [OF k]]) (rule parses_select_statement [OF assms(1) _ assms(2)])

lemma parses_statement:
  assumes ok: "statement_ok st" and k: "map tk_kind ts = show_statement st @ ks" and e: "ends_statement ks"
  shows "parses (statement ts) st ks"
proof (cases st)
  case (SCreateTable t cs)
  have k': "map tk_kind ts = kw ''CREATE'' # kw ''TABLE'' # TWord t # TLeftParen # commas (map show_column cs) @ TRightParen # ks" using k by (simp add: SCreateTable)
  show ?thesis unfolding statement_def SCreateTable
    by (intro parses_off_word [OF k'] parses_on_word [OF k']) (use ok e SCreateTable in \<open>auto simp: ascii_def intro: parses_create\<close>)
next
  case (SInsert t cs vs)
  have k': "map tk_kind ts = kw ''INSERT'' # kw ''INTO'' # TWord t # TLeftParen # commas (map (\<lambda>c. [TWord c]) cs) @ TRightParen
      # kw ''VALUES'' # TLeftParen # commas (map (\<lambda>v. [literal_kind v]) vs) @ TRightParen # ks" using k by (simp add: SInsert)
  show ?thesis unfolding statement_def SInsert
    by (intro parses_off_word [OF k'] parses_on_word [OF k']) (use ok e SInsert in \<open>auto simp: ascii_def intro: parses_insert_values\<close>)
next
  case (SSelect s)
  have k': "map tk_kind ts = kw ''SELECT'' # show_select s @ ks" using k by (simp add: SSelect)
  show ?thesis unfolding statement_def SSelect
    by (intro parses_off_word [OF k'] parses_on_word [OF k']) (use ok e SSelect in \<open>auto simp: ascii_def intro: parses_select_statement\<close>)
next
  case (SUpdate t as f)
  have k': "map tk_kind ts = kw ''UPDATE'' # TWord t # kw ''SET'' # commas (map (\<lambda>(c, v). [TWord c, TEq, literal_kind v]) as) @ show_filter f @ ks" using k by (simp add: SUpdate)
  show ?thesis unfolding statement_def SUpdate
    by (intro parses_off_word [OF k'] parses_on_word [OF k']) (use ok e SUpdate in \<open>auto simp: ascii_def intro: parses_update_set\<close>)
next
  case (SDelete t f)
  have k': "map tk_kind ts = kw ''DELETE'' # kw ''FROM'' # TWord t # show_filter f @ ks" using k by (simp add: SDelete)
  show ?thesis unfolding statement_def SDelete
    by (intro parses_off_word [OF k'] parses_on_word [OF k']) (use ok e SDelete in \<open>auto simp: ascii_def intro: parses_delete_from\<close>)
next
  case SBegin
  have k': "map tk_kind ts = kw ''BEGIN'' # ks" using k by (simp add: SBegin)
  show ?thesis unfolding statement_def SBegin
    by (intro parses_off_word [OF k'] parses_on_word [OF k']) (use ok e SBegin in \<open>auto simp: ascii_def intro: parses_Inr\<close>)
next
  case SCommit
  have k': "map tk_kind ts = kw ''COMMIT'' # ks" using k by (simp add: SCommit)
  show ?thesis unfolding statement_def SCommit
    by (intro parses_off_word [OF k'] parses_on_word [OF k']) (use ok e SCommit in \<open>auto simp: ascii_def intro: parses_Inr\<close>)
next
  case SRollback
  have k': "map tk_kind ts = kw ''ROLLBACK'' # ks" using k by (simp add: SRollback)
  show ?thesis unfolding statement_def SRollback
    by (intro parses_off_word [OF k'] parses_on_word [OF k']) (use ok e SRollback in \<open>auto simp: ascii_def intro: parses_Inr\<close>)
next
  case (SExplain s)
  have k': "map tk_kind ts = kw ''EXPLAIN'' # kw ''SELECT'' # show_select s @ ks" using k by (simp add: SExplain)
  show ?thesis unfolding statement_def SExplain
    by (intro parses_off_word [OF k'] parses_on_word [OF k']) (use ok e SExplain in \<open>auto simp: ascii_def intro: parses_explain\<close>)
qed

section \<open>Scripts\<close>

lemma show_statement_word: "\<exists>w ks. show_statement st = kw w # ks"
  by (cases st) auto

lemma parse_loop_script:
  "list_all statement_ok sts \<Longrightarrow> map tk_kind ts = concat (map (\<lambda>st. show_statement st @ [TSemicolon]) sts) @ [TEnd] \<Longrightarrow> parse_loop ts = Inr sts"
proof (induction sts arbitrary: ts)
  case Nil
  then obtain t where "ts = [t]" "tk_kind t = TEnd" by auto
  then show ?case by (simp add: parse_loop.simps at_end_def peek_def)
next
  case (Cons st sts)
  let ?rest = "concat (map (\<lambda>st. show_statement st @ [TSemicolon]) sts) @ [TEnd]"
  have k: "map tk_kind ts = show_statement st @ TSemicolon # ?rest" using Cons.prems(2) by simp
  have st: "statement_ok st" using Cons.prems(1) by simp
  obtain w ks where w: "show_statement st = kw w # ks" using show_statement_word by blast
  obtain t u where t: "ts = t # u" "tk_kind t = kw w" using k w by (auto elim: kinds_Cons)
  have c: "at_end ts = Inr False" "consume_simple TSemicolon ts = Inr (False, ts)" by (simp_all add: t at_end_def consume_simple_def peek_def)
  have "ends_statement (TSemicolon # ?rest)" by (simp add: ends_clause_def)
  from parses_statement [OF st k this] obtain r where r: "statement ts = Inr (st, r)" "map tk_kind r = TSemicolon # ?rest" by (auto simp: parses_def)
  obtain v q where v: "r = v # q" "tk_kind v = TSemicolon" "map tk_kind q = ?rest" using r(2) by (auto elim: kinds_Cons)
  have c2: "consume_simple TSemicolon r = Inr (True, q)" by (simp add: v consume_simple_def peek_def)
  obtain b where b: "at_end q = Inr b" using v(3) by (cases q) (auto simp: at_end_def peek_def)
  have "parse_loop q = Inr sts" using Cons.IH [OF _ v(3)] Cons.prems(1) by simp
  then show ?case by (subst parse_loop.simps) (simp add: c r(1) c2 b)
qed

lemma keyword_ok:
  "list_all (\<lambda>w. word_ok (ascii w)) [''CREATE'', ''TABLE'', ''INSERT'', ''INTO'', ''VALUES'', ''SELECT'', ''FROM'', ''WHERE'', ''ORDER'', ''BY'', ''ASC'', ''DESC'',
    ''LIMIT'', ''UPDATE'', ''SET'', ''DELETE'', ''BEGIN'', ''COMMIT'', ''ROLLBACK'', ''EXPLAIN'', ''AND'', ''OR'', ''NULL'', ''TRUE'', ''FALSE'', ''INTEGER'',
    ''TEXT'', ''BOOLEAN'', ''PRIMARY'', ''KEY'']"
  by (simp add: word_ok_def ascii_def word_start_def word_part_def is_ascii_alphabetic_def is_ascii_uppercase_def is_ascii_lowercase_def is_ascii_digit_def)

lemmas keywords_ok [simp] = keyword_ok [unfolded list.pred_inject]

lemma literal_kind_ok [simp]: "value_ok v \<Longrightarrow> kind_ok (literal_kind v)"
  by (cases v) simp_all

lemma op_kind_ok [simp]: "kind_ok (op_kind oper)"
  by (cases oper) simp_all

lemma show_expr_ok: "expr_ok e \<Longrightarrow> list_all kind_ok (show_expr level e)"
  by (induction e arbitrary: level) (auto simp: Let_def)

lemma commas_ok: "list_all (list_all kind_ok) xss \<Longrightarrow> list_all kind_ok (commas xss)"
  by (induction xss rule: commas.induct) auto

lemma commas_map_ok: "(\<And>x. x \<in> set xs \<Longrightarrow> list_all kind_ok (f x)) \<Longrightarrow> list_all kind_ok (commas (map f xs))"
  by (rule commas_ok) (simp add: list_all_iff)

lemma show_filter_ok: "filter_ok f \<Longrightarrow> list_all kind_ok (show_filter f)"
  by (auto simp: filter_ok_def show_filter_def show_expr_ok split: option.splits)

lemma show_column_ok: "word_ok (cd_name c) \<Longrightarrow> list_all kind_ok (show_column c)"
  by (cases "cd_type c") (auto simp: show_column_def)

lemma show_select_ok:
  assumes "select_ok s"
  shows "list_all kind_ok (show_select s)"
proof -
  have "list_all kind_ok (show_projection (sel_projection s))"
  proof (cases "sel_projection s")
    case (Columns cs)
    then have "\<And>c. c \<in> set cs \<Longrightarrow> word_ok c" using assms by (simp add: select_ok_def list_all_iff)
    then show ?thesis using commas_map_ok [of cs "\<lambda>c. [TWord c]"] by (simp add: Columns)
  qed simp
  moreover have "list_all kind_ok (show_order (sel_order_by s))" "list_all kind_ok (show_limit (sel_limit s))"
    using assms by (auto simp: select_ok_def show_order_def show_limit_def split: option.splits)
  ultimately show ?thesis using assms show_filter_ok by (simp add: show_select_def select_ok_def)
qed

lemma show_statement_ok:
  assumes "statement_ok st"
  shows "list_all kind_ok (show_statement st)"
proof (cases st)
  case (SCreateTable t cs)
  then have "list_all kind_ok (commas (map show_column cs))" using assms by (intro commas_map_ok show_column_ok) (simp add: list_all_iff)
  then show ?thesis using assms by (simp add: SCreateTable)
next
  case (SInsert t cs vs)
  then have "list_all kind_ok (commas (map (\<lambda>c. [TWord c]) cs))" "list_all kind_ok (commas (map (\<lambda>v. [literal_kind v]) vs))"
    using assms by (intro commas_map_ok; simp add: list_all_iff)+
  then show ?thesis using assms by (simp add: SInsert)
next
  case (SUpdate t as f)
  then have "list_all kind_ok (commas (map (\<lambda>(c, v). [TWord c, TEq, literal_kind v]) as))"
    using assms by (intro commas_map_ok) (auto simp: list_all_iff)
  then show ?thesis using assms show_filter_ok [of f] by (simp add: SUpdate)
qed (use assms show_select_ok show_filter_ok in auto)

section \<open>Properties\<close>

text \<open>
  C22. Parsing inverts printing: for every script of statements the grammar can express, the printed text (with
  parentheses only where \<open>AND\<close> must not bind tighter than \<open>OR\<close>, comparisons tighter than both, and to override left
  association) lexes and parses to exactly these statements.
\<close>

theorem parse_inverts_print:
  assumes "sts \<noteq> []" and "list_all statement_ok sts"
  shows "parse (print_script sts) = Inr sts"
proof -
  let ?ks = "concat (map (\<lambda>st. show_statement st @ [TSemicolon]) sts)"
  have "list_all kind_ok ?ks" using assms(2) show_statement_ok by (induction sts) auto
  then obtain ts where ts: "lex_loop 0 (render ?ks) = Inr ts" "map tk_kind ts = ?ks @ [TEnd]" using lex_render by blast
  from parse_loop_script [OF assms(2) ts(2)] ts(1) assms(1) show ?thesis by (simp add: parse_def lex_def print_script_def)
qed

theorem parse_inverts_print_witness:
  "parse (print_script [SDelete (ascii ''T'') (Some (EBinary OpOr (EColumn (ascii ''A'')) (EBinary OpAnd (ELiteral (VText (ascii ''it'')))
      (EBinary OpLt (EColumn (ascii ''B'')) (ELiteral (VInteger (- 5)))))))])
    = Inr [SDelete (ascii ''T'') (Some (EBinary OpOr (EColumn (ascii ''A'')) (EBinary OpAnd (ELiteral (VText (ascii ''it'')))
      (EBinary OpLt (EColumn (ascii ''B'')) (ELiteral (VInteger (- 5)))))))]"
  by (rule parse_inverts_print)
    (simp_all add: filter_ok_def word_ok_def ascii_def word_start_def word_part_def is_ascii_alphabetic_def is_ascii_uppercase_def
      is_ascii_lowercase_def is_ascii_digit_def literal_word_def)

text \<open>
  C23. The front end is total: on every valid string the lexer and the parser return statements or an error; they never
  index past the last token, slice inside a character, or recurse without end, however deeply the input is nested.
\<close>

theorem parse_never_panics:
  assumes "utf8_valid source"
  shows "parse source \<noteq> Inl Panicked"
  using assms by (rule parse_safe)

theorem parse_never_panics_witness: "parse [0x28, 0xC3, 0xA9] \<noteq> Inl Panicked"
  by (rule parse_never_panics) (simp add: utf8_valid.simps utf8_step_def utf8_ok2_def utf8_cont_def)

end
