(* ===== verification/Sql_Relational.thy ===== *)
theory Sql_Relational
  imports Sql_Select Sql_Print
begin

text \<open>
  The relational specification: a table name is mapped to its columns and its set of rows, and every statement is an
  operation on that map. The data statements of a transaction refine their operations on what the transaction sees.
\<close>

section \<open>The relational specification\<close>

type_synonym database = "rstring \<rightharpoonup> (column_def list \<times> row set)"

definition schema_of :: "rstring \<Rightarrow> column_def list \<Rightarrow> schema" where
  "schema_of table columns = \<lparr>sc_name = table, sc_columns = columns\<rparr>"

definition new_row :: "column_def list \<Rightarrow> (rstring \<times> sql_value) list \<Rightarrow> row" where
  "new_row columns pairs = map (\<lambda>c. case map_of pairs (cd_name c) of Some v \<Rightarrow> v | None \<Rightarrow> VNull) columns"

definition satisfying :: "rstring \<Rightarrow> column_def list \<Rightarrow> expr option \<Rightarrow> row set \<Rightarrow> row set" where
  "satisfying table columns c R = {row \<in> R. matches_filter c row (schema_of table columns) = Inr True}"

definition answers :: "select \<Rightarrow> column_def list \<Rightarrow> row set \<Rightarrow> sql_result \<Rightarrow> bool" where
  "answers sel columns R r \<longleftrightarrow> (let sc = schema_of (sel_table sel) columns in
     \<exists>rows names indexes. in_key_order sc (satisfying (sel_table sel) columns (sel_filter sel) R) rows
       \<and> project sc (sel_projection sel) = Inr (names, indexes)
       \<and> r = Rows names (map (\<lambda>row. map (\<lambda>i. row ! i) indexes) (limit_rows (sel_limit sel) (order_rows sc (sel_order_by sel) rows))))"

fun relational :: "sql_statement \<Rightarrow> database \<Rightarrow> sql_result \<Rightarrow> database \<Rightarrow> bool" where
  "relational (SCreateTable table columns) d r d' \<longleftrightarrow>
    d table = None \<and> r = Affected 0 \<and> d' = d(table \<mapsto> (columns, {}))"
| "relational (SInsert table names vals) d r d' \<longleftrightarrow> (\<exists>columns R row.
    d table = Some (columns, R) \<and> length names = length vals \<and> row = new_row columns (zip names vals)
    \<and> (\<forall>other \<in> R. other ! pk (schema_of table columns) \<noteq> row ! pk (schema_of table columns))
    \<and> r = Affected 1 \<and> d' = d(table \<mapsto> (columns, insert row R)))"
| "relational (SUpdate table asgs c) d r d' \<longleftrightarrow> (\<exists>columns R M.
    d table = Some (columns, R) \<and> M = satisfying table columns c R \<and> r = Affected (card M)
    \<and> d' = d(table \<mapsto> (columns, (R - M) \<union> set_row columns asgs ` M)))"
| "relational (SDelete table c) d r d' \<longleftrightarrow> (\<exists>columns R M.
    d table = Some (columns, R) \<and> M = satisfying table columns c R \<and> r = Affected (card M)
    \<and> d' = d(table \<mapsto> (columns, R - M)))"
| "relational (SSelect sel) d r d' \<longleftrightarrow> d' = d \<and> (\<exists>columns R. d (sel_table sel) = Some (columns, R) \<and> answers sel columns R r)"
| "relational (SExplain sel) d r d' \<longleftrightarrow> d' = d \<and> (\<exists>text. r = Explained text)"
| "relational _ d r d' \<longleftrightarrow> d' = d"

section \<open>The database in a map\<close>

definition database :: "(rstring \<rightharpoonup> rstring) \<Rightarrow> database" where
  "database m table = (case m (catalog_key table) of
     None \<Rightarrow> None
   | Some encoded \<Rightarrow> (case decode_schema table encoded of
       Inl _ \<Rightarrow> None
     | Inr sc \<Rightarrow> Some (sc_columns sc, relation m sc)))"

lemma schema_of_table: "sc_name sc = table \<Longrightarrow> schema_of table (sc_columns sc) = sc"
  by (simp add: schema_of_def)

lemma database_table: "table_schema m sc \<Longrightarrow> sc_name sc = table \<Longrightarrow> database m table = Some (sc_columns sc, relation m sc)"
  using decode_schema_encode [OF table_schema_ok] by (auto simp: database_def table_schema_def)

lemma database_cases:
  assumes "db_ok m"
  obtains (none) "m (catalog_key table) = None" "database m table = None"
  | (table) sc where "table_schema m sc" "sc_name sc = table" "database m table = Some (sc_columns sc, relation m sc)"
proof (cases "m (catalog_key table)")
  case (Some v)
  with assms obtain sc where "sc_name sc = table" "schema_ok sc" "v = encode_schema sc" "name_ok table" unfolding db_ok_def by blast
  with Some have "table_schema m sc" by (simp add: table_schema_def)
  with \<open>sc_name sc = table\<close> database_table show ?thesis by (intro table) auto
qed (use none in \<open>simp add: database_def\<close>)

lemma database_only_table:
  assumes "db_ok m" and "name_ok table" and "only_table table m m'" and "table' \<noteq> table"
  shows "database m' table' = database m table'"
proof (rule database_cases [OF assms(1), of table'])
  have c: "m' (catalog_key t) = m (catalog_key t)" for t
    using assms(3) row_prefix_row catalog_not_row unfolding only_table_def by blast
  {
    assume "m (catalog_key table') = None" "database m table' = None"
    then show ?thesis using c by (simp add: database_def)
  next
    fix sc assume sc: "table_schema m sc" "sc_name sc = table'" "database m table' = Some (sc_columns sc, relation m sc)"
    note ok = table_schema_ok [OF sc(1)]
    have "m' k = m k" if "is_row sc k row" for k row
    proof -
      from that have "k = row_prefix table' @ hex (encode_value (row ! pk sc))"
        by (simp add: is_row_iff [OF ok] primary_key_of_def sc(2))
      moreover have "name_ok table'" using sc by (auto simp: table_schema_def)
      ultimately have "\<not> starts_with k (row_prefix table)" using assms(2,4) by (simp add: row_prefix_table)
      with assms(3) show ?thesis by (simp add: only_table_def)
    qed
    then have "relation m' sc = relation m sc" by (auto simp: relation_def)
    moreover have "table_schema m' sc" using sc(1) only_table_schema [OF assms(3)] by simp
    ultimately show ?thesis using database_table sc by metis
  }
qed

lemma database_change:
  assumes "db_ok m" and "table_schema m sc" and "sc_name sc = table" and "only_table table m m'" and "relation m' sc = R"
  shows "database m' = (database m)(table \<mapsto> (sc_columns sc, R))"
proof
  fix t
  have n: "name_ok table" using assms(2,3) by (auto simp: table_schema_def)
  have "table_schema m' sc" using assms(2) only_table_schema [OF assms(4)] by simp
  then show "database m' t = ((database m)(table \<mapsto> (sc_columns sc, R))) t"
    using database_table [of m' sc] database_only_table [OF assms(1) n assms(4)] assms(3,5) by auto
qed

section \<open>Rows written by statements\<close>

lemma insert_values_row:
  assumes "insert_values sc pairs row assigned = Inr row'" and "length row = length (sc_columns sc)"
    and "length assigned = length (sc_columns sc)" and "distinct (map cd_name (sc_columns sc))"
  shows "length row' = length row \<and> (\<forall>i < length row. (assigned ! i \<longrightarrow> map_of pairs (cd_name (sc_columns sc ! i)) = None)
    \<and> row' ! i = (case map_of pairs (cd_name (sc_columns sc ! i)) of Some v \<Rightarrow> v | None \<Rightarrow> row ! i))"
  using assms(1-3)
proof (induction pairs arbitrary: row assigned)
  case (Cons pair pairs)
  obtain c v where p: "pair = (c, v)" by (cases pair)
  from Cons.prems(1) obtain j where j: "find_column ''sql: unknown column '' sc c = Inr j" "j < length assigned" "\<not> assigned ! j"
    and rest: "insert_values sc pairs (row[j := v]) (assigned[j := True]) = Inr row'"
    by (auto simp: p rbind_Inr_iff elem_at_iff set_at_def split: if_splits)
  have name: "j < length (sc_columns sc)" "cd_name (sc_columns sc ! j) = c"
    using returns_find_column [of "''sql: unknown column ''" sc c] j(1) by (auto simp: returns_iff)
  have other: "cd_name (sc_columns sc ! i) = c \<longleftrightarrow> i = j" if "i < length (sc_columns sc)" for i
    using that name nth_eq_iff_index_eq [OF assms(4), of i j] by auto
  from Cons.IH [OF rest] Cons.prems(2,3) have ih: "length row' = length row" "\<And>i. i < length row \<Longrightarrow>
      (assigned[j := True] ! i \<longrightarrow> map_of pairs (cd_name (sc_columns sc ! i)) = None)
      \<and> row' ! i = (case map_of pairs (cd_name (sc_columns sc ! i)) of Some v \<Rightarrow> v | None \<Rightarrow> row[j := v] ! i)" by auto
  show ?case
  proof (intro conjI allI impI)
    fix i assume i: "i < length row"
    note at = ih(2) [OF i] other [of i] j name Cons.prems(2,3)
    show "map_of (pair # pairs) (cd_name (sc_columns sc ! i)) = None" if "assigned ! i"
      using at that i p by (cases "i = j") auto
    show "row' ! i = (case map_of (pair # pairs) (cd_name (sc_columns sc ! i)) of Some v \<Rightarrow> v | None \<Rightarrow> row ! i)"
      using at i p by (cases "i = j") (auto split: option.split)
  qed (rule ih(1))
qed simp

lemma insert_values_new_row:
  assumes "schema_ok sc"
    and "insert_values sc pairs (replicate (length (sc_columns sc)) VNull) (replicate (length (sc_columns sc)) False) = Inr row"
  shows "row = new_row (sc_columns sc) pairs"
  using insert_values_row [OF assms(2) _ _ schema_ok_distinct [OF assms(1)]]
  by (intro nth_equalityI) (auto simp: new_row_def split: option.split)

section \<open>Data statements refine their relational operations\<close>

text \<open>What the parser guarantees of a statement: names are words, text is valid UTF-8.\<close>

lemma word_name_ok: "word_ok n \<Longrightarrow> name_ok n"
  using ascii_classes(2) utf8_valid_ascii [of n]
  by (auto simp: word_ok_def name_ok_def list_all_iff word_part_def is_ascii_alphabetic_def is_ascii_uppercase_def
      is_ascii_lowercase_def is_ascii_digit_def)

lemma primary_equality_ok: "expr_ok e \<Longrightarrow> primary_equality e name = Some v \<Longrightarrow> value_ok v"
  by (cases "(e, name)" rule: primary_equality.cases) (auto split: if_splits)

lemma is_row_not_catalog: "is_row sc k row \<Longrightarrow> k \<noteq> catalog_key table"
proof -
  assume "is_row sc k row"
  then have "starts_with k ROW_PREFIX"
    by (auto simp: is_row_def row_key_def row_key_for_primary_def rbind_Inr_iff starts_with_iff row_prefix_def split: if_splits)
  then show ?thesis by auto
qed

lemma database_create:
  assumes "db_ok m" and "m (catalog_key table) = None" and "name_ok table" and "schema_ok \<lparr>sc_name = table, sc_columns = columns\<rparr>"
  shows "database (m(catalog_key table \<mapsto> encode_schema \<lparr>sc_name = table, sc_columns = columns\<rparr>)) = (database m)(table \<mapsto> (columns, {}))"
    (is "database ?m = _")
proof
  fix t
  let ?sc = "\<lparr>sc_name = table, sc_columns = columns\<rparr>"
  have rows: "relation ?m sc = relation m sc" for sc
    unfolding relation_def using is_row_not_catalog by fastforce
  have "m k = None" if "is_row ?sc k row" for k row
  proof (rule ccontr)
    assume "m k \<noteq> None"
    with assms(1) is_row_key_row [OF assms(4) that] obtain sc row' where sc: "table_schema m sc" "is_row sc k row'"
      unfolding db_ok_def by fastforce
    from is_row_prefix [OF assms(4) that] have "starts_with (row_prefix (sc_name sc) @ hex (encode_value (row' ! pk sc))) (row_prefix table)"
      using sc is_row_key [OF table_schema_ok [OF sc(1)] sc(2)] by (simp add: key_of_def primary_key_of_def)
    with assms(2,3) sc(1) show False by (auto simp: row_prefix_table table_schema_def)
  qed
  then have "relation m ?sc = {}" by (auto simp: relation_def)
  then show "database ?m t = ((database m)(table \<mapsto> (columns, {}))) t"
    using decode_schema_encode [OF assms(4)] rows by (auto simp: database_def split: option.split sum.split)
qed

lemma inserted_relational:
  assumes "db_ok m" and "inserted m table names vals r m'"
  shows "relational (SInsert table names vals) (database m) r (database m')"
proof -
  from assms(2) obtain sc k row where i: "r = Affected 1" "length names = length vals" "table_schema m sc" "sc_name sc = table"
    "is_row sc k row" "m k = None" "m' = m(k \<mapsto> encode_row row)"
    and v: "insert_values sc (zip names vals) (replicate (length (sc_columns sc)) VNull) (replicate (length (sc_columns sc)) False) = Inr row"
    unfolding inserted_def by blast
  note ok = table_schema_ok [OF i(3)]
  have fresh: "key_of sc other \<noteq> k" if "other \<in> relation m sc" for other
    using that i(6) by (auto simp: relation_iff [OF ok])
  then have "relation m' sc = insert row (relation m sc)"
    unfolding i(7) relation_put [OF ok i(5)] by auto
  from database_change [OF assms(1) i(3,4) _ this] only_table_put [OF ok i(5)] i(4,7)
  have "database m' = (database m)(table \<mapsto> (sc_columns sc, insert row (relation m sc)))" by auto
  moreover have "other ! pk sc \<noteq> row ! pk sc" if "other \<in> relation m sc" for other
    using fresh [OF that] is_row_key [OF ok i(5)] by (auto simp: key_of_def)
  ultimately show ?thesis
    using i(1,2) database_table [OF i(3,4)] insert_values_new_row [OF ok v] schema_of_table [OF i(4)] by auto
qed

lemma selected_answers:
  assumes "selected m sel r"
  shows "\<exists>columns R. database m (sel_table sel) = Some (columns, R) \<and> answers sel columns R r"
proof -
  from assms obtain sc rows columns indexes where s: "table_schema m sc" "sc_name sc = sel_table sel"
    "in_key_order sc {row \<in> relation m sc. matches_filter (sel_filter sel) row sc = Inr True} rows"
    "project sc (sel_projection sel) = Inr (columns, indexes)"
    "r = Rows columns (map (\<lambda>row. map (\<lambda>i. row ! i) indexes) (limit_rows (sel_limit sel) (order_rows sc (sel_order_by sel) rows)))"
    unfolding selected_def by blast
  then have "answers sel (sc_columns sc) (relation m sc) r"
    unfolding answers_def Let_def satisfying_def schema_of_table [OF s(2)] by blast
  with database_table [OF s(1,2)] show ?thesis by blast
qed

lemma changed_relational:
  assumes "db_ok m" and "changed m table c f r m'"
  shows "\<exists>sc M. schema_ok sc \<and> database m table = Some (sc_columns sc, relation m sc) \<and> M = satisfying table (sc_columns sc) c (relation m sc)
    \<and> r = Affected (card M) \<and> database m' = (database m)(table \<mapsto> (sc_columns sc, (relation m sc - M) \<union> f sc M))"
proof -
  from assms(2) obtain sc M where s: "table_schema m sc" "sc_name sc = table" "only_table table m m'"
    "M = {row \<in> relation m sc. matches_filter c row sc = Inr True}" "r = Affected (card M)" "relation m' sc = (relation m sc - M) \<union> f sc M"
    unfolding changed_def by blast
  have "M = satisfying table (sc_columns sc) c (relation m sc)" by (simp add: s(4) satisfying_def schema_of_table [OF s(2)])
  with database_change [OF assms(1) s(1,2,3,6)] database_table [OF s(1,2)] table_schema_ok [OF s(1)] s(5) show ?thesis by blast
qed

lemma changed_delete: "db_ok m \<Longrightarrow> changed m table c (\<lambda>_ _. {}) r m' \<Longrightarrow> relational (SDelete table c) (database m) r (database m')"
  using changed_relational by fastforce

lemma changed_update:
  "db_ok m \<Longrightarrow> changed m table c (\<lambda>sc M. set_row (sc_columns sc) asgs ` M) r m' \<Longrightarrow>
    relational (SUpdate table asgs c) (database m) r (database m')"
  using changed_relational by fastforce

lemma runs_statement:
  assumes "sound_state st" and "statement_ok stm"
  shows "runs st (execute_data stm) (\<lambda>r st'. relational stm (database (view st)) r (database (view st')))"
proof -
  have db: "db_ok (view st)" using assms(1) by (simp add: sound_state_def)
  show ?thesis
  proof (cases stm)
    case (SCreateTable table columns)
    let ?sc = "\<lparr>sc_name = table, sc_columns = columns\<rparr>"
    have n: "name_ok table" "list_all (\<lambda>c. name_ok (cd_name c)) columns"
      using assms(2) SCreateTable word_name_ok by (auto simp: list_all_iff)
    from runs_create [OF assms(1) n] show ?thesis
      unfolding SCreateTable execute_data.simps
    proof (rule runs_mono)
      fix r st' assume "r = Affected 0 \<and> view st (catalog_key table) = None \<and> schema_ok ?sc
        \<and> view st' = (view st)(catalog_key table \<mapsto> encode_schema ?sc)"
      then show "relational (SCreateTable table columns) (database (view st)) r (database (view st'))"
        using database_create [OF db _ n(1)] by (simp add: database_def)
    qed
  next
    case (SInsert table columns vals)
    then have "list_all value_ok vals" using assms(2) by simp
    from runs_insert [OF assms(1) this] show ?thesis
      unfolding SInsert execute_data.simps by (rule runs_mono) (rule inserted_relational [OF db])
  next
    case (SSelect sel)
    have "pred_option (\<lambda>e. \<forall>name v. primary_equality e name = Some v \<longrightarrow> value_ok v) (sel_filter sel)"
      using assms(2) SSelect primary_equality_ok by (cases "sel_filter sel") (auto simp: select_ok_def filter_ok_def)
    from runs_select [OF assms(1) this] show ?thesis
      unfolding SSelect execute_data.simps by (rule runs_mono) (auto intro: selected_answers)
  next
    case (SUpdate table asgs c)
    then have "list_all (\<lambda>(c, v). value_ok v) asgs" using assms(2) by (auto simp: list_all_iff)
    from runs_update [OF assms(1) this] show ?thesis
      unfolding SUpdate execute_data.simps by (rule runs_mono) (rule changed_update [OF db])
  next
    case (SDelete table c)
    show ?thesis
      unfolding SDelete execute_data.simps by (rule runs_mono [OF runs_delete_statement [OF assms(1)]]) (rule changed_delete [OF db])
  next
    case (SExplain sel)
    show ?thesis unfolding SExplain execute_data.simps by (rule runs_mono [OF runs_explain [OF assms(1)]]) auto
  qed (simp_all add: runs_pure [OF assms(1)])
qed

end
