(* ===== verification/Sql_Wellformed.thy ===== *)
theory Sql_Wellformed
  imports Sql_Print
begin

text \<open>
  The converse of printing: whatever the parser accepts is a script of well-formed statements, whose names are words
  in upper case and whose text is valid UTF-8.
\<close>

section \<open>Tokens\<close>

definition toks_ok :: "token list \<Rightarrow> bool" where
  "toks_ok ts \<longleftrightarrow> list_all (\<lambda>t. tk_kind t = TEnd \<or> kind_ok (tk_kind t)) ts"

lemma toks_ok_Cons [simp]: "toks_ok (t # ts) \<longleftrightarrow> (tk_kind t = TEnd \<or> kind_ok (tk_kind t)) \<and> toks_ok ts"
  by (simp add: toks_ok_def)

lemma toks_ok_Nil [simp]: "toks_ok []"
  by (simp add: toks_ok_def)

lemma toks_ok_tl: "toks_ok ts \<Longrightarrow> toks_ok (tl ts)"
  by (cases ts) simp_all

lemma lex_string_ok: "lex_string pos s acc = Inr (k, r) \<Longrightarrow> utf8_valid acc \<Longrightarrow> kind_ok k"
proof (induction "length s" arbitrary: s acc rule: less_induct)
  case less
  note l = less.prems(1) [unfolded lex_string.simps [of pos s]]
  show ?case
  proof (cases s)
    case (Cons b t)
    show ?thesis
    proof (cases "b = 0x27")
      case True
      have "utf8_valid (acc @ [0x27])" using less.prems(2) by (intro utf8_valid_append) simp_all
      with True l Cons less.hyps [of "tl t" "acc @ [0x27]"] less.prems(2) show ?thesis by (auto split: list.splits if_splits)
    next
      case False
      with l Cons obtain r' where r: "utf8_step s = Some r'" "lex_string pos r' (acc @ take (length s - length r') s) = Inr (k, r)"
        by (auto split: option.splits)
      obtain c where c: "s = c @ r'" "utf8_step c = Some []" using utf8_step_split [OF r(1)] by metis
      have "utf8_valid c" using c(2) by (subst utf8_valid.simps) simp
      then have "utf8_valid (acc @ take (length s - length r') s)" using less.prems(2) c(1) by (simp add: utf8_valid_append)
      with less.hyps [OF utf8_step_shorter [OF r(1)] r(2)] show ?thesis by blast
    qed
  qed (use l in simp)
qed

lemma uppercase_part: "word_part b \<Longrightarrow> word_part (to_ascii_uppercase b) \<and> \<not> is_ascii_lowercase (to_ascii_uppercase b)"
  unfolding word_part_def is_ascii_alphabetic_def is_ascii_uppercase_def is_ascii_lowercase_def is_ascii_digit_def to_ascii_uppercase_def
  by (simp add: word_le_nat_alt unat_sub_if_size word_size) (auto simp: unat_sub word_le_nat_alt)

lemma uppercase_start: "word_start b \<Longrightarrow> word_start (to_ascii_uppercase b)"
  unfolding word_start_def is_ascii_alphabetic_def is_ascii_uppercase_def is_ascii_lowercase_def to_ascii_uppercase_def
  by (simp add: word_le_nat_alt unat_sub_if_size word_size) (auto simp: unat_sub word_le_nat_alt)

lemma word_start_part: "word_start b \<Longrightarrow> word_part b"
  by (auto simp: word_start_def word_part_def)

lemma uppercase_word:
  assumes "word_start b"
  shows "word_ok (map to_ascii_uppercase (b # takeWhile word_part r))"
  using uppercase_start [OF assms] uppercase_part word_start_part [OF assms]
  by (auto simp: word_ok_def list_all_iff dest: set_takeWhileD)

lemma lex_token_ok: "lex_token pos s = Inr (k, r) \<Longrightarrow> kind_ok k"
proof (cases s)
  case (Cons b t)
  assume "lex_token pos s = Inr (k, r)"
  then show ?thesis
    using lex_string_ok [of pos t "[]" k r] uppercase_word [of b t] unfolding Cons lex_token.simps
    by (auto simp: lex_integer_def simp del: list.map split: if_splits option.splits)
qed simp

lemma lex_loop_ok: "lex_loop offset s = Inr ts \<Longrightarrow> toks_ok ts"
proof (induction offset s arbitrary: ts rule: lex_loop.induct)
  case (1 offset s)
  show ?case
  proof (cases s)
    case Nil
    then show ?thesis using "1.prems" by (subst (asm) lex_loop.simps) auto
  next
    case (Cons b t)
    show ?thesis
    proof (cases "is_ascii_whitespace b")
      case True
      then show ?thesis using "1.prems" "1.IH"(1) [OF Cons True] by (simp add: lex_loop.simps [of offset] Cons)
    next
      case False
      from "1.prems" obtain k r rest where k: "lex_token offset s = Inr (k, r)"
        and rest: "lex_loop (offset + (length s - length r)) r = Inr rest" and ts: "ts = \<lparr>tk_kind = k, tk_pos = offset\<rparr> # rest"
        using False Cons by (subst (asm) lex_loop.simps) (auto simp: rbind_Inr_iff)
      from "1.IH"(2) [OF Cons False k refl rest] lex_token_ok [OF k] show ?thesis by (simp add: ts)
    qed
  qed
qed

section \<open>What the parser returns\<close>

definition yields :: "('a \<Rightarrow> bool) \<Rightarrow> 'a parse_result \<Rightarrow> bool" where
  "yields P m \<longleftrightarrow> (\<forall>x r. m = Inr (x, r) \<longrightarrow> P x \<and> toks_ok r)"

named_theorems parse_yields \<open>what the parsing functions return\<close>

lemma yields_bind: "yields P m \<Longrightarrow> (\<And>x r. P x \<Longrightarrow> toks_ok r \<Longrightarrow> yields Q (f (x, r))) \<Longrightarrow> yields Q (rbind m f)"
  by (cases m) (force simp: yields_def)+

lemma yields_Inr [simp]: "yields P (Inr (x, r)) \<longleftrightarrow> P x \<and> toks_ok r"
  by (simp add: yields_def)

lemma yields_fail [simp]: "yields P (fail_with e)" "yields P (Inl f)"
  by (simp_all add: yields_def fail_with_def)

lemma yields_expected [simp]: "yields P (expected what ts)"
  by (cases ts) (simp_all add: expected_def peek_def)

lemma yields_peek: "(\<And>t. ts \<noteq> [] \<Longrightarrow> t = hd ts \<Longrightarrow> yields P (f t)) \<Longrightarrow> yields P (rbind (peek ts) f)"
  by (cases ts) (simp_all add: peek_def)

lemma yields_mono: "yields P m \<Longrightarrow> (\<And>x. P x \<Longrightarrow> Q x) \<Longrightarrow> yields Q m"
  by (auto simp: yields_def)

lemma yields_advance [parse_yields]: "toks_ok ts \<Longrightarrow> yields (\<lambda>t. tk_kind t = TEnd \<or> kind_ok (tk_kind t)) (advance ts)"
  by (cases ts) (auto simp: advance_def)

lemma yields_consume_simple [parse_yields]: "toks_ok ts \<Longrightarrow> yields (\<lambda>_. True) (consume_simple k ts)"
  by (cases ts) (auto simp: consume_simple_def peek_def)

lemma yields_consume_word [parse_yields]: "toks_ok ts \<Longrightarrow> yields (\<lambda>_. True) (consume_word w ts)"
  by (simp add: consume_word_simple yields_consume_simple)

lemma yields_expect_simple [parse_yields]: "toks_ok ts \<Longrightarrow> yields (\<lambda>_. True) (expect_simple k d ts)"
  unfolding expect_simple_def by (rule yields_bind [OF yields_consume_simple]) auto

lemma yields_expect_word [parse_yields]: "toks_ok ts \<Longrightarrow> yields (\<lambda>_. True) (expect_word w ts)"
  unfolding expect_word_def by (rule yields_bind [OF yields_consume_word]) auto

lemma yields_word [parse_yields]: "toks_ok ts \<Longrightarrow> yields word_ok (parse_word ts)"
  unfolding parse_word_def by (rule yields_bind [OF yields_advance]) (auto split: token_kind.splits)

lemma yields_identifier [parse_yields]: "toks_ok ts \<Longrightarrow> yields word_ok (sql_identifier ts)"
  unfolding sql_identifier_def by (rule yields_word)

lemma yields_literal [parse_yields]: "toks_ok ts \<Longrightarrow> yields value_ok (literal ts)"
  unfolding literal_def by (rule yields_bind [OF yields_advance]) (auto split: token_kind.splits)

lemma yields_column [parse_yields]: "toks_ok ts \<Longrightarrow> yields (\<lambda>c. word_ok (cd_name c)) (column_definition ts)"
  unfolding column_definition_def
proof (rule yields_bind [OF yields_identifier], assumption, unfold prod.case, rule yields_bind [OF yields_word], assumption, unfold prod.case)
  fix name ts1 type_name ts2 assume n: "word_ok name" and ts2: "toks_ok ts2"
  have "yields (\<lambda>c. word_ok (cd_name c)) (rbind (consume_word ''PRIMARY'' ts2) (\<lambda>(primary, ts).
      rbind (if primary then expect_word ''KEY'' ts else Inr ((), ts)) (\<lambda>(_, ts). Inr (\<lparr>cd_name = name, cd_type = ty, cd_primary = primary\<rparr>, ts))))" for ty
    by (rule yields_bind [OF yields_consume_word [OF ts2]], unfold prod.case, rule yields_bind [where P = "\<lambda>_. True"])
       (use n yields_expect_word in auto)
  then show "yields (\<lambda>c. word_ok (cd_name c)) (rbind (parse_type type_name ts2) (\<lambda>data_type. rbind (consume_word ''PRIMARY'' ts2) (\<lambda>(primary, ts).
      rbind (if primary then expect_word ''KEY'' ts else Inr ((), ts)) (\<lambda>(_, ts). Inr (\<lparr>cd_name = name, cd_type = data_type, cd_primary = primary\<rparr>, ts)))))"
    by (cases "parse_type type_name ts2") simp_all
qed

lemma yields_comma_list:
  assumes "\<And>ts. list ts = rbind (item ts) (\<lambda>(x, ts1). rbind (consume_simple TComma ts1) (\<lambda>(more, ts2).
      if more then rbind (list ts2) (\<lambda>(xs, ts3). Inr (x # xs, ts3)) else Inr ([x], ts2)))"
    and "\<And>ts. toks_ok ts \<Longrightarrow> yields P (item ts)" and "\<And>ts x r. item ts = Inr (x, r) \<Longrightarrow> length r < length ts"
  shows "toks_ok ts \<Longrightarrow> yields (\<lambda>xs. xs \<noteq> [] \<and> list_all P xs) (list ts)"
proof (induction "length ts" arbitrary: ts rule: less_induct)
  case less
  show ?case
  proof (cases "item ts")
    case (Inr p)
    obtain x ts1 where p: "p = (x, ts1)" by (cases p)
    with Inr assms(2) [OF less.prems] assms(3) have x: "P x" "toks_ok ts1" "length ts1 < length ts" by (auto simp: yields_def)
    have "yields (\<lambda>xs. xs \<noteq> [] \<and> list_all P xs) (if more then rbind (list ts2) (\<lambda>(xs, ts3). Inr (x # xs, ts3)) else Inr ([x], ts2))"
      if "consume_simple TComma ts1 = Inr (more, ts2)" for more ts2
      using less.hyps [of ts2] consume_length [OF that] yields_consume_simple [OF x(2), of TComma] that x
      by (auto simp: yields_def [of "\<lambda>_. True"] intro!: yields_bind [where P = "\<lambda>xs. xs \<noteq> [] \<and> list_all P xs"])
    then show ?thesis
      using x by (cases "consume_simple TComma ts1") (auto simp: assms(1) [of ts] Inr p)
  qed (simp add: assms(1) [of ts])
qed

lemma shorter: "sound 1 ts m \<Longrightarrow> m = Inr (x, r) \<Longrightarrow> length r < length ts"
  by (auto simp: sound_def)

lemma yields_column_list [parse_yields]: "toks_ok ts \<Longrightarrow> yields (\<lambda>cs. cs \<noteq> [] \<and> list_all (\<lambda>c. word_ok (cd_name c)) cs) (column_list ts)"
  by (rule yields_comma_list [OF column_list.simps yields_column shorter [OF sound_column]])

lemma yields_value_list [parse_yields]: "toks_ok ts \<Longrightarrow> yields (\<lambda>vs. vs \<noteq> [] \<and> list_all value_ok vs) (value_list ts)"
  by (rule yields_comma_list [OF value_list.simps yields_literal shorter [OF sound_literal]])

lemma yields_assignment [parse_yields]: "toks_ok ts \<Longrightarrow> yields (\<lambda>(c, v). word_ok c \<and> value_ok v) (assignment ts)"
  unfolding assignment_def
  by (rule yields_bind [OF yields_identifier], assumption, unfold prod.case, rule yields_bind [OF yields_expect_simple], assumption,
      unfold prod.case, rule yields_bind [OF yields_literal]) auto

lemma yields_assignment_list [parse_yields]:
  "toks_ok ts \<Longrightarrow> yields (\<lambda>as. as \<noteq> [] \<and> list_all (\<lambda>(c, v). word_ok c \<and> value_ok v) as) (assignment_list ts)"
  by (rule yields_comma_list [OF assignment_list.simps yields_assignment shorter [OF sound_assignment]])

lemma yields_identifier_list [parse_yields]: "toks_ok ts \<Longrightarrow> yields (\<lambda>ns. ns \<noteq> [] \<and> list_all word_ok ns) (identifier_list k ts)"
proof (induction k ts rule: identifier_list.induct)
  case (1 k ts)
  show ?case
  proof (subst identifier_list.simps, cases "sql_identifier ts")
    case (Inr p)
    obtain n ts1 where p: "p = (n, ts1)" by (cases p)
    with Inr yields_identifier [OF "1.prems"] have n: "word_ok n" "toks_ok ts1" by (auto simp: yields_def)
    show "yields (\<lambda>ns. ns \<noteq> [] \<and> list_all word_ok ns) (rbind (sql_identifier ts) (\<lambda>(name, ts1). rbind (consume_simple k ts1) (\<lambda>(done, ts2).
        if done then Inr ([name], ts2) else rbind (expect_simple TComma (quoted '','') ts2) (\<lambda>(_, ts3).
        rbind (identifier_list k ts3) (\<lambda>(names, ts4). Inr (name # names, ts4))))))"
    proof (cases "consume_simple k ts1")
      case c: (Inr q)
      obtain d ts2 where q: "q = (d, ts2)" by (cases q)
      with c yields_consume_simple [OF n(2), of k] have ts2: "toks_ok ts2" by (auto simp: yields_def)
      show ?thesis
      proof (cases d)
        case False
        show ?thesis
        proof (cases "expect_simple TComma (quoted '','') ts2")
          case e: (Inr u)
          obtain x ts3 where u: "u = (x, ts3)" by (cases u)
          with e yields_expect_simple [OF ts2, of TComma "quoted '',''"] have ts3: "toks_ok ts3" by (auto simp: yields_def)
          have "yields (\<lambda>ns. ns \<noteq> [] \<and> list_all word_ok ns) (identifier_list k ts3)"
            using "1.IH" [OF Inr p [symmetric] c q [symmetric] False e u [symmetric] ts3] .
          then show ?thesis using Inr p c q False e u n by (auto intro: yields_bind)
        qed (use Inr p c q False in simp)
      qed (use Inr p c q ts2 n in simp)
    qed (use Inr p in simp)
  qed simp
qed

lemma yields_identifier_list_until_word [parse_yields]:
  "toks_ok ts \<Longrightarrow> yields (\<lambda>ns. ns \<noteq> [] \<and> list_all word_ok ns) (identifier_list_until_word w ts)"
proof (induction w ts rule: identifier_list_until_word.induct)
  case (1 w ts)
  show ?case
  proof (subst identifier_list_until_word.simps, cases "sql_identifier ts")
    case (Inr p)
    obtain n ts1 where p: "p = (n, ts1)" by (cases p)
    with Inr yields_identifier [OF "1.prems"] have n: "word_ok n" "toks_ok ts1" by (auto simp: yields_def)
    show "yields (\<lambda>ns. ns \<noteq> [] \<and> list_all word_ok ns) (rbind (sql_identifier ts) (\<lambda>(name, ts1). rbind (check_word w ts1) (\<lambda>done.
        if done then Inr ([name], ts1) else rbind (expect_simple TComma (quoted '','') ts1) (\<lambda>(_, ts3).
        rbind (identifier_list_until_word w ts3) (\<lambda>(names, ts4). Inr (name # names, ts4))))))"
    proof (cases "check_word w ts1")
      case c: (Inr d)
      show ?thesis
      proof (cases d)
        case False
        show ?thesis
        proof (cases "expect_simple TComma (quoted '','') ts1")
          case e: (Inr u)
          obtain x ts3 where u: "u = (x, ts3)" by (cases u)
          with e yields_expect_simple [OF n(2), of TComma "quoted '',''"] have ts3: "toks_ok ts3" by (auto simp: yields_def)
          have "yields (\<lambda>ns. ns \<noteq> [] \<and> list_all word_ok ns) (identifier_list_until_word w ts3)"
            using "1.IH" [OF Inr p [symmetric] c False e u [symmetric] ts3] .
          then show ?thesis using Inr p c False e u n by (auto intro: yields_bind)
        qed (use Inr p c False in simp)
      qed (use Inr p c n in simp)
    qed (use Inr p in simp)
  qed simp
qed

section \<open>Expressions\<close>

lemma yields_column_name: "ts \<noteq> [] \<Longrightarrow> tk_kind (hd ts) = TWord w \<Longrightarrow> toks_ok ts \<Longrightarrow> yields (\<lambda>c. c = w \<and> word_ok c) (sql_identifier ts)"
  by (cases ts) (auto simp: sql_identifier_def parse_word_def advance_def)

lemma yields_literal_expr: "toks_ok ts \<Longrightarrow> yields expr_ok (rbind (literal ts) (\<lambda>(v, ts). Inr (ELiteral v, ts)))"
  by (rule yields_bind [OF yields_literal]) auto

lemma yields_primary:
  assumes "\<And>ts. toks_ok ts \<Longrightarrow> yields expr_ok (nested ts)" and "toks_ok ts"
  shows "yields expr_ok (primary nested ts)"
  unfolding primary_def
proof (rule yields_bind [OF yields_consume_simple [OF assms(2)]], unfold prod.case)
  fix paren ts1 assume ts1: "toks_ok ts1"
  have "yields expr_ok (rbind (nested ts1) (\<lambda>(e, ts). rbind (expect_simple TRightParen (quoted '')'') ts) (\<lambda>(_, ts). Inr (e, ts))))"
    by (rule yields_bind [OF assms(1) [OF ts1]], unfold prod.case, rule yields_bind [OF yields_expect_simple]) auto
  moreover have "yields expr_ok (case tk_kind t of
        TInteger _ \<Rightarrow> rbind (literal ts1) (\<lambda>(v, ts). Inr (ELiteral v, ts))
      | TString _ \<Rightarrow> rbind (literal ts1) (\<lambda>(v, ts). Inr (ELiteral v, ts))
      | TWord w \<Rightarrow>
          if literal_word w then rbind (literal ts1) (\<lambda>(v, ts). Inr (ELiteral v, ts))
          else rbind (sql_identifier ts1) (\<lambda>(c, ts). Inr (EColumn c, ts))
      | _ \<Rightarrow> expected ''column, literal, or parenthesized expression'' ts1)" if "ts1 \<noteq> []" "t = hd ts1" for t
    using that yields_literal_expr [OF ts1] yields_column_name [OF that(1) _ ts1]
    by (auto split: token_kind.split intro!: yields_bind)
  ultimately show "yields expr_ok (if paren then rbind (nested ts1) (\<lambda>(e, ts). rbind (expect_simple TRightParen (quoted '')'') ts) (\<lambda>(_, ts). Inr (e, ts)))
      else rbind (peek ts1) (\<lambda>t. case tk_kind t of
        TInteger _ \<Rightarrow> rbind (literal ts1) (\<lambda>(v, ts). Inr (ELiteral v, ts))
      | TString _ \<Rightarrow> rbind (literal ts1) (\<lambda>(v, ts). Inr (ELiteral v, ts))
      | TWord w \<Rightarrow>
          if literal_word w then rbind (literal ts1) (\<lambda>(v, ts). Inr (ELiteral v, ts))
          else rbind (sql_identifier ts1) (\<lambda>(c, ts). Inr (EColumn c, ts))
      | _ \<Rightarrow> expected ''column, literal, or parenthesized expression'' ts1))"
    by (cases paren) (simp_all add: yields_peek)
qed

lemma yields_comparison:
  assumes "\<And>ts. toks_ok ts \<Longrightarrow> yields expr_ok (nested ts)" and "toks_ok ts"
  shows "yields expr_ok (comparison nested ts)"
  unfolding comparison_def
proof (rule yields_bind [OF yields_primary [OF assms]], assumption, unfold prod.case, rule yields_peek)
  fix e ts1 t assume e: "expr_ok e" and ts1: "toks_ok ts1"
  have "yields expr_ok (rbind (primary nested (tl ts1)) (\<lambda>(right, ts). Inr (EBinary oper e right, ts)))" for oper
    by (rule yields_bind [OF yields_primary [OF assms(1) toks_ok_tl [OF ts1]]]) (use e in auto)
  then show "yields expr_ok (case comparison_op (tk_kind t) of
      Some oper \<Rightarrow> rbind (primary nested (tl ts1)) (\<lambda>(right, ts). Inr (EBinary oper e right, ts)) | None \<Rightarrow> Inr (e, ts1))"
    using e ts1 by (simp split: option.split)
qed

lemma yields_and_loop:
  assumes "\<And>ts. toks_ok ts \<Longrightarrow> yields expr_ok (nested ts)"
  shows "expr_ok e \<Longrightarrow> toks_ok ts \<Longrightarrow> yields expr_ok (and_loop n nested e ts)"
proof (induction n arbitrary: e ts)
  case (Suc n)
  show ?case
    unfolding and_loop.simps
  proof (rule yields_bind [OF yields_consume_word [OF Suc.prems(2)]], unfold prod.case)
    fix m ts1 assume ts1: "toks_ok ts1"
    have "yields expr_ok (rbind (comparison nested ts1) (\<lambda>(right, ts). and_loop n nested (EBinary OpAnd e right) ts))"
      by (rule yields_bind [OF yields_comparison [OF assms ts1]]) (use Suc in auto)
    with ts1 Suc.prems(1) show "yields expr_ok (if m then rbind (comparison nested ts1) (\<lambda>(right, ts). and_loop n nested (EBinary OpAnd e right) ts) else Inr (e, ts1))"
      by simp
  qed
qed simp

lemma yields_and_expr:
  assumes "\<And>ts. toks_ok ts \<Longrightarrow> yields expr_ok (nested ts)" and "toks_ok ts"
  shows "yields expr_ok (and_expr nested ts)"
  unfolding and_expr_def by (rule yields_bind [OF yields_comparison [OF assms]]) (use yields_and_loop [OF assms(1)] in auto)

lemma yields_or_loop:
  assumes "\<And>ts. toks_ok ts \<Longrightarrow> yields expr_ok (nested ts)"
  shows "expr_ok e \<Longrightarrow> toks_ok ts \<Longrightarrow> yields expr_ok (or_loop n nested e ts)"
proof (induction n arbitrary: e ts)
  case (Suc n)
  show ?case
    unfolding or_loop.simps
  proof (rule yields_bind [OF yields_consume_word [OF Suc.prems(2)]], unfold prod.case)
    fix m ts1 assume ts1: "toks_ok ts1"
    have "yields expr_ok (rbind (and_expr nested ts1) (\<lambda>(right, ts). or_loop n nested (EBinary OpOr e right) ts))"
      by (rule yields_bind [OF yields_and_expr [OF assms ts1]]) (use Suc in auto)
    with ts1 Suc.prems(1) show "yields expr_ok (if m then rbind (and_expr nested ts1) (\<lambda>(right, ts). or_loop n nested (EBinary OpOr e right) ts) else Inr (e, ts1))"
      by simp
  qed
qed simp

lemma yields_expr_at: "toks_ok ts \<Longrightarrow> yields expr_ok (expr_at n ts)"
proof (induction n arbitrary: ts)
  case (Suc n)
  show ?case
    unfolding expr_at.simps or_expr_def
    by (rule yields_bind [OF yields_and_expr [OF Suc.IH Suc.prems]]) (use yields_or_loop [OF Suc.IH] in auto)
qed simp

lemma yields_parse_expr [parse_yields]: "toks_ok ts \<Longrightarrow> yields expr_ok (parse_expr ts)"
  unfolding parse_expr_def by (rule yields_expr_at)

section \<open>Statements\<close>

lemma yields_where [parse_yields]: "toks_ok ts \<Longrightarrow> yields filter_ok (where_clause ts)"
  unfolding where_clause_def
  by (rule yields_bind [OF yields_consume_word]) (auto simp: filter_ok_def intro!: yields_bind [OF yields_parse_expr])

lemma yields_order [parse_yields]: "toks_ok ts \<Longrightarrow> yields (\<lambda>o'. case o' of None \<Rightarrow> True | Some (c, _) \<Rightarrow> word_ok c) (order_clause ts)"
  unfolding order_clause_def
  by (rule yields_bind [OF yields_consume_word])
     (auto intro!: yields_bind [OF yields_expect_word] yields_bind [OF yields_identifier] yields_bind [OF yields_consume_word])

lemma nonnegative_unat: "0 \<le> sint (v :: i64) \<Longrightarrow> unat v < 2 ^ 63"
proof -
  assume n: "0 \<le> sint v"
  have "uint v = sint v mod 2 ^ 64" using uint_word_of_int [where 'a = 64 and k = "sint v"] by simp
  with n sint_lt [of v] have "uint v < 2 ^ 63" by simp
  then have "int (unat v) < int (2 ^ 63)" by (simp only: uint_nat of_nat_power of_nat_numeral)
  then show ?thesis by (simp only: of_nat_less_iff)
qed

lemma yields_limit [parse_yields]: "toks_ok ts \<Longrightarrow> yields (\<lambda>l. case l of None \<Rightarrow> True | Some n \<Rightarrow> n < 2 ^ 63) (limit_clause ts)"
  unfolding limit_clause_def
  by (rule yields_bind [OF yields_consume_word])
     (auto simp: Let_def intro!: yields_bind [OF yields_advance] nonnegative_unat [simplified] split: token_kind.split)

lemma yields_projection [parse_yields]:
  "toks_ok ts \<Longrightarrow> yields (\<lambda>p. case p of AllColumns \<Rightarrow> True | Columns cs \<Rightarrow> cs \<noteq> [] \<and> list_all word_ok cs) (select_projection ts)"
  unfolding select_projection_def
  by (rule yields_bind [OF yields_consume_simple]) (auto intro!: yields_bind [OF yields_identifier_list_until_word])

lemma yields_select [parse_yields]:
  assumes "toks_ok ts"
  shows "yields select_ok (select_after_keyword ts)"
  unfolding select_after_keyword_def
  by (rule yields_bind [OF yields_projection [OF assms]], unfold prod.case, rule yields_bind [OF yields_expect_word], assumption,
      unfold prod.case, rule yields_bind [OF yields_identifier], assumption, unfold prod.case,
      rule yields_bind [OF yields_where], assumption, unfold prod.case, rule yields_bind [OF yields_order], assumption,
      unfold prod.case, rule yields_bind [OF yields_limit], assumption) (simp add: select_ok_def)

lemma yields_create [parse_yields]:
  assumes "toks_ok ts"
  shows "yields statement_ok (create_table ts)"
  unfolding create_table_def
  by (rule yields_bind [OF yields_identifier [OF assms]], unfold prod.case, rule yields_bind [OF yields_expect_simple], assumption,
      unfold prod.case, rule yields_bind [OF yields_column_list], assumption, unfold prod.case,
      rule yields_bind [OF yields_expect_simple], assumption) simp

lemma yields_insert [parse_yields]:
  assumes "toks_ok ts"
  shows "yields statement_ok (parse_insert ts)"
  unfolding parse_insert_def
  by (rule yields_bind [OF yields_identifier [OF assms]], unfold prod.case, rule yields_bind [OF yields_expect_simple], assumption,
      unfold prod.case, rule yields_bind [OF yields_identifier_list], assumption, unfold prod.case,
      rule yields_bind [OF yields_expect_word], assumption, unfold prod.case, rule yields_bind [OF yields_expect_simple], assumption,
      unfold prod.case, rule yields_bind [OF yields_value_list], assumption, unfold prod.case,
      rule yields_bind [OF yields_expect_simple], assumption) simp

lemma yields_update [parse_yields]:
  assumes "toks_ok ts"
  shows "yields statement_ok (parse_update ts)"
  unfolding parse_update_def
  by (rule yields_bind [OF yields_identifier [OF assms]], unfold prod.case, rule yields_bind [OF yields_expect_word], assumption,
      unfold prod.case, rule yields_bind [OF yields_assignment_list], assumption, unfold prod.case,
      rule yields_bind [OF yields_where], assumption) simp

lemma yields_delete [parse_yields]:
  assumes "toks_ok ts"
  shows "yields statement_ok (parse_delete ts)"
  unfolding parse_delete_def
  by (rule yields_bind [OF yields_identifier [OF assms]], unfold prod.case, rule yields_bind [OF yields_where], assumption) simp

lemma yields_on_word:
  "(\<And>ts. toks_ok ts \<Longrightarrow> yields P (yes ts)) \<Longrightarrow> (\<And>ts. toks_ok ts \<Longrightarrow> yields P (no ts)) \<Longrightarrow> toks_ok ts \<Longrightarrow> yields P (on_word w yes no ts)"
  unfolding on_word_def by (rule yields_bind [OF yields_consume_word]) auto

lemma yields_after_word: "(\<And>ts. toks_ok ts \<Longrightarrow> yields P (f ts)) \<Longrightarrow> toks_ok ts \<Longrightarrow> yields P (rbind (expect_word w ts) (\<lambda>(_, ts). f ts))"
  by (rule yields_bind [OF yields_expect_word]) auto

lemma yields_statement: "toks_ok ts \<Longrightarrow> yields statement_ok (statement ts)"
  unfolding statement_def
  by (intro yields_on_word yields_after_word) (auto intro: parse_yields intro!: yields_bind [OF yields_select])

lemma parse_loop_ok: "toks_ok ts \<Longrightarrow> parse_loop ts = Inr sts \<Longrightarrow> list_all statement_ok sts"
proof (induction ts arbitrary: sts rule: parse_loop.induct)
  case (1 ts)
  from "1.prems"(2) [unfolded parse_loop.simps [of ts] rbind_Inr_iff] obtain e where e: "at_end ts = Inr e"
    and r: "(if e then Inr [] else rbind (consume_simple TSemicolon ts) (\<lambda>(separator, ts1).
      if separator then parse_loop ts1 else rbind (statement ts1) (\<lambda>(st, ts2). rbind (consume_simple TSemicolon ts2) (\<lambda>(separator, ts3).
      rbind (at_end ts3) (\<lambda>end. if \<not> separator \<and> \<not> end then expected (quoted '';'' @ '' between statements'') ts3
      else rbind (parse_loop ts3) (\<lambda>sts. Inr (st # sts))))))) = Inr sts" by blast
  show ?case
  proof (cases e)
    case False
    with r obtain sep ts1 where c: "consume_simple TSemicolon ts = Inr (sep, ts1)" by (auto simp: rbind_Inr_iff)
    with yields_consume_simple [OF "1.prems"(1), of TSemicolon] have ts1: "toks_ok ts1" by (auto simp: yields_def)
    show ?thesis
    proof (cases sep)
      case True
      with r False c have "parse_loop ts1 = Inr sts" by simp
      from "1.IH"(1) [OF e False c refl True ts1 this] show ?thesis .
    next
      case no_sep: False
      with r False c obtain st ts2 sep3 ts3 e3 rest where st: "statement ts1 = Inr (st, ts2)"
        and c3: "consume_simple TSemicolon ts2 = Inr (sep3, ts3)" and e3: "at_end ts3 = Inr e3" and go: "\<not> (\<not> sep3 \<and> \<not> e3)"
        and rest: "parse_loop ts3 = Inr rest" and sts: "sts = st # rest"
        by (auto simp: rbind_Inr_iff expected_def split: if_splits)
      from yields_statement [OF ts1] st have s: "statement_ok st" "toks_ok ts2" by (auto simp: yields_def)
      from yields_consume_simple [OF s(2), of TSemicolon] c3 have "toks_ok ts3" by (auto simp: yields_def)
      from "1.IH"(2) [OF e False c refl no_sep st refl c3 refl e3 go this rest] s(1) show ?thesis by (simp add: sts)
    qed
  qed (use r in simp)
qed

lemma parse_statement_ok: "parse source = Inr sts \<Longrightarrow> list_all statement_ok sts"
  using lex_loop_ok parse_loop_ok by (fastforce simp: parse_def lex_def rbind_Inr_iff split: if_splits)

end
