(* ===== verification/Sql_Engine.thy ===== *)
theory Sql_Engine
  imports Sql_Relational Sql_Wellformed
begin

text \<open>
  The engine over the transactional store: its invariant, the runs of an engine opened on an empty log with any I/O
  errors, and that every statement keeps the invariant and refines its operation on a database with an optional open
  transaction.
\<close>

section \<open>The engine\<close>

text \<open>What the next statement sees: the view of the active transaction, or the committed state.\<close>

definition committed :: "inner \<Rightarrow> rstring \<rightharpoonup> rstring" where
  "committed s = (\<lambda>k. visible_value (mv_versions s) k (mv_commit_ts s))"

definition engine_view :: "sql_engine \<Rightarrow> rstring \<rightharpoonup> rstring" where
  "engine_view en = (case en_active en of None \<Rightarrow> committed (en_store en) | Some t \<Rightarrow> view (en_store en, t))"

definition engine_sys :: "sql_engine \<Rightarrow> mvcc_sys" where
  "engine_sys en = \<lparr>sys_store = en_store en,
     sys_txns = (case en_active en of None \<Rightarrow> Map.empty | Some t \<Rightarrow> [txn_id t \<mapsto> t]), sys_hist = []\<rparr>"

text \<open>The engine runs one transaction at a time, so its snapshot is the newest commit.\<close>

definition engine_inv :: "sql_engine \<Rightarrow> bool" where
  "engine_inv en \<longleftrightarrow> mem_inv (engine_sys en) \<and> db_ok (committed (en_store en))
    \<and> (\<forall>t. en_active en = Some t \<longrightarrow> txn_snapshot t = mv_commit_ts (en_store en) \<and> db_ok (view (en_store en, t)))"

lemma engine_sys_simps [simp]:
  "engine_sys \<lparr>en_store = s, en_active = None\<rparr> = started s"
  "engine_sys \<lparr>en_store = s, en_active = Some t\<rparr> = \<lparr>sys_store = s, sys_txns = [txn_id t \<mapsto> t], sys_hist = []\<rparr>"
  by (simp_all add: engine_sys_def started_def)

lemma engine_invD:
  assumes "engine_inv \<lparr>en_store = s, en_active = Some t\<rparr>"
  shows "mem_inv \<lparr>sys_store = s, sys_txns = [txn_id t \<mapsto> t], sys_hist = []\<rparr>" and "sound_state (s, t)"
    and "txn_snapshot t = mv_commit_ts s" and "db_ok (committed s)"
proof -
  show m: "mem_inv \<lparr>sys_store = s, sys_txns = [txn_id t \<mapsto> t], sys_hist = []\<rparr>" using assms by (simp add: engine_inv_def)
  from mem_invD(1) [OF m] mem_invD(4) [OF m, of "txn_id t" t] assms show "sound_state (s, t)"
    by (simp add: sound_state_def live_def engine_inv_def txn_ok_def)
  from assms show "txn_snapshot t = mv_commit_ts s" and "db_ok (committed s)" by (simp_all add: engine_inv_def)
qed

lemma mem_inv_write:
  assumes "mem_inv x" and "sys_txns x i = Some t" and "bm_inv ws"
  shows "mem_inv (x\<lparr>sys_store := (sys_store x)\<lparr>mv_wal := w\<rparr>, sys_txns := (sys_txns x)(i \<mapsto> t\<lparr>txn_writes := ws\<rparr>)\<rparr>)"
  using assms mem_invD(4) [OF assms(1,2)] by (auto simp: mem_inv_def txn_ok_def)

lemma engine_inv_same:
  assumes "engine_inv \<lparr>en_store = s, en_active = Some t\<rparr>" and "same_txn (s, t) st'" and "sound_state st'"
  shows "engine_inv \<lparr>en_store = fst st', en_active = Some (snd st')\<rparr>"
proof -
  note inv = engine_invD [OF assms(1)]
  from assms(2) obtain w ws where st': "st' = (s\<lparr>mv_wal := w\<rparr>, t\<lparr>txn_writes := ws\<rparr>)"
    by (cases st') (auto simp: same_txn_def)
  have ws: "bm_inv ws" "db_ok (view (s\<lparr>mv_wal := w\<rparr>, t\<lparr>txn_writes := ws\<rparr>))"
    using assms(3) unfolding st' sound_state_def live_def by simp_all
  have "mem_inv \<lparr>sys_store = s\<lparr>mv_wal := w\<rparr>, sys_txns = [txn_id t \<mapsto> t\<lparr>txn_writes := ws\<rparr>], sys_hist = []\<rparr>"
    using mem_inv_write [OF inv(1) _ ws(1), of "txn_id t" t w] by simp
  then have "mem_inv (engine_sys \<lparr>en_store = s\<lparr>mv_wal := w\<rparr>, en_active = Some (t\<lparr>txn_writes := ws\<rparr>)\<rparr>)" by (simp add: engine_sys_def)
  moreover have "committed (s\<lparr>mv_wal := w\<rparr>) = committed s" by (simp add: committed_def)
  ultimately show ?thesis
    unfolding st' engine_inv_def fst_conv snd_conv sql_engine.simps option.inject
    using inv(3,4) ws(2) by (metis inner.select_convs(5) inner.update_convs(1) inner.surjective transaction.select_convs(2) transaction.update_convs(3) transaction.surjective)
qed

lemma engine_commit:
  assumes "engine_inv \<lparr>en_store = s, en_active = Some t\<rparr>" and "commit t s = (r, s')"
  shows "engine_inv \<lparr>en_store = s', en_active = None\<rparr>"
    and "committed s' = (case r of Inr _ \<Rightarrow> view (s, t) | Inl _ \<Rightarrow> committed s)"
proof -
  note inv = engine_invD [OF assms(1)]
  let ?x = "\<lparr>sys_store = s, sys_txns = [txn_id t \<mapsto> t], sys_hist = []\<rparr>"
  have t: "\<not> txn_finished t" "\<not> poisoned s" "bm_inv (txn_writes t)"
    using inv(2) by (auto simp: sound_state_def live_def)
  have "mem_inv (started s') \<and> committed s' = (case r of Inr _ \<Rightarrow> view (s, t) | Inl _ \<Rightarrow> committed s)"
  proof (cases r)
    case (Inl e)
    from commit_Inl [OF assms(2) [unfolded Inl] t(1,2)] obtain w where
      s': "s' = s\<lparr>mv_wal := w, mv_active := bm_remove (txn_id t) (mv_active s)\<rparr>" by blast
    have "mem_inv (started s')" using mem_inv_close [OF inv(1), of "txn_id t" t w] by (simp add: s' started_def)
    with Inl s' show ?thesis by (simp add: committed_def)
  next
    case (Inr ts)
    from commit_Inr [OF assms(2) [unfolded Inr]] have ts: "checked_add_u64 (mv_commit_ts s) 1 = Some ts"
      and v: "mv_versions s' = apply_versions (mv_versions s) (txn_writes t) ts" "mv_commit_ts s' = ts" by auto
    have "mem_inv (started s')"
      using mem_inv_commit [OF inv(1), of "txn_id t" t ts s' "[]"] assms(2) Inr by (simp add: started_def)
    moreover have "committed s' = view (s, t)"
      using visible_value_present [OF _ checked_succ_u64(2) [OF ts] t(3), of "mv_versions s"] mem_invD(3) [OF inv(1)] inv(3) v
      by (simp add: committed_def view_def cong: option.case_cong)
    ultimately show ?thesis using Inr by simp
  qed
  moreover have "db_ok (view (s, t))" using inv(2) by (simp add: sound_state_def)
  ultimately show "engine_inv \<lparr>en_store = s', en_active = None\<rparr>"
    and "committed s' = (case r of Inr _ \<Rightarrow> view (s, t) | Inl _ \<Rightarrow> committed s)"
    using inv(4) by (auto simp: engine_inv_def split: sum.splits)
qed

lemma engine_abort:
  assumes "engine_inv \<lparr>en_store = s, en_active = Some t\<rparr>" and "abort t s = (r, s')"
  shows "engine_inv \<lparr>en_store = s', en_active = None\<rparr>" and "committed s' = committed s"
proof -
  note inv = engine_invD [OF assms(1)]
  have t: "\<not> txn_finished t" "\<not> poisoned s" using inv(2) by (auto simp: sound_state_def live_def)
  from abort_frame [OF assms(2) t] obtain w where
    s': "s' = s\<lparr>mv_wal := w, mv_active := bm_remove (txn_id t) (mv_active s)\<rparr>" by blast
  have "mem_inv (started s')" using mem_inv_close [OF inv(1), of "txn_id t" t w] by (simp add: s' started_def)
  with inv(4) show "engine_inv \<lparr>en_store = s', en_active = None\<rparr>" by (simp add: engine_inv_def s' committed_def)
  show "committed s' = committed s" by (simp add: s' committed_def)
qed

lemma engine_begin:
  assumes "engine_inv \<lparr>en_store = s, en_active = None\<rparr>" and "begin_txn s = (r, s')"
  shows "case r of Inl _ \<Rightarrow> engine_inv \<lparr>en_store = s', en_active = None\<rparr> \<and> committed s' = committed s
    | Inr t \<Rightarrow> engine_inv \<lparr>en_store = s', en_active = Some t\<rparr> \<and> view (s', t) = committed s \<and> committed s' = committed s"
proof (cases r)
  case (Inl e)
  from begin_txn_Inl [OF assms(2) [unfolded Inl]] obtain w n where s': "s' = s\<lparr>mv_wal := w, mv_next_txn := n\<rparr>" "mv_next_txn s \<le> n" by blast
  have "mem_inv (started s')" using mem_inv_wal [of "started s" n w] assms(1) s' by (simp add: engine_inv_def started_def)
  with assms(1) s' Inl show ?thesis by (simp add: engine_inv_def committed_def)
next
  case (Inr t)
  from begin_txn_Inr [OF assms(2) [unfolded Inr]] have t: "txn_snapshot t = mv_commit_ts s" "txn_writes t = []"
    "mv_versions s' = mv_versions s" "mv_commit_ts s' = mv_commit_ts s" by auto
  then have v: "view (s', t) = committed s" "committed s' = committed s" by (simp_all add: view_def committed_def)
  have "mem_inv \<lparr>sys_store = s', sys_txns = [txn_id t \<mapsto> t], sys_hist = []\<rparr>"
    using mem_inv_begin [of "started s" t s'] assms Inr by (simp add: engine_inv_def started_def)
  with v t assms(1) Inr show ?thesis by (simp add: engine_inv_def)
qed

section \<open>Statements of the engine\<close>

text \<open>The specification of a statement with an optional open transaction, and what a failed statement may do.\<close>

type_synonym sql_state = "database \<times> database option"

definition abs_engine :: "sql_engine \<Rightarrow> sql_state" where
  "abs_engine en = (database (committed (en_store en)), map_option (\<lambda>t. database (view (en_store en, t))) (en_active en))"

fun sql_spec :: "sql_statement \<Rightarrow> sql_state \<Rightarrow> sql_result \<Rightarrow> sql_state \<Rightarrow> bool" where
  "sql_spec SBegin (d, a) r y \<longleftrightarrow> a = None \<and> r = Begun \<and> y = (d, Some d)"
| "sql_spec SCommit (d, a) r y \<longleftrightarrow> (\<exists>w. a = Some w \<and> r = Committed \<and> y = (w, None))"
| "sql_spec SRollback (d, a) r y \<longleftrightarrow> a \<noteq> None \<and> r = RolledBack \<and> y = (d, None)"
| "sql_spec stm (d, a) r y \<longleftrightarrow> (case a of
     None \<Rightarrow> \<exists>d'. relational stm d r d' \<and> y = (d', None)
   | Some w \<Rightarrow> \<exists>w'. relational stm w r w' \<and> y = (d, Some w'))"

definition sql_failed :: "sql_state \<Rightarrow> sql_state \<Rightarrow> bool" where
  "sql_failed x y \<longleftrightarrow> fst y = fst x \<and> (snd x = None \<longrightarrow> snd y = None)"

definition engine_ok :: "sql_statement \<Rightarrow> sql_engine \<Rightarrow> sql_result may_fail \<times> sql_engine \<Rightarrow> bool" where
  "engine_ok stm en out \<longleftrightarrow> (case out of (r, en') \<Rightarrow> engine_inv en' \<and> (case r of
     Inr x \<Rightarrow> sql_spec stm (abs_engine en) x (abs_engine en')
   | Inl (Failed e) \<Rightarrow> sql_failed (abs_engine en) (abs_engine en')
   | Inl Panicked \<Rightarrow> False))"

lemma engine_cases:
  fixes en :: sql_engine
  obtains (idle) s where "en = \<lparr>en_store = s, en_active = None\<rparr>" | (active) s t where "en = \<lparr>en_store = s, en_active = Some t\<rparr>"
  by (cases en, rename_tac s a, case_tac a) auto

lemma abs_engine_simps [simp]:
  "abs_engine \<lparr>en_store = s, en_active = None\<rparr> = (database (committed s), None)"
  "abs_engine \<lparr>en_store = s, en_active = Some t\<rparr> = (database (committed s), Some (database (view (s, t))))"
  by (simp_all add: abs_engine_def)

lemma committed_same: "same_txn st st' \<Longrightarrow> committed (fst st') = committed (fst st)"
  by (auto simp: same_txn_def committed_def)

lemma with_transaction_active:
  assumes "engine_inv \<lparr>en_store = s, en_active = Some t\<rparr>" and "statement_ok stm"
    and spec: "\<And>d w r y. sql_spec stm (d, Some w) r y \<longleftrightarrow> (\<exists>w'. relational stm w r w' \<and> y = (d, Some w'))"
  shows "engine_ok stm \<lparr>en_store = s, en_active = Some t\<rparr> (with_transaction (execute_data stm) \<lparr>en_store = s, en_active = Some t\<rparr>)"
proof -
  note inv = engine_invD [OF assms(1)]
  obtain r st' where e: "execute_data stm (s, t) = (r, st')" by (cases "execute_data stm (s, t)")
  with runs_statement [OF inv(2) assms(2)] have q: "r \<noteq> Inl Panicked" "sound_state st'" "same_txn (s, t) st'"
    "\<And>x. r = Inr x \<Longrightarrow> relational stm (database (view (s, t))) x (database (view st'))" by (auto simp: runs_def)
  have w: "with_transaction (execute_data stm) \<lparr>en_store = s, en_active = Some t\<rparr> = (r, \<lparr>en_store = fst st', en_active = Some (snd st')\<rparr>)"
    using e by (simp add: with_transaction_def case_prod_unfold)
  have "engine_inv \<lparr>en_store = fst st', en_active = Some (snd st')\<rparr>" by (rule engine_inv_same [OF assms(1) q(3,2)])
  moreover have "committed (fst st') = committed s" using committed_same [OF q(3)] by simp
  ultimately show ?thesis
    using q(1,4) by (auto simp: engine_ok_def w spec sql_failed_def split: sum.split failure.split)
qed

lemma with_transaction_idle:
  assumes "engine_inv \<lparr>en_store = s, en_active = None\<rparr>" and "statement_ok stm"
    and spec: "\<And>d r y. sql_spec stm (d, None) r y \<longleftrightarrow> (\<exists>d'. relational stm d r d' \<and> y = (d', None))"
  shows "engine_ok stm \<lparr>en_store = s, en_active = None\<rparr> (with_transaction (execute_data stm) \<lparr>en_store = s, en_active = None\<rparr>)"
proof -
  obtain b s1 where b: "begin_txn s = (b, s1)" by (cases "begin_txn s")
  note beg = engine_begin [OF assms(1) b]
  show ?thesis
  proof (cases b)
    case (Inl e)
    with beg b show ?thesis by (simp add: with_transaction_def engine_ok_def sql_failed_def fail_with_def)
  next
    case (Inr t)
    with beg have inv1: "engine_inv \<lparr>en_store = s1, en_active = Some t\<rparr>" and v: "view (s1, t) = committed s" "committed s1 = committed s" by auto
    obtain r st' where e: "execute_data stm (s1, t) = (r, st')" by (cases "execute_data stm (s1, t)")
    with runs_statement [OF engine_invD(2) [OF inv1] assms(2)] v have q: "r \<noteq> Inl Panicked" "sound_state st'" "same_txn (s1, t) st'"
      "\<And>x. r = Inr x \<Longrightarrow> relational stm (database (committed s)) x (database (view st'))" by (auto simp: runs_def)
    have inv2: "engine_inv \<lparr>en_store = fst st', en_active = Some (snd st')\<rparr>" by (rule engine_inv_same [OF inv1 q(3,2)])
    have com: "committed (fst st') = committed s" using committed_same [OF q(3)] v by simp
    show ?thesis
    proof (cases r)
      case (Inl f)
      then obtain err where "f = Failed err" using q(1) by (cases f) auto
      obtain ra s2 where a: "abort (snd st') (fst st') = (ra, s2)" by fastforce
      with engine_abort [OF inv2 a] Inl \<open>f = Failed err\<close> e b \<open>b = Inr t\<close> com show ?thesis
        by (cases st') (simp add: with_transaction_def engine_ok_def sql_failed_def fail_with_def)
    next
      case (Inr x)
      obtain rc s2 where c: "commit (snd st') (fst st') = (rc, s2)" by fastforce
      with engine_commit [OF inv2 c] Inr e b \<open>b = Inr t\<close> com q(4) [OF Inr] show ?thesis
        by (cases st'; cases rc) (auto simp: with_transaction_def engine_ok_def sql_failed_def fail_with_def spec)
    qed
  qed
qed

lemma execute_statement_ok:
  assumes "engine_inv en" and "statement_ok stm"
  shows "engine_ok stm en (execute_statement stm en)"
proof (cases en rule: engine_cases)
  case (idle s)
  obtain b s1 where b: "begin_txn s = (b, s1)" by (cases "begin_txn s")
  note idle_spec = with_transaction_idle [OF assms(1) [unfolded idle] assms(2)]
  show ?thesis
    unfolding idle using idle_spec engine_begin [OF assms(1) [unfolded idle] b] b assms(1)
    by (cases stm; cases b) (auto simp: engine_ok_def sql_failed_def fail_with_def idle)
next
  case (active s t)
  obtain rc s1 where c: "commit t s = (rc, s1)" by (cases "commit t s")
  obtain ra s2 where a: "abort t s = (ra, s2)" by (cases "abort t s")
  note active_spec = with_transaction_active [OF assms(1) [unfolded active] assms(2)]
  note inv = assms(1) [unfolded active]
  show ?thesis
    unfolding active using active_spec engine_commit [OF inv c] engine_abort [OF inv a] c a inv
    by (cases stm; cases rc; cases ra) (auto simp: engine_ok_def sql_failed_def fail_with_def)
qed

section \<open>Statements are steps of the transactional store\<close>

definition active_txns :: "sql_engine \<Rightarrow> u64 \<rightharpoonup> transaction" where
  "active_txns en = (case en_active en of None \<Rightarrow> Map.empty | Some t \<Rightarrow> [txn_id t \<mapsto> t])"

definition models :: "mvcc_sys \<Rightarrow> sql_engine \<Rightarrow> bool" where
  "models x en \<longleftrightarrow> sys_store x = en_store en \<and> sys_txns x = active_txns en"

definition reaches :: "sql_engine \<Rightarrow> sql_engine \<Rightarrow> bool" where
  "reaches en en' \<longleftrightarrow> (\<forall>x. models x en \<longrightarrow> (\<exists>y. mvcc_step\<^sup>*\<^sup>* x y \<and> models y en'))"

lemma reaches_refl [simp]: "reaches en en"
  by (auto simp: reaches_def)

lemma reaches_trans: "reaches a b \<Longrightarrow> reaches b c \<Longrightarrow> reaches a c"
  unfolding reaches_def by (meson rtranclp_trans)

lemma models_simps:
  "models x \<lparr>en_store = s, en_active = None\<rparr> \<longleftrightarrow> sys_store x = s \<and> sys_txns x = Map.empty"
  "models x \<lparr>en_store = s, en_active = Some t\<rparr> \<longleftrightarrow> sys_store x = s \<and> sys_txns x = [txn_id t \<mapsto> t]"
  by (simp_all add: models_def active_txns_def)

lemma reachesI: "(\<And>x. models x en \<Longrightarrow> \<exists>y. mvcc_step x y \<and> models y en') \<Longrightarrow> reaches en en'"
  unfolding reaches_def by (meson r_into_rtranclp)

lemma reaches_begin:
  assumes "begin_txn s = (b, s')"
  shows "reaches \<lparr>en_store = s, en_active = None\<rparr> \<lparr>en_store = s', en_active = (case b of Inl _ \<Rightarrow> None | Inr t \<Rightarrow> Some t)\<rparr>"
proof (rule reachesI)
  fix x assume x: "models x \<lparr>en_store = s, en_active = None\<rparr>"
  show "\<exists>y. mvcc_step x y \<and> models y \<lparr>en_store = s', en_active = (case b of Inl _ \<Rightarrow> None | Inr t \<Rightarrow> Some t)\<rparr>"
  proof (cases b)
    case (Inl e)
    with x assms mvcc_step.begin_err [of x e s'] show ?thesis by (auto simp: models_simps)
  next
    case (Inr t)
    with x assms mvcc_step.begin_ok [of x t s'] show ?thesis by (auto simp: models_simps)
  qed
qed

lemma reaches_commit:
  assumes "commit t s = (r, s')"
  shows "reaches \<lparr>en_store = s, en_active = Some t\<rparr> \<lparr>en_store = s', en_active = None\<rparr>"
proof (rule reachesI)
  fix x assume x: "models x \<lparr>en_store = s, en_active = Some t\<rparr>"
  then have t: "sys_txns x (txn_id t) = Some t" by (simp add: models_simps)
  show "\<exists>y. mvcc_step x y \<and> models y \<lparr>en_store = s', en_active = None\<rparr>"
  proof (cases r)
    case (Inl e)
    with x assms mvcc_step.commit_err [OF t, of e s'] show ?thesis by (auto simp: models_simps)
  next
    case (Inr ts)
    with x assms mvcc_step.commit_ok [OF t, of ts s'] show ?thesis by (fastforce simp: models_simps)
  qed
qed

lemma reaches_abort:
  assumes "abort t s = (r, s')"
  shows "reaches \<lparr>en_store = s, en_active = Some t\<rparr> \<lparr>en_store = s', en_active = None\<rparr>"
proof (rule reachesI)
  fix x assume x: "models x \<lparr>en_store = s, en_active = Some t\<rparr>"
  then have t: "sys_txns x (txn_id t) = Some t" by (simp add: models_simps)
  from x assms mvcc_step.abort [OF t, of r s'] show "\<exists>y. mvcc_step x y \<and> models y \<lparr>en_store = s', en_active = None\<rparr>"
    by (auto simp: models_simps)
qed

lemma reaches_same:
  assumes "same_txn (s, t) st'"
  shows "reaches \<lparr>en_store = s, en_active = Some t\<rparr> \<lparr>en_store = fst st', en_active = Some (snd st')\<rparr>"
  unfolding reaches_def
proof (intro allI impI)
  fix x assume x: "models x \<lparr>en_store = s, en_active = Some t\<rparr>"
  from assms have id: "txn_id (snd st') = txn_id t" by (auto simp: same_txn_def)
  from assms have "follows (s, t) st'" by (simp add: same_txn_def)
  from this [unfolded follows_def, rule_format, of x "txn_id t"] x
  have "mvcc_step\<^sup>*\<^sup>* x (x\<lparr>sys_store := fst st', sys_txns := (sys_txns x)(txn_id t \<mapsto> snd st')\<rparr>)"
    by (simp add: models_simps)
  moreover have "models (x\<lparr>sys_store := fst st', sys_txns := (sys_txns x)(txn_id t \<mapsto> snd st')\<rparr>) \<lparr>en_store = fst st', en_active = Some (snd st')\<rparr>"
    using x id by (simp add: models_simps)
  ultimately show "\<exists>y. mvcc_step\<^sup>*\<^sup>* x y \<and> models y \<lparr>en_store = fst st', en_active = Some (snd st')\<rparr>" by blast
qed

lemma reaches_data:
  assumes "engine_inv en" and "statement_ok stm"
  shows "reaches en (snd (with_transaction (execute_data stm) en))"
proof (cases en rule: engine_cases)
  case (active s t)
  obtain r st' where e: "execute_data stm (s, t) = (r, st')" by (cases "execute_data stm (s, t)")
  with runs_statement [OF engine_invD(2) [OF assms(1) [unfolded active]] assms(2)] have "same_txn (s, t) st'" by (auto simp: runs_def)
  from reaches_same [OF this] e show ?thesis by (simp add: active with_transaction_def case_prod_unfold)
next
  case (idle s)
  obtain b s1 where b: "begin_txn s = (b, s1)" by (cases "begin_txn s")
  note beg = engine_begin [OF assms(1) [unfolded idle] b] reaches_begin [OF b]
  show ?thesis
  proof (cases b)
    case (Inl e)
    with beg(2) b show ?thesis by (simp add: idle with_transaction_def)
  next
    case (Inr t)
    then have inv1: "engine_inv \<lparr>en_store = s1, en_active = Some t\<rparr>" using beg(1) by simp
    obtain r st' where e: "execute_data stm (s1, t) = (r, st')" by (cases "execute_data stm (s1, t)")
    with runs_statement [OF engine_invD(2) [OF inv1] assms(2)] have q: "r \<noteq> Inl Panicked" "same_txn (s1, t) st'" by (auto simp: runs_def)
    have mid: "reaches en \<lparr>en_store = fst st', en_active = Some (snd st')\<rparr>"
      using beg(2) reaches_same [OF q(2)] Inr unfolding idle by (auto intro: reaches_trans)
    obtain rc s2 where c: "commit (snd st') (fst st') = (rc, s2)" by fastforce
    obtain ra s3 where a: "abort (snd st') (fst st') = (ra, s3)" by fastforce
    from q(1) mid reaches_commit [OF c] reaches_abort [OF a] b Inr e c a show ?thesis
      unfolding idle by (cases st'; cases r; cases rc)
        (auto simp: with_transaction_def split: failure.splits intro: reaches_trans)
  qed
qed

lemma reaches_statement:
  assumes "engine_inv en" and "statement_ok stm" and "execute_statement stm en = (r, en')"
  shows "reaches en en'"
proof (cases "stm = SBegin \<or> stm = SCommit \<or> stm = SRollback")
  case True
  obtain b s1 where b: "begin_txn (en_store en) = (b, s1)" by fastforce
  show ?thesis
  proof (cases en rule: engine_cases)
    case (idle s)
    with True reaches_begin [of s b s1] assms(3) b show ?thesis by (cases b) auto
  next
    case (active s t)
    obtain rc s2 where c: "commit t s = (rc, s2)" by fastforce
    obtain ra s3 where a: "abort t s = (ra, s3)" by fastforce
    from True reaches_commit [OF c] reaches_abort [OF a] assms(3) a c active show ?thesis by (cases rc; cases ra) auto
  qed
next
  case False
  then have "execute_statement stm en = with_transaction (execute_data stm) en" by (cases stm) auto
  with reaches_data [OF assms(1,2)] assms(3) show ?thesis by simp
qed

end
