(* ===== verification/Sql_Properties.thy ===== *)
theory Sql_Properties
  imports Sql_Engine Mvcc_Durability
begin

text \<open>
  The SQL engine end to end: scripts of statements, runs of an engine with any I/O errors, and the life of a database
  through crashes.
\<close>

section \<open>Scripts\<close>

fun sql_specs :: "sql_statement list \<Rightarrow> sql_state \<Rightarrow> sql_result list \<Rightarrow> sql_state \<Rightarrow> bool" where
  "sql_specs [] x rs y \<longleftrightarrow> rs = [] \<and> y = x"
| "sql_specs (stm # sts) x rs y \<longleftrightarrow> (\<exists>r rest z. rs = r # rest \<and> sql_spec stm x r z \<and> sql_specs sts z rest y)"

text \<open>A script ends at the first statement that fails; the statements before it have taken effect.\<close>

definition script_failed :: "sql_statement list \<Rightarrow> sql_state \<Rightarrow> sql_state \<Rightarrow> bool" where
  "script_failed sts x y \<longleftrightarrow> (\<exists>executed stm rest rs z.
     sts = executed @ stm # rest \<and> sql_specs executed x rs z \<and> sql_failed z y)"

definition script_ok :: "sql_statement list \<Rightarrow> sql_engine \<Rightarrow> sql_result list may_fail \<Rightarrow> sql_engine \<Rightarrow> bool" where
  "script_ok sts en out en' \<longleftrightarrow> (case out of
     Inr rs \<Rightarrow> sql_specs sts (abs_engine en) rs (abs_engine en')
   | Inl (Failed e) \<Rightarrow> script_failed sts (abs_engine en) (abs_engine en')
   | Inl Panicked \<Rightarrow> False)"

lemma script_failed_Cons: "sql_spec stm x r z \<Longrightarrow> script_failed sts z y \<Longrightarrow> script_failed (stm # sts) x y"
proof -
  assume s: "sql_spec stm x r z" and "script_failed sts z y"
  then obtain executed st rest rs z' where f: "sts = executed @ st # rest" "sql_specs executed z rs z'" "sql_failed z' y"
    unfolding script_failed_def by blast
  from s f(2) have "sql_specs (stm # executed) x (r # rs) z'" unfolding sql_specs.simps by blast
  moreover have "stm # sts = (stm # executed) @ st # rest" by (simp add: f(1))
  ultimately show ?thesis using f(3) unfolding script_failed_def by blast
qed

lemma execute_all_ok:
  assumes "engine_inv en" and "list_all statement_ok sts" and "execute_all sts en = (out, en')"
  shows "engine_inv en' \<and> reaches en en' \<and> script_ok sts en out en'"
  using assms
proof (induction sts arbitrary: en out en')
  case (Cons stm sts)
  obtain r en1 where e: "execute_statement stm en = (r, en1)" by fastforce
  have stm: "statement_ok stm" and sts: "list_all statement_ok sts" using Cons.prems(2) by auto
  have ok: "engine_inv en1" "case r of Inr x \<Rightarrow> sql_spec stm (abs_engine en) x (abs_engine en1)
      | Inl (Failed e) \<Rightarrow> sql_failed (abs_engine en) (abs_engine en1) | Inl Panicked \<Rightarrow> False"
    using execute_statement_ok [OF Cons.prems(1) stm] e by (auto simp: engine_ok_def)
  note reach = reaches_statement [OF Cons.prems(1) stm e]
  show ?case
  proof (cases r)
    case (Inl f)
    then have out: "out = Inl f" "en' = en1" using Cons.prems(3) e by auto
    obtain err where f: "f = Failed err" using ok(2) Inl by (cases f) auto
    have "script_failed (stm # sts) (abs_engine en) (abs_engine en')"
      unfolding script_failed_def using ok(2) Inl f out
      by (intro exI [of _ "[]"] exI [of _ stm] exI [of _ sts] exI [of _ "abs_engine en"]) auto
    then show ?thesis using ok(1) reach by (simp add: out f script_ok_def)
  next
    case (Inr x)
    obtain out1 en2 where e1: "execute_all sts en1 = (out1, en2)" by fastforce
    from Cons.IH [OF ok(1) sts e1] have ih: "engine_inv en2" "reaches en1 en2" "script_ok sts en1 out1 en2" by auto
    have out: "en' = en2" "out = (case out1 of Inl f \<Rightarrow> Inl f | Inr rs \<Rightarrow> Inr (x # rs))"
      using Cons.prems(3) e Inr e1 by (auto simp: and_then_def split: sum.splits)
    have stm_spec: "sql_spec stm (abs_engine en) x (abs_engine en1)" using ok(2) Inr by simp
    have "script_ok (stm # sts) en out en2"
    proof (cases out1)
      case (Inl f)
      with ih(3) script_failed_Cons [OF stm_spec] show ?thesis by (cases f) (simp_all add: script_ok_def out)
    next
      case (Inr rs)
      with ih(3) have "sql_specs sts (abs_engine en1) rs (abs_engine en2)" by (simp add: script_ok_def)
      with stm_spec have "sql_specs (stm # sts) (abs_engine en) (x # rs) (abs_engine en2)" unfolding sql_specs.simps by blast
      with Inr show ?thesis by (simp add: script_ok_def out)
    qed
    then show ?thesis using ih reach reaches_trans unfolding out(1) by blast
  qed
qed (auto simp: script_ok_def)

lemma execute_ok:
  assumes "engine_inv en" and "utf8_valid source" and "execute source en = (out, en')"
  shows "engine_inv en' \<and> reaches en en' \<and> (case parse source of
      Inl e \<Rightarrow> e \<noteq> Panicked \<and> out = Inl e \<and> en' = en
    | Inr sts \<Rightarrow> script_ok sts en out en')"
proof (cases "parse source")
  case (Inl e)
  have "parse source \<noteq> Inl Panicked" using parse_safe [OF assms(2)] .
  with Inl assms show ?thesis by (auto simp: execute_def)
next
  case (Inr sts)
  with assms execute_all_ok [OF assms(1) parse_statement_ok [OF Inr]] show ?thesis by (simp add: execute_def)
qed

section \<open>Runs of an engine\<close>

text \<open>Opened on an empty log, whatever I/O errors follow.\<close>

inductive engine_run :: "sql_engine \<Rightarrow> bool" where
  engine_opened: "engine_open None faults = Inr en \<Longrightarrow> engine_run en"
| engine_executed: "engine_run en \<Longrightarrow> utf8_valid source \<Longrightarrow> execute source en = (out, en') \<Longrightarrow> engine_run en'"

text \<open>On a disk without errors, through scripts and crashes that lose any unsynced end of the log.\<close>

inductive engine_life :: "sql_engine \<Rightarrow> bool" where
  engine_fresh: "engine_open None [] = Inr en \<Longrightarrow> engine_life en"
| engine_script: "engine_life en \<Longrightarrow> utf8_valid source \<Longrightarrow> execute source en = (out, en') \<Longrightarrow> engine_life en'"
| engine_crash: "engine_life en \<Longrightarrow> crash_image (mv_wal (en_store en)) f \<Longrightarrow> engine_open (Some f) [] = Inr en' \<Longrightarrow>
    engine_life en'"

lemma db_ok_empty: "db_ok Map.empty"
  by (simp add: db_ok_def)

lemma engine_inv_opened:
  assumes "mvcc_open file faults = Inr s" and "db_ok (committed s)"
  shows "engine_inv \<lparr>en_store = s, en_active = None\<rparr>"
  using mem_inv_open [OF assms(1)] assms(2) by (simp add: engine_inv_def)

lemma fresh_versions: "mvcc_open None faults = Inr s \<Longrightarrow> mv_versions s = []"
  by (auto simp: mvcc_open_def Let_def replay_def open_wal_def recovery_init_def ok_or_def checked_add_u64_def rbind_Inr_iff
      split: option.splits if_splits prod.splits sum.splits)

lemma engine_inv_fresh:
  assumes "engine_open None faults = Inr en"
  shows "engine_inv en"
proof -
  from assms obtain s where s: "mvcc_open None faults = Inr s" "en = \<lparr>en_store = s, en_active = None\<rparr>"
    by (auto simp: engine_open_def rbind_Inr_iff)
  have "committed s = Map.empty"
    using fresh_versions [OF s(1)] by (simp add: committed_def visible_value_def fun_eq_iff)
  with engine_inv_opened [OF s(1)] db_ok_empty s(2) show ?thesis by simp
qed

lemma engine_inv_run: "engine_run en \<Longrightarrow> engine_inv en"
proof (induction rule: engine_run.induct)
  case (engine_executed en source out en')
  then show ?case using execute_ok by blast
qed (rule engine_inv_fresh)

lemma mvcc_life_steps: "mvcc_step\<^sup>*\<^sup>* x y \<Longrightarrow> mvcc_life x \<Longrightarrow> mvcc_life y"
  by (induction rule: rtranclp_induct) (auto intro: mvcc_life.life_step)

lemma models_started: "models (started s) \<lparr>en_store = s, en_active = None\<rparr>"
  by (simp add: models_simps started_def)

lemma engine_reopened:
  assumes "engine_inv en" and "mvcc_life x" and "models x en" and "crash_image (mv_wal (en_store en)) f"
  obtains s where "engine_open (Some f) [] = Inr \<lparr>en_store = s, en_active = None\<rparr>" and "mvcc_life (started s)"
    and "engine_inv \<lparr>en_store = s, en_active = None\<rparr>" and "committed s = committed (en_store en)"
proof -
  from assms(3,4) have f: "crash_image (mv_wal (sys_store x)) f" by (simp add: models_def)
  from dur_inv_crash [OF dur_inv_life [OF assms(2)] f] obtain s where s: "mvcc_open (Some f) [] = Inr s"
    "committed s = committed (sys_store x)" by (auto simp: committed_def fun_eq_iff)
  then have com: "committed s = committed (en_store en)" using assms(3) by (simp add: models_def)
  show ?thesis
  proof (rule that)
    show "engine_open (Some f) [] = Inr \<lparr>en_store = s, en_active = None\<rparr>" using s(1) by (simp add: engine_open_def)
    show "mvcc_life (started s)" using mvcc_life.life_crash [OF assms(2) f s(1)] .
    show "engine_inv \<lparr>en_store = s, en_active = None\<rparr>"
      using engine_inv_opened [OF s(1)] com assms(1) by (simp add: engine_inv_def)
  qed (rule com)
qed

lemma engine_life_inv: "engine_life en \<Longrightarrow> engine_inv en \<and> (\<exists>x. mvcc_life x \<and> models x en)"
proof (induction rule: engine_life.induct)
  case (engine_fresh en)
  then have "en = \<lparr>en_store = fresh_store, en_active = None\<rparr>" by (simp add: engine_open_def mvcc_open_fresh)
  with engine_inv_fresh [OF engine_fresh] models_started life_fresh [OF mvcc_open_fresh] show ?case by auto
next
  case (engine_script en source out en')
  then obtain x where x: "engine_inv en" "mvcc_life x" "models x en" by blast
  from execute_ok [OF x(1) engine_script.hyps(2,3)] have "engine_inv en'" "reaches en en'" by auto
  with x mvcc_life_steps show ?case unfolding reaches_def by blast
next
  case (engine_crash en f en')
  then obtain x where x: "engine_inv en" "mvcc_life x" "models x en" by blast
  obtain s where "engine_open (Some f) [] = Inr \<lparr>en_store = s, en_active = None\<rparr>" "mvcc_life (started s)"
    "engine_inv \<lparr>en_store = s, en_active = None\<rparr>" using engine_reopened [OF x engine_crash.hyps(2)] .
  with engine_crash.hyps(3) models_started show ?case by auto
qed

section \<open>A run: one table, one row, one open transaction\<close>

definition fresh_engine :: sql_engine where
  "fresh_engine = \<lparr>en_store = fresh_store, en_active = None\<rparr>"

definition create_source :: rstring where
  "create_source = ascii ''create table t (id integer primary key)''"

definition insert_source :: rstring where
  "insert_source = ascii ''insert into t (id) values (7)''"

definition id_column :: column_def where
  "id_column = \<lparr>cd_name = ascii ''ID'', cd_type = TypeInteger, cd_primary = True\<rparr>"

definition t_schema :: schema where
  "t_schema = \<lparr>sc_name = ascii ''T'', sc_columns = [id_column]\<rparr>"

definition t_key :: rstring where
  "t_key = catalog_key (ascii ''T'')"

definition row_seven :: rstring where
  "row_seven = primary_key_of t_schema (VInteger 7)"

definition create_log :: wal where
  "create_log = log_record (RSet 1 t_key (encode_schema t_schema)) (log_forced (log_record (RBegin 1 0) (mv_wal fresh_store)))"

definition created_log :: wal where
  "created_log = log_forced (log_record (RCommit 1 1) create_log)"

definition table_store :: inner where
  "table_store = \<lparr>mv_wal = created_log, mv_versions = [(t_key, [\<lparr>v_value = encode_schema t_schema, created_at = 1, deleted_at = None\<rparr>])],
     mv_active = [], mv_next_txn = 2, mv_commit_ts = 1, poisoned = False\<rparr>"

definition insert_log :: wal where
  "insert_log = log_record (RSet 2 row_seven (encode_row [VInteger 7])) (log_forced (log_record (RBegin 2 1) created_log))"

definition row_store :: inner where
  "row_store = \<lparr>mv_wal = log_forced (log_record (RCommit 2 2) insert_log),
     mv_versions = [(t_key, [\<lparr>v_value = encode_schema t_schema, created_at = 1, deleted_at = None\<rparr>]),
       (row_seven, [\<lparr>v_value = encode_row [VInteger 7], created_at = 2, deleted_at = None\<rparr>])],
     mv_active = [], mv_next_txn = 3, mv_commit_ts = 2, poisoned = False\<rparr>"

definition row_engine :: sql_engine where
  "row_engine = \<lparr>en_store = row_store, en_active = None\<rparr>"

lemma sample_parse:
  "parse create_source = Inr [SCreateTable (ascii ''T'') [id_column]]"
  "parse insert_source = Inr [SInsert (ascii ''T'') [ascii ''ID''] [VInteger 7]]"
  "utf8_valid create_source" "utf8_valid insert_source"
  by code_simp+

lemma sample_keys:
  "utf8_valid t_key" "utf8_valid (encode_schema t_schema)" "utf8_valid row_seven" "utf8_valid (encode_row [VInteger 7])"
  "length t_key < 100" "length (encode_schema t_schema) < 100" "length row_seven < 100" "length (encode_row [VInteger 7]) < 100"
  "t_key < row_seven" "validate t_schema = Inr ()" "decode_schema (ascii ''T'') (encode_schema t_schema) = Inr t_schema"
  "insert_values t_schema [(ascii ''ID'', VInteger 7)] [VNull] [False] = Inr [VInteger 7]" "row_key t_schema [VInteger 7] = Inr row_seven"
  "length (sc_columns t_schema) = 1"
  by code_simp+

lemma sample_fits: "txn_fits (RSet i t_key (encode_schema t_schema))" "txn_fits (RSet i row_seven (encode_row [VInteger 7]))"
  using sample_keys by (simp_all add: txn_fits_def txn_encode_Inr fits_record_def lp_string_def)

lemma sample_faults [simp]: "wal_faults create_log = []" "wal_faults created_log = []" "wal_faults insert_log = []"
  by (simp_all add: create_log_def created_log_def insert_log_def log_forced_def log_record_def fresh_store_def)

lemmas sample_run = sql_create_def sql_insert_def and_then_def reading_def pure_def sql_get_def txn_get_def get_at_def lock_def
  ensure_open_def of_txn_def save_schema_def sql_set_def txn_set_def visible_value_def append_txn_record_ok load_schema_def
  visible_at_def

lemmas sample_commit = commit_def ensure_open_def lock_def latest_change_def checked_add_u64_def apply_versions_def apply_write_def
  append_sync_ok bm_remove_def

lemma execute_create: "execute create_source fresh_engine = (Inr [Affected 0], \<lparr>en_store = table_store, en_active = None\<rparr>)"
proof -
  let ?t = "\<lparr>txn_id = 1, txn_snapshot = 0, txn_writes = [], txn_finished = False\<rparr>"
  let ?s = "fresh_store\<lparr>mv_wal := log_forced (log_record (RBegin 1 0) (mv_wal fresh_store)), mv_active := [(1, 0)], mv_next_txn := 2\<rparr>"
  let ?t' = "?t\<lparr>txn_writes := [(t_key, Some (encode_schema t_schema))]\<rparr>"
  have "begin_txn fresh_store = (Inr ?t, ?s)"
    by (simp add: begin_txn_ok [of _ 2] checked_add_u64_def fresh_store_def)
  moreover have "execute_data (SCreateTable (ascii ''T'') [id_column]) (?s, ?t) = (Inr (Affected 0), ?s\<lparr>mv_wal := create_log\<rparr>, ?t')"
    using sample_keys(10) sample_fits(1) [of 1]
    by (simp add: sample_run fresh_store_def create_log_def t_schema_def t_key_def log_forced_def log_record_def)
  moreover have "commit ?t' (?s\<lparr>mv_wal := create_log\<rparr>) = (Inr 1, table_store)"
    by (simp add: sample_commit fresh_store_def table_store_def created_log_def)
  ultimately show ?thesis
    by (simp add: execute_def sample_parse and_then_def with_transaction_def fresh_engine_def)
qed

lemma execute_insert: "execute insert_source \<lparr>en_store = table_store, en_active = None\<rparr> = (Inr [Affected 1], row_engine)"
proof -
  let ?t = "\<lparr>txn_id = 2, txn_snapshot = 1, txn_writes = [], txn_finished = False\<rparr>"
  let ?s = "table_store\<lparr>mv_wal := log_forced (log_record (RBegin 2 1) created_log), mv_active := [(2, 1)], mv_next_txn := 3\<rparr>"
  let ?t' = "?t\<lparr>txn_writes := [(row_seven, Some (encode_row [VInteger 7]))]\<rparr>"
  have "begin_txn table_store = (Inr ?t, ?s)"
    by (simp add: begin_txn_ok [of _ 3] checked_add_u64_def table_store_def)
  moreover have "execute_data (SInsert (ascii ''T'') [ascii ''ID''] [VInteger 7]) (?s, ?t) = (Inr (Affected 1), ?s\<lparr>mv_wal := insert_log\<rparr>, ?t')"
    using sample_keys sample_fits(2) [of 2]
    by (simp add: sample_run table_store_def insert_log_def t_key_def log_forced_def log_record_def del: insert_values.simps)
  moreover have "commit ?t' (?s\<lparr>mv_wal := insert_log\<rparr>) = (Inr 2, row_store)"
    using sample_keys(9) by (auto simp: sample_commit table_store_def row_store_def)
  ultimately show ?thesis
    by (simp add: execute_def sample_parse and_then_def with_transaction_def row_engine_def)
qed

lemma fresh_engine_open: "engine_open None [] = Inr fresh_engine"
  by (simp add: engine_open_def mvcc_open_fresh fresh_engine_def)

lemma row_engine_run: "engine_run row_engine"
  using engine_opened [OF fresh_engine_open] sample_parse(3,4) execute_create execute_insert by (blast intro: engine_executed)

lemma row_engine_life: "engine_life row_engine"
  using engine_fresh [OF fresh_engine_open] sample_parse(3,4) execute_create execute_insert by (blast intro: engine_script)

lemma row_engine_table: "fst (abs_engine row_engine) (ascii ''T'') = Some ([id_column], {[VInteger 7]})"
proof -
  let ?en = "\<lparr>en_store = table_store, en_active = None\<rparr>"
  have run: "engine_run ?en" using engine_opened [OF fresh_engine_open] sample_parse(3) execute_create by (rule engine_executed)
  have table: "fst (abs_engine ?en) (ascii ''T'') = Some ([id_column], {})"
    using execute_ok [OF engine_inv_fresh [OF fresh_engine_open] sample_parse(3) execute_create]
    by (auto simp: sample_parse script_ok_def fresh_engine_def)
  show ?thesis
    using execute_ok [OF engine_inv_run [OF run] sample_parse(4) execute_insert] table
    by (auto simp: sample_parse script_ok_def row_engine_def new_row_def id_column_def)
qed

section \<open>Tables\<close>







section \<open>Properties\<close>

text \<open>
  C24. The SQL engine implements its relational specification: in every run of an engine opened on an empty log, with any
  I/O errors, a script of valid UTF-8 either does not parse, with an error and no effect; or every statement returns what
  its operation on the tables returns and leaves the tables as that operation does; or the first statement that fails
  leaves the committed tables as the statements before it did, and opens no transaction. No script panics.
\<close>

theorem sql_refines_relations:
  assumes "engine_run en" and "utf8_valid source" and "execute source en = (out, en')"
  shows "case parse source of
      Inl e \<Rightarrow> e \<noteq> Panicked \<and> out = Inl e \<and> en' = en
    | Inr sts \<Rightarrow> (case out of
        Inr rs \<Rightarrow> sql_specs sts (abs_engine en) rs (abs_engine en')
      | Inl (Failed e) \<Rightarrow> script_failed sts (abs_engine en) (abs_engine en')
      | Inl Panicked \<Rightarrow> False)"
  using execute_ok [OF engine_inv_run [OF assms(1)] assms(2,3)] by (auto simp: script_ok_def split: sum.splits)

theorem sql_refines_relations_witness:
  "sql_specs [SCreateTable (ascii ''T'') [id_column]] (abs_engine fresh_engine) [Affected 0] (abs_engine \<lparr>en_store = table_store, en_active = None\<rparr>)
    \<and> fst (abs_engine \<lparr>en_store = table_store, en_active = None\<rparr>) (ascii ''T'') = Some ([id_column], {})"
  using sql_refines_relations [OF engine_opened [OF fresh_engine_open] sample_parse(3) execute_create]
  by (auto simp: sample_parse fresh_engine_def)



text \<open>The reference for the planner: the same query, always answered by a scan of the table.\<close>

definition select_by_scan :: "select \<Rightarrow> txn_state \<Rightarrow> sql_result may_fail" where
  "select_by_scan sel st =
    rbind (load_schema (fst st) (snd st) (sel_table sel)) (\<lambda>sc.
    rbind (all_rows sc st) (\<lambda>rows.
    rbind (sift (sel_filter sel) sc (map snd rows)) (present sel sc)))"

text \<open>
  C26. The primary key lookup the planner chooses is an optimisation only: in every transaction of every run, a query whose
  primary key literal has the type of the column or is NULL returns exactly what a scan of the whole table followed by the
  filter returns, the same error included. For a literal of another type the lookup fails even where the scan finds no row.
\<close>

theorem index_lookup_equals_scan:
  assumes "engine_run en" and "en_active en = Some t" and "select_ok sel"
    and "load_schema (en_store en) t (sel_table sel) = Inr sc"
    and "\<And>e v. sel_filter sel = Some e \<Longrightarrow> primary_equality e (cd_name (sc_columns sc ! pk sc)) = Some v \<Longrightarrow>
      check_type v (cd_type (sc_columns sc ! pk sc)) = Inr ()"
  shows "select_rows sel (en_store en, t) = select_by_scan sel (en_store en, t)"
proof -
  let ?st = "(en_store en, t)"
  have "engine_inv \<lparr>en_store = en_store en, en_active = Some t\<rparr>" using engine_inv_run [OF assms(1)] assms(2) by (cases en) simp
  then have st: "sound_state ?st" by (rule engine_invD)
  then have "live ?st" "db_ok (view ?st)" by (simp_all add: sound_state_def)
  then have sc: "table_schema (view ?st) sc"
    by (rule load_schema_view [of ?st "sel_table sel"]) (use assms(4) in \<open>auto simp: fail_with_def\<close>)
  note ok = table_schema_ok [OF sc]
  have scan: "rbind (access_rows sc (scan_plan sel) ?st) f = rbind (all_rows sc ?st) (\<lambda>rows. f (map snd rows))" for f :: "row list \<Rightarrow> row list may_fail"
    by (simp add: access_rows_def scan_plan_def rbind_assoc)
  obtain p where p: "plan_select sel sc = Inr p" using plan_select_eq [OF ok] by blast
  have "rbind (access_rows sc p ?st) (sift (sel_filter sel) sc) = rbind (access_rows sc (scan_plan sel) ?st) (sift (sel_filter sel) sc)"
  proof (cases "Option.bind (sel_filter sel) (\<lambda>e. primary_equality e (cd_name (sc_columns sc ! pk sc)))")
    case None
    then show ?thesis using p plan_select_eq [OF ok] by (simp add: scan_plan_def)
  next
    case (Some v)
    then obtain e where e: "sel_filter sel = Some e" "primary_equality e (cd_name (sc_columns sc ! pk sc)) = Some v"
      by (auto simp: bind_eq_Some_conv)
    then have "value_ok v" using assms(3) primary_equality_ok by (auto simp: select_ok_def filter_ok_def)
    moreover have "p = lookup_plan v sel" using Some p plan_select_eq [OF ok] by (simp add: lookup_plan_def)
    ultimately show ?thesis using lookup_is_scan [OF st sc _ assms(5) [OF e] e(2)] e(1) by simp
  qed
  then show ?thesis
    by (simp add: select_rows_eq select_by_scan_def assms(4) p scan flip: rbind_assoc)
qed

definition open_txn :: transaction where
  "open_txn = \<lparr>txn_id = 3, txn_snapshot = 2, txn_writes = [], txn_finished = False\<rparr>"

definition open_store :: inner where
  "open_store = row_store\<lparr>mv_wal := log_forced (log_record (RBegin 3 2) (mv_wal row_store)), mv_active := [(3, 2)], mv_next_txn := 4\<rparr>"

definition seven :: select where
  "seven = \<lparr>sel_table = ascii ''T'', sel_projection = AllColumns, sel_filter = Some (EBinary OpEq (EColumn (ascii ''ID'')) (ELiteral (VInteger 7))),
     sel_order_by = None, sel_limit = None\<rparr>"

lemma execute_begin: "execute (ascii ''begin'') row_engine = (Inr [Begun], \<lparr>en_store = open_store, en_active = Some open_txn\<rparr>)"
proof -
  have "parse (ascii ''begin'') = Inr [SBegin]" by code_simp
  moreover have "begin_txn row_store = (Inr open_txn, open_store)"
    by (simp add: begin_txn_ok [of _ 4] checked_add_u64_def row_store_def open_store_def open_txn_def log_forced_def log_record_def)
  ultimately show ?thesis by (simp add: execute_def and_then_def row_engine_def)
qed

theorem index_lookup_equals_scan_witness: "select_rows seven (open_store, open_txn) = select_by_scan seven (open_store, open_txn)"
proof -
  have "utf8_valid (ascii ''begin'')" "select_ok seven" by code_simp+
  note run = engine_executed [OF row_engine_run this(1) execute_begin]
  have load: "load_schema open_store open_txn (sel_table seven) = Inr t_schema"
    using sample_keys by (simp add: sample_run open_store_def row_store_def open_txn_def seven_def t_key_def)
  have "cd_type (sc_columns t_schema ! pk t_schema) = TypeInteger" by code_simp
  then have "check_type v (cd_type (sc_columns t_schema ! pk t_schema)) = Inr ()"
    if "sel_filter seven = Some e" "primary_equality e (cd_name (sc_columns t_schema ! pk t_schema)) = Some v" for e v
    using that by (auto simp: seven_def split: if_splits)
  from index_lookup_equals_scan [OF run _ \<open>select_ok seven\<close> _ this, of open_txn] load show ?thesis by simp
qed

text \<open>
  C27. SQL crash recovery: from an empty log on a disk that reports no errors, after any scripts, successful or not, and
  crashes between them, whatever unsynced end of the log a crash loses, the engine opens again with exactly the committed tables and no transaction: every statement that was
  acknowledged outside a transaction and every acknowledged COMMIT is there, and nothing of a transaction that was open.
\<close>

theorem sql_crash_recovery:
  assumes "engine_life en" and "crash_image (mv_wal (en_store en)) f"
  shows "\<exists>en'. engine_open (Some f) [] = Inr en' \<and> abs_engine en' = (fst (abs_engine en), None)"
proof -
  from engine_life_inv [OF assms(1)] obtain x where x: "engine_inv en" "mvcc_life x" "models x en" by blast
  obtain s where "engine_open (Some f) [] = Inr \<lparr>en_store = s, en_active = None\<rparr>" "committed s = committed (en_store en)"
    using engine_reopened [OF x assms(2)] by metis
  then show ?thesis by (simp add: abs_engine_def)
qed

theorem sql_crash_recovery_witness:
  "\<exists>en. engine_open (Some (wal_bytes (mv_wal row_store))) [] = Inr en \<and> fst (abs_engine en) (ascii ''T'') = Some ([id_column], {[VInteger 7]})"
proof -
  have "crash_image (mv_wal (en_store row_engine)) (wal_bytes (mv_wal row_store))"
    unfolding crash_image_def by (intro exI [of _ "length (wal_bytes (mv_wal row_store))"])
      (simp add: row_engine_def row_store_def log_forced_def)
  from sql_crash_recovery [OF row_engine_life this] row_engine_table show ?thesis by auto
qed

end
