(* ===== verification/Server.thy ===== *)
theory Server
  imports Store_Durability Catalog Sql_Lexer Raft_Transport
begin

text \<open>
  The TCP key/value node of \<open>src/src/server.rs\<close>. A server is its id, the addresses of its peers, the peers it was told to
  ignore and its store. The network is a parameter: \<open>wire address bytes\<close> connects to the address, sends the bytes and returns what
  the other side sent back before the timeout, or an error; its state \<open>'net\<close> is threaded through every request, so that a
  concrete network can hold the other servers. The accept loop is one call of \<open>serve_connection\<close> per connection.
\<close>

section \<open>Strings\<close>

text \<open>
  \<open>split_whitespace\<close> separates at the characters with the Unicode property White\_Space; in UTF-8 their first byte never occurs inside
  another character. \<open>whitespace_len\<close> is the length of the white space character the string starts with.
\<close>

definition whitespace_len :: "bytes \<Rightarrow> nat" where
  "whitespace_len s = (case s of
     [] \<Rightarrow> 0
   | a # r \<Rightarrow>
       if 0x09 \<le> a \<and> a \<le> 0x0D \<or> a = 0x20 then 1
       else if a = 0xC2 \<and> r \<noteq> [] \<and> hd r \<in> {0x85, 0xA0} then 2
       else (case r of
         b # c # _ \<Rightarrow>
           if a = 0xE1 \<and> b = 0x9A \<and> c = 0x80
             \<or> a = 0xE2 \<and> b = 0x80 \<and> (0x80 \<le> c \<and> c \<le> 0x8A \<or> c \<in> {0xA8, 0xA9, 0xAF})
             \<or> a = 0xE2 \<and> b = 0x81 \<and> c = 0x9F
             \<or> a = 0xE3 \<and> b = 0x80 \<and> c = 0x80 then 3 else 0
       | _ \<Rightarrow> 0))"

function split_words :: "bytes \<Rightarrow> bytes \<Rightarrow> bytes list" where
  "split_words word [] = (if word = [] then [] else [word])"
| "split_words word (b # s) =
    (let n = whitespace_len (b # s) in
     if n = 0 then split_words (word @ [b]) s
     else (if word = [] then [] else [word]) @ split_words [] (drop n (b # s)))"
  by pat_completeness auto
termination
  by (relation "measure (length \<circ> snd)") auto

definition split_whitespace :: "rstring \<Rightarrow> rstring list" where
  "split_whitespace s = split_words [] s"

fun splitn_on :: "nat \<Rightarrow> u8 \<Rightarrow> bytes \<Rightarrow> bytes list" where
  "splitn_on 0 c s = []"
| "splitn_on (Suc 0) c s = [s]"
| "splitn_on (Suc (Suc n)) c s =
    (if c \<in> set s then takeWhile (\<lambda>b. b \<noteq> c) s # splitn_on (Suc n) c (tl (dropWhile (\<lambda>b. b \<noteq> c) s)) else [s])"

definition strip_prefix :: "rstring \<Rightarrow> rstring \<Rightarrow> rstring option" where
  "strip_prefix s p = (if starts_with s p then Some (drop (length p) s) else None)"

definition show_u64 :: "u64 \<Rightarrow> rstring" where
  "show_u64 w = ascii (show_nat (unat w))"

text \<open>\<open>u64::from_str\<close>: an optional plus sign and at least one digit, within the range.\<close>

definition u64_from_str :: "rstring \<Rightarrow> u64 option" where
  "u64_from_str s =
    (let digits = (case s of b # r \<Rightarrow> if b = 0x2B then r else s | [] \<Rightarrow> []) in
     if digits = [] \<or> \<not> list_all is_ascii_digit digits \<or> \<not> parse_digits digits < 2 ^ 64 then None
     else Some (word_of_int (parse_digits digits)))"

definition bit_text :: "bool \<Rightarrow> rstring" where
  "bit_text b = ascii (if b then ''1'' else ''0'')"

section \<open>Records\<close>

record replica_value =
  rep_version :: u64
  rep_tombstone :: bool
  rep_committed :: bool
  rep_value :: rstring

definition cluster_hex :: "bytes \<Rightarrow> rstring" where
  "cluster_hex bs = concat (map (\<lambda>b. [hex_digit_byte (drop_bit 4 b), hex_digit_byte (b AND 15)]) bs)"

definition cluster_digit :: "u8 \<Rightarrow> u8 may_fail" where
  "cluster_digit b = (if 0x30 \<le> b \<and> b \<le> 0x39 then Inr (b - 0x30)
     else if 0x61 \<le> b \<and> b \<le> 0x66 then Inr (b - 0x61 + 10)
     else fail_with (invalid_data ''cluster: invalid hex''))"

fun cluster_pairs :: "bytes \<Rightarrow> bytes may_fail" where
  "cluster_pairs (a # b # rest) =
    rbind (cluster_digit a) (\<lambda>high. rbind (cluster_digit b) (\<lambda>low.
    rbind (cluster_pairs rest) (\<lambda>out. Inr ((push_bit 4 high OR low) # out))))"
| "cluster_pairs _ = Inr []"

definition unhex_string :: "rstring \<Rightarrow> rstring may_fail" where
  "unhex_string v =
    (if length v mod 2 \<noteq> 0 then fail_with (invalid_data ''cluster: odd hex length'')
     else rbind (cluster_pairs v) (\<lambda>bs.
       if utf8_valid bs then Inr bs else fail_with (invalid_data ''cluster: value is not UTF-8'')))"

definition parse_u64 :: "rstring \<Rightarrow> u64 may_fail" where
  "parse_u64 s = (case u64_from_str s of
     Some w \<Rightarrow> Inr w | None \<Rightarrow> fail_with (invalid_data ''cluster: expected unsigned integer''))"

definition parse_bool :: "rstring \<Rightarrow> bool may_fail" where
  "parse_bool s = (if s = ascii ''0'' then Inr False
     else if s = ascii ''1'' then Inr True
     else fail_with (invalid_data ''cluster: expected 0 or 1''))"

definition encode_record :: "replica_value \<Rightarrow> rstring" where
  "encode_record r = show_u64 (rep_version r) @ [0x3A] @ bit_text (rep_tombstone r) @ [0x3A] @ bit_text (rep_committed r)
    @ [0x3A] @ cluster_hex (rep_value r)"

definition record_part :: "rstring list \<Rightarrow> nat \<Rightarrow> rstring may_fail" where
  "record_part parts i = (if i < length parts then Inr (parts ! i) else fail_with (invalid_data ''cluster: bad record''))"

definition decode_record :: "rstring \<Rightarrow> replica_value may_fail" where
  "decode_record encoded =
    (let parts = splitn_on 4 0x3A encoded in
     rbind (rbind (record_part parts 0) parse_u64) (\<lambda>version.
     rbind (rbind (record_part parts 1) parse_bool) (\<lambda>tombstone.
     rbind (rbind (record_part parts 2) parse_bool) (\<lambda>committed.
     rbind (rbind (record_part parts 3) unhex_string) (\<lambda>v.
     Inr \<lparr>rep_version = version, rep_tombstone = tombstone, rep_committed = committed, rep_value = v\<rparr>)))))"

definition decode_row_text :: "rstring \<Rightarrow> (rstring \<times> replica_value) may_fail" where
  "decode_row_text row =
    (let fields = split_on 0x2C row in
     if length fields \<noteq> 5 then fail_with (invalid_data ''cluster: malformed dump'')
     else
       rbind (unhex_string (fields ! 0)) (\<lambda>key.
       rbind (parse_u64 (fields ! 1)) (\<lambda>version.
       rbind (parse_bool (fields ! 2)) (\<lambda>tombstone.
       rbind (parse_bool (fields ! 3)) (\<lambda>committed.
       rbind (unhex_string (fields ! 4)) (\<lambda>v.
       Inr (key, \<lparr>rep_version = version, rep_tombstone = tombstone, rep_committed = committed, rep_value = v\<rparr>)))))))"

definition decode_dump :: "rstring \<Rightarrow> (rstring \<times> replica_value) list may_fail" where
  "decode_dump text = (if text = [] then Inr [] else collect_results decode_row_text (split_on 0x3B text))"

section \<open>Requests to peers\<close>

type_synonym socket_addr = nat
type_synonym 'net wire = "socket_addr \<Rightarrow> bytes \<Rightarrow> ('net, io_error, bytes) eff"

text \<open>\<open>TcpTransport::send\<close>, \<open>request_peer\<close> and \<open>request_peer_fast\<close> connect, write a frame and read one; \<open>request_peer\<close> and \<open>request_peer_fast\<close> differ in the timeout only. A request that is too large for a frame leaves the connection without a request.\<close>

definition tcp_send :: "'net wire \<Rightarrow> socket_addr \<Rightarrow> bytes \<Rightarrow> ('net, io_error, bytes) eff" where
  "tcp_send wire address payload net =
    (case write_frame payload [] of
       Inl e \<Rightarrow> (case wire address [] net of (Inl e', net) \<Rightarrow> (Inl e', net) | (Inr _, net) \<Rightarrow> (Inl e, net))
     | Inr framed \<Rightarrow> (case wire address framed net of
         (Inl e, net) \<Rightarrow> (Inl e, net)
       | (Inr input, net) \<Rightarrow> (rbind (read_frame input) (\<lambda>(response, _). Inr response), net)))"

definition request_peer :: "'net wire \<Rightarrow> socket_addr \<Rightarrow> rstring \<Rightarrow> ('net, io_error, rstring) eff" where
  "request_peer wire address request net =
    (case write_frame request [] of
       Inl e \<Rightarrow> (case wire address [] net of (Inl e', net) \<Rightarrow> (Inl e', net) | (Inr _, net) \<Rightarrow> (Inl e, net))
     | Inr framed \<Rightarrow> (case wire address framed net of
         (Inl e, net) \<Rightarrow> (Inl e, net)
       | (Inr input, net) \<Rightarrow>
           (rbind (read_frame input) (\<lambda>(response, _).
              if utf8_valid response then Inr response else Inl (invalid_data ''cluster: response is not UTF-8'')), net)))"

section \<open>The server\<close>

record server =
  sv_id :: u64
  sv_peers :: "(u64, socket_addr) bmap"
  sv_blocked :: "u64 set"
  sv_store :: store

definition bind_server :: "u64 \<Rightarrow> (u64, socket_addr) bmap \<Rightarrow> io_outcome list \<Rightarrow> io_outcome list \<Rightarrow> io_outcome list \<Rightarrow> snapshot_fs
    \<Rightarrow> (bytes option, failure, server) eff" where
  "bind_server i peers faults lf lf' dir = and_then (store_open faults lf lf' dir) (\<lambda>st file.
     (Inr \<lparr>sv_id = i, sv_peers = peers, sv_blocked = {}, sv_store = st\<rparr>, file))"

definition read_record :: "server \<Rightarrow> rstring \<Rightarrow> replica_value option may_fail" where
  "read_record sv key = rbind (store_get (sv_store sv) key) (\<lambda>found. case found of
     None \<Rightarrow> Inr None
   | Some encoded \<Rightarrow> rbind (decode_record encoded) (\<lambda>r. Inr (Some r)))"

definition write_record :: "rstring \<Rightarrow> replica_value \<Rightarrow> (server, failure, unit) eff" where
  "write_record key r sv = (case store_set key (encode_record r) (sv_store sv) of (x, st) \<Rightarrow> (x, sv\<lparr>sv_store := st\<rparr>))"

definition replaces :: "replica_value \<Rightarrow> replica_value option \<Rightarrow> bool" where
  "replaces incoming found = (case found of
     None \<Rightarrow> True
   | Some current \<Rightarrow> rep_version incoming > rep_version current
       \<or> rep_version incoming = rep_version current \<and> rep_committed incoming \<and> \<not> rep_committed current)"

definition merge :: "rstring \<Rightarrow> replica_value \<Rightarrow> (server, failure, unit) eff" where
  "merge key incoming sv = (case read_record sv key of
     Inl e \<Rightarrow> (Inl e, sv)
   | Inr found \<Rightarrow> if replaces incoming found then write_record key incoming sv else (Inr (), sv))"

primrec merge_all :: "(rstring \<times> replica_value) list \<Rightarrow> (server, failure, unit) eff" where
  "merge_all [] sv = (Inr (), sv)"
| "merge_all (row # rows) sv = (case row of (key, r) \<Rightarrow> and_then (merge key r) (\<lambda>_. merge_all rows) sv)"

definition dump_row :: "rstring \<Rightarrow> replica_value \<Rightarrow> rstring" where
  "dump_row key r = str_join [0x2C] [cluster_hex key, show_u64 (rep_version r), bit_text (rep_tombstone r), bit_text (rep_committed r),
     cluster_hex (rep_value r)]"

definition dump :: "server \<Rightarrow> rstring may_fail" where
  "dump sv = rbind (keys_sorted (sv_store sv)) (\<lambda>keys.
     rbind (collect_results (\<lambda>key. rbind (read_record sv key) (\<lambda>found. case found of
         None \<Rightarrow> fail_with (invalid_data ''cluster: missing stored record'')
       | Some r \<Rightarrow> Inr (if rep_committed r then [dump_row key r] else []))) keys) (\<lambda>rows.
     Inr (str_join [0x3B] (concat rows))))"

text \<open>The part of a handler that talks to peers works on the server and the network.\<close>

type_synonym ('net, 'a) serving = "(server \<times> 'net, failure, 'a) eff"

definition on_server :: "(server, failure, 'a) eff \<Rightarrow> ('net, 'a) serving" where
  "on_server m st = (case st of (sv, net) \<Rightarrow> case m sv of (x, sv) \<Rightarrow> (x, (sv, net)))"

primrec alive_loop :: "'net wire \<Rightarrow> u64 set \<Rightarrow> (u64 \<times> socket_addr) list \<Rightarrow> 'net \<Rightarrow> u64 list \<times> 'net" where
  "alive_loop wire ignored [] net = ([], net)"
| "alive_loop wire ignored (peer # peers) net = (case peer of (i, address) \<Rightarrow>
    if i \<in> ignored then alive_loop wire ignored peers net
    else (case request_peer wire address (ascii ''PING'') net of (response, net) \<Rightarrow>
      case alive_loop wire ignored peers net of (alive, net) \<Rightarrow>
        (if response = Inr (ascii ''PONG '' @ show_u64 i) then i # alive else alive, net)))"

definition alive_peers :: "'net wire \<Rightarrow> ('net, u64 list) serving" where
  "alive_peers wire st = (case st of (sv, net) \<Rightarrow>
     case alive_loop wire (sv_blocked sv) (sv_peers sv) net of (alive, net) \<Rightarrow> (Inr alive, (sv, net)))"

text \<open>\<open>self.peers[peer]\<close> panics when the peer is unknown.\<close>

definition ask :: "'net wire \<Rightarrow> u64 \<Rightarrow> rstring \<Rightarrow> ('net, rstring io_result) serving" where
  "ask wire peer request st = (case st of (sv, net) \<Rightarrow>
     case bm_get (sv_peers sv) peer of
       None \<Rightarrow> (Inl Panicked, (sv, net))
     | Some address \<Rightarrow> (case request_peer wire address request net of (response, net) \<Rightarrow> (Inr response, (sv, net))))"

primrec catch_up :: "'net wire \<Rightarrow> u64 list \<Rightarrow> ('net, unit) serving" where
  "catch_up wire [] st = (Inr (), st)"
| "catch_up wire (peer # peers) st =
    and_then (ask wire peer (ascii ''DUMP'')) (\<lambda>response.
      case response of
        Inl _ \<Rightarrow> catch_up wire peers
      | Inr text \<Rightarrow> (case strip_prefix text (ascii ''DUMP '') of
          None \<Rightarrow> catch_up wire peers
        | Some rows \<Rightarrow> (case decode_dump rows of
            Inl e \<Rightarrow> (\<lambda>st. (Inl e, st))
          | Inr rows \<Rightarrow> and_then (on_server (merge_all rows)) (\<lambda>_. catch_up wire peers)))) st"

text \<open>The peers that answered OK, in the order they were asked.\<close>

primrec ask_all :: "'net wire \<Rightarrow> rstring \<Rightarrow> u64 list \<Rightarrow> ('net, u64 list) serving" where
  "ask_all wire request [] st = (Inr [], st)"
| "ask_all wire request (peer # peers) st =
    and_then (ask wire peer request) (\<lambda>response.
    and_then (ask_all wire request peers) (\<lambda>ok st.
      (Inr (if response = Inr (ascii ''OK'') then peer # ok else ok), st))) st"

definition repl_request :: "rstring \<Rightarrow> replica_value \<Rightarrow> rstring" where
  "repl_request key r = ascii ''REPL '' @ cluster_hex key @ [0x20] @ show_u64 (rep_version r) @ [0x20] @ bit_text (rep_tombstone r)
    @ [0x20] @ cluster_hex (rep_value r)"

definition commit_request :: "rstring \<Rightarrow> u64 \<Rightarrow> rstring" where
  "commit_request key version = ascii ''COMMIT '' @ cluster_hex key @ [0x20] @ show_u64 version"

definition next_version :: "rstring \<Rightarrow> server \<Rightarrow> u64 may_fail" where
  "next_version key sv = rbind (read_record sv key) (\<lambda>found.
     case checked_add_u64 (case found of Some r \<Rightarrow> rep_version r | None \<Rightarrow> 0) 1 of
       Some version \<Rightarrow> Inr version
     | None \<Rightarrow> fail_with (invalid_data ''cluster: version exhausted''))"

text \<open>What reads and writes do first: find the leader of the reachable nodes and the number of nodes, then merge their records.\<close>

definition as_leader :: "'net wire \<Rightarrow> (u64 list \<Rightarrow> ('net, rstring) serving) \<Rightarrow> ('net, rstring) serving" where
  "as_leader wire act =
    and_then (alive_peers wire) (\<lambda>alive (sv, net).
      let leader = Min (set (alive @ [sv_id sv])) in
      if leader \<noteq> sv_id sv then (Inr (ascii ''REDIRECT '' @ show_u64 leader), (sv, net))
      else if length alive + 1 \<le> length (sv_peers sv) div 2 then (Inr (ascii ''RETRY no-quorum''), (sv, net))
      else and_then (catch_up wire alive) (\<lambda>_. act alive) (sv, net))"

definition client_write :: "'net wire \<Rightarrow> rstring \<Rightarrow> rstring \<Rightarrow> bool \<Rightarrow> ('net, rstring) serving" where
  "client_write wire key v tombstone = as_leader wire (\<lambda>alive.
    and_then (\<lambda>(sv, net). (next_version key sv, (sv, net))) (\<lambda>version.
    let r = \<lparr>rep_version = version, rep_tombstone = tombstone, rep_committed = False, rep_value = v\<rparr> in
    and_then (ask_all wire (repl_request key r) alive) (\<lambda>staged (sv, net).
    if (length staged + 1) * 2 \<le> length (sv_peers sv) + 1 then (Inr (ascii ''RETRY indeterminate''), (sv, net))
    else
      and_then (on_server (merge key (r\<lparr>rep_committed := True\<rparr>))) (\<lambda>_.
      and_then (ask_all wire (commit_request key version) staged) (\<lambda>acknowledged (sv, net).
      if (length acknowledged + 1) * 2 > length (sv_peers sv) + 1 then (Inr (ascii ''OK '' @ show_u64 version), (sv, net))
      else (Inr (ascii ''RETRY indeterminate''), (sv, net)))) (sv, net))))"

definition client_read :: "'net wire \<Rightarrow> rstring \<Rightarrow> ('net, rstring) serving" where
  "client_read wire key = as_leader wire (\<lambda>alive (sv, net).
    (rbind (read_record sv key) (\<lambda>found. case found of
       Some r \<Rightarrow> if rep_committed r \<and> \<not> rep_tombstone r then Inr (ascii ''VALUE '' @ cluster_hex (rep_value r)) else Inr (ascii ''NIL'')
     | None \<Rightarrow> Inr (ascii ''NIL'')), (sv, net)))"

definition handle_repl :: "rstring \<Rightarrow> rstring \<Rightarrow> rstring \<Rightarrow> rstring \<Rightarrow> (server, failure, rstring) eff" where
  "handle_repl key version tombstone v sv =
    (case rbind (unhex_string key) (\<lambda>key. rbind (unhex_string v) (\<lambda>v. rbind (parse_u64 version) (\<lambda>version.
        rbind (parse_bool tombstone) (\<lambda>tombstone. Inr (key, v, version, tombstone))))) of
       Inl e \<Rightarrow> (Inl e, sv)
     | Inr (key, v, version, tombstone) \<Rightarrow>
         and_then (merge key \<lparr>rep_version = version, rep_tombstone = tombstone, rep_committed = False, rep_value = v\<rparr>)
           (\<lambda>_ sv. (Inr (ascii ''OK''), sv)) sv)"

definition handle_commit :: "rstring \<Rightarrow> rstring \<Rightarrow> (server, failure, rstring) eff" where
  "handle_commit key version sv =
    (case rbind (unhex_string key) (\<lambda>key. rbind (parse_u64 version) (\<lambda>version. rbind (read_record sv key) (\<lambda>found.
        Inr (key, version, found)))) of
       Inl e \<Rightarrow> (Inl e, sv)
     | Inr (key, version, found) \<Rightarrow> (case found of
         Some r \<Rightarrow> if rep_version r = version
           then and_then (write_record key (r\<lparr>rep_committed := True\<rparr>)) (\<lambda>_ sv. (Inr (ascii ''OK''), sv)) sv
           else (Inr (ascii ''OK''), sv)
       | None \<Rightarrow> (Inr (ascii ''OK''), sv)))"

definition refuse :: "io_error \<Rightarrow> ('s, failure, 'a) eff" where
  "refuse e st = (fail_with e, st)"

definition decoded :: "'a may_fail \<Rightarrow> ('a \<Rightarrow> ('s, failure, 'b) eff) \<Rightarrow> ('s, failure, 'b) eff" where
  "decoded r f st = (case r of Inl e \<Rightarrow> (Inl e, st) | Inr x \<Rightarrow> f x st)"

definition dispatch :: "'net wire \<Rightarrow> rstring list \<Rightarrow> ('net, rstring) serving" where
  "dispatch wire parts = (case parts of
     [c] \<Rightarrow>
       if c = ascii ''PING'' then (\<lambda>(sv, net). (Inr (ascii ''PONG '' @ show_u64 (sv_id sv)), (sv, net)))
       else if c = ascii ''DUMP'' then (\<lambda>(sv, net). (rbind (dump sv) (\<lambda>rows. Inr (ascii ''DUMP '' @ rows)), (sv, net)))
       else if c = ascii ''ADMIN_HEAL'' then (\<lambda>(sv, net). (Inr (ascii ''OK''), (sv\<lparr>sv_blocked := {}\<rparr>, net)))
       else refuse (invalid_data ''cluster: unknown request'')
   | [c, a] \<Rightarrow>
       if c = ascii ''DELETE'' then decoded (unhex_string a) (\<lambda>key. client_write wire key [] True)
       else if c = ascii ''GET'' then decoded (unhex_string a) (client_read wire)
       else if c = ascii ''ADMIN_BLOCK'' then
         decoded (parse_u64 a) (\<lambda>peer (sv, net). (Inr (ascii ''OK''), (sv\<lparr>sv_blocked := insert peer (sv_blocked sv)\<rparr>, net)))
       else refuse (invalid_data ''cluster: unknown request'')
   | [c, a, b] \<Rightarrow>
       if c = ascii ''COMMIT'' then on_server (handle_commit a b)
       else if c = ascii ''PUT'' then
         decoded (unhex_string a) (\<lambda>key. decoded (unhex_string b) (\<lambda>v. client_write wire key v False))
       else refuse (invalid_data ''cluster: unknown request'')
   | [c, key, version, tombstone, v] \<Rightarrow>
       if c = ascii ''REPL'' then on_server (handle_repl key version tombstone v)
       else refuse (invalid_data ''cluster: unknown request'')
   | _ \<Rightarrow> refuse (invalid_data ''cluster: unknown request''))"

definition handle :: "'net wire \<Rightarrow> bytes \<Rightarrow> ('net, rstring) serving" where
  "handle wire request =
    (if \<not> utf8_valid request then refuse (invalid_data ''cluster: request is not UTF-8'')
     else dispatch wire (split_whitespace request))"

text \<open>One connection of the accept loop: a frame is read, handled and answered; an answer that does not fit into a frame is not sent.\<close>

fun error_text :: "io_error \<Rightarrow> rstring" where
  "error_text (IoError kind msg) = ascii msg"

definition answer :: "rstring may_fail \<Rightarrow> bytes may_fail" where
  "answer r = (case r of
     Inl Panicked \<Rightarrow> Inl Panicked
   | Inl (Failed e) \<Rightarrow> Inr (case write_frame (ascii ''ERROR '' @ error_text e) [] of Inl _ \<Rightarrow> [] | Inr out \<Rightarrow> out)
   | Inr response \<Rightarrow> Inr (case write_frame response [] of Inl _ \<Rightarrow> [] | Inr out \<Rightarrow> out))"

definition serve_connection :: "'net wire \<Rightarrow> bytes \<Rightarrow> ('net, bytes) serving" where
  "serve_connection wire input st = (case read_frame input of
     Inl e \<Rightarrow> (answer (fail_with e), st)
   | Inr (request, _) \<Rightarrow> (case handle wire request st of (r, st) \<Rightarrow> (answer r, st)))"

end
