(* ===== verification/Server_Protocol.thy ===== *)
theory Server_Protocol
  imports Server
begin

text \<open>
  The texts servers exchange: records, dumps and requests are read back as they were written, and what a server answers to each
  request of another server.
\<close>

section \<open>Numbers, flags and hexadecimal text\<close>

lemma cluster_hex_eq: "cluster_hex = hex"
  by (simp add: fun_eq_iff cluster_hex_def hex_def)

interpretation server_hex: hex_decoder cluster_digit cluster_pairs
proof
  show "cluster_digit b = Inr n \<longleftrightarrow> unat n < 16 \<and> b = hex_digit_byte n" for b n
    unfolding cluster_digit_def fail_with_def by (rule hex_digit_decoder)
qed simp_all

lemma unhex_string_hex: "utf8_valid s \<Longrightarrow> unhex_string (cluster_hex s) = Inr s"
  by (simp add: unhex_string_def cluster_hex_eq server_hex.pairs_hex)

lemma unhex_string_iff: "unhex_string t = Inr s \<longleftrightarrow> utf8_valid s \<and> t = cluster_hex s"
proof
  assume "unhex_string t = Inr s"
  then have "even (length t)" "cluster_pairs t = Inr s" "utf8_valid s"
    by (auto simp: unhex_string_def rbind_Inr_iff even_iff_mod_2_eq_zero split: if_splits)
  then show "utf8_valid s \<and> t = cluster_hex s" using server_hex.pairs_exact by (simp add: cluster_hex_eq)
qed (auto simp: unhex_string_hex)

text \<open>Printed words: visible ASCII characters without the separators.\<close>

definition plain :: "u8 \<Rightarrow> bool" where
  "plain b \<longleftrightarrow> 0x30 \<le> b \<and> b \<le> 0x39 \<or> 0x61 \<le> b \<and> b \<le> 0x66"

definition plain_text :: "rstring \<Rightarrow> bool" where
  "plain_text s \<longleftrightarrow> list_all plain s"

lemma plain_hex [simp]: "plain_text (cluster_hex s)"
  using hex_range by (auto simp: plain_text_def list_all_iff plain_def cluster_hex_eq)

lemma plain_u64 [simp]: "plain_text (show_u64 w)" "show_u64 w \<noteq> []"
  using show_nat_bytes [of "unat w"] by (auto simp: plain_text_def list_all_iff plain_def show_u64_def is_ascii_digit_def ascii_def)

lemma plain_bit [simp]: "plain_text (bit_text b)" "bit_text b \<noteq> []"
  by (simp_all add: plain_text_def bit_text_def plain_def ascii_def)

lemma plain_not: "plain b \<Longrightarrow> b \<notin> {0x20, 0x2B, 0x2C, 0x3A, 0x3B}" "plain b \<Longrightarrow> b < 0x80" "plain b \<Longrightarrow> 0x20 < b"
  by (auto simp: plain_def word_le_nat_alt word_less_nat_alt)

lemma plain_text_not: "plain_text s \<Longrightarrow> 0x20 \<notin> set s \<and> 0x2C \<notin> set s \<and> 0x3A \<notin> set s \<and> 0x3B \<notin> set s"
  using plain_not(1) by (fastforce simp: plain_text_def list_all_iff)

lemma parse_bool_bit [simp]: "parse_bool (bit_text b) = Inr b"
  by (simp add: parse_bool_def bit_text_def ascii_def)

lemma parse_u64_show [simp]: "parse_u64 (show_u64 w) = Inr w"
proof -
  note n = show_nat_bytes [of "unat w"]
  have "hd (show_u64 w) \<noteq> 0x2B"
    using plain_u64 [of w] plain_not(1) [of "hd (show_u64 w)"] by (auto simp: plain_text_def list_all_iff)
  then have d: "(case show_u64 w of b # r \<Rightarrow> if b = 0x2B then r else show_u64 w | [] \<Rightarrow> []) = show_u64 w"
    using plain_u64(2) [of w] by (cases "show_u64 w") auto
  have lt: "int (unat w) < 2 ^ 64" using uint_lt2p [of w] unfolding uint_nat by simp
  have p: "list_all is_ascii_digit (show_u64 w)" "parse_digits (show_u64 w) = int (unat w)" using n by (simp_all add: show_u64_def)
  have "u64_from_str (show_u64 w) = Some (word_of_int (int (unat w)))"
    unfolding u64_from_str_def d Let_def p(2) using p(1) lt plain_u64(2) [of w] by (simp only: if_False simp_thms)
  then show ?thesis by (simp add: parse_u64_def)
qed

section \<open>Records and dumps\<close>

definition rep_ok :: "replica_value \<Rightarrow> bool" where
  "rep_ok r \<longleftrightarrow> utf8_valid (rep_value r)"

lemma splitn_on_part: "c \<notin> set p \<Longrightarrow> splitn_on (Suc (Suc n)) c (p @ c # s) = p # splitn_on (Suc n) c s"
proof -
  assume "c \<notin> set p"
  then have "takeWhile (\<lambda>b. b \<noteq> c) (p @ c # s) = p" "dropWhile (\<lambda>b. b \<noteq> c) (p @ c # s) = c # s"
    by (induction p) auto
  then show ?thesis by simp
qed

lemma encode_record_parts:
  "splitn_on 4 0x3A (encode_record r) =
    [show_u64 (rep_version r), bit_text (rep_tombstone r), bit_text (rep_committed r), cluster_hex (rep_value r)]"
  using plain_text_not [OF plain_u64(1)] plain_text_not [OF plain_bit(1)]
  by (simp add: encode_record_def numeral_eq_Suc splitn_on_part del: splitn_on.simps(3))

lemma decode_encode_record: "rep_ok r \<Longrightarrow> decode_record (encode_record r) = Inr r"
  by (simp add: decode_record_def encode_record_parts record_part_def unhex_string_hex rep_ok_def)

lemma decode_dump_row: "utf8_valid key \<Longrightarrow> rep_ok r \<Longrightarrow> decode_row_text (dump_row key r) = Inr (key, r)"
proof -
  assume "utf8_valid key" "rep_ok r"
  moreover have "split_on 0x2C (dump_row key r) = [cluster_hex key, show_u64 (rep_version r), bit_text (rep_tombstone r),
      bit_text (rep_committed r), cluster_hex (rep_value r)]"
    unfolding dump_row_def
    using plain_text_not [OF plain_u64(1)] plain_text_not [OF plain_bit(1)] plain_text_not [OF plain_hex]
    by (intro split_on_join) auto
  ultimately show ?thesis by (simp add: decode_row_text_def unhex_string_hex rep_ok_def)
qed

lemma dump_row_bytes: "b \<in> set (dump_row key r) \<Longrightarrow> plain b \<or> b = 0x2C"
  using plain_u64(1) plain_bit(1) plain_hex by (fastforce simp: dump_row_def plain_text_def list_all_iff)

lemma dump_row_neq [simp]: "dump_row key r \<noteq> []"
  by (simp add: dump_row_def)

lemma decode_dump_join:
  assumes "\<And>key r. (key, r) \<in> set rows \<Longrightarrow> utf8_valid key \<and> rep_ok r"
  shows "decode_dump (str_join [0x3B] (map (\<lambda>(key, r). dump_row key r) rows)) = Inr rows"
proof (cases "rows = []")
  case False
  let ?texts = "map (\<lambda>(key, r). dump_row key r) rows"
  have "\<forall>t \<in> set ?texts. 0x3B \<notin> set t" using dump_row_bytes plain_not(1) by fastforce
  with False have "split_on 0x3B (str_join [0x3B] ?texts) = ?texts" by (intro split_on_join) auto
  moreover have "collect_results decode_row_text ?texts = Inr rows"
    using assms by (intro collect_results_all) (auto simp: decode_dump_row)
  moreover have "str_join [0x3B] ?texts \<noteq> []" using False by (cases rows; cases "tl rows") auto
  ultimately show ?thesis by (simp add: decode_dump_def)
qed (simp add: decode_dump_def)

lemma utf8_encode_record: "utf8_valid (encode_record r)"
  using plain_u64(1) [of "rep_version r"] plain_bit(1) [of "rep_tombstone r"] plain_bit(1) [of "rep_committed r"]
    plain_hex [of "rep_value r"] plain_not(2)
  by (intro utf8_valid_ascii) (auto simp: encode_record_def plain_text_def list_all_iff)

section \<open>Requests\<close>

definition word_text :: "rstring \<Rightarrow> bool" where
  "word_text s \<longleftrightarrow> list_all (\<lambda>b. 0x20 < b \<and> b < 0x80) s"

lemma word_text_simps [simp]: "word_text []" "word_text (b # s) \<longleftrightarrow> 0x20 < b \<and> b < 0x80 \<and> word_text s"
  by (simp_all add: word_text_def)

lemma plain_word: "plain_text s \<Longrightarrow> word_text s"
  using plain_not(2,3) by (auto simp: plain_text_def word_text_def list_all_iff)

lemma whitespace_len_word: "0x20 < b \<Longrightarrow> b < 0x80 \<Longrightarrow> whitespace_len (b # s) = 0"
  by (auto simp: whitespace_len_def word_less_nat_alt word_le_nat_alt split: list.split)

lemma split_words_word: "word_text w \<Longrightarrow> split_words acc (w @ s) = split_words (acc @ w) s"
  by (induction w arbitrary: acc) (simp_all add: word_text_def whitespace_len_word)

lemma split_words_space: "split_words acc (0x20 # s) = (if acc = [] then [] else [acc]) @ split_words [] s"
  by (simp add: whitespace_len_def)

lemma split_whitespace_join: "list_all word_text ws \<Longrightarrow> split_whitespace (str_join [0x20] ws) = filter (\<lambda>w. w \<noteq> []) ws"
proof (induction ws)
  case (Cons w ws)
  then show ?case
    using split_words_word [of w "[]" "[]"] split_words_word [of w "[]" "0x20 # str_join [0x20] ws"]
    by (cases "ws = []") (simp_all add: split_whitespace_def str_join_Cons split_words_space del: split_words.simps(2))
qed (simp add: split_whitespace_def)

lemma utf8_join_words: "list_all word_text ws \<Longrightarrow> utf8_valid (str_join [0x20] ws)"
  by (rule utf8_join) (auto simp: word_text_def list_all_iff intro!: utf8_valid_ascii)

text \<open>A request of words is dispatched on those that are not empty.\<close>

lemma handle_words: "list_all word_text ws \<Longrightarrow> handle wire (str_join [0x20] ws) = dispatch wire (filter (\<lambda>w. w \<noteq> []) ws)"
  by (simp add: handle_def split_whitespace_join utf8_join_words)

lemma repl_words: "repl_request key r = str_join [0x20] [ascii ''REPL'', cluster_hex key, show_u64 (rep_version r),
    bit_text (rep_tombstone r), cluster_hex (rep_value r)]"
  by (simp add: repl_request_def ascii_def)

lemma commit_words: "commit_request key version = str_join [0x20] [ascii ''COMMIT'', cluster_hex key, show_u64 version]"
  by (simp add: commit_request_def ascii_def)

lemma cluster_hex_Nil [simp]: "cluster_hex s = [] \<longleftrightarrow> s = []"
  by (cases s) (simp_all add: cluster_hex_eq)

lemma handle_repl_request:
  assumes "key \<noteq> []" and "rep_value r \<noteq> []" and "utf8_valid key" and "rep_ok r"
  shows "handle wire (repl_request key r) (sv, net) = (case merge key (r\<lparr>rep_committed := False\<rparr>) sv of
    (Inl e, sv') \<Rightarrow> (Inl e, (sv', net)) | (Inr _, sv') \<Rightarrow> (Inr (ascii ''OK''), (sv', net)))"
proof -
  have "handle wire (repl_request key r) = on_server (handle_repl (cluster_hex key) (show_u64 (rep_version r))
      (bit_text (rep_tombstone r)) (cluster_hex (rep_value r)))"
    unfolding repl_words using assms(1,2) by (subst handle_words) (simp_all add: plain_word dispatch_def ascii_def)
  then show ?thesis
    using assms(3,4) by (cases r) (simp add: on_server_def handle_repl_def unhex_string_hex rep_ok_def and_then_def split: prod.splits sum.splits)
qed

text \<open>A request with an empty value, which every deletion is, is not understood.\<close>

lemma handle_empty_repl:
  assumes "rep_value r = []"
  shows "handle wire (repl_request key r) st = (fail_with (invalid_data ''cluster: unknown request''), st)"
  unfolding repl_words using assms
  by (subst handle_words) (simp_all add: plain_word dispatch_def refuse_def ascii_def)

lemma handle_commit_request:
  assumes "key \<noteq> []" and "utf8_valid key"
  shows "handle wire (commit_request key version) (sv, net) = (case read_record sv key of
      Inl e \<Rightarrow> (Inl e, (sv, net))
    | Inr found \<Rightarrow> (case found of
        Some r \<Rightarrow> if rep_version r = version
          then (case write_record key (r\<lparr>rep_committed := True\<rparr>) sv of
            (Inl e, sv') \<Rightarrow> (Inl e, (sv', net)) | (Inr _, sv') \<Rightarrow> (Inr (ascii ''OK''), (sv', net)))
          else (Inr (ascii ''OK''), (sv, net))
      | None \<Rightarrow> (Inr (ascii ''OK''), (sv, net))))"
proof -
  have "handle wire (commit_request key version) = on_server (handle_commit (cluster_hex key) (show_u64 version))"
    unfolding commit_words using assms(1) by (subst handle_words) (simp_all add: plain_word dispatch_def ascii_def)
  then show ?thesis
    using assms(2) by (simp add: on_server_def handle_commit_def unhex_string_hex and_then_def split: prod.splits sum.splits option.splits)
qed

lemma handle_ping: "handle wire (ascii ''PING'') (sv, net) = (Inr (ascii ''PONG '' @ show_u64 (sv_id sv)), (sv, net))"
  using handle_words [of "[ascii ''PING'']" wire] by (simp add: dispatch_def ascii_def)

lemma handle_dump: "handle wire (ascii ''DUMP'') (sv, net) = (rbind (dump sv) (\<lambda>rows. Inr (ascii ''DUMP '' @ rows)), (sv, net))"
  using handle_words [of "[ascii ''DUMP'']" wire] by (simp add: dispatch_def ascii_def)

text \<open>A request to a peer is an exchange of the TCP transport whose answer must be valid UTF-8.\<close>

lemma request_peer_tcp: "request_peer wire a request net = (case tcp_send wire a request net of
     (Inl e, net) \<Rightarrow> (Inl e, net)
   | (Inr response, net) \<Rightarrow> (if utf8_valid response then Inr response else Inl (invalid_data ''cluster: response is not UTF-8''), net))"
proof (cases "write_frame request []")
  case (Inl e)
  then show ?thesis by (simp add: request_peer_def tcp_send_def split: prod.split sum.split)
next
  case (Inr framed)
  obtain x net' where x: "wire a framed net = (x, net')" by (cases "wire a framed net")
  show ?thesis
  proof (cases x)
    case (Inr input)
    with x \<open>write_frame request [] = Inr framed\<close> show ?thesis
      by (cases "read_frame input") (auto simp: request_peer_def tcp_send_def)
  qed (use x Inr in \<open>simp add: request_peer_def tcp_send_def\<close>)
qed

end
