(* ===== verification/Server_Node.thy ===== *)
theory Server_Node
  imports Server_Protocol
begin

text \<open>
  The records of one server: what it reads, and how merging a record, merging a dump and the requests of other servers change
  them, as long as its disk reports no error.
\<close>

section \<open>The records a server holds\<close>

definition recs :: "server \<Rightarrow> rstring \<rightharpoonup> replica_value" where
  "recs sv key = (case read_record sv key of Inr found \<Rightarrow> found | Inl _ \<Rightarrow> None)"

definition rec_sized :: "rstring \<Rightarrow> replica_value \<Rightarrow> bool" where
  "rec_sized key r \<longleftrightarrow> utf8_valid key \<and> rep_ok r \<and> length key + length (rep_value r) \<le> MAX_FRAME"

definition server_ok :: "server \<Rightarrow> bool" where
  "server_ok sv \<longleftrightarrow> (\<exists>m. store_inv (sv_store sv) m
     \<and> (\<forall>key. bm_get m key = map_option encode_record (recs sv key)) \<and> (\<forall>key r. recs sv key = Some r \<longrightarrow> rec_sized key r))"

definition same_node :: "server \<Rightarrow> server \<Rightarrow> bool" where
  "same_node sv sv' \<longleftrightarrow> (\<exists>st. sv' = sv\<lparr>sv_store := st\<rparr>)"

lemma same_node_refl [simp]: "same_node sv sv"
  by (auto simp: same_node_def intro: exI [of _ "sv_store sv"])

lemma same_node_trans: "same_node a b \<Longrightarrow> same_node b c \<Longrightarrow> same_node a c"
  by (auto simp: same_node_def)

lemma same_nodeD: "same_node a b \<Longrightarrow> sv_id b = sv_id a \<and> sv_peers b = sv_peers a \<and> sv_blocked b = sv_blocked a"
  by (auto simp: same_node_def)

lemma server_okI:
  assumes "store_inv (sv_store sv) m" and "\<And>key. bm_get m key = map_option encode_record (R key)" and "\<And>key r. R key = Some r \<Longrightarrow> rec_sized key r"
  shows "server_ok sv" and "recs sv = R"
proof -
  have "read_record sv key = Inr (R key)" for key
    using store_reads(1) [OF assms(1)] assms(2,3) [of key] by (cases "R key") (auto simp: read_record_def decode_encode_record rec_sized_def)
  then show R: "recs sv = R" by (simp add: recs_def fun_eq_iff)
  show "server_ok sv" unfolding server_ok_def R using assms by blast
qed

lemma read_record_ok: "server_ok sv \<Longrightarrow> read_record sv key = Inr (recs sv key)"
proof -
  assume "server_ok sv"
  then obtain m where m: "store_inv (sv_store sv) m" "\<And>key. bm_get m key = map_option encode_record (recs sv key)"
    "\<And>key r. recs sv key = Some r \<Longrightarrow> rec_sized key r"
    unfolding server_ok_def by blast
  show ?thesis
    using store_reads(1) [OF m(1)] m(2,3) [of key] by (cases "recs sv key") (auto simp: read_record_def decode_encode_record rec_sized_def)
qed

lemma length_show_nat: "n < 10 ^ Suc k \<Longrightarrow> length (show_nat n) \<le> Suc k"
proof (induction k arbitrary: n)
  case 0
  then show ?case by (simp add: show_nat.simps [of n])
next
  case (Suc k)
  have "n div 10 < 10 ^ Suc k" using Suc.prems by (simp add: less_mult_imp_div_less)
  with Suc.IH [of "n div 10"] show ?case by (simp add: show_nat.simps [of n])
qed

lemma length_show_u64: "length (show_u64 w) \<le> 20"
proof -
  have "unat w < 2 ^ 64" using unsigned_less [of w, where ?'a = nat] by simp
  also have "(2::nat) ^ 64 < 10 ^ Suc 19" by simp
  finally show ?thesis using length_show_nat [of "unat w" 19] by (simp add: show_u64_def ascii_def)
qed

lemma length_encode_record: "length (encode_record r) \<le> 25 + 2 * length (rep_value r)"
  using length_show_u64 [of "rep_version r"] by (simp add: encode_record_def bit_text_def ascii_def cluster_hex_eq)

lemma record_fits: "rec_sized key r \<Longrightarrow> command_fits (CSet key (encode_record r))"
  using length_encode_record [of r]
  by (simp add: rec_sized_def command_fits_def utf8_encode_record fits_record_def length_encode MAX_FRAME_def del: encode.simps)

lemma write_record_ok:
  assumes "server_ok sv" and "rec_sized key r"
  obtains sv' where "write_record key r sv = (Inr (), sv')" and "server_ok sv'" and "recs sv' = (recs sv)(key \<mapsto> r)" and "same_node sv sv'"
proof -
  obtain m where m: "store_inv (sv_store sv) m" "\<And>key. bm_get m key = map_option encode_record (recs sv key)"
    "\<And>key r. recs sv key = Some r \<Longrightarrow> rec_sized key r"
    using assms(1) unfolding server_ok_def by blast
  note fits = record_fits [OF assms(2)]
  from store_set_succeeds [OF m(1) fits] obtain st where st: "store_set key (encode_record r) (sv_store sv) = (Inr (), st)" by blast
  have inv: "store_inv st (bm_insert key (encode_record r) m)"
    using apply_batch_inv [OF m(1), of "[CSet key (encode_record r)]" st] st fits
    by (simp add: store_set_def store_apply_batch command_fits_def)
  let ?sv = "sv\<lparr>sv_store := st\<rparr>"
  have "server_ok ?sv" "recs ?sv = (recs sv)(key \<mapsto> r)"
    using inv m(2,3) assms(2)
    by (auto intro!: server_okI [where sv = ?sv and m = "bm_insert key (encode_record r) m" and R = "(recs sv)(key \<mapsto> r)"] split: if_splits)
  with st that [of ?sv] show ?thesis by (auto simp: write_record_def same_node_def)
qed

definition merged :: "rstring \<Rightarrow> replica_value \<Rightarrow> (rstring \<rightharpoonup> replica_value) \<Rightarrow> rstring \<rightharpoonup> replica_value" where
  "merged key r R = (if replaces r (R key) then R(key \<mapsto> r) else R)"

lemma merge_ok:
  assumes "server_ok sv" and "rec_sized key r"
  obtains sv' where "merge key r sv = (Inr (), sv')" and "server_ok sv'" and "recs sv' = merged key r (recs sv)" and "same_node sv sv'"
proof (cases "replaces r (recs sv key)")
  case True
  obtain sv' where "write_record key r sv = (Inr (), sv')" "server_ok sv'" "recs sv' = (recs sv)(key \<mapsto> r)" "same_node sv sv'"
    using write_record_ok [OF assms] .
  with True assms that show ?thesis by (simp add: merge_def read_record_ok merged_def)
next
  case False
  with assms that [of sv] show ?thesis by (simp add: merge_def read_record_ok merged_def)
qed

lemma merge_all_ok:
  assumes "server_ok sv" and "\<And>key r. (key, r) \<in> set rows \<Longrightarrow> rec_sized key r"
  obtains sv' where "merge_all rows sv = (Inr (), sv')" and "server_ok sv'" and "recs sv' = fold (\<lambda>(key, r). merged key r) rows (recs sv)"
    and "same_node sv sv'"
  using assms
proof (induction rows arbitrary: sv thesis)
  case (Cons row rows)
  obtain key r where row: "row = (key, r)" by (cases row)
  have "rec_sized key r" using Cons.prems(3) row by simp
  obtain sv1 where 1: "merge key r sv = (Inr (), sv1)" "server_ok sv1" "recs sv1 = merged key r (recs sv)" "same_node sv sv1"
    using merge_ok [OF Cons.prems(2) \<open>rec_sized key r\<close>] .
  obtain sv2 where 2: "merge_all rows sv1 = (Inr (), sv2)" "server_ok sv2" "recs sv2 = fold (\<lambda>(key, r). merged key r) rows (recs sv1)" "same_node sv1 sv2"
    using Cons.IH [of sv1] 1(2) Cons.prems(3) by (metis list.set_intros(2))
  show ?case
    using 1 2 same_node_trans [OF 1(4) 2(4)] by (intro Cons.prems(1) [of sv2]) (simp_all add: row and_then_def)
qed simp

lemma fold_merged_outside: "key \<notin> fst ` set rows \<Longrightarrow> fold (\<lambda>(key, r). merged key r) rows R key = R key"
  by (induction rows arbitrary: R) (auto simp: merged_def)

lemma fold_merged:
  "distinct (map fst rows) \<Longrightarrow> fold (\<lambda>(key, r). merged key r) rows R key = (case map_of rows key of
     None \<Rightarrow> R key | Some r \<Rightarrow> if replaces r (R key) then Some r else R key)"
proof (induction rows arbitrary: R)
  case (Cons row rows)
  obtain k r where row: "row = (k, r)" by (cases row)
  show ?case
  proof (cases "key = k")
    case True
    with Cons.prems fold_merged_outside [of k rows "merged k r R"] row show ?thesis by (simp add: merged_def [of k r R])
  next
    case False
    with Cons row show ?thesis by (auto simp: merged_def [of k r R] split: option.split)
  qed
qed simp

section \<open>The answers to other servers\<close>

definition committed_recs :: "server \<Rightarrow> rstring \<rightharpoonup> replica_value" where
  "committed_recs sv key = (case recs sv key of Some r \<Rightarrow> if rep_committed r then Some r else None | None \<Rightarrow> None)"

lemma map_of_graph: "map_of (map (\<lambda>k. (k, f k)) ks) x = (if x \<in> set ks then Some (f x) else None)"
  by (induction ks) auto

lemma concat_map_if: "concat (map (\<lambda>x. if P x then [f x] else []) xs) = map f (filter P xs)"
  by (induction xs) auto

lemma utf8_dump: "utf8_valid (str_join [0x3B] (map (\<lambda>(key, r). dump_row key r) rows))"
  using dump_row_bytes plain_not(2) by (intro utf8_join) (fastforce simp: list_all_iff intro!: utf8_valid_ascii)+

lemma dump_ok:
  assumes "server_ok sv"
  obtains out rows where "dump sv = Inr out" and "utf8_valid out" and "decode_dump out = Inr rows" and "map_of rows = committed_recs sv"
    and "distinct (map fst rows)" and "\<And>key r. (key, r) \<in> set rows \<Longrightarrow> rec_sized key r"
    and "out = str_join [0x3B] (map (\<lambda>(key, r). dump_row key r) rows)"
proof -
  obtain m where m: "store_inv (sv_store sv) m" "\<And>key. bm_get m key = map_option encode_record (recs sv key)"
    "\<And>key r. recs sv key = Some r \<Longrightarrow> rec_sized key r" using assms unfolding server_ok_def by blast
  have inv: "bm_inv m" using m(1) represents_inv by (auto simp: store_inv_def)
  have key: "recs sv key \<noteq> None \<longleftrightarrow> key \<in> set (bm_keys m)" for key
    using bm_get_dom [of m key] m(2) [of key] by (cases "recs sv key") auto
  define keys where "keys = bm_keys m"
  let ?ks = "filter (\<lambda>key. committed_recs sv key \<noteq> None) keys"
  let ?rows = "map (\<lambda>key. (key, the (committed_recs sv key))) ?ks"
  have "collect_results (\<lambda>key. rbind (read_record sv key) (\<lambda>found. case found of
         None \<Rightarrow> fail_with (invalid_data ''cluster: missing stored record'')
       | Some r \<Rightarrow> Inr (if rep_committed r then [dump_row key r] else []))) keys
     = Inr (map (\<lambda>key. if committed_recs sv key \<noteq> None then [dump_row key (the (committed_recs sv key))] else []) keys)"
    using key by (intro collect_results_map, unfold keys_def) (auto simp: read_record_ok [OF assms] committed_recs_def split: option.split)
  then have dump: "dump sv = Inr (str_join [0x3B] (map (\<lambda>(key, r). dump_row key r) ?rows))"
    by (simp add: dump_def store_reads(3) [OF m(1)] comp_def concat_map_if flip: keys_def)
  have sized: "rec_sized k r" if "(k, r) \<in> set ?rows" for k r
    using that m(3) by (auto simp: committed_recs_def split: option.splits if_splits)
  have "committed_recs sv k = None" if "k \<notin> set ?ks" for k
    using that key [of k] by (auto simp: committed_recs_def keys_def split: option.splits)
  then have "map_of ?rows = committed_recs sv" unfolding map_of_graph fun_eq_iff by fastforce
  moreover have "distinct (map fst ?rows)" using inv by (simp add: comp_def bm_inv_def strict_sorted_iff keys_def)
  ultimately show ?thesis
    using that [OF dump utf8_dump decode_dump_join] sized by (auto simp: rec_sized_def)
qed

lemma repl_ok:
  assumes "server_ok sv" and "rec_sized key r" and "key \<noteq> []" and "rep_value r \<noteq> []"
  obtains sv' where "\<And>net. handle wire (repl_request key r) (sv, net) = (Inr (ascii ''OK''), (sv', net))" and "server_ok sv'"
    and "recs sv' = merged key (r\<lparr>rep_committed := False\<rparr>) (recs sv)" and "same_node sv sv'"
proof -
  have r: "rec_sized key (r\<lparr>rep_committed := False\<rparr>)" "utf8_valid key" "rep_ok r" using assms(2) by (auto simp: rec_sized_def rep_ok_def)
  obtain sv' where "merge key (r\<lparr>rep_committed := False\<rparr>) sv = (Inr (), sv')" "server_ok sv'"
    "recs sv' = merged key (r\<lparr>rep_committed := False\<rparr>) (recs sv)" "same_node sv sv'" using merge_ok [OF assms(1) r(1)] .
  then show ?thesis by (intro that [of sv']) (simp_all add: handle_repl_request [OF assms(3,4) r(2,3)])
qed

lemma commit_ok:
  assumes "server_ok sv" and "utf8_valid key" and "key \<noteq> []"
  obtains sv' where "\<And>net. handle wire (commit_request key version) (sv, net) = (Inr (ascii ''OK''), (sv', net))" and "server_ok sv'"
    and "recs sv' = (case recs sv key of Some r \<Rightarrow> if rep_version r = version then (recs sv)(key \<mapsto> r\<lparr>rep_committed := True\<rparr>) else recs sv
      | None \<Rightarrow> recs sv)" and "same_node sv sv'"
proof (cases "\<exists>r. recs sv key = Some r \<and> rep_version r = version")
  case True
  then obtain r where r: "recs sv key = Some r" "rep_version r = version" by blast
  then have "rec_sized key r" using assms(1) by (auto simp: server_ok_def)
  then have "rec_sized key (r\<lparr>rep_committed := True\<rparr>)" by (simp add: rec_sized_def rep_ok_def)
  then obtain sv' where "write_record key (r\<lparr>rep_committed := True\<rparr>) sv = (Inr (), sv')" "server_ok sv'"
    "recs sv' = (recs sv)(key \<mapsto> r\<lparr>rep_committed := True\<rparr>)" "same_node sv sv'" using write_record_ok [OF assms(1)] by blast
  with that r show ?thesis by (simp add: handle_commit_request [OF assms(3,2)] read_record_ok [OF assms(1)])
next
  case False
  then show ?thesis
    using that [of sv] assms(1) by (auto simp: handle_commit_request [OF assms(3,2)] read_record_ok [OF assms(1)] split: option.split)
qed

end
