(* ===== verification/Server_Cluster.thy ===== *)
theory Server_Cluster
  imports Server_Node
begin

text \<open>
  Servers connected by a network. A request between servers reaches a running server that is reachable, unless the connection is
  refused; its answer may be lost. While a server answers a client it does not accept connections. A cluster whose connections do
  not change during a request keeps every acknowledged write.
\<close>

section \<open>The network\<close>

datatype link = Refused | ReplyLost | Delivered

record world =
  w_nodes :: "socket_addr \<rightharpoonup> server"
  w_up :: "socket_addr set"
  w_links :: "link list"
  w_views :: "(socket_addr set \<times> link) list"

definition no_route :: io_error where
  "no_route = IoError NotConnected ''connection refused''"

definition timed_out :: io_error where
  "timed_out = IoError TimedOut ''timed out''"

text \<open>The requests servers send each other need no further connection.\<close>

definition dead_wire :: "unit wire" where
  "dead_wire address input net = (Inl no_route, net)"

definition next_link :: "world \<Rightarrow> link \<times> world" where
  "next_link w = (case w_links w of [] \<Rightarrow> (Delivered, w) | l # ls \<Rightarrow> (l, w\<lparr>w_links := ls\<rparr>))"

definition exchange :: "world wire" where
  "exchange a input w = (case (if a \<in> w_up w then w_nodes w a else None) of
     None \<Rightarrow> (Inl no_route, w)
   | Some sv \<Rightarrow> (case next_link w of (l, w) \<Rightarrow>
       if l = Refused then (Inl no_route, w)
       else (case serve_connection dead_wire input (sv, ()) of
           (Inl _, _) \<Rightarrow> (Inl no_route, w\<lparr>w_nodes := (w_nodes w)(a := None)\<rparr>)
         | (Inr out, (sv', _)) \<Rightarrow>
             (if l = ReplyLost then Inl timed_out else Inr out, w\<lparr>w_nodes := (w_nodes w)(a \<mapsto> sv')\<rparr>))))"

text \<open>
  A client's connection: the server that handles it uses the network. Which servers can be reached may change before every
  connection, and the connection itself may fail.
\<close>

definition next_view :: "world \<Rightarrow> link \<times> world" where
  "next_view w = (case w_views w of [] \<Rightarrow> (Delivered, w) | (U, l) # vs \<Rightarrow> (l, w\<lparr>w_up := U, w_views := vs\<rparr>))"

definition front :: "world wire" where
  "front a input w = (case next_view w of (l, w) \<Rightarrow>
     case (if l = Refused then None else w_nodes w a) of
       None \<Rightarrow> (Inl no_route, w)
     | Some sv \<Rightarrow> (case serve_connection exchange input (sv, w\<lparr>w_nodes := (w_nodes w)(a := None)\<rparr>) of
         (Inl _, (_, w')) \<Rightarrow> (Inl no_route, w')
       | (Inr out, (sv', w')) \<Rightarrow> (if l = ReplyLost then Inl timed_out else Inr out, w'\<lparr>w_nodes := (w_nodes w')(a \<mapsto> sv')\<rparr>)))"

section \<open>One request\<close>

lemma write_frame_ok: "length p \<le> MAX_FRAME \<Longrightarrow> write_frame p [] = Inr (be_bytes_u32 (of_nat (length p)) @ p)"
  by (simp add: write_frame_def MAX_FRAME_def)

lemma read_written: "length p \<le> MAX_FRAME \<Longrightarrow> read_frame (be_bytes_u32 (of_nat (length p)) @ p) = Inr (p, [])"
  using read_frame_inverts_write_frame [of _ p "[]"] write_frame_ok [of p] by auto

lemma read_frame_Nil: "\<exists>e. read_frame [] = Inl e"
  by (simp add: read_frame_def read_exact_def)

lemma serve_request:
  assumes "length request \<le> MAX_FRAME"
  shows "serve_connection wire (be_bytes_u32 (of_nat (length request)) @ request) st = (case handle wire request st of (r, st) \<Rightarrow> (answer r, st))"
  using read_written [OF assms] by (simp add: serve_connection_def)

lemma answer_Inr: "length response \<le> MAX_FRAME \<Longrightarrow> answer (Inr response) = Inr (be_bytes_u32 (of_nat (length response)) @ response)"
  by (simp add: answer_def write_frame_ok)

lemma request_peer_exchange:
  assumes "w_links w = []" and "a \<in> w_up w" and "w_nodes w a = Some sv" and "length request \<le> MAX_FRAME"
    and "handle dead_wire request (sv, ()) = (Inr response, (sv', ()))" and "utf8_valid response" and "length response \<le> MAX_FRAME"
  shows "request_peer exchange a request w = (Inr response, w\<lparr>w_nodes := (w_nodes w)(a \<mapsto> sv')\<rparr>)"
  using assms by (simp add: request_peer_def write_frame_ok exchange_def next_link_def serve_request answer_Inr read_written)

lemma answer_error:
  obtains out where "answer (Inl (Failed e)) = Inr out" and "\<And>response rest. read_frame out = Inr (response, rest) \<Longrightarrow> response \<noteq> ascii ''OK''"
proof (cases "length (ascii ''ERROR '' @ error_text e) \<le> MAX_FRAME")
  case True
  note ok = write_frame_ok [OF True] read_written [OF True]
  show ?thesis by (rule that) (use ok in \<open>auto simp: answer_def ascii_def\<close>)
next
  case False
  then have "\<exists>x. write_frame (ascii ''ERROR '' @ error_text e) [] = Inl x" by (simp add: write_frame_def)
  then show ?thesis using read_frame_Nil by (intro that [of "[]"]) (auto simp: answer_def)
qed

text \<open>A request that is refused, or too large, changes nothing.\<close>

lemma request_peer_refused:
  assumes "w_links w = []" and "a \<in> w_up w" and "w_nodes w a = Some sv"
    and "length request \<le> MAX_FRAME \<Longrightarrow> handle dead_wire request (sv, ()) = (Inl (Failed e), (sv, ()))"
  obtains r where "request_peer exchange a request w = (r, w)" and "r \<noteq> Inr (ascii ''OK'')"
proof (cases "length request \<le> MAX_FRAME")
  case True
  obtain out where out: "answer (Inl (Failed e)) = Inr out" "\<And>response rest. read_frame out = Inr (response, rest) \<Longrightarrow> response \<noteq> ascii ''OK''"
    using answer_error [of e] by blast
  let ?r = "rbind (read_frame out) (\<lambda>(response, _).
      if utf8_valid response then Inr response else Inl (invalid_data ''cluster: response is not UTF-8''))"
  have "request_peer exchange a request w = (?r, w)"
    using assms True out(1) by (simp add: request_peer_def write_frame_ok exchange_def next_link_def serve_request fun_upd_idem)
  moreover have "?r \<noteq> Inr (ascii ''OK'')" using out(2) by (cases "read_frame out") (auto split: if_splits)
  ultimately show ?thesis by (rule that)
next
  case False
  then have "\<exists>x. write_frame request [] = Inl x" by (simp add: write_frame_def)
  then obtain x where "write_frame request [] = Inl x" ..
  moreover obtain e' where "read_frame [] = Inl e'" using read_frame_Nil by blast
  moreover obtain out where "answer (Inl (Failed e')) = Inr out" by (rule answer_error)
  ultimately have "request_peer exchange a request w = (Inl x, w)"
    using assms(1-3) by (simp add: request_peer_def exchange_def next_link_def serve_connection_def fail_with_def fun_upd_idem)
  then show ?thesis by (rule that) simp
qed

lemma request_peer_unreachable:
  assumes "a \<notin> w_up w"
  shows "request_peer exchange a request w = (Inl no_route, w)"
  using assms by (simp add: request_peer_def exchange_def split: sum.split)

section \<open>The phases of a client request\<close>

lemma show_frame: "length (ascii ''PONG '' @ show_u64 i) \<le> MAX_FRAME"
  using length_show_u64 [of i] by (simp add: MAX_FRAME_def ascii_def)

lemma utf8_plain: "plain_text s \<Longrightarrow> utf8_valid s"
  using plain_not(2) by (intro utf8_valid_ascii) (auto simp: plain_text_def list_all_iff)

lemma alive_loop_exchange:
  assumes "w_links w = []" and "\<And>j a. (j, a) \<in> set ps \<Longrightarrow> \<exists>sv. w_nodes w a = Some sv \<and> sv_id sv = j"
  shows "alive_loop exchange B ps w = (map fst (filter (\<lambda>(j, a). j \<notin> B \<and> a \<in> w_up w) ps), w)"
  using assms(2)
proof (induction ps)
  case (Cons p ps)
  obtain j a where p: "p = (j, a)" by (cases p)
  then obtain sv where sv: "w_nodes w a = Some sv" "sv_id sv = j" using Cons.prems by auto
  have ih: "alive_loop exchange B ps w = (map fst (filter (\<lambda>(j, a). j \<notin> B \<and> a \<in> w_up w) ps), w)"
    using Cons by auto
  have "request_peer exchange a (ascii ''PING'') w = (Inr (ascii ''PONG '' @ show_u64 j), w)" if "a \<in> w_up w"
    using request_peer_exchange [OF assms(1) that sv(1) _ handle_ping _ show_frame] sv
    by (simp add: fun_upd_idem MAX_FRAME_def ascii_def utf8_valid_append utf8_plain)
  moreover have "request_peer exchange a (ascii ''PING'') w = (Inl no_route, w)" if "a \<notin> w_up w"
    using request_peer_unreachable [OF that] .
  ultimately show ?case using ih by (simp add: p)
qed simp

definition dump_fits :: "server \<Rightarrow> bool" where
  "dump_fits sv \<longleftrightarrow> (case dump sv of Inr out \<Rightarrow> 5 + length out \<le> MAX_FRAME | Inl _ \<Rightarrow> True)"

text \<open>Committed records that are not newer than \<open>T\<close>.\<close>

definition bounded_by :: "(rstring \<rightharpoonup> replica_value) \<Rightarrow> (rstring \<rightharpoonup> replica_value) \<Rightarrow> bool" where
  "bounded_by T R \<longleftrightarrow> (\<forall>key r. R key = Some r \<longrightarrow> rep_committed r \<and> (\<exists>t. T key = Some t \<and> (r = t \<or> rep_version r < rep_version t)))"

lemma bounded_by_fold:
  assumes "bounded_by T R" and "bounded_by T (map_of rows)" and "distinct (map fst rows)"
  shows "bounded_by T (fold (\<lambda>(key, r). merged key r) rows R)"
    and "T key = Some t \<Longrightarrow> R key = T key \<or> map_of rows key = T key \<Longrightarrow> fold (\<lambda>(key, r). merged key r) rows R key = T key"
proof -
  let ?R = "fold (\<lambda>(key, r). merged key r) rows R"
  have cases: "?R key = R key \<or> ?R key = map_of rows key" for key
    by (simp add: fold_merged [OF assms(3)] split: option.split)
  show "bounded_by T ?R" unfolding bounded_by_def using cases assms(1,2) unfolding bounded_by_def by metis
  assume "T key = Some t" and "R key = T key \<or> map_of rows key = T key"
  then show "?R key = T key"
    using assms(1,2) unfolding bounded_by_def fold_merged [OF assms(3)]
    by (cases "R key"; cases "map_of rows key") (fastforce simp: replaces_def)+
qed

definition peer_at :: "server \<Rightarrow> world \<Rightarrow> u64 \<Rightarrow> socket_addr \<Rightarrow> server \<Rightarrow> bool" where
  "peer_at sv w j a p \<longleftrightarrow> bm_get (sv_peers sv) j = Some a \<and> a \<in> w_up w \<and> w_nodes w a = Some p"

lemma peer_at_same: "same_node sv sv' \<Longrightarrow> peer_at sv' w = peer_at sv w"
  by (auto simp: peer_at_def fun_eq_iff dest: same_nodeD)

lemma ask_dump:
  assumes "w_links w = []" and "peer_at sv w j a p" and "server_ok p" and "dump_fits p"
  obtains out rows where "ask exchange j (ascii ''DUMP'') (sv, w) = (Inr (Inr (ascii ''DUMP '' @ out)), (sv, w))" and "decode_dump out = Inr rows"
    and "map_of rows = committed_recs p" and "distinct (map fst rows)" and "\<And>key r. (key, r) \<in> set rows \<Longrightarrow> rec_sized key r"
proof (rule dump_ok [OF assms(3)])
  fix out rows
  assume d: "dump p = Inr out" "utf8_valid out" "decode_dump out = Inr rows" "map_of rows = committed_recs p"
    "distinct (map fst rows)" "\<And>key r. (key, r) \<in> set rows \<Longrightarrow> rec_sized key r"
  have "length (ascii ''DUMP '' @ out) \<le> MAX_FRAME" "length (ascii ''DUMP'') \<le> MAX_FRAME" "utf8_valid (ascii ''DUMP '' @ out)"
    using assms(4) d(1,2) by (simp_all add: dump_fits_def ascii_def MAX_FRAME_def)
  moreover have "handle dead_wire (ascii ''DUMP'') (p, ()) = (Inr (ascii ''DUMP '' @ out), (p, ()))" using d(1) by (simp add: handle_dump)
  ultimately have "request_peer exchange a (ascii ''DUMP'') w = (Inr (ascii ''DUMP '' @ out), w)"
    using request_peer_exchange [OF assms(1), of a p] assms(2) by (simp add: peer_at_def fun_upd_idem)
  with that d assms(2) show ?thesis by (simp add: ask_def peer_at_def)
qed

lemma bounded_committed: "bounded_by T (recs p) \<Longrightarrow> committed_recs p = recs p"
  by (auto simp: fun_eq_iff committed_recs_def bounded_by_def split: option.split)

lemma strip_prefix_append [simp]: "strip_prefix (p @ s) p = Some s"
  by (simp add: strip_prefix_def starts_with_def)

text \<open>Catching up brings the leader to the newest records among those it can reach.\<close>

lemma catch_up_ok:
  assumes "w_links w = []" and "server_ok sv" and "bounded_by T (recs sv)"
    and "\<And>j. j \<in> set L \<Longrightarrow> \<exists>a p. peer_at sv w j a p \<and> server_ok p \<and> dump_fits p \<and> bounded_by T (recs p)"
  shows "\<exists>sv'. catch_up exchange L (sv, w) = (Inr (), (sv', w)) \<and> server_ok sv' \<and> same_node sv sv' \<and> bounded_by T (recs sv')
    \<and> (\<forall>key t. T key = Some t \<and> (recs sv key = T key \<or> (\<exists>j \<in> set L. \<exists>a p. peer_at sv w j a p \<and> recs p key = T key)) \<longrightarrow> recs sv' key = T key)"
  using assms(2-)
proof (induction L arbitrary: sv)
  case (Cons j L)
  obtain a p where p: "peer_at sv w j a p" "server_ok p" "dump_fits p" "bounded_by T (recs p)" using Cons.prems(3) [of j] by auto
  obtain out rows where d: "ask exchange j (ascii ''DUMP'') (sv, w) = (Inr (Inr (ascii ''DUMP '' @ out)), (sv, w))" "decode_dump out = Inr rows"
    "map_of rows = recs p" "distinct (map fst rows)" "\<And>key r. (key, r) \<in> set rows \<Longrightarrow> rec_sized key r"
    using ask_dump [OF assms(1) p(1-3)] bounded_committed [OF p(4)] by metis
  obtain sv1 where m: "merge_all rows sv = (Inr (), sv1)" "server_ok sv1" "recs sv1 = fold (\<lambda>(key, r). merged key r) rows (recs sv)" "same_node sv sv1"
    using merge_all_ok [OF Cons.prems(1) d(5)] by blast
  have b1: "bounded_by T (recs sv1)"
    and hit: "T key = Some t \<Longrightarrow> recs sv key = T key \<or> recs p key = T key \<Longrightarrow> recs sv1 key = T key" for key t
    using bounded_by_fold [OF Cons.prems(2) _ d(4)] p(4) d(3) m(3) by auto
  from Cons.IH [OF m(2) b1] Cons.prems(3) obtain sv2 where 2: "catch_up exchange L (sv1, w) = (Inr (), (sv2, w))" "server_ok sv2" "same_node sv1 sv2"
    "bounded_by T (recs sv2)" "\<And>key t. T key = Some t \<Longrightarrow> recs sv1 key = T key \<or> (\<exists>j \<in> set L. \<exists>a p. peer_at sv w j a p \<and> recs p key = T key)
      \<Longrightarrow> recs sv2 key = T key"
    unfolding peer_at_same [OF m(4)] by (metis list.set_intros(2))
  have "catch_up exchange (j # L) (sv, w) = (Inr (), (sv2, w))"
    using d(1,2) m(1) 2(1) by (simp add: and_then_def on_server_def)
  moreover have "p' = p" if "peer_at sv w j a' p'" for a' p' using that p(1) by (auto simp: peer_at_def)
  ultimately show ?case
    using 2 hit same_node_trans [OF m(4) 2(3)] by (intro exI [of _ sv2]) (auto, metis+)
qed auto

text \<open>A request to several peers, each of which answers OK, changes exactly these peers.\<close>

definition after :: "rstring \<Rightarrow> server \<Rightarrow> server" where
  "after request p = fst (snd (handle dead_wire request (p, ())))"

definition peer_addrs :: "server \<Rightarrow> u64 list \<Rightarrow> socket_addr set" where
  "peer_addrs sv L = {a. \<exists>j \<in> set L. bm_get (sv_peers sv) j = Some a}"

definition change_nodes :: "(server \<Rightarrow> server) \<Rightarrow> socket_addr set \<Rightarrow> world \<Rightarrow> world" where
  "change_nodes f A w = w\<lparr>w_nodes := (\<lambda>a. if a \<in> A then map_option f (w_nodes w a) else w_nodes w a)\<rparr>"

lemma change_nodes_simps [simp]:
  "w_up (change_nodes f A w) = w_up w" "w_links (change_nodes f A w) = w_links w"
  "w_nodes (change_nodes f A w) a = (if a \<in> A then map_option f (w_nodes w a) else w_nodes w a)"
  by (simp_all add: change_nodes_def)

lemma change_nodes_empty [simp]: "change_nodes f {} w = w"
  by (simp add: change_nodes_def)

lemma ask_all_ok:
  assumes "w_links w = []" and "distinct L" and "distinct (map snd (sv_peers sv))"
    and "\<And>j. j \<in> set L \<Longrightarrow> length request \<le> MAX_FRAME \<and> (\<exists>a p p'. peer_at sv w j a p \<and> handle dead_wire request (p, ()) = (Inr (ascii ''OK''), (p', ())))"
  shows "ask_all exchange request L (sv, w) = (Inr L, (sv, change_nodes (after request) (peer_addrs sv L) w))"
  using assms(1,2,4)
proof (induction L arbitrary: w)
  case (Cons j L)
  obtain a p p' where p: "peer_at sv w j a p" "handle dead_wire request (p, ()) = (Inr (ascii ''OK''), (p', ()))" "length request \<le> MAX_FRAME"
    using Cons.prems(3) [of j] by auto
  have "utf8_valid (ascii ''OK'')" "length (ascii ''OK'') \<le> MAX_FRAME" by (simp_all add: ascii_def MAX_FRAME_def)
  then have ask: "ask exchange j request (sv, w) = (Inr (Inr (ascii ''OK'')), (sv, w\<lparr>w_nodes := (w_nodes w)(a \<mapsto> p')\<rparr>))"
    using request_peer_exchange [OF Cons.prems(1) _ _ p(3,2)] p(1) by (simp add: ask_def peer_at_def)
  let ?w = "w\<lparr>w_nodes := (w_nodes w)(a \<mapsto> p')\<rparr>"
  have other: "bm_get (sv_peers sv) i \<noteq> Some a" if "i \<in> set L" for i
  proof
    assume "bm_get (sv_peers sv) i = Some a"
    then have "(i, a) \<in> set (sv_peers sv)" "(j, a) \<in> set (sv_peers sv)" using p(1) by (auto simp: peer_at_def dest: map_of_SomeD)
    with assms(3) have "i = j" unfolding distinct_map inj_on_def by fastforce
    with that Cons.prems(2) show False by simp
  qed
  have "length request \<le> MAX_FRAME \<and> (\<exists>b q q'. peer_at sv ?w i b q \<and> handle dead_wire request (q, ()) = (Inr (ascii ''OK''), (q', ())))" if "i \<in> set L" for i
    using Cons.prems(3) [of i] that other [OF that] by (auto simp: peer_at_def)
  with Cons.IH [of ?w] Cons.prems(1,2) have ih: "ask_all exchange request L (sv, ?w) = (Inr L, (sv, change_nodes (after request) (peer_addrs sv L) ?w))"
    by simp
  have "a \<notin> peer_addrs sv L" using other by (auto simp: peer_addrs_def)
  moreover have "peer_addrs sv (j # L) = insert a (peer_addrs sv L)" using p(1) by (auto simp: peer_addrs_def peer_at_def)
  moreover have "w_nodes w a = Some p" "after request p = p'" using p by (simp_all add: peer_at_def after_def)
  ultimately have "change_nodes (after request) (peer_addrs sv L) ?w = change_nodes (after request) (peer_addrs sv (j # L)) w"
    by (auto simp: change_nodes_def fun_eq_iff)
  with ask ih show ?case by (simp add: and_then_def)
qed (simp add: peer_addrs_def)

lemma ask_all_refused:
  assumes "w_links w = []"
    and "\<And>j. j \<in> set L \<Longrightarrow> \<exists>a p e. peer_at sv w j a p \<and> (length request \<le> MAX_FRAME \<longrightarrow> handle dead_wire request (p, ()) = (Inl (Failed e), (p, ())))"
  shows "ask_all exchange request L (sv, w) = (Inr [], (sv, w))"
  using assms(2)
proof (induction L)
  case (Cons j L)
  obtain a p e where p: "peer_at sv w j a p" "length request \<le> MAX_FRAME \<longrightarrow> handle dead_wire request (p, ()) = (Inl (Failed e), (p, ()))"
    using Cons.prems [of j] by auto
  then obtain r where "request_peer exchange a request w = (r, w)" "r \<noteq> Inr (ascii ''OK'')"
    using request_peer_refused [OF assms(1), of a p request e] by (auto simp: peer_at_def)
  with p(1) have "ask exchange j request (sv, w) = (Inr r, (sv, w))" "r \<noteq> Inr (ascii ''OK'')" by (simp_all add: ask_def peer_at_def)
  moreover have "ask_all exchange request L (sv, w) = (Inr [], (sv, w))" using Cons by simp
  ultimately show ?case by (simp add: and_then_def)
qed simp

section \<open>The cluster\<close>

text \<open>
  \<open>conf\<close> lists all nodes with their addresses. \<open>T\<close> is the newest committed record of every key: no node has a newer one, no node has an
  uncommitted one, and a majority has exactly this one.
\<close>

definition peers_of :: "(u64, socket_addr) bmap \<Rightarrow> u64 \<Rightarrow> (u64, socket_addr) bmap" where
  "peers_of conf i = filter (\<lambda>(j, a). j \<noteq> i) conf"

definition conf_ok :: "(u64, socket_addr) bmap \<Rightarrow> bool" where
  "conf_ok conf \<longleftrightarrow> bm_inv conf \<and> distinct (map snd conf) \<and> odd (length conf)"

definition member_ok :: "(u64, socket_addr) bmap \<Rightarrow> (rstring \<rightharpoonup> replica_value) \<Rightarrow> u64 \<Rightarrow> server \<Rightarrow> bool" where
  "member_ok conf T i sv \<longleftrightarrow> sv_id sv = i \<and> sv_peers sv = peers_of conf i \<and> server_ok sv \<and> bounded_by T (recs sv)"

definition holds_record :: "world \<Rightarrow> rstring \<Rightarrow> replica_value \<Rightarrow> u64 \<times> socket_addr \<Rightarrow> bool" where
  "holds_record w key t p \<longleftrightarrow> (\<exists>sv. w_nodes w (snd p) = Some sv \<and> recs sv key = Some t)"

definition cluster_inv :: "(u64, socket_addr) bmap \<Rightarrow> world \<Rightarrow> (rstring \<rightharpoonup> replica_value) \<Rightarrow> bool" where
  "cluster_inv conf w T \<longleftrightarrow> conf_ok conf \<and> w_links w = []
    \<and> (\<forall>(i, a) \<in> set conf. \<exists>sv. w_nodes w a = Some sv \<and> member_ok conf T i sv)
    \<and> (\<forall>key t. T key = Some t \<longrightarrow> key \<noteq> [] \<and> length conf < 2 * length (filter (holds_record w key t) conf))"

definition dumps_fit :: "(u64, socket_addr) bmap \<Rightarrow> world \<Rightarrow> bool" where
  "dumps_fit conf w \<longleftrightarrow> (\<forall>(i, a) \<in> set conf. \<forall>sv. w_nodes w a = Some sv \<longrightarrow> dump_fits sv)"

lemma dumps_fitD: "dumps_fit conf w \<Longrightarrow> (i, a) \<in> set conf \<Longrightarrow> w_nodes w a = Some sv \<Longrightarrow> dump_fits sv"
  by (auto simp: dumps_fit_def)

lemma filter_overlap: "length xs < length (filter P xs) + length (filter Q xs) \<Longrightarrow> \<exists>x \<in> set xs. P x \<and> Q x"
proof (induction xs)
  case (Cons x xs)
  then show ?case by (cases "P x \<and> Q x") (auto split: if_splits)
qed simp

text \<open>The peers a node reaches, and the nodes of its component.\<close>

definition reached :: "(u64, socket_addr) bmap \<Rightarrow> u64 \<Rightarrow> u64 set \<Rightarrow> socket_addr set \<Rightarrow> u64 list" where
  "reached conf i B U = map fst (filter (\<lambda>(j, a). j \<notin> B \<and> a \<in> U) (peers_of conf i))"

definition in_component :: "u64 \<Rightarrow> u64 set \<Rightarrow> socket_addr set \<Rightarrow> u64 \<times> socket_addr \<Rightarrow> bool" where
  "in_component i B U p \<longleftrightarrow> fst p = i \<or> fst p \<notin> B \<and> snd p \<in> U"

lemma filter_key: "distinct (map fst xs) \<Longrightarrow> (i, a) \<in> set xs \<Longrightarrow> filter (\<lambda>p. fst p = i) xs = [(i, a)]"
proof (induction xs)
  case (Cons x xs)
  obtain j b where x: "x = (j, b)" by (cases x)
  have no: "filter (\<lambda>p. fst p = i) xs = []" if "i \<notin> fst ` set xs" using that by (auto simp: filter_empty_conv)
  from Cons x show ?case by (cases "j = i") (auto simp: no)
qed simp

lemma length_filter_split: "length (filter P xs) = length (filter (\<lambda>x. P x \<and> Q x) xs) + length (filter (\<lambda>x. P x \<and> \<not> Q x) xs)"
  by (induction xs) simp_all

lemma conf_distinct: "bm_inv conf \<Longrightarrow> distinct (map fst conf)"
  by (simp add: bm_inv_def strict_sorted_iff)

lemma component_size:
  assumes "bm_inv conf" and "(i, a) \<in> set conf"
  shows "length (filter (in_component i B U) conf) = length (reached conf i B U) + 1" and "length (peers_of conf i) + 1 = length conf"
proof -
  have one: "filter (\<lambda>p. fst p = i) conf = [(i, a)]" using filter_key [OF conf_distinct [OF assms(1)] assms(2)] .
  have "filter (\<lambda>p. in_component i B U p \<and> fst p = i) conf = filter (\<lambda>p. fst p = i) conf"
    by (rule filter_cong) (auto simp: in_component_def)
  moreover have "filter (\<lambda>p. in_component i B U p \<and> \<not> fst p = i) conf = filter (\<lambda>(j, a). j \<notin> B \<and> a \<in> U) (peers_of conf i)"
    unfolding peers_of_def filter_filter by (rule filter_cong [OF refl]) (auto simp: in_component_def)
  ultimately show "length (filter (in_component i B U) conf) = length (reached conf i B U) + 1"
    using one length_filter_split [of "in_component i B U" conf "\<lambda>p. fst p = i"] by (simp add: reached_def)
  have "peers_of conf i = filter (\<lambda>p. \<not> fst p = i) conf" unfolding peers_of_def by (rule filter_cong) auto
  with one sum_length_filter_compl [of "\<lambda>p. fst p = i" conf] show "length (peers_of conf i) + 1 = length conf" by simp
qed

lemma peers_of_in: "bm_inv conf \<Longrightarrow> (j, a) \<in> set (peers_of conf i) \<longleftrightarrow> bm_get (peers_of conf i) j = Some a"
  "(j, a) \<in> set (peers_of conf i) \<longleftrightarrow> (j, a) \<in> set conf \<and> j \<noteq> i"
proof -
  assume "bm_inv conf"
  then have "bm_inv (peers_of conf i)"
    by (auto simp: bm_inv_def peers_of_def sorted_wrt_map intro: sorted_wrt_filter)
  then show "(j, a) \<in> set (peers_of conf i) \<longleftrightarrow> bm_get (peers_of conf i) j = Some a" by (rule bm_get_in)
qed (simp add: peers_of_def)

lemma reached_in:
  "bm_inv conf \<Longrightarrow> j \<in> set (reached conf i B U) \<longleftrightarrow> (\<exists>a. bm_get (peers_of conf i) j = Some a \<and> (j, a) \<in> set conf \<and> j \<notin> B \<and> a \<in> U \<and> j \<noteq> i)"
  using peers_of_in(1) [of conf j _ i] peers_of_in(2) [of j _ conf i] by (force simp: reached_def)

lemma conf_keyed: "bm_inv conf \<Longrightarrow> (i, a) \<in> set conf \<Longrightarrow> (i, b) \<in> set conf \<Longrightarrow> a = b"
  by (metis bm_get_in option.inject)

lemma conf_addressed: "distinct (map snd conf) \<Longrightarrow> (i, a) \<in> set conf \<Longrightarrow> (j, a) \<in> set conf \<Longrightarrow> i = j"
  unfolding distinct_map inj_on_def by fastforce

lemma cluster_member:
  assumes "cluster_inv conf w T" and "(i, a) \<in> set conf"
  obtains sv where "w_nodes w a = Some sv" and "member_ok conf T i sv"
  using assms by (auto simp: cluster_inv_def)

text \<open>The world a server sees while it handles a request: it cannot reach itself.\<close>

definition seen :: "world \<Rightarrow> socket_addr \<Rightarrow> socket_addr set \<Rightarrow> world" where
  "seen w a U = w\<lparr>w_up := U, w_nodes := (w_nodes w)(a := None)\<rparr>"

lemma seen_peer:
  assumes "cluster_inv conf w T" and "(i, a) \<in> set conf" and "member_ok conf T i sv" and "j \<in> set (reached conf i B U)"
  obtains b p where "peer_at sv (seen w a U) j b p" and "member_ok conf T j p" and "(j, b) \<in> set conf" and "b \<noteq> a" and "w_nodes w b = Some p"
proof -
  have conf: "bm_inv conf" "distinct (map snd conf)" using assms(1) by (simp_all add: cluster_inv_def conf_ok_def)
  from assms(4) obtain b where b: "bm_get (peers_of conf i) j = Some b" "(j, b) \<in> set conf" "b \<in> U" "j \<noteq> i"
    unfolding reached_in [OF conf(1)] by blast
  obtain p where p: "w_nodes w b = Some p" "member_ok conf T j p" using cluster_member [OF assms(1) b(2)] .
  have "b \<noteq> a" using conf_addressed [OF conf(2) b(2)] assms(2) b(4) by blast
  with b p assms(3) that show ?thesis by (simp add: peer_at_def seen_def member_ok_def)
qed

lemma alive_seen:
  assumes "cluster_inv conf w T" and "(i, a) \<in> set conf" and "member_ok conf T i sv"
  shows "alive_peers exchange (sv, seen w a U) = (Inr (reached conf i (sv_blocked sv) U), (sv, seen w a U))"
proof -
  have conf: "bm_inv conf" "distinct (map snd conf)" "w_links w = []" using assms(1) by (simp_all add: cluster_inv_def conf_ok_def)
  have "\<exists>p. w_nodes (seen w a U) b = Some p \<and> sv_id p = j" if "(j, b) \<in> set (sv_peers sv)" for j b
  proof -
    from that assms(3) have j: "(j, b) \<in> set conf" "j \<noteq> i" by (simp_all add: member_ok_def peers_of_in(2))
    obtain p where p: "w_nodes w b = Some p" "member_ok conf T j p" using cluster_member [OF assms(1) j(1)] .
    have "b \<noteq> a" using conf_addressed [OF conf(2) j(1)] assms(2) j(2) by blast
    with p show ?thesis by (simp add: seen_def member_ok_def)
  qed
  from alive_loop_exchange [OF _ this] conf(3) assms(3) show ?thesis
    by (simp add: alive_peers_def seen_def reached_def member_ok_def)
qed

lemma majority_meets:
  assumes "cluster_inv conf w T" and "(i, a) \<in> set conf" and "T key = Some t"
    and "length conf < 2 * (length (reached conf i B U) + 1)" and "w_nodes w a = Some sv"
  shows "recs sv key = Some t \<or> (\<exists>j b p. j \<in> set (reached conf i B U) \<and> (j, b) \<in> set conf \<and> w_nodes w b = Some p \<and> recs p key = Some t)"
proof -
  have conf: "bm_inv conf" using assms(1) by (simp add: cluster_inv_def conf_ok_def)
  have "length conf < 2 * length (filter (holds_record w key t) conf)" using assms(1,3) by (simp add: cluster_inv_def)
  with component_size(1) [OF conf assms(2), of B U] assms(4)
  have "length conf < length (filter (in_component i B U) conf) + length (filter (holds_record w key t) conf)" by simp
  then obtain j b where x: "(j, b) \<in> set conf" "in_component i B U (j, b)" "holds_record w key t (j, b)"
    using filter_overlap [of conf] by (metis prod.exhaust)
  show ?thesis
  proof (cases "j = i")
    case True
    with x(3) conf_keyed [OF conf x(1)] assms(2,5) show ?thesis by (auto simp: holds_record_def)
  next
    case False
    with x have "j \<in> set (reached conf i B U)"
      unfolding reached_in [OF conf] using peers_of_in(1) [OF conf] peers_of_in(2) by (fastforce simp: in_component_def)
    with x show ?thesis by (auto simp: holds_record_def)
  qed
qed

text \<open>After catching up with a majority a server knows the newest record of every key.\<close>

lemma catch_up_majority:
  assumes inv: "cluster_inv conf w T" and mem: "(i, a) \<in> set conf" "w_nodes w a = Some sv" "member_ok conf T i sv" and fit: "dumps_fit conf w"
    and L: "L = reached conf i B U" and majority: "length conf < 2 * (length L + 1)"
  obtains sv' where "catch_up exchange L (sv, seen w a U) = (Inr (), (sv', seen w a U))" and "member_ok conf T i sv'" and "same_node sv sv'"
    and "recs sv' = T"
proof -
  have conf: "bm_inv conf" "w_links w = []" using inv by (simp_all add: cluster_inv_def conf_ok_def)
  have peer: "\<exists>b p. peer_at sv (seen w a U) j b p \<and> (j, b) \<in> set conf \<and> w_nodes w b = Some p
      \<and> server_ok p \<and> dump_fits p \<and> bounded_by T (recs p)" if "j \<in> set L" for j
    using seen_peer [OF inv mem(1,3) that [unfolded L]] dumps_fitD [OF fit] unfolding member_ok_def by metis
  have reach: "\<exists>b p. peer_at sv (seen w a U) j b p \<and> server_ok p \<and> dump_fits p \<and> bounded_by T (recs p)" if "j \<in> set L" for j
    using peer [OF that] by blast
  have "w_links (seen w a U) = []" "server_ok sv" "bounded_by T (recs sv)" using conf(2) mem(3) by (simp_all add: seen_def member_ok_def)
  from catch_up_ok [OF this reach] obtain sv' where s: "catch_up exchange L (sv, seen w a U) = (Inr (), (sv', seen w a U))"
    "server_ok sv'" "same_node sv sv'" "bounded_by T (recs sv')"
    "\<And>key t. T key = Some t \<Longrightarrow> recs sv key = T key \<or> (\<exists>j \<in> set L. \<exists>b p. peer_at sv (seen w a U) j b p \<and> recs p key = T key) \<Longrightarrow> recs sv' key = T key"
    by blast
  have "recs sv' key = T key" for key
  proof (cases "T key")
    case None
    with s(4) show ?thesis unfolding bounded_by_def by (metis option.distinct(1) option.exhaust)
  next
    case (Some t)
    have "recs sv key = T key \<or> (\<exists>j \<in> set L. \<exists>b p. peer_at sv (seen w a U) j b p \<and> recs p key = T key)"
      using majority_meets [OF inv mem(1) Some majority [unfolded L] mem(2), folded L] peer conf_keyed [OF conf(1)] unfolding Some
      by (metis option.inject)
    with s(5) Some show ?thesis by blast
  qed
  then have "recs sv' = T" ..
  moreover have "member_ok conf T i sv'" using mem(3) s(2-4) same_nodeD [OF s(3)] by (simp add: member_ok_def)
  ultimately show ?thesis using that s(1,3) by blast
qed

text \<open>What a server does with a client request before it acts on it.\<close>

lemma as_leader_cases:
  assumes inv: "cluster_inv conf w T" and mem: "(i, a) \<in> set conf" "w_nodes w a = Some sv" and fit: "dumps_fit conf w"
    and L: "L = reached conf i (sv_blocked sv) U"
  obtains (redirect) leader where "as_leader exchange act (sv, seen w a U) = (Inr (ascii ''REDIRECT '' @ show_u64 leader), (sv, seen w a U))"
      and "leader \<in> fst ` set conf" and "leader < i"
  | (minority) "as_leader exchange act (sv, seen w a U) = (Inr (ascii ''RETRY no-quorum''), (sv, seen w a U))"
      and "2 * (length L + 1) \<le> length conf"
  | (leads) sv' where "as_leader exchange act (sv, seen w a U) = act L (sv', seen w a U)" and "member_ok conf T i sv'" and "same_node sv sv'"
      and "recs sv' = T" and "length conf < 2 * (length L + 1)" and "\<forall>j \<in> set L. i < j"
proof -
  obtain sv0 where "w_nodes w a = Some sv0" "member_ok conf T i sv0" using cluster_member [OF inv mem(1)] .
  with mem(2) have m: "member_ok conf T i sv" by simp
  have conf: "bm_inv conf" "odd (length conf)" using inv by (simp_all add: cluster_inv_def conf_ok_def)
  have quorum: "length L + 1 \<le> length (sv_peers sv) div 2 \<longleftrightarrow> 2 * (length L + 1) \<le> length conf"
    using component_size(2) [OF conf(1) mem(1)] m conf(2) unfolding member_ok_def by presburger
  let ?leader = "Min (set (L @ [i]))"
  have self: "i \<notin> set L" unfolding L reached_in [OF conf(1)] by blast
  have step: "as_leader exchange act (sv, seen w a U) = (if ?leader \<noteq> i then (Inr (ascii ''REDIRECT '' @ show_u64 ?leader), (sv, seen w a U))
      else if length L + 1 \<le> length (sv_peers sv) div 2 then (Inr (ascii ''RETRY no-quorum''), (sv, seen w a U))
      else and_then (catch_up exchange L) (\<lambda>_. act L) (sv, seen w a U))"
    using alive_seen [OF inv mem(1) m, of U, folded L] m
    by (simp add: as_leader_def and_then_def [of "alive_peers exchange"] Let_def member_ok_def)
  show ?thesis
  proof (cases "?leader = i")
    case False
    have "?leader \<in> set (L @ [i])" by (intro Min_in) auto
    moreover have "?leader < i" using Min_le [of "set (L @ [i])" i] False by (simp only: order_less_le) simp
    moreover have "?leader \<in> fst ` set conf" if "?leader \<in> set L"
      using that unfolding L reached_in [OF conf(1)] by (force simp: image_iff)
    ultimately show ?thesis using False step by (intro redirect [of ?leader]) (auto simp del: Min_insert)
  next
    case True
    then have low: "i < j" if "j \<in> set L" for j
      using Min_le [of "set (L @ [i])" j] that self by (auto simp: order_le_less)
    show ?thesis
    proof (cases "length conf < 2 * (length L + 1)")
      case False
      with True step quorum show ?thesis by (intro minority) auto
    next
      case majority: True
      obtain sv' where "catch_up exchange L (sv, seen w a U) = (Inr (), (sv', seen w a U))" "member_ok conf T i sv'" "same_node sv sv'" "recs sv' = T"
        using catch_up_majority [OF inv mem m fit L majority] .
      with step True quorum majority low show ?thesis by (intro leads [of sv']) (simp_all add: and_then_def)
    qed
  qed
qed

section \<open>Reads and writes of the cluster\<close>

definition read_reply :: "replica_value option \<Rightarrow> rstring" where
  "read_reply found = (case found of
     Some r \<Rightarrow> if rep_committed r \<and> \<not> rep_tombstone r then ascii ''VALUE '' @ cluster_hex (rep_value r) else ascii ''NIL''
   | None \<Rightarrow> ascii ''NIL'')"

text \<open>The world after the request: the server accepts connections again.\<close>

definition returned :: "world \<Rightarrow> socket_addr \<Rightarrow> server \<Rightarrow> world" where
  "returned w a sv = w\<lparr>w_nodes := (w_nodes w)(a \<mapsto> sv)\<rparr>"

lemma returned_seen: "returned (seen w a U) a sv = w\<lparr>w_up := U, w_nodes := (w_nodes w)(a \<mapsto> sv)\<rparr>"
  by (simp add: returned_def seen_def)

lemma filter_more: "(\<And>x. x \<in> set xs \<Longrightarrow> P x \<Longrightarrow> Q x) \<Longrightarrow> length (filter P xs) \<le> length (filter Q xs)"
proof (induction xs)
  case (Cons x xs)
  then have "length (filter P xs) \<le> length (filter Q xs)" by simp
  with Cons.prems [of x] show ?case by auto
qed simp

lemma cluster_inv_mono:
  assumes "cluster_inv conf w T" and "w_links w' = []"
    and "\<And>i a sv. (i, a) \<in> set conf \<Longrightarrow> w_nodes w a = Some sv \<Longrightarrow> member_ok conf T i sv \<Longrightarrow>
      \<exists>sv'. w_nodes w' a = Some sv' \<and> member_ok conf T i sv' \<and> (\<forall>key t. T key = Some t \<longrightarrow> recs sv key = Some t \<longrightarrow> recs sv' key = Some t)"
  shows "cluster_inv conf w' T"
  unfolding cluster_inv_def
proof (intro conjI ballI allI impI)
  fix key t assume t: "T key = Some t"
  then show "key \<noteq> []" using assms(1) by (simp add: cluster_inv_def)
  have "holds_record w' key t p" if p: "p \<in> set conf" and h: "holds_record w key t p" for p
  proof -
    obtain sv where sv: "w_nodes w (snd p) = Some sv" "recs sv key = Some t" using h by (auto simp: holds_record_def)
    have "member_ok conf T (fst p) sv" using cluster_member [OF assms(1), of "fst p" "snd p"] p sv(1) by force
    from assms(3) [OF _ sv(1) this] p t sv(2) show ?thesis by (auto simp: holds_record_def)
  qed
  then have "length (filter (holds_record w key t) conf) \<le> length (filter (holds_record w' key t) conf)" by (rule filter_more)
  with assms(1) t show "length conf < 2 * length (filter (holds_record w' key t) conf)" by (force simp: cluster_inv_def)
next
  fix p assume p: "p \<in> set conf"
  obtain i a where ia: "p = (i, a)" by (cases p)
  obtain sv where "w_nodes w a = Some sv" "member_ok conf T i sv" using cluster_member [OF assms(1) p [unfolded ia]] .
  with assms(3) p ia show "case p of (i, a) \<Rightarrow> \<exists>sv. w_nodes w' a = Some sv \<and> member_ok conf T i sv" by fastforce
qed (use assms(1,2) in \<open>simp_all add: cluster_inv_def\<close>)

lemma cluster_inv_returned:
  assumes "cluster_inv conf w T" and "(i, a) \<in> set conf" and "w_nodes w a = Some sv" and "member_ok conf T i sv'" and "sv' = sv \<or> recs sv' = T"
  shows "cluster_inv conf (returned (seen w a U) a sv') T"
proof (rule cluster_inv_mono [OF assms(1)])
  have conf: "distinct (map snd conf)" using assms(1) by (simp add: cluster_inv_def conf_ok_def)
  fix j b p assume p: "(j, b) \<in> set conf" "w_nodes w b = Some p" "member_ok conf T j p"
  show "\<exists>sv'a. w_nodes (returned (seen w a U) a sv') b = Some sv'a \<and> member_ok conf T j sv'a
      \<and> (\<forall>key t. T key = Some t \<longrightarrow> recs p key = Some t \<longrightarrow> recs sv'a key = Some t)"
  proof (cases "b = a")
    case True
    then have "j = i" using conf_addressed [OF conf] p(1) assms(2) by blast
    with True assms p show ?thesis by (auto simp: returned_seen)
  next
    case False
    with p show ?thesis by (simp add: returned_seen)
  qed
qed (use assms(1) in \<open>simp add: cluster_inv_def returned_seen\<close>)

end
