(* ===== verification/Server_Writes.thy ===== *)
theory Server_Writes
  imports Server_Cluster
begin

text \<open>
  Writes of a cluster: a leader that reaches a majority stages the new record on every node it reaches, commits it there and
  acknowledges it; everything else leaves the newest records as they are.
\<close>

section \<open>One peer\<close>

lemma staged_peer:
  assumes "member_ok conf T j p" and "rec_sized key r" and "key \<noteq> []" and "rep_value r \<noteq> []" and "\<not> rep_committed r"
    and newer: "\<And>t. T key = Some t \<Longrightarrow> rep_version t < rep_version r"
  shows "handle dead_wire (repl_request key r) (p, ()) = (Inr (ascii ''OK''), (after (repl_request key r) p, ()))"
    and "server_ok (after (repl_request key r) p)" and "recs (after (repl_request key r) p) = (recs p)(key \<mapsto> r)"
    and "same_node p (after (repl_request key r) p)"
proof -
  have p: "server_ok p" "bounded_by T (recs p)" using assms(1) by (simp_all add: member_ok_def)
  obtain p' where p': "\<And>net. handle dead_wire (repl_request key r) (p, net) = (Inr (ascii ''OK''), (p', net))" "server_ok p'"
    "recs p' = merged key (r\<lparr>rep_committed := False\<rparr>) (recs p)" "same_node p p'" using repl_ok [OF p(1) assms(2-4), of dead_wire] by metis
  have "replaces r (recs p key)"
    using p(2) newer by (cases "recs p key") (fastforce simp: replaces_def bounded_by_def)+
  moreover have "r\<lparr>rep_committed := False\<rparr> = r" using assms(5) by simp
  ultimately have "recs p' = (recs p)(key \<mapsto> r)" using p'(3) by (simp add: merged_def)
  moreover have "after (repl_request key r) p = p'" by (simp add: after_def p'(1))
  ultimately show "handle dead_wire (repl_request key r) (p, ()) = (Inr (ascii ''OK''), (after (repl_request key r) p, ()))"
    and "server_ok (after (repl_request key r) p)" and "recs (after (repl_request key r) p) = (recs p)(key \<mapsto> r)"
    and "same_node p (after (repl_request key r) p)" using p' by simp_all
qed

lemma committed_peer:
  assumes "server_ok p" and "recs p key = Some r" and "key \<noteq> []" and "utf8_valid key"
  shows "handle dead_wire (commit_request key (rep_version r)) (p, ()) = (Inr (ascii ''OK''), (after (commit_request key (rep_version r)) p, ()))"
    and "server_ok (after (commit_request key (rep_version r)) p)"
    and "recs (after (commit_request key (rep_version r)) p) = (recs p)(key \<mapsto> r\<lparr>rep_committed := True\<rparr>)"
    and "same_node p (after (commit_request key (rep_version r)) p)"
proof -
  obtain p' where p': "\<And>net. handle dead_wire (commit_request key (rep_version r)) (p, net) = (Inr (ascii ''OK''), (p', net))" "server_ok p'"
    "recs p' = (recs p)(key \<mapsto> r\<lparr>rep_committed := True\<rparr>)" "same_node p p'"
    using commit_ok [OF assms(1,4,3), of dead_wire "rep_version r"] assms(2) by (auto simp: after_def)
  moreover have "after (commit_request key (rep_version r)) p = p'" by (simp add: after_def p'(1))
  ultimately show "handle dead_wire (commit_request key (rep_version r)) (p, ()) = (Inr (ascii ''OK''), (after (commit_request key (rep_version r)) p, ()))"
    and "server_ok (after (commit_request key (rep_version r)) p)"
    and "recs (after (commit_request key (rep_version r)) p) = (recs p)(key \<mapsto> r\<lparr>rep_committed := True\<rparr>)"
    and "same_node p (after (commit_request key (rep_version r)) p)" by simp_all
qed

lemma commit_request_shorter: "rep_value r \<noteq> [] \<Longrightarrow> length (commit_request key (rep_version r)) \<le> length (repl_request key r)"
  by (cases "rep_value r") (simp_all add: commit_request_def repl_request_def bit_text_def ascii_def cluster_hex_eq)

section \<open>The new world\<close>

text \<open>The component of node \<open>i\<close> at \<open>a\<close> holds the new record.\<close>

definition written :: "rstring \<Rightarrow> replica_value \<Rightarrow> server \<Rightarrow> server \<Rightarrow> bool" where
  "written key r p p' \<longleftrightarrow> server_ok p' \<and> same_node p p' \<and> recs p' = (recs p)(key \<mapsto> r)"

lemma cluster_inv_written:
  assumes inv: "cluster_inv conf w T" and mem: "(i, a) \<in> set conf" and key: "key \<noteq> []" and r: "rep_committed r" "\<And>t. T key = Some t \<Longrightarrow> rep_version t < rep_version r"
    and L: "L = reached conf i B U" "length conf < 2 * (length L + 1)" and links: "w_links w' = []"
    and leader: "w_nodes w' a = Some sv'" "member_ok conf T i sv" "recs sv = T" "written key r sv sv'"
    and peers: "\<And>j b p. (j, b) \<in> set conf \<Longrightarrow> b \<noteq> a \<Longrightarrow> w_nodes w b = Some p \<Longrightarrow>
      \<exists>p'. w_nodes w' b = Some p' \<and> (if j \<in> set L then written key r p p' else p' = p)"
  shows "cluster_inv conf w' (T(key \<mapsto> r))"
proof -
  let ?T = "T(key \<mapsto> r)"
  have conf: "bm_inv conf" "distinct (map snd conf)" using inv by (simp_all add: cluster_inv_def conf_ok_def)
  have old: "member_ok conf ?T j p" if "member_ok conf T j p" for j p
    using that r(2) by (fastforce simp: member_ok_def bounded_by_def)
  have new: "member_ok conf ?T j p'" if "member_ok conf T j p" "written key r p p'" for j p p'
    using that r(1) same_nodeD [of p p'] by (auto simp: member_ok_def written_def bounded_by_def)
  have node: "\<exists>p'. w_nodes w' b = Some p' \<and> member_ok conf ?T j p' \<and> (in_component i B U (j, b) \<longrightarrow> recs p' key = Some r)
      \<and> (\<forall>k t. k \<noteq> key \<longrightarrow> holds_record w k t (j, b) \<longrightarrow> T k = Some t \<longrightarrow> recs p' k = Some t)" if jb: "(j, b) \<in> set conf" for j b
  proof (cases "b = a")
    case True
    then have "j = i" using conf_addressed [OF conf(2)] jb mem by blast
    with True leader new show ?thesis by (auto simp: written_def)
  next
    case False
    then have "j \<noteq> i" using conf_keyed [OF conf(1)] jb mem by blast
    obtain p where p: "w_nodes w b = Some p" "member_ok conf T j p" using cluster_member [OF inv jb] .
    from peers [OF jb False p(1)] obtain p' where p': "w_nodes w' b = Some p'" "if j \<in> set L then written key r p p' else p' = p" by blast
    have "j \<in> set L" if "in_component i B U (j, b)"
      unfolding L(1) reached_in [OF conf(1)] using that jb \<open>j \<noteq> i\<close> peers_of_in(1) [OF conf(1), of j b i] peers_of_in(2) [of j b conf i] by (auto simp: in_component_def)
    with p p' old new show ?thesis by (auto simp: written_def holds_record_def split: if_splits)
  qed
  show ?thesis
    unfolding cluster_inv_def
  proof (intro conjI ballI allI impI)
    fix k t assume t: "?T k = Some t"
    show "k \<noteq> []" using t key inv by (auto simp: cluster_inv_def split: if_splits)
    show "length conf < 2 * length (filter (holds_record w' k t) conf)"
    proof (cases "k = key")
      case True
      have "length (filter (in_component i B U) conf) \<le> length (filter (holds_record w' k t) conf)"
        using node t True by (intro filter_more) (fastforce simp: holds_record_def)
      with component_size(1) [OF conf(1) mem, of B U] L show ?thesis by simp
    next
      case False
      have "length (filter (holds_record w k t) conf) \<le> length (filter (holds_record w' k t) conf)"
        using node t False by (intro filter_more) (fastforce simp: holds_record_def)
      with inv t False show ?thesis by (force simp: cluster_inv_def)
    qed
  next
    fix p assume "p \<in> set conf"
    with node show "case p of (j, b) \<Rightarrow> \<exists>sv. w_nodes w' b = Some sv \<and> member_ok conf ?T j sv" by fast
  qed (use inv links in \<open>simp_all add: cluster_inv_def\<close>)
qed

section \<open>The records come from writes\<close>

text \<open>Every record a node holds was written by one of the writes \<open>ws\<close>.\<close>

definition from_writes :: "(u64, socket_addr) bmap \<Rightarrow> (rstring \<times> rstring) list \<Rightarrow> world \<Rightarrow> bool" where
  "from_writes conf ws w \<longleftrightarrow> (\<forall>(i, a) \<in> set conf. \<forall>sv key r. w_nodes w a = Some sv \<longrightarrow> recs sv key = Some r \<longrightarrow> (key, rep_value r) \<in> set ws)"

lemma from_writesD: "from_writes conf ws w \<Longrightarrow> (i, a) \<in> set conf \<Longrightarrow> w_nodes w a = Some sv \<Longrightarrow> recs sv key = Some r \<Longrightarrow> (key, rep_value r) \<in> set ws"
  by (auto simp: from_writes_def)

lemma from_writesI:
  "(\<And>i a sv key r. (i, a) \<in> set conf \<Longrightarrow> w_nodes w a = Some sv \<Longrightarrow> recs sv key = Some r \<Longrightarrow> (key, rep_value r) \<in> set ws) \<Longrightarrow> from_writes conf ws w"
  by (auto simp: from_writes_def)

lemma newest_holder:
  assumes "cluster_inv conf w T" and "T key = Some t"
  obtains i a sv where "(i, a) \<in> set conf" and "w_nodes w a = Some sv" and "recs sv key = Some t"
proof -
  have "length conf < 2 * length (filter (holds_record w key t) conf)" using assms by (simp add: cluster_inv_def)
  then have "filter (holds_record w key t) conf \<noteq> []" by auto
  then obtain p where "p \<in> set conf" "holds_record w key t p" by (metis filter_False)
  with that show ?thesis by (cases p) (auto simp: holds_record_def)
qed

lemma newest_from_writes: "cluster_inv conf w T \<Longrightarrow> from_writes conf ws w \<Longrightarrow> T key = Some t \<Longrightarrow> (key, rep_value t) \<in> set ws"
  using newest_holder from_writesD by metis

lemma from_writes_Cons: "from_writes conf ws w \<Longrightarrow> from_writes conf (x # ws) w"
  by (auto simp: from_writes_def)

lemma from_writes_returned:
  assumes "cluster_inv conf w T" and "from_writes conf ws w" and "(i, a) \<in> set conf" and "w_nodes w a = Some sv" and "sv' = sv \<or> recs sv' = T"
  shows "from_writes conf ws (returned (seen w a U) a sv')"
proof (rule from_writesI)
  fix j b p key r assume "(j, b) \<in> set conf" "w_nodes (returned (seen w a U) a sv') b = Some p" "recs p key = Some r"
  with assms from_writesD [OF assms(2)] newest_from_writes [OF assms(1,2)] show "(key, rep_value r) \<in> set ws"
    by (auto simp: returned_seen split: if_splits)
qed

lemma from_writes_written:
  assumes inv: "cluster_inv conf w T" and old: "from_writes conf ws w"
    and leader: "w_nodes w' a = Some sv'" "recs sv = T" "written key r sv sv'"
    and peers: "\<And>j b p. (j, b) \<in> set conf \<Longrightarrow> b \<noteq> a \<Longrightarrow> w_nodes w b = Some p \<Longrightarrow>
      \<exists>p'. w_nodes w' b = Some p' \<and> (if j \<in> set L then written key r p p' else p' = p)"
  shows "from_writes conf ((key, rep_value r) # ws) w'"
proof (rule from_writesI)
  fix j b q k x assume q: "(j, b) \<in> set conf" "w_nodes w' b = Some q" "recs q k = Some x"
  show "(k, rep_value x) \<in> set ((key, rep_value r) # ws)"
  proof (cases "b = a")
    case True
    with q leader newest_from_writes [OF inv old] show ?thesis by (auto simp: written_def split: if_splits)
  next
    case False
    obtain p where p: "w_nodes w b = Some p" using cluster_member [OF inv q(1)] by metis
    from peers [OF q(1) False p] q(2,3) from_writesD [OF old q(1) p] show ?thesis by (auto simp: written_def split: if_splits)
  qed
qed

section \<open>Writes\<close>

definition newest_version :: "(rstring \<rightharpoonup> replica_value) \<Rightarrow> rstring \<Rightarrow> u64" where
  "newest_version T key = (case T key of Some t \<Rightarrow> rep_version t | None \<Rightarrow> 0)"

definition staged_value :: "u64 \<Rightarrow> bool \<Rightarrow> rstring \<Rightarrow> replica_value" where
  "staged_value version tombstone v = \<lparr>rep_version = version, rep_tombstone = tombstone, rep_committed = False, rep_value = v\<rparr>"

definition write_act :: "rstring \<Rightarrow> rstring \<Rightarrow> bool \<Rightarrow> u64 list \<Rightarrow> (world, rstring) serving" where
  "write_act key v tombstone alive =
    and_then (\<lambda>(sv, net). (next_version key sv, (sv, net))) (\<lambda>version.
    let r = staged_value version tombstone v in
    and_then (ask_all exchange (repl_request key r) alive) (\<lambda>staged (sv, net).
    if (length staged + 1) * 2 \<le> length (sv_peers sv) + 1 then (Inr (ascii ''RETRY indeterminate''), (sv, net))
    else
      and_then (on_server (merge key (r\<lparr>rep_committed := True\<rparr>))) (\<lambda>_.
      and_then (ask_all exchange (commit_request key version) staged) (\<lambda>acknowledged (sv, net).
      if (length acknowledged + 1) * 2 > length (sv_peers sv) + 1 then (Inr (ascii ''OK '' @ show_u64 version), (sv, net))
      else (Inr (ascii ''RETRY indeterminate''), (sv, net)))) (sv, net)))"

lemma client_write_act: "client_write exchange key v tombstone = as_leader exchange (write_act key v tombstone)"
  by (simp add: client_write_def write_act_def [abs_def] staged_value_def)

lemma next_version_eq:
  "server_ok sv \<Longrightarrow> recs sv = T \<Longrightarrow> next_version key sv = (case checked_add_u64 (newest_version T key) 1 of
     Some version \<Rightarrow> Inr version | None \<Rightarrow> fail_with (invalid_data ''cluster: version exhausted''))"
  by (simp add: next_version_def read_record_ok newest_version_def)

text \<open>Every peer stages the record and commits it.\<close>

lemma write_act_ok:
  assumes sv: "server_ok sv" "recs sv = T" "distinct (map snd (sv_peers sv))" and w: "w_links w = []"
    and version: "checked_add_u64 (newest_version T key) 1 = Some version" and r: "r = staged_value version tombstone v"
    and L: "distinct L" "length (sv_peers sv) + 1 < 2 * (length L + 1)"
    and peers: "\<And>j. j \<in> set L \<Longrightarrow> \<exists>b p. peer_at sv w j b p \<and> member_ok conf T j p"
    and request: "L \<noteq> [] \<Longrightarrow> v \<noteq> [] \<and> length (repl_request key r) \<le> MAX_FRAME" and key: "key \<noteq> []" "rec_sized key r"
  obtains sv' where "write_act key v tombstone L (sv, w) = (Inr (ascii ''OK '' @ show_u64 version),
      (sv', change_nodes (after (commit_request key version) \<circ> after (repl_request key r)) (peer_addrs sv L) w))"
    and "written key (r\<lparr>rep_committed := True\<rparr>) sv sv'"
proof -
  have newer: "rep_version t < rep_version r" if "T key = Some t" for t
    using checked_succ_u64 [OF version] that by (simp add: newest_version_def r staged_value_def)
  have rv: "rep_version r = version" "\<not> rep_committed r" "rep_value r = v" "utf8_valid key" using key(2) by (simp_all add: r staged_value_def rec_sized_def)
  have stage: "length (repl_request key r) \<le> MAX_FRAME \<and> (\<exists>b p p'. peer_at sv w j b p
      \<and> handle dead_wire (repl_request key r) (p, ()) = (Inr (ascii ''OK''), (p', ())))" if "j \<in> set L" for j
    using peers [OF that] request staged_peer(1) [OF _ key(2,1) _ rv(2) newer] that rv(3) by (metis empty_iff empty_set)
  note staged = ask_all_ok [OF w L(1) sv(3) stage]
  let ?w = "change_nodes (after (repl_request key r)) (peer_addrs sv L) w"
  have rc: "rec_sized key (r\<lparr>rep_committed := True\<rparr>)" using key(2) by (simp add: rec_sized_def rep_ok_def)
  obtain sv' where sv': "merge key (r\<lparr>rep_committed := True\<rparr>) sv = (Inr (), sv')" "server_ok sv'"
    "recs sv' = merged key (r\<lparr>rep_committed := True\<rparr>) (recs sv)" "same_node sv sv'" using merge_ok [OF sv(1) rc] .
  have "replaces (r\<lparr>rep_committed := True\<rparr>) (recs sv key)" using newer sv(2) by (auto simp: replaces_def split: option.split)
  then have wr: "written key (r\<lparr>rep_committed := True\<rparr>) sv sv'" using sv' by (simp add: written_def merged_def)
  have commit: "length (commit_request key version) \<le> MAX_FRAME \<and> (\<exists>b p p'. peer_at sv' ?w j b p
      \<and> handle dead_wire (commit_request key version) (p, ()) = (Inr (ascii ''OK''), (p', ())))" if j: "j \<in> set L" for j
  proof -
    obtain b p where p: "peer_at sv w j b p" "member_ok conf T j p" using peers [OF j] by blast
    from j have "L \<noteq> []" by auto
    then have v: "v \<noteq> []" "length (repl_request key r) \<le> MAX_FRAME" using request by blast+
    note st = staged_peer [OF p(2) key(2,1) _ rv(2) newer] and cm = committed_peer [OF _ _ key(1) rv(4), of "after (repl_request key r) p" r]
    have "peer_at sv' ?w j b (after (repl_request key r) p)"
      using p(1) j unfolding peer_at_same [OF sv'(4)] by (auto simp: peer_at_def peer_addrs_def)
    moreover have "length (commit_request key version) \<le> MAX_FRAME" using commit_request_shorter [of r key] v rv by simp
    ultimately show ?thesis using st(2,3) cm(1) v(1) rv(1,3) by auto
  qed
  have d: "distinct (map snd (sv_peers sv'))" "peer_addrs sv' L = peer_addrs sv L" "length (sv_peers sv') = length (sv_peers sv)"
    using sv(3) same_nodeD [OF sv'(4)] by (simp_all add: peer_addrs_def)
  have acks: "ask_all exchange (commit_request key version) L (sv', ?w) = (Inr L, (sv', change_nodes (after (commit_request key version)) (peer_addrs sv L) ?w))"
    using ask_all_ok [OF _ L(1) d(1) commit] w d(2) by simp
  have "change_nodes (after (commit_request key version)) (peer_addrs sv L) ?w
      = change_nodes (after (commit_request key version) \<circ> after (repl_request key r)) (peer_addrs sv L) w"
    by (auto simp: change_nodes_def fun_eq_iff option.map_comp)
  moreover have "write_act key v tombstone L (sv, w) = (Inr (ascii ''OK '' @ show_u64 version),
      (sv', change_nodes (after (commit_request key version)) (peer_addrs sv L) ?w))"
    using staged acks sv'(1) L(2) d(3) by (simp add: write_act_def and_then_def next_version_eq [OF sv(1,2)] version on_server_def flip: r)
  ultimately show ?thesis using that wr by simp
qed

text \<open>A deletion, or a record that does not fit into a request, is staged nowhere.\<close>

lemma write_act_refused:
  assumes sv: "server_ok sv" "recs sv = T" and w: "w_links w = []" and version: "checked_add_u64 (newest_version T key) 1 = Some version"
    and L: "L \<noteq> []" "length L \<le> length (sv_peers sv)" and peers: "\<And>j. j \<in> set L \<Longrightarrow> \<exists>b p. peer_at sv w j b p"
    and request: "v = [] \<or> \<not> length (repl_request key (staged_value version tombstone v)) \<le> MAX_FRAME"
  shows "write_act key v tombstone L (sv, w) = (Inr (ascii ''RETRY indeterminate''), (sv, w))"
proof -
  let ?r = "staged_value version tombstone v"
  have "ask_all exchange (repl_request key ?r) L (sv, w) = (Inr [], (sv, w))"
  proof (rule ask_all_refused [OF w])
    fix j assume "j \<in> set L"
    moreover have "length (repl_request key ?r) \<le> MAX_FRAME \<longrightarrow> handle dead_wire (repl_request key ?r) (p, ())
        = (Inl (Failed (invalid_data ''cluster: unknown request'')), (p, ()))" for p
      using request handle_empty_repl [of ?r dead_wire key "(p, ())"] by (auto simp: staged_value_def fail_with_def)
    ultimately show "\<exists>a p e. peer_at sv w j a p \<and> (length (repl_request key ?r) \<le> MAX_FRAME \<longrightarrow>
        handle dead_wire (repl_request key ?r) (p, ()) = (Inl (Failed e), (p, ())))" using peers by blast
  qed
  moreover have "2 \<le> length (sv_peers sv) + 1" using L by (cases L) auto
  ultimately show ?thesis using version by (simp add: write_act_def and_then_def next_version_eq [OF sv] Let_def)
qed

lemma distinct_peers: "distinct (map f xs) \<Longrightarrow> distinct (map f (filter P xs))"
  by (induction xs) auto

definition acknowledged :: "rstring may_fail \<Rightarrow> bool" where
  "acknowledged r \<longleftrightarrow> (\<exists>version. r = Inr (ascii ''OK '' @ show_u64 version))"

lemma not_acknowledged [simp]: "\<not> acknowledged (Inl e)" "\<not> acknowledged (Inr (ascii ''RETRY no-quorum''))" "\<not> acknowledged (Inr (ascii ''RETRY indeterminate''))"
  "\<not> acknowledged (Inr (ascii ''REDIRECT '' @ s))" "acknowledged (Inr (ascii ''OK '' @ show_u64 version))"
  by (auto simp: acknowledged_def ascii_def)

text \<open>The replies of a server to a write.\<close>

definition write_reply :: "(u64, socket_addr) bmap \<Rightarrow> rstring may_fail \<Rightarrow> bool" where
  "write_reply conf r \<longleftrightarrow> acknowledged r \<or> r = Inr (ascii ''RETRY no-quorum'') \<or> r = Inr (ascii ''RETRY indeterminate'')
     \<or> (\<exists>leader \<in> fst ` set conf. r = Inr (ascii ''REDIRECT '' @ show_u64 leader)) \<or> (\<exists>e. r = fail_with e)"

definition write_result :: "(u64, socket_addr) bmap \<Rightarrow> (rstring \<rightharpoonup> replica_value) \<Rightarrow> (rstring \<times> rstring) list \<Rightarrow> rstring \<Rightarrow> rstring \<Rightarrow> bool \<Rightarrow> rstring may_fail \<Rightarrow> world \<Rightarrow> bool" where
  "write_result conf T ws key v tombstone r w \<longleftrightarrow> write_reply conf r \<and> from_writes conf ((key, v) # ws) w \<and>
    (if acknowledged r then \<exists>version. cluster_inv conf w (T(key \<mapsto> (staged_value version tombstone v)\<lparr>rep_committed := True\<rparr>))
     else cluster_inv conf w T)"

lemma peer_addrs_iff:
  assumes "conf_ok conf" and "sv_peers sv = peers_of conf i" and "(j, b) \<in> set conf"
  shows "b \<in> peer_addrs sv (reached conf i B U) \<longleftrightarrow> j \<in> set (reached conf i B U)"
proof
  have conf: "bm_inv conf" "distinct (map snd conf)" using assms(1) by (simp_all add: conf_ok_def)
  {
    assume "b \<in> peer_addrs sv (reached conf i B U)"
    then obtain j' where j': "j' \<in> set (reached conf i B U)" "bm_get (peers_of conf i) j' = Some b" by (auto simp: peer_addrs_def assms(2))
    then have "(j', b) \<in> set conf" using peers_of_in(1) [OF conf(1), of j' b i] peers_of_in(2) [of j' b conf i] by simp
    with j'(1) conf_addressed [OF conf(2) assms(3)] show "j \<in> set (reached conf i B U)" by blast
  next
    assume j: "j \<in> set (reached conf i B U)"
    then obtain b' where "bm_get (peers_of conf i) j = Some b'" "(j, b') \<in> set conf" unfolding reached_in [OF conf(1)] by blast
    with j conf_keyed [OF conf(1) assms(3)] show "b \<in> peer_addrs sv (reached conf i B U)" by (auto simp: peer_addrs_def assms(2))
  }
qed

lemma peer_written:
  assumes "member_ok conf T j p" and "rec_sized key r" and "key \<noteq> []" and "rep_value r \<noteq> []" and "\<not> rep_committed r"
    and "\<And>t. T key = Some t \<Longrightarrow> rep_version t < rep_version r"
  shows "written key (r\<lparr>rep_committed := True\<rparr>) p (after (commit_request key (rep_version r)) (after (repl_request key r) p))"
proof -
  note st = staged_peer [OF assms]
  have "recs (after (repl_request key r) p) key = Some r" "utf8_valid key" using st(3) assms(2) by (simp_all add: rec_sized_def)
  note cm = committed_peer [OF st(2) this(1) assms(3) this(2)]
  show ?thesis using cm(2,3) st(3) same_node_trans [OF st(4) cm(4)] by (simp add: written_def)
qed

lemma write_act_acknowledges:
  assumes inv: "cluster_inv conf w T" and mem: "(i, a) \<in> set conf" and sv: "member_ok conf T i sv" "recs sv = T"
    and L: "L = reached conf i B U" "length conf < 2 * (length L + 1)" and version: "checked_add_u64 (newest_version T key) 1 = Some version"
    and key: "key \<noteq> []" "utf8_valid key" "utf8_valid v" "length key + length v \<le> MAX_FRAME" and r: "r = staged_value version tombstone v"
    and small: "L \<noteq> [] \<Longrightarrow> v \<noteq> [] \<and> length (repl_request key r) \<le> MAX_FRAME"
  obtains sv1 where "write_act key v tombstone L (sv, seen w a U) = (Inr (ascii ''OK '' @ show_u64 version),
      (sv1, change_nodes (after (commit_request key version) \<circ> after (repl_request key r)) (peer_addrs sv L) (seen w a U)))"
    and "written key (r\<lparr>rep_committed := True\<rparr>) sv sv1"
proof -
  have conf: "bm_inv conf" "distinct (map snd conf)" "w_links w = []" using inv by (simp_all add: cluster_inv_def conf_ok_def)
  have ok: "server_ok sv" "sv_peers sv = peers_of conf i" using sv(1) by (simp_all add: member_ok_def)
  have peers: "\<exists>b p. peer_at sv (seen w a U) j b p \<and> member_ok conf T j p" if "j \<in> set L" for j
    using seen_peer [OF inv mem sv(1) that [unfolded L(1)]] by metis
  have links: "w_links (seen w a U) = []" using conf(3) by (simp add: seen_def)
  have d: "distinct (map snd (sv_peers sv))" "distinct L"
    using conf(2) conf_distinct [OF conf(1)] by (simp_all add: ok(2) peers_of_def L(1) reached_def distinct_peers)
  have N: "length (sv_peers sv) + 1 = length conf" using component_size(2) [OF conf(1) mem] ok(2) by simp
  have sized: "rec_sized key r" using key by (simp add: rec_sized_def rep_ok_def staged_value_def r)
  have "length (sv_peers sv) + 1 < 2 * (length L + 1)" using L(2) N by simp
  then show ?thesis using write_act_ok [OF ok(1) sv(2) d(1) links version r d(2) _ peers small key(1) sized] that by blast
qed

lemma write_act_result:
  assumes inv: "cluster_inv conf w T" and from_ws: "from_writes conf ws w" and mem: "(i, a) \<in> set conf" "w_nodes w a = Some sv0"
    and sv: "member_ok conf T i sv" "recs sv = T" and L: "L = reached conf i B U" "length conf < 2 * (length L + 1)"
    and key: "key \<noteq> []" "utf8_valid key" "utf8_valid v" "length key + length v \<le> MAX_FRAME"
    and r: "write_act key v tombstone L (sv, seen w a U) = (r, (sv', w'))"
  shows "write_result conf T ws key v tombstone r (returned w' a sv')"
proof (cases "checked_add_u64 (newest_version T key) 1")
  case None
  then have "r = fail_with (invalid_data ''cluster: version exhausted'')" "sv' = sv" "w' = seen w a U"
    using r sv by (auto simp: write_act_def and_then_def next_version_eq member_ok_def fail_with_def)
  with cluster_inv_returned [OF inv mem sv(1)] from_writes_returned [OF inv from_ws mem] sv(2) show ?thesis by (simp add: write_result_def write_reply_def fail_with_def from_writes_Cons)
next
  case (Some version)
  let ?r = "staged_value version tombstone v"
  have conf: "bm_inv conf" "distinct (map snd conf)" "w_links w = []" using inv by (simp_all add: cluster_inv_def conf_ok_def)
  have ok: "server_ok sv" "sv_peers sv = peers_of conf i" using sv(1) by (simp_all add: member_ok_def)
  have peers: "\<exists>b p. peer_at sv (seen w a U) j b p \<and> member_ok conf T j p" if "j \<in> set L" for j
    using seen_peer [OF inv mem(1) sv(1) that [unfolded L(1)]] by metis
  have links: "w_links (seen w a U) = []" using conf(3) by (simp add: seen_def)
  show ?thesis
  proof (cases "L \<noteq> [] \<and> (v = [] \<or> \<not> length (repl_request key ?r) \<le> MAX_FRAME)")
    case True
    have "length L \<le> length (sv_peers sv)" unfolding L(1) ok(2) reached_def by simp
    moreover have "\<exists>b p. peer_at sv (seen w a U) j b p" if "j \<in> set L" for j using peers [OF that] by blast
    ultimately have "write_act key v tombstone L (sv, seen w a U) = (Inr (ascii ''RETRY indeterminate''), (sv, seen w a U))"
      using write_act_refused [OF ok(1) sv(2) links Some] True by blast
    with r have "r = Inr (ascii ''RETRY indeterminate'')" "sv' = sv" "w' = seen w a U" by auto
    with cluster_inv_returned [OF inv mem sv(1)] from_writes_returned [OF inv from_ws mem] sv(2) show ?thesis by (simp add: write_result_def write_reply_def from_writes_Cons)
  next
    case False
    have sized: "rec_sized key ?r" using key by (simp add: rec_sized_def rep_ok_def staged_value_def)
    let ?g = "after (commit_request key version) \<circ> after (repl_request key ?r)"
    have small: "v \<noteq> [] \<and> length (repl_request key ?r) \<le> MAX_FRAME" if "L \<noteq> []" using that False by blast
    obtain sv1 where "write_act key v tombstone L (sv, seen w a U) = (Inr (ascii ''OK '' @ show_u64 version),
        (sv1, change_nodes ?g (peer_addrs sv L) (seen w a U)))" "written key (?r\<lparr>rep_committed := True\<rparr>) sv sv1"
      by (rule write_act_acknowledges [OF inv mem(1) sv L Some key refl small])
    with r have res: "r = Inr (ascii ''OK '' @ show_u64 version)" "w' = change_nodes ?g (peer_addrs sv L) (seen w a U)"
      "written key (?r\<lparr>rep_committed := True\<rparr>) sv sv'" by auto
    have newer: "rep_version t < rep_version (?r\<lparr>rep_committed := True\<rparr>)" if "T key = Some t" for t
      using checked_succ_u64 [OF Some] that by (simp add: newest_version_def staged_value_def)
    have peers': "\<exists>p'. w_nodes (returned w' a sv') b = Some p' \<and> (if j \<in> set L then written key (?r\<lparr>rep_committed := True\<rparr>) p p' else p' = p)"
      if p: "(j, b) \<in> set conf" "b \<noteq> a" "w_nodes w b = Some p" for j b p
    proof -
      have iff: "b \<in> peer_addrs sv L \<longleftrightarrow> j \<in> set L"
        unfolding L(1) using peer_addrs_iff [OF _ ok(2) p(1)] inv by (simp add: cluster_inv_def)
      have "member_ok conf T j p" using cluster_member [OF inv p(1)] p(3) by force
      from peer_written [OF this sized key(1)] newer small have "written key (?r\<lparr>rep_committed := True\<rparr>) p (?g p)" if "j \<in> set L"
        using that by (force simp: staged_value_def)
      with iff p(2,3) show ?thesis
        by (simp add: returned_def res(2)) (simp add: seen_def)
    qed
    have leader: "w_nodes (returned w' a sv') a = Some sv'" by (simp add: returned_def)
    have "cluster_inv conf (returned w' a sv') (T(key \<mapsto> ?r\<lparr>rep_committed := True\<rparr>))"
      by (rule cluster_inv_written [OF inv mem(1) key(1) _ newer L _ leader sv res(3) peers'])
        (use links in \<open>simp_all add: res(2) returned_def staged_value_def\<close>)
    moreover have "from_writes conf ((key, rep_value (?r\<lparr>rep_committed := True\<rparr>)) # ws) (returned w' a sv')"
      by (rule from_writes_written [OF inv from_ws leader sv(2) res(3) peers'])
    moreover have "rep_value (?r\<lparr>rep_committed := True\<rparr>) = v" by (simp add: staged_value_def)
    ultimately show ?thesis by (auto simp: write_result_def write_reply_def res(1))
  qed
qed

section \<open>Reads and writes through the leader\<close>

lemma cluster_read:
  assumes inv: "cluster_inv conf w T" and from_ws: "from_writes conf ws w" and mem: "(i, a) \<in> set conf" "w_nodes w a = Some sv" and fit: "dumps_fit conf w"
    and r: "client_read exchange key (sv, seen w a U) = (r, (sv', w'))"
  shows "cluster_inv conf (returned w' a sv') T" and "from_writes conf ws (returned w' a sv')" and "r = Inr (read_reply (T key)) \<or> (\<exists>leader \<in> fst ` set conf. r = Inr (ascii ''REDIRECT '' @ show_u64 leader))
    \<or> r = Inr (ascii ''RETRY no-quorum'')"
proof -
  obtain sv0 where "w_nodes w a = Some sv0" "member_ok conf T i sv0" using cluster_member [OF inv mem(1)] .
  with mem(2) have m: "member_ok conf T i sv" by simp
  note kept = from_writes_returned [OF inv from_ws mem]
  let ?act = "\<lambda>alive (sv, net). (rbind (read_record sv key) (\<lambda>found. case found of
       Some r \<Rightarrow> if rep_committed r \<and> \<not> rep_tombstone r then Inr (ascii ''VALUE '' @ cluster_hex (rep_value r)) else Inr (ascii ''NIL'')
     | None \<Rightarrow> Inr (ascii ''NIL'')), (sv, net))"
  have q: "as_leader exchange ?act (sv, seen w a U) = (r, (sv', w'))" using r by (simp add: client_read_def)
  have "cluster_inv conf (returned w' a sv') T \<and> from_writes conf ws (returned w' a sv') \<and> (r = Inr (read_reply (T key)) \<or> (\<exists>leader \<in> fst ` set conf. r = Inr (ascii ''REDIRECT '' @ show_u64 leader))
    \<or> r = Inr (ascii ''RETRY no-quorum''))"
  proof (rule as_leader_cases [OF inv mem fit refl, of ?act U])
    fix sv1 assume s: "as_leader exchange ?act (sv, seen w a U) = ?act (reached conf i (sv_blocked sv) U) (sv1, seen w a U)"
      "member_ok conf T i sv1" "recs sv1 = T"
    then have "read_record sv1 key = Inr (T key)" using read_record_ok by (simp add: member_ok_def)
    with s(1) q have "r = Inr (read_reply (T key))" "sv' = sv1" "w' = seen w a U"
      by (auto simp: read_reply_def split: option.splits if_splits)
    with cluster_inv_returned [OF inv mem s(2)] kept s(3) show ?thesis by blast
  qed (use q cluster_inv_returned [OF inv mem m] kept in auto)
  then show "cluster_inv conf (returned w' a sv') T" and "from_writes conf ws (returned w' a sv')" and "r = Inr (read_reply (T key)) \<or> (\<exists>leader \<in> fst ` set conf. r = Inr (ascii ''REDIRECT '' @ show_u64 leader))
    \<or> r = Inr (ascii ''RETRY no-quorum'')" by blast+
qed

lemma cluster_write:
  assumes inv: "cluster_inv conf w T" and from_ws: "from_writes conf ws w" and mem: "(i, a) \<in> set conf" "w_nodes w a = Some sv" and fit: "dumps_fit conf w"
    and key: "key \<noteq> []" "utf8_valid key" "utf8_valid v" "length key + length v \<le> MAX_FRAME"
    and r: "client_write exchange key v tombstone (sv, seen w a U) = (r, (sv', w'))"
  shows "write_result conf T ws key v tombstone r (returned w' a sv')"
proof -
  obtain sv0 where "w_nodes w a = Some sv0" "member_ok conf T i sv0" using cluster_member [OF inv mem(1)] .
  with mem(2) have m: "member_ok conf T i sv" by simp
  have q: "as_leader exchange (write_act key v tombstone) (sv, seen w a U) = (r, (sv', w'))" using r by (simp add: client_write_act)
  note kept = cluster_inv_returned [OF inv mem m] from_writes_returned [OF inv from_ws mem]
  show ?thesis
  proof (rule as_leader_cases [OF inv mem fit refl, of "write_act key v tombstone" U])
    fix sv1 assume s: "as_leader exchange (write_act key v tombstone) (sv, seen w a U) = write_act key v tombstone (reached conf i (sv_blocked sv) U) (sv1, seen w a U)"
      "member_ok conf T i sv1" "recs sv1 = T" "length conf < 2 * (length (reached conf i (sv_blocked sv) U) + 1)"
    show ?thesis using write_act_result [OF inv from_ws mem s(2,3) refl s(4) key] s(1) q by simp
  qed (use q kept in \<open>auto simp: write_result_def write_reply_def from_writes_Cons\<close>)
qed

text \<open>A deletion in a cluster of several nodes is never acknowledged: no peer understands a request with an empty value.\<close>

lemma empty_write_refused:
  assumes inv: "cluster_inv conf w T" and mem: "(i, a) \<in> set conf" "w_nodes w a = Some sv" and fit: "dumps_fit conf w" and several: "1 < length conf"
    and r: "client_write exchange key [] tombstone (sv, seen w a U) = (r, (sv', w'))"
  shows "\<not> acknowledged r"
proof -
  have q: "as_leader exchange (write_act key [] tombstone) (sv, seen w a U) = (r, (sv', w'))" using r by (simp add: client_write_act)
  show ?thesis
  proof (rule as_leader_cases [OF inv mem fit refl, of "write_act key [] tombstone" U])
    let ?L = "reached conf i (sv_blocked sv) U"
    fix sv1 assume s: "as_leader exchange (write_act key [] tombstone) (sv, seen w a U) = write_act key [] tombstone ?L (sv1, seen w a U)"
      "member_ok conf T i sv1" "recs sv1 = T" "length conf < 2 * (length ?L + 1)"
    have L: "?L \<noteq> []" "length ?L \<le> length (sv_peers sv1)" using s(2,4) several by (auto simp: member_ok_def reached_def)
    have peers: "\<exists>b p. peer_at sv1 (seen w a U) j b p" if "j \<in> set ?L" for j using seen_peer [OF inv mem(1) s(2) that] by metis
    have ok: "server_ok sv1" "w_links (seen w a U) = []" using s(2) inv by (simp_all add: member_ok_def seen_def cluster_inv_def)
    have "write_act key [] tombstone ?L (sv1, seen w a U) = (Inr (ascii ''RETRY indeterminate''), (sv1, seen w a U))"
      if "checked_add_u64 (newest_version T key) 1 = Some version" for version
      using write_act_refused [OF ok(1) s(3) ok(2) that L peers] by blast
    moreover have "\<exists>st. write_act key [] tombstone ?L (sv1, seen w a U) = (fail_with (invalid_data ''cluster: version exhausted''), st)"
      if "checked_add_u64 (newest_version T key) 1 = None"
      using that ok(1) s(3) by (simp add: write_act_def and_then_def next_version_eq fail_with_def)
    ultimately show ?thesis using q s(1)
      by (cases "checked_add_u64 (newest_version T key) 1") (auto simp: fail_with_def)
  qed (use q in auto)
qed

end
