(* ===== verification/Client.thy ===== *)
theory Client
  imports Server_Protocol
begin

text \<open>
  The cluster client of \<open>src/src/client.rs\<close>: requests to the nodes in turn, with leader redirects and a bounded number of attempts.
  The pauses between the attempts (5 ms, doubled up to 100 ms) have no effect on the model.
\<close>

section \<open>Text encoding\<close>

definition client_hex :: "bytes \<Rightarrow> rstring" where
  "client_hex bs = concat (map (\<lambda>b. [hex_digit_byte (drop_bit 4 b), hex_digit_byte (b AND 15)]) bs)"

definition client_digit :: "u8 \<Rightarrow> u8 may_fail" where
  "client_digit b = (if 0x30 \<le> b \<and> b \<le> 0x39 then Inr (b - 0x30)
     else if 0x61 \<le> b \<and> b \<le> 0x66 then Inr (b - 0x61 + 10)
     else fail_with (invalid_input ''cluster: invalid hex''))"

fun client_pairs :: "bytes \<Rightarrow> bytes may_fail" where
  "client_pairs (a # b # rest) =
    rbind (client_digit a) (\<lambda>high. rbind (client_digit b) (\<lambda>low.
    rbind (client_pairs rest) (\<lambda>out. Inr ((push_bit 4 high OR low) # out))))"
| "client_pairs _ = Inr []"

definition client_unhex_string :: "rstring \<Rightarrow> rstring may_fail" where
  "client_unhex_string v =
    (if length v mod 2 \<noteq> 0 then fail_with (invalid_input ''cluster: odd hex length'')
     else rbind (client_pairs v) (\<lambda>bs.
       if utf8_valid bs then Inr bs else fail_with (invalid_input ''cluster: value is not UTF-8'')))"

section \<open>Requests\<close>

record cluster_client =
  cc_nodes :: "(u64, socket_addr) bmap"
  cc_attempts :: nat

definition client_new :: "(u64, socket_addr) bmap \<Rightarrow> cluster_client" where
  "client_new nodes = \<lparr>cc_nodes = nodes, cc_attempts = 8\<rparr>"

text \<open>What one pass over the nodes ends with.\<close>

datatype pass_end = Answered rstring | Redirected "u64 option" | Exhausted

primrec try_nodes :: "'net wire \<Rightarrow> (u64, socket_addr) bmap \<Rightarrow> rstring \<Rightarrow> u64 list \<Rightarrow> ('net, failure, pass_end) eff" where
  "try_nodes wire nodes request [] net = (Inr Exhausted, net)"
| "try_nodes wire nodes request (i # order) net = (case bm_get nodes i of
     None \<Rightarrow> (Inl Panicked, net)
   | Some address \<Rightarrow> (case request_peer wire address request net of
       (Inl _, net) \<Rightarrow> try_nodes wire nodes request order net
     | (Inr response, net) \<Rightarrow> (case strip_prefix response (ascii ''REDIRECT '') of
         Some target \<Rightarrow> (Inr (Redirected (u64_from_str target)), net)
       | None \<Rightarrow>
           if starts_with response (ascii ''RETRY '') then try_nodes wire nodes request order net
           else (Inr (Answered response), net))))"

definition pass_order :: "(u64, socket_addr) bmap \<Rightarrow> u64 option \<Rightarrow> u64 list" where
  "pass_order nodes preferred =
    (case preferred of Some i \<Rightarrow> [i] | None \<Rightarrow> []) @ filter (\<lambda>i. Some i \<noteq> preferred) (bm_keys nodes)"

primrec request_loop :: "'net wire \<Rightarrow> (u64, socket_addr) bmap \<Rightarrow> rstring \<Rightarrow> nat \<Rightarrow> u64 option \<Rightarrow> ('net, failure, rstring) eff" where
  "request_loop wire nodes request 0 preferred net = (fail_with (IoError TimedOut ''cluster: no majority leader answered''), net)"
| "request_loop wire nodes request (Suc n) preferred net =
    and_then (try_nodes wire nodes request (pass_order nodes preferred)) (\<lambda>ended. case ended of
      Answered response \<Rightarrow> (\<lambda>net. (Inr response, net))
    | Redirected target \<Rightarrow> request_loop wire nodes request n target
    | Exhausted \<Rightarrow> request_loop wire nodes request n preferred) net"

definition client_request :: "'net wire \<Rightarrow> cluster_client \<Rightarrow> rstring \<Rightarrow> ('net, failure, rstring) eff" where
  "client_request wire c request =
    request_loop wire (cc_nodes c) request (cc_attempts c) (case bm_keys (cc_nodes c) of [] \<Rightarrow> None | i # _ \<Rightarrow> Some i)"

section \<open>Operations\<close>

definition put_request :: "rstring \<Rightarrow> rstring \<Rightarrow> rstring" where
  "put_request key v = ascii ''PUT '' @ client_hex key @ [0x20] @ client_hex v"

definition delete_request :: "rstring \<Rightarrow> rstring" where
  "delete_request key = ascii ''DELETE '' @ client_hex key"

definition get_request :: "rstring \<Rightarrow> rstring" where
  "get_request key = ascii ''GET '' @ client_hex key"

definition client_put :: "'net wire \<Rightarrow> cluster_client \<Rightarrow> rstring \<Rightarrow> rstring \<Rightarrow> ('net, failure, unit) eff" where
  "client_put wire c key v = and_then (client_request wire c (put_request key v)) (\<lambda>response net.
     (if starts_with response (ascii ''OK '') then Inr () else fail_with (IoError TimedOut ''cluster: write remained indeterminate''), net))"

definition client_delete :: "'net wire \<Rightarrow> cluster_client \<Rightarrow> rstring \<Rightarrow> ('net, failure, unit) eff" where
  "client_delete wire c key = and_then (client_request wire c (delete_request key)) (\<lambda>response net.
     (if starts_with response (ascii ''OK '') then Inr () else fail_with (IoError TimedOut ''cluster: delete remained indeterminate''), net))"

definition client_get :: "'net wire \<Rightarrow> cluster_client \<Rightarrow> rstring \<Rightarrow> ('net, failure, rstring option) eff" where
  "client_get wire c key = and_then (client_request wire c (get_request key)) (\<lambda>response net.
     (if response = ascii ''NIL'' then Inr None
      else (case strip_prefix response (ascii ''VALUE '') of
          Some v \<Rightarrow> rbind (client_unhex_string v) (\<lambda>v. Inr (Some v))
        | None \<Rightarrow> fail_with (IoError TimedOut ''cluster: read remained indeterminate'')), net))"

definition admin_request :: "'net wire \<Rightarrow> cluster_client \<Rightarrow> u64 \<Rightarrow> rstring \<Rightarrow> string \<Rightarrow> ('net, failure, unit) eff" where
  "admin_request wire c node request complaint net = (case bm_get (cc_nodes c) node of
     None \<Rightarrow> (fail_with (invalid_input ''cluster: unknown node''), net)
   | Some address \<Rightarrow> (case request_peer wire address request net of
       (Inl e, net) \<Rightarrow> (fail_with e, net)
     | (Inr response, net) \<Rightarrow> (if response = ascii ''OK'' then Inr () else fail_with (invalid_input complaint), net)))"

definition client_block :: "'net wire \<Rightarrow> cluster_client \<Rightarrow> u64 \<Rightarrow> u64 \<Rightarrow> ('net, failure, unit) eff" where
  "client_block wire c node peer = admin_request wire c node (ascii ''ADMIN_BLOCK '' @ show_u64 peer) ''cluster: block failed''"

definition client_heal :: "'net wire \<Rightarrow> cluster_client \<Rightarrow> u64 \<Rightarrow> ('net, failure, unit) eff" where
  "client_heal wire c node = admin_request wire c node (ascii ''ADMIN_HEAL'') ''cluster: heal failed''"

section \<open>Decoding\<close>

lemma client_hex_eq: "client_hex = hex"
  by (simp add: fun_eq_iff client_hex_def hex_def)

interpretation client_hex: hex_decoder client_digit client_pairs
proof
  show "client_digit b = Inr n \<longleftrightarrow> unat n < 16 \<and> b = hex_digit_byte n" for b n
    unfolding client_digit_def fail_with_def by (rule hex_digit_decoder)
qed simp_all

lemma client_unhex_string_hex: "utf8_valid s \<Longrightarrow> client_unhex_string (cluster_hex s) = Inr s"
  by (simp add: client_unhex_string_def cluster_hex_eq client_hex.pairs_hex)

section \<open>Retried requests\<close>

text \<open>
  A client that retries relies on what the nodes promise about one request: while it has no answer the network keeps \<open>unanswered\<close>,
  an answer comes with \<open>answered\<close>, and redirects name known nodes.
\<close>

locale retried_request =
  fixes wire :: "'net wire" and nodes :: "(u64, socket_addr) bmap" and request :: rstring
    and unanswered :: "'net \<Rightarrow> bool" and answered :: "rstring \<Rightarrow> 'net \<Rightarrow> bool"
  assumes failed: "unanswered net \<Longrightarrow> bm_get nodes i = Some a \<Longrightarrow> request_peer wire a request net = (Inl e, net') \<Longrightarrow> unanswered net'"
    and retry: "unanswered net \<Longrightarrow> bm_get nodes i = Some a \<Longrightarrow> request_peer wire a request net = (Inr (ascii ''RETRY '' @ s), net') \<Longrightarrow> unanswered net'"
    and redirect: "unanswered net \<Longrightarrow> bm_get nodes i = Some a \<Longrightarrow> request_peer wire a request net = (Inr (ascii ''REDIRECT '' @ s), net') \<Longrightarrow>
      unanswered net' \<and> (\<exists>j. bm_get nodes j \<noteq> None \<and> u64_from_str s = Some j)"
    and reply: "unanswered net \<Longrightarrow> bm_get nodes i = Some a \<Longrightarrow> request_peer wire a request net = (Inr response, net') \<Longrightarrow>
      \<not> starts_with response (ascii ''RETRY '') \<Longrightarrow> \<not> starts_with response (ascii ''REDIRECT '') \<Longrightarrow> answered response net'"
begin

definition pass_ok :: "pass_end may_fail \<Rightarrow> 'net \<Rightarrow> bool" where
  "pass_ok r net = (case r of
     Inr (Answered response) \<Rightarrow> answered response net
   | Inr (Redirected target) \<Rightarrow> unanswered net \<and> (\<exists>j. bm_get nodes j \<noteq> None \<and> target = Some j)
   | Inr Exhausted \<Rightarrow> unanswered net
   | Inl _ \<Rightarrow> False)"

lemma try_nodes_ok: "unanswered net \<Longrightarrow> \<forall>i \<in> set order. bm_get nodes i \<noteq> None \<Longrightarrow> try_nodes wire nodes request order net = (r, net') \<Longrightarrow> pass_ok r net'"
proof (induction order arbitrary: net)
  case Nil
  then show ?case by (auto simp: pass_ok_def)
next
  case (Cons i order)
  obtain a where a: "bm_get nodes i = Some a" using Cons.prems(2) by auto
  obtain x net1 where x: "request_peer wire a request net = (x, net1)" by (cases "request_peer wire a request net")
  show ?case
  proof (cases x)
    case (Inl e)
    with Cons.IH [OF failed [OF Cons.prems(1) a]] Cons.prems(2,3) a x show ?thesis by simp
  next
    case (Inr response)
    note x = x [unfolded Inr]
    show ?thesis
    proof (cases "starts_with response (ascii ''REDIRECT '')")
      case True
      then obtain s where s: "response = ascii ''REDIRECT '' @ s" by (metis starts_with_def append_take_drop_id)
      from redirect [OF Cons.prems(1) a x [unfolded s]] Cons.prems(3) a x True s show ?thesis
        by (auto simp: strip_prefix_def pass_ok_def)
    next
      case False
      show ?thesis
      proof (cases "starts_with response (ascii ''RETRY '')")
        case True
        then obtain s where s: "response = ascii ''RETRY '' @ s" by (metis starts_with_def append_take_drop_id)
        from Cons.IH [OF retry [OF Cons.prems(1) a x [unfolded s]]] Cons.prems(2,3) a x False True show ?thesis
          by (simp add: strip_prefix_def)
      next
        case retry: False
        from reply [OF Cons.prems(1) a x retry False] Cons.prems(3) a x False retry show ?thesis by (auto simp: strip_prefix_def pass_ok_def)
      qed
    qed
  qed
qed

lemma request_loop_ok:
  assumes "unanswered net" and "\<forall>i. preferred = Some i \<longrightarrow> bm_get nodes i \<noteq> None"
    and "request_loop wire nodes request n preferred net = (r, net')"
  shows "case r of Inr response \<Rightarrow> answered response net' | Inl (Failed _) \<Rightarrow> unanswered net' | Inl Panicked \<Rightarrow> False"
  using assms
proof (induction n arbitrary: preferred net)
  case 0
  then show ?case by (auto simp: fail_with_def)
next
  case (Suc n)
  have order: "\<forall>i \<in> set (pass_order nodes preferred). bm_get nodes i \<noteq> None"
    using Suc.prems(2) unfolding pass_order_def bm_get_dom by (auto split: option.splits)
  obtain x net1 where x: "try_nodes wire nodes request (pass_order nodes preferred) net = (x, net1)"
    by (cases "try_nodes wire nodes request (pass_order nodes preferred) net")
  note passed = try_nodes_ok [OF Suc.prems(1) order x] and next_pass = Suc.IH [of net1]
  show ?case
  proof (cases "\<exists>response. x = Inr (Answered response)")
    case True
    with passed Suc.prems(3) x show ?thesis by (auto simp: pass_ok_def and_then_def)
  next
    case False
    then obtain p where "unanswered net1" "\<forall>i. p = Some i \<longrightarrow> bm_get nodes i \<noteq> None"
      "request_loop wire nodes request n p net1 = (r, net')"
      using passed Suc.prems(2,3) x by (auto simp: pass_ok_def and_then_def split: sum.splits pass_end.splits)
    then show ?thesis by (rule next_pass)
  qed
qed

lemma client_request_ok:
  assumes "unanswered net" and "cc_nodes c = nodes" and "client_request wire c request net = (r, net')"
  shows "case r of Inr response \<Rightarrow> answered response net' | Inl (Failed _) \<Rightarrow> unanswered net' | Inl Panicked \<Rightarrow> False"
proof (rule request_loop_ok [OF assms(1) _ assms(3) [unfolded client_request_def assms(2)]])
  show "\<forall>j. (case bm_keys nodes of [] \<Rightarrow> None | i # _ \<Rightarrow> Some i) = Some j \<longrightarrow> bm_get nodes j \<noteq> None"
    by (cases nodes) auto
qed

end

end
