(* ===== verification/Client_Cluster.thy ===== *)
theory Client_Cluster
  imports Server_Writes Client
begin

text \<open>
  Clients of a cluster. One request to one node keeps what the cluster holds or makes the write it asks for; the client's
  retries keep it too, so the answers of the client are those of a map.
\<close>

section \<open>Dumps that fit into a frame\<close>

definition row_size :: "rstring \<times> rstring \<Rightarrow> nat" where
  "row_size p = 2 * length (fst p) + 2 * length (snd p) + 27"

definition room :: "(rstring \<times> rstring) list \<Rightarrow> nat" where
  "room ws = sum_list (map row_size ws)"

lemma length_dump_row: "length (dump_row key r) < row_size (key, rep_value r)"
  using length_show_u64 [of "rep_version r"] by (simp add: dump_row_def row_size_def bit_text_def ascii_def cluster_hex_eq)

lemma length_str_join: "length (str_join [c] ss) \<le> sum_list (map (\<lambda>s. length s + 1) ss)"
  by (induction "[c]" ss rule: str_join.induct) auto

lemma room_subset:
  assumes "distinct xs" and "set xs \<subseteq> set ws"
  shows "room xs \<le> room ws"
proof -
  have "room xs = sum row_size (set xs)" using assms(1) by (simp add: room_def sum_list_distinct_conv_sum_set)
  also have "\<dots> \<le> sum row_size (set ws)" using assms(2) by (intro sum_mono2) auto
  also have "\<dots> = sum_list (map row_size (remdups ws))" by (simp add: sum.set_conv_list)
  also have "\<dots> \<le> room ws" unfolding room_def by (induction ws) auto
  finally show ?thesis .
qed

lemma dump_fits_room:
  assumes ok: "server_ok sv" and from_ws: "\<And>key r. recs sv key = Some r \<Longrightarrow> (key, rep_value r) \<in> set ws" and small: "5 + room ws \<le> MAX_FRAME"
  shows "dump_fits sv"
proof (rule dump_ok [OF ok])
  fix out rows
  assume d: "dump sv = Inr out" "map_of rows = committed_recs sv" "distinct (map fst rows)"
    "out = str_join [0x3B] (map (\<lambda>(key, r). dump_row key r) rows)"
  let ?ws = "map (\<lambda>(key, r). (key, rep_value r)) rows"
  have "length out \<le> sum_list (map (\<lambda>(key, r). length (dump_row key r) + 1) rows)"
    using length_str_join [of "0x3B" "map (\<lambda>(key, r). dump_row key r) rows"] by (simp add: d(4) comp_def prod.case_distrib case_prod_unfold)
  also have "\<dots> \<le> room ?ws"
    unfolding room_def map_map using length_dump_row by (intro sum_list_mono) (auto simp: Suc_le_eq)
  also have "\<dots> \<le> room ws"
  proof (rule room_subset)
    have "map fst ?ws = map fst rows" by (simp add: comp_def case_prod_beta)
    with d(3) show "distinct ?ws" by (metis distinct_map)
    have "recs sv key = Some r" if "(key, r) \<in> set rows" for key r
      using map_of_is_SomeI [OF d(3) that] d(2) by (auto simp: committed_recs_def split: option.splits if_splits)
    then show "set ?ws \<subseteq> set ws" using from_ws by auto
  qed
  finally show "dump_fits sv" using d(1) small by (simp add: dump_fits_def)
qed

lemma dumps_fit_room:
  assumes inv: "cluster_inv conf w T" and from_ws: "from_writes conf ws w" and small: "5 + room ws \<le> MAX_FRAME"
  shows "dumps_fit conf w"
  unfolding dumps_fit_def
proof (intro ballI allI, clarify)
  fix i a sv assume sv: "(i, a) \<in> set conf" "w_nodes w a = Some sv"
  have "server_ok sv" using cluster_member [OF inv sv(1)] sv(2) by (metis member_ok_def option.inject)
  then show "dump_fits sv" using dump_fits_room [OF _ from_writesD [OF from_ws sv] small] by blast
qed

section \<open>What a cluster holds\<close>

definition live_values :: "(rstring \<rightharpoonup> replica_value) \<Rightarrow> rstring \<rightharpoonup> rstring" where
  "live_values T key = (case T key of Some t \<Rightarrow> if rep_tombstone t then None else Some (rep_value t) | None \<Rightarrow> None)"

definition cluster_holds :: "(u64, socket_addr) bmap \<Rightarrow> (rstring \<times> rstring) list \<Rightarrow> world \<Rightarrow> (rstring \<rightharpoonup> rstring) \<Rightarrow> bool" where
  "cluster_holds conf ws w m \<longleftrightarrow> 5 + room ws \<le> MAX_FRAME \<and> (\<exists>T. cluster_inv conf w T \<and> from_writes conf ws w \<and> live_values T = m)"

text \<open>The nodes are the same; what is reachable may differ.\<close>

definition same_nodes :: "world \<Rightarrow> world \<Rightarrow> bool" where
  "same_nodes w w' \<longleftrightarrow> w_nodes w' = w_nodes w \<and> w_links w' = w_links w"

lemma same_nodes_inv: "same_nodes w w' \<Longrightarrow> cluster_inv conf w' T = cluster_inv conf w T" "same_nodes w w' \<Longrightarrow> from_writes conf ws w' = from_writes conf ws w"
  by (simp_all add: same_nodes_def cluster_inv_def from_writes_def holds_record_def [abs_def])

lemma same_nodes_holds: "same_nodes w w' \<Longrightarrow> cluster_holds conf ws w' m = cluster_holds conf ws w m"
  by (simp add: cluster_holds_def same_nodes_inv)

lemma same_nodes_view: "next_view w = (l, w1) \<Longrightarrow> same_nodes w w1"
  by (auto simp: next_view_def same_nodes_def split: list.splits)

section \<open>One connection\<close>

lemma write_frame_large: "\<not> length p \<le> MAX_FRAME \<Longrightarrow> \<exists>e. write_frame p [] = Inl e"
  by (simp add: write_frame_def)

lemma read_answer:
  assumes "answer res = Inr out" and "read_frame out = Inr (response, rest)"
  shows "res = Inr response \<or> (\<exists>s. response = ascii ''ERROR '' @ s)"
proof -
  have "response = p" if "out = (case write_frame p [] of Inl _ \<Rightarrow> [] | Inr out \<Rightarrow> out)" for p
  proof (cases "length p \<le> MAX_FRAME")
    case True
    with that assms(2) show ?thesis by (simp add: write_frame_ok read_written)
  next
    case False
    with that assms(2) read_frame_Nil show ?thesis using write_frame_large by fastforce
  qed
  note same = this
  show ?thesis
  proof (cases res)
    case (Inl f)
    with assms(1) same [of "ascii ''ERROR '' @ error_text e" for e] show ?thesis by (cases f) (fastforce simp: answer_def)+
  next
    case (Inr r)
    with assms(1) same [of r] show ?thesis by (simp add: answer_def)
  qed
qed

lemma answer_total: "res \<noteq> Inl Panicked \<Longrightarrow> \<exists>out. answer res = Inr out"
  by (auto simp: answer_def split: sum.splits failure.splits)

text \<open>A request of a client to a node is lost, or the node handles it and the client may see the reply.\<close>

lemma front_cases:
  assumes "w_nodes w a = Some sv" and panic: "\<And>w1 st. same_nodes w w1 \<Longrightarrow> length request \<le> MAX_FRAME \<Longrightarrow>
      handle exchange request (sv, seen w1 a (w_up w1)) \<noteq> (Inl Panicked, st)"
  obtains (lost) e w1 where "request_peer front a request w = (Inl e, w1)" and "same_nodes w w1"
  | (handled) w1 res sv' w' x where "same_nodes w w1" and "length request \<le> MAX_FRAME"
      and "handle exchange request (sv, seen w1 a (w_up w1)) = (res, (sv', w'))"
      and "request_peer front a request w = (x, returned w' a sv')"
      and "(\<exists>e. x = Inl e) \<or> (\<exists>response. x = Inr response \<and> (res = Inr response \<or> (\<exists>s. response = ascii ''ERROR '' @ s)))"
proof -
  obtain l w1 where v: "next_view w = (l, w1)" by (cases "next_view w")
  have same: "same_nodes w w1" by (rule same_nodes_view [OF v])
  then have sv: "w_nodes w1 a = Some sv" using assms(1) by (simp add: same_nodes_def)
  have seen: "w1\<lparr>w_nodes := (w_nodes w1)(a := None)\<rparr> = seen w1 a (w_up w1)" by (cases w1) (simp add: seen_def)
  show ?thesis
  proof (cases "length request \<le> MAX_FRAME")
    case False
    then obtain e where e: "write_frame request [] = Inl e" using write_frame_large by blast
    obtain e' where "read_frame [] = Inl e'" using read_frame_Nil by blast
    moreover obtain out where "answer (Inl (Failed e')) = Inr out" by (rule answer_error)
    ultimately have "\<exists>x. front a [] w = (x, w1)"
      using v sv by (cases w1) (auto simp: front_def serve_connection_def fail_with_def fun_upd_idem)
    then obtain x where "front a [] w = (x, w1)" ..
    with e same lost show ?thesis by (cases x) (auto simp: request_peer_def)
  next
    case True
    show ?thesis
    proof (cases "l = Refused")
      case refused: True
      with True v same lost show ?thesis by (auto simp: request_peer_def write_frame_ok front_def)
    next
      case False
      obtain res sv' w' where h: "handle exchange request (sv, seen w1 a (w_up w1)) = (res, (sv', w'))" by (metis prod.exhaust)
      with panic [OF same True] obtain out where out: "answer res = Inr out" using answer_total by metis
      let ?x = "if l = ReplyLost then Inl timed_out else rbind (read_frame out) (\<lambda>(response, _).
          if utf8_valid response then Inr response else Inl (invalid_data ''cluster: response is not UTF-8''))"
      have "request_peer front a request w = (?x, returned w' a sv')"
        using True False v sv h out by (simp add: request_peer_def write_frame_ok front_def serve_request seen returned_def)
      moreover have "(\<exists>e. ?x = Inl e) \<or> (\<exists>response. ?x = Inr response \<and> (res = Inr response \<or> (\<exists>s. response = ascii ''ERROR '' @ s)))"
        using read_answer [OF out] by (cases "read_frame out") auto
      ultimately show ?thesis using handled [OF same True h] by blast
    qed
  qed
qed

end
