(* ===== verification/Client_Requests.thy ===== *)
theory Client_Requests
  imports Client_Cluster
begin

text \<open>
  What the requests of a client do to the map a cluster holds, and what the client's operations return.
\<close>

section \<open>The requests\<close>

lemma put_words: "put_request key v = str_join [0x20] [ascii ''PUT'', cluster_hex key, cluster_hex v]"
  by (simp add: put_request_def client_hex_eq cluster_hex_eq ascii_def)

lemma delete_words: "delete_request key = str_join [0x20] [ascii ''DELETE'', cluster_hex key]"
  by (simp add: delete_request_def client_hex_eq cluster_hex_eq ascii_def)

lemma get_words: "get_request key = str_join [0x20] [ascii ''GET'', cluster_hex key]"
  by (simp add: get_request_def client_hex_eq cluster_hex_eq ascii_def)

lemma plain_word_hex: "word_text (cluster_hex s)"
  by (rule plain_word) simp

abbreviation unknown_request :: io_error where
  "unknown_request \<equiv> invalid_data ''cluster: unknown request''"

lemma dispatch_client:
  "dispatch wire [ascii ''PUT'', a, b] = decoded (unhex_string a) (\<lambda>key. decoded (unhex_string b) (\<lambda>v. client_write wire key v False))"
  "dispatch wire [ascii ''PUT'', a] = refuse unknown_request" "dispatch wire [ascii ''PUT''] = refuse unknown_request"
  "dispatch wire [ascii ''DELETE'', a] = decoded (unhex_string a) (\<lambda>key. client_write wire key [] True)"
  "dispatch wire [ascii ''DELETE''] = refuse unknown_request"
  "dispatch wire [ascii ''GET'', a] = decoded (unhex_string a) (client_read wire)" "dispatch wire [ascii ''GET''] = refuse unknown_request"
  "dispatch wire [ascii ''ADMIN_BLOCK'', a] =
    decoded (parse_u64 a) (\<lambda>peer (sv, net). (Inr (ascii ''OK''), (sv\<lparr>sv_blocked := insert peer (sv_blocked sv)\<rparr>, net)))"
  "dispatch wire [ascii ''ADMIN_HEAL''] = (\<lambda>(sv, net). (Inr (ascii ''OK''), (sv\<lparr>sv_blocked := {}\<rparr>, net)))"
  by (simp_all add: dispatch_def ascii_def)

lemma command_words [simp]:
  "word_text (ascii ''PUT'')" "word_text (ascii ''DELETE'')" "word_text (ascii ''GET'')" "word_text (ascii ''ADMIN_BLOCK'')" "word_text (ascii ''ADMIN_HEAL'')"
  "ascii ''PUT'' \<noteq> []" "ascii ''DELETE'' \<noteq> []" "ascii ''GET'' \<noteq> []" "ascii ''ADMIN_BLOCK'' \<noteq> []" "ascii ''ADMIN_HEAL'' \<noteq> []"
  by (simp_all add: ascii_def)

lemmas request_simps = handle_words dispatch_client decoded_def unhex_string_hex refuse_def plain_word_hex plain_word

lemma handle_put:
  assumes "utf8_valid key" and "utf8_valid v"
  shows "handle wire (put_request key v) st = (if key = [] \<or> v = [] then (fail_with unknown_request, st) else client_write wire key v False st)"
  unfolding put_words using assms by (subst handle_words) (simp_all add: request_simps del: str_join.simps)

lemma handle_delete:
  assumes "utf8_valid key"
  shows "handle wire (delete_request key) st = (if key = [] then (fail_with unknown_request, st) else client_write wire key [] True st)"
  unfolding delete_words using assms by (subst handle_words) (simp_all add: request_simps del: str_join.simps)

lemma handle_get:
  assumes "utf8_valid key"
  shows "handle wire (get_request key) st = (if key = [] then (fail_with unknown_request, st) else client_read wire key st)"
  unfolding get_words using assms by (subst handle_words) (simp_all add: request_simps del: str_join.simps)

lemma handle_block:
  "handle wire (ascii ''ADMIN_BLOCK '' @ show_u64 peer) (sv, net) = (Inr (ascii ''OK''), (sv\<lparr>sv_blocked := insert peer (sv_blocked sv)\<rparr>, net))"
proof -
  have "ascii ''ADMIN_BLOCK '' @ show_u64 peer = str_join [0x20] [ascii ''ADMIN_BLOCK'', show_u64 peer]" by (simp add: ascii_def)
  then show ?thesis by (simp add: request_simps del: str_join.simps)
qed

lemma handle_heal: "handle wire (ascii ''ADMIN_HEAL'') (sv, net) = (Inr (ascii ''OK''), (sv\<lparr>sv_blocked := {}\<rparr>, net))"
  using handle_words [of "[ascii ''ADMIN_HEAL'']" wire] by (simp add: dispatch_client)

lemma u64_from_str_show: "u64_from_str (show_u64 w) = Some w"
  using parse_u64_show [of w] by (auto simp: parse_u64_def simp del: parse_u64_show split: option.splits)

section \<open>Writes\<close>

definition write_map :: "rstring \<Rightarrow> rstring \<Rightarrow> bool \<Rightarrow> (rstring \<rightharpoonup> rstring) \<Rightarrow> rstring \<rightharpoonup> rstring" where
  "write_map key v tombstone m = m(key := if tombstone then None else Some v)"

lemma write_map_twice [simp]: "write_map key v tombstone (write_map key v tombstone m) = write_map key v tombstone m"
  by (simp add: write_map_def)

lemma live_written: "live_values (T(key \<mapsto> (staged_value version tombstone v)\<lparr>rep_committed := True\<rparr>)) = write_map key v tombstone (live_values T)"
  by (auto simp: live_values_def write_map_def staged_value_def fun_eq_iff)

lemma from_writes_member: "from_writes conf (x # ws) w \<Longrightarrow> x \<in> set ws \<Longrightarrow> from_writes conf ws w"
  by (simp add: from_writes_def insert_absorb)

definition writes_as :: "rstring \<Rightarrow> rstring \<Rightarrow> rstring \<Rightarrow> bool \<Rightarrow> bool" where
  "writes_as request key v tombstone \<longleftrightarrow> utf8_valid key \<and> utf8_valid v \<and> length key + length v \<le> length request
     \<and> (\<forall>st. handle exchange request st = client_write exchange key v tombstone st \<and> key \<noteq> [] \<or> handle exchange request st = (fail_with unknown_request, st))"

lemma put_writes_as: "utf8_valid key \<Longrightarrow> utf8_valid v \<Longrightarrow> writes_as (put_request key v) key v False"
  by (auto simp: writes_as_def handle_put) (simp add: put_request_def client_hex_eq)

lemma delete_writes_as: "utf8_valid key \<Longrightarrow> writes_as (delete_request key) key [] True"
  by (auto simp: writes_as_def handle_delete utf8_valid.simps) (simp add: delete_request_def client_hex_eq)

definition never_acknowledged :: "world \<Rightarrow> socket_addr \<Rightarrow> rstring \<Rightarrow> bool" where
  "never_acknowledged w a request \<longleftrightarrow> (\<forall>w1 sv res st. same_nodes w w1 \<longrightarrow> w_nodes w1 a = Some sv \<longrightarrow>
     handle exchange request (sv, seen w1 a (w_up w1)) = (res, st) \<longrightarrow> \<not> acknowledged res)"

lemma write_connection:
  assumes h: "cluster_holds conf ws w m" and mem: "(key, v) \<in> set ws" and req: "writes_as request key v tombstone" and node: "(i, a) \<in> set conf"
    and r: "request_peer front a request w = (x, w')"
  shows "cluster_holds conf ws w' m \<or> cluster_holds conf ws w' (write_map key v tombstone m)"
    and "x = Inr (ascii ''OK '' @ s) \<Longrightarrow> cluster_holds conf ws w' (write_map key v tombstone m)"
    and "x = Inr (ascii ''REDIRECT '' @ s) \<Longrightarrow> \<exists>j. bm_get conf j \<noteq> None \<and> u64_from_str s = Some j"
    and "never_acknowledged w a request \<Longrightarrow> cluster_holds conf ws w' m \<and> x \<noteq> Inr (ascii ''OK '' @ s)"
proof -
  obtain T where T: "cluster_inv conf w T" "from_writes conf ws w" "live_values T = m" and small: "5 + room ws \<le> MAX_FRAME"
    using h unfolding cluster_holds_def by blast
  obtain sv where sv: "w_nodes w a = Some sv" "member_ok conf T i sv" using cluster_member [OF T(1) node] .
  have served: "write_reply conf res \<and> (if acknowledged res then cluster_holds conf ws (returned w2 a sv') (write_map key v tombstone m)
      else cluster_holds conf ws (returned w2 a sv') m)"
    if same: "same_nodes w w1" and len: "length request \<le> MAX_FRAME"
      and hd: "handle exchange request (sv, seen w1 a (w_up w1)) = (res, (sv', w2))" for w1 res sv' w2
  proof -
    have inv: "cluster_inv conf w1 T" "from_writes conf ws w1" "w_nodes w1 a = Some sv"
      using T(1,2) sv(1) same same_nodes_inv [OF same] by (simp_all add: same_nodes_def)
    note fit = dumps_fit_room [OF inv(1,2) small]
    from req have ok: "utf8_valid key" "utf8_valid v" "length key + length v \<le> MAX_FRAME" using len by (auto simp: writes_as_def)
    from req consider "handle exchange request (sv, seen w1 a (w_up w1)) = client_write exchange key v tombstone (sv, seen w1 a (w_up w1))" "key \<noteq> []"
      | "handle exchange request (sv, seen w1 a (w_up w1)) = (fail_with unknown_request, (sv, seen w1 a (w_up w1)))"
      unfolding writes_as_def by blast
    then show ?thesis
    proof cases
      case 1
      have "write_result conf T ws key v tombstone res (returned w2 a sv')"
        by (rule cluster_write [OF inv(1,2) node inv(3) fit 1(2) ok]) (use hd 1(1) in simp)
      then have res: "write_reply conf res" "from_writes conf ws (returned w2 a sv')" "if acknowledged res then \<exists>version. cluster_inv conf (returned w2 a sv')
          (T(key \<mapsto> (staged_value version tombstone v)\<lparr>rep_committed := True\<rparr>)) else cluster_inv conf (returned w2 a sv') T"
        using from_writes_member [OF _ mem] by (simp_all add: write_result_def)
      show ?thesis
      proof (cases "acknowledged res")
        case True
        with res live_written [of T key _ tombstone v] small T(3) show ?thesis unfolding cluster_holds_def by (metis (full_types))
      next
        case False
        with res small T(3) show ?thesis unfolding cluster_holds_def by auto
      qed
    next
      case 2
      with hd have "res = fail_with unknown_request" "sv' = sv" "w2 = seen w1 a (w_up w1)" by auto
      then show ?thesis
        using cluster_inv_returned [OF inv(1) node inv(3) sv(2)] from_writes_returned [OF inv(1,2) node inv(3)] small T(3)
        by (auto simp: cluster_holds_def write_reply_def fail_with_def)
    qed
  qed
  have panic: "handle exchange request (sv, seen w1 a (w_up w1)) \<noteq> (Inl Panicked, st)" if "same_nodes w w1" "length request \<le> MAX_FRAME" for w1 st
    using served [OF that, of "Inl Panicked" "fst st" "snd st"] by (auto simp: write_reply_def fail_with_def)
  have "(cluster_holds conf ws w' m \<or> cluster_holds conf ws w' (write_map key v tombstone m))
    \<and> (x = Inr (ascii ''OK '' @ s) \<longrightarrow> cluster_holds conf ws w' (write_map key v tombstone m))
    \<and> (x = Inr (ascii ''REDIRECT '' @ s) \<longrightarrow> (\<exists>j. bm_get conf j \<noteq> None \<and> u64_from_str s = Some j))
    \<and> (never_acknowledged w a request \<longrightarrow> cluster_holds conf ws w' m \<and> x \<noteq> Inr (ascii ''OK '' @ s))" for s
  proof (rule front_cases [OF sv(1) panic])
    fix e w1 assume "request_peer front a request w = (Inl e, w1)" "same_nodes w w1"
    with r h show ?thesis using same_nodes_holds by auto
  next
    fix w1 res sv' w2 y
    assume a: "same_nodes w w1" "length request \<le> MAX_FRAME" "handle exchange request (sv, seen w1 a (w_up w1)) = (res, (sv', w2))"
      "request_peer front a request w = (y, returned w2 a sv')"
      and y: "(\<exists>e. y = Inl e) \<or> (\<exists>response. y = Inr response \<and> (res = Inr response \<or> (\<exists>s. response = ascii ''ERROR '' @ s)))"
    note served [OF a(1-3)]
    moreover have "x = y" "w' = returned w2 a sv'" using r a(4) by simp_all
    moreover have "acknowledged res" if "y = Inr (ascii ''OK '' @ s)" using that y calculation(1) by (auto simp: write_reply_def ascii_def)
    moreover have "\<exists>j. bm_get conf j \<noteq> None \<and> u64_from_str s = Some j" if "y = Inr (ascii ''REDIRECT '' @ s)"
      using that y calculation(1) u64_from_str_show unfolding bm_get_dom by (auto simp: write_reply_def ascii_def acknowledged_def)
    moreover have "\<not> acknowledged res" if "never_acknowledged w a request"
      using that sv(1) a(1,3) unfolding never_acknowledged_def by (metis same_nodes_def)
    ultimately show ?thesis by (auto split: if_splits)
  qed
  then show "cluster_holds conf ws w' m \<or> cluster_holds conf ws w' (write_map key v tombstone m)"
    and "x = Inr (ascii ''OK '' @ s) \<Longrightarrow> cluster_holds conf ws w' (write_map key v tombstone m)"
    and "x = Inr (ascii ''REDIRECT '' @ s) \<Longrightarrow> \<exists>j. bm_get conf j \<noteq> None \<and> u64_from_str s = Some j"
    and "never_acknowledged w a request \<Longrightarrow> cluster_holds conf ws w' m \<and> x \<noteq> Inr (ascii ''OK '' @ s)" by blast+
qed

lemma delete_never_acknowledged:
  assumes h: "cluster_holds conf ws w m" and node: "(i, a) \<in> set conf" and key: "utf8_valid key" and several: "1 < length conf"
  shows "never_acknowledged w a (delete_request key)"
  unfolding never_acknowledged_def
proof (intro allI impI)
  fix w1 sv res st
  assume same: "same_nodes w w1" and sv: "w_nodes w1 a = Some sv" and hd: "handle exchange (delete_request key) (sv, seen w1 a (w_up w1)) = (res, st)"
  obtain T where T: "cluster_inv conf w T" "from_writes conf ws w" and small: "5 + room ws \<le> MAX_FRAME" using h unfolding cluster_holds_def by blast
  then have inv: "cluster_inv conf w1 T" "from_writes conf ws w1" using same_nodes_inv [OF same] by simp_all
  obtain sv' w' where st: "st = (sv', w')" by (cases st)
  show "\<not> acknowledged res"
  proof (cases "key = []")
    case True
    with hd show ?thesis using handle_delete [OF key, of exchange] by (auto simp: fail_with_def)
  next
    case False
    then have "client_write exchange key [] True (sv, seen w1 a (w_up w1)) = (res, (sv', w'))" using hd handle_delete [OF key, of exchange] st by simp
    then show ?thesis by (rule empty_write_refused [OF inv(1) node sv dumps_fit_room [OF inv small] several])
  qed
qed

section \<open>Reads\<close>

definition reply_of :: "rstring option \<Rightarrow> rstring" where
  "reply_of found = (case found of Some v \<Rightarrow> ascii ''VALUE '' @ cluster_hex v | None \<Rightarrow> ascii ''NIL'')"

lemma read_reply_live: "(\<And>t. T key = Some t \<Longrightarrow> rep_committed t) \<Longrightarrow> read_reply (T key) = reply_of (live_values T key)"
  by (auto simp: read_reply_def reply_of_def live_values_def split: option.split)

lemma newest_committed:
  assumes "cluster_inv conf w T" and "T key = Some t"
  shows "rep_committed t" and "utf8_valid (rep_value t)"
proof -
  obtain i a sv where sv: "(i, a) \<in> set conf" "w_nodes w a = Some sv" "recs sv key = Some t" using newest_holder [OF assms] .
  have "member_ok conf T i sv" using cluster_member [OF assms(1) sv(1)] sv(2) by force
  with sv(3) show "rep_committed t" "utf8_valid (rep_value t)"
    by (auto simp: member_ok_def bounded_by_def server_ok_def rec_sized_def rep_ok_def)
qed

lemma get_connection:
  assumes h: "cluster_holds conf ws w m" and key: "utf8_valid key" and node: "(i, a) \<in> set conf" and r: "request_peer front a (get_request key) w = (x, w')"
  shows "cluster_holds conf ws w' m"
    and "x = Inr response \<Longrightarrow> response = reply_of (m key) \<or> response = ascii ''RETRY no-quorum'' \<or> (\<exists>s. response = ascii ''ERROR '' @ s)
      \<or> (\<exists>j. bm_get conf j \<noteq> None \<and> response = ascii ''REDIRECT '' @ show_u64 j)"
proof -
  obtain T where T: "cluster_inv conf w T" "from_writes conf ws w" "live_values T = m" and small: "5 + room ws \<le> MAX_FRAME"
    using h unfolding cluster_holds_def by blast
  obtain sv where sv: "w_nodes w a = Some sv" "member_ok conf T i sv" using cluster_member [OF T(1) node] .
  let ?reply = "\<lambda>res. res = Inr (reply_of (m key)) \<or> res = Inr (ascii ''RETRY no-quorum'') \<or> (\<exists>e. res = fail_with e)
      \<or> (\<exists>j. bm_get conf j \<noteq> None \<and> res = Inr (ascii ''REDIRECT '' @ show_u64 j))"
  have served: "cluster_holds conf ws (returned w2 a sv') m \<and> ?reply res"
    if same: "same_nodes w w1" and hd: "handle exchange (get_request key) (sv, seen w1 a (w_up w1)) = (res, (sv', w2))" for w1 res sv' w2
  proof -
    have inv: "cluster_inv conf w1 T" "from_writes conf ws w1" "w_nodes w1 a = Some sv"
      using T(1,2) sv(1) same same_nodes_inv [OF same] by (simp_all add: same_nodes_def)
    note fit = dumps_fit_room [OF inv(1,2) small]
    show ?thesis
    proof (cases "key = []")
      case True
      with hd have "res = fail_with unknown_request" "sv' = sv" "w2 = seen w1 a (w_up w1)" using handle_get [OF key, of exchange] by simp_all
      then show ?thesis
        using cluster_inv_returned [OF inv(1) node inv(3) sv(2)] from_writes_returned [OF inv(1,2) node inv(3)] small T(3) by (auto simp: cluster_holds_def)
    next
      case False
      then have q: "client_read exchange key (sv, seen w1 a (w_up w1)) = (res, (sv', w2))" using hd by (simp add: handle_get [OF key])
      have "read_reply (T key) = reply_of (m key)" using read_reply_live [of T key] newest_committed [OF T(1)] T(3) by blast
      with cluster_read [OF inv(1,2) node inv(3) fit q] small T(3) show ?thesis unfolding bm_get_dom by (auto simp: cluster_holds_def)
    qed
  qed
  have panic: "handle exchange (get_request key) (sv, seen w1 a (w_up w1)) \<noteq> (Inl Panicked, st)" if "same_nodes w w1" for w1 st
    using served [OF that, of "Inl Panicked" "fst st" "snd st"] by (auto simp: fail_with_def)
  have "cluster_holds conf ws w' m \<and> (\<forall>response. x = Inr response \<longrightarrow> ?reply (Inr response) \<or> (\<exists>s. response = ascii ''ERROR '' @ s))"
  proof (rule front_cases [OF sv(1) panic])
    fix e w1 assume "request_peer front a (get_request key) w = (Inl e, w1)" "same_nodes w w1"
    with r h show ?thesis using same_nodes_holds by auto
  next
    fix w1 res sv' w2 y
    assume "same_nodes w w1" "handle exchange (get_request key) (sv, seen w1 a (w_up w1)) = (res, (sv', w2))"
      "request_peer front a (get_request key) w = (y, returned w2 a sv')"
      "(\<exists>e. y = Inl e) \<or> (\<exists>response. y = Inr response \<and> (res = Inr response \<or> (\<exists>s. response = ascii ''ERROR '' @ s)))"
    with served r show ?thesis by (metis Inr_inject Pair_inject sum.distinct(1))
  qed
  then show "cluster_holds conf ws w' m" and "x = Inr response \<Longrightarrow> response = reply_of (m key) \<or> response = ascii ''RETRY no-quorum'' \<or> (\<exists>s. response = ascii ''ERROR '' @ s)
      \<or> (\<exists>j. bm_get conf j \<noteq> None \<and> response = ascii ''REDIRECT '' @ show_u64 j)" by auto
qed

section \<open>Administration\<close>

lemma admin_connection:
  assumes h: "cluster_holds conf ws w m" and node: "(i, a) \<in> set conf" and r: "request_peer front a request w = (x, w')"
    and admin: "\<And>sv net. \<exists>B. handle exchange request (sv, net) = (Inr (ascii ''OK''), (sv\<lparr>sv_blocked := B\<rparr>, net))"
  shows "cluster_holds conf ws w' m"
proof -
  obtain T where T: "cluster_inv conf w T" "from_writes conf ws w" "live_values T = m" and small: "5 + room ws \<le> MAX_FRAME"
    using h unfolding cluster_holds_def by blast
  obtain sv where sv: "w_nodes w a = Some sv" "member_ok conf T i sv" using cluster_member [OF T(1) node] .
  have conf: "distinct (map snd conf)" using T(1) by (simp add: cluster_inv_def conf_ok_def)
  have same_recs: "recs (sv\<lparr>sv_blocked := B\<rparr>) = recs sv" for sv B by (simp add: recs_def [abs_def] read_record_def)
  have ok: "member_ok conf T i (sv\<lparr>sv_blocked := B\<rparr>)" for B
    using sv(2) by (simp add: member_ok_def server_ok_def same_recs)
  show ?thesis
  proof (rule front_cases [OF sv(1)])
    show "handle exchange request (sv, seen w1 a (w_up w1)) \<noteq> (Inl Panicked, st)" for w1 st
      using admin [of sv "seen w1 a (w_up w1)"] by auto
  next
    fix e w1 assume "request_peer front a request w = (Inl e, w1)" "same_nodes w w1"
    with r h show ?thesis using same_nodes_holds by auto
  next
    fix w1 res sv' w2 y
    assume a: "same_nodes w w1" "handle exchange request (sv, seen w1 a (w_up w1)) = (res, (sv', w2))" "request_peer front a request w = (y, returned w2 a sv')"
    then obtain B where B: "sv' = sv\<lparr>sv_blocked := B\<rparr>" "w2 = seen w1 a (w_up w1)" using admin [of sv "seen w1 a (w_up w1)"] by auto
    have inv: "cluster_inv conf w1 T" "from_writes conf ws w1" "w_nodes w1 a = Some sv"
      using T(1,2) sv(1) a(1) same_nodes_inv [OF a(1)] by (simp_all add: same_nodes_def)
    have "cluster_inv conf (returned w2 a sv') T"
    proof (rule cluster_inv_mono [OF inv(1)])
      fix j b p assume p: "(j, b) \<in> set conf" "w_nodes w1 b = Some p" "member_ok conf T j p"
      then show "\<exists>q. w_nodes (returned w2 a sv') b = Some q \<and> member_ok conf T j q \<and> (\<forall>key t. T key = Some t \<longrightarrow> recs p key = Some t \<longrightarrow> recs q key = Some t)"
        using conf_addressed [OF conf node, of j] ok inv(3) by (cases "b = a") (auto simp: B returned_seen same_recs)
    qed (use inv(1) in \<open>simp add: B returned_seen cluster_inv_def\<close>)
    moreover have "from_writes conf ws (returned w2 a sv')"
    proof (rule from_writesI)
      fix j b q key t assume "(j, b) \<in> set conf" "w_nodes (returned w2 a sv') b = Some q" "recs q key = Some t"
      then show "(key, rep_value t) \<in> set ws"
        using from_writesD [OF inv(2)] inv(3) by (cases "b = a") (auto simp: B returned_seen same_recs)
    qed
    ultimately show ?thesis using r a(3) small T(3) by (auto simp: cluster_holds_def)
  qed
qed

end
