(* ===== verification/Client_Runs.thy ===== *)
theory Client_Runs
  imports Client_Requests
begin

text \<open>
  Runs of a cluster and its clients: the operations of clients, changes of what is reachable, and restarts of nodes, in any order. The
  results the clients see are those of one map.
\<close>

section \<open>The client's operations\<close>

definition write_open :: "(u64, socket_addr) bmap \<Rightarrow> (rstring \<times> rstring) list \<Rightarrow> rstring \<Rightarrow> rstring \<Rightarrow> rstring \<Rightarrow> bool \<Rightarrow> (rstring \<rightharpoonup> rstring) \<Rightarrow> world \<Rightarrow> bool" where
  "write_open conf ws request key v tombstone m w \<longleftrightarrow> (key, v) \<in> set ws \<and> writes_as request key v tombstone
     \<and> (cluster_holds conf ws w m \<or> cluster_holds conf ws w (write_map key v tombstone m))"

definition write_answered :: "(u64, socket_addr) bmap \<Rightarrow> (rstring \<times> rstring) list \<Rightarrow> rstring \<Rightarrow> rstring \<Rightarrow> rstring \<Rightarrow> bool \<Rightarrow> (rstring \<rightharpoonup> rstring)
    \<Rightarrow> rstring \<Rightarrow> world \<Rightarrow> bool" where
  "write_answered conf ws request key v tombstone m response w \<longleftrightarrow> write_open conf ws request key v tombstone m w
     \<and> (starts_with response (ascii ''OK '') \<longrightarrow> cluster_holds conf ws w (write_map key v tombstone m))"

lemma write_open_step:
  assumes "write_open conf ws request key v tombstone m w" and "bm_get conf i = Some a" and "request_peer front a request w = (x, w')"
  shows "write_open conf ws request key v tombstone m w'" and "x = Inr response \<Longrightarrow> write_answered conf ws request key v tombstone m response w'"
    and "x = Inr (ascii ''REDIRECT '' @ s) \<Longrightarrow> \<exists>j. bm_get conf j \<noteq> None \<and> u64_from_str s = Some j"
proof -
  obtain m1 where m1: "m1 = m \<or> m1 = write_map key v tombstone m" "cluster_holds conf ws w m1" and w: "(key, v) \<in> set ws" "writes_as request key v tombstone"
    using assms(1) unfolding write_open_def by blast
  note step = write_connection [OF m1(2) w map_of_SomeD [OF assms(2)] assms(3)]
  have "write_map key v tombstone m1 = write_map key v tombstone m" using m1(1) by auto
  then show op: "write_open conf ws request key v tombstone m w'" and "x = Inr (ascii ''REDIRECT '' @ s) \<Longrightarrow> \<exists>j. bm_get conf j \<noteq> None \<and> u64_from_str s = Some j"
    using step(1,3) m1(1) w unfolding write_open_def by auto
  assume x: "x = Inr response"
  have "cluster_holds conf ws w' (write_map key v tombstone m)" if "starts_with response (ascii ''OK '')"
    using step(2) x that \<open>write_map key v tombstone m1 = _\<close> by (metis starts_with_def append_take_drop_id)
  with op show "write_answered conf ws request key v tombstone m response w'" by (simp add: write_answered_def)
qed

interpretation writes: retried_request front conf request "write_open conf ws request key v tombstone m" "write_answered conf ws request key v tombstone m"
  for conf ws request key v tombstone m
  by unfold_locales (blast dest: write_open_step)+

definition read_answered :: "(u64, socket_addr) bmap \<Rightarrow> (rstring \<times> rstring) list \<Rightarrow> rstring \<Rightarrow> (rstring \<rightharpoonup> rstring) \<Rightarrow> rstring \<Rightarrow> world \<Rightarrow> bool" where
  "read_answered conf ws key m response w \<longleftrightarrow> cluster_holds conf ws w m \<and> (response = reply_of (m key) \<or> (\<exists>s. response = ascii ''ERROR '' @ s))"

lemma not_prefixed: "\<not> starts_with (reply_of r) (ascii ''RE'' @ s)" "\<not> starts_with (ascii ''ERROR '' @ t) (ascii ''RE'' @ s)"
  by (auto simp: starts_with_def reply_of_def ascii_def split: option.splits)

lemma prefixed: "ascii ''RETRY '' = ascii ''RE'' @ ascii ''TRY ''" "ascii ''REDIRECT '' = ascii ''RE'' @ ascii ''DIRECT ''"
  by (simp_all add: ascii_def)

lemma starts_with_append [simp]: "starts_with (p @ s) p"
  by (simp add: starts_with_def)

interpretation reads: retried_request front conf "get_request key" "\<lambda>w. utf8_valid key \<and> cluster_holds conf ws w m" "read_answered conf ws key m"
  for conf ws key m
proof (unfold_locales, goal_cases)
  case (1 w i a e w')
  then show ?case using get_connection(1) map_of_SomeD by metis
next
  case (2 w i a s w')
  then show ?case using get_connection(1) map_of_SomeD by metis
next
  case (3 w i a s w')
  then have w: "cluster_holds conf ws w m" "utf8_valid key" "(i, a) \<in> set conf" by (auto dest: map_of_SomeD)
  have "\<not> starts_with response (ascii ''REDIRECT '')" if "response = reply_of (m key) \<or> response = ascii ''RETRY no-quorum'' \<or> (\<exists>s. response = ascii ''ERROR '' @ s)" for response
    using that not_prefixed(1) [of "m key" "ascii ''DIRECT ''", folded prefixed] not_prefixed(2) [of _ "ascii ''DIRECT ''", folded prefixed]
    by (auto simp: starts_with_def ascii_def)
  then show ?case using get_connection [OF w 3(3)] w(2) u64_from_str_show starts_with_append by (metis same_append_eq)
next
  case (4 w i a response w')
  then have w: "cluster_holds conf ws w m" "utf8_valid key" "(i, a) \<in> set conf" by (auto dest: map_of_SomeD)
  have "starts_with (ascii ''RETRY no-quorum'') (ascii ''RETRY '')" by (simp add: starts_with_def ascii_def)
  with get_connection [OF w 4(3)] 4(4,5) starts_with_append show ?case unfolding read_answered_def by metis
qed

lemma client_write_ok:
  assumes "client_request front c request w = (r, w')" and "cc_nodes c = conf" and "cluster_holds conf ws w m" and "(key, v) \<in> set ws" and "writes_as request key v tombstone"
  shows "r \<noteq> Inl Panicked" and "cluster_holds conf ws w' m \<or> cluster_holds conf ws w' (write_map key v tombstone m)"
    and "r = Inr response \<Longrightarrow> starts_with response (ascii ''OK '') \<Longrightarrow> cluster_holds conf ws w' (write_map key v tombstone m)"
proof -
  have "write_open conf ws request key v tombstone m w" using assms(3-5) by (simp add: write_open_def)
  from writes.client_request_ok [OF this assms(2,1)]
  show "r \<noteq> Inl Panicked" and "cluster_holds conf ws w' m \<or> cluster_holds conf ws w' (write_map key v tombstone m)"
    and "r = Inr response \<Longrightarrow> starts_with response (ascii ''OK '') \<Longrightarrow> cluster_holds conf ws w' (write_map key v tombstone m)"
    by (auto simp: write_open_def write_answered_def split: sum.splits failure.splits)
qed

lemma client_get_ok:
  assumes "client_get front c key w = (r, w')" and "cc_nodes c = conf" and "cluster_holds conf ws w m" and "utf8_valid key"
  shows "r \<noteq> Inl Panicked" and "cluster_holds conf ws w' m" and "r = Inr found \<Longrightarrow> found = m key"
proof -
  obtain x w1 where x: "client_request front c (get_request key) w = (x, w1)" by (cases "client_request front c (get_request key) w")
  have "utf8_valid key \<and> cluster_holds conf ws w m" using assms by simp
  note ok = reads.client_request_ok [OF this assms(2) x]
  obtain T where T: "cluster_inv conf w T" "live_values T = m" using assms(3) unfolding cluster_holds_def by blast
  have stored: "utf8_valid v" if "m key = Some v" for v
    using that newest_committed(2) [OF T(1), of key] T(2) by (auto simp: live_values_def split: option.splits if_splits)
  have "r \<noteq> Inl Panicked \<and> cluster_holds conf ws w' m \<and> (\<forall>found. r = Inr found \<longrightarrow> found = m key)"
  proof (cases x)
    case (Inl e)
    with ok x assms(1) show ?thesis by (cases e) (auto simp: client_get_def and_then_def)
  next
    case (Inr response)
    with ok have resp: "cluster_holds conf ws w1 m" "response = reply_of (m key) \<or> (\<exists>s. response = ascii ''ERROR '' @ s)" by (simp_all add: read_answered_def)
    from resp(2) show ?thesis
    proof
      assume "response = reply_of (m key)"
      moreover have "ascii ''VALUE '' @ s \<noteq> ascii ''NIL''" for s by (simp add: ascii_def)
      ultimately show ?thesis using Inr x assms(1) resp(1) stored
        by (cases "m key") (auto simp: client_get_def and_then_def reply_of_def client_unhex_string_hex)
    next
      assume "\<exists>s. response = ascii ''ERROR '' @ s"
      then obtain s where "response = ascii ''ERROR '' @ s" ..
      moreover have "ascii ''ERROR '' @ s \<noteq> ascii ''NIL''" "strip_prefix (ascii ''ERROR '' @ s) (ascii ''VALUE '') = None"
        by (simp_all add: ascii_def strip_prefix_def starts_with_def)
      ultimately show ?thesis using Inr x assms(1) resp(1) by (auto simp: client_get_def and_then_def)
    qed
  qed
  then show "r \<noteq> Inl Panicked" and "cluster_holds conf ws w' m" and "r = Inr found \<Longrightarrow> found = m key" by blast+
qed

lemma admin_ok:
  assumes "admin_request front c node request complaint w = (r, w')" and "cc_nodes c = conf" and "cluster_holds conf ws w m"
    and "\<And>sv net. \<exists>B. handle exchange request (sv, net) = (Inr (ascii ''OK''), (sv\<lparr>sv_blocked := B\<rparr>, net))"
  shows "r \<noteq> Inl Panicked" and "cluster_holds conf ws w' m"
proof -
  have "r \<noteq> Inl Panicked \<and> cluster_holds conf ws w' m"
  proof (cases "bm_get conf node")
    case None
    with assms(1-3) show ?thesis by (auto simp: admin_request_def fail_with_def)
  next
    case (Some a)
    obtain x w1 where x: "request_peer front a request w = (x, w1)" by (cases "request_peer front a request w")
    have "cluster_holds conf ws w1 m" by (rule admin_connection [OF assms(3) map_of_SomeD [OF Some] x assms(4)])
    with Some x assms(1,2) show ?thesis by (auto simp: admin_request_def fail_with_def split: sum.splits if_splits)
  qed
  then show "r \<noteq> Inl Panicked" and "cluster_holds conf ws w' m" by simp_all
qed

section \<open>Runs\<close>

datatype client_op = PutOp rstring rstring | DeleteOp rstring | GetOp rstring | BlockOp u64 u64 | HealOp u64

datatype client_result = Done | Found "rstring option" | Refusal failure

definition result_of :: "('a \<Rightarrow> client_result) \<Rightarrow> 'a may_fail \<times> 'net \<Rightarrow> client_result \<times> 'net" where
  "result_of f p = (case p of (Inl e, net) \<Rightarrow> (Refusal e, net) | (Inr x, net) \<Rightarrow> (f x, net))"

definition perform :: "'net wire \<Rightarrow> cluster_client \<Rightarrow> client_op \<Rightarrow> 'net \<Rightarrow> client_result \<times> 'net" where
  "perform wire c op net = (case op of
     PutOp key v \<Rightarrow> result_of (\<lambda>_. Done) (client_put wire c key v net)
   | DeleteOp key \<Rightarrow> result_of (\<lambda>_. Done) (client_delete wire c key net)
   | GetOp key \<Rightarrow> result_of Found (client_get wire c key net)
   | BlockOp node peer \<Rightarrow> result_of (\<lambda>_. Done) (client_block wire c node peer net)
   | HealOp node \<Rightarrow> result_of (\<lambda>_. Done) (client_heal wire c node net))"

text \<open>The strings of a Rust program are valid UTF-8.\<close>

fun op_utf8 :: "client_op \<Rightarrow> bool" where
  "op_utf8 (PutOp key v) \<longleftrightarrow> utf8_valid key \<and> utf8_valid v"
| "op_utf8 (DeleteOp key) \<longleftrightarrow> utf8_valid key"
| "op_utf8 (GetOp key) \<longleftrightarrow> utf8_valid key"
| "op_utf8 _ \<longleftrightarrow> True"

fun op_writes :: "client_op \<Rightarrow> (rstring \<times> rstring) list" where
  "op_writes (PutOp key v) = [(key, v)]"
| "op_writes (DeleteOp key) = [(key, [])]"
| "op_writes _ = []"

definition writes_of :: "(client_op \<times> client_result) list \<Rightarrow> (rstring \<times> rstring) list" where
  "writes_of h = concat (map (op_writes \<circ> fst) h)"

text \<open>
  All nodes start with empty stores. A client operation may see any connectivity, a different one at every connection. A node that
  handles no request may crash at any time and be started again.
\<close>

inductive cluster_run :: "(u64, socket_addr) bmap \<Rightarrow> world \<Rightarrow> (client_op \<times> client_result) list \<Rightarrow> bool" for conf where
  run_start: "conf_ok conf \<Longrightarrow> w_links w = [] \<Longrightarrow>
    (\<And>i a. (i, a) \<in> set conf \<Longrightarrow> \<exists>sv f. bind_server i (peers_of conf i) [] [] [] empty_dir None = (Inr sv, f) \<and> w_nodes w a = Some sv) \<Longrightarrow>
    cluster_run conf w []"
| run_op: "cluster_run conf w h \<Longrightarrow> op_utf8 op \<Longrightarrow> cc_nodes c = conf \<Longrightarrow> perform front c op w = (r, w') \<Longrightarrow> cluster_run conf w' (h @ [(op, r)])"
| run_network: "cluster_run conf w h \<Longrightarrow> cluster_run conf (w\<lparr>w_up := U, w_views := vs\<rparr>) h"
| run_restart: "cluster_run conf w h \<Longrightarrow> (i, a) \<in> set conf \<Longrightarrow> w_nodes w a = Some sv \<Longrightarrow> store_crash (sv_store sv) [] f d \<Longrightarrow>
    bind_server i (peers_of conf i) [] [] [] d (Some f) = (Inr sv', f') \<Longrightarrow> cluster_run conf (w\<lparr>w_nodes := (w_nodes w)(a \<mapsto> sv')\<rparr>) h"

text \<open>
  The specification: a map. An operation that returns has its effect, one that fails has it or not, at once; no operation panics.
\<close>

inductive map_step :: "client_op \<Rightarrow> client_result \<Rightarrow> (rstring \<rightharpoonup> rstring) \<Rightarrow> (rstring \<rightharpoonup> rstring) \<Rightarrow> bool" where
  put_done: "map_step (PutOp key v) Done m (m(key \<mapsto> v))"
| put_lost: "m' = m \<or> m' = m(key \<mapsto> v) \<Longrightarrow> map_step (PutOp key v) (Refusal (Failed e)) m m'"
| delete_done: "map_step (DeleteOp key) Done m (m(key := None))"
| delete_lost: "m' = m \<or> m' = m(key := None) \<Longrightarrow> map_step (DeleteOp key) (Refusal (Failed e)) m m'"
| get_done: "map_step (GetOp key) (Found (m key)) m m"
| get_failed: "map_step (GetOp key) (Refusal (Failed e)) m m"
| block_done: "r = Done \<or> r = Refusal (Failed e) \<Longrightarrow> map_step (BlockOp node peer) r m m"
| heal_done: "r = Done \<or> r = Refusal (Failed e) \<Longrightarrow> map_step (HealOp node) r m m"

inductive explained :: "(client_op \<times> client_result) list \<Rightarrow> (rstring \<rightharpoonup> rstring) \<Rightarrow> bool" where
  explained_nil: "explained [] Map.empty"
| explained_step: "explained h m \<Longrightarrow> map_step op r m m' \<Longrightarrow> explained (h @ [(op, r)]) m'"

section \<open>Every operation follows the map\<close>

lemma failure_cases: "e \<noteq> Panicked \<Longrightarrow> \<exists>x. e = Failed x"
  by (cases e) auto

lemma perform_put:
  assumes "result_of (\<lambda>_. Done) (client_put front c key v w) = (r, w')" and "cc_nodes c = conf" and h: "cluster_holds conf ws w m" and mem: "(key, v) \<in> set ws"
    and "utf8_valid key" "utf8_valid v"
  shows "\<exists>m'. map_step (PutOp key v) r m m' \<and> cluster_holds conf ws w' m'"
proof -
  obtain x w1 where x: "client_request front c (put_request key v) w = (x, w1)" by (cases "client_request front c (put_request key v) w")
  note ok = client_write_ok [OF x assms(2) h mem put_writes_as [OF assms(5,6)], unfolded write_map_def if_False simp_thms]
  show ?thesis
  proof (cases "r = Done")
    case True
    then obtain response where "x = Inr response" "starts_with response (ascii ''OK '')" "w' = w1"
      using assms(1) x by (auto simp: result_of_def client_put_def and_then_def split: sum.splits if_splits)
    with ok(3) True map_step.put_done show ?thesis by auto
  next
    case False
    then obtain e where "r = Refusal (Failed e)" "w' = w1"
      using assms(1) x ok(1) by (auto simp: result_of_def client_put_def and_then_def fail_with_def split: sum.splits if_splits dest!: failure_cases)
    with ok(2) show ?thesis by (blast intro: map_step.put_lost)
  qed
qed

lemma perform_delete:
  assumes "result_of (\<lambda>_. Done) (client_delete front c key w) = (r, w')" and "cc_nodes c = conf" and h: "cluster_holds conf ws w m" and mem: "(key, []) \<in> set ws"
    and "utf8_valid key"
  shows "\<exists>m'. map_step (DeleteOp key) r m m' \<and> cluster_holds conf ws w' m'"
proof -
  obtain x w1 where x: "client_request front c (delete_request key) w = (x, w1)" by (cases "client_request front c (delete_request key) w")
  note ok = client_write_ok [OF x assms(2) h mem delete_writes_as [OF assms(5)], unfolded write_map_def if_True simp_thms]
  show ?thesis
  proof (cases "r = Done")
    case True
    then obtain response where "x = Inr response" "starts_with response (ascii ''OK '')" "w' = w1"
      using assms(1) x by (auto simp: result_of_def client_delete_def and_then_def split: sum.splits if_splits)
    with ok(3) True map_step.delete_done show ?thesis by auto
  next
    case False
    then obtain e where "r = Refusal (Failed e)" "w' = w1"
      using assms(1) x ok(1) by (auto simp: result_of_def client_delete_def and_then_def fail_with_def split: sum.splits if_splits dest!: failure_cases)
    with ok(2) show ?thesis by (blast intro: map_step.delete_lost)
  qed
qed

lemma perform_follows:
  assumes "perform front c op w = (r, w')" and "cc_nodes c = conf" and "cluster_holds conf ws w m" and "op_utf8 op" and "set (op_writes op) \<subseteq> set ws"
  shows "\<exists>m'. map_step op r m m' \<and> cluster_holds conf ws w' m'"
proof (cases op)
  case (PutOp key v)
  with assms perform_put show ?thesis by (simp add: perform_def)
next
  case (DeleteOp key)
  with assms perform_delete show ?thesis by (simp add: perform_def)
next
  case (GetOp key)
  obtain x w1 where x: "client_get front c key w = (x, w1)" by (cases "client_get front c key w")
  note ok = client_get_ok [OF x assms(2,3)]
  show ?thesis
  proof (cases x)
    case (Inl e)
    with GetOp assms(1,4) x ok show ?thesis by (cases e) (auto simp: perform_def result_of_def intro: map_step.get_failed)
  next
    case (Inr found)
    with GetOp assms(1,4) x ok show ?thesis by (auto simp: perform_def result_of_def intro: map_step.get_done)
  qed
next
  case (BlockOp node peer)
  obtain x w1 where x: "client_block front c node peer w = (x, w1)" by (cases "client_block front c node peer w")
  have "\<exists>B. handle exchange (ascii ''ADMIN_BLOCK '' @ show_u64 peer) (sv, net) = (Inr (ascii ''OK''), (sv\<lparr>sv_blocked := B\<rparr>, net))" for sv net
    unfolding handle_block by (rule exI) (rule refl)
  note ok = admin_ok [OF x [unfolded client_block_def] assms(2,3) this]
  from BlockOp assms(1) x show ?thesis using ok
    by (auto simp: perform_def result_of_def split: sum.splits dest!: failure_cases intro!: exI [of _ m] map_step.block_done)
next
  case (HealOp node)
  obtain x w1 where x: "client_heal front c node w = (x, w1)" by (cases "client_heal front c node w")
  have "\<exists>B. handle exchange (ascii ''ADMIN_HEAL'') (sv, net) = (Inr (ascii ''OK''), (sv\<lparr>sv_blocked := B\<rparr>, net))" for sv net
    unfolding handle_heal by (rule exI) (rule refl)
  note ok = admin_ok [OF x [unfolded client_heal_def] assms(2,3) this]
  from HealOp assms(1) x show ?thesis using ok
    by (auto simp: perform_def result_of_def split: sum.splits dest!: failure_cases intro!: exI [of _ m] map_step.heal_done)
qed

lemma room_append [simp]: "room (ws @ ws') = room ws + room ws'"
  by (simp add: room_def)

lemma writes_of_simps [simp]: "writes_of [] = []" "writes_of (h @ [(op, r)]) = writes_of h @ op_writes op"
  by (simp_all add: writes_of_def)

lemma cluster_holds_append: "cluster_holds conf ws w m \<Longrightarrow> 5 + room (ws @ ws') \<le> MAX_FRAME \<Longrightarrow> cluster_holds conf (ws @ ws') w m"
  by (auto simp: cluster_holds_def from_writes_def) blast

lemma bind_fresh:
  assumes "bind_server i peers [] [] [] empty_dir None = (Inr sv, f)"
  shows "server_ok sv" and "recs sv = Map.empty" and "sv_id sv = i" and "sv_peers sv = peers"
proof -
  have sv: "sv = \<lparr>sv_id = i, sv_peers = peers, sv_blocked = {}, sv_store = Store_Durability.fresh_store\<rparr>"
    using assms by (simp add: bind_server_def and_then_def Store_Durability.fresh_store_open)
  have inv: "store_inv (sv_store sv) []" unfolding sv using fresh_store_inv [OF Store_Durability.fresh_store_open] by simp
  show "server_ok sv" "recs sv = Map.empty" using server_okI [OF inv, of Map.empty] by simp_all
  show "sv_id sv = i" "sv_peers sv = peers" by (simp_all add: sv)
qed

lemma bind_crashed:
  assumes "server_ok sv" and "store_crash (sv_store sv) [] f d" and "bind_server i peers [] [] [] d (Some f) = (Inr sv', f')"
  shows "server_ok sv'" and "recs sv' = recs sv" and "sv_id sv' = i" and "sv_peers sv' = peers"
proof -
  obtain m where m: "store_inv (sv_store sv) m" "\<And>key. bm_get m key = map_option encode_record (recs sv key)"
    "\<And>key r. recs sv key = Some r \<Longrightarrow> rec_sized key r" using assms(1) unfolding server_ok_def by blast
  obtain st opened where st: "store_open [] [] [] d (Some f) = (Inr st, opened)" "store_inv st m"
    using crash_recovers_store [OF m(1) assms(2)] by auto
  with assms(3) have sv': "sv' = \<lparr>sv_id = i, sv_peers = peers, sv_blocked = {}, sv_store = st\<rparr>" by (simp add: bind_server_def and_then_def)
  have "store_inv (sv_store sv') m" using st(2) by (simp add: sv')
  from server_okI [OF this m(2,3)] show "server_ok sv'" "recs sv' = recs sv" by simp_all
  show "sv_id sv' = i" "sv_peers sv' = peers" by (simp_all add: sv')
qed

lemma holds_start:
  assumes "conf_ok conf" and "w_links w = []"
    and "\<And>i a. (i, a) \<in> set conf \<Longrightarrow> \<exists>sv f. bind_server i (peers_of conf i) [] [] [] empty_dir None = (Inr sv, f) \<and> w_nodes w a = Some sv"
  shows "cluster_holds conf [] w Map.empty"
proof -
  have node: "\<exists>sv. w_nodes w a = Some sv \<and> member_ok conf Map.empty i sv \<and> recs sv = Map.empty" if ia: "(i, a) \<in> set conf" for i a
  proof -
    obtain sv f where sv: "bind_server i (peers_of conf i) [] [] [] empty_dir None = (Inr sv, f)" "w_nodes w a = Some sv" using assms(3) [OF ia] by blast
    with bind_fresh [OF sv(1)] show ?thesis by (simp add: member_ok_def bounded_by_def)
  qed
  have "cluster_inv conf w Map.empty" using assms(1,2) node by (fastforce simp: cluster_inv_def)
  moreover have "from_writes conf [] w"
  proof (rule from_writesI)
    fix i a sv key r assume "(i, a) \<in> set conf" "w_nodes w a = Some sv" "recs sv key = Some r"
    with node [of i a] show "(key, rep_value r) \<in> set []" by auto
  qed
  moreover have "live_values Map.empty = Map.empty" by (simp add: live_values_def fun_eq_iff)
  ultimately show ?thesis by (auto simp: cluster_holds_def room_def MAX_FRAME_def)
qed

lemma holds_restart:
  assumes h: "cluster_holds conf ws w m" and node: "(i, a) \<in> set conf" "w_nodes w a = Some sv" and c: "store_crash (sv_store sv) [] f d"
    and b: "bind_server i (peers_of conf i) [] [] [] d (Some f) = (Inr sv', f')"
  shows "cluster_holds conf ws (w\<lparr>w_nodes := (w_nodes w)(a \<mapsto> sv')\<rparr>) m"
proof -
  obtain T where T: "cluster_inv conf w T" "from_writes conf ws w" "live_values T = m" and small: "5 + room ws \<le> MAX_FRAME"
    using h unfolding cluster_holds_def by blast
  have conf: "distinct (map snd conf)" using T(1) by (simp add: cluster_inv_def conf_ok_def)
  have sv: "member_ok conf T i sv" using cluster_member [OF T(1) node(1)] node(2) by force
  then have "server_ok sv" by (simp add: member_ok_def)
  note sv' = bind_crashed [OF this c b]
  have ok: "member_ok conf T i sv'" using sv sv' by (simp add: member_ok_def)
  let ?w = "w\<lparr>w_nodes := (w_nodes w)(a \<mapsto> sv')\<rparr>"
  have "cluster_inv conf ?w T"
  proof (rule cluster_inv_mono [OF T(1)])
    fix j b' p assume "(j, b') \<in> set conf" "w_nodes w b' = Some p" "member_ok conf T j p"
    then show "\<exists>q. w_nodes ?w b' = Some q \<and> member_ok conf T j q \<and> (\<forall>key t. T key = Some t \<longrightarrow> recs p key = Some t \<longrightarrow> recs q key = Some t)"
      using conf_addressed [OF conf node(1), of j] ok node(2) sv'(2) by (cases "b' = a") auto
  qed (use T(1) in \<open>simp add: cluster_inv_def\<close>)
  moreover have "from_writes conf ws ?w"
  proof (rule from_writesI)
    fix j b' q key t assume "(j, b') \<in> set conf" "w_nodes ?w b' = Some q" "recs q key = Some t"
    then show "(key, rep_value t) \<in> set ws" using from_writesD [OF T(2)] node(2) sv'(2) by (cases "b' = a") auto
  qed
  ultimately show ?thesis using small T(3) by (auto simp: cluster_holds_def)
qed

lemma holds_network: "cluster_holds conf ws (w\<lparr>w_up := U, w_views := vs\<rparr>) m = cluster_holds conf ws w m"
  by (rule same_nodes_holds) (simp add: same_nodes_def)

lemma run_follows:
  assumes "cluster_run conf w h" and "5 + room (writes_of h) \<le> MAX_FRAME"
  shows "\<exists>m. explained h m \<and> cluster_holds conf (writes_of h) w m"
  using assms
proof (induction rule: cluster_run.induct)
  case (run_start w)
  then show ?case using holds_start explained_nil by (metis writes_of_simps(1))
next
  case (run_op w h op c r w')
  then obtain m where m: "explained h m" "cluster_holds conf (writes_of h) w m" by auto
  have "cluster_holds conf (writes_of h @ op_writes op) w m" using cluster_holds_append [OF m(2)] run_op.prems by simp
  from perform_follows [OF run_op.hyps(4,3) this run_op.hyps(2)] obtain m' where "map_step op r m m'" "cluster_holds conf (writes_of h @ op_writes op) w' m'" by auto
  with m(1) show ?case by (auto intro: explained_step)
next
  case run_network
  then show ?case by (simp add: holds_network)
next
  case (run_restart w h i a sv f d sv' f')
  then show ?case using holds_restart by blast
qed

end
