(* ===== verification/Client_Healthy.thy ===== *)
theory Client_Healthy
  imports Client_Runs
begin

text \<open>
  A cluster whose first node reaches a majority answers its clients: the first request of the first attempt succeeds.
\<close>

lemma front_delivered:
  assumes "w_views w = []" and "w_nodes w a = Some sv" and "length request \<le> MAX_FRAME"
    and "handle exchange request (sv, seen w a (w_up w)) = (Inr response, (sv', w'))" and "utf8_valid response" and "length response \<le> MAX_FRAME"
  shows "request_peer front a request w = (Inr response, returned w' a sv')"
proof -
  have "w\<lparr>w_nodes := (w_nodes w)(a := None)\<rparr> = seen w a (w_up w)" by (cases w) (simp add: seen_def)
  with assms show ?thesis
    by (simp add: request_peer_def write_frame_ok front_def next_view_def serve_request answer_Inr read_written returned_def)
qed

definition healthy :: "(u64, socket_addr) bmap \<Rightarrow> world \<Rightarrow> bool" where
  "healthy conf w \<longleftrightarrow> w_views w = [] \<and> conf \<noteq> [] \<and> (case hd conf of (i, a) \<Rightarrow> case w_nodes w a of
     None \<Rightarrow> False | Some sv \<Rightarrow> length conf < 2 * (length (reached conf i (sv_blocked sv) (w_up w)) + 1))"

lemma healthyE:
  assumes "healthy conf w"
  obtains i a sv where "conf = (i, a) # tl conf" and "(i, a) \<in> set conf" and "w_views w = []" and "w_nodes w a = Some sv"
    and "length conf < 2 * (length (reached conf i (sv_blocked sv) (w_up w)) + 1)"
proof -
  obtain i a where ia: "hd conf = (i, a)" by (cases "hd conf")
  with assms have "conf = (i, a) # tl conf" by (metis healthy_def list.collapse)
  moreover then have "(i, a) \<in> set conf" by (metis list.set_intros(1))
  ultimately show ?thesis using assms that ia by (auto simp: healthy_def split: option.splits)
qed

lemma first_leads:
  assumes inv: "cluster_inv conf w T" and conf: "conf = (i, a) # rest" and sv: "w_nodes w a = Some sv" and fit: "dumps_fit conf w"
    and L: "L = reached conf i (sv_blocked sv) U" "length conf < 2 * (length L + 1)"
  obtains sv' where "as_leader exchange act (sv, seen w a U) = act L (sv', seen w a U)" and "member_ok conf T i sv'" and "same_node sv sv'" and "recs sv' = T"
proof (rule as_leader_cases [OF inv _ sv fit L(1), of act])
  show "(i, a) \<in> set conf" by (simp add: conf)
  fix leader assume "leader \<in> fst ` set conf" "leader < i"
  moreover have "bm_inv conf" using inv by (simp add: cluster_inv_def conf_ok_def)
  ultimately show thesis unfolding conf bm_inv_Cons by auto
qed (use L(2) that in auto)

lemma first_answers:
  assumes "cc_nodes c = (i, a) # rest" and "0 < cc_attempts c" and "request_peer wire a request net = (Inr response, net')"
    and "\<not> starts_with response (ascii ''RETRY '')" and "\<not> starts_with response (ascii ''REDIRECT '')"
  shows "client_request wire c request net = (Inr response, net')"
  using assms by (cases "cc_attempts c") (simp_all add: client_request_def pass_order_def strip_prefix_def and_then_def)

lemma utf8_replies: "utf8_valid (reply_of r)" "utf8_valid (ascii ''OK '' @ show_u64 version)"
proof -
  have "b < 0x80" if "b \<in> set (cluster_hex v)" for b v using that plain_hex plain_not(2) by (auto simp: plain_text_def list_all_iff)
  moreover have "b < 0x80" if "b \<in> set (show_u64 version)" for b using that plain_u64(1) plain_not(2) by (auto simp: plain_text_def list_all_iff)
  ultimately show "utf8_valid (reply_of r)" "utf8_valid (ascii ''OK '' @ show_u64 version)"
    by (auto intro!: utf8_valid_ascii simp: reply_of_def ascii_def split: option.split)
qed

lemma healthy_get:
  assumes h: "cluster_holds conf ws w m" and healthy: "healthy conf w" and key: "key \<noteq> []" "utf8_valid key" "4 + 2 * length key \<le> MAX_FRAME"
    and c: "cc_nodes c = conf" "0 < cc_attempts c"
  obtains w' where "client_get front c key w = (Inr (m key), w')"
proof -
  obtain T where T: "cluster_inv conf w T" "from_writes conf ws w" "live_values T = m" and small: "5 + room ws \<le> MAX_FRAME"
    using h unfolding cluster_holds_def by blast
  obtain i a sv where n: "conf = (i, a) # tl conf" "(i, a) \<in> set conf" "w_views w = []" "w_nodes w a = Some sv"
    "length conf < 2 * (length (reached conf i (sv_blocked sv) (w_up w)) + 1)" using healthyE [OF healthy] .
  let ?act = "\<lambda>alive (sv, net). (rbind (read_record sv key) (\<lambda>found. case found of
       Some r \<Rightarrow> if rep_committed r \<and> \<not> rep_tombstone r then Inr (ascii ''VALUE '' @ cluster_hex (rep_value r)) else Inr (ascii ''NIL'')
     | None \<Rightarrow> Inr (ascii ''NIL'')), (sv, net))"
  obtain sv' where sv': "as_leader exchange ?act (sv, seen w a (w_up w)) = ?act (reached conf i (sv_blocked sv) (w_up w)) (sv', seen w a (w_up w))"
    "member_ok conf T i sv'" "same_node sv sv'" "recs sv' = T"
    by (rule first_leads [OF T(1) n(1,4) dumps_fit_room [OF T(1,2) small] refl n(5)])
  have "read_record sv' key = Inr (T key)" using sv'(2,4) read_record_ok by (simp add: member_ok_def)
  then have "client_read exchange key (sv, seen w a (w_up w)) = (Inr (read_reply (T key)), (sv', seen w a (w_up w)))"
    unfolding client_read_def sv'(1) by (auto simp: read_reply_def split: option.split)
  moreover have "read_reply (T key) = reply_of (m key)" using read_reply_live [of T key] newest_committed [OF T(1)] T(3) by blast
  ultimately have hd: "handle exchange (get_request key) (sv, seen w a (w_up w)) = (Inr (reply_of (m key)), (sv', seen w a (w_up w)))"
    using key(1) by (simp add: handle_get [OF key(2)])
  have "length (reply_of (m key)) \<le> MAX_FRAME"
  proof (cases "m key")
    case (Some v)
    then have "(key, v) \<in> set ws" using newest_from_writes [OF T(1,2), of key] T(3) by (auto simp: live_values_def split: option.splits if_splits)
    then have "row_size (key, v) \<le> room ws" unfolding room_def by (intro member_le_sum_list) auto
    with Some small show ?thesis by (simp add: reply_of_def row_size_def cluster_hex_eq ascii_def)
  qed (simp add: reply_of_def ascii_def MAX_FRAME_def)
  moreover have "length (get_request key) \<le> MAX_FRAME" using key(3) by (simp add: get_request_def client_hex_eq ascii_def)
  ultimately have "request_peer front a (get_request key) w = (Inr (reply_of (m key)), returned (seen w a (w_up w)) a sv')"
    using front_delivered [OF n(3,4) _ hd utf8_replies(1)] by blast
  from first_answers [OF _ c(2) this] c(1) n(1) not_prefixed(1)
  have req: "client_request front c (get_request key) w = (Inr (reply_of (m key)), returned (seen w a (w_up w)) a sv')" unfolding prefixed by metis
  obtain r w' where r: "client_get front c key w = (r, w')" by (cases "client_get front c key w")
  have "\<exists>found. r = Inr found"
  proof (cases "m key")
    case (Some v)
    then have "utf8_valid v" using newest_committed(2) [OF T(1), of key] T(3) by (auto simp: live_values_def split: option.splits if_splits)
    moreover have "ascii ''VALUE '' @ s \<noteq> ascii ''NIL''" for s by (simp add: ascii_def)
    ultimately show ?thesis using req r Some by (auto simp: client_get_def and_then_def reply_of_def client_unhex_string_hex)
  qed (use req r in \<open>auto simp: client_get_def and_then_def reply_of_def\<close>)
  with client_get_ok(3) [OF r c(1) h key(2)] r that show ?thesis by auto
qed

lemma checked_succ_total:
  assumes "a \<noteq> (-1 :: u64)"
  shows "\<exists>b. checked_add_u64 a 1 = Some b"
proof -
  have "unat a \<noteq> unat (-1 :: u64)" using assms by (simp only: unsigned_word_eqI not_False_eq_True word_eq_iff_unsigned [where ?'a = nat])
  moreover have "unat (-1 :: u64) = 2 ^ 64 - 1" by (simp add: unsigned_minus_1_eq_mask mask_eq_exp_minus_1)
  moreover have "unat a < 2 ^ 64" using unsigned_less [of a, where ?'a = nat] by simp
  ultimately show ?thesis by (simp add: checked_add_u64_def)
qed

lemma healthy_put:
  assumes h: "cluster_holds conf ws w m" and healthy: "healthy conf w" and key: "key \<noteq> []" "utf8_valid key" "v \<noteq> []" "utf8_valid v" and mem: "(key, v) \<in> set ws"
    and fresh: "\<And>j b p r. (j, b) \<in> set conf \<Longrightarrow> w_nodes w b = Some p \<Longrightarrow> recs p key = Some r \<Longrightarrow> rep_version r \<noteq> -1"
    and c: "cc_nodes c = conf" "0 < cc_attempts c"
  obtains w' where "client_put front c key v w = (Inr (), w')" and "cluster_holds conf ws w' (m(key \<mapsto> v))" and "healthy conf w'"
proof -
  obtain T where T: "cluster_inv conf w T" "from_writes conf ws w" "live_values T = m" and small: "5 + room ws \<le> MAX_FRAME"
    using h unfolding cluster_holds_def by blast
  obtain i a sv where n: "conf = (i, a) # tl conf" "(i, a) \<in> set conf" "w_views w = []" "w_nodes w a = Some sv"
    "length conf < 2 * (length (reached conf i (sv_blocked sv) (w_up w)) + 1)" using healthyE [OF healthy] .
  let ?L = "reached conf i (sv_blocked sv) (w_up w)"
  obtain sv' where sv': "as_leader exchange (write_act key v False) (sv, seen w a (w_up w)) = write_act key v False ?L (sv', seen w a (w_up w))"
    "member_ok conf T i sv'" "same_node sv sv'" "recs sv' = T"
    by (rule first_leads [OF T(1) n(1,4) dumps_fit_room [OF T(1,2) small] refl n(5)])
  have "newest_version T key \<noteq> -1"
    using newest_holder [OF T(1), of key] fresh by (auto simp: newest_version_def split: option.splits) (metis+)
  from checked_succ_total [OF this] obtain version where version: "checked_add_u64 (newest_version T key) 1 = Some version" by blast
  have "row_size (key, v) \<le> room ws" unfolding room_def using mem by (intro member_le_sum_list) auto
  then have size: "2 * length key + 2 * length v + 32 \<le> MAX_FRAME" using small by (simp add: row_size_def)
  let ?r = "staged_value version False v"
  have fits: "length (repl_request key ?r) \<le> MAX_FRAME"
    using size length_show_u64 [of version] by (simp add: repl_request_def staged_value_def bit_text_def ascii_def cluster_hex_eq)
  have len: "length key + length v \<le> MAX_FRAME" using size by simp
  let ?w = "change_nodes (after (commit_request key version) \<circ> after (repl_request key ?r)) (peer_addrs sv' ?L) (seen w a (w_up w))"
  obtain sv1 where sv1: "write_act key v False ?L (sv', seen w a (w_up w)) = (Inr (ascii ''OK '' @ show_u64 version), (sv1, ?w))"
    "written key (?r\<lparr>rep_committed := True\<rparr>) sv' sv1"
    by (rule write_act_acknowledges [OF T(1) n(2) sv'(2,4) refl n(5) version key(1,2,4) len refl]) (use key(3) fits in auto)
  have hd: "handle exchange (put_request key v) (sv, seen w a (w_up w)) = (Inr (ascii ''OK '' @ show_u64 version), (sv1, ?w))"
    using key sv'(1) sv1(1) by (simp add: handle_put client_write_act)
  have "length (ascii ''OK '' @ show_u64 version) \<le> MAX_FRAME" using length_show_u64 [of version] by (simp add: ascii_def MAX_FRAME_def)
  moreover have "length (put_request key v) \<le> MAX_FRAME" using size by (simp add: put_request_def client_hex_eq ascii_def)
  ultimately have req: "request_peer front a (put_request key v) w = (Inr (ascii ''OK '' @ show_u64 version), returned ?w a sv1)"
    using front_delivered [OF n(3,4) _ hd utf8_replies(2)] by blast
  have "client_request front c (put_request key v) w = (Inr (ascii ''OK '' @ show_u64 version), returned ?w a sv1)"
    by (rule first_answers [OF _ c(2) req]) (use c(1) n(1) in \<open>auto simp: starts_with_def ascii_def\<close>)
  then have put: "client_put front c key v w = (Inr (), returned ?w a sv1)" by (simp add: client_put_def and_then_def)
  have "cluster_holds conf ws (returned ?w a sv1) (write_map key v False m)"
    by (rule write_connection(2) [OF h mem put_writes_as [OF key(2,4)] n(2) req refl])
  then have "cluster_holds conf ws (returned ?w a sv1) (m(key \<mapsto> v))" by (simp add: write_map_def)
  moreover have "healthy conf (returned ?w a sv1)"
  proof -
    have "sv_blocked sv1 = sv_blocked sv" using sv'(3) sv1(2) same_nodeD by (metis written_def)
    moreover have "hd conf = (i, a)" "conf \<noteq> []" using n(1) by (metis list.sel(1), metis list.distinct(1))
    ultimately show ?thesis using n(3,5) by (simp add: healthy_def returned_def seen_def change_nodes_def)
  qed
  ultimately show ?thesis using that put by blast
qed

end
