(* ===== verification/Cluster_Divergence.thy ===== *)
theory Cluster_Divergence
  imports Client_Healthy Linearizability
begin

text \<open>
  A run of three nodes in which one reply between nodes is lost. It shows what happens outside the assumption that connections do not
  change during a request.
\<close>

section \<open>Requests over faulty connections\<close>

lemma request_peer_linked:
  assumes "next_link w = (l, w1)" and "l \<noteq> Refused" and "a \<in> w_up w" and "w_nodes w a = Some sv" and "length request \<le> MAX_FRAME"
    and "handle dead_wire request (sv, ()) = (Inr response, (sv', ()))" and "utf8_valid response" and "length response \<le> MAX_FRAME"
  shows "request_peer exchange a request w = (if l = ReplyLost then Inl timed_out else Inr response, w1\<lparr>w_nodes := (w_nodes w1)(a \<mapsto> sv')\<rparr>)"
  using assms by (simp add: request_peer_def write_frame_ok exchange_def serve_request answer_Inr read_written)

lemma next_link_Cons [simp]: "w_links w = [] \<Longrightarrow> next_link w = (Delivered, w)" "w_links w = l # ls \<Longrightarrow> next_link w = (l, w\<lparr>w_links := ls\<rparr>)"
  by (simp_all add: next_link_def)

lemma ping_linked:
  assumes "next_link w = (Delivered, w1)" and "a \<in> w_up w" and "w_nodes w a = Some sv"
  shows "request_peer exchange a (ascii ''PING'') w = (Inr (ascii ''PONG '' @ show_u64 (sv_id sv)), w1)"
proof -
  have "w_nodes w1 = w_nodes w" using assms(1) by (auto simp: next_link_def split: list.splits)
  moreover have "length (ascii ''PING'') \<le> MAX_FRAME" by (simp add: ascii_def MAX_FRAME_def)
  moreover have "utf8_valid (ascii ''PONG '' @ show_u64 (sv_id sv))"
    using plain_u64(1) plain_not(2) by (auto intro!: utf8_valid_ascii simp: ascii_def plain_text_def list_all_iff)
  ultimately show ?thesis
    using request_peer_linked [OF assms(1) _ assms(2,3) _ handle_ping _ show_frame] assms(3) by (simp add: fun_upd_idem)
qed

lemma dump_empty:
  assumes "server_ok p" and "committed_recs p = Map.empty"
  shows "dump p = Inr []"
proof (rule dump_ok [OF assms(1)])
  fix out rows assume "dump p = Inr out" "map_of rows = committed_recs p" "out = str_join [0x3B] (map (\<lambda>(key, r). dump_row key r) rows)"
  with assms(2) show ?thesis by simp
qed

lemma catch_up_empty:
  assumes "next_link w = (Delivered, w1)" and "peer_at sv w j a p" and "server_ok p" and "committed_recs p = Map.empty"
  shows "catch_up exchange [j] (sv, w) = (Inr (), (sv, w1))"
proof -
  have "w_nodes w1 = w_nodes w" using assms(1) by (auto simp: next_link_def split: list.splits)
  moreover have "handle dead_wire (ascii ''DUMP'') (p, ()) = (Inr (ascii ''DUMP '' @ []), (p, ()))"
    using dump_empty [OF assms(3,4)] by (simp add: handle_dump)
  moreover have "utf8_valid (ascii ''DUMP '' @ [])" "length (ascii ''DUMP '' @ []) \<le> MAX_FRAME" "length (ascii ''DUMP'') \<le> MAX_FRAME"
    by (auto intro!: utf8_valid_ascii simp: ascii_def MAX_FRAME_def)
  ultimately have "request_peer exchange a (ascii ''DUMP'') w = (Inr (ascii ''DUMP '' @ []), w1)"
    using request_peer_linked [OF assms(1), of a p "ascii ''DUMP''" "ascii ''DUMP '' @ []" p] assms(2) by (simp add: peer_at_def fun_upd_idem)
  with assms(2) show ?thesis using strip_prefix_append [of "ascii ''DUMP ''" "[]"]
    by (simp add: and_then_def ask_def peer_at_def decode_dump_def on_server_def)
qed

text \<open>Records that are not newer change nothing.\<close>

lemma merge_all_old: "(\<And>key r. (key, r) \<in> set rows \<Longrightarrow> \<not> replaces r (recs sv key)) \<Longrightarrow> server_ok sv \<Longrightarrow> merge_all rows sv = (Inr (), sv)"
  by (induction rows) (auto simp: and_then_def merge_def read_record_ok)

lemma catch_up_old:
  assumes "w_links w = []" and "server_ok sv" and "\<And>j. j \<in> set L \<Longrightarrow> \<exists>a p. peer_at sv w j a p \<and> server_ok p \<and> dump_fits p
      \<and> (\<forall>key r. committed_recs p key = Some r \<longrightarrow> \<not> replaces r (recs sv key))"
  shows "catch_up exchange L (sv, w) = (Inr (), (sv, w))"
  using assms(3)
proof (induction L)
  case (Cons j L)
  obtain a p where p: "peer_at sv w j a p" "server_ok p" "dump_fits p" "\<forall>key r. committed_recs p key = Some r \<longrightarrow> \<not> replaces r (recs sv key)"
    using Cons.prems [of j] by auto
  show ?case
  proof (rule ask_dump [OF assms(1) p(1-3)])
    fix out rows assume d: "ask exchange j (ascii ''DUMP'') (sv, w) = (Inr (Inr (ascii ''DUMP '' @ out)), (sv, w))" "decode_dump out = Inr rows"
      "map_of rows = committed_recs p" "distinct (map fst rows)"
    have "\<not> replaces r (recs sv key)" if "(key, r) \<in> set rows" for key r using map_of_is_SomeI [OF d(4) that] p(4) d(3) by simp
    from merge_all_old [OF this assms(2)] have "merge_all rows sv = (Inr (), sv)" .
    with Cons d(1,2) show ?thesis by (simp add: and_then_def on_server_def)
  qed
qed simp

section \<open>Three nodes\<close>

definition conf3 :: "(u64, socket_addr) bmap" where
  "conf3 = [(1, 1), (2, 2), (3, 3)]"

definition node0 :: "u64 \<Rightarrow> server" where
  "node0 i = \<lparr>sv_id = i, sv_peers = peers_of conf3 i, sv_blocked = {}, sv_store = Store_Durability.fresh_store\<rparr>"

definition world3 :: "server \<Rightarrow> server \<Rightarrow> server \<Rightarrow> socket_addr set \<Rightarrow> link list \<Rightarrow> world" where
  "world3 n1 n2 n3 U ls = \<lparr>w_nodes = [1 \<mapsto> n1, 2 \<mapsto> n2, 3 \<mapsto> n3], w_up = U, w_links = ls, w_views = []\<rparr>"

lemma world3_simps [simp]:
  "w_up (world3 n1 n2 n3 U ls) = U" "w_links (world3 n1 n2 n3 U ls) = ls" "w_views (world3 n1 n2 n3 U ls) = []"
  "w_nodes (world3 n1 n2 n3 U ls) = [1 \<mapsto> n1, 2 \<mapsto> n2, 3 \<mapsto> n3]"
  "(world3 n1 n2 n3 U ls)\<lparr>w_up := U'\<rparr> = world3 n1 n2 n3 U' ls" "(world3 n1 n2 n3 U ls)\<lparr>w_links := ls'\<rparr> = world3 n1 n2 n3 U ls'"
  by (simp_all add: world3_def)

lemma peers3: "peers_of conf3 1 = [(2, 2), (3, 3)]" "peers_of conf3 2 = [(1, 1), (3, 3)]" "peers_of conf3 3 = [(1, 1), (2, 2)]"
  by (simp_all add: peers_of_def conf3_def)

lemma node0_ok: "server_ok (node0 i)" "recs (node0 i) = Map.empty"
  using bind_fresh [of i "peers_of conf3 i" "node0 i"]
  by (simp_all add: bind_server_def and_then_def Store_Durability.fresh_store_open node0_def)

text \<open>Two values for one key at the same version.\<close>

definition staged_rec :: "u8 \<Rightarrow> replica_value" where
  "staged_rec b = staged_value 1 False [b]"

abbreviation the_key :: rstring where
  "the_key \<equiv> [0x6B]"

lemma staged_rec_ok: "b < 0x80 \<Longrightarrow> rec_sized the_key (staged_rec b)" "rep_version (staged_rec b) = 1" "\<not> rep_committed (staged_rec b)"
  "rep_value (staged_rec b) = [b]" "\<not> rep_tombstone (staged_rec b)"
  by (auto intro!: utf8_valid_ascii simp: staged_rec_def staged_value_def rec_sized_def rep_ok_def MAX_FRAME_def)

text \<open>A node that holds at most one record of the key, staged or committed.\<close>

definition node_with :: "u64 \<Rightarrow> replica_value option \<Rightarrow> server \<Rightarrow> bool" where
  "node_with i r sv \<longleftrightarrow> server_ok sv \<and> same_node (node0 i) sv \<and> recs sv = Map.empty(the_key := r)"

lemma node_with0: "node_with i None (node0 i)"
  by (simp add: node_with_def node0_ok fun_eq_iff)

lemma node_with_id: "node_with i r sv \<Longrightarrow> sv_id sv = i \<and> sv_peers sv = peers_of conf3 i \<and> sv_blocked sv = {}"
  by (auto simp: node_with_def node0_def dest: same_nodeD)

lemma stage_first:
  assumes "node_with i None p" and "b < 0x80"
  obtains p' where "handle dead_wire (repl_request the_key (staged_rec b)) (p, ()) = (Inr (ascii ''OK''), (p', ()))" and "node_with i (Some (staged_rec b)) p'"
proof -
  have p: "server_ok p" "same_node (node0 i) p" "recs p = Map.empty" using assms(1) by (simp_all add: node_with_def)
  have uncommitted: "staged_rec b\<lparr>rep_committed := False\<rparr> = staged_rec b" by (simp add: staged_rec_def staged_value_def)
  obtain p' where "\<And>net. handle dead_wire (repl_request the_key (staged_rec b)) (p, net) = (Inr (ascii ''OK''), (p', net))" "server_ok p'"
    "recs p' = merged the_key (staged_rec b) (recs p)" "same_node p p'"
    by (rule repl_ok [OF p(1) staged_rec_ok(1) [OF assms(2)], where wire = dead_wire]) (simp_all add: staged_rec_ok uncommitted)
  with p that same_node_trans [OF p(2)] show ?thesis by (simp add: node_with_def merged_def replaces_def)
qed

lemma stage_second:
  assumes "node_with i (Some (staged_rec b)) p" and "c < 0x80"
  obtains p' where "handle dead_wire (repl_request the_key (staged_rec c)) (p, ()) = (Inr (ascii ''OK''), (p', ()))" and "node_with i (Some (staged_rec b)) p'"
proof -
  have p: "server_ok p" "same_node (node0 i) p" "recs p = [the_key \<mapsto> staged_rec b]" using assms(1) by (simp_all add: node_with_def)
  obtain p' where "\<And>net. handle dead_wire (repl_request the_key (staged_rec c)) (p, net) = (Inr (ascii ''OK''), (p', net))" "server_ok p'"
    "recs p' = merged the_key (staged_rec c\<lparr>rep_committed := False\<rparr>) (recs p)" "same_node p p'"
    by (rule repl_ok [OF p(1) staged_rec_ok(1) [OF assms(2)], where wire = dead_wire]) (simp_all add: staged_rec_ok)
  moreover have "\<not> replaces (staged_rec c\<lparr>rep_committed := False\<rparr>) (Some (staged_rec b))" by (simp add: replaces_def staged_rec_ok)
  ultimately show ?thesis using p that same_node_trans [OF p(2)] by (simp add: node_with_def merged_def)
qed

lemma commit_staged:
  assumes "node_with i (Some (staged_rec b)) p"
  obtains p' where "handle dead_wire (commit_request the_key 1) (p, ()) = (Inr (ascii ''OK''), (p', ()))"
    and "node_with i (Some (staged_rec b\<lparr>rep_committed := True\<rparr>)) p'"
proof -
  have p: "server_ok p" "same_node (node0 i) p" "recs p = [the_key \<mapsto> staged_rec b]" using assms(1) by (simp_all add: node_with_def)
  have key: "utf8_valid the_key" "the_key \<noteq> []" by (auto intro!: utf8_valid_ascii)
  obtain p' where p': "\<And>net. handle dead_wire (commit_request the_key 1) (p, net) = (Inr (ascii ''OK''), (p', net))" "server_ok p'"
    "recs p' = (case recs p the_key of Some r \<Rightarrow> if rep_version r = 1 then (recs p)(the_key \<mapsto> r\<lparr>rep_committed := True\<rparr>) else recs p | None \<Rightarrow> recs p)"
    "same_node p p'" by (rule commit_ok [OF p(1) key, where wire = dead_wire and version = 1]) simp
  then have "node_with i (Some (staged_rec b\<lparr>rep_committed := True\<rparr>)) p'"
    using p same_node_trans [OF p(2)] by (simp add: node_with_def staged_rec_ok)
  with that p'(1) show ?thesis by blast
qed

section \<open>The requests\<close>

lemma next_link_same: "next_link w = (l, w1) \<Longrightarrow> w_up w1 = w_up w \<and> w_nodes w1 = w_nodes w"
  by (auto simp: next_link_def split: list.splits)

lemma uncommitted_empty: "node_with i r sv \<Longrightarrow> (\<And>x. r = Some x \<Longrightarrow> \<not> rep_committed x) \<Longrightarrow> committed_recs sv = Map.empty"
  by (auto simp: node_with_def committed_recs_def fun_eq_iff split: option.split if_splits)

lemma lead_12:
  assumes n1: "node_with 1 r1 n1" and n2: "node_with 2 r2 n2" "\<And>x. r2 = Some x \<Longrightarrow> \<not> rep_committed x"
    and w: "w_up w = {1, 2}" "w_nodes w 2 = Some n2" and links: "next_link w = (Delivered, w1)" "next_link w1 = (Delivered, w2)"
  shows "as_leader exchange act (n1, w) = act [2] (n1, w2)"
proof -
  have same: "w_up w1 = {1, 2}" "w_nodes w1 2 = Some n2" using next_link_same [OF links(1)] w by simp_all
  have ids: "sv_id n1 = 1" "sv_peers n1 = [(2, 2), (3, 3)]" "sv_blocked n1 = {}" "sv_id n2 = 2"
    using node_with_id [OF n1] node_with_id [OF n2(1)] peers3 by simp_all
  have "request_peer exchange 2 (ascii ''PING'') w = (Inr (ascii ''PONG '' @ show_u64 2), w1)"
    using ping_linked [OF links(1) _ w(2)] w(1) ids(4) by simp
  then have alive: "alive_peers exchange (n1, w) = (Inr [2], (n1, w1))"
    using request_peer_unreachable [of 3 w1] same(1) by (simp add: alive_peers_def ids)
  have "peer_at n1 w1 2 2 n2" using same by (simp add: peer_at_def ids)
  moreover have "server_ok n2" using n2(1) by (simp add: node_with_def)
  ultimately have "catch_up exchange [2] (n1, w1) = (Inr (), (n1, w2))"
    by (rule catch_up_empty [OF links(2) _ _ uncommitted_empty [OF n2]])
  then show ?thesis using alive by (simp add: as_leader_def and_then_def ids)
qed

lemma first_version: "node_with i None sv \<Longrightarrow> next_version the_key sv = Inr 1"
  by (simp add: node_with_def next_version_def read_record_ok checked_add_u64_def)

lemma repl_size: "length (repl_request the_key (staged_rec b)) \<le> MAX_FRAME" "length (commit_request the_key 1) \<le> MAX_FRAME"
  using length_show_u64 [of 1] by (simp_all add: repl_request_def commit_request_def staged_rec_ok bit_text_def ascii_def cluster_hex_eq MAX_FRAME_def)

lemma ok_reply: "utf8_valid (ascii ''OK'')" "length (ascii ''OK'') \<le> MAX_FRAME"
  by (auto intro!: utf8_valid_ascii simp: ascii_def MAX_FRAME_def)

lemma client_sizes:
  "length (put_request the_key [b]) \<le> MAX_FRAME" "length (get_request the_key) \<le> MAX_FRAME" "utf8_valid (ascii ''RETRY indeterminate'')"
  "length (ascii ''RETRY indeterminate'') \<le> MAX_FRAME" "length (ascii ''OK '' @ show_u64 1) \<le> MAX_FRAME" "length (reply_of (Some [b])) \<le> MAX_FRAME"
  using length_show_u64 [of 1]
  by (auto intro!: utf8_valid_ascii simp: put_request_def get_request_def reply_of_def client_hex_eq cluster_hex_eq ascii_def MAX_FRAME_def)

text \<open>The reply of node 2 to the first write is lost.\<close>

lemma first_put:
  assumes n: "node_with 1 None n1" "node_with 2 None n2"
  obtains p2 where "request_peer front 1 (put_request the_key [0x41]) (world3 n1 n2 n3 {1, 2} [Delivered, Delivered, ReplyLost])
      = (Inr (ascii ''RETRY indeterminate''), world3 n1 p2 n3 {1, 2} [])" and "node_with 2 (Some (staged_rec 0x41)) p2"
proof -
  let ?w = "seen (world3 n1 n2 n3 {1, 2} [Delivered, Delivered, ReplyLost]) 1 {1, 2}"
  let ?w2 = "?w\<lparr>w_links := [ReplyLost]\<rparr>"
  have w: "w_up ?w = {1, 2}" "w_nodes ?w 2 = Some n2" "next_link ?w = (Delivered, ?w\<lparr>w_links := [Delivered, ReplyLost]\<rparr>)"
    "next_link (?w\<lparr>w_links := [Delivered, ReplyLost]\<rparr>) = (Delivered, ?w2)" "next_link ?w2 = (ReplyLost, ?w\<lparr>w_links := []\<rparr>)"
    by (simp_all add: seen_def)
  obtain p2 where p2: "handle dead_wire (repl_request the_key (staged_rec 0x41)) (n2, ()) = (Inr (ascii ''OK''), (p2, ()))" "node_with 2 (Some (staged_rec 0x41)) p2"
    by (rule stage_first [OF n(2), of "0x41"]) simp_all
  let ?w3 = "?w\<lparr>w_links := [], w_nodes := (w_nodes ?w)(2 \<mapsto> p2)\<rparr>"
  have "request_peer exchange 2 (repl_request the_key (staged_rec 0x41)) ?w2 = (Inl timed_out, ?w3)"
    using request_peer_linked [OF w(5) _ _ _ repl_size(1) p2(1) ok_reply] w(1,2) by simp
  then have "ask_all exchange (repl_request the_key (staged_rec 0x41)) [2] (n1, ?w2) = (Inr [], (n1, ?w3))"
    using node_with_id [OF n(1)] peers3 by (simp add: and_then_def ask_def)
  then have "write_act the_key [0x41] False [2] (n1, ?w2) = (Inr (ascii ''RETRY indeterminate''), (n1, ?w3))"
    using first_version [OF n(1)] node_with_id [OF n(1)] peers3 by (simp add: write_act_def and_then_def Let_def staged_rec_def)
  then have "handle exchange (put_request the_key [0x41]) (n1, ?w) = (Inr (ascii ''RETRY indeterminate''), (n1, ?w3))"
    using lead_12 [OF n(1,2) _ w(1-4)] by (simp add: handle_put client_write_act utf8_valid_ascii)
  then have "request_peer front 1 (put_request the_key [0x41]) (world3 n1 n2 n3 {1, 2} [Delivered, Delivered, ReplyLost])
      = (Inr (ascii ''RETRY indeterminate''), returned ?w3 1 n1)"
    using client_sizes by (intro front_delivered) simp_all
  moreover have "returned ?w3 1 n1 = world3 n1 p2 n3 {1, 2} []" by (auto simp: returned_def seen_def world3_def fun_eq_iff)
  ultimately show ?thesis using that p2(2) by simp
qed

text \<open>The second write is staged on top of the first, which node 2 keeps and then commits.\<close>

lemma second_put:
  assumes n: "node_with 1 None n1" "node_with 2 (Some (staged_rec 0x41)) n2"
  obtains p1 p2 where "request_peer front 1 (put_request the_key [0x42]) (world3 n1 n2 n3 {1, 2} []) = (Inr (ascii ''OK '' @ show_u64 1), world3 p1 p2 n3 {1, 2} [])"
    and "node_with 1 (Some (staged_rec 0x42\<lparr>rep_committed := True\<rparr>)) p1" and "node_with 2 (Some (staged_rec 0x41\<lparr>rep_committed := True\<rparr>)) p2"
proof -
  let ?w = "seen (world3 n1 n2 n3 {1, 2} []) 1 {1, 2}"
  have w: "w_up ?w = {1, 2}" "w_nodes ?w 2 = Some n2" "next_link ?w = (Delivered, ?w)" by (simp_all add: seen_def)
  obtain q2 where q2: "handle dead_wire (repl_request the_key (staged_rec 0x42)) (n2, ()) = (Inr (ascii ''OK''), (q2, ()))" "node_with 2 (Some (staged_rec 0x41)) q2"
    by (rule stage_second [OF n(2), of "0x42"]) simp_all
  obtain p2 where p2: "handle dead_wire (commit_request the_key 1) (q2, ()) = (Inr (ascii ''OK''), (p2, ()))"
    "node_with 2 (Some (staged_rec 0x41\<lparr>rep_committed := True\<rparr>)) p2" by (rule commit_staged [OF q2(2)])
  let ?w2 = "?w\<lparr>w_nodes := (w_nodes ?w)(2 \<mapsto> q2)\<rparr>" and ?w3 = "?w\<lparr>w_nodes := (w_nodes ?w)(2 \<mapsto> p2)\<rparr>"
  have staged: "request_peer exchange 2 (repl_request the_key (staged_rec 0x42)) ?w = (Inr (ascii ''OK''), ?w2)"
    using request_peer_linked [OF w(3) _ _ _ repl_size(1) q2(1) ok_reply] w(1,2) by simp
  have w2: "next_link ?w2 = (Delivered, ?w2)" by (simp add: seen_def)
  have "request_peer exchange 2 (commit_request the_key 1) ?w2 = (Inr (ascii ''OK''), ?w2\<lparr>w_nodes := (w_nodes ?w2)(2 \<mapsto> p2)\<rparr>)"
    using request_peer_linked [OF w2 _ _ _ repl_size(2) p2(1) ok_reply] w(1) by simp
  then have committed: "request_peer exchange 2 (commit_request the_key 1) ?w2 = (Inr (ascii ''OK''), ?w3)" by simp
  have ok: "server_ok n1" "recs n1 = Map.empty" "same_node (node0 1) n1" using n(1) by (simp_all add: node_with_def)
  have sized: "rec_sized the_key (staged_rec 0x42\<lparr>rep_committed := True\<rparr>)" using staged_rec_ok(1) [of "0x42"] by (simp add: rec_sized_def rep_ok_def)
  obtain p1 where p1: "merge the_key (staged_rec 0x42\<lparr>rep_committed := True\<rparr>) n1 = (Inr (), p1)" "server_ok p1"
    "recs p1 = merged the_key (staged_rec 0x42\<lparr>rep_committed := True\<rparr>) (recs n1)" "same_node n1 p1" by (rule merge_ok [OF ok(1) sized])
  then have n1': "node_with 1 (Some (staged_rec 0x42\<lparr>rep_committed := True\<rparr>)) p1"
    using ok same_node_trans [OF ok(3) p1(4)] by (simp add: node_with_def merged_def replaces_def)
  note ids = node_with_id [OF n(1)] node_with_id [OF n1'] peers3
  have "ask_all exchange (repl_request the_key (staged_rec 0x42)) [2] (n1, ?w) = (Inr [2], (n1, ?w2))"
    "ask_all exchange (commit_request the_key 1) [2] (p1, ?w2) = (Inr [2], (p1, ?w3))"
    using staged committed ids by (simp_all add: and_then_def ask_def)
  then have "write_act the_key [0x42] False [2] (n1, ?w) = (Inr (ascii ''OK '' @ show_u64 1), (p1, ?w3))"
    using first_version [OF n(1)] ids p1(1) by (simp add: write_act_def and_then_def Let_def on_server_def flip: staged_rec_def)
  then have "handle exchange (put_request the_key [0x42]) (n1, ?w) = (Inr (ascii ''OK '' @ show_u64 1), (p1, ?w3))"
    using lead_12 [OF n(1,2) _ w(1-3) w(3)] by (simp add: handle_put client_write_act utf8_valid_ascii staged_rec_ok)
  then have "request_peer front 1 (put_request the_key [0x42]) (world3 n1 n2 n3 {1, 2} []) = (Inr (ascii ''OK '' @ show_u64 1), returned ?w3 1 p1)"
    using client_sizes utf8_replies(2) by (intro front_delivered) simp_all
  moreover have "returned ?w3 1 p1 = world3 p1 p2 n3 {1, 2} []" by (auto simp: returned_def seen_def world3_def fun_eq_iff)
  ultimately show ?thesis using that n1' p2(2) by simp
qed

text \<open>A read of a leader whose peers hold nothing newer.\<close>

lemma read_own:
  assumes n: "node_with i (Some (staged_rec b\<lparr>rep_committed := True\<rparr>)) sv" and v: "w_views w = []" "w_links w = []" "w_nodes w a = Some sv"
    and alive: "alive_peers exchange (sv, seen w a (w_up w)) = (Inr L, (sv, seen w a (w_up w)))" "\<And>j. j \<in> set L \<Longrightarrow> i < j" "L \<noteq> []" "length (sv_peers sv) = 2"
    and peers: "\<And>j. j \<in> set L \<Longrightarrow> \<exists>b p k r. peer_at sv (seen w a (w_up w)) j b p \<and> node_with k r p \<and> (\<forall>x. r = Some x \<longrightarrow> x \<in> range (\<lambda>c. staged_rec c\<lparr>rep_committed := True\<rparr>))"
  shows "request_peer front a (get_request the_key) w = (Inr (reply_of (Some [b])), returned (seen w a (w_up w)) a sv)"
proof -
  have ok: "server_ok sv" "recs sv = [the_key \<mapsto> staged_rec b\<lparr>rep_committed := True\<rparr>]" "sv_id sv = i" using n node_with_id [OF n] by (simp_all add: node_with_def)
  have "catch_up exchange L (sv, seen w a (w_up w)) = (Inr (), (sv, seen w a (w_up w)))"
  proof (rule catch_up_old [OF _ ok(1)])
    fix j assume "j \<in> set L"
    from peers [OF this] obtain b' p k r where p: "peer_at sv (seen w a (w_up w)) j b' p" "node_with k r p"
      "\<And>x. r = Some x \<Longrightarrow> \<exists>c. x = staged_rec c\<lparr>rep_committed := True\<rparr>" by blast
    have rec: "key = the_key \<and> (\<exists>c. x = staged_rec c\<lparr>rep_committed := True\<rparr>)" if "recs p key = Some x" for key x
      using that p(2,3) by (auto simp: node_with_def split: if_splits)
    have "dump_fits p"
    proof (cases r)
      case None
      then have "recs p = Map.empty" using p(2) by (simp add: node_with_def)
      then show ?thesis using p(2) by (intro dump_fits_room [of _ "[]"]) (auto simp: node_with_def room_def MAX_FRAME_def)
    next
      case (Some x)
      then obtain c where "x = staged_rec c\<lparr>rep_committed := True\<rparr>" using p(3) by blast
      then have "rep_value x = [c]" by (simp add: staged_rec_ok)
      with Some show ?thesis using p(2)
        by (intro dump_fits_room [of _ "[(the_key, [c])]"]) (auto simp: node_with_def room_def row_size_def MAX_FRAME_def split: if_splits)
    qed
    moreover have "\<not> replaces x (recs sv key)" if "committed_recs p key = Some x" for key x
    proof -
      have "recs p key = Some x" using that by (auto simp: committed_recs_def split: option.splits if_splits)
      from rec [OF this] show ?thesis by (auto simp: ok(2) replaces_def staged_rec_ok)
    qed
    ultimately show "\<exists>a' q. peer_at sv (seen w a (w_up w)) j a' q \<and> server_ok q \<and> dump_fits q
        \<and> (\<forall>key r. committed_recs q key = Some r \<longrightarrow> \<not> replaces r (recs sv key))" using p(1,2) by (auto simp: node_with_def)
  qed (use v(2) in \<open>simp add: seen_def\<close>)
  moreover have "Min (set (L @ [i])) = i"
    using alive(2) by (intro Min_eqI) (auto simp: less_imp_le)
  moreover have "\<not> length L + 1 \<le> length (sv_peers sv) div 2" using alive(3,4) by (cases L) auto
  moreover have "read_record sv the_key = Inr (Some (staged_rec b\<lparr>rep_committed := True\<rparr>))" using ok(2) read_record_ok [OF ok(1)] by simp
  ultimately have "client_read exchange the_key (sv, seen w a (w_up w)) = (Inr (reply_of (Some [b])), (sv, seen w a (w_up w)))"
    using alive(1) ok(3) by (simp add: client_read_def as_leader_def and_then_def staged_rec_ok reply_of_def)
  then have "handle exchange (get_request the_key) (sv, seen w a (w_up w)) = (Inr (reply_of (Some [b])), (sv, seen w a (w_up w)))"
    by (simp add: handle_get utf8_valid_ascii)
  then show ?thesis using front_delivered [OF v(1,3) client_sizes(2) _ utf8_replies(1) client_sizes(6)] by blast
qed

lemma alive_all:
  assumes "w_links w = []" and "\<And>j b. (j, b) \<in> set (sv_peers sv) \<Longrightarrow> b \<in> w_up w \<Longrightarrow> \<exists>p. w_nodes w b = Some p \<and> sv_id p = j" and "sv_blocked sv = {}"
  shows "alive_peers exchange (sv, w) = (Inr (map fst (filter (\<lambda>(j, b). b \<in> w_up w) (sv_peers sv))), (sv, w))"
proof -
  have "alive_loop exchange {} ps w = (map fst (filter (\<lambda>(j, b). b \<in> w_up w) ps), w)" if "set ps \<subseteq> set (sv_peers sv)" for ps
    using that
  proof (induction ps)
    case (Cons x ps)
    obtain j b where x: "x = (j, b)" by (cases x)
    show ?case
    proof (cases "b \<in> w_up w")
      case True
      then obtain p where "w_nodes w b = Some p" "sv_id p = j" using assms(2) [of j b] Cons.prems x by auto
      with True ping_linked [of w w b p] assms(1) Cons x show ?thesis by simp
    next
      case False
      with Cons x request_peer_unreachable [of b w] show ?thesis by simp
    qed
  qed simp
  from this [of "sv_peers sv"] show ?thesis using assms(3) by (simp add: alive_peers_def)
qed

lemma alive3:
  assumes n: "node_with 1 r1 n1" "node_with 2 r2 n2" "node_with 3 r3 n3" and sv: "node_with i r sv"
  shows "alive_peers exchange (sv, seen (world3 n1 n2 n3 U []) (unat i) U)
    = (Inr (map fst (filter (\<lambda>(j, b). b \<in> U) (peers_of conf3 i))), (sv, seen (world3 n1 n2 n3 U []) (unat i) U))"
proof -
  have ids: "sv_id n1 = 1" "sv_id n2 = 2" "sv_id n3 = 3" "sv_peers sv = peers_of conf3 i" "sv_blocked sv = {}"
    using n sv by (auto dest: node_with_id)
  have "\<exists>p. w_nodes (seen (world3 n1 n2 n3 U []) (unat i) U) b = Some p \<and> sv_id p = j" if "(j, b) \<in> set (sv_peers sv)" for j b
  proof -
    from that have jb: "(j, b) \<in> set conf3" "j \<noteq> i" unfolding ids(4) peers_of_def by auto
    then have "b = unat j" by (auto simp: conf3_def)
    with jb(2) have "b \<noteq> unat i" by (metis unsigned_word_eqI)
    with jb(1) show ?thesis by (auto simp: conf3_def seen_def ids)
  qed
  then show ?thesis using alive_all [of "seen (world3 n1 n2 n3 U []) (unat i) U" sv] ids(4,5) by (simp add: seen_def)
qed

text \<open>The history the clients saw; the first write has no known outcome and may take effect at any time.\<close>

definition seen_history :: "history_entry list" where
  "seen_history =
    [\<lparr>he_id = 1, he_invoke = 0, he_complete = 100, he_operation = OpWrite [0x41], he_outcome = OutInfo\<rparr>,
     \<lparr>he_id = 2, he_invoke = 2, he_complete = 3, he_operation = OpWrite [0x42], he_outcome = OutOk None\<rparr>,
     \<lparr>he_id = 3, he_invoke = 4, he_complete = 5, he_operation = OpRead, he_outcome = OutOk (Some [0x41])\<rparr>,
     \<lparr>he_id = 4, he_invoke = 6, he_complete = 7, he_operation = OpRead, he_outcome = OutOk (Some [0x42])\<rparr>]"

end
