(* ===== verification/Client_Properties.thy ===== *)
theory Client_Properties
  imports Cluster_Divergence
begin

text \<open>The properties of the cluster of servers and its clients.\<close>

section \<open>Deletions\<close>

interpretation deletes: retried_request front conf "delete_request key"
  "\<lambda>w. utf8_valid key \<and> 1 < length conf \<and> (key, []) \<in> set ws \<and> cluster_holds conf ws w m"
  "\<lambda>response w. \<not> starts_with response (ascii ''OK '') \<and> cluster_holds conf ws w m"
  for conf key ws m
proof -
  have step: "cluster_holds conf ws w' m \<and> x \<noteq> Inr (ascii ''OK '' @ s) \<and> (x = Inr (ascii ''REDIRECT '' @ t) \<longrightarrow> (\<exists>j. bm_get conf j \<noteq> None \<and> u64_from_str t = Some j))"
    if "utf8_valid key \<and> 1 < length conf \<and> (key, []) \<in> set ws \<and> cluster_holds conf ws w m" "bm_get conf i = Some a" "request_peer front a (delete_request key) w = (x, w')"
    for w i a x w' s t
  proof -
    have node: "(i, a) \<in> set conf" by (rule map_of_SomeD [OF that(2)])
    have "never_acknowledged w a (delete_request key)" using delete_never_acknowledged [OF _ node] that(1) by blast
    then show ?thesis using write_connection(3,4) [OF _ _ delete_writes_as node that(3)] that(1) by blast
  qed
  show "retried_request front conf (delete_request key) (\<lambda>w. utf8_valid key \<and> 1 < length conf \<and> (key, []) \<in> set ws \<and> cluster_holds conf ws w m)
    (\<lambda>response w. \<not> starts_with response (ascii ''OK '') \<and> cluster_holds conf ws w m)"
  proof (unfold_locales, goal_cases)
    case (4 w i a response w')
    have "\<not> starts_with response (ascii ''OK '')"
    proof
      assume "starts_with response (ascii ''OK '')"
      then obtain s where "response = ascii ''OK '' @ s" by (metis starts_with_def append_take_drop_id)
      with step [OF 4(1-3)] show False by blast
    qed
    with step [OF 4(1-3)] show ?case by blast
  qed (use step in blast)+
qed

lemma client_delete_refused:
  assumes h: "cluster_holds conf ws w m" and c: "cc_nodes c = conf" and several: "1 < length conf" and key: "utf8_valid key" "(key, []) \<in> set ws"
    and r: "client_delete front c key w = (r, w')"
  shows "\<exists>e. r = Inl (Failed e)" and "cluster_holds conf ws w' m"
proof -
  obtain x w1 where x: "client_request front c (delete_request key) w = (x, w1)" by (cases "client_request front c (delete_request key) w")
  have "utf8_valid key \<and> 1 < length conf \<and> (key, []) \<in> set ws \<and> cluster_holds conf ws w m" using assms by simp
  from deletes.client_request_ok [OF this c x] r x show "\<exists>e. r = Inl (Failed e)" and "cluster_holds conf ws w' m"
    by (auto simp: client_delete_def and_then_def fail_with_def split: sum.splits failure.splits)
qed

section \<open>Three fresh nodes\<close>

definition fresh3 :: world where
  "fresh3 = world3 (node0 1) (node0 2) (node0 3) {1, 2, 3} []"

lemma fresh3_run: "cluster_run conf3 fresh3 []"
proof (rule run_start)
  show "conf_ok conf3" by (simp add: conf_ok_def conf3_def bm_inv_def)
  show "w_links fresh3 = []" by (simp add: fresh3_def)
  fix i a assume ia: "(i, a) \<in> set conf3"
  have "bind_server i (peers_of conf3 i) [] [] [] empty_dir None = (Inr (node0 i), Some [])"
    by (simp add: bind_server_def and_then_def Store_Durability.fresh_store_open node0_def)
  moreover have "w_nodes fresh3 a = Some (node0 i)" using ia by (auto simp: fresh3_def conf3_def)
  ultimately show "\<exists>sv f. bind_server i (peers_of conf3 i) [] [] [] empty_dir None = (Inr sv, f) \<and> w_nodes fresh3 a = Some sv" by blast
qed

lemma fresh3_healthy: "healthy conf3 fresh3"
  by (simp add: healthy_def fresh3_def reached_def node0_def peers_of_def conf3_def)

lemma fresh3_versions: "(j, b) \<in> set conf3 \<Longrightarrow> w_nodes fresh3 b = Some p \<Longrightarrow> recs p key = Some r \<Longrightarrow> rep_version r \<noteq> -1"
  by (auto simp: fresh3_def conf3_def node0_ok split: if_splits)

lemma fresh3_holds: "5 + room ws \<le> MAX_FRAME \<Longrightarrow> cluster_holds conf3 ws fresh3 Map.empty"
  using run_follows [OF fresh3_run] cluster_holds_append [of conf3 "[]" fresh3 _ ws]
  by (auto simp: room_def MAX_FRAME_def elim: explained.cases)

section \<open>Properties\<close>

text \<open>
  C28. A cluster serves one map. Its nodes start empty; clients put, delete, get, block and heal; which nodes are reachable may change before
  every connection, connections of clients may be refused or their replies lost, and nodes crash and restart between requests. Then the
  results of all clients, in the order of their operations, are those of one map: an operation that returns has its effect exactly once, one
  that fails has it at once or never, a get that returns gives the value of the last write that took effect, at whatever node it was
  answered, no client panics, and every server is still running (one whose handler panics is gone for good). The cluster has an odd number
  of nodes with disks that report no errors, requests are handled one at a time, connections between nodes neither change nor lose a reply
  while a request is handled, and everything written fits into one dump of 16 MiB.
\<close>

theorem cluster_serves_one_map:
  assumes "cluster_run conf w h" and "5 + room (writes_of h) \<le> MAX_FRAME"
  shows "(\<exists>m. explained h m) \<and> (\<forall>(i, a) \<in> set conf. w_nodes w a \<noteq> None)"
proof -
  obtain m where m: "explained h m" "cluster_holds conf (writes_of h) w m" using run_follows [OF assms] by blast
  then obtain T where "cluster_inv conf w T" by (auto simp: cluster_holds_def)
  then have "w_nodes w a \<noteq> None" if "(i, a) \<in> set conf" for i a using cluster_member [OF _ that] by blast
  with m(1) show ?thesis by blast
qed

theorem cluster_serves_one_map_witness:
  "\<exists>w m. cluster_run conf3 w [(PutOp [0x6B] [0x41], Done), (GetOp [0x6B], Found (Some [0x41]))]
    \<and> explained [(PutOp [0x6B] [0x41], Done), (GetOp [0x6B], Found (Some [0x41]))] m
    \<and> (\<forall>(i, a) \<in> set conf3. w_nodes w a \<noteq> None)"
proof -
  let ?c = "client_new conf3" and ?ws = "[([0x6B], [0x41])]"
  have small: "5 + room ?ws \<le> MAX_FRAME" by (simp add: room_def row_size_def MAX_FRAME_def)
  have key: "utf8_valid [0x6B]" "utf8_valid [0x41]" by (auto intro!: utf8_valid_ascii)
  have c: "cc_nodes ?c = conf3" "0 < cc_attempts ?c" by (simp_all add: client_new_def)
  obtain w1 where w1: "client_put front ?c [0x6B] [0x41] fresh3 = (Inr (), w1)" "cluster_holds conf3 ?ws w1 [[0x6B] \<mapsto> [0x41]]" "healthy conf3 w1"
    by (rule healthy_put [OF fresh3_holds [OF small] fresh3_healthy _ key(1) _ key(2) _ fresh3_versions c]) simp_all
  obtain w2 where w2: "client_get front ?c [0x6B] w1 = (Inr (Some [0x41]), w2)"
    by (rule healthy_get [OF w1(2,3) _ key(1) _ c]) (simp_all add: MAX_FRAME_def)
  have "cluster_run conf3 w1 ([] @ [(PutOp [0x6B] [0x41], Done)])"
    by (rule run_op [OF fresh3_run _ c(1)]) (use key w1(1) in \<open>simp_all add: perform_def result_of_def\<close>)
  then have "cluster_run conf3 w2 (([] @ [(PutOp [0x6B] [0x41], Done)]) @ [(GetOp [0x6B], Found (Some [0x41]))])"
    by (rule run_op [OF _ _ c(1)]) (use key w2 in \<open>simp_all add: perform_def result_of_def\<close>)
  then have run: "cluster_run conf3 w2 [(PutOp [0x6B] [0x41], Done), (GetOp [0x6B], Found (Some [0x41]))]" by simp
  have "5 + room (writes_of [(PutOp [0x6B] [0x41], Done), (GetOp [0x6B], Found (Some [0x41]))]) \<le> MAX_FRAME"
    using small by (simp add: writes_of_def)
  from cluster_serves_one_map [OF run this] run show ?thesis by blast
qed

text \<open>
  C29. A healthy cluster serves its clients. After any run as above, when the first node runs and reaches a majority and no connection changes,
  is refused or loses a reply, a put of a non-empty key and a non-empty value succeeds, and a get after it returns the value. The client makes at
  least one attempt, the write fits into one dump together with everything written before, and no node holds the key at the largest version.
\<close>

theorem healthy_cluster_serves_clients:
  assumes "cluster_run conf w h" and "5 + room (writes_of h @ [(key, v)]) \<le> MAX_FRAME" and "healthy conf w"
    and "key \<noteq> []" and "utf8_valid key" and "v \<noteq> []" and "utf8_valid v" and "cc_nodes c = conf" and "0 < cc_attempts c"
    and "\<And>j b p r. (j, b) \<in> set conf \<Longrightarrow> w_nodes w b = Some p \<Longrightarrow> recs p key = Some r \<Longrightarrow> rep_version r \<noteq> -1"
  shows "\<exists>w' w''. client_put front c key v w = (Inr (), w') \<and> client_get front c key w' = (Inr (Some v), w'')"
proof -
  have "5 + room (writes_of h) \<le> MAX_FRAME" using assms(2) by simp
  then obtain m where m: "cluster_holds conf (writes_of h) w m" using run_follows [OF assms(1)] by blast
  obtain w' where w': "client_put front c key v w = (Inr (), w')" "cluster_holds conf (writes_of h @ [(key, v)]) w' (m(key \<mapsto> v))" "healthy conf w'"
    by (rule healthy_put [OF cluster_holds_append [OF m assms(2)] assms(3-7) _ assms(10,8,9)]) auto
  have "4 + 2 * length key \<le> MAX_FRAME" using assms(2) by (simp add: room_def row_size_def)
  then obtain w'' where "client_get front c key w' = (Inr ((m(key \<mapsto> v)) key), w'')"
    by (rule healthy_get [OF w'(2,3) assms(4,5) _ assms(8,9)])
  with w'(1) show ?thesis by simp
qed

theorem healthy_cluster_serves_clients_witness:
  "\<exists>w' w''. client_put front (client_new conf3) [0x6B] [0x41] fresh3 = (Inr (), w')
    \<and> client_get front (client_new conf3) [0x6B] w' = (Inr (Some [0x41]), w'')"
  by (rule healthy_cluster_serves_clients [OF fresh3_run _ fresh3_healthy _ _ _ _ _ _ fresh3_versions])
    (auto intro!: utf8_valid_ascii simp: room_def row_size_def MAX_FRAME_def client_new_def)

text \<open>
  C30. After any run as above, in a cluster of more than one node a delete never succeeds and has no effect. The request that stages a deletion on a peer ends with
  the empty value, the peer splits it into four words instead of five and refuses it, and the client times out; the cluster holds the same
  map before and after.
\<close>

theorem delete_never_succeeds:
  assumes "cluster_run conf w h" and "5 + room (writes_of h @ [(key, [])]) \<le> MAX_FRAME" and "1 < length conf"
    and "utf8_valid key" and "cc_nodes c = conf" and "client_delete front c key w = (r, w')"
  shows "(\<exists>e. r = Inl (Failed e)) \<and> (\<exists>m. explained h m \<and> cluster_holds conf (writes_of h @ [(key, [])]) w m
    \<and> cluster_holds conf (writes_of h @ [(key, [])]) w' m)"
proof -
  have "5 + room (writes_of h) \<le> MAX_FRAME" using assms(2) by simp
  then obtain m where m: "explained h m" "cluster_holds conf (writes_of h) w m" using run_follows [OF assms(1)] by blast
  have h: "cluster_holds conf (writes_of h @ [(key, [])]) w m" by (rule cluster_holds_append [OF m(2) assms(2)])
  from client_delete_refused [OF h assms(5,3,4) _ assms(6)] m(1) h show ?thesis by auto
qed

theorem delete_never_succeeds_witness:
  "\<exists>e w'. client_delete front (client_new conf3) [0x6B] fresh3 = (Inl (Failed e), w')"
proof -
  obtain r w' where r: "client_delete front (client_new conf3) [0x6B] fresh3 = (r, w')" by (cases "client_delete front (client_new conf3) [0x6B] fresh3")
  have "(\<exists>e. r = Inl (Failed e)) \<and> (\<exists>m. explained [] m \<and> cluster_holds conf3 (writes_of [] @ [([0x6B], [])]) fresh3 m
    \<and> cluster_holds conf3 (writes_of [] @ [([0x6B], [])]) w' m)"
    by (rule delete_never_succeeds [OF fresh3_run _ _ _ _ r])
      (auto intro!: utf8_valid_ascii simp: room_def row_size_def MAX_FRAME_def client_new_def conf3_def)
  with r show ?thesis by blast
qed

text \<open>
  C31. A lost reply between nodes breaks the cluster. Of three nodes the third is down. The reply of node 2 to the staging of a first write is lost
  and the client is told to retry; a second write is then staged at the same version, which node 2 acknowledges although it keeps the first
  value, and both commit: node 1 the second value, node 2 the first, and the client gets OK. From then on the leader of nodes 2 and 3 reads
  the first value, and node 1, with all nodes up, the second. The checker of \<open>src/src/linearizability.rs\<close> rejects this history.
\<close>

theorem lost_reply_diverges:
  "\<exists>w1 w2 w3 w4. request_peer front 1 (put_request [0x6B] [0x41]) (world3 (node0 1) (node0 2) (node0 3) {1, 2} [Delivered, Delivered, ReplyLost])
      = (Inr (ascii ''RETRY indeterminate''), w1)
    \<and> request_peer front 1 (put_request [0x6B] [0x42]) w1 = (Inr (ascii ''OK 1''), w2)
    \<and> request_peer front 2 (get_request [0x6B]) (w2\<lparr>w_up := {2, 3}\<rparr>) = (Inr (ascii ''VALUE 41''), w3)
    \<and> request_peer front 1 (get_request [0x6B]) (w3\<lparr>w_up := {1, 2, 3}\<rparr>) = (Inr (ascii ''VALUE 42''), w4)
    \<and> \<not> is_linearizable seen_history"
proof -
  let ?A = "staged_rec 0x41\<lparr>rep_committed := True\<rparr>" and ?B = "staged_rec 0x42\<lparr>rep_committed := True\<rparr>"
  obtain q2 where s1: "request_peer front 1 (put_request the_key [0x41]) (world3 (node0 1) (node0 2) (node0 3) {1, 2} [Delivered, Delivered, ReplyLost])
      = (Inr (ascii ''RETRY indeterminate''), world3 (node0 1) q2 (node0 3) {1, 2} [])" and q2: "node_with 2 (Some (staged_rec 0x41)) q2"
    by (rule first_put [OF node_with0 node_with0])
  obtain p1 p2 where s2: "request_peer front 1 (put_request the_key [0x42]) (world3 (node0 1) q2 (node0 3) {1, 2} [])
      = (Inr (ascii ''OK '' @ show_u64 1), world3 p1 p2 (node0 3) {1, 2} [])"
    and p1: "node_with 1 (Some ?B) p1" and p2: "node_with 2 (Some ?A) p2" by (rule second_put [OF node_with0 q2])
  note ids = node_with_id [OF p1] node_with_id [OF p2] node_with_id [OF node_with0] peers3
  let ?w = "\<lambda>U. world3 p1 p2 (node0 3) U []"
  have same: "returned (seen (?w U) 2 U) 2 p2 = ?w U" for U by (auto simp: returned_def seen_def world3_def fun_eq_iff)
  have "request_peer front 2 (get_request the_key) (?w {2, 3}) = (Inr (reply_of (Some [0x41])), returned (seen (?w {2, 3}) 2 (w_up (?w {2, 3}))) 2 p2)"
  proof (rule read_own [OF p2, where L = "[3]"])
    show "alive_peers exchange (p2, seen (?w {2, 3}) 2 (w_up (?w {2, 3}))) = (Inr [3], (p2, seen (?w {2, 3}) 2 (w_up (?w {2, 3}))))"
      using alive3 [OF p1 p2 node_with0 p2, of "{2, 3}"] by (simp add: peers3)
    show "\<exists>b p k r. peer_at p2 (seen (?w {2, 3}) 2 (w_up (?w {2, 3}))) j b p \<and> node_with k r p \<and> (\<forall>x. r = Some x \<longrightarrow> x \<in> range (\<lambda>c. staged_rec c\<lparr>rep_committed := True\<rparr>))"
      if "j \<in> set [3]" for j using that ids node_with0 [of 3]
      by (intro exI [of _ 3] exI [of _ "node0 3"] exI [of _ 3] exI [of _ None]) (simp add: peer_at_def seen_def)
  qed (use ids in simp_all)
  then have s3: "request_peer front 2 (get_request the_key) (?w {2, 3}) = (Inr (reply_of (Some [0x41])), ?w {2, 3})" by (simp add: same)
  have "request_peer front 1 (get_request the_key) (?w {1, 2, 3}) = (Inr (reply_of (Some [0x42])), returned (seen (?w {1, 2, 3}) 1 (w_up (?w {1, 2, 3}))) 1 p1)"
  proof (rule read_own [OF p1, where L = "[2, 3]"])
    show "alive_peers exchange (p1, seen (?w {1, 2, 3}) 1 (w_up (?w {1, 2, 3}))) = (Inr [2, 3], (p1, seen (?w {1, 2, 3}) 1 (w_up (?w {1, 2, 3}))))"
      using alive3 [OF p1 p2 node_with0 p1, of "{1, 2, 3}"] by (simp add: peers3)
    show "\<exists>b p k r. peer_at p1 (seen (?w {1, 2, 3}) 1 (w_up (?w {1, 2, 3}))) j b p \<and> node_with k r p \<and> (\<forall>x. r = Some x \<longrightarrow> x \<in> range (\<lambda>c. staged_rec c\<lparr>rep_committed := True\<rparr>))"
      if j: "j \<in> set [2, 3]" for j
    proof (cases "j = 2")
      case True
      then show ?thesis using p2 ids by (intro exI [of _ 2] exI [of _ p2] exI [of _ 2] exI [of _ "Some ?A"]) (simp add: peer_at_def seen_def)
    next
      case False
      then show ?thesis using j ids node_with0 [of 3]
        by (intro exI [of _ 3] exI [of _ "node0 3"] exI [of _ 3] exI [of _ None]) (simp add: peer_at_def seen_def)
    qed
  qed (use ids in auto)
  moreover have "\<not> is_linearizable seen_history" by code_simp
  moreover have "ascii ''OK '' @ show_u64 1 = ascii ''OK 1''" "reply_of (Some [0x41]) = ascii ''VALUE 41''" "reply_of (Some [0x42]) = ascii ''VALUE 42''"
    by code_simp+
  ultimately show ?thesis using s1 s2 s3 by auto
qed

end
