(* ===== verification/Cli.thy ===== *)
theory Cli
  imports Client Sql_Executor
begin

text \<open>
  The command line of \<open>src/src/main.rs\<close>: the commands on the local stores, on SQL scripts and on a cluster. A command returns the lines
  it prints, its result and the new files. Every command opens its store again from the files, so a sequence of commands is a sequence of
  restarts. \<open>SocketAddr::from_str\<close> is the parameter \<open>parse_addr\<close>.
\<close>

section \<open>Files and arguments\<close>

record store_files =
  sf_dir :: snapshot_fs
  sf_log :: "bytes option"

definition closed :: "store \<Rightarrow> store_files" where
  "closed st = \<lparr>sf_dir = st_dir st, sf_log = Some (wal_bytes (st_wal st))\<rparr>"

type_synonym 's cli_run = "rstring list \<times> unit may_fail \<times> 's"

definition with_store :: "(store \<Rightarrow> store_files cli_run) \<Rightarrow> store_files \<Rightarrow> store_files cli_run" where
  "with_store body files = (case store_open [] [] [] (sf_dir files) (sf_log files) of
     (Inl e, log) \<Rightarrow> ([], Inl e, files\<lparr>sf_log := log\<rparr>)
   | (Inr st, _) \<Rightarrow> body st)"

definition invalid_argument :: "string \<Rightarrow> 'a may_fail" where
  "invalid_argument msg = fail_with (IoError InvalidInput msg)"

definition usage :: "string \<Rightarrow> unit may_fail" where
  "usage msg = fail_with (IoError InvalidInput
     (''usage: nutdb [demo | bench | set/get/list | sql | serve | client --nodes ID=ADDR,... put/get/delete]  ('' @ msg @ '')''))"

fun flag :: "rstring list \<Rightarrow> string \<Rightarrow> rstring may_fail" where
  "flag (a # b # rest) name = (if a = ascii name then Inr b else flag (b # rest) name)"
| "flag _ name = invalid_argument (''serve: missing '' @ name)"

definition split_once :: "u8 \<Rightarrow> rstring \<Rightarrow> (rstring \<times> rstring) option" where
  "split_once c s = (if c \<in> set s then Some (takeWhile (\<lambda>b. b \<noteq> c) s, tl (dropWhile (\<lambda>b. b \<noteq> c) s)) else None)"

text \<open>The list \<open>ID=ADDR,...\<close> of \<open>--peers\<close> and \<open>--nodes\<close>; the messages begin with the name of the command.\<close>

primrec parse_members :: "(rstring \<Rightarrow> socket_addr option) \<Rightarrow> string \<Rightarrow> string \<Rightarrow> string \<Rightarrow> rstring list \<Rightarrow> (u64, socket_addr) bmap \<Rightarrow> (u64, socket_addr) bmap may_fail" where
  "parse_members parse_addr form bad_id bad_address [] members = Inr members"
| "parse_members parse_addr form bad_id bad_address (member # rest) members =
    (case split_once 0x3D member of
       None \<Rightarrow> invalid_argument form
     | Some (i, a) \<Rightarrow> (case u64_from_str i of
         None \<Rightarrow> invalid_argument bad_id
       | Some i \<Rightarrow> (case parse_addr a of
           None \<Rightarrow> invalid_argument bad_address
         | Some a \<Rightarrow> parse_members parse_addr form bad_id bad_address rest (bm_insert i a members))))"

section \<open>Local stores\<close>

definition cli_set :: "rstring \<Rightarrow> rstring \<Rightarrow> store_files \<Rightarrow> store_files cli_run" where
  "cli_set key v = with_store (\<lambda>st. case store_set key v st of
     (Inl e, st) \<Rightarrow> ([], Inl e, closed st)
   | (Inr _, st) \<Rightarrow> ([ascii ''set '' @ key @ ascii '' = '' @ v], Inr (), closed st))"

definition cli_get :: "rstring \<Rightarrow> store_files \<Rightarrow> store_files cli_run" where
  "cli_get key = with_store (\<lambda>st. case store_get st key of
     Inl e \<Rightarrow> ([], Inl e, closed st)
   | Inr found \<Rightarrow> ([case found of Some v \<Rightarrow> v | None \<Rightarrow> ascii ''(nil)''], Inr (), closed st))"

primrec list_lines :: "store \<Rightarrow> rstring list \<Rightarrow> rstring list \<times> unit may_fail" where
  "list_lines st [] = ([], Inr ())"
| "list_lines st (key # keys) = (case store_get st key of
     Inl e \<Rightarrow> ([], Inl e)
   | Inr found \<Rightarrow> (case list_lines st keys of (out, r) \<Rightarrow>
       ((key @ ascii '' = '' @ (case found of Some v \<Rightarrow> v | None \<Rightarrow> [])) # out, r)))"

definition cli_list :: "store_files \<Rightarrow> store_files cli_run" where
  "cli_list = with_store (\<lambda>st. case keys_sorted st of
     Inl e \<Rightarrow> ([], Inl e, closed st)
   | Inr keys \<Rightarrow> (case list_lines st keys of (out, r) \<Rightarrow> (out, r, closed st)))"

section \<open>SQL\<close>

fun result_lines :: "sql_result \<Rightarrow> rstring list" where
  "result_lines (Affected count) = [ascii (show_nat count) @ ascii '' row(s) affected'']"
| "result_lines (Rows columns rows) = str_join (ascii '' | '') columns # map (\<lambda>row. str_join (ascii '' | '') (map value_to_string row)) rows"
| "result_lines Begun = [ascii ''BEGIN'']"
| "result_lines Committed = [ascii ''COMMIT'']"
| "result_lines RolledBack = [ascii ''ROLLBACK'']"
| "result_lines (Explained plan) = [plan]"

definition cli_sql :: "rstring \<Rightarrow> bytes option \<Rightarrow> bytes option cli_run" where
  "cli_sql source log_file = (case engine_open log_file [] of
     Inl e \<Rightarrow> ([], fail_with e, log_file)
   | Inr en \<Rightarrow> (case execute source en of
       (Inl e, en) \<Rightarrow> ([], Inl e, Some (wal_bytes (mv_wal (en_store en))))
     | (Inr results, en) \<Rightarrow> (concat (map result_lines results), Inr (), Some (wal_bytes (mv_wal (en_store en))))))"

section \<open>Clusters\<close>

definition serve_arguments :: "(rstring \<Rightarrow> socket_addr option) \<Rightarrow> rstring list \<Rightarrow> (u64 \<times> socket_addr \<times> rstring \<times> (u64, socket_addr) bmap) may_fail" where
  "serve_arguments parse_addr args =
    rbind (flag args ''--id'') (\<lambda>i.
    rbind (case u64_from_str i of Some i \<Rightarrow> Inr i | None \<Rightarrow> invalid_argument ''serve: --id must be an integer'') (\<lambda>i.
    rbind (flag args ''--listen'') (\<lambda>listen.
    rbind (case parse_addr listen of Some a \<Rightarrow> Inr a | None \<Rightarrow> invalid_argument ''serve: invalid --listen address'') (\<lambda>listen.
    rbind (flag args ''--data'') (\<lambda>data.
    rbind (flag args ''--peers'') (\<lambda>peers.
    rbind (parse_members parse_addr ''serve: peers are id=address'' ''serve: invalid peer id'' ''serve: invalid peer address''
      (if peers = [] then [] else split_on 0x2C peers) []) (\<lambda>peers. Inr (i, listen, data, peers))))))))"

definition argument :: "rstring list \<Rightarrow> nat \<Rightarrow> string \<Rightarrow> rstring may_fail" where
  "argument args i msg = (if i < length args then Inr (args ! i) else invalid_argument msg)"

definition cli_client :: "'net wire \<Rightarrow> (rstring \<Rightarrow> socket_addr option) \<Rightarrow> rstring list \<Rightarrow> 'net \<Rightarrow> 'net cli_run" where
  "cli_client wire parse_addr args net =
    (case rbind (flag args ''--nodes'') (\<lambda>nodes. parse_members parse_addr ''client: nodes are id=address'' ''client: invalid node id''
        ''client: invalid node address'' (split_on 0x2C nodes) []) of
       Inl e \<Rightarrow> ([], Inl e, net)
     | Inr nodes \<Rightarrow>
         (let at = length (takeWhile (\<lambda>a. a \<notin> {ascii ''put'', ascii ''get'', ascii ''delete''}) args); c = client_new nodes in
          if at = length args then ([], invalid_argument ''client: expected put/get/delete'', net)
          else if args ! at = ascii ''put'' then
            (case rbind (argument args (at + 1) ''client put: missing key'') (\<lambda>key.
                rbind (argument args (at + 2) ''client put: missing value'') (\<lambda>v. Inr (key, v))) of
               Inl e \<Rightarrow> ([], Inl e, net)
             | Inr (key, v) \<Rightarrow> (case client_put wire c key v net of
                 (Inl e, net) \<Rightarrow> ([], Inl e, net) | (Inr _, net) \<Rightarrow> ([ascii ''ok''], Inr (), net)))
          else if args ! at = ascii ''get'' then
            (case argument args (at + 1) ''client get: missing key'' of
               Inl e \<Rightarrow> ([], Inl e, net)
             | Inr key \<Rightarrow> (case client_get wire c key net of
                 (Inl e, net) \<Rightarrow> ([], Inl e, net)
               | (Inr found, net) \<Rightarrow> ([case found of Some v \<Rightarrow> v | None \<Rightarrow> ascii ''(nil)''], Inr (), net)))
          else
            (case argument args (at + 1) ''client delete: missing key'' of
               Inl e \<Rightarrow> ([], Inl e, net)
             | Inr key \<Rightarrow> (case client_delete wire c key net of
                 (Inl e, net) \<Rightarrow> ([], Inl e, net) | (Inr _, net) \<Rightarrow> ([ascii ''ok''], Inr (), net)))))"

section \<open>A sequence of commands is a map\<close>

definition no_files :: store_files where
  "no_files = \<lparr>sf_dir = empty_dir, sf_log = None\<rparr>"

definition files_hold :: "store_files \<Rightarrow> kvs \<Rightarrow> bool" where
  "files_hold files m \<longleftrightarrow> files = no_files \<and> m = [] \<or> (\<exists>st. store_inv st m \<and> files = closed st)"

lemma files_open:
  assumes "files_hold files m"
  obtains st log where "store_open [] [] [] (sf_dir files) (sf_log files) = (Inr st, log)" and "store_inv st m"
  using assms unfolding files_hold_def
proof (elim disjE conjE exE)
  assume "files = no_files" "m = []"
  then show thesis
    using that Store_Durability.fresh_store_open fresh_store_inv [OF Store_Durability.fresh_store_open] by (simp add: no_files_def)
next
  fix st assume st: "store_inv st m" "files = closed st"
  have "store_crash st [] (wal_bytes (st_wal st)) ((st_dir st)\<lparr>fs_tmp := fs_tmp (st_dir st)\<rparr>)" by (rule crash_temp)
  then have "store_crash st [] (wal_bytes (st_wal st)) (st_dir st)" by simp
  from crash_recovers_store [OF st(1) this] st(2) that show thesis by (auto simp: closed_def)
qed

lemma closed_holds: "store_inv st m \<Longrightarrow> files_hold (closed st) m"
  by (auto simp: files_hold_def)

lemma cli_set_ok:
  assumes "files_hold files m" and "command_fits (CSet key v)"
  obtains files' where "cli_set key v files = ([ascii ''set '' @ key @ ascii '' = '' @ v], Inr (), files')" and "files_hold files' (bm_insert key v m)"
proof -
  obtain st log where st: "store_open [] [] [] (sf_dir files) (sf_log files) = (Inr st, log)" "store_inv st m" by (rule files_open [OF assms(1)])
  obtain st' where st': "store_set key v st = (Inr (), st')" using store_set_succeeds [OF st(2) assms(2)] by blast
  have "store_inv st' (bm_insert key v m)"
    using apply_batch_inv [OF st(2), of "[CSet key v]" st'] st' assms(2) by (simp add: store_set_def store_apply_batch command_fits_def)
  with st(1) st' that [of "closed st'"] closed_holds show ?thesis by (simp add: cli_set_def with_store_def)
qed

lemma cli_get_ok:
  assumes "files_hold files m"
  obtains files' where "cli_get key files = ([case bm_get m key of Some v \<Rightarrow> v | None \<Rightarrow> ascii ''(nil)''], Inr (), files')" and "files_hold files' m"
proof -
  obtain st log where st: "store_open [] [] [] (sf_dir files) (sf_log files) = (Inr st, log)" "store_inv st m" by (rule files_open [OF assms])
  with store_reads(1) [OF st(2)] that [of "closed st"] closed_holds show ?thesis by (simp add: cli_get_def with_store_def)
qed

lemma list_lines_ok: "store_inv st m \<Longrightarrow> set keys \<subseteq> set (bm_keys m) \<Longrightarrow>
    list_lines st keys = (map (\<lambda>key. key @ ascii '' = '' @ the (bm_get m key)) keys, Inr ())"
proof (induction keys)
  case (Cons key keys)
  then have "bm_get m key \<noteq> None" unfolding bm_get_dom by auto
  with Cons store_reads(1) [OF Cons.prems(1)] show ?case by auto
qed simp

lemma cli_list_ok:
  assumes "files_hold files m"
  obtains files' where "cli_list files = (map (\<lambda>(key, v). key @ ascii '' = '' @ v) m, Inr (), files')" and "files_hold files' m"
proof -
  obtain st log where st: "store_open [] [] [] (sf_dir files) (sf_log files) = (Inr st, log)" "store_inv st m" by (rule files_open [OF assms])
  have "bm_inv m" using st(2) represents_inv by (auto simp: store_inv_def)
  then have "map (\<lambda>key. key @ ascii '' = '' @ the (bm_get m key)) (bm_keys m) = map (\<lambda>(key, v). key @ ascii '' = '' @ v) m"
    by (auto simp: bm_get_in dest: bm_inv_distinct)
  with list_lines_ok [OF st(2), of "bm_keys m"] store_reads(3) [OF st(2)] st(1) that [of "closed st"] closed_holds [OF st(2)]
  show ?thesis by (simp add: cli_list_def with_store_def)
qed

primrec run_sets :: "(rstring \<times> rstring) list \<Rightarrow> store_files \<Rightarrow> store_files" where
  "run_sets [] files = files"
| "run_sets (p # ps) files = run_sets ps (snd (snd (cli_set (fst p) (snd p) files)))"

lemma run_sets_ok:
  "list_all (\<lambda>(key, v). command_fits (CSet key v)) ps \<Longrightarrow> files_hold files m \<Longrightarrow> files_hold (run_sets ps files) (fold (\<lambda>(key, v). bm_insert key v) ps m)"
proof (induction ps arbitrary: files m)
  case (Cons p ps)
  obtain key v where p: "p = (key, v)" by (cases p)
  obtain files' where "cli_set key v files = ([ascii ''set '' @ key @ ascii '' = '' @ v], Inr (), files')" "files_hold files' (bm_insert key v m)"
    by (rule cli_set_ok [OF Cons.prems(2)]) (use Cons.prems(1) p in auto)
  with Cons p show ?case by simp
qed simp

end
