(* ===== verification/Spec2Isabelle.thy ===== *)
theory Spec2Isabelle
  imports Command Mvcc_Properties Raft_Properties Linearizability Store_Durability Sql_Properties Client_Properties Cli
begin

text \<open>
  nutdb: a verification of the database engine under \<open>src/src\<close>.

  \<^bold>\<open>The program.\<close> A log of checksummed records (\<open>wal.rs\<close>, \<open>crc.rs\<close>) carries two stores. The key/value store
  (\<open>store.rs\<close>) logs commands (\<open>command.rs\<close>), keeps its data in a B-tree (\<open>btree.rs\<close>) and checkpoints the tree into a file of slotted pages
  (\<open>page.rs\<close>) through a cache (\<open>pager.rs\<close>). The transactional store (\<open>txn.rs\<close>, \<open>version.rs\<close>, \<open>gc.rs\<close>) keeps versions of
  every key and gives transactions snapshots; the SQL engine (\<open>sql/\<close>, \<open>catalog.rs\<close>) keeps schemas and rows in it. A Raft implementation
  (\<open>raft/\<close>) replicates a log of commands between nodes of one process. The TCP server (\<open>server.rs\<close>) and its client (\<open>client.rs\<close>) replicate a
  key/value map over a key/value store per node, and a checker (\<open>linearizability.rs\<close>) decides whether a history of a register is linearizable.

  \<^bold>\<open>Shared theories.\<close> \<open>Nut_Prelude\<close> has the vocabulary: machine integers are words and \<open>usize\<close> values natural numbers, strings are their
  UTF-8 bytes, a \<open>BTreeMap\<close> is a sorted association list (\<open>bmap\<close>), a function that may fail returns a sum, and a stateful one returns its
  result with the new state (\<open>eff\<close>, composed by \<open>and_then\<close>). \<open>Failure\<close> adds panics: slices, indexing and \<open>expect\<close> have the bounds
  checks of Rust, and a theorem that a value is returned excludes the panic. \<open>Cursor\<close> is the interface of the three byte decoders, a locale
  each of them interprets.

  \<^bold>\<open>Log and codecs.\<close> \<open>Crc\<close>, \<open>Wal\<close>, \<open>Command\<close>, \<open>Txn_Record\<close>. The log is the bytes of the file, the length that is synced
  and a schedule of outcomes of system calls (success, failure, short write). Replay returns the longest intact prefix; the checksum finds
  every burst of up to four bytes; decoders accept exactly what encoders write.

  \<^bold>\<open>Transactions.\<close> \<open>Mvcc\<close> has the operations, \<open>Mvcc_Scan\<close> prefix scans, \<open>Mvcc_System\<close> any number of open transactions as a step
  relation, \<open>Mvcc_Durability\<close> recovery, \<open>Mvcc_Properties\<close> the properties: repeatable reads, first committer wins, what a commit
  changes, garbage collection, all with any I/O errors; and, on a disk without errors, that crashes between operations lose nothing that
  was committed. Every operation holds the mutex from begin to end, so an operation is one step.

  \<^bold>\<open>Pages, index and store.\<close> \<open>Page\<close> and \<open>Pager\<close> model the bytes, the cache and every failing call. \<open>BTree_Index\<close> is the
  arena of nodes with the recursive functions of the code (partial functions: not returning is \<open>None\<close>, and the theorems show they
  return); \<open>BTree_Structure\<close>, \<open>BTree_Refinement\<close>, \<open>BTree_Insert\<close> relate it to the ordered map, \<open>BTree\<close> interprets the locale
  \<open>ordered_index\<close> on it. \<open>BTree_Snapshot\<close>, \<open>BTree_Cells\<close>, \<open>BTree_Persistence\<close> are the page file and its publication by renames.
  \<open>Store\<close> and \<open>Store_Durability\<close> compose log, index and snapshot: on a disk without errors, after any successful calls, refused batches,
  checkpoints and crashes the store is the map of the completed calls. One crash is excluded, during the publication of a snapshot into a
  directory that an earlier crash left with the backup only: it loses the data, which is shown as well.

  \<^bold>\<open>SQL.\<close> \<open>Sql_Ast\<close>, \<open>Sql_Lexer\<close>, \<open>Sql_Parser\<close> work on the bytes of the source; the parser has as many units of fuel as there are
  tokens, which \<open>Sql_Print.parse_never_panics\<close> shows to be enough. \<open>Sql_Print\<close> and \<open>Sql_Wellformed\<close> show that the parser inverts a
  printer and accepts only well-formed statements. \<open>Catalog\<close> and \<open>Sql_Executor\<close> are the encodings, the planner, the row sources and the
  engine. \<open>Sql_Tables\<close>, \<open>Sql_Statements\<close>, \<open>Sql_Select\<close>, \<open>Sql_Relational\<close> and \<open>Sql_Engine\<close> refine a relational
  specification, a map from table names to columns and sets of rows; \<open>Sql_Properties\<close> states the result for scripts with any I/O errors, and
  for crashes between scripts on a disk without errors.

  \<^bold>\<open>Raft.\<close> \<open>Raft_State\<close> and \<open>Raft_Node\<close> are one node with its persistent file, \<open>Raft_Transport\<close> the two transports,
  \<open>Raft_Cluster\<close> the cluster with elections, replication, partitions and restarts. \<open>Raft_Safety\<close> has the invariant with auxiliary
  history, \<open>Raft_Cluster_Safety\<close> its preservation by the operations and every early return, \<open>Raft_Properties\<close> the consequences:
  one leader per term, agreement of applied commands, acknowledged commands stay. The runs call \<open>synchronize\<close> on leaders only (the code does
  not check it, and on another node it can overwrite committed entries), and restart all nodes only when their disks report no errors and hold
  the states. What one node keeps through crashes is shown for successful operations on a disk without faults.

  \<^bold>\<open>Server and client.\<close> \<open>Server\<close> is the node: \<open>handle\<close> with one branch per request, \<open>client_write\<close> and \<open>client_read\<close>, catching
  up, merging. The network is a parameter \<open>wire\<close>: connect to an address, send bytes, receive bytes or an error. \<open>Server_Protocol\<close> has
  the text formats (the hexadecimal decoders of catalog, server and client interpret the locale \<open>hex_decoder\<close>), \<open>Server_Node\<close> the records of one
  node. \<open>Server_Cluster\<close> instantiates the network by the other nodes: \<open>exchange\<close> for requests between nodes, \<open>front\<close> for those of
  clients, with refused connections and lost replies. Its invariant \<open>cluster_inv\<close> says that the newest record of every key is on a majority
  of the nodes and no node has a newer one or an uncommitted one; \<open>Server_Writes\<close> shows that a write keeps it. \<open>Client\<close> is the client with
  redirects and retries; the locale \<open>retried_request\<close> states what it relies on, and is interpreted on the nodes for reads, writes and
  deletions (\<open>Client_Cluster\<close>, \<open>Client_Requests\<close>, \<open>Client_Runs\<close>, \<open>Client_Properties\<close>). \<open>Client_Runs\<close> composes clients, network
  changes and restarts into runs; the specification is a map (\<open>map_step\<close>). \<open>Client_Healthy\<close> shows that a node with a majority answers.
  \<open>Cluster_Divergence\<close> runs the model with a lost reply between nodes, outside the assumptions of the refinement, and ends in a history that
  the modelled checker rejects.

  \<^bold>\<open>Command line.\<close> \<open>Cli\<close> has the commands of \<open>main.rs\<close> on local stores, SQL scripts and clusters: the lines they print, their result and the
  files they leave. Since every command opens its store again, its lemmas show that any sequence of \<open>set\<close> commands is read back by \<open>get\<close> and
  \<open>list\<close>.

  \<^bold>\<open>Assumptions.\<close> A crash keeps what was synced and any prefix of what was written after it; renames are atomic. The refinement of the
  cluster assumes an odd number of nodes, one client request at a time, connections between nodes that neither change nor lose a reply while a
  request is handled (they may change between requests), disks of the servers without errors, and that everything written fits into one
  frame of 16 MiB, the size of a dump. Strings given to the program are valid UTF-8, as Rust guarantees.

  \<^bold>\<open>Not modelled.\<close> Of \<open>main.rs\<close> the choice of the command and the demonstration, which prints with the debug format of
  the standard library; \<open>bench.rs\<close> measures time; \<open>lib.rs\<close> lists modules. Of the server the accept loop
  (\<open>run\<close>: one \<open>serve_connection\<close> per accepted connection until a flag is cleared), timeouts and the pauses of the client have no effect
  on the state. Path names, the synchronisation of directories, the publication of a snapshot on Windows, and the depth of the call stack
  are left out. Errors of the calls that read a log when it is opened (other than a missing one) are returned by the code as they are and are not
  modelled.
\<close>

end
